(* ===== verification/Prelude.thy ===== *)
theory Prelude
  imports Main "HOL-Library.Word" "HOL-Library.Sublist" "HOL-Library.List_Lexorder"
begin

text \<open>
  What every component of the development shares: the names of Go's basic types, the
  outcome of a call that may panic, the bit operations of Go's \<^verbatim>\<open>math/bits\<close> on
  64-bit words, and generic facts about lists that the component proofs use through the
  simpset or through the collections declared here.
\<close>

unbundle bit_operations_syntax

section \<open>Go's basic types\<close>

type_synonym byte = "8 word"
type_synonym bytes = "byte list"
type_synonym uint32 = "32 word"
type_synonym uint64 = "64 word"

text \<open>
  A Go call returns or panics. Where a loop of the source has no structural bound the
  model is a partial function into \<open>option\<close>, with None for a loop that never ends.
\<close>

datatype 'a outcome = Ret 'a | Panic

named_theorems bit_facts \<open>positions of set bits, population counts and shifts\<close>
named_theorems loop_unfold \<open>one step of a loop of the source\<close>

section \<open>The set bits of a word, lowest first\<close>

text \<open>
  \<open>slots w\<close> lists the positions of the set bits of a 64-bit word in ascending order. The
  operations of \<^verbatim>\<open>math/bits\<close> that the source uses are functions of it:
  \<^verbatim>\<open>OnesCount64\<close> is its length and \<^verbatim>\<open>TrailingZeros64\<close> its head, 64 for zero.
\<close>

definition slots :: "uint64 \<Rightarrow> nat list" where
  "slots w = filter (bit w) [0..<64]"

definition OnesCount64 :: "uint64 \<Rightarrow> nat" where
  "OnesCount64 w = length (slots w)"

definition TrailingZeros64 :: "uint64 \<Rightarrow> nat" where
  "TrailingZeros64 w = (case slots w of [] \<Rightarrow> 64 | s # _ \<Rightarrow> s)"

text \<open>The bit of a slot and the bits below a slot, as the source writes them.\<close>

definition slot_bit :: "nat \<Rightarrow> uint64" where
  "slot_bit s = push_bit s 1"

definition below :: "nat \<Rightarrow> uint64" where
  "below s = slot_bit s - 1"

lemma bit64_less: "bit (w :: uint64) i \<Longrightarrow> i < 64"
  using bit_imp_le_length [of w i] by simp

lemma set_slots [simp]: "set (slots w) = {i. bit w i}"
  by (auto simp: slots_def dest: bit64_less)

lemma sorted_slots [simp]: "sorted (slots w)"
  by (simp add: slots_def sorted_wrt_filter)

lemma distinct_slots [simp]: "distinct (slots w)"
  by (simp add: slots_def)

lemma slots_eq_iff [simp]: "slots w = slots v \<longleftrightarrow> w = v"
proof
  assume "slots w = slots v"
  then have "set (slots w) = set (slots v)" by simp
  then have "bit w i = bit v i" for i by auto
  then show "w = v" by (simp add: bit_eq_iff)
qed simp

lemma slots_unique: "sorted xs \<Longrightarrow> distinct xs \<Longrightarrow> set xs = {i. bit w i} \<Longrightarrow> slots w = xs"
  using sorted_distinct_set_unique [of "slots w" xs] by simp

lemma slots_0 [simp]: "slots 0 = []"
  by (simp add: slots_def)

lemma slots_Nil_iff [simp]: "slots w = [] \<longleftrightarrow> w = 0" "[] = slots w \<longleftrightarrow> w = 0"
  using slots_eq_iff [of w 0] by (auto simp del: slots_eq_iff simp: slots_def)

lemma length_slots_le: "length (slots w) \<le> 64"
  using length_filter_le [of "bit w" "[0..<64]"] by (simp add: slots_def)

lemma bit_slot_bit [bit_facts, simp]: "bit (slot_bit s) i \<longleftrightarrow> i = s \<and> s < 64"
  by (auto simp: slot_bit_def bit_simps)

lemma bit_below [bit_facts, simp]: "s \<le> 64 \<Longrightarrow> bit (below s) i \<longleftrightarrow> i < s"
proof -
  assume s: "s \<le> 64"
  have "below s = mask s"
    by (simp add: below_def slot_bit_def mask_eq_exp_minus_1 push_bit_eq_mult)
  then show ?thesis using s by (auto simp: bit_simps)
qed

lemma and_slot_bit_eq_0 [bit_facts, simp]: "s < 64 \<Longrightarrow> w AND slot_bit s = 0 \<longleftrightarrow> \<not> bit w s"
proof -
  assume s: "s < 64"
  have "w AND slot_bit s = 0" if "\<not> bit w s"
    using that s by (intro bit_word_eqI) (auto simp: bit_simps)
  moreover have "bit (w AND slot_bit s) s" if "bit w s" using that s by (simp add: bit_simps)
  ultimately show ?thesis by auto
qed

lemma OnesCount64_below [bit_facts]:
  "s \<le> 64 \<Longrightarrow> OnesCount64 (w AND below s) = length (filter (\<lambda>i. i < s) (slots w))"
proof -
  assume s: "s \<le> 64"
  have "slots (w AND below s) = filter (\<lambda>i. i < s) (slots w)"
    using s by (intro slots_unique) (auto simp: bit_simps sorted_wrt_filter)
  then show ?thesis by (simp add: OnesCount64_def)
qed

lemma TrailingZeros64_nonzero: "w \<noteq> 0 \<Longrightarrow> slots w = TrailingZeros64 w # tl (slots w)"
  by (cases "slots w") (auto simp: TrailingZeros64_def)

lemma bit_TrailingZeros64: "w \<noteq> 0 \<Longrightarrow> bit w (TrailingZeros64 w)"
proof -
  assume "w \<noteq> 0"
  then have "TrailingZeros64 w \<in> set (slots w)"
    by (metis TrailingZeros64_nonzero list.set_intros(1))
  then show ?thesis by simp
qed

lemma TrailingZeros64_less: "w \<noteq> 0 \<Longrightarrow> TrailingZeros64 w < 64"
  using bit_TrailingZeros64 bit64_less by blast

lemma TrailingZeros64_least: "bit w i \<Longrightarrow> TrailingZeros64 w \<le> i"
proof -
  assume i: "bit w i"
  then have "w \<noteq> 0" by auto
  then have s: "slots w = TrailingZeros64 w # tl (slots w)" by (rule TrailingZeros64_nonzero)
  have "i \<in> set (slots w)" using i by simp
  with s have "i = TrailingZeros64 w \<or> i \<in> set (tl (slots w))" by (metis set_ConsD)
  moreover have "sorted (TrailingZeros64 w # tl (slots w))" using s sorted_slots by metis
  ultimately show ?thesis by auto
qed

subsection \<open>Clearing the lowest set bit\<close>

text \<open>\<open>w AND (w - 1)\<close> clears the lowest set bit: the loops of the source advance by it.\<close>

lemma nat_minus_one_lowest:
  fixes m k :: nat
  shows "2 ^ Suc k * m + 2 ^ k - 1 = 2 ^ Suc k * m + (2 ^ k - 1)"
  by simp

lemma bit_pred_int_above:
  fixes a :: int
  assumes "bit a k" and "\<And>i. i < k \<Longrightarrow> \<not> bit a i"
  shows "bit (a - 1) i \<longleftrightarrow> (if i < k then True else if i = k then False else bit a i)"
proof -
  have low: "take_bit (Suc k) a = 2 ^ k"
    using assms by (intro bit_eqI) (auto simp: bit_simps less_Suc_eq)
  have a: "a = push_bit (Suc k) (drop_bit (Suc k) a) + 2 ^ k"
    using bits_ident [of "Suc k" a] low by simp
  have "a - 1 = push_bit (Suc k) (drop_bit (Suc k) a) + (2 ^ k - 1)"
    using a by simp
  also have "\<dots> = push_bit (Suc k) (drop_bit (Suc k) a) + mask k"
    by (simp add: mask_eq_exp_minus_1)
  also have "\<dots> = push_bit (Suc k) (drop_bit (Suc k) a) OR mask k"
    by (rule disjunctive_add_eq_or) (auto intro!: bit_eqI simp: bit_simps)
  finally have "bit (a - 1) i = (Suc k \<le> i \<and> bit a (Suc k + (i - Suc k)) \<or> i < k)"
    by (simp only: bit_or_iff bit_push_bit_iff bit_drop_bit_eq bit_mask_iff) simp
  then show ?thesis by auto
qed

lemma bit_and_pred:
  fixes w :: uint64
  assumes "w \<noteq> 0"
  shows "bit (w AND (w - 1)) i \<longleftrightarrow> bit w i \<and> i \<noteq> TrailingZeros64 w"
proof -
  let ?k = "TrailingZeros64 w"
  have k: "?k < 64" "bit w ?k" using assms by (auto intro: TrailingZeros64_less bit_TrailingZeros64)
  have "uint w \<noteq> 0" using assms by (simp add: uint_0_iff)
  then have "1 \<le> uint w" using uint_ge_0 [of w] by linarith
  then have "uint (1 :: uint64) \<le> uint w" by simp
  then have "uint (w - 1) = uint w - 1" using uint_sub_lem [of 1 w] by simp
  moreover have "bit (uint w - 1) i \<longleftrightarrow> (if i < ?k then True else if i = ?k then False else bit (uint w) i)"
    using k TrailingZeros64_least [of w] by (intro bit_pred_int_above) (auto simp: bit_uint_iff dest: leD)
  ultimately have "bit (uint (w - 1)) i \<longleftrightarrow> (if i < ?k then True else if i = ?k then False else bit (uint w) i)"
    by simp
  then show ?thesis
    using TrailingZeros64_least [of w i] by (auto simp: bit_simps bit_uint_iff split: if_splits)
qed

lemma slots_and_pred [bit_facts]: "w \<noteq> 0 \<Longrightarrow> slots (w AND (w - 1)) = tl (slots w)"
proof (rule slots_unique)
  assume w: "w \<noteq> 0"
  have s: "slots w = TrailingZeros64 w # tl (slots w)" using w by (rule TrailingZeros64_nonzero)
  show "sorted (tl (slots w))" by (simp add: sorted_tl)
  show "distinct (tl (slots w))" by (simp add: distinct_tl)
  have "distinct (TrailingZeros64 w # tl (slots w))" using s distinct_slots by metis
  moreover have "set (slots w) = insert (TrailingZeros64 w) (set (tl (slots w)))"
    by (metis s list.simps(15))
  ultimately show "set (tl (slots w)) = {i. bit (w AND (w - 1)) i}"
    using w by (auto simp: bit_and_pred)
qed

section \<open>Loops over the set bits of a word\<close>

text \<open>
  \<^verbatim>\<open>for w != 0 { s := TrailingZeros64(w); ...; w &= w - 1 }\<close>, the loop of the set
  algebra, with the body as a function of the slot and the loop's state.
\<close>

function bit_loop :: "(nat \<Rightarrow> 's \<Rightarrow> 's) \<Rightarrow> uint64 \<Rightarrow> 's \<Rightarrow> 's" where
  "bit_loop f w s = (if w = 0 then s else bit_loop f (w AND (w - 1)) (f (TrailingZeros64 w) s))"
  by pat_completeness auto
termination
  by (relation "measure (\<lambda>(f, w, s). OnesCount64 w)")
    (auto simp: OnesCount64_def slots_and_pred)

declare bit_loop.simps [simp del]

lemma bit_loop_fold [bit_facts]: "bit_loop f w s = fold f (slots w) s"
proof (induction f w s rule: bit_loop.induct)
  case (1 f w s)
  show ?case
  proof (cases "w = 0")
    case True
    then show ?thesis by (simp add: bit_loop.simps)
  next
    case False
    then have "slots w = TrailingZeros64 w # slots (w AND (w - 1))"
      using TrailingZeros64_nonzero [of w] by (simp add: slots_and_pred)
    with False 1 show ?thesis by (simp add: bit_loop.simps [of f w s])
  qed
qed

section \<open>Inserting, removing and replacing by position in a list of slots\<close>

text \<open>
  A directory node keeps one child per set bit, in slot order: child number \<open>rank\<close> belongs
  to the slot with \<open>rank\<close> set bits below it.
\<close>

definition rank :: "uint64 \<Rightarrow> nat \<Rightarrow> nat" where
  "rank w s = OnesCount64 (w AND below s)"

lemma sorted_filter_less:
  "sorted xs \<Longrightarrow> filter (\<lambda>i. i < (s :: nat)) xs = takeWhile (\<lambda>i. i < s) xs"
proof (induction xs)
  case (Cons a xs)
  show ?case
  proof (cases "a < s")
    case True
    with Cons show ?thesis by simp
  next
    case False
    with Cons.prems have "filter (\<lambda>i. i < s) (a # xs) = []" by (auto simp: filter_empty_conv)
    with False show ?thesis by simp
  qed
qed simp

lemma rank_eq: "s \<le> 64 \<Longrightarrow> rank w s = length (takeWhile (\<lambda>i. i < s) (slots w))"
  by (simp add: rank_def OnesCount64_below sorted_filter_less)

lemma slots_around:
  assumes "bit w s"
  obtains xs ys where "slots w = xs @ s # ys" and "rank w s = length xs"
proof -
  let ?t = "takeWhile (\<lambda>i. i < s) (slots w)" and ?d = "dropWhile (\<lambda>i. i < s) (slots w)"
  have app: "slots w = ?t @ ?d" by simp
  have "s \<in> set (?t @ ?d)" using assms by simp
  then have mem: "s \<in> set ?d" by (auto simp del: takeWhile_dropWhile_id dest: set_takeWhileD)
  then obtain y ys where d: "?d = y # ys" by (cases ?d) auto
  have "\<not> y < s" using d by (simp add: dropWhile_eq_Cons_conv)
  moreover have "sorted (?t @ ?d)" by simp
  then have "sorted (y # ys)" by (simp only: sorted_append d)
  ultimately have "y = s" using mem d by auto
  then show thesis using that [of ?t ys] app d bit64_less [OF assms] by (simp add: rank_eq)
qed

lemma slots_split:
  assumes "bit w s"
  shows "slots w = take (rank w s) (slots w) @ s # drop (Suc (rank w s)) (slots w)"
    and "slots w ! rank w s = s" and "rank w s < length (slots w)"
proof -
  obtain xs ys where x: "slots w = xs @ s # ys" and r: "rank w s = length xs"
    using slots_around [OF assms] .
  show "slots w = take (rank w s) (slots w) @ s # drop (Suc (rank w s)) (slots w)"
    and "slots w ! rank w s = s" and "rank w s < length (slots w)"
    by (simp_all add: x r)
qed

lemma slots_insert:
  assumes "\<not> bit w s" and "s < 64"
  shows "slots (w OR slot_bit s) = take (rank w s) (slots w) @ s # drop (rank w s) (slots w)"
proof (rule slots_unique)
  define xs ys where "xs = takeWhile (\<lambda>i. i < s) (slots w)" and "ys = dropWhile (\<lambda>i. i < s) (slots w)"
  have app: "slots w = xs @ ys" by (simp add: xs_def ys_def)
  have r: "rank w s = length xs" using assms(2) by (simp add: rank_eq xs_def)
  have lo: "\<forall>x\<in>set xs. x < s" by (auto simp: xs_def dest: set_takeWhileD)
  have so: "sorted (xs @ ys)" "distinct (xs @ ys)" "set (xs @ ys) = {i. bit w i}"
    using app by (metis sorted_slots, metis distinct_slots, metis set_slots)
  have hi: "\<forall>x\<in>set ys. s \<le> x"
  proof (cases ys)
    case (Cons y zs)
    then have "\<not> y < s" by (simp add: ys_def dropWhile_eq_Cons_conv)
    then show ?thesis using so(1) Cons by (auto simp: sorted_append)
  qed simp
  have ins: "take (rank w s) (slots w) @ s # drop (rank w s) (slots w) = xs @ s # ys"
    by (simp add: app r)
  show "sorted (take (rank w s) (slots w) @ s # drop (rank w s) (slots w))"
    unfolding ins using so(1) lo hi by (fastforce simp: sorted_append)
  show "distinct (take (rank w s) (slots w) @ s # drop (rank w s) (slots w))"
    unfolding ins using so(2,3) assms(1) by auto
  have "set (xs @ s # ys) = insert s {i. bit w i}" using so(3) by auto
  then show "set (take (rank w s) (slots w) @ s # drop (rank w s) (slots w)) = {i. bit (w OR slot_bit s) i}"
    unfolding ins using assms by (auto simp: bit_simps)
qed

lemma slots_remove:
  assumes "bit w s"
  shows "slots (w AND NOT (slot_bit s)) = take (rank w s) (slots w) @ drop (Suc (rank w s)) (slots w)"
proof (rule slots_unique)
  note sp = slots_split(1) [OF assms]
  let ?t = "take (rank w s) (slots w)" and ?d = "drop (Suc (rank w s)) (slots w)"
  have so: "sorted (?t @ s # ?d)" and di: "distinct (?t @ s # ?d)" and se: "set (?t @ s # ?d) = {i. bit w i}"
    using sp by (metis sorted_slots, metis distinct_slots, metis set_slots)
  show "sorted (?t @ ?d)" using so by (auto simp: sorted_append)
  show "distinct (?t @ ?d)" using di by auto
  have "set (?t @ ?d) = {i. bit w i} - {s}" using se di by auto
  then show "set (?t @ ?d) = {i. bit (w AND NOT (slot_bit s)) i}"
    using bit64_less [OF assms] by (auto simp: bit_simps dest: bit64_less)
qed

lemma map_of_zip_outside: "s \<notin> set xs \<Longrightarrow> map_of (zip xs ks) s = None"
  by (auto simp: map_of_eq_None_iff dest: set_zip_leftD)

lemma map_of_around:
  assumes "map_of ps s = None"
  shows "map_of (ps @ (s, k) # qs) = (map_of (ps @ qs))(s \<mapsto> k)"
  using assms by (auto simp: fun_eq_iff map_add_def split: option.splits)

lemma map_of_zip_insert:
  assumes "length ks = length xs" and "r \<le> length xs" and "distinct (take r xs @ s # drop r xs)"
  shows "map_of (zip (take r xs @ s # drop r xs) (take r ks @ k # drop r ks)) = (map_of (zip xs ks))(s \<mapsto> k)"
proof -
  have z: "zip xs ks = zip (take r xs) (take r ks) @ zip (drop r xs) (drop r ks)"
    using assms(1,2) by (metis append_take_drop_id length_take zip_append)
  have "map_of (zip (take r xs) (take r ks)) s = None"
    using assms(3) by (intro map_of_zip_outside) auto
  then show ?thesis
    using assms(1,2) by (simp add: z map_of_around zip_append del: map_of_append)
qed

lemma map_of_zip_remove:
  assumes "length ks = length xs" and "r < length xs" and "distinct xs" and "xs ! r = s"
  shows "map_of (zip (take r xs @ drop (Suc r) xs) (take r ks @ drop (Suc r) ks)) = (map_of (zip xs ks))(s := None)"
proof -
  let ?p = "zip (take r xs) (take r ks)" and ?q = "zip (drop (Suc r) xs) (drop (Suc r) ks)"
  have x: "xs = take r xs @ s # drop (Suc r) xs" using assms by (metis id_take_nth_drop)
  have k: "ks = take r ks @ ks ! r # drop (Suc r) ks" using assms by (metis id_take_nth_drop)
  have l: "length (take r ks) = length (take r xs)" using assms by simp
  have z: "zip xs ks = ?p @ (s, ks ! r) # ?q"
    by (subst x, subst k, subst zip_append) (use l in auto)
  have d: "distinct (take r xs @ s # drop (Suc r) xs)" using assms(3) x by metis
  have "map_of ?p s = None" "map_of ?q s = None"
    using d by (auto intro!: map_of_zip_outside)
  moreover have "zip (take r xs @ drop (Suc r) xs) (take r ks @ drop (Suc r) ks) = ?p @ ?q"
    using l by (simp add: zip_append)
  ultimately show ?thesis
    by (simp add: z map_of_around del: map_of_append) (simp add: fun_eq_iff map_add_def)
qed

lemma map_of_zip_at: "distinct xs \<Longrightarrow> length ms = length xs \<Longrightarrow> i < length xs \<Longrightarrow> map_of (zip xs ms) (xs ! i) = Some (ms ! i)"
  by (simp add: map_of_zip_nth)

lemma map_of_zip_update:
  assumes "length ks = length xs" and "r < length xs" and "distinct xs" and "xs ! r = s"
  shows "map_of (zip xs (ks[r := k])) = (map_of (zip xs ks))(s \<mapsto> k)"
proof (rule ext)
  fix t
  show "map_of (zip xs (ks[r := k])) t = ((map_of (zip xs ks))(s \<mapsto> k)) t"
  proof (cases "t \<in> set xs")
    case True
    then obtain i where i: "i < length xs" "t = xs ! i" by (auto simp: in_set_conv_nth)
    have "map_of (zip xs (ks[r := k])) t = Some (ks[r := k] ! i)"
      using i assms by (simp add: map_of_zip_at del: map_of_eq_Some_iff)
    moreover have "map_of (zip xs ks) t = Some (ks ! i)"
      using i assms by (simp add: map_of_zip_at del: map_of_eq_Some_iff)
    moreover have "t = s \<longleftrightarrow> i = r" using i assms by (auto simp: nth_eq_iff_index_eq)
    ultimately show ?thesis using i assms by (auto simp: nth_list_update)
  next
    case False
    then show ?thesis using assms by (auto simp: map_of_zip_outside)
  qed
qed

section \<open>Numbers of words\<close>

lemma unat_and_mask: "unat (w AND mask n) = unat (w :: 'a :: len word) mod 2 ^ n"
proof -
  have "unat (w AND mask n) = unat (take_bit n w)" by (simp only: take_bit_eq_mask)
  also have "\<dots> = take_bit n (unat w)" by (rule unsigned_take_bit_eq)
  finally show ?thesis by (simp only: take_bit_eq_mod)
qed

lemma unat_drop_bit: "unat (drop_bit n w) = unat (w :: 'a :: len word) div 2 ^ n"
proof -
  have "unat (drop_bit n w) = drop_bit n (unat w)"
    using unsigned_less [of w] by (simp add: unsigned_drop_bit_eq take_bit_nat_eq_self)
  then show ?thesis by (simp only: drop_bit_eq_div)
qed

lemma unat_or_add:
  fixes i :: uint32
  assumes i: "unat i mod 2 ^ k = 0" and j: "j < 2 ^ k" and k: "k \<le> 32"
  shows "unat (i OR word_of_nat j) = unat i + j"
proof -
  have "(2 :: nat) ^ k \<le> 2 ^ 32" using k by (rule power_increasing) simp
  with j have "unat (word_of_nat j :: uint32) = j" by (simp add: unat_of_nat)
  then have "unat (i OR word_of_nat j) = unat i OR j" by (simp add: unsigned_or_eq)
  moreover have "unat i AND j = 0"
  proof (rule bit_eqI)
    fix b
    have "\<not> bit (unat i) b" if "b < k"
    proof -
      have "bit (take_bit k (unat i)) b = False" using i by (simp add: take_bit_eq_mod)
      with that show ?thesis by (simp add: bit_take_bit_iff)
    qed
    moreover have "\<not> bit j b" if "k \<le> b"
    proof -
      have "take_bit k j = j" using j by (simp add: take_bit_nat_eq_self)
      with that show ?thesis by (metis bit_take_bit_iff not_less)
    qed
    ultimately show "bit (unat i AND j) b \<longleftrightarrow> bit (0 :: nat) b"
      by (cases "b < k") (simp_all add: bit_and_iff)
  qed
  then have "unat i + j = unat i OR j" by (rule disjunctive_add_eq_or)
  ultimately show ?thesis by simp
qed

lemma push_bit_word_of_nat: "push_bit k (word_of_nat s :: uint32) = word_of_nat (s * 2 ^ k)"
  by (simp add: push_bit_eq_mult)

lemma combine_less:
  fixes s m j w :: nat
  assumes "s < m" and "j < w"
  shows "s * w + j < m * w"
proof -
  have "Suc s * w \<le> m * w" using assms(1) by (intro mult_le_mono1 Suc_leI)
  then show ?thesis using assms(2) by simp
qed

lemma lex_div_mod:
  fixes j m s :: nat
  assumes "m < w" and "s \<le> j div w" and "j div w = s \<Longrightarrow> m \<le> j mod w"
  shows "s * w + m \<le> j"
proof (cases "j div w = s")
  case True
  then have "j = s * w + j mod w" by (metis div_mult_mod_eq)
  with True assms(3) show ?thesis by linarith
next
  case False
  then have "Suc s * w \<le> j div w * w" using assms(2) by (intro mult_le_mono1) simp
  moreover have "\<dots> \<le> j" by (rule div_times_less_eq_dividend)
  ultimately have "Suc s * w \<le> j" by (rule order_trans)
  then show ?thesis using assms(1) by simp
qed

lemma card_remove_word:
  assumes "finite A" and "x \<in> A"
  shows "(word_of_nat (card (A - {x})) :: uint32) = word_of_nat (card A) - 1"
proof -
  have "card A = Suc (card (A - {x}))" using assms by (rule card.remove)
  then show ?thesis by (simp only: of_nat_Suc add_diff_cancel_left')
qed

end
