(* ===== verification/Bitmap.thy ===== *)
theory Bitmap
  imports Prelude
begin

text \<open>
  The compressed bitmaps of \<^verbatim>\<open>internal/bitmap/bitmap.go\<close>: a trie whose leaves are chunks
  of 256 ids (four 64-bit words) under directory nodes of up to 64 children. A Bitmap value is
  immutable, so this theory models nodes as values, and a write returns a new node; that the
  source's Writer changes the nodes of its own epoch in place is the subject of BitmapHeap. Heights are
  natural numbers (the source bounds them by maxHeight = 4); counts are 32-bit and wrap as in
  the source.
\<close>

section \<open>Nodes and their layout\<close>

datatype bnode =
  BNode (n_count: uint32) (n_height: nat) (n_words: "uint64 list") (n_present: uint64) (n_kids: "bnode list")

type_synonym bitmap = "bnode option"

definition maxHeight :: nat where
  "maxHeight = (32 - 8 + 6 - 1) div 6"

definition zero_words :: "uint64 list" where
  "zero_words = [0, 0, 0, 0]"

text \<open>How many low bits of an id a tree of a given height covers.\<close>

definition bspan :: "nat \<Rightarrow> nat" where
  "bspan h = 8 + 6 * h"

text \<open>Whether an id lies beyond what a tree of height \<open>h\<close> covers.\<close>

definition beyond :: "nat \<Rightarrow> uint32 \<Rightarrow> bool" where
  "beyond h i \<longleftrightarrow> bspan h < 32 \<and> drop_bit (bspan h) i \<noteq> 0"

text \<open>The slot of an id in a directory node whose children have height \<open>h\<close>.\<close>

definition slot_of :: "nat \<Rightarrow> uint32 \<Rightarrow> nat" where
  "slot_of h i = unat (drop_bit (bspan h) i AND 63)"

text \<open>The word of a chunk an id is in, and its bit there.\<close>

definition word_of_id :: "uint32 \<Rightarrow> nat" where
  "word_of_id i = unat (drop_bit 6 (i AND 255))"

definition bit_of_id :: "uint32 \<Rightarrow> nat" where
  "bit_of_id i = unat ((i AND 255) AND 63)"

text \<open>The child for a slot that is present: found by a population count.\<close>

definition kid :: "bnode \<Rightarrow> nat \<Rightarrow> bnode" where
  "kid n s = n_kids n ! OnesCount64 (n_present n AND below s)"

section \<open>Queries\<close>

definition Len :: "bitmap \<Rightarrow> int" where
  "Len b = (case b of None \<Rightarrow> 0 | Some n \<Rightarrow> uint (n_count n))"

definition Empty :: "bitmap \<Rightarrow> bool" where
  "Empty b \<longleftrightarrow> b = None"

primrec has_node :: "nat \<Rightarrow> bnode \<Rightarrow> uint32 \<Rightarrow> bool" where
  "has_node 0 n i = (n_words n ! word_of_id i AND slot_bit (bit_of_id i) \<noteq> 0)"
| "has_node (Suc h) n i =
    (let s = slot_of h i
     in if n_present n AND slot_bit s = 0 then False else has_node h (kid n s) i)"

definition Has :: "bitmap \<Rightarrow> uint32 \<Rightarrow> bool" where
  "Has b i = (case b of None \<Rightarrow> False
    | Some n \<Rightarrow> if beyond (n_height n) i then False else has_node (n_height n) n i)"

text \<open>The least id: down the first children, then the first word that is not zero.\<close>

fun min_word :: "nat \<Rightarrow> uint64 list \<Rightarrow> uint32 \<Rightarrow> uint32 outcome" where
  "min_word w [] i = Panic"
| "min_word w (x # xs) i =
    (if x \<noteq> 0 then Ret (i OR word_of_nat (w * 64 + TrailingZeros64 x)) else min_word (Suc w) xs i)"

primrec min_node :: "nat \<Rightarrow> bnode \<Rightarrow> uint32 \<Rightarrow> uint32 outcome" where
  "min_node 0 n i = min_word 0 (n_words n) i"
| "min_node (Suc h) n i =
    min_node h (n_kids n ! 0) (i OR push_bit (bspan h) (word_of_nat (TrailingZeros64 (n_present n))))"

definition Min_id :: "bitmap \<Rightarrow> uint32 option outcome" where
  "Min_id b = (case b of None \<Rightarrow> Ret None
    | Some n \<Rightarrow> (case min_node (n_height n) n 0 of Ret i \<Rightarrow> Ret (Some i) | Panic \<Rightarrow> Panic))"

section \<open>Adding an id\<close>

primrec branch :: "nat \<Rightarrow> uint32 \<Rightarrow> bnode" where
  "branch 0 i = BNode 1 0 (zero_words[word_of_id i := slot_bit (bit_of_id i)]) 0 []"
| "branch (Suc h) i = BNode 1 (Suc h) zero_words (slot_bit (slot_of h i)) [branch h i]"

primrec set_node :: "nat \<Rightarrow> bnode \<Rightarrow> uint32 \<Rightarrow> bnode \<times> bool" where
  "set_node 0 n i =
    (let w = word_of_id i; bit = slot_bit (bit_of_id i)
     in if n_words n ! w AND bit \<noteq> 0 then (n, False)
        else (BNode (n_count n + 1) (n_height n) ((n_words n)[w := n_words n ! w OR bit]) (n_present n) (n_kids n), True))"
| "set_node (Suc h) n i =
    (let s = slot_of h i; idx = OnesCount64 (n_present n AND below s)
     in if n_present n AND slot_bit s = 0
        then (BNode (n_count n + 1) (n_height n) (n_words n) (n_present n OR slot_bit s)
                (take idx (n_kids n) @ branch h i # drop idx (n_kids n)), True)
        else (case set_node h (n_kids n ! idx) i of (child, added) \<Rightarrow>
          if \<not> added then (n, False)
          else (BNode (n_count n + 1) (n_height n) (n_words n) (n_present n) ((n_kids n)[idx := child]), True)))"

text \<open>Growing the directory: the old root becomes child 0 of a new one.\<close>

definition lift_node :: "bnode \<Rightarrow> bnode" where
  "lift_node n = BNode (n_count n) (n_height n + 1) zero_words 1 [n]"

function grow_node :: "bnode \<Rightarrow> uint32 \<Rightarrow> bnode" where
  "grow_node n i = (if beyond (n_height n) i then grow_node (lift_node n) i else n)"
  by pat_completeness auto
termination
  by (relation "measure (\<lambda>(n, i). 32 - bspan (n_height n))") (auto simp: beyond_def lift_node_def bspan_def)

function first_height :: "nat \<Rightarrow> uint32 \<Rightarrow> nat" where
  "first_height h i = (if beyond h i then first_height (h + 1) i else h)"
  by pat_completeness auto
termination
  by (relation "measure (\<lambda>(h, i). 32 - bspan h)") (auto simp: beyond_def bspan_def)

declare grow_node.simps [simp del] first_height.simps [simp del]

definition Set_id :: "bitmap \<Rightarrow> uint32 \<Rightarrow> bitmap \<times> bool" where
  "Set_id b i = (case b of
      None \<Rightarrow> (Some (branch (first_height 0 i) i), True)
    | Some n \<Rightarrow> let n' = grow_node n i
                in case set_node (n_height n') n' i of (root, added) \<Rightarrow> (Some root, added))"

section \<open>Removing an id\<close>

primrec clear_node :: "nat \<Rightarrow> bnode \<Rightarrow> uint32 \<Rightarrow> bnode option" where
  "clear_node 0 n i =
    (if n_count n = 1 then None
     else let w = word_of_id i
       in Some (BNode (n_count n - 1) (n_height n)
            ((n_words n)[w := n_words n ! w AND NOT (slot_bit (bit_of_id i))]) (n_present n) (n_kids n)))"
| "clear_node (Suc h) n i =
    (if n_count n = 1 then None
     else let s = slot_of h i; idx = OnesCount64 (n_present n AND below s)
       in case clear_node h (n_kids n ! idx) i of
            Some child \<Rightarrow> Some (BNode (n_count n - 1) (n_height n) (n_words n) (n_present n) ((n_kids n)[idx := child]))
          | None \<Rightarrow> Some (BNode (n_count n - 1) (n_height n) (n_words n) (n_present n AND NOT (slot_bit s))
                           (take idx (n_kids n) @ drop (Suc idx) (n_kids n))))"

text \<open>
  Dropping the directory levels that only lead to child 0. A directory node with a present
  bit has a child, so the last equation is never used on a well-formed tree.
\<close>

fun strip :: "bnode \<Rightarrow> bnode" where
  "strip (BNode c h ws p (k # ks)) = (if h > 0 \<and> p = 1 then strip k else BNode c h ws p (k # ks))"
| "strip (BNode c h ws p []) = BNode c h ws p []"

definition Clear_id :: "bitmap \<Rightarrow> uint32 \<Rightarrow> bitmap \<times> bool" where
  "Clear_id b i =
    (if \<not> Has b i then (b, False)
     else case b of None \<Rightarrow> (b, False)
       | Some n \<Rightarrow> (case clear_node (n_height n) n i of
           None \<Rightarrow> (None, True)
         | Some root \<Rightarrow> (Some (strip root), True)))"

section \<open>The set a tree stands for\<close>

text \<open>
  \<open>child n\<close> is the child of each present slot; \<open>elems h n\<close> is the set of ids, relative to
  the id range the node covers, that a node of height \<open>h\<close> holds.
\<close>

definition child :: "bnode \<Rightarrow> nat \<Rightarrow> bnode option" where
  "child n = map_of (zip (slots (n_present n)) (n_kids n))"

primrec elems :: "nat \<Rightarrow> bnode \<Rightarrow> nat set" where
  "elems 0 n = {i. i < 256 \<and> bit (n_words n ! (i div 64)) (i mod 64)}"
| "elems (Suc h) n =
    {i. case child n (i div 2 ^ bspan h) of None \<Rightarrow> False | Some k \<Rightarrow> i mod 2 ^ bspan h \<in> elems h k}"

text \<open>
  Well-formedness: the shape of a node of height \<open>h\<close>, no empty subtree, and the count (which
  is kept modulo \<open>2 ^ 32\<close>) right at every node.
\<close>

primrec wf_node :: "nat \<Rightarrow> bnode \<Rightarrow> bool" where
  "wf_node 0 n \<longleftrightarrow> n_height n = 0 \<and> length (n_words n) = 4 \<and> n_present n = 0 \<and> n_kids n = [] \<and>
     elems 0 n \<noteq> {} \<and> n_count n = word_of_nat (card (elems 0 n))"
| "wf_node (Suc h) n \<longleftrightarrow> n_height n = Suc h \<and> n_words n = zero_words \<and> n_present n \<noteq> 0 \<and>
     length (n_kids n) = OnesCount64 (n_present n) \<and> (\<forall>k\<in>set (n_kids n). wf_node h k) \<and>
     n_count n = word_of_nat (card (elems (Suc h) n))"

declare elems.simps(2) [simp del] wf_node.simps(2) [simp del]

text \<open>A bitmap is canonical: as low as its ids allow.\<close>

definition canonical :: "bnode \<Rightarrow> bool" where
  "canonical n \<longleftrightarrow> (0 < n_height n \<longrightarrow> n_present n \<noteq> 1)"

definition bm_wf :: "bitmap \<Rightarrow> bool" where
  "bm_wf b \<longleftrightarrow> (case b of None \<Rightarrow> True
     | Some n \<Rightarrow> n_height n \<le> maxHeight \<and> wf_node (n_height n) n \<and> canonical n)"

definition bm_set :: "bitmap \<Rightarrow> nat set" where
  "bm_set b = (case b of None \<Rightarrow> {} | Some n \<Rightarrow> elems (n_height n) n)"

subsection \<open>Arithmetic of ids\<close>

definition low_id :: "nat \<Rightarrow> uint32 \<Rightarrow> nat" where
  "low_id h i = unat i mod 2 ^ bspan h"

lemma bspan_simps [simp]: "bspan 0 = 8" "bspan (Suc h) = bspan h + 6"
  by (simp_all add: bspan_def)

lemma bspan_pow_Suc: "(2 :: nat) ^ bspan (Suc h) = 2 ^ bspan h * 64"
  by (simp add: power_add)

lemma slot_of_eq: "slot_of h i = low_id (Suc h) i div 2 ^ bspan h"
proof -
  have "slot_of h i = unat i div 2 ^ bspan h mod 64"
    using unat_and_mask [of "drop_bit (bspan h) i" 6]
    by (simp add: slot_of_def mask_eq_exp_minus_1 unat_drop_bit)
  also have "\<dots> = unat i mod (2 ^ bspan h * 64) div 2 ^ bspan h"
    by (simp add: mod_mult2_eq)
  finally show ?thesis by (simp add: low_id_def power_add)
qed

lemma low_id_mod [simp]: "low_id (Suc h) i mod 2 ^ bspan h = low_id h i"
  by (simp add: low_id_def power_add mod_mult2_eq)

lemma low_id_div [simp]: "low_id (Suc h) i div 2 ^ bspan h = slot_of h i"
  by (simp add: slot_of_eq)

lemma slot_of_less [simp]: "slot_of h i < 64"
proof -
  have "low_id (Suc h) i < 2 ^ bspan h * 64" by (simp add: low_id_def power_add)
  then have "low_id (Suc h) i < 64 * 2 ^ bspan h" by (simp only: mult.commute)
  then show ?thesis unfolding slot_of_eq by (rule less_mult_imp_div_less)
qed

lemma low_id_less [simp]: "low_id h i < 2 ^ bspan h"
  by (simp add: low_id_def)

lemma word_of_id_eq: "word_of_id i = low_id 0 i div 64"
proof -
  have "unat (i AND 255) = unat i mod 256"
    using unat_and_mask [of i 8] by (simp add: mask_eq_exp_minus_1)
  then show ?thesis
    unfolding word_of_id_def unat_drop_bit low_id_def by simp
qed

lemma bit_of_id_eq: "bit_of_id i = low_id 0 i mod 64"
proof -
  have "unat (i AND 255) = unat i mod 256" "unat ((i AND 255) AND 63) = unat (i AND 255) mod 64"
    using unat_and_mask [of i 8] unat_and_mask [of "i AND 255" 6] by (simp_all add: mask_eq_exp_minus_1)
  then show ?thesis by (simp add: bit_of_id_def low_id_def)
qed

lemma bit_of_id_less [simp]: "bit_of_id i < 64" and word_of_id_less [simp]: "word_of_id i < 4"
proof -
  have "low_id 0 i < 256" using low_id_less [of 0 i] by simp
  then show "bit_of_id i < 64" "word_of_id i < 4"
    by (simp_all add: bit_of_id_eq word_of_id_eq)
qed

lemma beyond_iff: "h \<le> maxHeight \<Longrightarrow> beyond h i \<longleftrightarrow> 2 ^ bspan h \<le> unat i"
proof -
  assume h: "h \<le> maxHeight"
  have d: "drop_bit (bspan h) i \<noteq> 0 \<longleftrightarrow> 2 ^ bspan h \<le> unat i"
    using unat_drop_bit [of "bspan h" i] by (metis div_eq_0_iff not_less unat_eq_zero power_not_zero zero_neq_numeral)
  show ?thesis
  proof (cases "bspan h < 32")
    case True
    with d show ?thesis by (simp add: beyond_def)
  next
    case False
    with h have "bspan h = 32" by (auto simp: bspan_def maxHeight_def)
    moreover have "unat i < 2 ^ 32" using unsigned_less [of i] by simp
    ultimately show ?thesis by (simp add: beyond_def)
  qed
qed

lemma low_id_eq: "unat i < 2 ^ bspan h \<Longrightarrow> low_id h i = unat i"
  by (simp add: low_id_def)

subsection \<open>Basic facts about well-formed nodes\<close>

lemma length_kids: "wf_node (Suc h) n \<Longrightarrow> length (n_kids n) = length (slots (n_present n))"
  by (simp add: wf_node.simps(2) OnesCount64_def)

lemma present_nonzero: "wf_node (Suc h) n \<Longrightarrow> n_present n \<noteq> 0"
  by (simp add: wf_node.simps(2))

lemma kids_wf: "wf_node (Suc h) n \<Longrightarrow> k \<in> set (n_kids n) \<Longrightarrow> wf_node h k"
  by (simp add: wf_node.simps(2))

lemma wf_count: "wf_node h n \<Longrightarrow> n_count n = word_of_nat (card (elems h n))"
  by (cases h) (simp_all add: wf_node.simps(2))

lemma kid_eq: "kid n s = n_kids n ! rank (n_present n) s"
  by (simp add: kid_def rank_def)

lemma child_present:
  assumes "wf_node (Suc h) n" and "bit (n_present n) s"
  shows "child n s = Some (kid n s)" and "rank (n_present n) s < length (n_kids n)"
proof -
  note sp = slots_split [OF assms(2)] and l = length_kids [OF assms(1)]
  show "child n s = Some (kid n s)"
    using map_of_zip_at [OF distinct_slots l sp(3)] sp(2) by (simp add: child_def kid_eq)
  show "rank (n_present n) s < length (n_kids n)" using sp(3) l by simp
qed

lemma child_absent: "\<not> bit (n_present n) s \<Longrightarrow> child n s = None"
  by (simp add: child_def map_of_zip_outside)

lemma child_SomeD: "child n s = Some k \<Longrightarrow> bit (n_present n) s"
  using child_absent [of n s] by (cases "bit (n_present n) s") auto

lemma child_eq:
  "wf_node (Suc h) n \<Longrightarrow> child n s = (if bit (n_present n) s then Some (kid n s) else None)"
  by (simp add: child_present(1) child_absent)

lemma child_wf: "wf_node (Suc h) n \<Longrightarrow> child n s = Some k \<Longrightarrow> wf_node h k"
  by (auto simp: child_def dest!: map_of_SomeD set_zip_rightD kids_wf)

lemma kid_wf: "wf_node (Suc h) n \<Longrightarrow> bit (n_present n) s \<Longrightarrow> wf_node h (kid n s)"
  using child_present(1) child_wf by blast

lemma in_elems_Suc:
  "i \<in> elems (Suc h) n \<longleftrightarrow> (\<exists>k. child n (i div 2 ^ bspan h) = Some k \<and> i mod 2 ^ bspan h \<in> elems h k)"
  by (auto simp: elems.simps(2) split: option.splits)

lemma elems_less: "wf_node h n \<Longrightarrow> i \<in> elems h n \<Longrightarrow> i < 2 ^ bspan h"
proof (cases h)
  case (Suc g)
  assume wf: "wf_node h n" and i: "i \<in> elems h n"
  then obtain k where "child n (i div 2 ^ bspan g) = Some k" unfolding Suc in_elems_Suc by blast
  then have "bit (n_present n) (i div 2 ^ bspan g)" by (rule child_SomeD)
  then have "i div 2 ^ bspan g < 64" by (rule bit64_less)
  then have "i < 64 * 2 ^ bspan g" by (simp add: div_less_iff_less_mult)
  also have "\<dots> = 2 ^ bspan h" by (simp add: Suc power_add)
  finally show ?thesis .
qed simp

lemma finite_elems [simp]: "wf_node h n \<Longrightarrow> finite (elems h n)"
  by (rule finite_subset [of _ "{..< 2 ^ bspan h}"]) (auto dest: elems_less)

lemma card_elems_le: "wf_node h n \<Longrightarrow> card (elems h n) \<le> 2 ^ bspan h"
  using card_mono [of "{..< 2 ^ bspan h}" "elems h n"] by (auto dest: elems_less)

lemma combine_div_mod:
  fixes j s :: nat
  shows "j < 2 ^ bspan h \<Longrightarrow> (s * 2 ^ bspan h + j) div 2 ^ bspan h = s \<and> (s * 2 ^ bspan h + j) mod 2 ^ bspan h = j"
  by simp

lemma elems_nonempty: "wf_node h n \<Longrightarrow> elems h n \<noteq> {}"
proof (induction h arbitrary: n)
  case (Suc h)
  obtain s where s: "bit (n_present n) s"
    using present_nonzero [OF Suc.prems] by (metis bit_TrailingZeros64)
  note k = kid_wf [OF Suc.prems s]
  then obtain j where j: "j \<in> elems h (kid n s)" using Suc.IH by blast
  then have "s * 2 ^ bspan h + j \<in> elems (Suc h) n"
    using j child_present(1) [OF Suc.prems s] combine_div_mod [OF elems_less [OF k j], of s]
    unfolding in_elems_Suc by auto
  then show ?case by blast
qed simp

lemma wf_height [simp]: "wf_node h n \<Longrightarrow> n_height n = h"
  by (cases h) (simp_all add: wf_node.simps(2))

lemma present_iff_elems:
  assumes "wf_node (Suc h) n"
  shows "bit (n_present n) s \<longleftrightarrow> (\<exists>i\<in>elems (Suc h) n. i div 2 ^ bspan h = s)"
proof
  assume s: "bit (n_present n) s"
  note k = kid_wf [OF assms s]
  obtain j where j: "j \<in> elems h (kid n s)" using elems_nonempty [OF k] by blast
  have "s * 2 ^ bspan h + j \<in> elems (Suc h) n"
    using j child_present(1) [OF assms s] combine_div_mod [OF elems_less [OF k j], of s]
    unfolding in_elems_Suc by auto
  moreover have "(s * 2 ^ bspan h + j) div 2 ^ bspan h = s"
    using combine_div_mod [OF elems_less [OF k j], of s] by blast
  ultimately show "\<exists>i\<in>elems (Suc h) n. i div 2 ^ bspan h = s" by blast
next
  assume "\<exists>i\<in>elems (Suc h) n. i div 2 ^ bspan h = s"
  then show "bit (n_present n) s" by (auto simp: in_elems_Suc dest: child_SomeD)
qed

lemma elems_kid:
  assumes "wf_node (Suc h) n" and "bit (n_present n) s"
  shows "elems h (kid n s) = {j. j < 2 ^ bspan h \<and> s * 2 ^ bspan h + j \<in> elems (Suc h) n}"
proof -
  note k = kid_wf [OF assms]
  have "s * 2 ^ bspan h + j \<in> elems (Suc h) n \<longleftrightarrow> j \<in> elems h (kid n s)" if "j < 2 ^ bspan h" for j
    unfolding in_elems_Suc using that child_present(1) [OF assms] by simp
  then show ?thesis using elems_less [OF k] by blast
qed

subsection \<open>Membership\<close>

lemma has_node_elems: "wf_node h n \<Longrightarrow> has_node h n i \<longleftrightarrow> low_id h i \<in> elems h n"
proof (induction h arbitrary: n)
  case 0
  have "low_id 0 i < 256" using low_id_less [of 0 i] by simp
  then show ?case by (simp add: word_of_id_eq flip: bit_of_id_eq)
next
  case (Suc h)
  show ?case
  proof (cases "bit (n_present n) (slot_of h i)")
    case True
    then show ?thesis
      using Suc.IH [OF kid_wf [OF Suc.prems True]] child_present(1) [OF Suc.prems True]
      unfolding in_elems_Suc by (simp add: Let_def)
  next
    case False
    then show ?thesis using child_absent [OF False] unfolding in_elems_Suc by (simp add: Let_def)
  qed
qed

lemma Has_iff: "bm_wf b \<Longrightarrow> Has b i \<longleftrightarrow> unat i \<in> bm_set b"
proof (cases b)
  case (Some n)
  assume "bm_wf b"
  with Some have wf: "wf_node (n_height n) n" and h: "n_height n \<le> maxHeight" by (simp_all add: bm_wf_def)
  show ?thesis
  proof (cases "beyond (n_height n) i")
    case True
    with h have "2 ^ bspan (n_height n) \<le> unat i" by (simp add: beyond_iff)
    then have "unat i \<notin> elems (n_height n) n" using elems_less [OF wf] by (meson leD)
    with True show ?thesis by (simp add: Has_def Some bm_set_def)
  next
    case False
    with h have "low_id (n_height n) i = unat i" by (simp add: beyond_iff low_id_eq)
    with False show ?thesis by (simp add: Has_def Some bm_set_def has_node_elems [OF wf])
  qed
qed (simp add: Has_def bm_set_def)

subsection \<open>Equal sets have equal trees\<close>

lemma nth_zero_words [simp]: "w < 4 \<Longrightarrow> zero_words ! w = 0"
  by (auto simp: zero_words_def nth_Cons less_Suc_eq numeral_eq_Suc split: nat.splits)

lemma length_zero_words [simp]: "length zero_words = 4"
  by (simp add: zero_words_def)

lemma words_eqI:
  assumes "length ws = 4" and "length vs = 4"
    and "\<And>i. i < 256 \<Longrightarrow> bit (ws ! (i div 64)) (i mod 64) = bit (vs ! (i div 64)) (i mod 64)"
  shows "ws = (vs :: uint64 list)"
proof (rule nth_equalityI)
  fix w assume "w < length ws"
  then have w: "w < 4" using assms(1) by simp
  show "ws ! w = vs ! w"
  proof (rule bit_word_eqI)
    fix b assume "b < LENGTH(64)"
    then have "b < 64" by simp
    then show "bit (ws ! w) b = bit (vs ! w) b" using assms(3) [of "w * 64 + b"] w by simp
  qed
qed (simp add: assms)

text \<open>
  Two well-formed trees of the same height with the same ids are the same tree: this is
  what makes the shortcuts of the set algebra (return the operand when the result equals
  it) invisible in the result.
\<close>

lemma elems_inject:
  "wf_node h a \<Longrightarrow> wf_node h b \<Longrightarrow> elems h a = elems h b \<Longrightarrow> a = b"
proof (induction h arbitrary: a b)
  case 0
  have "n_words a = n_words b"
    using 0 by (intro words_eqI) (auto simp: set_eq_iff)
  with 0 show ?case by (cases a; cases b) simp
next
  case (Suc h)
  have p: "n_present a = n_present b"
    by (rule bit_word_eqI) (simp add: present_iff_elems [OF Suc.prems(1)] present_iff_elems [OF Suc.prems(2)] Suc.prems(3))
  have "n_kids a = n_kids b"
  proof (rule nth_equalityI)
    show "length (n_kids a) = length (n_kids b)"
      by (simp add: length_kids [OF Suc.prems(1)] length_kids [OF Suc.prems(2)] p)
  next
    fix r assume r: "r < length (n_kids a)"
    let ?s = "slots (n_present a) ! r"
    have s: "bit (n_present a) ?s" using r length_kids [OF Suc.prems(1)] nth_mem [of r "slots (n_present a)"] by simp
    have "rank (n_present a) ?s = r"
      using slots_split(2,3) [OF s] r length_kids [OF Suc.prems(1)] by (simp add: nth_eq_iff_index_eq)
    then have k: "kid a ?s = n_kids a ! r" "kid b ?s = n_kids b ! r" by (simp_all add: kid_eq p)
    have "kid a ?s = kid b ?s"
      using s p by (intro Suc.IH) (auto simp: kid_wf Suc.prems elems_kid)
    then show "n_kids a ! r = n_kids b ! r" by (simp add: k)
  qed
  with p Suc.prems show ?case by (cases a; cases b) (simp add: wf_node.simps(2))
qed

subsection \<open>A new branch\<close>

lemma eq_low_id_0: "x < 256 \<Longrightarrow> x = low_id 0 i \<longleftrightarrow> x div 64 = word_of_id i \<and> x mod 64 = bit_of_id i"
  by (metis word_of_id_eq bit_of_id_eq div_mult_mod_eq)

lemma eq_low_id_Suc: "x = low_id (Suc h) i \<longleftrightarrow> x div 2 ^ bspan h = slot_of h i \<and> x mod 2 ^ bspan h = low_id h i"
  by (metis low_id_div low_id_mod div_mult_mod_eq)

lemma slots_slot_bit [simp]: "s < 64 \<Longrightarrow> slots (slot_bit s) = [s]"
  by (rule slots_unique) auto

lemma slot_bit_nonzero [simp]: "s < 64 \<Longrightarrow> slot_bit s \<noteq> 0"
  by (metis bit_slot_bit bit_0_eq bot_apply bot_bool_def)

lemma branch_correct: "wf_node h (branch h i) \<and> elems h (branch h i) = {low_id h i}"
proof (induction h)
  case 0
  have "low_id 0 i < 256" using low_id_less [of 0 i] by simp
  have "elems 0 (branch 0 i) = {low_id 0 i}"
  proof (rule set_eqI)
    fix x
    show "x \<in> elems 0 (branch 0 i) \<longleftrightarrow> x \<in> {low_id 0 i}"
    proof (cases "x < 256")
      case True
      then have "x div 64 < 4" by simp
      with True show ?thesis using eq_low_id_0 [OF True, of i] by (auto simp: nth_list_update)
    next
      case False
      with \<open>low_id 0 i < 256\<close> show ?thesis by auto
    qed
  qed
  then show ?case by (simp del: elems.simps)
next
  case (Suc h)
  have c: "child (branch (Suc h) i) = [slot_of h i \<mapsto> branch h i]"
    by (simp add: child_def)
  have "elems (Suc h) (branch (Suc h) i) = {low_id (Suc h) i}"
    using Suc by (auto simp: in_elems_Suc c eq_low_id_Suc simp del: branch.simps split: if_splits)
  with Suc show ?case by (simp add: wf_node.simps(2) OnesCount64_def)
qed

subsection \<open>Adding an id\<close>

text \<open>How the children change when one slot is filled, replaced or emptied.\<close>

lemma child_insert:
  assumes "wf_node (Suc h) n" and "\<not> bit (n_present n) s" and "s < 64"
  shows "child (BNode c g ws (n_present n OR slot_bit s)
      (take (OnesCount64 (n_present n AND below s)) (n_kids n) @ k # drop (OnesCount64 (n_present n AND below s)) (n_kids n)))
    = (child n)(s \<mapsto> k)"
proof -
  have r: "OnesCount64 (n_present n AND below s) = rank (n_present n) s" by (simp add: rank_def)
  have le: "rank (n_present n) s \<le> length (slots (n_present n))"
    using assms(3) by (simp add: rank_eq length_takeWhile_le)
  have "distinct (slots (n_present n OR slot_bit s))" by simp
  then show ?thesis
    unfolding child_def r bnode.sel slots_insert [OF assms(2,3)]
    by (intro map_of_zip_insert length_kids [OF assms(1)] le)
qed

lemma child_replace:
  assumes "wf_node (Suc h) n" and "bit (n_present n) s"
  shows "child (BNode c g ws (n_present n) ((n_kids n)[OnesCount64 (n_present n AND below s) := k])) = (child n)(s \<mapsto> k)"
  using slots_split(2,3) [OF assms(2)] length_kids [OF assms(1)]
  by (simp add: child_def map_of_zip_update rank_def)

lemma child_remove:
  assumes "wf_node (Suc h) n" and "bit (n_present n) s"
  shows "child (BNode c g ws (n_present n AND NOT (slot_bit s))
      (take (OnesCount64 (n_present n AND below s)) (n_kids n) @ drop (Suc (OnesCount64 (n_present n AND below s))) (n_kids n)))
    = (child n)(s := None)"
proof -
  have r: "OnesCount64 (n_present n AND below s) = rank (n_present n) s" by (simp add: rank_def)
  show ?thesis
    unfolding child_def r bnode.sel slots_remove [OF assms(2)]
    using slots_split(2,3) [OF assms(2)] length_kids [OF assms(1)] by (intro map_of_zip_remove) auto
qed

lemma card_insert_word:
  "finite A \<Longrightarrow> x \<notin> A \<Longrightarrow> (word_of_nat (card (insert x A)) :: uint32) = word_of_nat (card A) + 1"
  by simp

lemma elems_bset:
  assumes "length ws = 4"
  shows "elems 0 (BNode c g (ws[word_of_id i := ws ! word_of_id i OR slot_bit (bit_of_id i)]) p ks)
    = insert (low_id 0 i) (elems 0 (BNode c' g' ws p' ks'))"
proof (rule set_eqI)
  fix x
  have l: "low_id 0 i < 256" using low_id_less [of 0 i] by simp
  show "x \<in> elems 0 (BNode c g (ws[word_of_id i := ws ! word_of_id i OR slot_bit (bit_of_id i)]) p ks) \<longleftrightarrow>
    x \<in> insert (low_id 0 i) (elems 0 (BNode c' g' ws p' ks'))"
  proof (cases "x < 256")
    case True
    then have "x div 64 < 4" by simp
    then show ?thesis
      using True assms eq_low_id_0 [OF True, of i] by (auto simp: nth_list_update bit_simps)
  qed (use l in auto)
qed

lemma or_slot_bit_nonzero: "s < 64 \<Longrightarrow> w OR slot_bit s \<noteq> 0"
proof
  assume "s < 64" and "w OR slot_bit s = 0"
  then have "bit (w OR slot_bit s) s = False" by simp
  with \<open>s < 64\<close> show False by (simp add: bit_or_iff)
qed

text \<open>The conjuncts of well-formedness one by one, to build and to use.\<close>

lemma wf_chunkI:
  "n_height n = 0 \<Longrightarrow> length (n_words n) = 4 \<Longrightarrow> n_present n = 0 \<Longrightarrow> n_kids n = [] \<Longrightarrow>
   elems 0 n \<noteq> {} \<Longrightarrow> n_count n = word_of_nat (card (elems 0 n)) \<Longrightarrow> wf_node 0 n"
  unfolding wf_node.simps by blast

lemma wf_chunkD:
  assumes "wf_node 0 n"
  shows "n_height n = 0" "length (n_words n) = 4" "n_present n = 0" "n_kids n = []" "elems 0 n \<noteq> {}"
  using assms unfolding wf_node.simps by blast+

lemma wf_dirI:
  "n_height n = Suc h \<Longrightarrow> n_words n = zero_words \<Longrightarrow> n_present n \<noteq> 0 \<Longrightarrow>
   length (n_kids n) = OnesCount64 (n_present n) \<Longrightarrow> (\<And>k. k \<in> set (n_kids n) \<Longrightarrow> wf_node h k) \<Longrightarrow>
   n_count n = word_of_nat (card (elems (Suc h) n)) \<Longrightarrow> wf_node (Suc h) n"
  by (simp only: wf_node.simps) blast

lemma wf_dirD:
  assumes "wf_node (Suc h) n"
  shows "n_height n = Suc h" "n_words n = zero_words" "n_present n \<noteq> 0"
    "length (n_kids n) = OnesCount64 (n_present n)"
  using assms unfolding wf_node.simps by blast+

declare elems.simps(1) [simp del] wf_node.simps(1) [simp del]

lemma bset_iff: "low_id 0 i \<in> elems 0 n \<longleftrightarrow> bit (n_words n ! word_of_id i) (bit_of_id i)"
  using low_id_less [of 0 i] by (simp add: elems.simps word_of_id_eq bit_of_id_eq)

lemma set_chunk_correct:
  assumes wf: "wf_node 0 n" and set: "set_node 0 n i = (n', added)"
  shows "wf_node 0 n' \<and> elems 0 n' = insert (low_id 0 i) (elems 0 n) \<and> (added \<longleftrightarrow> low_id 0 i \<notin> elems 0 n)"
proof (cases "low_id 0 i \<in> elems 0 n")
  case True
  then have "n' = n \<and> \<not> added" using set by (simp add: bset_iff Let_def)
  then show ?thesis using True wf by blast
next
  case False
  note w = wf_chunkD [OF wf]
  have n': "n' = BNode (n_count n + 1) (n_height n) ((n_words n)[word_of_id i := n_words n ! word_of_id i OR slot_bit (bit_of_id i)]) (n_present n) (n_kids n)" and "added"
    using set False by (simp_all add: bset_iff Let_def)
  have e: "elems 0 n' = insert (low_id 0 i) (elems 0 n)"
    unfolding n' using elems_bset [OF w(2), where c' = "n_count n" and g' = "n_height n" and p' = "n_present n" and ks' = "n_kids n"]
    by (simp only: bnode.collapse)
  have "n_count n' = n_count n + 1" by (simp only: n' bnode.sel)
  also have "\<dots> = word_of_nat (card (elems 0 n'))"
    unfolding e card_insert_word [OF finite_elems [OF wf] False] wf_count [OF wf] ..
  finally have "wf_node 0 n'"
    using w e by (intro wf_chunkI) (simp_all only: n' bnode.sel length_list_update, blast+)
  with e False \<open>added\<close> show ?thesis by blast
qed

text \<open>An update of the children of a directory node that keeps it well-formed.\<close>

lemma set_dir_new:
  assumes wf: "wf_node (Suc h) n" and p: "\<not> bit (n_present n) (slot_of h i)"
    and n': "n' = BNode (n_count n + 1) (n_height n) (n_words n) (n_present n OR slot_bit (slot_of h i))
        (take (OnesCount64 (n_present n AND below (slot_of h i))) (n_kids n) @ branch h i #
         drop (OnesCount64 (n_present n AND below (slot_of h i))) (n_kids n))"
  shows "wf_node (Suc h) n'" and "elems (Suc h) n' = insert (low_id (Suc h) i) (elems (Suc h) n)"
    and "low_id (Suc h) i \<notin> elems (Suc h) n"
proof -
  note w = wf_dirD [OF wf]
  have c: "child n' = (child n)(slot_of h i \<mapsto> branch h i)"
    unfolding n' by (rule child_insert [OF wf p slot_of_less])
  show new: "low_id (Suc h) i \<notin> elems (Suc h) n"
    using child_absent [OF p] by (simp add: in_elems_Suc)
  show e: "elems (Suc h) n' = insert (low_id (Suc h) i) (elems (Suc h) n)"
    using branch_correct [of h i] child_absent [OF p]
    by (auto simp: in_elems_Suc c eq_low_id_Suc split: if_splits)
  have fin: "finite (elems (Suc h) n)" by (rule finite_elems [OF wf])
  show "wf_node (Suc h) n'"
  proof (rule wf_dirI)
    show "n_height n' = Suc h" "n_words n' = zero_words" using w by (simp_all only: n' bnode.sel)
    show "n_present n' \<noteq> 0" by (simp add: n' or_slot_bit_nonzero)
    show "length (n_kids n') = OnesCount64 (n_present n')"
      using slots_insert [OF p slot_of_less] length_kids [OF wf] by (simp add: n' OnesCount64_def)
    show "wf_node h k" if "k \<in> set (n_kids n')" for k
      using that branch_correct [of h i] kids_wf [OF wf] by (auto simp: n' dest: in_set_takeD in_set_dropD)
    have "n_count n' = n_count n + 1" by (simp only: n' bnode.sel)
    then show "n_count n' = word_of_nat (card (elems (Suc h) n'))"
      unfolding e card_insert_word [OF fin new] wf_count [OF wf] .
  qed
qed

lemma set_dir_old:
  assumes wf: "wf_node (Suc h) n" and p: "bit (n_present n) (slot_of h i)"
    and k: "wf_node h k" "elems h k = insert (low_id h i) (elems h (kid n (slot_of h i)))"
    and new: "low_id h i \<notin> elems h (kid n (slot_of h i))"
    and n': "n' = BNode (n_count n + 1) (n_height n) (n_words n) (n_present n)
        ((n_kids n)[OnesCount64 (n_present n AND below (slot_of h i)) := k])"
  shows "wf_node (Suc h) n'" and "elems (Suc h) n' = insert (low_id (Suc h) i) (elems (Suc h) n)"
proof -
  note w = wf_dirD [OF wf] and cs = child_present(1) [OF wf p]
  have c: "child n' = (child n)(slot_of h i \<mapsto> k)"
    unfolding n' by (rule child_replace [OF wf p])
  show e: "elems (Suc h) n' = insert (low_id (Suc h) i) (elems (Suc h) n)"
    using k cs by (auto simp: in_elems_Suc c eq_low_id_Suc split: if_splits)
  have fin: "finite (elems (Suc h) n)" by (rule finite_elems [OF wf])
  have "low_id (Suc h) i \<notin> elems (Suc h) n" using new cs by (simp add: in_elems_Suc)
  note cnt = card_insert_word [OF fin this]
  show "wf_node (Suc h) n'"
  proof (rule wf_dirI)
    show "n_height n' = Suc h" "n_words n' = zero_words" "n_present n' \<noteq> 0"
      "length (n_kids n') = OnesCount64 (n_present n')"
      unfolding n' bnode.sel length_list_update by (fact w)+
    show "wf_node h k'" if "k' \<in> set (n_kids n')" for k'
      using that k kids_wf [OF wf] by (auto simp: n' dest!: subsetD [OF set_update_subset_insert])
    have "n_count n' = n_count n + 1" by (simp only: n' bnode.sel)
    then show "n_count n' = word_of_nat (card (elems (Suc h) n'))"
      unfolding e cnt wf_count [OF wf] .
  qed
qed

lemma set_node_correct:
  "wf_node h n \<Longrightarrow> set_node h n i = (n', added) \<Longrightarrow>
     wf_node h n' \<and> elems h n' = insert (low_id h i) (elems h n) \<and> (added \<longleftrightarrow> low_id h i \<notin> elems h n)"
proof (induction h arbitrary: n n' added)
  case 0
  then show ?case by (rule set_chunk_correct)
next
  case (Suc h)
  let ?s = "slot_of h i" and ?r = "OnesCount64 (n_present n AND below (slot_of h i))"
  note wf = Suc.prems(1)
  show ?case
  proof (cases "bit (n_present n) ?s")
    case False
    then have n': "n' = BNode (n_count n + 1) (n_height n) (n_words n) (n_present n OR slot_bit ?s)
        (take ?r (n_kids n) @ branch h i # drop ?r (n_kids n))" and "added"
      using Suc.prems(2) by (auto simp: Let_def)
    then show ?thesis using set_dir_new [OF wf False n'] by blast
  next
    case True
    obtain k' a' where k': "set_node h (n_kids n ! ?r) i = (k', a')" by fastforce
    then have k: "set_node h (kid n ?s) i = (k', a')" by (simp add: kid_def)
    note ih = Suc.IH [OF kid_wf [OF wf True] k] and cs = child_present(1) [OF wf True]
    have mem: "low_id (Suc h) i \<in> elems (Suc h) n \<longleftrightarrow> \<not> a'"
      using ih cs by (simp add: in_elems_Suc)
    show ?thesis
    proof (cases a')
      case False
      then have "n' = n \<and> \<not> added" using Suc.prems(2) True k' by (auto simp: Let_def)
      then show ?thesis using mem False wf by blast
    next
      case a': True
      then have n': "n' = BNode (n_count n + 1) (n_height n) (n_words n) (n_present n) ((n_kids n)[?r := k'])" and "added"
        using Suc.prems(2) True k' by (auto simp: Let_def)
      show ?thesis
        using set_dir_old [OF wf True _ _ _ n'] ih mem a' \<open>added\<close> by blast
    qed
  qed
qed

subsection \<open>Growing and stripping the directory\<close>

text \<open>A directory node has its first child only exactly when its ids fit a level below.\<close>

lemma present_1_iff:
  assumes "wf_node (Suc h) n"
  shows "n_present n = 1 \<longleftrightarrow> (\<forall>i\<in>elems (Suc h) n. i < 2 ^ bspan h)"
proof
  assume p: "n_present n = 1"
  show "\<forall>i\<in>elems (Suc h) n. i < 2 ^ bspan h"
  proof
    fix i assume "i \<in> elems (Suc h) n"
    then have "bit (n_present n) (i div 2 ^ bspan h)" using present_iff_elems [OF assms] by blast
    then have "i div 2 ^ bspan h = 0" by (simp add: p bit_1_iff)
    then show "i < 2 ^ bspan h" by (simp add: div_eq_0_iff)
  qed
next
  assume small: "\<forall>i\<in>elems (Suc h) n. i < 2 ^ bspan h"
  then have only: "bit (n_present n) s \<Longrightarrow> s = 0" for s
    using present_iff_elems [OF assms] by (metis div_less)
  have "bit (n_present n) (TrailingZeros64 (n_present n))"
    by (rule bit_TrailingZeros64 [OF present_nonzero [OF assms]])
  with only have "bit (n_present n) 0" by metis
  with only have b: "bit (n_present n) s \<longleftrightarrow> s = 0" for s by blast
  show "n_present n = 1" by (rule bit_word_eqI) (simp add: b bit_1_iff)
qed

lemma canonical_iff:
  assumes "wf_node h n"
  shows "canonical n \<longleftrightarrow> (\<forall>g. h = Suc g \<longrightarrow> (\<exists>i\<in>elems h n. 2 ^ bspan g \<le> i))"
proof (cases h)
  case 0
  then show ?thesis using assms by (simp add: canonical_def)
next
  case (Suc g)
  have "n_height n = Suc g" using assms Suc wf_dirD(1) by blast
  then have "canonical n \<longleftrightarrow> n_present n \<noteq> 1" by (simp add: canonical_def)
  also have "\<dots> \<longleftrightarrow> (\<exists>i\<in>elems (Suc g) n. 2 ^ bspan g \<le> i)"
    using present_1_iff [of g n] assms Suc by (metis not_le)
  finally show ?thesis using Suc by simp
qed

lemma slots_1 [simp]: "slots 1 = [0]"
  using slots_slot_bit [of 0] by (simp add: slot_bit_def)

lemma lift_node_correct:
  assumes "wf_node h n"
  shows "wf_node (Suc h) (lift_node n)" and "elems (Suc h) (lift_node n) = elems h n"
proof -
  have c: "child (lift_node n) = [0 \<mapsto> n]" by (simp add: child_def lift_node_def)
  show e: "elems (Suc h) (lift_node n) = elems h n"
    using elems_less [OF assms] by (auto simp: in_elems_Suc c div_eq_0_iff split: if_splits)
  have hh: "n_height n = h" using assms by (rule wf_height)
  show "wf_node (Suc h) (lift_node n)"
  proof (rule wf_dirI)
    show "n_count (lift_node n) = word_of_nat (card (elems (Suc h) (lift_node n)))"
      unfolding e using wf_count [OF assms] by (simp add: lift_node_def)
  qed (use assms hh in \<open>simp_all add: lift_node_def OnesCount64_def\<close>)
qed

lemma not_beyond_maxHeight: "\<not> beyond maxHeight i"
  by (simp add: beyond_def bspan_def maxHeight_def)

lemma grow_node_correct:
  assumes "wf_node h n" and "h \<le> maxHeight"
  shows "\<exists>g. h \<le> g \<and> g \<le> maxHeight \<and> wf_node g (grow_node n i) \<and> elems g (grow_node n i) = elems h n \<and>
    \<not> beyond g i \<and> (h < g \<longrightarrow> beyond (g - 1) i)"
  using assms
proof (induction n i arbitrary: h rule: grow_node.induct)
  case (1 n i)
  have hh: "n_height n = h" using "1.prems"(1) by (rule wf_height)
  show ?case
  proof (cases "beyond h i")
    case True
    have "h \<noteq> maxHeight" using True not_beyond_maxHeight by auto
    then have "Suc h \<le> maxHeight" using "1.prems"(2) by simp
    note lift = lift_node_correct [OF "1.prems"(1)]
    have "beyond (n_height n) i" using True hh by simp
    from "1.IH" [OF this lift(1) \<open>Suc h \<le> maxHeight\<close>] obtain g where
      g: "Suc h \<le> g" "g \<le> maxHeight" "wf_node g (grow_node (lift_node n) i)"
        "elems g (grow_node (lift_node n) i) = elems h n" "\<not> beyond g i" "Suc h < g \<longrightarrow> beyond (g - 1) i"
      using lift(2) by auto
    have "grow_node n i = grow_node (lift_node n) i"
      using True hh by (subst grow_node.simps) simp
    moreover have "beyond (g - 1) i" using g True by (cases "g = Suc h") auto
    ultimately show ?thesis using g by (intro exI [of _ g]) auto
  next
    case False
    then have "grow_node n i = n" using hh by (subst grow_node.simps) simp
    then show ?thesis using "1.prems" False by (intro exI [of _ h]) simp
  qed
qed

lemma first_height_correct:
  assumes "h \<le> maxHeight"
  shows "h \<le> first_height h i \<and> first_height h i \<le> maxHeight \<and> \<not> beyond (first_height h i) i \<and>
    (h < first_height h i \<longrightarrow> beyond (first_height h i - 1) i)"
  using assms
proof (induction h i rule: first_height.induct)
  case (1 h i)
  show ?case
  proof (cases "beyond h i")
    case True
    then have "h \<noteq> maxHeight" using not_beyond_maxHeight by auto
    then have ih: "h + 1 \<le> first_height (h + 1) i \<and> first_height (h + 1) i \<le> maxHeight \<and>
      \<not> beyond (first_height (h + 1) i) i \<and> (h + 1 < first_height (h + 1) i \<longrightarrow> beyond (first_height (h + 1) i - 1) i)"
      using "1.IH" [OF True] "1.prems" by simp
    moreover have "first_height h i = first_height (h + 1) i" using True by (subst first_height.simps) simp
    ultimately show ?thesis using True by (cases "first_height (h + 1) i = h + 1") auto
  next
    case False
    then have "first_height h i = h" by (subst first_height.simps) simp
    then show ?thesis using "1.prems" False by simp
  qed
qed

lemma canonical_beyond:
  assumes "wf_node h n" and "h \<le> maxHeight" and "unat i \<in> elems h n" and "0 < h \<longrightarrow> beyond (h - 1) i"
  shows "canonical n"
  unfolding canonical_iff [OF assms(1)]
proof (intro allI impI)
  fix g assume g: "h = Suc g"
  then have "beyond g i" using assms(4) by simp
  then have "2 ^ bspan g \<le> unat i" using assms(2) g by (simp add: beyond_iff)
  then show "\<exists>i\<in>elems h n. 2 ^ bspan g \<le> i" using assms(3) by blast
qed

lemma bm_SomeI: "wf_node h n \<Longrightarrow> h \<le> maxHeight \<Longrightarrow> canonical n \<Longrightarrow> bm_wf (Some n) \<and> bm_set (Some n) = elems h n"
  using wf_height [of h n] by (simp add: bm_wf_def bm_set_def)

lemma bm_SomeD:
  assumes "bm_wf (Some n)"
  obtains h where "n_height n = h" "h \<le> maxHeight" "wf_node h n" "canonical n" "bm_set (Some n) = elems h n"
proof (rule that [OF refl])
  show "n_height n \<le> maxHeight" "wf_node (n_height n) n" "canonical n"
    using assms unfolding bm_wf_def option.case by blast+
  show "bm_set (Some n) = elems (n_height n) n" unfolding bm_set_def option.case ..
qed

lemma low_id_not_beyond: "h \<le> maxHeight \<Longrightarrow> \<not> beyond h i \<Longrightarrow> low_id h i = unat i"
  by (simp add: beyond_iff low_id_eq)

lemma Set_id_correct:
  assumes "bm_wf b" and "Set_id b i = (b', added)"
  shows "bm_wf b' \<and> bm_set b' = insert (unat i) (bm_set b) \<and> (added \<longleftrightarrow> unat i \<notin> bm_set b)"
proof (cases b)
  case None
  let ?h = "first_height 0 i"
  have fh: "?h \<le> maxHeight" "\<not> beyond ?h i" "0 < ?h \<longrightarrow> beyond (?h - 1) i"
    using first_height_correct [of 0 i] by simp_all
  have br: "wf_node ?h (branch ?h i)" "elems ?h (branch ?h i) = {unat i}"
    using branch_correct [of ?h i] low_id_not_beyond [OF fh(1,2)] by simp_all
  have "canonical (branch ?h i)" using canonical_beyond [OF br(1) fh(1) _ fh(3)] br(2) by simp
  then have "bm_wf (Some (branch ?h i)) \<and> bm_set (Some (branch ?h i)) = {unat i}"
    using bm_SomeI [OF br(1) fh(1)] br(2) by simp
  moreover have "b' = Some (branch ?h i) \<and> added" using assms(2) None by (auto simp: Set_id_def)
  moreover have "bm_set b = {}" using None by (simp add: bm_set_def)
  ultimately show ?thesis by simp
next
  case (Some n)
  obtain h where h: "h \<le> maxHeight" "wf_node h n" "canonical n" "bm_set b = elems h n"
    using bm_SomeD assms(1) Some by metis
  obtain g where g: "h \<le> g" "g \<le> maxHeight" "wf_node g (grow_node n i)" "elems g (grow_node n i) = elems h n"
      "\<not> beyond g i" "h < g \<longrightarrow> beyond (g - 1) i"
    using grow_node_correct [OF h(2,1), of i] by blast
  obtain root where root: "set_node g (grow_node n i) i = (root, added)" "b' = Some root"
    using assms(2) Some wf_height [OF g(3)] by (auto simp: Set_id_def Let_def split: prod.splits)
  have r: "wf_node g root" "elems g root = insert (unat i) (elems h n)" "added \<longleftrightarrow> unat i \<notin> elems h n"
    using set_node_correct [OF g(3) root(1)] unfolding low_id_not_beyond [OF g(2,5)] g(4) by blast+
  have "canonical root"
  proof (cases "h < g")
    case True
    then show ?thesis using r(2) g(6) by (intro canonical_beyond [OF r(1) g(2), of i]) simp_all
  next
    case False
    then show ?thesis using g(1) h(2,3) r(1,2) canonical_iff [of h n] canonical_iff [of g root] by auto
  qed
  then show ?thesis using bm_SomeI [OF r(1) g(2)] r root h(4) by simp
qed

subsection \<open>Removing an id\<close>

lemma count_1_iff:
  assumes "wf_node h n" and "h \<le> maxHeight"
  shows "n_count n = 1 \<longleftrightarrow> card (elems h n) = 1"
proof
  assume c: "n_count n = 1"
  have "bspan h \<le> 32" using assms(2) by (simp add: bspan_def maxHeight_def)
  then have "(2 :: nat) ^ bspan h \<le> 2 ^ 32" by (intro power_increasing) simp_all
  with card_elems_le [OF assms(1)] have le: "card (elems h n) \<le> 2 ^ 32" by (rule order_trans)
  have "unat (n_count n) = card (elems h n) mod 2 ^ 32"
    unfolding wf_count [OF assms(1)] by (simp add: unsigned_of_nat take_bit_eq_mod)
  with c have "card (elems h n) mod 2 ^ 32 = 1" by simp
  with le show "card (elems h n) = 1" by (cases "card (elems h n) = 2 ^ 32") auto
qed (simp add: wf_count [OF assms(1)])

lemma card_1_elems: "card A = 1 \<Longrightarrow> x \<in> A \<Longrightarrow> A = {x}"
  by (auto simp: card_1_singleton_iff)

lemma not_card_1_elems: "finite A \<Longrightarrow> card A \<noteq> 1 \<Longrightarrow> x \<in> A \<Longrightarrow> A - {x} \<noteq> {}"
  by (metis card_1_singleton_iff Diff_eq_empty_iff empty_iff subset_singleton_iff One_nat_def)

lemma elems_bclear:
  assumes "length ws = 4"
  shows "elems 0 (BNode c g (ws[word_of_id i := ws ! word_of_id i AND NOT (slot_bit (bit_of_id i))]) p ks)
    = elems 0 (BNode c' g' ws p' ks') - {low_id 0 i}"
proof (rule set_eqI)
  fix x
  show "x \<in> elems 0 (BNode c g (ws[word_of_id i := ws ! word_of_id i AND NOT (slot_bit (bit_of_id i))]) p ks) \<longleftrightarrow>
    x \<in> elems 0 (BNode c' g' ws p' ks') - {low_id 0 i}"
  proof (cases "x < 256")
    case True
    then have "x div 64 < 4" "x mod 64 < 64" by simp_all
    then show ?thesis
      using True assms eq_low_id_0 [OF True, of i] by (auto simp: elems.simps nth_list_update bit_simps)
  qed (simp add: elems.simps)
qed

lemma clear_chunk_correct:
  assumes wf: "wf_node 0 n" and mem: "low_id 0 i \<in> elems 0 n" and more: "n_count n \<noteq> 1"
    and n': "n' = BNode (n_count n - 1) (n_height n)
        ((n_words n)[word_of_id i := n_words n ! word_of_id i AND NOT (slot_bit (bit_of_id i))]) (n_present n) (n_kids n)"
  shows "wf_node 0 n'" and "elems 0 n' = elems 0 n - {low_id 0 i}"
proof -
  note w = wf_chunkD [OF wf] and fin = finite_elems [OF wf]
  show e: "elems 0 n' = elems 0 n - {low_id 0 i}"
    unfolding n' using elems_bclear [OF w(2), where c' = "n_count n" and g' = "n_height n" and p' = "n_present n" and ks' = "n_kids n"]
    by (simp only: bnode.collapse)
  have "card (elems 0 n) \<noteq> 1" using more count_1_iff [OF wf] by (simp add: maxHeight_def)
  show "wf_node 0 n'"
  proof (rule wf_chunkI)
    show "n_height n' = 0" "length (n_words n') = 4" "n_present n' = 0" "n_kids n' = []"
      unfolding n' bnode.sel length_list_update by (fact w)+
    show "elems 0 n' \<noteq> {}"
      unfolding e using \<open>card (elems 0 n) \<noteq> 1\<close> by (intro not_card_1_elems fin mem)
    have "n_count n' = n_count n - 1" by (simp only: n' bnode.sel)
    then show "n_count n' = word_of_nat (card (elems 0 n'))"
      unfolding e card_remove_word [OF fin mem] wf_count [OF wf] .
  qed
qed

lemma clear_dir_keep:
  assumes wf: "wf_node (Suc h) n" and p: "bit (n_present n) (slot_of h i)"
    and mem: "low_id (Suc h) i \<in> elems (Suc h) n"
    and k: "wf_node h k" "elems h k = elems h (kid n (slot_of h i)) - {low_id h i}"
    and n': "n' = BNode (n_count n - 1) (n_height n) (n_words n) (n_present n)
        ((n_kids n)[OnesCount64 (n_present n AND below (slot_of h i)) := k])"
  shows "wf_node (Suc h) n'" and "elems (Suc h) n' = elems (Suc h) n - {low_id (Suc h) i}"
proof -
  note w = wf_dirD [OF wf] and cs = child_present(1) [OF wf p] and fin = finite_elems [OF wf]
  have c: "child n' = (child n)(slot_of h i \<mapsto> k)"
    unfolding n' by (rule child_replace [OF wf p])
  show e: "elems (Suc h) n' = elems (Suc h) n - {low_id (Suc h) i}"
  proof (rule set_eqI)
    fix x
    show "x \<in> elems (Suc h) n' \<longleftrightarrow> x \<in> elems (Suc h) n - {low_id (Suc h) i}"
      using k(2) cs by (cases "x div 2 ^ bspan h = slot_of h i")
        (simp_all add: in_elems_Suc c eq_low_id_Suc)
  qed
  show "wf_node (Suc h) n'"
  proof (rule wf_dirI)
    show "n_height n' = Suc h" "n_words n' = zero_words" "n_present n' \<noteq> 0"
      "length (n_kids n') = OnesCount64 (n_present n')"
      unfolding n' bnode.sel length_list_update by (fact w)+
    show "wf_node h k'" if "k' \<in> set (n_kids n')" for k'
      using that k kids_wf [OF wf] by (auto simp: n' dest!: subsetD [OF set_update_subset_insert])
    have "n_count n' = n_count n - 1" by (simp only: n' bnode.sel)
    then show "n_count n' = word_of_nat (card (elems (Suc h) n'))"
      unfolding e card_remove_word [OF fin mem] wf_count [OF wf] .
  qed
qed

lemma clear_dir_drop:
  assumes wf: "wf_node (Suc h) n" and p: "bit (n_present n) (slot_of h i)"
    and mem: "low_id (Suc h) i \<in> elems (Suc h) n"
    and more: "elems (Suc h) n \<noteq> {low_id (Suc h) i}"
    and k: "elems h (kid n (slot_of h i)) = {low_id h i}"
    and n': "n' = BNode (n_count n - 1) (n_height n) (n_words n) (n_present n AND NOT (slot_bit (slot_of h i)))
        (take (OnesCount64 (n_present n AND below (slot_of h i))) (n_kids n) @
         drop (Suc (OnesCount64 (n_present n AND below (slot_of h i)))) (n_kids n))"
  shows "wf_node (Suc h) n'" and "elems (Suc h) n' = elems (Suc h) n - {low_id (Suc h) i}"
proof -
  note w = wf_dirD [OF wf] and cs = child_present(1) [OF wf p] and fin = finite_elems [OF wf]
  have c: "child n' = (child n)(slot_of h i := None)"
    unfolding n' by (rule child_remove [OF wf p])
  show e: "elems (Suc h) n' = elems (Suc h) n - {low_id (Suc h) i}"
    using k cs by (auto simp: in_elems_Suc c eq_low_id_Suc split: if_splits)
  obtain j where "j \<in> elems (Suc h) n'" using mem more e by blast
  then obtain s where "child n' s \<noteq> None" by (auto simp: in_elems_Suc)
  then have "bit (n_present n') s" using child_SomeD by fastforce
  then have ne: "n_present n' \<noteq> 0" by auto
  show "wf_node (Suc h) n'"
  proof (rule wf_dirI)
    show "n_height n' = Suc h" "n_words n' = zero_words"
      unfolding n' bnode.sel by (fact w)+
    show "n_present n' \<noteq> 0" by (rule ne)
    show "length (n_kids n') = OnesCount64 (n_present n')"
      using slots_remove [OF p] length_kids [OF wf] by (simp add: n' OnesCount64_def rank_def)
    show "wf_node h k'" if "k' \<in> set (n_kids n')" for k'
      using that kids_wf [OF wf] by (auto simp: n' dest: in_set_takeD in_set_dropD)
    have "n_count n' = n_count n - 1" by (simp only: n' bnode.sel)
    then show "n_count n' = word_of_nat (card (elems (Suc h) n'))"
      unfolding e card_remove_word [OF fin mem] wf_count [OF wf] .
  qed
qed

lemma clear_node_correct:
  "wf_node h n \<Longrightarrow> h \<le> maxHeight \<Longrightarrow> low_id h i \<in> elems h n \<Longrightarrow>
   (case clear_node h n i of
      None \<Rightarrow> elems h n = {low_id h i}
    | Some n' \<Rightarrow> wf_node h n' \<and> elems h n' = elems h n - {low_id h i})"
proof (induction h arbitrary: n)
  case 0
  show ?case
  proof (cases "n_count n = 1")
    case True
    then have "card (elems 0 n) = 1" using count_1_iff [OF "0.prems"(1,2)] by simp
    with True "0.prems"(3) show ?thesis by (simp add: card_1_elems)
  next
    case False
    then show ?thesis using clear_chunk_correct [OF "0.prems"(1,3) False refl] by (simp add: Let_def)
  qed
next
  case (Suc h)
  let ?s = "slot_of h i" and ?r = "OnesCount64 (n_present n AND below (slot_of h i))"
  note wf = Suc.prems(1)
  show ?case
  proof (cases "n_count n = 1")
    case True
    then have "card (elems (Suc h) n) = 1" using count_1_iff [OF Suc.prems(1,2)] by simp
    with True Suc.prems(3) show ?thesis by (simp add: card_1_elems)
  next
    case False
    obtain k where "child n ?s = Some k" "low_id h i \<in> elems h k"
      using Suc.prems(3) by (auto simp: in_elems_Suc)
    then have p: "bit (n_present n) ?s" and m: "low_id h i \<in> elems h (kid n ?s)"
      using child_SomeD child_present(1) [OF wf] by fastforce+
    have kid: "n_kids n ! ?r = kid n ?s" by (simp add: kid_def)
    have h: "h \<le> maxHeight" using Suc.prems(2) by simp
    note ih = Suc.IH [OF kid_wf [OF wf p] h m]
    show ?thesis
    proof (cases "clear_node h (kid n ?s) i")
      case None
      then have e: "elems h (kid n ?s) = {low_id h i}" using ih by simp
      have "elems (Suc h) n \<noteq> {low_id (Suc h) i}"
        using False count_1_iff [OF Suc.prems(1,2)] by auto
      note d = clear_dir_drop [OF wf p Suc.prems(3) this e refl]
      show ?thesis using False None d by (simp add: Let_def kid)
    next
      case (Some k')
      then have k': "wf_node h k'" "elems h k' = elems h (kid n ?s) - {low_id h i}" using ih by simp_all
      note d = clear_dir_keep [OF wf p Suc.prems(3) k' refl]
      show ?thesis using False Some d by (simp add: Let_def kid)
    qed
  qed
qed

lemma strip_correct:
  assumes "wf_node h n"
  shows "\<exists>g\<le>h. wf_node g (strip n) \<and> elems g (strip n) = elems h n \<and> canonical (strip n)"
  using assms
proof (induction n arbitrary: h rule: strip.induct)
  case (1 c hh ws p k ks)
  let ?n = "BNode c hh ws p (k # ks)"
  have hh: "hh = h" using wf_height [OF "1.prems"] by simp
  show ?case
  proof (cases "h > 0 \<and> p = 1")
    case True
    then obtain g where g: "h = Suc g" by (cases h) auto
    note wf = "1.prems" [unfolded g]
    have "ks = []" using length_kids [OF wf] True by simp
    then have c: "child ?n = [0 \<mapsto> k]" using True by (simp add: child_def)
    have wk: "wf_node g k" using kids_wf [OF wf] by simp
    have e: "elems (Suc g) ?n = elems g k"
      using elems_less [OF wk] by (auto simp: in_elems_Suc c div_eq_0_iff split: if_splits)
    have "hh > 0 \<and> p = 1" using True hh by simp
    note ih = "1.IH" [OF this wk]
    then obtain f where f: "f \<le> g" "wf_node f (strip k)" "elems f (strip k) = elems g k" "canonical (strip k)"
      by (elim exE conjE)
    have "strip ?n = strip k" using True hh by simp
    then show ?thesis using f e g by (intro exI [of _ f]) (simp add: le_SucI)
  next
    case False
    then have "strip ?n = ?n" using hh by auto
    moreover have "canonical ?n" using False hh by (auto simp: canonical_def)
    ultimately show ?thesis using "1.prems" by (intro exI [of _ h]) simp
  qed
next
  case (2 c hh ws p)
  have "canonical (BNode c hh ws p [])"
  proof (cases h)
    case (Suc g)
    have "OnesCount64 p = 0" using wf_dirD(4) "2.prems" Suc by fastforce
    then have "p = 0" by (simp add: OnesCount64_def)
    then show ?thesis by (simp add: canonical_def)
  qed (use wf_height [OF "2.prems"] in \<open>simp add: canonical_def\<close>)
  then show ?case using "2.prems" by (intro exI [of _ h]) simp
qed

lemma Clear_id_correct:
  assumes "bm_wf b" and "Clear_id b i = (b', removed)"
  shows "bm_wf b' \<and> bm_set b' = bm_set b - {unat i} \<and> (removed \<longleftrightarrow> unat i \<in> bm_set b)"
proof (cases "unat i \<in> bm_set b")
  case False
  then have "b' = b \<and> \<not> removed"
    using assms(2) Has_iff [OF assms(1), of i] by (simp add: Clear_id_def)
  with False assms(1) show ?thesis by simp
next
  case True
  then obtain n where n: "b = Some n" by (cases b) (auto simp: bm_set_def)
  obtain h where h: "n_height n = h" "h \<le> maxHeight" "wf_node h n" "bm_set b = elems h n"
    using bm_SomeD assms(1) n by metis
  have "unat i < 2 ^ bspan h" using True h elems_less by metis
  then have low: "low_id h i = unat i" by (rule low_id_eq)
  have has: "Has b i" using True Has_iff [OF assms(1)] by blast
  have c: "case clear_node h n i of None \<Rightarrow> elems h n = {unat i}
    | Some n' \<Rightarrow> wf_node h n' \<and> elems h n' = elems h n - {unat i}"
    using clear_node_correct [OF h(3,2)] low True h(4) by metis
  show ?thesis
  proof (cases "clear_node h n i")
    case None
    then have "b' = None \<and> removed" using assms(2) has n h(1) by (simp add: Clear_id_def)
    then show ?thesis using None c True h(4) by (simp add: bm_wf_def bm_set_def)
  next
    case (Some n')
    then have n': "wf_node h n'" "elems h n' = elems h n - {unat i}" using c by simp_all
    obtain g where g: "g \<le> h" "wf_node g (strip n')" "elems g (strip n') = elems h n'" "canonical (strip n')"
      using strip_correct [OF n'(1)] by (elim exE conjE)
    have "b' = Some (strip n') \<and> removed" using Some assms(2) has n h(1) by (simp add: Clear_id_def)
    moreover have "g \<le> maxHeight" using g(1) h(2) by simp
    ultimately show ?thesis using bm_SomeI [OF g(2) _ g(4)] g(3) n'(2) h(4) True by simp
  qed
qed

subsection \<open>The least id\<close>

lemma min_word_correct:
  "(\<exists>v < length ws. ws ! v \<noteq> 0) \<Longrightarrow>
   \<exists>v < length ws. ws ! v \<noteq> 0 \<and> (\<forall>u<v. ws ! u = 0) \<and>
     min_word w ws i = Ret (i OR word_of_nat ((w + v) * 64 + TrailingZeros64 (ws ! v)))"
proof (induction ws arbitrary: w)
  case (Cons x xs)
  show ?case
  proof (cases "x = 0")
    case True
    obtain v where v: "v < length (x # xs)" "(x # xs) ! v \<noteq> 0" using Cons.prems by blast
    then obtain v' where "v = Suc v'" using True by (cases v) auto
    with v have "\<exists>v < length xs. xs ! v \<noteq> 0" by auto
    from Cons.IH [OF this, of "Suc w"] obtain u where u: "u < length xs" "xs ! u \<noteq> 0" "\<forall>t<u. xs ! t = 0"
      "min_word (Suc w) xs i = Ret (i OR word_of_nat ((Suc w + u) * 64 + TrailingZeros64 (xs ! u)))"
      by (elim exE conjE)
    then show ?thesis using True
      by (intro exI [of _ "Suc u"]) (auto simp: less_Suc_eq_0_disj)
  qed (auto intro!: exI [of _ 0])
qed simp

definition least_of :: "nat set \<Rightarrow> nat \<Rightarrow> bool" where
  "least_of A m \<longleftrightarrow> m \<in> A \<and> (\<forall>j\<in>A. m \<le> j)"

lemma least_of_Min: "finite A \<Longrightarrow> least_of A m \<Longrightarrow> m = Min A"
  by (auto simp: least_of_def intro!: Min_eqI [symmetric])

lemma min_chunk_correct:
  assumes wf: "wf_node 0 n"
  shows "\<exists>m. least_of (elems 0 n) m \<and> min_word 0 (n_words n) i = Ret (i OR word_of_nat m)"
proof -
  note w = wf_chunkD [OF wf]
  obtain j where j: "j < 256" "bit (n_words n ! (j div 64)) (j mod 64)"
    using elems_nonempty [OF wf] by (auto simp: elems.simps)
  then have "j div 64 < length (n_words n)" "n_words n ! (j div 64) \<noteq> 0" using w(2) by auto
  then have "\<exists>v < length (n_words n). n_words n ! v \<noteq> 0" by (intro exI conjI)
  from min_word_correct [OF this, of 0 i]
  obtain v where v: "v < length (n_words n)" "n_words n ! v \<noteq> 0" "\<forall>u<v. n_words n ! u = 0"
      "min_word 0 (n_words n) i = Ret (i OR word_of_nat ((0 + v) * 64 + TrailingZeros64 (n_words n ! v)))"
    by (elim exE conjE)
  let ?t = "TrailingZeros64 (n_words n ! v)"
  have t: "?t < 64" "bit (n_words n ! v) ?t"
    using v(2) by (simp_all add: TrailingZeros64_less bit_TrailingZeros64)
  have "least_of (elems 0 n) (v * 64 + ?t)"
    unfolding least_of_def
  proof (intro conjI ballI)
    show "v * 64 + ?t \<in> elems 0 n" using v(1) w(2) t by (simp add: elems.simps)
    fix j assume "j \<in> elems 0 n"
    then have j: "bit (n_words n ! (j div 64)) (j mod 64)" by (simp add: elems.simps)
    then have "v \<le> j div 64" using v(3) by (cases "j div 64 < v") auto
    moreover have "?t \<le> j mod 64" if "j div 64 = v" using j that by (simp add: TrailingZeros64_least)
    ultimately show "v * 64 + ?t \<le> j" by (intro lex_div_mod [OF t(1)])
  qed
  with v(4) show ?thesis by auto
qed

lemma least_dir:
  assumes wf: "wf_node (Suc h) n" and s: "s = TrailingZeros64 (n_present n)"
    and m: "least_of (elems h (n_kids n ! 0)) m"
  shows "least_of (elems (Suc h) n) (s * 2 ^ bspan h + m)" and "wf_node h (n_kids n ! 0)"
proof -
  have b: "bit (n_present n) s" unfolding s by (rule bit_TrailingZeros64 [OF present_nonzero [OF wf]])
  have "slots (n_present n) = s # tl (slots (n_present n))"
    unfolding s by (rule TrailingZeros64_nonzero [OF present_nonzero [OF wf]])
  then have "slots (n_present n) ! 0 = s" by (metis nth_Cons_0)
  then have "rank (n_present n) s = 0"
    using slots_split(2,3) [OF b] by (metis distinct_slots length_greater_0_conv length_pos_if_in_set nth_eq_iff_index_eq not_less_zero gr0I)
  then have k: "kid n s = n_kids n ! 0" by (simp add: kid_eq)
  show wk: "wf_node h (n_kids n ! 0)" using kid_wf [OF wf b] k by simp
  have cs: "child n s = Some (n_kids n ! 0)" using child_present(1) [OF wf b] k by simp
  have mlt: "m < 2 ^ bspan h" using m elems_less [OF wk] by (simp add: least_of_def)
  show "least_of (elems (Suc h) n) (s * 2 ^ bspan h + m)"
    unfolding least_of_def
  proof (intro conjI ballI)
    show "s * 2 ^ bspan h + m \<in> elems (Suc h) n"
      unfolding in_elems_Suc using combine_div_mod [OF mlt, of s] cs m by (simp add: least_of_def)
    fix j assume j: "j \<in> elems (Suc h) n"
    then obtain k where k: "child n (j div 2 ^ bspan h) = Some k" "j mod 2 ^ bspan h \<in> elems h k"
      unfolding in_elems_Suc by (elim exE conjE)
    have "s \<le> j div 2 ^ bspan h" unfolding s using child_SomeD [OF k(1)] by (rule TrailingZeros64_least)
    moreover have "m \<le> j mod 2 ^ bspan h" if "j div 2 ^ bspan h = s" using k cs m that by (simp add: least_of_def)
    ultimately show "s * 2 ^ bspan h + m \<le> j" by (intro lex_div_mod [OF mlt])
  qed
qed

lemma min_node_correct:
  "wf_node h n \<Longrightarrow> h \<le> maxHeight \<Longrightarrow> unat i mod 2 ^ bspan h = 0 \<Longrightarrow>
   \<exists>m j. min_node h n i = Ret j \<and> unat j = unat i + m \<and> least_of (elems h n) m"
proof (induction h arbitrary: n i)
  case 0
  obtain m where m: "least_of (elems 0 n) m" "min_word 0 (n_words n) i = Ret (i OR word_of_nat m)"
    using min_chunk_correct [OF "0.prems"(1)] by blast
  have "m < 2 ^ bspan 0" using m(1) elems_less [OF "0.prems"(1)] unfolding least_of_def by blast
  then have "unat (i OR word_of_nat m) = unat i + m" by (rule unat_or_add [OF "0.prems"(3)]) simp
  with m show ?case by auto
next
  case (Suc h)
  let ?s = "TrailingZeros64 (n_present n)"
  let ?i = "i OR push_bit (bspan h) (word_of_nat ?s)"
  have "?s < 64" by (rule TrailingZeros64_less [OF present_nonzero [OF Suc.prems(1)]])
  then have "?s * 2 ^ bspan h < 64 * 2 ^ bspan h" by simp
  also have "\<dots> = 2 ^ bspan (Suc h)" by (simp add: power_add)
  finally have s: "?s * 2 ^ bspan h < 2 ^ bspan (Suc h)" .
  have "bspan (Suc h) \<le> 32" using Suc.prems(2) by (simp add: bspan_def maxHeight_def)
  then have i: "unat ?i = unat i + ?s * 2 ^ bspan h"
    unfolding push_bit_word_of_nat by (rule unat_or_add [OF Suc.prems(3) s])
  have "unat i mod 2 ^ bspan h = 0"
    using Suc.prems(3) by (metis bspan_pow_Suc mod_0_imp_dvd mod_eq_0_iff_dvd dvd_mult_left)
  then have im: "unat ?i mod 2 ^ bspan h = 0" unfolding i by simp
  have h: "h \<le> maxHeight" using Suc.prems(2) by simp
  have k: "n_kids n ! 0 \<in> set (n_kids n)"
    using present_nonzero [OF Suc.prems(1)] length_kids [OF Suc.prems(1)] by (intro nth_mem) simp
  obtain m j where mj: "min_node h (n_kids n ! 0) ?i = Ret j" "unat j = unat ?i + m" "least_of (elems h (n_kids n ! 0)) m"
    using Suc.IH [OF kids_wf [OF Suc.prems(1) k] h im] by blast
  have "min_node (Suc h) n i = Ret j" using mj(1) by simp
  moreover have "unat j = unat i + (?s * 2 ^ bspan h + m)" using mj(2) i by simp
  ultimately show ?case using least_dir(1) [OF Suc.prems(1) refl mj(3)] by blast
qed

lemma Min_id_correct:
  assumes "bm_wf b"
  shows "Min_id b = Ret None \<and> bm_set b = {} \<or>
    (\<exists>i. Min_id b = Ret (Some i) \<and> unat i \<in> bm_set b \<and> (\<forall>j\<in>bm_set b. unat i \<le> j))"
proof (cases b)
  case None
  then show ?thesis by (simp add: Min_id_def bm_set_def)
next
  case (Some n)
  obtain h where h: "n_height n = h" "h \<le> maxHeight" "wf_node h n" "bm_set b = elems h n"
    using bm_SomeD assms Some by metis
  obtain m j where "min_node h n 0 = Ret j" "unat j = unat (0 :: uint32) + m" "least_of (elems h n) m"
    using min_node_correct [OF h(3,2), of 0] by auto
  then show ?thesis using Some h(1,4) by (auto simp: Min_id_def least_of_def)
qed

subsection \<open>Size, emptiness and uniqueness\<close>

lemma bm_set_less: "bm_wf b \<Longrightarrow> i \<in> bm_set b \<Longrightarrow> i < 2 ^ 32"
proof (cases b)
  case (Some n)
  assume "bm_wf b" and i: "i \<in> bm_set b"
  then obtain h where h: "h \<le> maxHeight" "wf_node h n" "bm_set b = elems h n"
    using bm_SomeD Some by metis
  have "i < 2 ^ bspan h" using elems_less [OF h(2)] i h(3) by blast
  also have "\<dots> \<le> 2 ^ 32" using h(1) by (intro power_increasing) (simp_all add: bspan_def maxHeight_def)
  finally show ?thesis .
qed (simp add: bm_set_def)

lemma finite_bm_set [simp]: "bm_wf b \<Longrightarrow> finite (bm_set b)"
  by (rule finite_subset [of _ "{..< 2 ^ 32}"]) (auto dest: bm_set_less)

lemma Empty_iff: "bm_wf b \<Longrightarrow> Empty b \<longleftrightarrow> bm_set b = {}"
proof (cases b)
  case (Some n)
  assume "bm_wf b"
  then obtain h where "wf_node h n" "bm_set b = elems h n" using bm_SomeD Some by metis
  then show ?thesis using elems_nonempty Some by (auto simp: Empty_def)
qed (simp add: Empty_def bm_set_def)

lemma Len_correct: "bm_wf b \<Longrightarrow> Len b = int (card (bm_set b)) mod 2 ^ 32"
proof (cases b)
  case (Some n)
  assume "bm_wf b"
  then obtain h where "wf_node h n" "bm_set b = elems h n" using bm_SomeD Some by metis
  then show ?thesis using Some wf_count [of h n] by (simp add: Len_def unsigned_of_nat take_bit_eq_mod zmod_int)
qed (simp add: Len_def bm_set_def)

text \<open>The height of a canonical tree is determined by its ids, hence so is the tree.\<close>

lemma bm_set_inject:
  assumes a: "bm_wf a" and b: "bm_wf b" and eq: "bm_set a = bm_set b"
  shows "a = b"
proof -
  have lt: "\<not> g < h" if "wf_node g n" "wf_node h m" "canonical m" "elems g n = elems h m" for g h n m
  proof
    note t = that
    assume "g < h"
    then obtain f where f: "h = Suc f" "g \<le> f" by (cases h) auto
    then obtain i where i: "i \<in> elems h m" "2 ^ bspan f \<le> i"
      using canonical_iff [OF t(2)] t(3) by blast
    have "i < 2 ^ bspan g" using elems_less [OF t(1)] t(4) i(1) by blast
    moreover have "(2 :: nat) ^ bspan g \<le> 2 ^ bspan f" using f(2) by (intro power_increasing) (simp_all add: bspan_def)
    ultimately show False using i(2) by simp
  qed
  show ?thesis
  proof (cases a)
    case None
    then show ?thesis using eq Empty_iff [OF b] by (simp add: bm_set_def Empty_def)
  next
    case a': (Some n)
    then obtain m where b': "b = Some m" using eq Empty_iff [OF a] Empty_iff [OF b] by (cases b) (auto simp: Empty_def)
    obtain g where g: "wf_node g n" "canonical n" "bm_set a = elems g n" using bm_SomeD a a' by metis
    obtain h where h: "wf_node h m" "canonical m" "bm_set b = elems h m" using bm_SomeD b b' by metis
    have e: "elems g n = elems h m" using g(3) h(3) eq by simp
    have "g = h" using lt [OF g(1) h(1,2) e] lt [OF h(1) g(1,2) e [symmetric]] by simp
    then have "n = m" using elems_inject g(1) h(1) e by metis
    with a' b' show ?thesis by simp
  qed
qed

end
