(* ===== verification/IdSet.thy ===== *)
theory IdSet
  imports Prelude
begin

text \<open>
  The interface between the bitmaps and their clients (the row-id bookkeeping and the set
  algebra of \<^verbatim>\<open>RowSet\<close> in bitmap_index.go): a set of 32-bit ids with an abstraction to the
  set of their numbers, whose representation is determined by its ids. The clients' lemmas
  are proved here once, from the laws; the bitmap theories interpret the locales.
\<close>

locale id_set =
  fixes ids :: "'s \<Rightarrow> nat set" and ok :: "'s \<Rightarrow> bool" and emp :: 's
    and add :: "'s \<Rightarrow> uint32 \<Rightarrow> 's \<times> bool" and remove :: "'s \<Rightarrow> uint32 \<Rightarrow> 's \<times> bool"
    and mem :: "'s \<Rightarrow> uint32 \<Rightarrow> bool" and least :: "'s \<Rightarrow> uint32 option outcome"
  assumes emp_law: "ok emp \<and> ids emp = {}"
    and add_law: "ok s \<Longrightarrow> add s i = (s', new) \<Longrightarrow>
      ok s' \<and> ids s' = insert (unat i) (ids s) \<and> (new \<longleftrightarrow> unat i \<notin> ids s)"
    and remove_law: "ok s \<Longrightarrow> remove s i = (s', old) \<Longrightarrow>
      ok s' \<and> ids s' = ids s - {unat i} \<and> (old \<longleftrightarrow> unat i \<in> ids s)"
    and mem_law: "ok s \<Longrightarrow> mem s i \<longleftrightarrow> unat i \<in> ids s"
    and least_law: "ok s \<Longrightarrow> least s = Ret None \<and> ids s = {} \<or>
      (\<exists>i. least s = Ret (Some i) \<and> unat i \<in> ids s \<and> (\<forall>j\<in>ids s. unat i \<le> j))"
    and unique_law: "ok s \<Longrightarrow> ok t \<Longrightarrow> ids s = ids t \<Longrightarrow> s = t"
begin

lemma ok_emp [simp]: "ok emp" and ids_emp [simp]: "ids emp = {}"
  using emp_law by blast+

lemma ok_add [simp]: "ok s \<Longrightarrow> ok (fst (add s i))"
  and ids_add [simp]: "ok s \<Longrightarrow> ids (fst (add s i)) = insert (unat i) (ids s)"
  and new_add [simp]: "ok s \<Longrightarrow> snd (add s i) \<longleftrightarrow> unat i \<notin> ids s"
  using add_law [of s i "fst (add s i)" "snd (add s i)"] by simp_all

lemma ok_remove [simp]: "ok s \<Longrightarrow> ok (fst (remove s i))"
  and ids_remove [simp]: "ok s \<Longrightarrow> ids (fst (remove s i)) = ids s - {unat i}"
  and old_remove [simp]: "ok s \<Longrightarrow> snd (remove s i) \<longleftrightarrow> unat i \<in> ids s"
  using remove_law [of s i "fst (remove s i)" "snd (remove s i)"] by simp_all

text \<open>Adding what is there or removing what is not changes nothing; the two are inverse.\<close>

lemma add_present: "ok s \<Longrightarrow> unat i \<in> ids s \<Longrightarrow> fst (add s i) = s"
  by (rule unique_law) auto

lemma remove_absent: "ok s \<Longrightarrow> unat i \<notin> ids s \<Longrightarrow> fst (remove s i) = s"
  by (rule unique_law) auto

lemma remove_add: "ok s \<Longrightarrow> unat i \<notin> ids s \<Longrightarrow> fst (remove (fst (add s i)) i) = s"
  by (rule unique_law) auto

lemma add_remove: "ok s \<Longrightarrow> unat i \<in> ids s \<Longrightarrow> fst (add (fst (remove s i)) i) = s"
  by (rule unique_law) auto

lemma add_commute: "ok s \<Longrightarrow> fst (add (fst (add s i)) j) = fst (add (fst (add s j)) i)"
  by (rule unique_law) auto

lemma remove_last: "ok s \<Longrightarrow> ids s = {unat i} \<Longrightarrow> fst (remove s i) = emp"
  by (rule unique_law) auto

lemma eq_emp_iff: "ok s \<Longrightarrow> s = emp \<longleftrightarrow> ids s = {}"
  using unique_law [of s emp] by auto

text \<open>A whole list of ids.\<close>

lemma add_list: "ok s \<Longrightarrow> ok (fold (\<lambda>i s. fst (add s i)) is s) \<and>
    ids (fold (\<lambda>i s. fst (add s i)) is s) = ids s \<union> unat ` set is"
  by (induction "is" arbitrary: s) auto

lemma remove_list: "ok s \<Longrightarrow> ok (fold (\<lambda>i s. fst (remove s i)) is s) \<and>
    ids (fold (\<lambda>i s. fst (remove s i)) is s) = ids s - unat ` set is"
  by (induction "is" arbitrary: s) auto

text \<open>The least id, when there is one.\<close>

lemma least_Ret: "ok s \<Longrightarrow> \<exists>r. least s = Ret r"
  using least_law by blast

lemma least_None: "ok s \<Longrightarrow> least s = Ret None \<longleftrightarrow> ids s = {}"
  using least_law [of s] by auto

lemma least_Some: "ok s \<Longrightarrow> least s = Ret (Some i) \<Longrightarrow> unat i \<in> ids s \<and> (\<forall>j\<in>ids s. unat i \<le> j)"
  using least_law [of s] by auto

end

text \<open>With the set algebra: meet, join and minus.\<close>

locale id_algebra = id_set +
  fixes meet :: "'s \<Rightarrow> 's \<Rightarrow> 's" and join :: "'s \<Rightarrow> 's \<Rightarrow> 's" and minus :: "'s \<Rightarrow> 's \<Rightarrow> 's"
  assumes meet_law: "ok a \<Longrightarrow> ok b \<Longrightarrow> ok (meet a b) \<and> ids (meet a b) = ids a \<inter> ids b"
    and join_law: "ok a \<Longrightarrow> ok b \<Longrightarrow> ok (join a b) \<and> ids (join a b) = ids a \<union> ids b"
    and minus_law: "ok a \<Longrightarrow> ok b \<Longrightarrow> ok (minus a b) \<and> ids (minus a b) = ids a - ids b"
begin

lemma ok_ops [simp]: "ok a \<Longrightarrow> ok b \<Longrightarrow> ok (meet a b)" "ok a \<Longrightarrow> ok b \<Longrightarrow> ok (join a b)"
    "ok a \<Longrightarrow> ok b \<Longrightarrow> ok (minus a b)"
  and ids_ops [simp]: "ok a \<Longrightarrow> ok b \<Longrightarrow> ids (meet a b) = ids a \<inter> ids b"
    "ok a \<Longrightarrow> ok b \<Longrightarrow> ids (join a b) = ids a \<union> ids b"
    "ok a \<Longrightarrow> ok b \<Longrightarrow> ids (minus a b) = ids a - ids b"
  by (simp_all add: meet_law join_law minus_law)

lemma meet_commute: "ok a \<Longrightarrow> ok b \<Longrightarrow> meet a b = meet b a"
  and join_commute: "ok a \<Longrightarrow> ok b \<Longrightarrow> join a b = join b a"
  and meet_self: "ok a \<Longrightarrow> meet a a = a"
  and join_self: "ok a \<Longrightarrow> join a a = a"
  and minus_self: "ok a \<Longrightarrow> minus a a = emp"
  by (auto intro!: unique_law)

lemma meet_assoc: "ok a \<Longrightarrow> ok b \<Longrightarrow> ok c \<Longrightarrow> meet (meet a b) c = meet a (meet b c)"
  and join_assoc: "ok a \<Longrightarrow> ok b \<Longrightarrow> ok c \<Longrightarrow> join (join a b) c = join a (join b c)"
  and minus_join: "ok a \<Longrightarrow> ok b \<Longrightarrow> ok c \<Longrightarrow> minus a (join b c) = minus (minus a b) c"
  and meet_join: "ok a \<Longrightarrow> ok b \<Longrightarrow> ok c \<Longrightarrow> meet a (join b c) = join (meet a b) (meet a c)"
  by (auto intro!: unique_law)

text \<open>The operations over a list of operands, applied from the left.\<close>

lemma meet_list: "ok a \<Longrightarrow> \<forall>b\<in>set bs. ok b \<Longrightarrow>
    ok (foldl meet a bs) \<and> ids (foldl meet a bs) = ids a \<inter> (\<Inter>b\<in>set bs. ids b)"
  by (induction bs arbitrary: a) auto

lemma join_list: "ok a \<Longrightarrow> \<forall>b\<in>set bs. ok b \<Longrightarrow>
    ok (foldl join a bs) \<and> ids (foldl join a bs) = ids a \<union> (\<Union>b\<in>set bs. ids b)"
  by (induction bs arbitrary: a) auto

lemma minus_list: "ok a \<Longrightarrow> \<forall>b\<in>set bs. ok b \<Longrightarrow>
    ok (foldl minus a bs) \<and> ids (foldl minus a bs) = ids a - (\<Union>b\<in>set bs. ids b)"
  by (induction bs arbitrary: a) auto

end

end
