(* ===== verification/BitmapOps.thy ===== *)
theory BitmapOps
  imports Bitmap IdSet
begin

text \<open>
  The set algebra of \<^verbatim>\<open>internal/bitmap/ops.go\<close>: And, Or and AndNot with the builder of
  directory nodes. The source compares node pointers to return an operand instead of an equal
  copy; here nodes are values, and the comparisons are equality of values. By \<open>elems_inject\<close>
  a result that has an operand's ids is that operand's value, so the shortcuts change no result.
\<close>

section \<open>Heights of the operands\<close>

function lower_to :: "nat \<Rightarrow> bnode \<Rightarrow> bnode option" where
  "lower_to h n =
    (if h < n_height n
     then if n_present n AND 1 = 0 then None
          else case n_kids n of [] \<Rightarrow> None | k # ks \<Rightarrow> lower_to h k
     else Some n)"
  by pat_completeness auto
termination by (relation "measure (\<lambda>(h, n). size n)") (auto, case_tac n, auto)

declare lower_to.simps [simp del]

function lift_to :: "nat \<Rightarrow> bnode \<Rightarrow> bnode" where
  "lift_to h n = (if n_height n < h then lift_to h (lift_node n) else n)"
  by pat_completeness auto
termination by (relation "measure (\<lambda>(h, n). h - n_height n)") (auto simp: lift_node_def)

declare lift_to.simps [simp del]

definition level :: "bnode \<Rightarrow> bnode \<Rightarrow> bnode \<times> bnode" where
  "level a b = (let a' = lift_to (n_height b) a in (a', lift_to (n_height a') b))"

definition canonical_of :: "bnode option \<Rightarrow> bitmap" where
  "canonical_of r = (case r of None \<Rightarrow> None | Some n \<Rightarrow> Some (strip n))"

section \<open>The builder\<close>

definition popcount :: "uint64 list \<Rightarrow> uint32" where
  "popcount w = word_of_nat (OnesCount64 (w ! 0) + OnesCount64 (w ! 1) + OnesCount64 (w ! 2) + OnesCount64 (w ! 3))"

record builder =
  r_present :: uint64
  r_count :: uint32
  r_kids :: "bnode list"

definition new_builder :: builder where
  "new_builder = \<lparr>r_present = 0, r_count = 0, r_kids = []\<rparr>"

definition b_add :: "nat \<Rightarrow> bnode \<Rightarrow> builder \<Rightarrow> builder" where
  "b_add slot c r = r\<lparr>r_kids := r_kids r @ [c], r_present := r_present r OR slot_bit slot,
     r_count := r_count r + n_count c\<rparr>"

definition b_is :: "builder \<Rightarrow> bnode \<Rightarrow> bool" where
  "b_is r n \<longleftrightarrow> r_present r = n_present n \<and> r_count r = n_count n \<and>
     list_all (\<lambda>i. r_kids r ! i = n_kids n ! i) [0..<length (r_kids r)]"

definition b_node :: "builder \<Rightarrow> nat \<Rightarrow> bnode option" where
  "b_node r height = (if r_present r = 0 then None
     else Some (BNode (r_count r) height zero_words (r_present r) (r_kids r)))"

definition chunk_node :: "uint64 list \<Rightarrow> bnode" where
  "chunk_node w = BNode (popcount w) 0 w 0 []"

section \<open>And, Or, AndNot\<close>

primrec and_node :: "nat \<Rightarrow> bnode \<Rightarrow> bnode \<Rightarrow> bnode option" where
  "and_node 0 a b = (if a = b then Some a
     else let w = map2 (AND) (n_words a) (n_words b)
       in if w = zero_words then None else if w = n_words a then Some a
          else if w = n_words b then Some b else Some (chunk_node w))"
| "and_node (Suc h) a b = (if a = b then Some a
     else let r = bit_loop (\<lambda>slot r. case and_node h (kid a slot) (kid b slot) of
                      None \<Rightarrow> r | Some c \<Rightarrow> b_add slot c r)
                    (n_present a AND n_present b) new_builder
       in if b_is r a then Some a else if b_is r b then Some b else b_node r (Suc h))"

primrec or_node :: "nat \<Rightarrow> bnode \<Rightarrow> bnode \<Rightarrow> bnode option" where
  "or_node 0 a b = (if a = b then Some a
     else let w = map2 (OR) (n_words a) (n_words b)
       in if w = n_words a then Some a
          else if w = n_words b then Some b else Some (chunk_node w))"
| "or_node (Suc h) a b = (if a = b then Some a
     else let r = bit_loop (\<lambda>slot r. let bit = slot_bit slot in
                      if n_present b AND bit = 0 then b_add slot (kid a slot) r
                      else if n_present a AND bit = 0 then b_add slot (kid b slot) r
                      else case or_node h (kid a slot) (kid b slot) of
                        None \<Rightarrow> r | Some c \<Rightarrow> b_add slot c r)
                    (n_present a OR n_present b) new_builder
       in if b_is r a then Some a else if b_is r b then Some b else b_node r (Suc h))"

primrec andNot_node :: "nat \<Rightarrow> bnode \<Rightarrow> bnode \<Rightarrow> bnode option" where
  "andNot_node 0 a b = (if a = b then None
     else let w = map2 (\<lambda>x y. x AND NOT y) (n_words a) (n_words b)
       in if w = zero_words then None else if w = n_words a then Some a else Some (chunk_node w))"
| "andNot_node (Suc h) a b = (if a = b then None
     else let r = bit_loop (\<lambda>slot r. let bit = slot_bit slot; ak = kid a slot in
                      if n_present b AND bit = 0 then b_add slot ak r
                      else case andNot_node h ak (kid b slot) of
                        None \<Rightarrow> r | Some c \<Rightarrow> b_add slot c r)
                    (n_present a) new_builder
       in if b_is r a then Some a else b_node r (Suc h))"

definition And :: "bitmap \<Rightarrow> bitmap \<Rightarrow> bitmap" where
  "And a b = (case (a, b) of
      (Some x, Some y) \<Rightarrow>
        (case lower_to (n_height y) x of
           None \<Rightarrow> None
         | Some x' \<Rightarrow> (case lower_to (n_height x') y of
             None \<Rightarrow> None
           | Some y' \<Rightarrow> canonical_of (and_node (n_height x') x' y')))
    | _ \<Rightarrow> None)"

definition Or :: "bitmap \<Rightarrow> bitmap \<Rightarrow> bitmap" where
  "Or a b = (case a of None \<Rightarrow> b
    | Some x \<Rightarrow> (case b of None \<Rightarrow> a
      | Some y \<Rightarrow> (case level x y of (x', y') \<Rightarrow> canonical_of (or_node (n_height x') x' y'))))"

definition AndNot :: "bitmap \<Rightarrow> bitmap \<Rightarrow> bitmap" where
  "AndNot a b = (case (a, b) of
      (Some x, Some y) \<Rightarrow>
        (case lower_to (n_height x) y of
           None \<Rightarrow> a
         | Some y' \<Rightarrow> (case level x y' of (x', y'') \<Rightarrow> canonical_of (andNot_node (n_height x') x' y'')))
    | _ \<Rightarrow> a)"

section \<open>What the builder builds\<close>

definition owf :: "nat \<Rightarrow> bnode option \<Rightarrow> bool" where
  "owf h r \<longleftrightarrow> (case r of None \<Rightarrow> True | Some n \<Rightarrow> wf_node h n)"

definition oelems :: "nat \<Rightarrow> bnode option \<Rightarrow> nat set" where
  "oelems h r = (case r of None \<Rightarrow> {} | Some n \<Rightarrow> elems h n)"

lemma o_simps [simp]: "owf h None" "owf h (Some n) = wf_node h n" "oelems h None = {}" "oelems h (Some n) = elems h n"
  by (simp_all add: owf_def oelems_def)

abbreviation add_opt :: "(nat \<Rightarrow> bnode option) \<Rightarrow> nat \<Rightarrow> builder \<Rightarrow> builder" where
  "add_opt g s r \<equiv> (case g s of None \<Rightarrow> r | Some c \<Rightarrow> b_add s c r)"

text \<open>The slots of a list for which a child is added, and the builder after the list.\<close>

definition hits :: "(nat \<Rightarrow> bnode option) \<Rightarrow> nat list \<Rightarrow> nat list" where
  "hits g ss = filter (\<lambda>s. g s \<noteq> None) ss"

lemma fold_add_opt:
  "\<forall>s\<in>set ss. s < 64 \<Longrightarrow>
   let r' = fold (add_opt g) ss r in
     r_kids r' = r_kids r @ map (the \<circ> g) (hits g ss) \<and>
     (\<forall>i. bit (r_present r') i \<longleftrightarrow> bit (r_present r) i \<or> i \<in> set (hits g ss)) \<and>
     r_count r' = r_count r + sum_list (map n_count (map (the \<circ> g) (hits g ss)))"
proof (induction ss arbitrary: r)
  case (Cons s ss)
  have ss: "\<forall>s\<in>set ss. s < 64" using Cons.prems by simp
  show ?case
  proof (cases "g s")
    case None
    then show ?thesis using Cons.IH [OF ss, of r] by (simp add: hits_def Let_def)
  next
    case (Some c)
    then show ?thesis using Cons.IH [OF ss, of "b_add s c r"] Cons.prems
      by (auto simp: hits_def Let_def b_add_def bit_or_iff algebra_simps)
  qed
qed (simp add: hits_def)

lemma build_shape:
  fixes g w
  defines "r \<equiv> fold (add_opt g) (slots w) new_builder"
  shows "slots (r_present r) = hits g (slots w)" and "r_kids r = map (the \<circ> g) (hits g (slots w))"
    and "r_count r = sum_list (map n_count (r_kids r))"
proof -
  have "\<forall>s\<in>set (slots w). s < 64" by (auto dest: bit64_less)
  note f = fold_add_opt [OF this, of g new_builder, folded r_def]
  show "r_kids r = map (the \<circ> g) (hits g (slots w))" "r_count r = sum_list (map n_count (r_kids r))"
    using f by (simp_all add: Let_def new_builder_def)
  show "slots (r_present r) = hits g (slots w)"
  proof (rule slots_unique)
    show "sorted (hits g (slots w))" "distinct (hits g (slots w))"
      by (simp_all add: hits_def sorted_wrt_filter)
    show "set (hits g (slots w)) = {i. bit (r_present r) i}"
      using f by (auto simp: Let_def new_builder_def)
  qed
qed

subsection \<open>The count of a directory node is the sum of its children's\<close>

lemma elems_zip:
  assumes "length ks = length ss" and "distinct ss"
  shows "{i. \<exists>k. map_of (zip ss ks) (i div 2 ^ bspan h) = Some k \<and> i mod 2 ^ bspan h \<in> elems h k} =
    (\<Union>(s, k)\<in>set (zip ss ks). {i. i div 2 ^ bspan h = s \<and> i mod 2 ^ bspan h \<in> elems h k})"
  using assms by (auto simp: map_of_eq_Some_iff)

lemma shifted_image:
  assumes "wf_node h k"
  shows "{i. i div 2 ^ bspan h = s \<and> i mod 2 ^ bspan h \<in> elems h k} = (\<lambda>j. s * 2 ^ bspan h + j) ` elems h k"
proof (intro set_eqI iffI)
  fix i assume "i \<in> {i. i div 2 ^ bspan h = s \<and> i mod 2 ^ bspan h \<in> elems h k}"
  then have "i mod 2 ^ bspan h \<in> elems h k" and s: "s = i div 2 ^ bspan h" by simp_all
  moreover have "i = s * 2 ^ bspan h + i mod 2 ^ bspan h" unfolding s by (rule div_mult_mod_eq [symmetric])
  ultimately have "i mod 2 ^ bspan h \<in> elems h k" "i = s * 2 ^ bspan h + i mod 2 ^ bspan h" by blast+
  then show "i \<in> (\<lambda>j. s * 2 ^ bspan h + j) ` elems h k" by blast
next
  fix i assume "i \<in> (\<lambda>j. s * 2 ^ bspan h + j) ` elems h k"
  then obtain j where j: "j \<in> elems h k" "i = s * 2 ^ bspan h + j" by blast
  then show "i \<in> {i. i div 2 ^ bspan h = s \<and> i mod 2 ^ bspan h \<in> elems h k}"
    using combine_div_mod [OF elems_less [OF assms j(1)], of s] by simp
qed

lemma card_elems_zip:
  assumes "length ks = length ss" and "distinct ss" and "\<forall>k\<in>set ks. wf_node h k"
  shows "card (\<Union>(s, k)\<in>set (zip ss ks). {i. i div 2 ^ bspan h = s \<and> i mod 2 ^ bspan h \<in> elems h k}) =
    sum_list (map (\<lambda>k. card (elems h k)) ks)"
  using assms
proof (induction ks ss rule: list_induct2)
  case (Cons k ks s ss)
  let ?B = "\<lambda>s k. {i. i div 2 ^ bspan h = s \<and> i mod 2 ^ bspan h \<in> elems h k}"
  have k: "wf_node h k" using Cons.prems by simp
  have "card (?B s k) = card (elems h k)"
    unfolding shifted_image [OF k] by (rule card_image) (simp add: inj_on_def)
  moreover have "finite (?B s k)" unfolding shifted_image [OF k] by (simp add: finite_elems [OF k])
  moreover have "finite (\<Union>(s, k)\<in>set (zip ss ks). ?B s k)"
    using Cons.prems by (auto simp: shifted_image dest!: set_zip_rightD)
  moreover have "?B s k \<inter> (\<Union>(s, k)\<in>set (zip ss ks). ?B s k) = {}"
    using Cons.prems by (auto dest: set_zip_leftD)
  ultimately show ?case using Cons by (simp add: card_Un_disjoint)
qed simp

lemma count_kids:
  assumes "length ks = OnesCount64 p" and "\<forall>k\<in>set ks. wf_node h k"
  shows "sum_list (map n_count ks) = word_of_nat (card (elems (Suc h) (BNode c g ws p ks)))"
proof -
  have e: "elems (Suc h) (BNode c g ws p ks) =
    (\<Union>(s, k)\<in>set (zip (slots p) ks). {i. i div 2 ^ bspan h = s \<and> i mod 2 ^ bspan h \<in> elems h k})"
    using elems_zip [of ks "slots p" h] assms(1)
    by (simp add: OnesCount64_def in_elems_Suc child_def set_eq_iff)
  have "(word_of_nat (sum_list (map (\<lambda>k. card (elems h k)) ks)) :: uint32) = sum_list (map n_count ks)"
    using assms(2) by (induction ks) (auto dest: wf_count)
  then show ?thesis
    unfolding e using card_elems_zip [of ks "slots p" h] assms by (simp add: OnesCount64_def)
qed

text \<open>
  The node built from a partial function of the slots is well-formed and has exactly its
  values as children; when nothing was added there is no node.
\<close>

lemma build_correct:
  fixes g w h
  defines "r \<equiv> fold (add_opt g) (slots w) new_builder"
  assumes "\<And>s c. bit w s \<Longrightarrow> g s = Some c \<Longrightarrow> wf_node h c"
  shows "owf (Suc h) (b_node r (Suc h))"
    and "i \<in> oelems (Suc h) (b_node r (Suc h)) \<longleftrightarrow>
      bit w (i div 2 ^ bspan h) \<and> i mod 2 ^ bspan h \<in> oelems h (g (i div 2 ^ bspan h))"
proof -
  note shape = build_shape [of g w, folded r_def]
  have len: "length (r_kids r) = OnesCount64 (r_present r)"
    by (simp add: OnesCount64_def shape(1,2))
  have kids: "\<forall>k\<in>set (r_kids r). wf_node h k"
    using assms(2) by (auto simp: shape(2) hits_def)
  show "owf (Suc h) (b_node r (Suc h))"
  proof (cases "r_present r = 0")
    case False
    have "wf_node (Suc h) (BNode (r_count r) (Suc h) zero_words (r_present r) (r_kids r))"
      using False len kids count_kids [OF len kids] shape(3) by (intro wf_dirI) simp_all
    with False show ?thesis by (simp add: b_node_def)
  qed (simp add: b_node_def)
  have c: "map_of (zip (slots (r_present r)) (r_kids r)) s = (if bit w s then g s else None)" for s
  proof (cases "bit w s \<and> g s \<noteq> None")
    case True
    then have "s \<in> set (hits g (slots w))" by (simp add: hits_def)
    then show ?thesis using True by (simp add: shape(1,2) map_of_zip_map)
  next
    case False
    then have "s \<notin> set (hits g (slots w))" by (auto simp: hits_def)
    then show ?thesis using False by (auto simp add: shape(1,2) map_of_zip_map)
  qed
  show "i \<in> oelems (Suc h) (b_node r (Suc h)) \<longleftrightarrow>
      bit w (i div 2 ^ bspan h) \<and> i mod 2 ^ bspan h \<in> oelems h (g (i div 2 ^ bspan h))"
  proof (cases "r_present r = 0")
    case True
    then have "bit w s \<Longrightarrow> g s = None" for s using c [of s] by simp
    then show ?thesis using True by (auto simp: b_node_def)
  next
    case False
    then show ?thesis
      by (cases "g (i div 2 ^ bspan h)") (auto simp: b_node_def in_elems_Suc child_def c)
  qed
qed

lemma b_is_node:
  fixes g w
  defines "r \<equiv> fold (add_opt g) (slots w) new_builder"
  assumes "b_is r n" and "wf_node (Suc h) n"
  shows "b_node r (Suc h) = Some n"
proof -
  note shape = build_shape [of g w, folded r_def] and d = wf_dirD [OF assms(3)]
  have p: "r_present r = n_present n" and c: "r_count r = n_count n" using assms(2) by (simp_all add: b_is_def)
  have "length (r_kids r) = OnesCount64 (r_present r)"
    by (simp add: OnesCount64_def shape(1,2))
  then have "r_kids r = n_kids n"
    using assms(2) d(4) p by (intro nth_equalityI) (auto simp: b_is_def list_all_iff)
  then show ?thesis using p c d by (cases n) (simp add: b_node_def)
qed

section \<open>Chunks\<close>

definition word_elems :: "uint64 list \<Rightarrow> nat set" where
  "word_elems ws = {i. i < 256 \<and> bit (ws ! (i div 64)) (i mod 64)}"

lemma elems_chunk: "elems 0 n = word_elems (n_words n)"
  by (simp add: elems.simps word_elems_def)

lemma word_elems_Union: "word_elems ws = (\<Union>v\<in>{..<4}. (\<lambda>b. v * 64 + b) ` set (slots (ws ! v)))"
proof (intro set_eqI iffI)
  fix i assume "i \<in> word_elems ws"
  then have i: "i < 256" "bit (ws ! (i div 64)) (i mod 64)" by (simp_all add: word_elems_def)
  have "i = i div 64 * 64 + i mod 64" by (rule div_mult_mod_eq [symmetric])
  moreover have "i div 64 \<in> {..<4}" using i(1) by simp
  moreover have "i mod 64 \<in> set (slots (ws ! (i div 64)))" using i(2) by simp
  ultimately show "i \<in> (\<Union>v\<in>{..<4}. (\<lambda>b. v * 64 + b) ` set (slots (ws ! v)))" by blast
next
  fix i assume "i \<in> (\<Union>v\<in>{..<4}. (\<lambda>b. v * 64 + b) ` set (slots (ws ! v)))"
  then obtain v b where v: "v < 4" "bit (ws ! v) b" "i = v * 64 + b" by auto
  then have "b < 64" by (auto dest: bit64_less)
  then show "i \<in> word_elems ws" using v by (simp add: word_elems_def)
qed

lemma popcount_correct: "popcount ws = word_of_nat (card (word_elems ws))"
proof -
  have "card (word_elems ws) = (\<Sum>v\<in>{..<4}. card ((\<lambda>b. v * 64 + b) ` set (slots (ws ! v))))"
    unfolding word_elems_Union
  proof (rule card_UN_disjoint)
    show "\<forall>i\<in>{..<4}. finite ((\<lambda>b. i * 64 + b) ` set (slots (ws ! i)))"
      by (intro ballI finite_imageI finite_set)
    show "\<forall>i\<in>{..<4}. \<forall>j\<in>{..<4}. i \<noteq> j \<longrightarrow>
      (\<lambda>b. i * 64 + b) ` set (slots (ws ! i)) \<inter> (\<lambda>b. j * 64 + b) ` set (slots (ws ! j)) = {}"
    proof (intro ballI impI equals0I)
      fix i j x :: nat
      assume "i \<noteq> j" and "x \<in> (\<lambda>b. i * 64 + b) ` set (slots (ws ! i)) \<inter> (\<lambda>b. j * 64 + b) ` set (slots (ws ! j))"
      then have "x \<in> (\<lambda>b. i * 64 + b) ` {b. bit (ws ! i) b}" "x \<in> (\<lambda>b. j * 64 + b) ` {b. bit (ws ! j) b}"
        by simp_all
      then obtain b c where x: "x = i * 64 + b" "x = j * 64 + c" and "bit (ws ! i) b" "bit (ws ! j) c"
        by (elim imageE CollectE) blast
      then have "b < 64" "c < 64" by (simp_all add: bit64_less)
      then have "x div 64 = i" "x div 64 = j" using x(1) by (simp, unfold x(2), simp)
      with \<open>i \<noteq> j\<close> show False by simp
    qed
  qed simp
  also have "\<dots> = (\<Sum>v\<in>{..<4}. OnesCount64 (ws ! v))"
  proof (rule sum.cong [OF refl])
    fix v
    have "card ((\<lambda>b. v * 64 + b) ` set (slots (ws ! v))) = card (set (slots (ws ! v)))"
      by (rule card_image) (simp add: inj_on_def)
    also have "\<dots> = OnesCount64 (ws ! v)" unfolding OnesCount64_def by (rule distinct_card [OF distinct_slots])
    finally show "card ((\<lambda>b. v * 64 + b) ` set (slots (ws ! v))) = OnesCount64 (ws ! v)" .
  qed
  also have "\<dots> = OnesCount64 (ws ! 0) + OnesCount64 (ws ! 1) + OnesCount64 (ws ! 2) + OnesCount64 (ws ! 3)"
    by (simp add: lessThan_nat_numeral lessThan_Suc numeral_eq_Suc)
  finally show ?thesis by (simp add: popcount_def)
qed

lemma word_elems_empty: "length ws = 4 \<Longrightarrow> word_elems ws = {} \<longleftrightarrow> ws = zero_words"
proof
  assume l: "length ws = 4" and e: "word_elems ws = {}"
  show "ws = zero_words"
  proof (rule words_eqI)
    fix i :: nat assume i: "i < 256"
    then have "i div 64 < 4" by simp
    then show "bit (ws ! (i div 64)) (i mod 64) = bit (zero_words ! (i div 64)) (i mod 64)"
      using e i by (auto simp: word_elems_def)
  qed (simp_all add: l)
next
  assume "ws = zero_words"
  then show "word_elems ws = {}" by (auto simp: word_elems_def)
qed

lemma chunk_node_correct:
  assumes "length ws = 4" and "ws \<noteq> zero_words"
  shows "wf_node 0 (chunk_node ws)" and "elems 0 (chunk_node ws) = word_elems ws"
proof -
  show e: "elems 0 (chunk_node ws) = word_elems ws" by (simp add: elems_chunk chunk_node_def)
  show "wf_node 0 (chunk_node ws)"
  proof (rule wf_chunkI)
    show "elems 0 (chunk_node ws) \<noteq> {}" unfolding e using assms word_elems_empty by blast
    show "n_count (chunk_node ws) = word_of_nat (card (elems 0 (chunk_node ws)))"
      unfolding e by (simp add: chunk_node_def popcount_correct)
  qed (simp_all add: chunk_node_def assms)
qed

lemma word_elems_map2:
  assumes "length ws = 4" and "length vs = 4" and "\<And>x y b. b < 64 \<Longrightarrow> bit (f x y) b \<longleftrightarrow> P (bit x b) (bit y b)"
    and "P False False = False"
  shows "word_elems (map2 f ws vs) = {i. P (i \<in> word_elems ws) (i \<in> word_elems vs)}"
proof (rule set_eqI)
  fix i
  show "i \<in> word_elems (map2 f ws vs) \<longleftrightarrow> i \<in> {i. P (i \<in> word_elems ws) (i \<in> word_elems vs)}"
  proof (cases "i < 256")
    case True
    then have "i div 64 < 4" "i mod 64 < 64" by simp_all
    with True assms(1-3) show ?thesis by (simp add: word_elems_def)
  qed (use assms(4) in \<open>simp add: word_elems_def\<close>)
qed

lemma chunk_cases:
  assumes wf: "wf_node 0 a" "wf_node 0 b" and w: "w = map2 f (n_words a) (n_words b)"
    and f: "\<And>x y b. b < 64 \<Longrightarrow> bit (f x y) b \<longleftrightarrow> P (bit x b) (bit y b)" "P False False = False"
  shows "w = zero_words \<Longrightarrow> {i. P (i \<in> elems 0 a) (i \<in> elems 0 b)} = {}"
    and "w = n_words a \<Longrightarrow> {i. P (i \<in> elems 0 a) (i \<in> elems 0 b)} = elems 0 a"
    and "w = n_words b \<Longrightarrow> {i. P (i \<in> elems 0 a) (i \<in> elems 0 b)} = elems 0 b"
    and "w \<noteq> zero_words \<Longrightarrow> wf_node 0 (chunk_node w) \<and> elems 0 (chunk_node w) = {i. P (i \<in> elems 0 a) (i \<in> elems 0 b)}"
proof -
  note l = wf_chunkD(2) [OF wf(1)] wf_chunkD(2) [OF wf(2)]
  have lw: "length w = 4" by (simp add: w l)
  have e: "word_elems w = {i. P (i \<in> elems 0 a) (i \<in> elems 0 b)}"
    unfolding w elems_chunk by (rule word_elems_map2 [where P = P, OF l f])
  show "w = zero_words \<Longrightarrow> {i. P (i \<in> elems 0 a) (i \<in> elems 0 b)} = {}"
    using e word_elems_empty [OF lw] by simp
  show "w = n_words a \<Longrightarrow> {i. P (i \<in> elems 0 a) (i \<in> elems 0 b)} = elems 0 a"
    "w = n_words b \<Longrightarrow> {i. P (i \<in> elems 0 a) (i \<in> elems 0 b)} = elems 0 b"
    using e elems_chunk by simp_all
  show "w \<noteq> zero_words \<Longrightarrow> wf_node 0 (chunk_node w) \<and> elems 0 (chunk_node w) = {i. P (i \<in> elems 0 a) (i \<in> elems 0 b)}"
    using chunk_node_correct [OF lw] e by simp
qed

section \<open>The recursion computes the set operation at every height\<close>

lemma in_elems_dir:
  assumes "wf_node (Suc h) n"
  shows "i \<in> elems (Suc h) n \<longleftrightarrow> bit (n_present n) (i div 2 ^ bspan h) \<and> i mod 2 ^ bspan h \<in> elems h (kid n (i div 2 ^ bspan h))"
  unfolding in_elems_Suc child_eq [OF assms] by auto

text \<open>One directory level: the three operations differ in the slots they visit and in \<open>P\<close>.\<close>

lemma dir_correct:
  assumes wf: "wf_node (Suc h) a" "wf_node (Suc h) b"
    and r: "r = fold (add_opt g) (slots w) new_builder"
    and g: "\<And>s. bit w s \<Longrightarrow> owf h (g s)"
    and sem: "\<And>s j. (bit w s \<and> j \<in> oelems h (g s)) \<longleftrightarrow>
      P (bit (n_present a) s \<and> j \<in> elems h (kid a s)) (bit (n_present b) s \<and> j \<in> elems h (kid b s))"
  shows "owf (Suc h) (b_node r (Suc h)) \<and>
    oelems (Suc h) (b_node r (Suc h)) = {i. P (i \<in> elems (Suc h) a) (i \<in> elems (Suc h) b)}"
proof -
  have g': "wf_node h c" if "bit w s" "g s = Some c" for s c
    using g [OF that(1)] that(2) by simp
  note b = build_correct [of w g h, folded r, OF g']
  show ?thesis
    using b(1) by (auto simp: b(2) sem in_elems_dir [OF wf(1)] in_elems_dir [OF wf(2)])
qed

lemma dir_shortcuts:
  assumes wf: "wf_node (Suc h) a" "wf_node (Suc h) b"
    and r: "r = fold (add_opt g) (slots w) new_builder"
  shows "(if b_is r a then Some a else if b_is r b then Some b else b_node r (Suc h)) = b_node r (Suc h)"
    and "(if b_is r a then Some a else b_node r (Suc h)) = b_node r (Suc h)"
proof -
  have "b_is r a \<Longrightarrow> b_node r (Suc h) = Some a" "b_is r b \<Longrightarrow> b_node r (Suc h) = Some b"
    unfolding r by (erule b_is_node [OF _ wf(1)], erule b_is_node [OF _ wf(2)])
  then show "(if b_is r a then Some a else if b_is r b then Some b else b_node r (Suc h)) = b_node r (Suc h)"
    "(if b_is r a then Some a else b_node r (Suc h)) = b_node r (Suc h)" by simp_all
qed

lemma bit_andnot: "bit (x AND NOT y) b \<longleftrightarrow> bit x b \<and> \<not> bit y b" if "b < 64" for x y :: uint64
  using that by (simp add: bit_and_iff bit_not_iff)

lemma and_node_correct:
  "wf_node h a \<Longrightarrow> wf_node h b \<Longrightarrow> owf h (and_node h a b) \<and> oelems h (and_node h a b) = elems h a \<inter> elems h b"
proof (induction h arbitrary: a b)
  case 0
  define w where "w = map2 (AND) (n_words a) (n_words b)"
  have f: "\<And>x y :: uint64. \<And>b. b < 64 \<Longrightarrow> bit (x AND y) b \<longleftrightarrow> bit x b \<and> bit y b" by (simp add: bit_and_iff)
  note cc = chunk_cases [where P = "(\<and>)", OF 0 w_def f, simplified, folded Int_def]
  have r: "and_node 0 a b = (if a = b then Some a else if w = zero_words then None
    else if w = n_words a then Some a else if w = n_words b then Some b else Some (chunk_node w))"
    by (simp add: w_def Let_def)
  consider "a = b" | "a \<noteq> b" "w = zero_words" | "a \<noteq> b" "w \<noteq> zero_words" "w = n_words a"
    | "a \<noteq> b" "w \<noteq> zero_words" "w \<noteq> n_words a" "w = n_words b"
    | "a \<noteq> b" "w \<noteq> zero_words" "w \<noteq> n_words a" "w \<noteq> n_words b" by argo
  then show ?case
    by cases (unfold r, use 0 cc in auto)
next
  case (Suc h)
  note wf = Suc.prems
  show ?case
  proof (cases "a = b")
    case True
    then show ?thesis using wf by simp
  next
    case False
    define g where "g = (\<lambda>s. and_node h (kid a s) (kid b s))"
    define r where "r = fold (add_opt g) (slots (n_present a AND n_present b)) new_builder"
    have "and_node (Suc h) a b = (if b_is r a then Some a else if b_is r b then Some b else b_node r (Suc h))"
      using False by (simp add: Let_def bit_loop_fold r_def g_def)
    then have res: "and_node (Suc h) a b = b_node r (Suc h)"
      unfolding dir_shortcuts(1) [OF wf r_def] .
    have ih: "owf h (g s) \<and> oelems h (g s) = elems h (kid a s) \<inter> elems h (kid b s)"
      if "bit (n_present a AND n_present b) s" for s
      unfolding g_def using that by (intro Suc.IH kid_wf wf) (simp_all add: bit_and_iff)
    have "owf (Suc h) (b_node r (Suc h)) \<and> oelems (Suc h) (b_node r (Suc h)) =
        {i. i \<in> elems (Suc h) a \<and> i \<in> elems (Suc h) b}"
    proof (rule dir_correct [OF wf r_def])
      fix s j
      show "bit (n_present a AND n_present b) s \<Longrightarrow> owf h (g s)" using ih by blast
      show "(bit (n_present a AND n_present b) s \<and> j \<in> oelems h (g s)) \<longleftrightarrow>
        (bit (n_present a) s \<and> j \<in> elems h (kid a s)) \<and> (bit (n_present b) s \<and> j \<in> elems h (kid b s))"
        using ih [of s] by (cases "bit (n_present a AND n_present b) s") (auto simp: bit_and_iff)
    qed
    then show ?thesis unfolding res by (simp only: Int_def)
  qed
qed

lemma or_node_correct:
  "wf_node h a \<Longrightarrow> wf_node h b \<Longrightarrow> owf h (or_node h a b) \<and> oelems h (or_node h a b) = elems h a \<union> elems h b"
proof (induction h arbitrary: a b)
  case 0
  define w where "w = map2 (OR) (n_words a) (n_words b)"
  have f: "\<And>x y :: uint64. \<And>b. b < 64 \<Longrightarrow> bit (x OR y) b \<longleftrightarrow> bit x b \<or> bit y b" by (simp add: bit_or_iff)
  note cc = chunk_cases [where P = "(\<or>)", OF 0 w_def f, simplified, folded Un_def]
  have r: "or_node 0 a b = (if a = b then Some a
    else if w = n_words a then Some a else if w = n_words b then Some b else Some (chunk_node w))"
    by (simp add: w_def Let_def)
  have nz: "w \<noteq> zero_words"
  proof
    assume "w = zero_words"
    from cc(1) [OF this] show False using elems_nonempty [OF 0(1)] by blast
  qed
  consider "a = b" | "a \<noteq> b" "w = n_words a"
    | "a \<noteq> b" "w \<noteq> n_words a" "w = n_words b"
    | "a \<noteq> b" "w \<noteq> n_words a" "w \<noteq> n_words b" by argo
  then show ?case
    by cases (unfold r, use 0 cc nz in auto)
next
  case (Suc h)
  note wf = Suc.prems
  show ?case
  proof (cases "a = b")
    case True
    then show ?thesis using wf by simp
  next
    case False
    define g where "g = (\<lambda>s. if n_present b AND slot_bit s = 0 then Some (kid a s)
      else if n_present a AND slot_bit s = 0 then Some (kid b s) else or_node h (kid a s) (kid b s))"
    define r where "r = fold (add_opt g) (slots (n_present a OR n_present b)) new_builder"
    have step: "(\<lambda>slot r. let bit = slot_bit slot in
          if n_present b AND bit = 0 then b_add slot (kid a slot) r
          else if n_present a AND bit = 0 then b_add slot (kid b slot) r
          else case or_node h (kid a slot) (kid b slot) of None \<Rightarrow> r | Some c \<Rightarrow> b_add slot c r) = add_opt g"
      by (intro ext) (simp add: g_def Let_def)
    have "or_node (Suc h) a b = (if b_is r a then Some a else if b_is r b then Some b else b_node r (Suc h))"
      unfolding or_node.simps step bit_loop_fold r_def [symmetric] using False by (simp add: Let_def)
    then have res: "or_node (Suc h) a b = b_node r (Suc h)"
      unfolding dir_shortcuts(1) [OF wf r_def] .
    have gs: "g s = (if \<not> bit (n_present b) s then Some (kid a s) else if \<not> bit (n_present a) s then Some (kid b s)
        else or_node h (kid a s) (kid b s))" if "bit (n_present a OR n_present b) s" for s
      using bit64_less [OF that] by (simp add: g_def)
    have ih: "owf h (g s) \<and> oelems h (g s) = {j. (bit (n_present a) s \<and> j \<in> elems h (kid a s)) \<or> (bit (n_present b) s \<and> j \<in> elems h (kid b s))}"
      if p: "bit (n_present a OR n_present b) s" for s
    proof -
      consider "bit (n_present a) s" "\<not> bit (n_present b) s" | "\<not> bit (n_present a) s" "bit (n_present b) s"
        | "bit (n_present a) s" "bit (n_present b) s" using p by (auto simp: bit_or_iff)
      then show ?thesis
      proof cases
        case 3
        have "owf h (or_node h (kid a s) (kid b s)) \<and> oelems h (or_node h (kid a s) (kid b s)) = elems h (kid a s) \<union> elems h (kid b s)"
          by (intro Suc.IH kid_wf wf 3)
        then show ?thesis using 3 by (simp add: gs [OF p] Un_def)
      qed (simp_all add: gs [OF p] kid_wf [OF wf(1)] kid_wf [OF wf(2)])
    qed
    have "owf (Suc h) (b_node r (Suc h)) \<and> oelems (Suc h) (b_node r (Suc h)) =
        {i. i \<in> elems (Suc h) a \<or> i \<in> elems (Suc h) b}"
    proof (rule dir_correct [OF wf r_def])
      fix s j
      show "bit (n_present a OR n_present b) s \<Longrightarrow> owf h (g s)" using ih by blast
      show "(bit (n_present a OR n_present b) s \<and> j \<in> oelems h (g s)) \<longleftrightarrow>
        (bit (n_present a) s \<and> j \<in> elems h (kid a s)) \<or> (bit (n_present b) s \<and> j \<in> elems h (kid b s))"
        using ih [of s] by (cases "bit (n_present a OR n_present b) s") (simp_all add: bit_or_iff)
    qed
    then show ?thesis unfolding res by (simp only: Un_def)
  qed
qed

lemma andNot_node_correct:
  "wf_node h a \<Longrightarrow> wf_node h b \<Longrightarrow> owf h (andNot_node h a b) \<and> oelems h (andNot_node h a b) = elems h a - elems h b"
proof (induction h arbitrary: a b)
  case 0
  define w where "w = map2 (\<lambda>x y. x AND NOT y) (n_words a) (n_words b)"
  note cc = chunk_cases [where P = "\<lambda>p q. p \<and> \<not> q", OF 0 w_def bit_andnot, simplified, folded set_diff_eq]
  have r: "andNot_node 0 a b = (if a = b then None else if w = zero_words then None
    else if w = n_words a then Some a else Some (chunk_node w))"
    by (simp add: w_def Let_def)
  consider "a = b" | "a \<noteq> b" "w = zero_words" | "a \<noteq> b" "w \<noteq> zero_words" "w = n_words a"
    | "a \<noteq> b" "w \<noteq> zero_words" "w \<noteq> n_words a" by argo
  then show ?case
    by cases (unfold r, use 0 cc in auto)
next
  case (Suc h)
  note wf = Suc.prems
  show ?case
  proof (cases "a = b")
    case True
    then show ?thesis using wf by simp
  next
    case False
    define g where "g = (\<lambda>s. if n_present b AND slot_bit s = 0 then Some (kid a s) else andNot_node h (kid a s) (kid b s))"
    define r where "r = fold (add_opt g) (slots (n_present a)) new_builder"
    have step: "(\<lambda>slot r. let bit = slot_bit slot; ak = kid a slot in
          if n_present b AND bit = 0 then b_add slot ak r
          else case andNot_node h ak (kid b slot) of None \<Rightarrow> r | Some c \<Rightarrow> b_add slot c r) = add_opt g"
      by (intro ext) (simp add: g_def Let_def)
    have "andNot_node (Suc h) a b = (if b_is r a then Some a else b_node r (Suc h))"
      unfolding andNot_node.simps step bit_loop_fold r_def [symmetric] using False by (simp add: Let_def)
    then have res: "andNot_node (Suc h) a b = b_node r (Suc h)"
      unfolding dir_shortcuts(2) [OF wf r_def] .
    have gs: "g s = (if \<not> bit (n_present b) s then Some (kid a s) else andNot_node h (kid a s) (kid b s))"
      if "bit (n_present a) s" for s
      using bit64_less [OF that] by (simp add: g_def)
    have ih: "owf h (g s) \<and> oelems h (g s) = {j. j \<in> elems h (kid a s) \<and> \<not> (bit (n_present b) s \<and> j \<in> elems h (kid b s))}"
      if p: "bit (n_present a) s" for s
    proof (cases "bit (n_present b) s")
      case True
      have "owf h (andNot_node h (kid a s) (kid b s)) \<and> oelems h (andNot_node h (kid a s) (kid b s)) = elems h (kid a s) - elems h (kid b s)"
        by (intro Suc.IH kid_wf wf p True)
      then show ?thesis using True by (simp add: gs [OF p] set_diff_eq)
    qed (simp add: gs [OF p] kid_wf [OF wf(1) p])
    have "owf (Suc h) (b_node r (Suc h)) \<and> oelems (Suc h) (b_node r (Suc h)) =
        {i. i \<in> elems (Suc h) a \<and> i \<notin> elems (Suc h) b}"
    proof (rule dir_correct [OF wf r_def])
      fix s j
      show "bit (n_present a) s \<Longrightarrow> owf h (g s)" using ih by blast
      show "(bit (n_present a) s \<and> j \<in> oelems h (g s)) \<longleftrightarrow>
        (bit (n_present a) s \<and> j \<in> elems h (kid a s)) \<and> \<not> (bit (n_present b) s \<and> j \<in> elems h (kid b s))"
        using ih [of s] by (cases "bit (n_present a) s") simp_all
    qed
    then show ?thesis unfolding res by (simp only: set_diff_eq)
  qed
qed

section \<open>Operands of different heights\<close>

lemma bspan_mono: "g \<le> h \<Longrightarrow> (2 :: nat) ^ bspan g \<le> 2 ^ bspan h"
  by (intro power_increasing) (simp_all add: bspan_def)

lemma rank_0 [simp]: "rank w 0 = 0"
  by (cases "slots w") (simp_all add: rank_eq)

lemma elems_low:
  assumes "wf_node (Suc h) n" and "bit (n_present n) 0"
  shows "{i \<in> elems (Suc h) n. i < 2 ^ bspan h} = elems h (n_kids n ! 0)" and "wf_node h (n_kids n ! 0)"
proof -
  have k: "kid n 0 = n_kids n ! 0" by (simp add: kid_eq)
  show wk: "wf_node h (n_kids n ! 0)" using kid_wf [OF assms] k by simp
  show "{i \<in> elems (Suc h) n. i < 2 ^ bspan h} = elems h (n_kids n ! 0)"
    using elems_less [OF wk] k assms(2) by (auto simp: in_elems_dir [OF assms(1)])
qed

lemma lower_to_correct:
  "wf_node h n \<Longrightarrow> (case lower_to g n of
      None \<Rightarrow> {i \<in> elems h n. i < 2 ^ bspan g} = {}
    | Some m \<Rightarrow> wf_node (min g h) m \<and> elems (min g h) m = {i \<in> elems h n. i < 2 ^ bspan g})"
proof (induction h arbitrary: n)
  case 0
  have hh: "n_height n = 0" using 0 by (rule wf_height)
  have "lower_to g n = Some n" by (subst lower_to.simps) (simp add: hh)
  moreover have "{i \<in> elems 0 n. i < 2 ^ bspan g} = elems 0 n"
    using elems_less [OF 0] bspan_mono [of 0 g] by force
  ultimately show ?case using 0 by simp
next
  case (Suc h)
  have hh: "n_height n = Suc h" using Suc.prems by (rule wf_height)
  show ?case
  proof (cases "g < Suc h")
    case False
    then have "lower_to g n = Some n" by (subst lower_to.simps) (simp add: hh)
    moreover have "{i \<in> elems (Suc h) n. i < 2 ^ bspan g} = elems (Suc h) n"
      using less_le_trans [OF elems_less [OF Suc.prems] bspan_mono [of "Suc h" g]] False by auto
    ultimately show ?thesis using Suc.prems False by (simp add: min_def)
  next
    case True
    then have sub: "{i \<in> elems (Suc h) n. i < 2 ^ bspan g} = {i \<in> {i \<in> elems (Suc h) n. i < 2 ^ bspan h}. i < 2 ^ bspan g}"
      using less_le_trans [OF _ bspan_mono [of g h]] by auto
    show ?thesis
    proof (cases "bit (n_present n) 0")
      case False
      then have "n_present n AND slot_bit 0 = 0" by simp
      then have "n_present n AND 1 = 0" by (simp add: slot_bit_def)
      then have none: "lower_to g n = None" using True by (subst lower_to.simps) (simp add: hh)
      have "{i \<in> elems (Suc h) n. i < 2 ^ bspan h} = {}"
        using False by (auto simp: in_elems_dir [OF Suc.prems])
      then have "{i \<in> elems (Suc h) n. i < 2 ^ bspan g} = {}" unfolding sub by blast
      then show ?thesis using none by simp
    next
      case b: True
      have "n_present n AND 1 \<noteq> 0"
      proof
        assume "n_present n AND 1 = 0"
        then have "bit (n_present n AND 1) 0 = False" by simp
        then show False using b by (simp add: bit_and_iff bit_1_iff)
      qed
      moreover obtain k ks where k: "n_kids n = k # ks"
        using present_nonzero [OF Suc.prems] length_kids [OF Suc.prems] by (cases "n_kids n") simp_all
      ultimately have low: "lower_to g n = lower_to g k" using True by (subst lower_to.simps) (simp add: hh)
      have e: "{i \<in> elems (Suc h) n. i < 2 ^ bspan h} = elems h k" and wk: "wf_node h k"
        using elems_low [OF Suc.prems b] k by simp_all
      have m: "min g (Suc h) = min g h" using True by simp
      show ?thesis using Suc.IH [OF wk] unfolding low sub e m .
    qed
  qed
qed

lemma lift_to_correct:
  "wf_node f n \<Longrightarrow> wf_node (max f h) (lift_to h n) \<and> elems (max f h) (lift_to h n) = elems f n"
proof (induction h n arbitrary: f rule: lift_to.induct)
  case (1 h n)
  have hh: "n_height n = f" using "1.prems" by (rule wf_height)
  show ?case
  proof (cases "f < h")
    case True
    note l = lift_node_correct [OF "1.prems"]
    have "n_height n < h" using True hh by simp
    from "1.IH" [OF this l(1)] have "wf_node (max (Suc f) h) (lift_to h (lift_node n)) \<and>
      elems (max (Suc f) h) (lift_to h (lift_node n)) = elems f n" using l(2) by simp
    moreover have "max (Suc f) h = max f h" using True by simp
    moreover have "lift_to h n = lift_to h (lift_node n)" using True hh by (subst lift_to.simps) simp
    ultimately show ?thesis by simp
  next
    case False
    then have "lift_to h n = n" using hh by (subst lift_to.simps) simp
    moreover have "max f h = f" using False by simp
    ultimately show ?thesis using "1.prems" by simp
  qed
qed

lemma level_correct:
  assumes "wf_node g a" and "wf_node h b" and "level a b = (a', b')"
  shows "wf_node (max g h) a'" "wf_node (max g h) b'" "elems (max g h) a' = elems g a" "elems (max g h) b' = elems h b"
proof -
  have hb: "n_height b = h" using assms(2) by (rule wf_height)
  have a': "a' = lift_to h a" and b': "b' = lift_to (n_height a') b"
    using assms(3) hb by (auto simp: level_def Let_def)
  show a: "wf_node (max g h) a'" "elems (max g h) a' = elems g a"
    unfolding a' using lift_to_correct [OF assms(1)] by auto
  have "n_height a' = max g h" using a(1) by (rule wf_height)
  then have "b' = lift_to (max g h) b" using b' by simp
  moreover have "max h (max g h) = max g h" by simp
  ultimately show "wf_node (max g h) b'" "elems (max g h) b' = elems h b"
    using lift_to_correct [OF assms(2), of "max g h"] by auto
qed

lemma canonical_of_correct:
  assumes "owf h r" and "h \<le> maxHeight"
  shows "bm_wf (canonical_of r) \<and> bm_set (canonical_of r) = oelems h r"
proof (cases r)
  case None
  then show ?thesis by (simp add: canonical_of_def bm_wf_def bm_set_def)
next
  case (Some n)
  with assms(1) have "wf_node h n" by simp
  from strip_correct [OF this] obtain g where g: "g \<le> h" "wf_node g (strip n)" "elems g (strip n) = elems h n" "canonical (strip n)"
    by (elim exE conjE)
  have "g \<le> maxHeight" using g(1) assms(2) by simp
  from bm_SomeI [OF g(2) this g(4)] show ?thesis using Some g(3) by (simp add: canonical_of_def)
qed

section \<open>And, Or and AndNot are intersection, union and difference\<close>

lemma And_correct:
  assumes "bm_wf a" and "bm_wf b"
  shows "bm_wf (And a b) \<and> bm_set (And a b) = bm_set a \<inter> bm_set b"
proof (cases "a = None \<or> b = None")
  case True
  then show ?thesis by (auto simp: And_def bm_wf_def bm_set_def split: option.splits)
next
  case False
  then obtain x y where xy: "a = Some x" "b = Some y" by auto
  obtain g where g: "n_height x = g" "g \<le> maxHeight" "wf_node g x" "bm_set a = elems g x" using bm_SomeD assms(1) xy(1) by metis
  obtain h where h: "n_height y = h" "h \<le> maxHeight" "wf_node h y" "bm_set b = elems h y" using bm_SomeD assms(2) xy(2) by metis
  have in_g: "i \<in> elems g x \<Longrightarrow> i < 2 ^ bspan g" and in_h: "i \<in> elems h y \<Longrightarrow> i < 2 ^ bspan h" for i
    using elems_less [OF g(3)] elems_less [OF h(3)] by blast+
  show ?thesis
  proof (cases "lower_to h x")
    case None
    then have "{i \<in> elems g x. i < 2 ^ bspan h} = {}" using lower_to_correct [OF g(3), of h] by simp
    then have "elems g x \<inter> elems h y = {}" using in_h by blast
    moreover have "And a b = None" using None xy h(1) by (simp add: And_def)
    ultimately show ?thesis using g(4) h(4) by (simp add: bm_wf_def bm_set_def)
  next
    case (Some x')
    then have x': "wf_node (min h g) x'" "elems (min h g) x' = {i \<in> elems g x. i < 2 ^ bspan h}"
      using lower_to_correct [OF g(3), of h] by simp_all
    have hx: "n_height x' = min h g" using x'(1) by (rule wf_height)
    show ?thesis
    proof (cases "lower_to (min h g) y")
      case None
      then have "{i \<in> elems h y. i < 2 ^ bspan (min h g)} = {}" using lower_to_correct [OF h(3), of "min h g"] by simp
      moreover have "i < 2 ^ bspan (min h g)" if "i \<in> elems g x" "i \<in> elems h y" for i
        using in_g [OF that(1)] in_h [OF that(2)] by (simp add: min_def)
      ultimately have "elems g x \<inter> elems h y = {}" by blast
      moreover have "And a b = None" using None Some xy h(1) hx by (simp add: And_def)
      ultimately show ?thesis using g(4) h(4) by (simp add: bm_wf_def bm_set_def)
    next
      case y: (Some y')
      have m: "min (min h g) h = min h g" by simp
      have y': "wf_node (min h g) y'" "elems (min h g) y' = {i \<in> elems h y. i < 2 ^ bspan (min h g)}"
        using lower_to_correct [OF h(3), of "min h g"] unfolding y m by simp_all
      note c = and_node_correct [OF x'(1) y'(1)]
      have "And a b = canonical_of (and_node (min h g) x' y')" using Some y xy h(1) hx by (simp add: And_def)
      moreover have "min h g \<le> maxHeight" using g(2) by simp
      moreover have "oelems (min h g) (and_node (min h g) x' y') = elems g x \<inter> elems h y"
        using c x'(2) y'(2) in_g in_h by (auto simp: min_def)
      ultimately show ?thesis using canonical_of_correct [of "min h g" "and_node (min h g) x' y'"] c g(4) h(4) by simp
    qed
  qed
qed

lemma Or_correct:
  assumes "bm_wf a" and "bm_wf b"
  shows "bm_wf (Or a b) \<and> bm_set (Or a b) = bm_set a \<union> bm_set b"
proof (cases "a = None \<or> b = None")
  case True
  then show ?thesis using assms by (auto simp: Or_def bm_set_def split: option.splits)
next
  case False
  then obtain x y where xy: "a = Some x" "b = Some y" by auto
  obtain g where g: "n_height x = g" "g \<le> maxHeight" "wf_node g x" "bm_set a = elems g x" using bm_SomeD assms(1) xy(1) by metis
  obtain h where h: "n_height y = h" "h \<le> maxHeight" "wf_node h y" "bm_set b = elems h y" using bm_SomeD assms(2) xy(2) by metis
  obtain x' y' where l: "level x y = (x', y')" by fastforce
  note lv = level_correct [OF g(3) h(3) l]
  have hx: "n_height x' = max g h" using lv(1) by (rule wf_height)
  note c = or_node_correct [OF lv(1,2)]
  have "Or a b = canonical_of (or_node (max g h) x' y')" using l xy hx by (simp add: Or_def)
  moreover have "max g h \<le> maxHeight" using g(2) h(2) by simp
  ultimately show ?thesis using canonical_of_correct [of "max g h" "or_node (max g h) x' y'"] c lv(3,4) g(4) h(4) by simp
qed

lemma AndNot_correct:
  assumes "bm_wf a" and "bm_wf b"
  shows "bm_wf (AndNot a b) \<and> bm_set (AndNot a b) = bm_set a - bm_set b"
proof (cases "a = None \<or> b = None")
  case True
  then show ?thesis using assms by (auto simp: AndNot_def bm_wf_def bm_set_def split: option.splits)
next
  case False
  then obtain x y where xy: "a = Some x" "b = Some y" by auto
  obtain g where g: "n_height x = g" "g \<le> maxHeight" "wf_node g x" "bm_set a = elems g x" using bm_SomeD assms(1) xy(1) by metis
  obtain h where h: "n_height y = h" "h \<le> maxHeight" "wf_node h y" "bm_set b = elems h y" using bm_SomeD assms(2) xy(2) by metis
  have in_g: "i \<in> elems g x \<Longrightarrow> i < 2 ^ bspan g" for i using elems_less [OF g(3)] by blast
  show ?thesis
  proof (cases "lower_to g y")
    case None
    then have "{i \<in> elems h y. i < 2 ^ bspan g} = {}" using lower_to_correct [OF h(3), of g] by simp
    then have "elems g x - elems h y = elems g x" using in_g by blast
    moreover have "AndNot a b = a" using None xy g(1) by (simp add: AndNot_def)
    ultimately show ?thesis using assms(1) g(4) h(4) by simp
  next
    case (Some y')
    then have y': "wf_node (min g h) y'" "elems (min g h) y' = {i \<in> elems h y. i < 2 ^ bspan g}"
      using lower_to_correct [OF h(3), of g] by simp_all
    obtain x' y'' where l: "level x y' = (x', y'')" by fastforce
    have m: "max g (min g h) = g" by simp
    note lv = level_correct [OF g(3) y'(1) l, unfolded m]
    have hx: "n_height x' = g" using lv(1) by (rule wf_height)
    note c = andNot_node_correct [OF lv(1,2)]
    have "AndNot a b = canonical_of (andNot_node g x' y'')" using Some l xy g(1) hx by (simp add: AndNot_def)
    moreover have "elems g x - {i \<in> elems h y. i < 2 ^ bspan g} = elems g x - elems h y" using in_g by blast
    ultimately show ?thesis using canonical_of_correct [OF _ g(2)] c lv(3,4) y'(2) g(4) h(4) by simp
  qed
qed

section \<open>Bitmaps implement the interface\<close>

interpretation bm: id_algebra bm_set bm_wf None Set_id Clear_id Has Min_id And Or AndNot
proof
  show "bm_wf None \<and> bm_set None = {}" by (simp add: bm_wf_def bm_set_def)
qed (erule Set_id_correct Clear_id_correct Has_iff Min_id_correct bm_set_inject And_correct Or_correct AndNot_correct, assumption?, assumption?)+

end
