(* ===== verification/BitmapIter.thy ===== *)
theory BitmapIter
  imports BitmapOps
begin

text \<open>
  The iterator of \<^verbatim>\<open>internal/bitmap/bitmap.go\<close>: a stack of directory frames and the chunk
  being read. The source keeps the frames in an array of maxHeight entries with a depth; here
  they are a list, the top first, whose length is the depth. Next is a loop whose turns are
  not bounded syntactically, so it is a partial function, and the theorems show that it
  returns. A frame's index past its children and an empty stack in descend are panics of the
  source that the invariant \<open>it_ok\<close> excludes.
\<close>

section \<open>The iterator\<close>

record frame =
  f_n :: bnode
  f_next :: nat
  f_present :: uint64
  f_base :: uint32

record iterator =
  it_path :: "frame list"
  it_chunk :: "bnode option"
  it_base :: uint32
  it_word :: nat
  it_bits :: uint64

definition no_iterator :: iterator where
  "no_iterator = \<lparr>it_path = [], it_chunk = None, it_base = 0, it_word = 0, it_bits = 0\<rparr>"

primrec descend :: "nat \<Rightarrow> iterator \<Rightarrow> iterator" where
  "descend 0 it = it"
| "descend (Suc h) it = (case it_path it of [] \<Rightarrow> it | f # fs \<Rightarrow>
     let slot = TrailingZeros64 (f_present f);
         c = n_kids (f_n f) ! f_next f;
         f' = f\<lparr>f_present := f_present f AND (f_present f - 1), f_next := f_next f + 1\<rparr>;
         base = f_base f OR push_bit (bspan h) (word_of_nat slot)
     in if h = 0
        then it\<lparr>it_path := f' # fs, it_chunk := Some c, it_base := base, it_word := 0, it_bits := n_words c ! 0\<rparr>
        else descend h (it\<lparr>it_path := \<lparr>f_n = c, f_next = 0, f_present = n_present c, f_base = base\<rparr> # f' # fs\<rparr>))"

definition Iterate :: "bitmap \<Rightarrow> iterator" where
  "Iterate b = (case b of None \<Rightarrow> no_iterator
    | Some n \<Rightarrow> if n_height n = 0
        then no_iterator\<lparr>it_chunk := Some n, it_bits := n_words n ! 0\<rparr>
        else descend (n_height n)
          (no_iterator\<lparr>it_path := [\<lparr>f_n = n, f_next = 0, f_present = n_present n, f_base = 0\<rparr>]\<rparr>))"

text \<open>Backing up to a frame with children left.\<close>

fun back_up :: "frame list \<Rightarrow> nat \<Rightarrow> frame list \<times> nat" where
  "back_up [] height = ([], height)"
| "back_up (f # fs) height = (if f_present f = 0 then back_up fs (height + 1) else (f # fs, height))"

partial_function (option) Next :: "iterator \<Rightarrow> (iterator \<times> uint32 option) option" where
  "Next it =
    (if it_bits it \<noteq> 0
     then Some (it\<lparr>it_bits := it_bits it AND (it_bits it - 1)\<rparr>,
                Some (it_base it OR word_of_nat (it_word it * 64 + TrailingZeros64 (it_bits it))))
     else case it_chunk it of
       None \<Rightarrow> Some (it, None)
     | Some c \<Rightarrow>
         if it_word it < 3
         then Next (it\<lparr>it_word := it_word it + 1, it_bits := n_words c ! (it_word it + 1)\<rparr>)
         else let (path, height) = back_up (it_path it) 1
           in if path = [] then Some (it\<lparr>it_chunk := None, it_path := []\<rparr>, None)
              else Next (descend height (it\<lparr>it_chunk := None, it_path := path\<rparr>)))"

text \<open>The loop of every client: call Next until it reports no more ids.\<close>

partial_function (option) drain :: "iterator \<Rightarrow> uint32 list option" where
  "drain it = Option.bind (Next it) (\<lambda>(it', r). case r of None \<Rightarrow> Some []
     | Some i \<Rightarrow> Option.bind (drain it') (\<lambda>is. Some (i # is)))"

section \<open>The ids an iterator has left\<close>

definition chunk_rest :: "nat \<Rightarrow> uint64 list \<Rightarrow> nat \<Rightarrow> uint64 \<Rightarrow> nat list" where
  "chunk_rest base ws w x = map (\<lambda>s. base + w * 64 + s) (slots x) @
     concat (map (\<lambda>v. map (\<lambda>s. base + v * 64 + s) (slots (ws ! v))) [Suc w..<4])"

fun all_ids :: "nat \<Rightarrow> nat \<Rightarrow> bnode \<Rightarrow> nat list" where
  "all_ids 0 base n = chunk_rest base (n_words n) 0 (n_words n ! 0)"
| "all_ids (Suc h) base n =
    concat (map (\<lambda>(s, k). all_ids h (base + s * 2 ^ bspan h) k) (zip (slots (n_present n)) (n_kids n)))"

definition frame_rest :: "nat \<Rightarrow> frame \<Rightarrow> nat list" where
  "frame_rest h f = concat (map (\<lambda>(s, k). all_ids h (unat (f_base f) + s * 2 ^ bspan h) k)
     (zip (slots (f_present f)) (drop (f_next f) (n_kids (f_n f)))))"

text \<open>The frames from the top have heights \<open>Suc h\<close>, \<open>Suc (Suc h)\<close> and so on.\<close>

fun path_rest :: "nat \<Rightarrow> frame list \<Rightarrow> nat list" where
  "path_rest h [] = []"
| "path_rest h (f # fs) = frame_rest h f @ path_rest (Suc h) fs"

definition it_rest :: "iterator \<Rightarrow> nat list" where
  "it_rest it = (case it_chunk it of None \<Rightarrow> []
    | Some c \<Rightarrow> chunk_rest (unat (it_base it)) (n_words c) (it_word it) (it_bits it) @ path_rest 0 (it_path it))"

definition frame_ok :: "nat \<Rightarrow> frame \<Rightarrow> bool" where
  "frame_ok h f \<longleftrightarrow> Suc h \<le> maxHeight \<and> unat (f_base f) mod 2 ^ bspan (Suc h) = 0 \<and>
     length (slots (f_present f)) = length (drop (f_next f) (n_kids (f_n f))) \<and>
     (\<forall>k\<in>set (n_kids (f_n f)). wf_node h k)"

fun path_ok :: "nat \<Rightarrow> frame list \<Rightarrow> bool" where
  "path_ok h [] = True"
| "path_ok h (f # fs) = (frame_ok h f \<and> path_ok (Suc h) fs)"

definition it_ok :: "iterator \<Rightarrow> bool" where
  "it_ok it \<longleftrightarrow> (case it_chunk it of None \<Rightarrow> it_bits it = 0
    | Some c \<Rightarrow> it_word it < 4 \<and> unat (it_base it) mod 2 ^ bspan 0 = 0 \<and> path_ok 0 (it_path it))"

section \<open>The ids of a tree in order\<close>

lemma sorted_concat_ranges:
  fixes base w :: nat
  assumes "sorted_wrt (<) ss"
    and "\<And>s. s \<in> set ss \<Longrightarrow> sorted_wrt (<) (f s) \<and> set (f s) \<subseteq> {base + s * w ..< base + (s + 1) * w}"
  shows "sorted_wrt (<) (concat (map f ss))"
  using assms
proof (induction ss)
  case (Cons s ss)
  have "x < y" if "x \<in> set (f s)" "t \<in> set ss" "y \<in> set (f t)" for x t y :: nat
  proof -
    have "x < base + (s + 1) * w" using that(1) Cons.prems(2) [of s] by auto
    moreover have "base + t * w \<le> y" using that(2,3) Cons.prems(2) [of t] by auto
    moreover have "s + 1 \<le> t" using Cons.prems(1) that(2) by auto
    then have "(s + 1) * w \<le> t * w" by (rule mult_le_mono1)
    ultimately show ?thesis by linarith
  qed
  with Cons show ?case by (auto simp: sorted_wrt_append)
qed simp

lemma chunk_all:
  "chunk_rest base ws 0 (ws ! 0) = concat (map (\<lambda>v. map (\<lambda>s. base + v * 64 + s) (slots (ws ! v))) [0..<4])"
proof -
  have "[0..<4] = 0 # [Suc 0..<4]" by (simp add: upt_rec)
  then show ?thesis by (simp add: chunk_rest_def)
qed

lemma sorted_chunk: "sorted_wrt (<) (chunk_rest base ws 0 (ws ! 0))"
  unfolding chunk_all
proof (rule sorted_concat_ranges [where base = base and w = 64])
  fix v :: nat
  have "sorted_wrt (<) (slots (ws ! v))" by (simp add: strict_sorted_iff)
  then have "sorted_wrt (<) (map (\<lambda>s. base + v * 64 + s) (slots (ws ! v)))" by (simp add: sorted_wrt_map)
  moreover have "set (map (\<lambda>s. base + v * 64 + s) (slots (ws ! v))) \<subseteq> {base + v * 64..<base + (v + 1) * 64}"
    by (auto dest: bit64_less)
  ultimately show "sorted_wrt (<) (map (\<lambda>s. base + v * 64 + s) (slots (ws ! v))) \<and>
    set (map (\<lambda>s. base + v * 64 + s) (slots (ws ! v))) \<subseteq> {base + v * 64..<base + (v + 1) * 64}" by blast
qed simp

lemma set_chunk: "set (chunk_rest base ws 0 (ws ! 0)) = (\<lambda>i. base + i) ` word_elems ws"
  unfolding chunk_all word_elems_Union by (auto simp: image_iff) (metis add.assoc atLeastLessThan_iff lessThan_iff zero_le)+

lemma in_zip_kids:
  assumes "wf_node (Suc h) n"
  shows "(s, k) \<in> set (zip (slots (n_present n)) (n_kids n)) \<longleftrightarrow> bit (n_present n) s \<and> k = kid n s"
proof -
  have "(s, k) \<in> set (zip (slots (n_present n)) (n_kids n)) \<longleftrightarrow> child n s = Some k"
    unfolding child_def using length_kids [OF assms] by (intro map_of_eq_Some_iff [symmetric]) simp
  then show ?thesis by (auto simp: child_eq [OF assms])
qed

lemma zip_kids:
  assumes "wf_node (Suc h) n"
  shows "zip (slots (n_present n)) (n_kids n) = map (\<lambda>s. (s, kid n s)) (slots (n_present n))"
proof (rule nth_equalityI)
  show l: "length (zip (slots (n_present n)) (n_kids n)) = length (map (\<lambda>s. (s, kid n s)) (slots (n_present n)))"
    using length_kids [OF assms] by simp
  fix i assume i: "i < length (zip (slots (n_present n)) (n_kids n))"
  obtain s k where sk: "zip (slots (n_present n)) (n_kids n) ! i = (s, k)" by fastforce
  then have "k = kid n s" using nth_mem [OF i] in_zip_kids [OF assms] by simp
  moreover have "slots (n_present n) ! i = s" using sk i by simp
  ultimately show "zip (slots (n_present n)) (n_kids n) ! i = map (\<lambda>s. (s, kid n s)) (slots (n_present n)) ! i"
    using sk i l by simp
qed

lemma all_ids_Suc:
  assumes "wf_node (Suc h) n"
  shows "all_ids (Suc h) base n =
    concat (map (\<lambda>s. all_ids h (base + s * 2 ^ bspan h) (kid n s)) (slots (n_present n)))"
  unfolding all_ids.simps zip_kids [OF assms] by (simp add: comp_def)

lemma all_ids_correct:
  "wf_node h n \<Longrightarrow> sorted_wrt (<) (all_ids h base n) \<and> set (all_ids h base n) = (\<lambda>i. base + i) ` elems h n"
proof (induction h arbitrary: base n)
  case 0
  show ?case unfolding all_ids.simps elems_chunk set_chunk using sorted_chunk by blast
next
  case (Suc h)
  let ?f = "\<lambda>s. all_ids h (base + s * 2 ^ bspan h) (kid n s)"
  have ih: "sorted_wrt (<) (?f s) \<and> set (?f s) = (\<lambda>i. base + s * 2 ^ bspan h + i) ` elems h (kid n s)"
    if "bit (n_present n) s" for s by (rule Suc.IH [OF kid_wf [OF Suc.prems that]])
  have rng: "set (?f s) \<subseteq> {base + s * 2 ^ bspan h..<base + (s + 1) * 2 ^ bspan h}" if "bit (n_present n) s" for s
    using ih [OF that] elems_less [OF kid_wf [OF Suc.prems that]] by auto
  have "sorted_wrt (<) (concat (map ?f (slots (n_present n))))"
    using ih rng by (intro sorted_concat_ranges [where base = base and w = "2 ^ bspan h"]) (auto simp: strict_sorted_iff)
  moreover have "set (concat (map ?f (slots (n_present n)))) = (\<lambda>i. base + i) ` elems (Suc h) n"
  proof (intro set_eqI iffI)
    fix x assume "x \<in> set (concat (map ?f (slots (n_present n))))"
    then obtain s where s: "bit (n_present n) s" "x \<in> set (?f s)" by auto
    then obtain j where j: "j \<in> elems h (kid n s)" "x = base + s * 2 ^ bspan h + j" using ih [OF s(1)] by blast
    have "s * 2 ^ bspan h + j \<in> elems (Suc h) n"
      using j(1) s(1) elems_kid [OF Suc.prems s(1)] by blast
    with j(2) show "x \<in> (\<lambda>i. base + i) ` elems (Suc h) n" by (simp add: image_iff add.assoc)
  next
    fix x assume "x \<in> (\<lambda>i. base + i) ` elems (Suc h) n"
    then obtain i where i: "i \<in> elems (Suc h) n" "x = base + i" by blast
    let ?s = "i div 2 ^ bspan h"
    have s: "bit (n_present n) ?s" "i mod 2 ^ bspan h \<in> elems h (kid n ?s)"
      using i(1) in_elems_dir [OF Suc.prems] by simp_all
    have "x = base + ?s * 2 ^ bspan h + i mod 2 ^ bspan h" unfolding i(2) add.assoc div_mult_mod_eq ..
    then have "x \<in> set (?f ?s)" using ih [OF s(1)] s(2) by blast
    then show "x \<in> set (concat (map ?f (slots (n_present n))))" using s(1) by auto
  qed
  ultimately show ?case unfolding all_ids_Suc [OF Suc.prems] by blast
qed

section \<open>Next yields the first id that is left\<close>

lemma chunk_rest_bits:
  "x \<noteq> 0 \<Longrightarrow> chunk_rest base ws w x = (base + w * 64 + TrailingZeros64 x) # chunk_rest base ws w (x AND (x - 1))"
  using TrailingZeros64_nonzero [of x] by (simp add: chunk_rest_def slots_and_pred) (metis list.simps(9))

lemma chunk_rest_word:
  "w < 3 \<Longrightarrow> chunk_rest base ws w 0 = chunk_rest base ws (Suc w) (ws ! Suc w)"
proof -
  assume "w < 3"
  then have "[Suc w..<4] = Suc w # [Suc (Suc w)..<4]" by (simp add: upt_conv_Cons)
  then show ?thesis by (simp add: chunk_rest_def)
qed

lemma chunk_rest_done: "3 \<le> w \<Longrightarrow> chunk_rest base ws w 0 = []"
  by (simp add: chunk_rest_def)

lemma Next_bits: "it_bits it \<noteq> 0 \<Longrightarrow> Next it =
    Some (it\<lparr>it_bits := it_bits it AND (it_bits it - 1)\<rparr>,
          Some (it_base it OR word_of_nat (it_word it * 64 + TrailingZeros64 (it_bits it))))"
  by (subst Next.simps) simp

lemma Next_word: "it_bits it = 0 \<Longrightarrow> it_chunk it = Some c \<Longrightarrow> it_word it < 3 \<Longrightarrow>
    Next it = Next (it\<lparr>it_word := it_word it + 1, it_bits := n_words c ! (it_word it + 1)\<rparr>)"
  by (subst Next.simps) simp

text \<open>Within a chunk: the first id left in it, or the end of the chunk.\<close>

lemma Next_chunk:
  assumes "it_chunk it = Some c" and "it_ok it"
  shows "case chunk_rest (unat (it_base it)) (n_words c) (it_word it) (it_bits it) of
      [] \<Rightarrow> Next it = Next (it\<lparr>it_word := 3, it_bits := 0\<rparr>)
    | x # xs \<Rightarrow> \<exists>it' i. Next it = Some (it', Some i) \<and> unat i = x \<and> it_chunk it' = Some c \<and> it_ok it' \<and>
        it_path it' = it_path it \<and> it_base it' = it_base it \<and>
        chunk_rest (unat (it_base it)) (n_words c) (it_word it') (it_bits it') = xs"
  using assms
proof (induction "3 - it_word it" arbitrary: it rule: less_induct)
  case less
  note ok = less.prems(2) [unfolded it_ok_def less.prems(1) option.case]
  show ?case
  proof (cases "it_bits it = 0")
    case False
    let ?j = "it_word it * 64 + TrailingZeros64 (it_bits it)"
    have "it_word it * 64 \<le> 3 * 64" using ok by simp
    then have "?j < 2 ^ bspan 0" using TrailingZeros64_less [OF False] by simp
    then have "unat (it_base it OR word_of_nat ?j) = unat (it_base it) + ?j"
      using ok by (intro unat_or_add [where k = "bspan 0"]) simp_all
    then show ?thesis
      using less.prems(1) ok by (simp add: Next_bits [OF False] chunk_rest_bits [OF False] it_ok_def)
  next
    case True
    show ?thesis
    proof (cases "it_word it < 3")
      case w: True
      let ?it = "it\<lparr>it_word := it_word it + 1, it_bits := n_words c ! (it_word it + 1)\<rparr>"
      have r: "chunk_rest (unat (it_base it)) (n_words c) (it_word it) (it_bits it) =
        chunk_rest (unat (it_base ?it)) (n_words c) (it_word ?it) (it_bits ?it)"
        using True chunk_rest_word [OF w] by simp
      have n: "Next it = Next ?it" by (rule Next_word [OF True less.prems(1) w])
      have "it_ok ?it" using less.prems(1) ok w by (simp add: it_ok_def)
      then have "case chunk_rest (unat (it_base ?it)) (n_words c) (it_word ?it) (it_bits ?it) of
          [] \<Rightarrow> Next ?it = Next (?it\<lparr>it_word := 3, it_bits := 0\<rparr>)
        | x # xs \<Rightarrow> \<exists>it' i. Next ?it = Some (it', Some i) \<and> unat i = x \<and> it_chunk it' = Some c \<and> it_ok it' \<and>
            it_path it' = it_path ?it \<and> it_base it' = it_base ?it \<and>
            chunk_rest (unat (it_base ?it)) (n_words c) (it_word it') (it_bits it') = xs"
        using less.prems(1) w by (intro less.hyps) simp_all
      then show ?thesis unfolding r n by (simp split: list.splits)
    next
      case False
      then have "it_word it = 3" using ok by simp
      then have "it\<lparr>it_word := 3, it_bits := 0\<rparr> = it" using True by simp
      then show ?thesis using False True by (simp add: chunk_rest_done)
    qed
  qed
qed

text \<open>Between chunks: back up to a frame with children left and descend from it.\<close>

lemma back_up_rest:
  "path_ok h fs \<Longrightarrow> back_up fs (Suc h) = (path, g) \<Longrightarrow>
     path_rest h fs = path_rest (g - 1) path \<and> path_ok (g - 1) path \<and> h < g \<and>
     (case path of [] \<Rightarrow> True | f # _ \<Rightarrow> f_present f \<noteq> 0)"
proof (induction fs "Suc h" arbitrary: h rule: back_up.induct)
  case (2 f fs)
  show ?case
  proof (cases "f_present f = 0")
    case True
    then have "back_up fs (Suc (Suc h)) = (path, g)" using 2(3) by simp
    then have "path_rest (Suc h) fs = path_rest (g - 1) path \<and> path_ok (g - 1) path \<and> Suc h < g \<and>
      (case path of [] \<Rightarrow> True | f # _ \<Rightarrow> f_present f \<noteq> 0)"
      using 2(1) [OF True, of "Suc h"] 2(2) by simp
    then show ?thesis using True by (simp add: frame_rest_def)
  next
    case False
    then have "path = f # fs" "g = Suc h" using 2(3) by simp_all
    then show ?thesis using 2(2) False by simp
  qed
qed simp

text \<open>Taking the next child of a frame.\<close>

lemma frame_next:
  assumes ok: "frame_ok h f" and p: "f_present f \<noteq> 0"
    and f': "f' = f\<lparr>f_present := f_present f AND (f_present f - 1), f_next := f_next f + 1\<rparr>"
    and c: "c = n_kids (f_n f) ! f_next f"
    and base: "base = f_base f OR push_bit (bspan h) (word_of_nat (TrailingZeros64 (f_present f)))"
  shows "wf_node h c" and "frame_ok h f'" and "frame_rest h f = all_ids h (unat base) c @ frame_rest h f'"
    and "unat base mod 2 ^ bspan h = 0"
proof -
  let ?s = "TrailingZeros64 (f_present f)"
  have h: "Suc h \<le> maxHeight" and b: "unat (f_base f) mod 2 ^ bspan (Suc h) = 0"
    and len: "length (slots (f_present f)) = length (drop (f_next f) (n_kids (f_n f)))"
    and wf: "\<forall>k\<in>set (n_kids (f_n f)). wf_node h k"
    using ok by (simp_all add: frame_ok_def)
  have sl: "slots (f_present f) = ?s # slots (f_present f AND (f_present f - 1))"
    using TrailingZeros64_nonzero [OF p] by (simp add: slots_and_pred [OF p])
  have nx: "f_next f < length (n_kids (f_n f))"
    using len sl by (metis drop_all length_Cons list.size(3) nat.distinct(1) not_le)
  have dr: "drop (f_next f) (n_kids (f_n f)) = c # drop (Suc (f_next f)) (n_kids (f_n f))"
    unfolding c using nx by (rule Cons_nth_drop_Suc [symmetric])
  show "wf_node h c" using nx wf c by simp
  have len': "length (slots (f_present f AND (f_present f - 1))) = length (drop (Suc (f_next f)) (n_kids (f_n f)))"
    using len unfolding sl dr by simp
  then show "frame_ok h f'" using h b wf by (simp add: f' frame_ok_def)
  have "?s < 64" by (rule TrailingZeros64_less [OF p])
  then have s: "?s * 2 ^ bspan h < 2 ^ bspan (Suc h)" by (simp add: power_add)
  have "bspan (Suc h) \<le> 32" using h by (simp add: bspan_def maxHeight_def)
  then have base': "unat base = unat (f_base f) + ?s * 2 ^ bspan h"
    unfolding base push_bit_word_of_nat by (rule unat_or_add [OF b s])
  have "unat (f_base f) mod 2 ^ bspan h = 0"
    using b by (metis bspan_pow_Suc mod_0_imp_dvd mod_eq_0_iff_dvd dvd_mult_left)
  then show "unat base mod 2 ^ bspan h = 0" unfolding base' by simp
  show "frame_rest h f = all_ids h (unat base) c @ frame_rest h f'"
    unfolding frame_rest_def sl dr base' by (simp add: f')
qed

lemma descend_rest:
  "path_ok h (f # fs) \<Longrightarrow> it_path it = f # fs \<Longrightarrow> f_present f \<noteq> 0 \<Longrightarrow>
   \<exists>c. it_chunk (descend (Suc h) it) = Some c \<and> it_ok (descend (Suc h) it) \<and>
     it_rest (descend (Suc h) it) = path_rest h (f # fs) \<and>
     chunk_rest (unat (it_base (descend (Suc h) it))) (n_words c) (it_word (descend (Suc h) it)) (it_bits (descend (Suc h) it)) \<noteq> []"
proof (induction h arbitrary: it f fs)
  case 0
  let ?c = "n_kids (f_n f) ! f_next f"
  let ?b = "f_base f OR push_bit (bspan 0) (word_of_nat (TrailingZeros64 (f_present f)))"
  let ?f = "f\<lparr>f_present := f_present f AND (f_present f - 1), f_next := f_next f + 1\<rparr>"
  have ok: "frame_ok 0 f" "path_ok (Suc 0) fs" using 0(1) by simp_all
  note fn = frame_next [OF ok(1) 0(3) refl refl refl]
  define d where "d = descend (Suc 0) it"
  have d: "d = it\<lparr>it_path := ?f # fs, it_chunk := Some ?c, it_base := ?b, it_word := 0, it_bits := n_words ?c ! 0\<rparr>"
    using 0(2) by (simp add: d_def Let_def)
  have ch: "it_chunk d = Some ?c" by (simp add: d)
  have rest: "chunk_rest (unat (it_base d)) (n_words ?c) (it_word d) (it_bits d) = all_ids 0 (unat ?b) ?c"
    by (simp add: d)
  have "all_ids 0 (unat ?b) ?c \<noteq> []"
    using all_ids_correct [OF fn(1), of "unat ?b"] elems_nonempty [OF fn(1)] by (metis image_is_empty set_empty)
  moreover have "it_ok d" using ok fn(2,4) by (simp add: d it_ok_def)
  moreover have "it_rest d = path_rest 0 (f # fs)"
    unfolding it_rest_def ch option.case rest using fn(3) by (simp add: d)
  ultimately show ?case unfolding d_def [symmetric] rest [symmetric] using ch by blast
next
  case (Suc h)
  let ?c = "n_kids (f_n f) ! f_next f"
  let ?b = "f_base f OR push_bit (bspan (Suc h)) (word_of_nat (TrailingZeros64 (f_present f)))"
  let ?f = "f\<lparr>f_present := f_present f AND (f_present f - 1), f_next := f_next f + 1\<rparr>"
  let ?g = "\<lparr>f_n = ?c, f_next = 0, f_present = n_present ?c, f_base = ?b\<rparr>"
  let ?it = "it\<lparr>it_path := ?g # ?f # fs\<rparr>"
  have ok: "frame_ok (Suc h) f" "path_ok (Suc (Suc h)) fs" using Suc.prems(1) by simp_all
  note fn = frame_next [OF ok(1) Suc.prems(3) refl refl refl]
  have "Suc h \<le> maxHeight" using ok(1) by (simp add: frame_ok_def)
  then have "frame_ok h ?g"
    using fn(4) length_kids [OF fn(1)] kids_wf [OF fn(1)] by (simp add: frame_ok_def)
  then have p: "path_ok h (?g # ?f # fs)" using fn(2) ok(2) by simp
  have d: "descend (Suc (Suc h)) it = descend (Suc h) ?it" using Suc.prems(2) by (simp add: Let_def)
  have "path_rest h (?g # ?f # fs) = path_rest (Suc h) (f # fs)"
    using fn(3) by (simp add: frame_rest_def)
  moreover have "it_path ?it = ?g # ?f # fs" by simp
  moreover have "f_present ?g \<noteq> 0" using present_nonzero [OF fn(1)] by simp
  ultimately show ?case unfolding d using Suc.IH [OF p] by metis
qed

lemma Next_correct:
  assumes "it_ok it"
  shows "case it_rest it of
      [] \<Rightarrow> \<exists>it'. Next it = Some (it', None)
    | x # xs \<Rightarrow> \<exists>it' i. Next it = Some (it', Some i) \<and> unat i = x \<and> it_ok it' \<and> it_rest it' = xs"
proof (cases "it_chunk it")
  case None
  then have "it_bits it = 0" using assms by (simp add: it_ok_def)
  then have "Next it = Some (it, None)" using None by (subst Next.simps) simp
  then show ?thesis using None by (simp add: it_rest_def)
next
  case (Some c)
  have hit: "case it_rest it of
      [] \<Rightarrow> \<exists>it'. Next it = Some (it', None)
    | x # xs \<Rightarrow> \<exists>it' i. Next it = Some (it', Some i) \<and> unat i = x \<and> it_ok it' \<and> it_rest it' = xs"
    if it: "it_chunk it = Some c" "it_ok it" "chunk_rest (unat (it_base it)) (n_words c) (it_word it) (it_bits it) \<noteq> []" for it c
  proof -
    obtain x xs where x: "chunk_rest (unat (it_base it)) (n_words c) (it_word it) (it_bits it) = x # xs"
      using it(3) by (meson neq_Nil_conv)
    have "\<exists>it' i. Next it = Some (it', Some i) \<and> unat i = x \<and> it_chunk it' = Some c \<and> it_ok it' \<and>
        it_path it' = it_path it \<and> it_base it' = it_base it \<and>
        chunk_rest (unat (it_base it)) (n_words c) (it_word it') (it_bits it') = xs"
      using Next_chunk [OF it(1,2)] unfolding x list.case .
    then obtain it' i where n: "Next it = Some (it', Some i)" "unat i = x" "it_chunk it' = Some c" "it_ok it'"
        "it_path it' = it_path it" "it_base it' = it_base it"
        "chunk_rest (unat (it_base it)) (n_words c) (it_word it') (it_bits it') = xs"
      by (elim exE conjE)
    have r: "it_rest it = x # xs @ path_rest 0 (it_path it)" using it(1) x by (simp add: it_rest_def)
    have "it_rest it' = xs @ path_rest 0 (it_path it)" using n by (simp add: it_rest_def)
    then show ?thesis unfolding r using n(1,2,4) by simp
  qed
  show ?thesis
  proof (cases "chunk_rest (unat (it_base it)) (n_words c) (it_word it) (it_bits it) = []")
    case False
    then show ?thesis using hit [OF Some assms] by simp
  next
    case True
    obtain path g where bu: "back_up (it_path it) 1 = (path, g)" by fastforce
    have pok: "path_ok 0 (it_path it)" using assms Some by (simp add: it_ok_def)
    have b: "path_rest 0 (it_path it) = path_rest (g - 1) path" "path_ok (g - 1) path" "0 < g"
        "case path of [] \<Rightarrow> True | f # _ \<Rightarrow> f_present f \<noteq> 0"
      using back_up_rest [OF pok, of path g] bu by simp_all
    have r: "it_rest it = path_rest (g - 1) path" using Some True b(1) by (simp add: it_rest_def)
    have "Next it = Next (it\<lparr>it_word := 3, it_bits := 0\<rparr>)" using Next_chunk [OF Some assms] True by simp
    also have "\<dots> = (if path = [] then Some (it\<lparr>it_word := 3, it_bits := 0, it_chunk := None, it_path := []\<rparr>, None)
        else Next (descend g (it\<lparr>it_word := 3, it_bits := 0, it_chunk := None, it_path := path\<rparr>)))"
      using Some bu by (subst Next.simps) simp
    finally have n: "Next it = (if path = [] then Some (it\<lparr>it_word := 3, it_bits := 0, it_chunk := None, it_path := []\<rparr>, None)
        else Next (descend g (it\<lparr>it_word := 3, it_bits := 0, it_chunk := None, it_path := path\<rparr>)))" .
    show ?thesis
    proof (cases path)
      case Nil
      then show ?thesis using n r by simp
    next
      case (Cons f fs)
      let ?it = "it\<lparr>it_word := 3, it_bits := 0, it_chunk := None, it_path := path\<rparr>"
      obtain h where h: "g = Suc h" using b(3) by (cases g) auto
      have "path_ok h (f # fs)" "it_path ?it = f # fs" "f_present f \<noteq> 0" using b(2,4) Cons h by simp_all
      from descend_rest [OF this] obtain c' where d: "it_chunk (descend g ?it) = Some c'" "it_ok (descend g ?it)"
          "it_rest (descend g ?it) = path_rest h (f # fs)"
          "chunk_rest (unat (it_base (descend g ?it))) (n_words c') (it_word (descend g ?it)) (it_bits (descend g ?it)) \<noteq> []"
        unfolding h by (elim exE conjE)
      have eqs: "Next it = Next (descend g ?it)" "it_rest it = it_rest (descend g ?it)"
        using n r d(3) Cons h by simp_all
      show ?thesis using hit [OF d(1,2,4)] unfolding eqs .
    qed
  qed
qed

section \<open>Iterating a bitmap lists its ids in ascending order\<close>

lemma Iterate_rest:
  assumes "bm_wf b"
  shows "it_ok (Iterate b) \<and> it_rest (Iterate b) = sorted_list_of_set (bm_set b)"
proof (cases b)
  case None
  then show ?thesis by (simp add: Iterate_def no_iterator_def it_ok_def it_rest_def bm_set_def)
next
  case (Some n)
  obtain h where h: "n_height n = h" "h \<le> maxHeight" "wf_node h n" "bm_set b = elems h n"
    using bm_SomeD assms Some by metis
  have "all_ids h 0 n = sorted_list_of_set (bm_set b)"
    using all_ids_correct [OF h(3), of 0] h(4) sorted_list_of_set.idem_if_sorted_distinct [of "all_ids h 0 n"]
    by (simp add: strict_sorted_iff)
  moreover have "it_ok (Iterate b) \<and> it_rest (Iterate b) = all_ids h 0 n"
  proof (cases h)
    case 0
    then show ?thesis using Some h(1) by (simp add: Iterate_def no_iterator_def it_ok_def it_rest_def)
  next
    case (Suc g)
    let ?f = "\<lparr>f_n = n, f_next = 0, f_present = n_present n, f_base = 0\<rparr>"
    let ?it = "no_iterator\<lparr>it_path := [?f]\<rparr>"
    note wf = h(3) [unfolded Suc]
    have "path_ok g [?f]"
      using h(2) Suc length_kids [OF wf] kids_wf [OF wf] by (simp add: frame_ok_def)
    moreover have "f_present ?f \<noteq> 0" using present_nonzero [OF wf] by simp
    ultimately have "it_ok (descend (Suc g) ?it) \<and> it_rest (descend (Suc g) ?it) = path_rest g [?f]"
      using descend_rest [of g ?f "[]" ?it] by auto
    moreover have "path_rest g [?f] = all_ids h 0 n" by (simp add: Suc frame_rest_def)
    moreover have "Iterate b = descend (Suc g) ?it" using Some h(1) Suc by (simp add: Iterate_def)
    ultimately show ?thesis by simp
  qed
  ultimately show ?thesis by simp
qed

lemma drain_rest: "it_ok it \<Longrightarrow> \<exists>is. drain it = Some is \<and> map unat is = it_rest it"
proof (induction "it_rest it" arbitrary: it)
  case Nil
  have "\<exists>it'. Next it = Some (it', None)" using Next_correct [OF Nil.prems] unfolding Nil.hyps [symmetric] list.case .
  then obtain it' where "Next it = Some (it', None)" ..
  then have "drain it = Some []" by (subst drain.simps) simp
  then show ?case using Nil.hyps by simp
next
  case (Cons x xs)
  have "\<exists>it' i. Next it = Some (it', Some i) \<and> unat i = x \<and> it_ok it' \<and> it_rest it' = xs"
    using Next_correct [OF Cons.prems] unfolding Cons.hyps(2) [symmetric] list.case .
  then obtain it' i where n: "Next it = Some (it', Some i)" "unat i = x" "it_ok it'" "it_rest it' = xs"
    by (elim exE conjE)
  from Cons.hyps(1) [OF n(4) [symmetric] n(3)] obtain js where js: "drain it' = Some js" "map unat js = it_rest it'"
    by (elim exE conjE)
  have "drain it = Some (i # js)" using n(1) js(1) by (subst drain.simps) simp
  then show ?case using n js Cons.hyps(2) by simp
qed

lemma drain_Iterate:
  "bm_wf b \<Longrightarrow> \<exists>is. drain (Iterate b) = Some is \<and> map unat is = sorted_list_of_set (bm_set b)"
  using Iterate_rest [of b] drain_rest [of "Iterate b"] by simp

end
