(* ===== verification/BitmapSpec.thy ===== *)
theory BitmapSpec
  imports BitmapIter
begin

text \<open>
  What the package \<^verbatim>\<open>internal/bitmap\<close> promises its client, the row-id sets of bitmap
  indexes: the properties of Set, Clear, Has, Min, Len, And, Or, AndNot and the iterator,
  each with a concrete instance. They rest on the interpretation \<open>bm\<close> of \<open>id_algebra\<close>.
\<close>

lemma bm_single [simp]: "bm_wf (fst (Set_id None i))" "bm_set (fst (Set_id None i)) = {unat i}"
  using bm.ids_add [OF bm.ok_emp, of i] by simp_all

lemma bm_pair [simp]: "bm_wf (fst (Set_id (fst (Set_id None i)) j))"
  "bm_set (fst (Set_id (fst (Set_id None i)) j)) = {unat j, unat i}"
  by simp_all

text \<open>
  C28: Writer.Set on a canonical tree yields a canonical tree that holds exactly one more
  id (or the same ids when it was there), and reports whether the id was absent before.
\<close>
theorem Set_adds:
  assumes "bm_wf b"
  shows "bm_wf (fst (Set_id b i)) \<and> bm_set (fst (Set_id b i)) = insert (unat i) (bm_set b) \<and>
    (snd (Set_id b i) \<longleftrightarrow> unat i \<notin> bm_set b)"
  using assms by simp

lemma Set_adds_witness:
  "bm_set (fst (Set_id (fst (Set_id None 3)) 70000)) = {3, 70000} \<and> snd (Set_id (fst (Set_id None 3)) 70000) \<and>
   \<not> snd (Set_id (fst (Set_id None 3)) 3)"
  using Set_adds [of "fst (Set_id None 3)" 70000] Set_adds [of "fst (Set_id None 3)" 3] by auto

text \<open>
  C29: Writer.Clear removes the id and nothing else, restores the canonical form (the
  directory as low as the ids allow, the empty tree for no ids), and reports whether the id
  was there. The 32-bit counts that decide when a node is dropped are right even for a full set.
\<close>
theorem Clear_removes:
  assumes "bm_wf b"
  shows "bm_wf (fst (Clear_id b i)) \<and> bm_set (fst (Clear_id b i)) = bm_set b - {unat i} \<and>
    (snd (Clear_id b i) \<longleftrightarrow> unat i \<in> bm_set b)"
  using assms by simp

lemma Clear_removes_witness:
  "bm_set (fst (Clear_id (fst (Set_id (fst (Set_id None 3)) 70000)) 70000)) = {3} \<and>
   bm_wf (fst (Clear_id (fst (Set_id (fst (Set_id None 3)) 70000)) 70000))"
  using Clear_removes [of "fst (Set_id (fst (Set_id None 3)) 70000)" 70000] by auto

text \<open>
  C30: a tree is determined by its ids: two well-formed bitmaps are the same value exactly
  when Has answers alike on every id, whatever sequence of operations built them. This is
  what the pointer shortcuts of the set algebra rely on.
\<close>
theorem canonical_form:
  assumes "bm_wf a" and "bm_wf b"
  shows "a = b \<longleftrightarrow> (\<forall>i. Has a i \<longleftrightarrow> Has b i)"
proof
  assume h: "\<forall>i. Has a i \<longleftrightarrow> Has b i"
  have "x \<in> bm_set a \<longleftrightarrow> x \<in> bm_set b" for x
  proof (cases "x < 2 ^ 32")
    case True
    then have "unat (word_of_nat x :: uint32) = x" by (simp add: unat_of_nat)
    then show ?thesis using h [rule_format, of "word_of_nat x"] Has_iff assms by simp
  next
    case False
    then show ?thesis using bm_set_less assms by blast
  qed
  then show "a = b" using bm_set_inject assms by blast
qed simp

lemma canonical_form_witness:
  "fst (Clear_id (fst (Set_id (fst (Set_id None 3)) 70000)) 70000) = fst (Set_id None 3) \<and>
   (\<forall>i. Has (fst (Clear_id (fst (Set_id (fst (Set_id None 3)) 70000)) 70000)) i \<longleftrightarrow> Has (fst (Set_id None 3)) i)"
proof -
  have "bm_wf (fst (Clear_id (fst (Set_id (fst (Set_id None 3)) 70000)) 70000))" by simp
  moreover have "fst (Clear_id (fst (Set_id (fst (Set_id None 3)) 70000)) 70000) = fst (Set_id None 3)"
    by (rule bm_set_inject) auto
  ultimately show ?thesis
    using canonical_form [of "fst (Clear_id (fst (Set_id (fst (Set_id None 3)) 70000)) 70000)" "fst (Set_id None 3)"] by simp
qed

text \<open>
  C31: And, Or and AndNot of trees of any heights are intersection, union and difference,
  and their results are canonical again.
\<close>
theorem algebra_correct:
  assumes "bm_wf a" and "bm_wf b"
  shows "bm_wf (And a b) \<and> bm_set (And a b) = bm_set a \<inter> bm_set b \<and>
    bm_wf (Or a b) \<and> bm_set (Or a b) = bm_set a \<union> bm_set b \<and>
    bm_wf (AndNot a b) \<and> bm_set (AndNot a b) = bm_set a - bm_set b"
  using assms by simp

lemma algebra_correct_witness:
  "bm_set (And (fst (Set_id (fst (Set_id None 3)) 70000)) (fst (Set_id None 3))) = {3} \<and>
   bm_set (AndNot (fst (Set_id (fst (Set_id None 3)) 70000)) (fst (Set_id None 3))) = {70000}"
  using algebra_correct [of "fst (Set_id (fst (Set_id None 3)) 70000)" "fst (Set_id None 3)"] by auto

text \<open>
  The iterator returns: the loop over Next ends, and the ids it yields are the ids of the
  set in ascending order, each once.
\<close>
theorem iterate_ascending:
  assumes "bm_wf b"
  shows "\<exists>is. drain (Iterate b) = Some is \<and> map unat is = sorted_list_of_set (bm_set b)"
  using assms by (rule drain_Iterate)

lemma iterate_ascending_witness:
  "\<exists>is. drain (Iterate (fst (Set_id (fst (Set_id None 70000)) 3))) = Some is \<and> map unat is = [3, 70000]"
  using iterate_ascending [of "fst (Set_id (fst (Set_id None 70000)) 3)"] by simp

text \<open>
  Min never reaches its panic on a well-formed tree: it reports no id exactly for the
  empty set, and otherwise the least one.
\<close>
theorem Min_least:
  assumes "bm_wf b"
  shows "Min_id b \<noteq> Panic \<and> (Min_id b = Ret None \<longleftrightarrow> bm_set b = {}) \<and>
    (\<forall>i. Min_id b = Ret (Some i) \<longrightarrow> unat i = Min (bm_set b))"
  using bm.least_Ret [OF assms] bm.least_None [OF assms] bm.least_Some [OF assms] finite_bm_set [OF assms]
  by (auto intro!: Min_eqI [symmetric])

lemma Min_least_witness:
  "Min_id (fst (Set_id (fst (Set_id None 70000)) 3)) \<noteq> Panic \<and> Min_id (fst (Set_id (fst (Set_id None 70000)) 3)) \<noteq> Ret None"
  using Min_least [of "fst (Set_id (fst (Set_id None 70000)) 3)"] by simp

text \<open>
  Len is the number of ids modulo \<open>2 ^ 32\<close> (so 0 for the full set, and exact for every
  other), and Empty tells whether there are none.
\<close>
theorem Len_counts:
  assumes "bm_wf b"
  shows "Len b = int (card (bm_set b)) mod 2 ^ 32 \<and> (Empty b \<longleftrightarrow> bm_set b = {})"
  using assms by (simp add: Len_correct Empty_iff)

lemma Len_counts_witness: "Len (fst (Set_id (fst (Set_id None 70000)) 3)) = 2"
  using Len_counts [of "fst (Set_id (fst (Set_id None 70000)) 3)"] by simp

end
