(* ===== verification/BitmapBounds.thy ===== *)
theory BitmapBounds
  imports BitmapSpec
begin

text \<open>
  The bounds of the iterator of \<^verbatim>\<open>internal/bitmap/bitmap.go\<close>. The path of an Iterator is an array
  of maxHeight frames, and descend and Next index it, the children of nodes and the words of
  chunks without checks of their own: an index out of range would be a run-time panic. Here the
  operations of BitmapIter are written again with every index checked, \<open>Panic\<close> where the source would
  panic, and are shown never to panic, however often Next is called, also past the end.
\<close>

section \<open>The iterator with its indexing checked\<close>

definition in_bounds :: "nat \<Rightarrow> 'a list \<Rightarrow> bool" where
  "in_bounds i xs \<longleftrightarrow> i < length xs"

text \<open>
  descend: \<^verbatim>\<open>it.path[it.depth-1]\<close> has no frame at depth 0, \<^verbatim>\<open>kids[f.next]\<close> may be past the end,
  \<^verbatim>\<open>words[0]\<close> must be there, and \<^verbatim>\<open>it.path[it.depth]\<close> must have room for one frame more.
  A height of 0 would wrap to 255; it is a panic here too.
\<close>

primrec descend_chk :: "nat \<Rightarrow> iterator \<Rightarrow> iterator outcome" where
  "descend_chk 0 it = Panic"
| "descend_chk (Suc h) it = (case it_path it of [] \<Rightarrow> Panic | f # fs \<Rightarrow>
     if \<not> in_bounds (f_next f) (n_kids (f_n f)) then Panic
     else let slot = TrailingZeros64 (f_present f);
         c = n_kids (f_n f) ! f_next f;
         f' = f\<lparr>f_present := f_present f AND (f_present f - 1), f_next := f_next f + 1\<rparr>;
         base = f_base f OR push_bit (bspan h) (word_of_nat slot)
     in if h = 0
        then if in_bounds 0 (n_words c)
          then Ret (it\<lparr>it_path := f' # fs, it_chunk := Some c, it_base := base, it_word := 0, it_bits := n_words c ! 0\<rparr>)
          else Panic
        else if length (f' # fs) < maxHeight
          then descend_chk h (it\<lparr>it_path := \<lparr>f_n = c, f_next = 0, f_present = n_present c, f_base = base\<rparr> # f' # fs\<rparr>)
          else Panic)"

definition Iterate_chk :: "bitmap \<Rightarrow> iterator outcome" where
  "Iterate_chk b = (case b of None \<Rightarrow> Ret no_iterator
    | Some n \<Rightarrow> if n_height n = 0
        then if in_bounds 0 (n_words n) then Ret (no_iterator\<lparr>it_chunk := Some n, it_bits := n_words n ! 0\<rparr>) else Panic
        else if 0 < maxHeight
          then descend_chk (n_height n) (no_iterator\<lparr>it_path := [\<lparr>f_n = n, f_next = 0, f_present = n_present n, f_base = 0\<rparr>]\<rparr>)
          else Panic)"

partial_function (option) Next_chk :: "iterator \<Rightarrow> (iterator \<times> uint32 option) outcome option" where
  "Next_chk it =
    (if it_bits it \<noteq> 0
     then Some (Ret (it\<lparr>it_bits := it_bits it AND (it_bits it - 1)\<rparr>,
                Some (it_base it OR word_of_nat (it_word it * 64 + TrailingZeros64 (it_bits it)))))
     else case it_chunk it of
       None \<Rightarrow> Some (Ret (it, None))
     | Some c \<Rightarrow>
         if it_word it < 3
         then if in_bounds (it_word it + 1) (n_words c)
           then Next_chk (it\<lparr>it_word := it_word it + 1, it_bits := n_words c ! (it_word it + 1)\<rparr>)
           else Some Panic
         else let (path, height) = back_up (it_path it) 1
           in if path = [] then Some (Ret (it\<lparr>it_chunk := None, it_path := []\<rparr>, None))
              else case descend_chk height (it\<lparr>it_chunk := None, it_path := path\<rparr>) of
                  Panic \<Rightarrow> Some Panic
                | Ret it' \<Rightarrow> Next_chk it')"

text \<open>What a client gets from \<open>n\<close> calls of Next.\<close>

primrec calls :: "nat \<Rightarrow> iterator \<Rightarrow> uint32 option list outcome option" where
  "calls 0 it = Some (Ret [])"
| "calls (Suc n) it = Option.bind (Next_chk it) (\<lambda>res. case res of Panic \<Rightarrow> Some Panic
     | Ret (it', r) \<Rightarrow> Option.bind (calls n it') (\<lambda>rest. case rest of Panic \<Rightarrow> Some Panic | Ret rs \<Rightarrow> Some (Ret (r # rs))))"

section \<open>The depth of the path and the checks\<close>

lemma path_ok_depth: "path_ok h fs \<Longrightarrow> fs \<noteq> [] \<Longrightarrow> h + length fs \<le> maxHeight"
proof (induction fs arbitrary: h)
  case (Cons f fs)
  show ?case
  proof (cases fs)
    case Nil
    then show ?thesis using Cons.prems(1) by (simp add: frame_ok_def)
  next
    case fs: (Cons g gs)
    have "Suc h + length fs \<le> maxHeight" using fs Cons.IH [of "Suc h"] Cons.prems(1) by simp
    then show ?thesis by simp
  qed
qed simp

lemma frame_next_in_range:
  assumes "frame_ok h f" and "f_present f \<noteq> 0"
  shows "in_bounds (f_next f) (n_kids (f_n f))"
proof -
  have "slots (f_present f) = TrailingZeros64 (f_present f) # tl (slots (f_present f))" using assms(2) TrailingZeros64_nonzero by simp
  then have "slots (f_present f) \<noteq> []" by (metis list.distinct(1))
  then have "0 < length (slots (f_present f))" by blast
  then have "0 < length (drop (f_next f) (n_kids (f_n f)))" using assms(1) unfolding frame_ok_def by metis
  then show ?thesis by (simp add: in_bounds_def)
qed

lemma chunk_words: "wf_node 0 c \<Longrightarrow> length (n_words c) = 4"
  unfolding wf_node.simps(1) by blast

lemma descend_never_panics:
  "path_ok h (f # fs) \<Longrightarrow> it_path it = f # fs \<Longrightarrow> f_present f \<noteq> 0 \<Longrightarrow>
   descend_chk (Suc h) it = Ret (descend (Suc h) it) \<and>
   (\<exists>c. it_chunk (descend (Suc h) it) = Some c \<and> length (n_words c) = 4)"
proof (induction h arbitrary: it f fs)
  case 0
  note ok = 0(1) [unfolded path_ok.simps, THEN conjunct1]
  have "in_bounds (f_next f) (n_kids (f_n f))" by (rule frame_next_in_range [OF ok 0(3)])
  moreover have w: "length (n_words (n_kids (f_n f) ! f_next f)) = 4"
    using frame_next(1) [OF ok 0(3) refl refl refl] by (rule chunk_words)
  moreover have "in_bounds 0 (n_words (n_kids (f_n f) ! f_next f))" unfolding in_bounds_def w by simp
  ultimately show ?case using 0(2) by (simp add: Let_def)
next
  case (Suc h)
  let ?c = "n_kids (f_n f) ! f_next f"
  let ?b = "f_base f OR push_bit (bspan (Suc h)) (word_of_nat (TrailingZeros64 (f_present f)))"
  let ?f = "f\<lparr>f_present := f_present f AND (f_present f - 1), f_next := f_next f + 1\<rparr>"
  let ?g = "\<lparr>f_n = ?c, f_next = 0, f_present = n_present ?c, f_base = ?b\<rparr>"
  let ?it = "it\<lparr>it_path := ?g # ?f # fs\<rparr>"
  have ok: "frame_ok (Suc h) f" "path_ok (Suc (Suc h)) fs" using Suc.prems(1) by simp_all
  note fn = frame_next [OF ok(1) Suc.prems(3) refl refl refl]
  have "frame_ok h ?g"
    using ok(1) fn(4) length_kids [OF fn(1)] kids_wf [OF fn(1)] by (simp add: frame_ok_def)
  then have p: "path_ok h (?g # ?f # fs)" using fn(2) ok(2) by simp
  have room: "length (?f # fs) < maxHeight" using path_ok_depth [OF Suc.prems(1)] by simp
  have "f_present ?g \<noteq> 0" using present_nonzero [OF fn(1)] by simp
  moreover have "it_path ?it = ?g # ?f # fs" by simp
  ultimately have "descend_chk (Suc h) ?it = Ret (descend (Suc h) ?it) \<and>
      (\<exists>c. it_chunk (descend (Suc h) ?it) = Some c \<and> length (n_words c) = 4)" using Suc.IH [OF p] by blast
  moreover have "descend_chk (Suc (Suc h)) it = descend_chk (Suc h) ?it" "descend (Suc (Suc h)) it = descend (Suc h) ?it"
    using Suc.prems(2) frame_next_in_range [OF ok(1) Suc.prems(3)] room by (simp_all add: Let_def del: descend_chk.simps(2) descend.simps(2) add: descend_chk.simps(2) [of "Suc h"] descend.simps(2) [of "Suc h"])
  ultimately show ?case by simp
qed

text \<open>What holds of an iterator between calls: the invariant, and a chunk of four words.\<close>

definition in_range :: "iterator \<Rightarrow> bool" where
  "in_range it \<longleftrightarrow> it_ok it \<and> (\<forall>c. it_chunk it = Some c \<longrightarrow> length (n_words c) = 4)"

lemma Next_chk_bits: "it_bits it \<noteq> 0 \<Longrightarrow> Next_chk it =
    Some (Ret (it\<lparr>it_bits := it_bits it AND (it_bits it - 1)\<rparr>,
          Some (it_base it OR word_of_nat (it_word it * 64 + TrailingZeros64 (it_bits it)))))"
  by (subst Next_chk.simps) simp

text \<open>
  The turns of the loop of Next get the iterator closer to its end: the words left in the chunk
  decrease, and a descent uses up a chunk.
\<close>

lemma Next_never_panics:
  assumes "in_range it"
  shows "\<exists>it' r. Next it = Some (it', r) \<and> Next_chk it = Some (Ret (it', r)) \<and> in_range it' \<and> (r = None \<longrightarrow> it_rest it' = [])"
  using assms
proof (induction it rule: wf_induct_rule [OF wf_measures, of "[\<lambda>it. length (path_rest 0 (it_path it)), \<lambda>it. 3 - it_word it]"])
  case (1 it)
  show ?case
  proof (cases "it_bits it = 0")
    case False
    then show ?thesis using "1.prems" by (auto simp: Next_bits Next_chk_bits in_range_def it_ok_def split: option.splits)
  next
    case bits: True
    show ?thesis
    proof (cases "it_chunk it")
      case None
      then show ?thesis using bits "1.prems" by (auto simp: Next.simps [of it] Next_chk.simps [of it] it_rest_def)
    next
      case (Some c)
      have ok: "it_word it < 4" "unat (it_base it) mod 2 ^ bspan 0 = 0" "path_ok 0 (it_path it)" "length (n_words c) = 4"
        using "1.prems" Some by (simp_all add: in_range_def it_ok_def)
      show ?thesis
      proof (cases "it_word it < 3")
        case w: True
        let ?it = "it\<lparr>it_word := it_word it + 1, it_bits := n_words c ! (it_word it + 1)\<rparr>"
        have "in_range ?it" using ok w Some by (simp add: in_range_def it_ok_def)
        moreover have "Next it = Next ?it" by (rule Next_word [OF bits Some w])
        moreover have "Next_chk it = Next_chk ?it" using bits Some w ok(4) by (subst Next_chk.simps) (simp add: in_bounds_def)
        ultimately show ?thesis using "1.IH" [of ?it] w by simp
      next
        case w: False
        obtain path g where bu: "back_up (it_path it) 1 = (path, g)" by fastforce
        have b: "path_rest 0 (it_path it) = path_rest (g - 1) path" "path_ok (g - 1) path" "0 < g"
            "case path of [] \<Rightarrow> True | f # _ \<Rightarrow> f_present f \<noteq> 0"
          using back_up_rest [OF ok(3), of path g] bu by simp_all
        show ?thesis
        proof (cases path)
          case Nil
          have "Next it = Some (it\<lparr>it_chunk := None, it_path := []\<rparr>, None)"
            "Next_chk it = Some (Ret (it\<lparr>it_chunk := None, it_path := []\<rparr>, None))"
            using bits Some w bu Nil by (simp_all add: Next.simps [of it] Next_chk.simps [of it])
          then show ?thesis using bits by (simp add: in_range_def it_ok_def it_rest_def)
        next
          case (Cons f fs)
          let ?it = "it\<lparr>it_chunk := None, it_path := path\<rparr>"
          obtain h where h: "g = Suc h" using b(3) by (cases g) auto
          have p: "path_ok h (f # fs)" "it_path ?it = f # fs" "f_present f \<noteq> 0" using b(2,4) Cons h by simp_all
          let ?d = "descend g ?it"
          have chk: "descend_chk g ?it = Ret ?d" using descend_never_panics [OF p] h by blast
          obtain c' where c': "it_chunk ?d = Some c'" "it_ok ?d" "it_rest ?d = path_rest h (f # fs)"
              "chunk_rest (unat (it_base ?d)) (n_words c') (it_word ?d) (it_bits ?d) \<noteq> []"
            using descend_rest [OF p] unfolding h by blast
          have "in_range ?d" using c'(2) descend_never_panics [OF p] h by (auto simp: in_range_def)
          moreover have "length (path_rest 0 (it_path ?d)) < length (path_rest 0 (it_path it))"
          proof -
            have "path_rest 0 (it_path it) = it_rest ?d" using b(1) c'(3) Cons h by simp
            also have "\<dots> = chunk_rest (unat (it_base ?d)) (n_words c') (it_word ?d) (it_bits ?d) @ path_rest 0 (it_path ?d)"
              by (simp only: it_rest_def c'(1) option.case)
            finally show ?thesis using c'(4) by simp
          qed
          moreover have "Next it = Next ?d" using bits Some w bu Cons by (subst Next.simps) simp
          moreover have "Next_chk it = Next_chk ?d" using bits Some w bu Cons chk by (subst Next_chk.simps) simp
          ultimately show ?thesis using "1.IH" [of ?d] by simp
        qed
      qed
    qed
  qed
qed

lemma Iterate_never_panics:
  assumes "bm_wf b"
  shows "Iterate_chk b = Ret (Iterate b) \<and> in_range (Iterate b)"
proof (cases b)
  case None
  then show ?thesis by (simp add: Iterate_chk_def Iterate_def no_iterator_def in_range_def it_ok_def)
next
  case (Some n)
  obtain h where h: "n_height n = h" "h \<le> maxHeight" "wf_node h n" using bm_SomeD assms Some by metis
  have ok: "it_ok (Iterate b)" using Iterate_rest [OF assms] by blast
  show ?thesis
  proof (cases h)
    case 0
    then have "length (n_words n) = 4" using h(3) chunk_words by simp
    then show ?thesis using ok Some h(1) 0 by (auto simp: Iterate_chk_def Iterate_def in_range_def in_bounds_def)
  next
    case (Suc g)
    let ?f = "\<lparr>f_n = n, f_next = 0, f_present = n_present n, f_base = 0\<rparr>"
    let ?it = "no_iterator\<lparr>it_path := [?f]\<rparr>"
    note wf = h(3) [unfolded Suc]
    have p: "path_ok g [?f]" using h(2) Suc length_kids [OF wf] kids_wf [OF wf] by (simp add: frame_ok_def)
    have f: "it_path ?it = [?f]" "f_present ?f \<noteq> 0" using present_nonzero [OF wf] by simp_all
    have "0 < maxHeight" by (simp add: maxHeight_def)
    then have "Iterate_chk b = descend_chk (Suc g) ?it" "Iterate b = descend (Suc g) ?it"
      using Some h(1) Suc by (simp_all add: Iterate_chk_def Iterate_def)
    then show ?thesis using descend_never_panics [OF p f] ok by (auto simp: in_range_def)
  qed
qed

lemma calls_rest:
  "in_range it \<Longrightarrow> \<exists>rs. calls n it = Some (Ret rs) \<and>
     map (map_option unat) rs = map Some (take n (it_rest it)) @ replicate (n - length (it_rest it)) None"
proof (induction n arbitrary: it)
  case (Suc n)
  obtain it' r where n: "Next it = Some (it', r)" "Next_chk it = Some (Ret (it', r))" "in_range it'" "r = None \<longrightarrow> it_rest it' = []"
    using Next_never_panics [OF Suc.prems] by blast
  obtain rs where rs: "calls n it' = Some (Ret rs)"
      "map (map_option unat) rs = map Some (take n (it_rest it')) @ replicate (n - length (it_rest it')) None"
    using Suc.IH [OF n(3)] by blast
  have ok: "it_ok it" using Suc.prems by (simp add: in_range_def)
  have "calls (Suc n) it = Some (Ret (r # rs))" using n(2) rs(1) by simp
  moreover have "map (map_option unat) (r # rs) = map Some (take (Suc n) (it_rest it)) @ replicate (Suc n - length (it_rest it)) None"
  proof (cases "it_rest it")
    case Nil
    then have "r = None" using Next_correct [OF ok] n(1) by simp
    then show ?thesis using rs(2) n(4) Nil by simp
  next
    case (Cons x xs)
    then have "\<exists>i. r = Some i \<and> unat i = x" "it_rest it' = xs" using Next_correct [OF ok] n(1) by auto
    then show ?thesis using rs(2) Cons by auto
  qed
  ultimately show ?case by blast
qed simp

text \<open>
  C32: the iterator never indexes out of bounds. On every well-formed bitmap, whose height is at most
  maxHeight, the maxHeight frames of the path are enough, no index into them, into the children
  of a node or into the words of a chunk is out of range, and every call of Next returns: the
  results of \<open>n\<close> calls are the first \<open>n\<close> ids in ascending order, and no id from the end on.
\<close>
theorem iterator_in_bounds:
  assumes "bm_wf b"
  shows "\<exists>it rs. Iterate_chk b = Ret it \<and> calls n it = Some (Ret rs) \<and>
    map (map_option unat) rs = map Some (take n (sorted_list_of_set (bm_set b))) @ replicate (n - card (bm_set b)) None"
proof -
  have "it_rest (Iterate b) = sorted_list_of_set (bm_set b)" using Iterate_rest [OF assms] by blast
  then show ?thesis using Iterate_never_panics [OF assms] calls_rest [of "Iterate b" n] by auto
qed

lemma iterator_in_bounds_witness:
  "\<exists>it rs. Iterate_chk (fst (Set_id (fst (Set_id None 70000)) 3)) = Ret it \<and> calls 4 it = Some (Ret rs) \<and>
    map (map_option unat) rs = [Some 3, Some 70000, None, None]"
proof -
  let ?b = "fst (Set_id (fst (Set_id None 70000)) 3)"
  have b: "bm_wf ?b" "bm_set ?b = {3, 70000}" by simp_all
  have c: "card (bm_set ?b) = 2" "take 4 (sorted_list_of_set (bm_set ?b)) = [3, 70000]" unfolding b(2) by simp_all
  have "replicate (4 - 2) None = [None, None :: nat option]" by (simp add: numeral_eq_Suc)
  then show ?thesis using iterator_in_bounds [OF b(1), of 4] unfolding c by simp
qed

end
