(* ===== verification/Memory.thy ===== *)
theory Memory
  imports Prelude
begin

text \<open>
  Memory for the persistent structures: nodes shared between versions, each with the epoch of
  the Writer that created it. A Writer mutates in place the nodes of its own epoch and copies
  every other node first; what a write may change and what others are sure to keep is the
  predicate \<open>changed\<close>. The nodes of a structure extend the record \<open>owned_node\<close>.
\<close>

section \<open>Nodes and addresses\<close>

type_synonym addr = nat

record owned_node =
  n_epoch :: uint64

type_synonym 'n nodes = "addr \<Rightarrow> 'n option"

text \<open>The memory: its nodes, the next free address, and the global epoch counter.\<close>

record 'n heap =
  h_nodes :: "'n nodes"
  h_next :: addr
  h_epochs :: uint64

definition node_at :: "'n heap \<Rightarrow> addr \<Rightarrow> 'n" where
  "node_at H x = the (h_nodes H x)"

definition alloc :: "'n \<Rightarrow> 'n heap \<Rightarrow> addr \<times> 'n heap" where
  "alloc nd H = (h_next H, H\<lparr>h_nodes := (h_nodes H)(h_next H \<mapsto> nd), h_next := h_next H + 1\<rparr>)"

definition store :: "addr \<Rightarrow> 'n \<Rightarrow> 'n heap \<Rightarrow> 'n heap" where
  "store x nd H = H\<lparr>h_nodes := (h_nodes H)(x \<mapsto> nd)\<rparr>"

definition empty_heap :: "'n heap" where
  "empty_heap = \<lparr>h_nodes = Map.empty, h_next = 0, h_epochs = 0\<rparr>"

text \<open>A Writer is its epoch, 0 when it has none.\<close>

definition begin_epoch :: "uint64 \<Rightarrow> 'n heap \<Rightarrow> uint64 \<times> 'n heap" where
  "begin_epoch w H = (if w = 0 then (h_epochs H + 1, H\<lparr>h_epochs := h_epochs H + 1\<rparr>) else (w, H))"

lemma begin_epoch_nonzero [simp]: "e \<noteq> 0 \<Longrightarrow> begin_epoch e H = (e, H)"
  by (simp add: begin_epoch_def)

lemma begin_epoch_fresh: "h_epochs H + 1 \<noteq> 0 \<Longrightarrow>
    begin_epoch 0 H = begin_epoch (h_epochs H + 1) (H\<lparr>h_epochs := h_epochs H + 1\<rparr>)"
  by (simp add: begin_epoch_def)

definition tidy :: "'n heap \<Rightarrow> bool" where
  "tidy H \<longleftrightarrow> dom (h_nodes H) \<subseteq> {..<h_next H}"

lemma tidy_alloc: "tidy H \<Longrightarrow> h_nodes H (h_next H) = None"
  by (auto simp: tidy_def)

lemma tidy_store: "tidy H \<Longrightarrow> x < h_next H \<Longrightarrow> tidy (store x nd H)"
  by (auto simp: tidy_def store_def)

lemma tidy_node: "tidy H \<Longrightarrow> h_nodes H x = Some nd \<Longrightarrow> x < h_next H"
  by (auto simp: tidy_def)

section \<open>Ownership\<close>

text \<open>The nodes of \<open>S\<close> that the writer of epoch \<open>e\<close> owns.\<close>

definition owned :: "uint64 \<Rightarrow> ('a owned_node_scheme) nodes \<Rightarrow> addr set \<Rightarrow> addr set" where
  "owned e N S = {x \<in> S. \<exists>nd. N x = Some nd \<and> n_epoch nd = e}"

lemma owned_cong: "(\<And>x. x \<in> S \<Longrightarrow> N' x = N x) \<Longrightarrow> owned e N' S = owned e N S"
  by (auto simp: owned_def)

text \<open>A write by the epoch \<open>e\<close> that starts from the nodes \<open>S\<close> and shows the nodes \<open>S'\<close>.\<close>

definition changed :: "uint64 \<Rightarrow> ('a owned_node_scheme) heap \<Rightarrow> addr set \<Rightarrow> ('a owned_node_scheme) heap \<Rightarrow> addr set \<Rightarrow> bool" where
  "changed e H S H' S' \<longleftrightarrow> tidy H' \<and> h_next H \<le> h_next H' \<and> h_epochs H' = h_epochs H \<and>
     (\<forall>x<h_next H. x \<notin> owned e (h_nodes H) S \<longrightarrow> h_nodes H' x = h_nodes H x) \<and>
     (\<forall>x nd. h_nodes H' x = Some nd \<longrightarrow> n_epoch nd = e \<or> h_nodes H x = Some nd) \<and>
     (\<forall>x\<in>S'. x \<in> S \<or> h_next H \<le> x)"

lemma changedD:
  assumes "changed e H S H' S'"
  shows "tidy H'" "h_next H \<le> h_next H'" "h_epochs H' = h_epochs H"
    "x < h_next H \<Longrightarrow> x \<notin> owned e (h_nodes H) S \<Longrightarrow> h_nodes H' x = h_nodes H x"
    "h_nodes H' x = Some nd \<Longrightarrow> n_epoch nd = e \<or> h_nodes H x = Some nd"
    "x \<in> S' \<Longrightarrow> x \<in> S \<or> h_next H \<le> x"
  using assms unfolding changed_def by blast+

lemma changed_refl: "tidy H \<Longrightarrow> changed e H S H S"
  by (simp add: changed_def)

lemma changed_trans:
  assumes a: "changed e H S H1 S1" and b: "changed e H1 S1 H2 S2"
  shows "changed e H S H2 S2"
  unfolding changed_def
proof (intro conjI allI impI ballI)
  note A = changedD [OF a] and B = changedD [OF b]
  show "tidy H2" by (rule B(1))
  show "h_next H \<le> h_next H2" using A(2) B(2) by simp
  show "h_epochs H2 = h_epochs H" using A(3) B(3) by simp
  show "h_nodes H2 x = h_nodes H x" if x: "x < h_next H" "x \<notin> owned e (h_nodes H) S" for x
  proof -
    have e: "h_nodes H1 x = h_nodes H x" by (rule A(4) [OF x])
    then have "x \<notin> owned e (h_nodes H1) S1" using A(6) [of x] x by (auto simp: owned_def)
    then show ?thesis using B(4) [of x] A(2) x(1) e by simp
  qed
  show "n_epoch nd = e \<or> h_nodes H x = Some nd" if "h_nodes H2 x = Some nd" for x nd
    using B(5) [OF that] A(5) by blast
  show "x \<in> S \<or> h_next H \<le> x" if "x \<in> S2" for x
    using B(6) [OF that] A(6) [of x] A(2) by auto
qed

text \<open>What the writer owns of the result it owned before, or it is new.\<close>

lemma changed_owned:
  assumes "changed e H S H' S'" and "x \<in> owned e (h_nodes H') S'"
  shows "x \<in> owned e (h_nodes H) S \<or> h_next H \<le> x"
proof (rule ccontr)
  assume a: "\<not> ?thesis"
  then have "h_nodes H' x = h_nodes H x" using changedD(4) [OF assms(1), of x] by simp
  then show False using changedD(6) [OF assms(1), of x] assms(2) a by (auto simp: owned_def)
qed

text \<open>A write that goes on to put one node, its own or a new one.\<close>

lemma put_changed:
  assumes ch: "changed e H S H1 S1" and sub: "S \<subseteq> T" and other: "\<And>z. z \<noteq> y \<Longrightarrow> h_nodes H2 z = h_nodes H1 z"
    and y: "h_nodes H2 y = Some m" "n_epoch m = e" and own: "y \<in> owned e (h_nodes H) T \<or> h_next H \<le> y"
    and t: "tidy H2" "h_next H1 \<le> h_next H2" "h_epochs H2 = h_epochs H1" and S2: "S2 \<subseteq> insert y (T \<union> S1)"
  shows "changed e H T H2 S2"
  unfolding changed_def
proof (intro conjI allI impI ballI)
  note D = changedD [OF ch]
  show "tidy H2" by (rule t(1))
  show "h_next H \<le> h_next H2" using D(2) t(2) by simp
  show "h_epochs H2 = h_epochs H" using D(3) t(3) by simp
  show "h_nodes H2 x = h_nodes H x" if "x < h_next H" "x \<notin> owned e (h_nodes H) T" for x
  proof -
    have "x \<noteq> y" using that own by auto
    moreover have "x \<notin> owned e (h_nodes H) S" using that(2) sub by (auto simp: owned_def)
    ultimately show ?thesis using D(4) [OF that(1)] other by simp
  qed
  show "n_epoch nd = e \<or> h_nodes H x = Some nd" if "h_nodes H2 x = Some nd" for x nd
    using D(5) [of x nd] other [of x] y that by (cases "x = y") auto
  show "x \<in> T \<or> h_next H \<le> x" if "x \<in> S2" for x
    using S2 that own D(6) [of x] sub by (auto simp: owned_def)
qed

lemma changed_more: "changed e H S H' S' \<Longrightarrow> S \<subseteq> T \<Longrightarrow> T' \<subseteq> S' \<Longrightarrow> changed e H T H' T'"
  unfolding changed_def owned_def by blast

lemma changed_add: "changed e H S H' S' \<Longrightarrow> changed e H (S \<union> T) H' (S' \<union> T)"
  unfolding changed_def owned_def by blast

end
