(* ===== verification/BitmapHeap.thy ===== *)
theory BitmapHeap
  imports BitmapSpec Memory
begin

text \<open>
  The bitmaps of \<^verbatim>\<open>internal/bitmap/bitmap.go\<close> as the source has them: nodes in memory, shared
  between sets, and a Writer that mutates in place the nodes of its own epoch and copies every
  other node first. The operations refine those on values of the theory Bitmap, and no write
  reaches a node that another set shows, unless that set is the one being written.
\<close>

section \<open>Nodes in memory\<close>

record bhnode = owned_node +
  bh_count :: uint32
  bh_height :: nat
  bh_words :: "uint64 list"
  bh_present :: uint64
  bh_kids :: "addr list"

text \<open>A Bitmap is the address of its root; None is the empty set.\<close>

type_synonym hbitmap = "addr option"

section \<open>Reading\<close>

primrec hb_has_node :: "nat \<Rightarrow> addr \<Rightarrow> uint32 \<Rightarrow> bhnode heap \<Rightarrow> bool" where
  "hb_has_node 0 x i H = (bh_words (node_at H x) ! word_of_id i AND slot_bit (bit_of_id i) \<noteq> 0)"
| "hb_has_node (Suc h) x i H =
    (let nd = node_at H x; s = slot_of h i
     in if bh_present nd AND slot_bit s = 0 then False
        else hb_has_node h (bh_kids nd ! OnesCount64 (bh_present nd AND below s)) i H)"

definition HB_Has :: "hbitmap \<Rightarrow> uint32 \<Rightarrow> bhnode heap \<Rightarrow> bool" where
  "HB_Has b i H = (case b of None \<Rightarrow> False
     | Some x \<Rightarrow> if beyond (bh_height (node_at H x)) i then False else hb_has_node (bh_height (node_at H x)) x i H)"

section \<open>Writing\<close>

text \<open>The node itself if the writer owns it, or a copy; room for more children does not matter here.\<close>

definition hb_own :: "addr \<Rightarrow> uint64 \<Rightarrow> bhnode heap \<Rightarrow> addr \<times> uint64 \<times> bhnode heap" where
  "hb_own x w H = (case begin_epoch w H of (e, H1) \<Rightarrow>
     (let nd = node_at H1 x in
      if n_epoch nd = e then (x, e, H1)
      else (case alloc \<lparr>n_epoch = e, bh_count = bh_count nd, bh_height = bh_height nd, bh_words = bh_words nd,
                        bh_present = bh_present nd, bh_kids = bh_kids nd\<rparr> H1 of (y, H2) \<Rightarrow> (y, e, H2))))"

primrec hb_branch :: "nat \<Rightarrow> uint32 \<Rightarrow> uint64 \<Rightarrow> bhnode heap \<Rightarrow> addr \<times> bhnode heap" where
  "hb_branch 0 i w H = alloc \<lparr>n_epoch = w, bh_count = 1, bh_height = 0,
     bh_words = zero_words[word_of_id i := slot_bit (bit_of_id i)], bh_present = 0, bh_kids = []\<rparr> H"
| "hb_branch (Suc h) i w H = (case hb_branch h i w H of (k, H1) \<Rightarrow>
     alloc \<lparr>n_epoch = w, bh_count = 1, bh_height = Suc h, bh_words = zero_words,
       bh_present = slot_bit (slot_of h i), bh_kids = [k]\<rparr> H1)"

primrec hb_set :: "nat \<Rightarrow> addr \<Rightarrow> uint32 \<Rightarrow> uint64 \<Rightarrow> bhnode heap \<Rightarrow> addr \<times> bool \<times> uint64 \<times> bhnode heap" where
  "hb_set 0 x i w H =
    (let nd = node_at H x; k = word_of_id i; b = slot_bit (bit_of_id i)
     in if bh_words nd ! k AND b \<noteq> 0 then (x, False, w, H)
        else (case hb_own x w H of (y, w1, H1) \<Rightarrow>
          let nd = node_at H1 y
          in (y, True, w1, store y (nd\<lparr>bh_words := (bh_words nd)[k := bh_words nd ! k OR b], bh_count := bh_count nd + 1\<rparr>) H1)))"
| "hb_set (Suc h) x i w H =
    (let nd = node_at H x; s = slot_of h i; idx = OnesCount64 (bh_present nd AND below s)
     in if bh_present nd AND slot_bit s = 0
        then (case hb_own x w H of (y, w1, H1) \<Rightarrow> (case hb_branch h i w1 H1 of (k, H2) \<Rightarrow>
          let nd = node_at H2 y
          in (y, True, w1, store y (nd\<lparr>bh_kids := take idx (bh_kids nd) @ k # drop idx (bh_kids nd),
                bh_present := bh_present nd OR slot_bit s, bh_count := bh_count nd + 1\<rparr>) H2)))
        else (case hb_set h (bh_kids nd ! idx) i w H of (c, added, w1, H1) \<Rightarrow>
          if \<not> added then (x, False, w1, H1)
          else (case hb_own x w1 H1 of (y, w2, H2) \<Rightarrow>
            let nd = node_at H2 y
            in (y, True, w2, store y (nd\<lparr>bh_kids := (bh_kids nd)[idx := c], bh_count := bh_count nd + 1\<rparr>) H2))))"

text \<open>The loop that puts new roots on top; \<open>h\<close> is the height of the root it has reached.\<close>

function hb_grow :: "nat \<Rightarrow> addr \<Rightarrow> uint32 \<Rightarrow> uint64 \<Rightarrow> bhnode heap \<Rightarrow> nat \<times> addr \<times> uint64 \<times> bhnode heap" where
  "hb_grow h x i w H = (if beyond h i
     then (case begin_epoch w H of (e, H1) \<Rightarrow>
       (case alloc \<lparr>n_epoch = e, bh_count = bh_count (node_at H1 x), bh_height = h + 1, bh_words = zero_words,
                    bh_present = 1, bh_kids = [x]\<rparr> H1 of (y, H2) \<Rightarrow> hb_grow (h + 1) y i e H2))
     else (h, x, w, H))"
  by pat_completeness auto
termination
  by (relation "measure (\<lambda>(h, x, i, w, H). 32 - bspan h)") (auto simp: beyond_def bspan_def)

declare hb_grow.simps [simp del]

definition HB_Set :: "hbitmap \<Rightarrow> uint32 \<Rightarrow> uint64 \<Rightarrow> bhnode heap \<Rightarrow> hbitmap \<times> bool \<times> uint64 \<times> bhnode heap" where
  "HB_Set b i w H = (case b of
     None \<Rightarrow> (case begin_epoch w H of (e, H1) \<Rightarrow>
       (case hb_branch (first_height 0 i) i e H1 of (x, H2) \<Rightarrow> (Some x, True, e, H2)))
   | Some x \<Rightarrow> (case hb_grow (bh_height (node_at H x)) x i w H of (h, y, w1, H1) \<Rightarrow>
       (case hb_set h y i w1 H1 of (z, added, w2, H2) \<Rightarrow> (Some z, added, w2, H2))))"

primrec hb_clear :: "nat \<Rightarrow> addr \<Rightarrow> uint32 \<Rightarrow> uint64 \<Rightarrow> bhnode heap \<Rightarrow> addr option \<times> uint64 \<times> bhnode heap" where
  "hb_clear 0 x i w H =
    (if bh_count (node_at H x) = 1 then (None, w, H)
     else (case hb_own x w H of (y, w1, H1) \<Rightarrow>
       let nd = node_at H1 y; k = word_of_id i
       in (Some y, w1, store y (nd\<lparr>bh_count := bh_count nd - 1,
             bh_words := (bh_words nd)[k := bh_words nd ! k AND NOT (slot_bit (bit_of_id i))]\<rparr>) H1)))"
| "hb_clear (Suc h) x i w H =
    (if bh_count (node_at H x) = 1 then (None, w, H)
     else (case hb_own x w H of (y, w1, H1) \<Rightarrow>
       let nd = (node_at H1 y)\<lparr>bh_count := bh_count (node_at H1 y) - 1\<rparr>;
           s = slot_of h i; idx = OnesCount64 (bh_present nd AND below s)
       in (case hb_clear h (bh_kids nd ! idx) i w1 (store y nd H1) of
             (Some c, w2, H2) \<Rightarrow> (Some y, w2, store y ((node_at H2 y)\<lparr>bh_kids := (bh_kids (node_at H2 y))[idx := c]\<rparr>) H2)
           | (None, w2, H2) \<Rightarrow> let nd = node_at H2 y
               in (Some y, w2, store y (nd\<lparr>bh_kids := take idx (bh_kids nd) @ drop (Suc idx) (bh_kids nd),
                     bh_present := bh_present nd AND NOT (slot_bit s)\<rparr>) H2))))"

text \<open>The loop that drops directory levels; the heights it meets go down from that of the root.\<close>

primrec hb_strip :: "nat \<Rightarrow> addr \<Rightarrow> bhnode heap \<Rightarrow> addr" where
  "hb_strip 0 x H = x"
| "hb_strip (Suc n) x H = (let nd = node_at H x in
     if bh_height nd > 0 \<and> bh_present nd = 1 then hb_strip n (bh_kids nd ! 0) H else x)"

definition HB_Clear :: "hbitmap \<Rightarrow> uint32 \<Rightarrow> uint64 \<Rightarrow> bhnode heap \<Rightarrow> hbitmap \<times> bool \<times> uint64 \<times> bhnode heap" where
  "HB_Clear b i w H = (case b of
     None \<Rightarrow> (None, False, w, H)
   | Some x \<Rightarrow> if \<not> HB_Has b i H then (b, False, w, H)
       else (case hb_clear (bh_height (node_at H x)) x i w H of
           (None, w1, H1) \<Rightarrow> (None, True, w1, H1)
         | (Some y, w1, H1) \<Rightarrow> (Some (hb_strip (bh_height (node_at H1 y)) y H1), True, w1, H1)))"

section \<open>The tree a set shows\<close>

primrec btree :: "nat \<Rightarrow> bhnode nodes \<Rightarrow> addr \<Rightarrow> bnode" where
  "btree 0 N x = (case N x of None \<Rightarrow> BNode 0 0 [] 0 [] | Some nd \<Rightarrow>
     BNode (bh_count nd) (bh_height nd) (bh_words nd) (bh_present nd) [])"
| "btree (Suc h) N x = (case N x of None \<Rightarrow> BNode 0 0 [] 0 [] | Some nd \<Rightarrow>
     BNode (bh_count nd) (bh_height nd) (bh_words nd) (bh_present nd) (map (btree h N) (bh_kids nd)))"

primrec breach :: "nat \<Rightarrow> bhnode nodes \<Rightarrow> addr \<Rightarrow> addr set" where
  "breach 0 N x = {x}"
| "breach (Suc h) N x = insert x (case N x of None \<Rightarrow> {} | Some nd \<Rightarrow> \<Union> (breach h N ` set (bh_kids nd)))"

text \<open>
  A tree that a writer of epoch \<open>e\<close> may write: its nodes are there, and what the writer owns
  below one child is not reached through another.
\<close>

definition bsep :: "nat \<Rightarrow> bhnode nodes \<Rightarrow> uint64 \<Rightarrow> addr \<Rightarrow> addr \<Rightarrow> bool" where
  "bsep h N e a b \<longleftrightarrow> owned e N (breach h N a \<inter> breach h N b) = {}"

primrec bgood :: "nat \<Rightarrow> bhnode nodes \<Rightarrow> uint64 \<Rightarrow> addr \<Rightarrow> bool" where
  "bgood 0 N e x \<longleftrightarrow> (\<exists>nd. N x = Some nd \<and> bh_kids nd = [])"
| "bgood (Suc h) N e x \<longleftrightarrow> (\<exists>nd. N x = Some nd \<and> (\<forall>k\<in>set (bh_kids nd). bgood h N e k \<and> x \<notin> breach h N k) \<and>
     sorted_wrt (bsep h N e) (bh_kids nd))"

lemma bgood_root: "bgood h N e x \<Longrightarrow> \<exists>nd. N x = Some nd"
  by (cases h) auto

lemma breach_self [simp]: "x \<in> breach h N x"
  by (cases h) simp_all

lemma bgood_reach: "bgood h N e x \<Longrightarrow> breach h N x \<subseteq> dom N"
proof (induction h arbitrary: x)
  case (Suc h)
  then obtain nd where "N x = Some nd" "\<forall>k\<in>set (bh_kids nd). bgood h N e k" by auto
  then show ?case using Suc.IH by fastforce
qed auto

lemma btidy_less: "tidy H \<Longrightarrow> bgood h (h_nodes H) e x \<Longrightarrow> y \<in> breach h (h_nodes H) x \<Longrightarrow> y < h_next H"
  using bgood_reach unfolding tidy_def by blast

text \<open>What a set shows depends on the nodes it reaches only.\<close>

lemma bsame_nodes:
  assumes "\<And>y. y \<in> breach h N x \<Longrightarrow> N' y = N y"
  shows "btree h N' x = btree h N x" "breach h N' x = breach h N x" "bgood h N' e x = bgood h N e x"
proof -
  have "btree h N' x = btree h N x \<and> breach h N' x = breach h N x \<and> bgood h N' e x = bgood h N e x"
    using assms
  proof (induction h arbitrary: x)
    case 0
    then show ?case by simp
  next
    case (Suc h)
    have x: "N' x = N x" using Suc.prems by simp
    show ?case
    proof (cases "N x")
      case None
      then show ?thesis using x by simp
    next
      case nd: (Some nd)
      have k: "btree h N' k = btree h N k \<and> breach h N' k = breach h N k \<and> bgood h N' e k = bgood h N e k" if "k \<in> set (bh_kids nd)" for k
        by (rule Suc.IH) (use Suc.prems nd that in auto)
      have s: "bsep h N' e a b = bsep h N e a b" if "a \<in> set (bh_kids nd)" "b \<in> set (bh_kids nd)" for a b
      proof -
        have "N' y = N y" if "y \<in> breach h N a" for y using Suc.prems nd that \<open>a \<in> set (bh_kids nd)\<close> by auto
        then have "owned e N' (breach h N a \<inter> breach h N b) = owned e N (breach h N a \<inter> breach h N b)" by (intro owned_cong) blast
        then show ?thesis using k that by (simp add: bsep_def)
      qed
      have "sorted_wrt (bsep h N' e) (bh_kids nd) = sorted_wrt (bsep h N e) (bh_kids nd)"
        using s by (auto simp: sorted_wrt_iff_nth_less)
      then show ?thesis using k nd x by (simp cong: map_cong)
    qed
  qed
  then show "btree h N' x = btree h N x" "breach h N' x = breach h N x" "bgood h N' e x = bgood h N e x" by blast+
qed

section \<open>The step of one node\<close>

text \<open>The node \<open>hb_own\<close> hands out: the old one or a new one, with the old contents.\<close>

lemma hb_own_spec:
  assumes e: "e \<noteq> 0" and t: "tidy H" and x: "h_nodes H x = Some nd"
  shows "\<exists>y H1. hb_own x e H = (y, e, H1) \<and> h_nodes H1 y = Some (nd\<lparr>n_epoch := e\<rparr>) \<and> tidy H1 \<and> h_epochs H1 = h_epochs H \<and> h_next H \<le> h_next H1 \<and> (\<forall>z. z \<noteq> y \<longrightarrow> h_nodes H1 z = h_nodes H z) \<and>
    (y = x \<and> n_epoch nd = e \<and> H1 = H \<or> y = h_next H)"
proof -
  have at: "node_at H x = nd" using x by (simp add: node_at_def)
  show ?thesis
  proof (cases "n_epoch nd = e")
    case True
    then show ?thesis using e t x at by (auto simp: hb_own_def)
  next
    case False
    then show ?thesis using e t at by (auto simp: hb_own_def alloc_def tidy_def Let_def)
  qed
qed

text \<open>Children whose nodes are all as before.\<close>

lemma kids_same:
  assumes "\<forall>k\<in>set ks. \<forall>z\<in>breach h N k. N' z = N z"
  shows "map (btree h N') ks = map (btree h N) ks" "\<And>k. k \<in> set ks \<Longrightarrow> breach h N' k = breach h N k"
    "\<And>k. k \<in> set ks \<Longrightarrow> bgood h N' e k = bgood h N e k" "sorted_wrt (bsep h N' e) ks = sorted_wrt (bsep h N e) ks"
proof -
  have r: "btree h N' k = btree h N k" "breach h N' k = breach h N k" "bgood h N' e k = bgood h N e k" if "k \<in> set ks" for k
    using bsame_nodes [of h N k N'] assms that by auto
  have s: "bsep h N' e a b = bsep h N e a b" if "a \<in> set ks" "b \<in> set ks" for a b
  proof -
    have "owned e N' (breach h N a \<inter> breach h N b) = owned e N (breach h N a \<inter> breach h N b)"
      using assms that(1) by (intro owned_cong) blast
    then show ?thesis using r(2) that by (simp add: bsep_def)
  qed
  show "map (btree h N') ks = map (btree h N) ks" using r(1) by simp
  show "breach h N' k = breach h N k" "bgood h N' e k = bgood h N e k" if "k \<in> set ks" for k using r that by blast+
  show "sorted_wrt (bsep h N' e) ks = sorted_wrt (bsep h N e) ks" using s by (auto simp: sorted_wrt_iff_nth_less)
qed

text \<open>A directory node over children that are in order.\<close>

lemma node_over:
  assumes y: "N y = Some nd" and k: "\<And>k. k \<in> set (bh_kids nd) \<Longrightarrow> bgood h N0 e k \<and> y \<notin> breach h N0 k"
    and s: "sorted_wrt (bsep h N0 e) (bh_kids nd)" and same: "\<And>z. z \<noteq> y \<Longrightarrow> N z = N0 z"
  shows "bgood (Suc h) N e y" "breach (Suc h) N y = insert y (\<Union> (breach h N0 ` set (bh_kids nd)))"
    "btree (Suc h) N y = BNode (bh_count nd) (bh_height nd) (bh_words nd) (bh_present nd) (map (btree h N0) (bh_kids nd))"
proof -
  have n: "\<forall>k\<in>set (bh_kids nd). \<forall>z\<in>breach h N0 k. N z = N0 z" using same k by metis
  note r = kids_same [of "bh_kids nd" h N0 N, OF n]
  show "bgood (Suc h) N e y" using y k s r(2) r(3,4) [where e = e] by simp
  show "breach (Suc h) N y = insert y (\<Union> (breach h N0 ` set (bh_kids nd)))" using y r(2) by simp
  show "btree (Suc h) N y = BNode (bh_count nd) (bh_height nd) (bh_words nd) (bh_present nd) (map (btree h N0) (bh_kids nd))"
    using y r(1) by (simp cong: map_cong)
qed

text \<open>The children of a node \<open>x\<close> after a write of one of them.\<close>

lemma kids_changed:
  assumes t: "tidy H" and x: "x < h_next H"
    and k: "\<And>k. k \<in> set ks \<Longrightarrow> bgood h (h_nodes H) e k \<and> x \<notin> breach h (h_nodes H) k" and sep: "sorted_wrt (bsep h (h_nodes H) e) ks"
    and s: "s < length ks" and ch: "changed e H (breach h (h_nodes H) (ks ! s)) H1 (breach h (h_nodes H1) c)" and c: "bgood h (h_nodes H1) e c"
  shows "h_nodes H1 x = h_nodes H x" "\<And>k. k \<in> set (ks[s := c]) \<Longrightarrow> bgood h (h_nodes H1) e k \<and> x \<notin> breach h (h_nodes H1) k"
    "sorted_wrt (bsep h (h_nodes H1) e) (ks[s := c])" "map (btree h (h_nodes H1)) (ks[s := c]) = (map (btree h (h_nodes H)) ks)[s := btree h (h_nodes H1) c]"
    "\<Union> (breach h (h_nodes H1) ` set (ks[s := c])) \<subseteq> \<Union> (breach h (h_nodes H) ` set ks) \<union> breach h (h_nodes H1) c"
proof -
  let ?N = "h_nodes H" and ?N1 = "h_nodes H1"
  note D = changedD [OF ch]
  have kj: "ks ! j \<in> set ks" if "j < length ks" for j using that by simp
  have sym: "bsep h M e a b = bsep h M e b a" for M a b by (simp add: bsep_def Int_commute)
  have sepj: "owned e ?N (breach h ?N (ks ! i) \<inter> breach h ?N (ks ! j)) = {}" if "i < length ks" "j < length ks" "i \<noteq> j" for i j
    using sep that sym [of ?N "ks ! i" "ks ! j"] by (cases "i < j") (auto simp: sorted_wrt_iff_nth_less bsep_def)
  show x1: "?N1 x = ?N x" using D(4) [OF x] k [OF kj [OF s]] by (auto simp: owned_def)
  have rest: "?N1 z = ?N z" if "j < length ks" "j \<noteq> s" "z \<in> breach h ?N (ks ! j)" for j z
  proof -
    have "z < h_next H" using btidy_less [OF t] k [OF kj [OF that(1)]] that(3) by blast
    moreover have "z \<notin> owned e ?N (breach h ?N (ks ! s))" using sepj [OF that(1) s that(2)] that(3) by (auto simp: owned_def)
    ultimately show ?thesis by (rule D(4))
  qed
  have R: "btree h ?N1 (ks ! j) = btree h ?N (ks ! j)" "breach h ?N1 (ks ! j) = breach h ?N (ks ! j)" "bgood h ?N1 e (ks ! j)"
      if "j < length ks" "j \<noteq> s" for j
    using bsame_nodes [of h ?N "ks ! j" ?N1, OF rest [OF that]] k [OF kj [OF that(1)]] by auto
  have low: "z < h_next H" if "j < length ks" "z \<in> breach h ?N (ks ! j)" for j z
    using btidy_less [OF t] k [OF kj [OF that(1)]] that(2) by blast
  have xc: "x \<notin> breach h ?N1 c" using D(6) [of x] x k [OF kj [OF s]] by auto
  have nk: "ks[s := c] ! j = (if j = s then c else ks ! j)" if "j < length ks" for j using that by (simp add: nth_list_update)
  show "bgood h ?N1 e q \<and> x \<notin> breach h ?N1 q" if q: "q \<in> set (ks[s := c])" for q
  proof -
    obtain j where j: "j < length ks" "q = ks[s := c] ! j" using q by (metis in_set_conv_nth length_list_update)
    show ?thesis using c xc R(2,3) [OF j(1)] k [OF kj [OF j(1)]] j nk [OF j(1)] by (cases "j = s") auto
  qed
  have cross: "owned e ?N1 (breach h ?N1 c \<inter> breach h ?N1 (ks ! j)) = {}" if j: "j < length ks" "j \<noteq> s" for j
  proof -
    have False if z: "z \<in> breach h ?N1 c" "z \<in> breach h ?N (ks ! j)" "?N1 z = Some m" "n_epoch m = e" for z m
    proof -
      have "z \<in> breach h ?N (ks ! s)" using D(6) [OF z(1)] low [OF j(1) z(2)] by auto
      moreover have "?N z = Some m" using rest [OF j z(2)] z(3) by simp
      ultimately show False using sepj [OF s j(1)] j(2) z(2,4) by (auto simp: owned_def)
    qed
    then show ?thesis using R(2) [OF j] by (auto simp: owned_def)
  qed
  show "sorted_wrt (bsep h ?N1 e) (ks[s := c])"
    unfolding sorted_wrt_iff_nth_less
  proof (intro allI impI)
    fix i j assume ij: "i < j" "j < length (ks[s := c])"
    then have l: "i < length ks" "j < length ks" "i \<noteq> j" by simp_all
    consider "i = s" | "j = s" | "i \<noteq> s" "j \<noteq> s" by blast
    then show "bsep h ?N1 e (ks[s := c] ! i) (ks[s := c] ! j)"
    proof cases
      case 1
      then show ?thesis using cross [OF l(2)] l by (simp add: bsep_def nk [OF l(2)])
    next
      case 2
      then show ?thesis using cross [OF l(1)] l by (simp add: bsep_def nk [OF l(1)] Int_commute)
    next
      case 3
      have "owned e ?N1 (breach h ?N (ks ! i) \<inter> breach h ?N (ks ! j)) = owned e ?N (breach h ?N (ks ! i) \<inter> breach h ?N (ks ! j))"
        using rest [OF l(1) 3(1)] by (intro owned_cong) blast
      then show ?thesis using 3 R(2) [OF l(1) 3(1)] R(2) [OF l(2) 3(2)] sepj [OF l] by (simp add: bsep_def)
    qed
  qed
  show "map (btree h ?N1) (ks[s := c]) = (map (btree h ?N) ks)[s := btree h ?N1 c]"
  proof (rule nth_equalityI)
    fix j assume "j < length (map (btree h ?N1) (ks[s := c]))"
    then show "map (btree h ?N1) (ks[s := c]) ! j = (map (btree h ?N) ks)[s := btree h ?N1 c] ! j"
      using R(1) [of j] by (cases "j = s") simp_all
  qed simp
  show "\<Union> (breach h ?N1 ` set (ks[s := c])) \<subseteq> \<Union> (breach h ?N ` set ks) \<union> breach h ?N1 c"
  proof
    fix z assume "z \<in> \<Union> (breach h ?N1 ` set (ks[s := c]))"
    then obtain j where j: "j < length ks" "z \<in> breach h ?N1 (ks[s := c] ! j)" by (auto simp: in_set_conv_nth)
    then show "z \<in> \<Union> (breach h ?N ` set ks) \<union> breach h ?N1 c"
      using R(2) [OF j(1)] nk [OF j(1)] kj [OF j(1)] by (cases "j = s") auto
  qed
qed

text \<open>Owning a node and storing it with other contents over the same children.\<close>

lemma own_store:
  assumes e: "e \<noteq> 0" and t: "tidy H" and g: "bgood h (h_nodes H) e x"
  shows "\<exists>nd y H1. h_nodes H x = Some nd \<and> hb_own x e H = (y, e, H1) \<and> h_nodes H1 y = Some (nd\<lparr>n_epoch := e\<rparr>) \<and>
    (\<forall>m. n_epoch m = e \<longrightarrow> bh_kids m = bh_kids nd \<longrightarrow>
      changed e H (breach h (h_nodes H) x) (store y m H1) (breach h (h_nodes (store y m H1)) y) \<and>
      bgood h (h_nodes (store y m H1)) e y \<and>
      btree h (h_nodes (store y m H1)) y = BNode (bh_count m) (bh_height m) (bh_words m) (bh_present m) (n_kids (btree h (h_nodes H) x)))"
proof -
  obtain nd where nd: "h_nodes H x = Some nd" using bgood_root [OF g] by blast
  obtain y H1 where o: "hb_own x e H = (y, e, H1)" "h_nodes H1 y = Some (nd\<lparr>n_epoch := e\<rparr>)" "tidy H1" "h_epochs H1 = h_epochs H"
      "h_next H \<le> h_next H1" "\<And>z. z \<noteq> y \<Longrightarrow> h_nodes H1 z = h_nodes H z" "y = x \<and> n_epoch nd = e \<and> H1 = H \<or> y = h_next H"
    using hb_own_spec [OF e t nd] by blast
  have "changed e H (breach h (h_nodes H) x) (store y m H1) (breach h (h_nodes (store y m H1)) y) \<and>
      bgood h (h_nodes (store y m H1)) e y \<and>
      btree h (h_nodes (store y m H1)) y = BNode (bh_count m) (bh_height m) (bh_words m) (bh_present m) (n_kids (btree h (h_nodes H) x))"
    if m: "n_epoch m = e" "bh_kids m = bh_kids nd" for m
  proof -
    let ?H2 = "store y m H1"
    have y: "h_nodes ?H2 y = Some m" by (simp add: store_def)
    have other: "h_nodes ?H2 z = h_nodes H z" if "z \<noteq> y" for z using o(6) that by (simp add: store_def)
    have ow: "y \<in> owned e (h_nodes H) (breach h (h_nodes H) x) \<or> h_next H \<le> y"
      using o(7) nd by (auto simp: owned_def)
    have t2: "tidy ?H2" "h_next H \<le> h_next ?H2" "h_epochs ?H2 = h_epochs H"
      using tidy_store [OF o(3) tidy_node [OF o(3,2)]] o(4,5) by (simp_all add: store_def)
    have "bgood h (h_nodes ?H2) e y \<and> breach h (h_nodes ?H2) y \<subseteq> insert y (breach h (h_nodes H) x) \<and>
        btree h (h_nodes ?H2) y = BNode (bh_count m) (bh_height m) (bh_words m) (bh_present m) (n_kids (btree h (h_nodes H) x))"
    proof (cases h)
      case 0
      then show ?thesis using g nd y m(2) by auto
    next
      case (Suc h')
      have kg: "bgood h' (h_nodes H) e k \<and> x \<notin> breach h' (h_nodes H) k" if "k \<in> set (bh_kids nd)" for k
        using g nd that Suc by auto
      have "y \<notin> breach h' (h_nodes H) k" if "k \<in> set (bh_kids nd)" for k
        using kg [OF that] o(7) btidy_less [OF t, of h' e k y] by auto
      moreover have "sorted_wrt (bsep h' (h_nodes H) e) (bh_kids nd)" using g nd Suc by auto
      ultimately show ?thesis
        using node_over [of "h_nodes ?H2" y m h' "h_nodes H" e, OF y _ _ other] kg m(2) nd Suc by auto
    qed
    then show ?thesis using put_changed [OF changed_refl [OF t] subset_refl other y m(1) ow t2] by blast
  qed
  then show ?thesis using nd o(1,2) by blast
qed

section \<open>Branches\<close>

lemma hb_branch_correct:
  assumes e: "e \<noteq> 0" and t: "tidy H"
  shows "\<exists>k H'. hb_branch h i e H = (k, H') \<and> changed e H {} H' (breach h (h_nodes H') k) \<and> bgood h (h_nodes H') e k \<and>
    btree h (h_nodes H') k = branch h i"
proof (induction h)
  case 0
  then show ?case using t by (auto simp: alloc_def changed_def tidy_def)
next
  case (Suc h)
  then obtain k H1 where k: "hb_branch h i e H = (k, H1)" "changed e H {} H1 (breach h (h_nodes H1) k)"
      "bgood h (h_nodes H1) e k" "btree h (h_nodes H1) k = branch h i" by blast
  note D = changedD [OF k(2)]
  let ?m = "\<lparr>n_epoch = e, bh_count = 1, bh_height = Suc h, bh_words = zero_words, bh_present = slot_bit (slot_of h i), bh_kids = [k]\<rparr>"
  let ?y = "h_next H1" and ?H2 = "H1\<lparr>h_nodes := (h_nodes H1)(h_next H1 \<mapsto> \<lparr>n_epoch = e, bh_count = 1, bh_height = Suc h, bh_words = zero_words, bh_present = slot_bit (slot_of h i), bh_kids = [k]\<rparr>), h_next := h_next H1 + 1\<rparr>"
  have run: "hb_branch (Suc h) i e H = (?y, ?H2)" using k(1) by (simp add: alloc_def)
  have y: "h_nodes ?H2 ?y = Some ?m" and other: "h_nodes ?H2 z = h_nodes H1 z" if "z \<noteq> ?y" for z using that by simp_all
  have "?y \<notin> breach h (h_nodes H1) k" using btidy_less [OF D(1) k(3)] by blast
  then have n: "bgood (Suc h) (h_nodes ?H2) e ?y" "breach (Suc h) (h_nodes ?H2) ?y = insert ?y (breach h (h_nodes H1) k)"
      "btree (Suc h) (h_nodes ?H2) ?y = branch (Suc h) i"
    using node_over [of "h_nodes ?H2" ?y ?m h "h_nodes H1" e] k(3,4) by auto
  have "changed e H {} ?H2 (breach (Suc h) (h_nodes ?H2) ?y)"
    by (rule put_changed [OF k(2) subset_refl, of ?y ?H2 ?m]) (use D n(2) in \<open>auto simp: tidy_def\<close>)
  then show ?case using run n by blast
qed

section \<open>A write refines the write on values\<close>

lemma set_take_drop [simp]: "set (take n xs) \<union> set (drop n xs) = set xs"
  by (metis append_take_drop_id set_append)

lemma sorted_wrt_delete_at:
  assumes "sorted_wrt P xs"
  shows "sorted_wrt P (take n xs @ drop (Suc n) xs)"
proof (cases "n < length xs")
  case True
  then show ?thesis using assms by (subst (asm) id_take_nth_drop [OF True]) (simp add: sorted_wrt_append)
qed (use assms in simp)

text \<open>The root of a tree as a value.\<close>

lemma btree_root:
  assumes "h_nodes H x = Some nd"
  shows "n_count (btree h (h_nodes H) x) = bh_count nd" "n_height (btree h (h_nodes H) x) = bh_height nd"
    "n_words (btree h (h_nodes H) x) = bh_words nd" "n_present (btree h (h_nodes H) x) = bh_present nd"
    "n_kids (btree h (h_nodes H) x) = (case h of 0 \<Rightarrow> [] | Suc g \<Rightarrow> map (btree g (h_nodes H)) (bh_kids nd))"
  using assms by (cases h; simp)+

lemma node_atI [simp]: "h_nodes H x = Some nd \<Longrightarrow> node_at H x = nd"
  by (simp add: node_at_def)

lemma store_id: "h_nodes H x = Some nd \<Longrightarrow> store x nd H = H"
  by (simp add: store_def map_upd_triv)

text \<open>The directory node a write stores last, over the memory \<open>H1\<close> in which its children are written.\<close>

lemma put_dir:
  assumes ch: "changed e H S H1 S1" and sub: "S \<subseteq> breach (Suc h) (h_nodes H) x"
    and other: "\<And>z. z \<noteq> y \<Longrightarrow> h_nodes H2 z = h_nodes H1 z" and y: "h_nodes H2 y = Some m" "n_epoch m = e"
    and own: "y \<in> owned e (h_nodes H) (breach (Suc h) (h_nodes H) x) \<or> h_next H \<le> y"
    and t: "tidy H2" "h_next H1 \<le> h_next H2" "h_epochs H2 = h_epochs H1"
    and k: "\<And>k. k \<in> set (bh_kids m) \<Longrightarrow> bgood h (h_nodes H1) e k \<and> y \<notin> breach h (h_nodes H1) k"
    and s: "sorted_wrt (bsep h (h_nodes H1) e) (bh_kids m)"
    and r: "\<Union> (breach h (h_nodes H1) ` set (bh_kids m)) \<subseteq> breach (Suc h) (h_nodes H) x \<union> S1"
  shows "changed e H (breach (Suc h) (h_nodes H) x) H2 (breach (Suc h) (h_nodes H2) y) \<and> bgood (Suc h) (h_nodes H2) e y \<and>
    btree (Suc h) (h_nodes H2) y = BNode (bh_count m) (bh_height m) (bh_words m) (bh_present m) (map (btree h (h_nodes H1)) (bh_kids m))"
proof -
  note n = node_over [of "h_nodes H2" y m h "h_nodes H1" e, OF y(1) k s other]
  show ?thesis using put_changed [OF ch sub other y own t, of "breach (Suc h) (h_nodes H2) y"] n r by auto
qed

lemma hb_set_correct:
  assumes e: "e \<noteq> 0"
  shows "tidy H \<Longrightarrow> bgood h (h_nodes H) e x \<Longrightarrow> wf_node h (btree h (h_nodes H) x) \<Longrightarrow>
    \<exists>y added H'. hb_set h x i e H = (y, added, e, H') \<and> changed e H (breach h (h_nodes H) x) H' (breach h (h_nodes H') y) \<and>
      bgood h (h_nodes H') e y \<and> set_node h (btree h (h_nodes H) x) i = (btree h (h_nodes H') y, added) \<and> (\<not> added \<longrightarrow> H' = H)"
proof (induction h arbitrary: x H)
  case 0
  note t = "0.prems"(1) and g = "0.prems"(2)
  obtain nd y H1 where nd: "h_nodes H x = Some nd" and o: "hb_own x e H = (y, e, H1)" "h_nodes H1 y = Some (nd\<lparr>n_epoch := e\<rparr>)"
    and st: "\<And>m. n_epoch m = e \<Longrightarrow> bh_kids m = bh_kids nd \<Longrightarrow>
      changed e H (breach 0 (h_nodes H) x) (store y m H1) (breach 0 (h_nodes (store y m H1)) y) \<and>
      bgood 0 (h_nodes (store y m H1)) e y \<and>
      btree 0 (h_nodes (store y m H1)) y = BNode (bh_count m) (bh_height m) (bh_words m) (bh_present m) (n_kids (btree 0 (h_nodes H) x))"
    using own_store [OF e t g] by blast
  note b = btree_root [OF nd, of 0]
  show ?case
  proof (cases "bh_words nd ! word_of_id i AND slot_bit (bit_of_id i) = 0")
    case True
    then show ?thesis using st [of "nd\<lparr>n_epoch := e, bh_words := (bh_words nd)[word_of_id i := bh_words nd ! word_of_id i OR slot_bit (bit_of_id i)],
        bh_count := bh_count nd + 1\<rparr>"] nd o b by (simp add: Let_def) blast
  next
    case False
    then show ?thesis using changed_refl [OF t] g nd b by (simp add: Let_def) blast
  qed
next
  case (Suc h)
  note t = Suc.prems(1) and g = Suc.prems(2) and wf = Suc.prems(3)
  obtain nd y H1 where nd: "h_nodes H x = Some nd" and o: "hb_own x e H = (y, e, H1)" "h_nodes H1 y = Some (nd\<lparr>n_epoch := e\<rparr>)"
    and st: "\<And>m. n_epoch m = e \<Longrightarrow> bh_kids m = bh_kids nd \<Longrightarrow>
      changed e H (breach (Suc h) (h_nodes H) x) (store y m H1) (breach (Suc h) (h_nodes (store y m H1)) y) \<and>
      bgood (Suc h) (h_nodes (store y m H1)) e y \<and>
      btree (Suc h) (h_nodes (store y m H1)) y = BNode (bh_count m) (bh_height m) (bh_words m) (bh_present m) (n_kids (btree (Suc h) (h_nodes H) x))"
    using own_store [OF e t g] by blast
  note b = btree_root [OF nd, of "Suc h", simplified]
  let ?s = "slot_of h i" and ?idx = "OnesCount64 (bh_present nd AND below (slot_of h i))"
  show ?case
  proof (cases "bh_present nd AND slot_bit ?s = 0")
    case True
    have A: "changed e H (breach (Suc h) (h_nodes H) x) H1 (breach (Suc h) (h_nodes H1) y)" "bgood (Suc h) (h_nodes H1) e y"
        "btree (Suc h) (h_nodes H1) y = btree (Suc h) (h_nodes H) x"
      using st [of "nd\<lparr>n_epoch := e\<rparr>"] nd store_id [OF o(2)] by simp_all
    note t1 = changedD(1) [OF A(1)]
    obtain k H2 where k: "hb_branch h i e H1 = (k, H2)" "changed e H1 {} H2 (breach h (h_nodes H2) k)"
        "bgood h (h_nodes H2) e k" "btree h (h_nodes H2) k = branch h i"
      using hb_branch_correct [OF e t1] by blast
    note D = changedD [OF k(2)]
    have yn: "y < h_next H1" by (rule tidy_node [OF t1 o(2)])
    have at: "h_nodes H2 y = Some (nd\<lparr>n_epoch := e\<rparr>)" using D(4) [OF yn] o(2) by (simp add: owned_def)
    let ?m = "nd\<lparr>n_epoch := e, bh_kids := take ?idx (bh_kids nd) @ k # drop ?idx (bh_kids nd),
      bh_present := bh_present nd OR slot_bit ?s, bh_count := bh_count nd + 1\<rparr>"
    have set: "set (bh_kids ?m) = insert k (set (bh_kids nd))" by simp
    have kg: "bgood h (h_nodes H1) e q \<and> y \<notin> breach h (h_nodes H1) q" if "q \<in> set (bh_kids nd)" for q using A(2) o(2) that by auto
    have low: "z < h_next H1" if "q \<in> set (bh_kids nd)" "z \<in> breach h (h_nodes H1) q" for q z
      using btidy_less [OF t1] kg [OF that(1)] that(2) by blast
    have same: "\<forall>q\<in>set (bh_kids nd). \<forall>z\<in>breach h (h_nodes H1) q. h_nodes H2 z = h_nodes H1 z"
      using D(4) low by (auto simp: owned_def)
    note S = kids_same [OF same]
    have sep: "sorted_wrt (bsep h (h_nodes H2) e) (take ?idx (bh_kids nd) @ drop ?idx (bh_kids nd))" using S(4) A(2) o(2) by auto
    have "breach h (h_nodes H2) q \<inter> breach h (h_nodes H2) k = {}" if "q \<in> set (bh_kids nd)" for q
      using D(6) low [OF that] S(2) [OF that] by fastforce
    then have ks: "bsep h (h_nodes H2) e q k \<and> bsep h (h_nodes H2) e k q" if "q \<in> set (bh_kids nd)" for q
      using that by (auto simp: bsep_def owned_def)
    have "changed e H (breach (Suc h) (h_nodes H) x) (store y ?m H2) (breach (Suc h) (h_nodes (store y ?m H2)) y) \<and>
        bgood (Suc h) (h_nodes (store y ?m H2)) e y \<and>
        btree (Suc h) (h_nodes (store y ?m H2)) y = BNode (bh_count ?m) (bh_height ?m) (bh_words ?m) (bh_present ?m) (map (btree h (h_nodes H2)) (bh_kids ?m))"
    proof (rule put_dir [OF changed_trans [OF A(1)]])
      show "changed e H1 (breach (Suc h) (h_nodes H1) y) H2 (breach h (h_nodes H2) k \<union> breach (Suc h) (h_nodes H1) y)"
        using changed_add [OF k(2), of "breach (Suc h) (h_nodes H1) y"] by simp
      show "y \<in> owned e (h_nodes H) (breach (Suc h) (h_nodes H) x) \<or> h_next H \<le> y"
        by (rule changed_owned [OF A(1)]) (use o(2) in \<open>simp add: owned_def\<close>)
      show "tidy (store y ?m H2)" by (rule tidy_store [OF D(1) tidy_node [OF D(1) at]])
      show "bgood h (h_nodes H2) e q \<and> y \<notin> breach h (h_nodes H2) q" if "q \<in> set (bh_kids ?m)" for q
      proof (cases "q = k")
        case True
        then show ?thesis using k(3) D(6) [of y] yn by auto
      next
        case False
        then have "q \<in> set (bh_kids nd)" using that set by simp
        then show ?thesis using S(2,3) kg by simp
      qed
      show "sorted_wrt (bsep h (h_nodes H2) e) (bh_kids ?m)"
        using sep [unfolded sorted_wrt_append] ks by (auto simp: sorted_wrt_append dest: in_set_takeD in_set_dropD)
      show "\<Union> (breach h (h_nodes H2) ` set (bh_kids ?m)) \<subseteq> breach (Suc h) (h_nodes H) x \<union> (breach h (h_nodes H2) k \<union> breach (Suc h) (h_nodes H1) y)"
        unfolding set using S(2) o(2) by auto
    qed (simp_all add: store_def)
    moreover have "map (btree h (h_nodes H2)) (bh_kids ?m) =
        take ?idx (map (btree h (h_nodes H)) (bh_kids nd)) @ branch h i # drop ?idx (map (btree h (h_nodes H)) (bh_kids nd))"
    proof -
      have "map (btree h (h_nodes H2)) (bh_kids nd) = map (btree h (h_nodes H)) (bh_kids nd)" using S(1) A(3) nd o(2) by simp
      then show ?thesis using k(4) by (simp add: take_map [symmetric] drop_map [symmetric] del: map_eq_conv)
    qed
    ultimately show ?thesis using True nd o(1) k(1) at b by (simp add: Let_def) blast
  next
    case False
    have kg: "\<And>k. k \<in> set (bh_kids nd) \<Longrightarrow> bgood h (h_nodes H) e k \<and> x \<notin> breach h (h_nodes H) k"
      and sep: "sorted_wrt (bsep h (h_nodes H) e) (bh_kids nd)" using g nd by auto
    have idx: "?idx < length (bh_kids nd)"
      using child_present(2) [OF wf, of ?s] False b by (simp add: rank_def and_slot_bit_eq_0)
    let ?c = "bh_kids nd ! ?idx"
    have cm: "?c \<in> set (bh_kids nd)" using idx by simp
    have wk: "wf_node h (btree h (h_nodes H) ?c)" using kids_wf [OF wf] b(5) cm by auto
    obtain c added H1 where c: "hb_set h ?c i e H = (c, added, e, H1)" "changed e H (breach h (h_nodes H) ?c) H1 (breach h (h_nodes H1) c)"
        "bgood h (h_nodes H1) e c" "set_node h (btree h (h_nodes H) ?c) i = (btree h (h_nodes H1) c, added)" "\<not> added \<longrightarrow> H1 = H"
      using Suc.IH [OF t conjunct1 [OF kg [OF cm]] wk] by blast
    show ?thesis
    proof (cases added)
      case False': False
      then show ?thesis using False nd c(1,4,5) changed_refl [OF t] g b idx by (simp add: Let_def) blast
    next
      case True
      note K = kids_changed [OF t tidy_node [OF t nd] kg sep idx c(2,3)]
      have nd1: "h_nodes H1 x = Some nd" using K(1) nd by simp
      obtain y H2 where o: "hb_own x e H1 = (y, e, H2)" "h_nodes H2 y = Some (nd\<lparr>n_epoch := e\<rparr>)" "tidy H2" "h_epochs H2 = h_epochs H1"
          "h_next H1 \<le> h_next H2" "\<And>z. z \<noteq> y \<Longrightarrow> h_nodes H2 z = h_nodes H1 z" "y = x \<and> n_epoch nd = e \<and> H2 = H1 \<or> y = h_next H1"
        using hb_own_spec [OF e changedD(1) [OF c(2)] nd1] by blast
      let ?m = "nd\<lparr>n_epoch := e, bh_kids := (bh_kids nd)[?idx := c], bh_count := bh_count nd + 1\<rparr>"
      have yk: "bgood h (h_nodes H1) e k \<and> y \<notin> breach h (h_nodes H1) k" if "k \<in> set ((bh_kids nd)[?idx := c])" for k
        using K(2) [OF _ that] o(7) btidy_less [OF changedD(1) [OF c(2)], of h e k y] by auto
      have sub: "\<Union> (breach h (h_nodes H) ` set (bh_kids nd)) \<subseteq> breach (Suc h) (h_nodes H) x" using nd by auto
      have "changed e H (breach (Suc h) (h_nodes H) x) (store y ?m H2) (breach (Suc h) (h_nodes (store y ?m H2)) y) \<and>
          bgood (Suc h) (h_nodes (store y ?m H2)) e y \<and>
          btree (Suc h) (h_nodes (store y ?m H2)) y = BNode (bh_count ?m) (bh_height ?m) (bh_words ?m) (bh_present ?m) (map (btree h (h_nodes H1)) (bh_kids ?m))"
      proof (rule put_dir [OF c(2)])
        show "breach h (h_nodes H) ?c \<subseteq> breach (Suc h) (h_nodes H) x" using sub cm by blast
        show "y \<in> owned e (h_nodes H) (breach (Suc h) (h_nodes H) x) \<or> h_next H \<le> y"
          using o(7) nd changedD(2) [OF c(2)] by (auto simp: owned_def)
        show "tidy (store y ?m H2)" by (rule tidy_store [OF o(3) tidy_node [OF o(3,2)]])
        show "\<Union> (breach h (h_nodes H1) ` set (bh_kids ?m)) \<subseteq> breach (Suc h) (h_nodes H) x \<union> breach h (h_nodes H1) c"
          using K(5) sub by auto
      qed (use o(4-6) yk K(3) in \<open>auto simp: store_def\<close>)
      then show ?thesis using False True nd c(1,4) o(1,2) b idx K(4) by (simp add: Let_def) blast
    qed
  qed
qed

text \<open>Where the child for a slot that is present is found.\<close>

lemma btree_kid:
  assumes "wf_node (Suc h) (btree (Suc h) (h_nodes H) x)" and "h_nodes H x = Some nd" and "bit (bh_present nd) s"
  defines "k \<equiv> bh_kids nd ! OnesCount64 (bh_present nd AND below s)"
  shows "OnesCount64 (bh_present nd AND below s) < length (bh_kids nd)" "k \<in> set (bh_kids nd)"
    "wf_node h (btree h (h_nodes H) k)" "btree h (h_nodes H) k = kid (btree (Suc h) (h_nodes H) x) s"
proof -
  show idx: "OnesCount64 (bh_present nd AND below s) < length (bh_kids nd)"
    using child_present(2) [OF assms(1), of s] assms(2,3) by (simp add: rank_def)
  then show k: "k \<in> set (bh_kids nd)" by (simp add: k_def)
  show "wf_node h (btree h (h_nodes H) k)" using kids_wf [OF assms(1)] assms(2) k by auto
  show "btree h (h_nodes H) k = kid (btree (Suc h) (h_nodes H) x) s" using idx assms(2) by (simp add: kid_def k_def)
qed

lemma hb_clear_correct:
  assumes e: "e \<noteq> 0"
  shows "tidy H \<Longrightarrow> bgood h (h_nodes H) e x \<Longrightarrow> wf_node h (btree h (h_nodes H) x) \<Longrightarrow> has_node h (btree h (h_nodes H) x) i \<Longrightarrow>
    \<exists>r H'. hb_clear h x i e H = (r, e, H') \<and> clear_node h (btree h (h_nodes H) x) i = map_option (btree h (h_nodes H')) r \<and>
      (case r of None \<Rightarrow> H' = H
       | Some y \<Rightarrow> changed e H (breach h (h_nodes H) x) H' (breach h (h_nodes H') y) \<and> bgood h (h_nodes H') e y)"
proof (induction h arbitrary: x H)
  case 0
  obtain nd y H1 where nd: "h_nodes H x = Some nd" and o: "hb_own x e H = (y, e, H1)" "h_nodes H1 y = Some (nd\<lparr>n_epoch := e\<rparr>)"
    and st: "\<And>m. n_epoch m = e \<Longrightarrow> bh_kids m = bh_kids nd \<Longrightarrow>
      changed e H (breach 0 (h_nodes H) x) (store y m H1) (breach 0 (h_nodes (store y m H1)) y) \<and>
      bgood 0 (h_nodes (store y m H1)) e y \<and>
      btree 0 (h_nodes (store y m H1)) y = BNode (bh_count m) (bh_height m) (bh_words m) (bh_present m) (n_kids (btree 0 (h_nodes H) x))"
    using own_store [OF e "0.prems"(1,2)] by blast
  show ?case
    using st [of "nd\<lparr>n_epoch := e, bh_count := bh_count nd - 1,
        bh_words := (bh_words nd)[word_of_id i := bh_words nd ! word_of_id i AND NOT (slot_bit (bit_of_id i))]\<rparr>"] nd o btree_root [OF nd, of 0]
    by (cases "bh_count nd = 1") (simp_all add: Let_def)
next
  case (Suc h)
  note t = Suc.prems(1) and g = Suc.prems(2) and wf = Suc.prems(3)
  obtain nd y H1 where nd: "h_nodes H x = Some nd" and o: "hb_own x e H = (y, e, H1)" "h_nodes H1 y = Some (nd\<lparr>n_epoch := e\<rparr>)"
    and st: "\<And>m. n_epoch m = e \<Longrightarrow> bh_kids m = bh_kids nd \<Longrightarrow>
      changed e H (breach (Suc h) (h_nodes H) x) (store y m H1) (breach (Suc h) (h_nodes (store y m H1)) y) \<and>
      bgood (Suc h) (h_nodes (store y m H1)) e y \<and>
      btree (Suc h) (h_nodes (store y m H1)) y = BNode (bh_count m) (bh_height m) (bh_words m) (bh_present m) (n_kids (btree (Suc h) (h_nodes H) x))"
    using own_store [OF e t g] by blast
  note b = btree_root [OF nd, of "Suc h", simplified]
  let ?s = "slot_of h i" and ?idx = "OnesCount64 (bh_present nd AND below (slot_of h i))"
  show ?case
  proof (cases "bh_count nd = 1")
    case True
    then show ?thesis using nd b by simp
  next
    case False
    let ?c = "bh_kids nd ! ?idx" and ?m = "nd\<lparr>n_epoch := e, bh_count := bh_count nd - 1\<rparr>"
    let ?HA = "store y (nd\<lparr>n_epoch := e, bh_count := bh_count nd - 1\<rparr>) H1"
    have p: "bit (bh_present nd) ?s" using Suc.prems(4) nd by (simp add: Let_def split: if_splits)
    note K = btree_kid [OF wf nd p]
    have at: "h_nodes ?HA y = Some ?m" by (simp add: store_def)
    have A: "changed e H (breach (Suc h) (h_nodes H) x) ?HA (breach (Suc h) (h_nodes ?HA) y)" "bgood (Suc h) (h_nodes ?HA) e y"
        "map (btree h (h_nodes ?HA)) (bh_kids nd) = map (btree h (h_nodes H)) (bh_kids nd)"
      using st [of ?m] nd at by simp_all
    note tA = changedD(1) [OF A(1)]
    have kg: "\<And>k. k \<in> set (bh_kids nd) \<Longrightarrow> bgood h (h_nodes ?HA) e k \<and> y \<notin> breach h (h_nodes ?HA) k"
      and sep: "sorted_wrt (bsep h (h_nodes ?HA) e) (bh_kids nd)" using A(2) at by auto
    have below: "\<Union> (breach h (h_nodes ?HA) ` set (bh_kids nd)) \<subseteq> breach (Suc h) (h_nodes ?HA) y" using at by auto
    have c0: "btree h (h_nodes ?HA) ?c = btree h (h_nodes H) ?c" using A(3) K(2) by simp
    have hc: "has_node h (btree h (h_nodes ?HA) ?c) i"
      unfolding c0 K(4) using Suc.prems(4) by (simp add: Let_def split: if_splits)
    obtain r HB where r: "hb_clear h ?c i e ?HA = (r, e, HB)" "clear_node h (btree h (h_nodes H) ?c) i = map_option (btree h (h_nodes HB)) r"
        "case r of None \<Rightarrow> HB = ?HA | Some z \<Rightarrow> changed e ?HA (breach h (h_nodes ?HA) ?c) HB (breach h (h_nodes HB) z) \<and> bgood h (h_nodes HB) e z"
      using Suc.IH [OF tA conjunct1 [OF kg [OF K(2)]] _ hc] K(3) c0 by auto
    have own: "y \<in> owned e (h_nodes H) (breach (Suc h) (h_nodes H) x) \<or> h_next H \<le> y"
      by (rule changed_owned [OF A(1)]) (simp add: owned_def at)
    show ?thesis
    proof (cases r)
      case None
      let ?m' = "?m\<lparr>bh_kids := take ?idx (bh_kids nd) @ drop (Suc ?idx) (bh_kids nd), bh_present := bh_present nd AND NOT (slot_bit ?s)\<rparr>"
      have HB: "HB = ?HA" using r(3) None by simp
      have sub: "set (bh_kids ?m') \<subseteq> set (bh_kids nd)" by (auto dest: in_set_takeD in_set_dropD)
      have "changed e H (breach (Suc h) (h_nodes H) x) (store y ?m' ?HA) (breach (Suc h) (h_nodes (store y ?m' ?HA)) y) \<and>
          bgood (Suc h) (h_nodes (store y ?m' ?HA)) e y \<and>
          btree (Suc h) (h_nodes (store y ?m' ?HA)) y = BNode (bh_count ?m') (bh_height ?m') (bh_words ?m') (bh_present ?m') (map (btree h (h_nodes ?HA)) (bh_kids ?m'))"
      proof (rule put_dir [OF A(1)])
        show "tidy (store y ?m' ?HA)" by (rule tidy_store [OF tA tidy_node [OF tA at]])
        show "sorted_wrt (bsep h (h_nodes ?HA) e) (bh_kids ?m')"
          using sorted_wrt_delete_at [OF sep] by simp
        show "bgood h (h_nodes ?HA) e q \<and> y \<notin> breach h (h_nodes ?HA) q" if "q \<in> set (bh_kids ?m')" for q
          using that sub kg by blast
        show "\<Union> (breach h (h_nodes ?HA) ` set (bh_kids ?m')) \<subseteq> breach (Suc h) (h_nodes H) x \<union> breach (Suc h) (h_nodes ?HA) y"
          using sub below by blast
      qed (use own in \<open>simp_all add: store_def\<close>)
      moreover have "map (btree h (h_nodes ?HA)) (bh_kids ?m') =
          take ?idx (map (btree h (h_nodes H)) (bh_kids nd)) @ drop (Suc ?idx) (map (btree h (h_nodes H)) (bh_kids nd))"
        using A(3) by (simp add: take_map [symmetric] drop_map [symmetric] del: map_eq_conv)
      ultimately show ?thesis using False nd o r(1,2) None HB at b K(1) by (simp add: Let_def)
    next
      case (Some c)
      have c: "changed e ?HA (breach h (h_nodes ?HA) ?c) HB (breach h (h_nodes HB) c)" "bgood h (h_nodes HB) e c" using r(3) Some by simp_all
      note C = kids_changed [OF tA tidy_node [OF tA at] kg sep K(1) c, simplified]
      let ?m' = "?m\<lparr>bh_kids := (bh_kids nd)[?idx := c]\<rparr>"
      have atB: "h_nodes HB y = Some ?m" using C(1) at by simp
      have "changed e H (breach (Suc h) (h_nodes H) x) (store y ?m' HB) (breach (Suc h) (h_nodes (store y ?m' HB)) y) \<and>
          bgood (Suc h) (h_nodes (store y ?m' HB)) e y \<and>
          btree (Suc h) (h_nodes (store y ?m' HB)) y = BNode (bh_count ?m') (bh_height ?m') (bh_words ?m') (bh_present ?m') (map (btree h (h_nodes HB)) (bh_kids ?m'))"
      proof (rule put_dir [OF changed_trans [OF A(1)]])
        have "breach h (h_nodes ?HA) ?c \<union> breach (Suc h) (h_nodes ?HA) y = breach (Suc h) (h_nodes ?HA) y" using below K(2) by blast
        then show "changed e ?HA (breach (Suc h) (h_nodes ?HA) y) HB (breach h (h_nodes HB) c \<union> breach (Suc h) (h_nodes ?HA) y)"
          using changed_add [OF c(1), of "breach (Suc h) (h_nodes ?HA) y"] by simp
        show "tidy (store y ?m' HB)" by (rule tidy_store [OF changedD(1) [OF c(1)] tidy_node [OF changedD(1) [OF c(1)] atB]])
        show "sorted_wrt (bsep h (h_nodes HB) e) (bh_kids ?m')" using C(3) by simp
        show "bgood h (h_nodes HB) e q \<and> y \<notin> breach h (h_nodes HB) q" if "q \<in> set (bh_kids ?m')" for q using that C(2) by simp
        show "\<Union> (breach h (h_nodes HB) ` set (bh_kids ?m')) \<subseteq> breach (Suc h) (h_nodes H) x \<union> (breach h (h_nodes HB) c \<union> breach (Suc h) (h_nodes ?HA) y)"
          using C(5) below by auto
      qed (use own in \<open>simp_all add: store_def\<close>)
      then show ?thesis using False nd o r(1,2) Some at atB b K(1) C(4) A(3) by (simp add: Let_def)
    qed
  qed
qed

lemma hb_grow_correct:
  assumes e: "e \<noteq> 0"
  shows "tidy H \<Longrightarrow> bgood h (h_nodes H) e x \<Longrightarrow> n_height (btree h (h_nodes H) x) = h \<Longrightarrow>
    \<exists>g y H'. hb_grow h x i e H = (g, y, e, H') \<and> changed e H (breach h (h_nodes H) x) H' (breach g (h_nodes H') y) \<and>
      bgood g (h_nodes H') e y \<and> btree g (h_nodes H') y = grow_node (btree h (h_nodes H) x) i \<and> n_height (btree g (h_nodes H') y) = g"
proof (induction "32 - bspan h" arbitrary: h x H rule: less_induct)
  case less
  note t = less.prems(1) and g = less.prems(2) and hh = less.prems(3)
  obtain nd where nd: "h_nodes H x = Some nd" using bgood_root [OF g] by blast
  note b = btree_root [OF nd, of h]
  show ?case
  proof (cases "beyond h i")
    case False
    then show ?thesis using t g hh changed_refl [OF t] by (simp add: hb_grow.simps [of h] grow_node.simps)
  next
    case True
    let ?y = "h_next H" and ?m = "\<lparr>n_epoch = e, bh_count = bh_count nd, bh_height = h + 1, bh_words = zero_words, bh_present = 1, bh_kids = [x]\<rparr>"
    let ?H1 = "H\<lparr>h_nodes := (h_nodes H)(h_next H \<mapsto> \<lparr>n_epoch = e, bh_count = bh_count nd, bh_height = h + 1, bh_words = zero_words, bh_present = 1, bh_kids = [x]\<rparr>), h_next := h_next H + 1\<rparr>"
    have run: "hb_grow h x i e H = hb_grow (Suc h) ?y i e ?H1"
      using True e nd by (simp add: hb_grow.simps [of h] alloc_def)
    have y: "h_nodes ?H1 ?y = Some ?m" and other: "\<And>z. z \<noteq> ?y \<Longrightarrow> h_nodes ?H1 z = h_nodes H z" by simp_all
    have "?y \<notin> breach h (h_nodes H) x" using btidy_less [OF t g] by blast
    then have n: "bgood (Suc h) (h_nodes ?H1) e ?y" "breach (Suc h) (h_nodes ?H1) ?y = insert ?y (breach h (h_nodes H) x)"
        "btree (Suc h) (h_nodes ?H1) ?y = lift_node (btree h (h_nodes H) x)"
      using node_over [of "h_nodes ?H1" ?y ?m h "h_nodes H" e, OF y _ _ other] g b hh by (auto simp: lift_node_def)
    have ch: "changed e H (breach h (h_nodes H) x) ?H1 (breach (Suc h) (h_nodes ?H1) ?y)"
      by (rule put_changed [OF changed_refl [OF t] subset_refl other y]) (use t n(2) in \<open>auto simp: tidy_def\<close>)
    have "32 - bspan (Suc h) < 32 - bspan h" using True unfolding beyond_def bspan_simps by linarith
    moreover have "n_height (btree (Suc h) (h_nodes ?H1) ?y) = Suc h" unfolding n(3) using hh by (simp add: lift_node_def)
    ultimately obtain g z H2 where r: "hb_grow (Suc h) ?y i e ?H1 = (g, z, e, H2)"
        "changed e ?H1 (breach (Suc h) (h_nodes ?H1) ?y) H2 (breach g (h_nodes H2) z)" "bgood g (h_nodes H2) e z"
        "btree g (h_nodes H2) z = grow_node (btree (Suc h) (h_nodes ?H1) ?y) i" "n_height (btree g (h_nodes H2) z) = g"
      using less.hyps [of "Suc h" ?H1 ?y, OF _ changedD(1) [OF ch] n(1)] by blast
    have "grow_node (btree h (h_nodes H) x) i = grow_node (lift_node (btree h (h_nodes H) x)) i"
      using True hh by (simp add: grow_node.simps [of "btree h (h_nodes H) x"])
    then show ?thesis using run r changed_trans [OF ch r(2)] n(3) by simp
  qed
qed

lemma hb_strip_correct:
  assumes "bgood h (h_nodes H) e x" and "wf_node h (btree h (h_nodes H) x)"
  shows "\<exists>g\<le>h. btree g (h_nodes H) (hb_strip h x H) = strip (btree h (h_nodes H) x) \<and> bgood g (h_nodes H) e (hb_strip h x H) \<and>
    breach g (h_nodes H) (hb_strip h x H) \<subseteq> breach h (h_nodes H) x \<and> bh_height (node_at H (hb_strip h x H)) = g"
  using assms
proof (induction h arbitrary: x)
  case 0
  obtain nd where nd: "h_nodes H x = Some nd" using bgood_root [OF "0.prems"(1)] by blast
  then show ?case using "0.prems"(1) wf_height [OF "0.prems"(2)] by simp
next
  case (Suc h)
  obtain nd where nd: "h_nodes H x = Some nd" using bgood_root [OF Suc.prems(1)] by blast
  have hh: "bh_height nd = Suc h" using wf_height [OF Suc.prems(2)] nd by simp
  have "bh_kids nd \<noteq> []"
    using length_kids [OF Suc.prems(2)] present_nonzero [OF Suc.prems(2)] nd by auto
  then obtain k ks where ks: "bh_kids nd = k # ks" by (cases "bh_kids nd") auto
  have k: "bgood h (h_nodes H) e k" "wf_node h (btree h (h_nodes H) k)" using Suc.prems kids_wf [OF Suc.prems(2)] nd ks by auto
  show ?case
  proof (cases "bh_present nd = 1")
    case True
    obtain g where "g \<le> h" "btree g (h_nodes H) (hb_strip h k H) = strip (btree h (h_nodes H) k)" "bgood g (h_nodes H) e (hb_strip h k H)"
        "breach g (h_nodes H) (hb_strip h k H) \<subseteq> breach h (h_nodes H) k" "bh_height (node_at H (hb_strip h k H)) = g"
      using Suc.IH [OF k] by blast
    then show ?thesis using True nd hh ks by (intro exI [of _ g]) auto
  next
    case False
    then show ?thesis using Suc.prems(1) nd hh ks by (intro exI [of _ "Suc h"]) simp
  qed
qed

lemma hb_has_node_correct:
  "bgood h (h_nodes H) e x \<Longrightarrow> wf_node h (btree h (h_nodes H) x) \<Longrightarrow> hb_has_node h x i H = has_node h (btree h (h_nodes H) x) i"
proof (induction h arbitrary: x)
  case 0
  then show ?case by auto
next
  case (Suc h)
  obtain nd where nd: "h_nodes H x = Some nd" using bgood_root [OF Suc.prems(1)] by blast
  show ?case
  proof (cases "bit (bh_present nd) (slot_of h i)")
    case True
    note K = btree_kid [OF Suc.prems(2) nd True]
    have "bgood h (h_nodes H) e (bh_kids nd ! OnesCount64 (bh_present nd AND below (slot_of h i)))" using Suc.prems(1) nd K(2) by auto
    then show ?thesis using Suc.IH [OF _ K(3)] True nd K(4) by (simp add: Let_def)
  qed (use nd in simp)
qed

section \<open>Sets\<close>

text \<open>The set a bitmap shows, its nodes, and whether a writer of epoch \<open>e\<close> may write it.\<close>

definition root_height :: "bhnode nodes \<Rightarrow> addr \<Rightarrow> nat" where
  "root_height N x = (case N x of None \<Rightarrow> 0 | Some nd \<Rightarrow> bh_height nd)"

definition bm_of :: "bhnode nodes \<Rightarrow> hbitmap \<Rightarrow> bitmap" where
  "bm_of N b = map_option (\<lambda>x. btree (root_height N x) N x) b"

definition bm_reach :: "bhnode nodes \<Rightarrow> hbitmap \<Rightarrow> addr set" where
  "bm_reach N b = (case b of None \<Rightarrow> {} | Some x \<Rightarrow> breach (root_height N x) N x)"

definition bm_fine :: "bhnode nodes \<Rightarrow> uint64 \<Rightarrow> hbitmap \<Rightarrow> bool" where
  "bm_fine N e b \<longleftrightarrow> bm_wf (bm_of N b) \<and> (case b of None \<Rightarrow> True | Some x \<Rightarrow> bgood (root_height N x) N e x)"

lemma root_height_node: "h_nodes H x = Some nd \<Longrightarrow> root_height (h_nodes H) x = bh_height (node_at H x)"
  by (simp add: root_height_def)

text \<open>A bitmap that is there, as the operations see it.\<close>

lemma bm_fineD:
  assumes "bm_fine (h_nodes H) e (Some x)"
  obtains h where "h = bh_height (node_at H x)" "h \<le> maxHeight" "bgood h (h_nodes H) e x" "wf_node h (btree h (h_nodes H) x)"
    "bm_of (h_nodes H) (Some x) = Some (btree h (h_nodes H) x)" "bm_reach (h_nodes H) (Some x) = breach h (h_nodes H) x"
    "n_height (btree h (h_nodes H) x) = h"
proof -
  let ?h = "root_height (h_nodes H) x"
  have g: "bgood ?h (h_nodes H) e x" and w: "bm_wf (Some (btree ?h (h_nodes H) x))" using assms by (simp_all add: bm_fine_def bm_of_def)
  obtain nd where nd: "h_nodes H x = Some nd" using bgood_root [OF g] by blast
  have hh: "n_height (btree ?h (h_nodes H) x) = ?h" using btree_root(2) [OF nd] nd by (simp add: root_height_def)
  have "wf_node ?h (btree ?h (h_nodes H) x)" "?h \<le> maxHeight" using w hh by (simp_all add: bm_wf_def)
  then show thesis using that [of ?h] g hh nd by (simp add: bm_of_def bm_reach_def root_height_node)
qed

lemma bm_fineI:
  assumes "bgood h (h_nodes H) e x" and "bm_wf (Some (btree h (h_nodes H) x))" and "n_height (btree h (h_nodes H) x) = h"
  shows "bm_fine (h_nodes H) e (Some x)" "bm_of (h_nodes H) (Some x) = Some (btree h (h_nodes H) x)"
    "bm_reach (h_nodes H) (Some x) = breach h (h_nodes H) x"
proof -
  obtain nd where nd: "h_nodes H x = Some nd" using bgood_root [OF assms(1)] by blast
  have "root_height (h_nodes H) x = h" using assms(3) btree_root(2) [OF nd, of h] nd by (simp add: root_height_def)
  then show "bm_fine (h_nodes H) e (Some x)" "bm_of (h_nodes H) (Some x) = Some (btree h (h_nodes H) x)"
    "bm_reach (h_nodes H) (Some x) = breach h (h_nodes H) x" using assms by (simp_all add: bm_fine_def bm_of_def bm_reach_def)
qed

lemma HB_Has_correct: "bm_fine (h_nodes H) e b \<Longrightarrow> HB_Has b i H = Has (bm_of (h_nodes H) b) i"
proof (cases b)
  case (Some x)
  assume "bm_fine (h_nodes H) e b"
  then obtain h where "h = bh_height (node_at H x)" "bgood h (h_nodes H) e x" "wf_node h (btree h (h_nodes H) x)"
      "bm_of (h_nodes H) b = Some (btree h (h_nodes H) x)" "n_height (btree h (h_nodes H) x) = h"
    using bm_fineD unfolding Some by metis
  then show ?thesis using hb_has_node_correct [of h H e x i] Some by (simp add: HB_Has_def Has_def)
qed (simp add: HB_Has_def Has_def bm_of_def)

lemma HB_Set_correct:
  assumes e: "e \<noteq> 0" and t: "tidy H" and g: "bm_fine (h_nodes H) e b"
  shows "\<exists>b' added H'. HB_Set b i e H = (b', added, e, H') \<and> changed e H (bm_reach (h_nodes H) b) H' (bm_reach (h_nodes H') b') \<and>
    bm_fine (h_nodes H') e b' \<and> Set_id (bm_of (h_nodes H) b) i = (bm_of (h_nodes H') b', added)"
proof -
  have wf: "bm_wf (bm_of (h_nodes H) b)" using g by (simp add: bm_fine_def)
  note S = Set_id_correct [OF wf, of i]
  show ?thesis
  proof (cases b)
    case None
    let ?h = "first_height 0 i"
    obtain k H' where k: "hb_branch ?h i e H = (k, H')" "changed e H {} H' (breach ?h (h_nodes H') k)" "bgood ?h (h_nodes H') e k"
        "btree ?h (h_nodes H') k = branch ?h i"
      using hb_branch_correct [OF e t] by blast
    have s: "Set_id (bm_of (h_nodes H) b) i = (Some (btree ?h (h_nodes H') k), True)" using None k(4) by (simp add: Set_id_def bm_of_def)
    have "n_height (btree ?h (h_nodes H') k) = ?h" unfolding k(4) by (cases ?h) simp_all
    note F = bm_fineI [OF k(3) _ this]
    have w: "bm_wf (Some (btree ?h (h_nodes H') k))" using S [OF s] by simp
    have "bm_reach (h_nodes H) b = {}" using None by (simp add: bm_reach_def)
    then show ?thesis using F [OF w] k e s None by (simp add: HB_Set_def) blast
  next
    case (Some x)
    obtain h where h: "h = bh_height (node_at H x)" "h \<le> maxHeight" "bgood h (h_nodes H) e x" "wf_node h (btree h (h_nodes H) x)"
        "bm_of (h_nodes H) b = Some (btree h (h_nodes H) x)" "bm_reach (h_nodes H) b = breach h (h_nodes H) x"
        "n_height (btree h (h_nodes H) x) = h"
      using bm_fineD [OF g [unfolded Some]] unfolding Some by blast
    obtain f y H1 where r: "hb_grow h x i e H = (f, y, e, H1)" "changed e H (breach h (h_nodes H) x) H1 (breach f (h_nodes H1) y)"
        "bgood f (h_nodes H1) e y" "btree f (h_nodes H1) y = grow_node (btree h (h_nodes H) x) i" "n_height (btree f (h_nodes H1) y) = f"
      using hb_grow_correct [OF e t h(3,7)] by blast
    have wy: "wf_node f (btree f (h_nodes H1) y)" using grow_node_correct [OF h(4,2), of i] r(4,5) by (metis wf_height)
    obtain z added H2 where s: "hb_set f y i e H1 = (z, added, e, H2)" "changed e H1 (breach f (h_nodes H1) y) H2 (breach f (h_nodes H2) z)"
        "bgood f (h_nodes H2) e z" "set_node f (btree f (h_nodes H1) y) i = (btree f (h_nodes H2) z, added)"
      using hb_set_correct [OF e changedD(1) [OF r(2)] r(3) wy, of i] by blast
    have v: "Set_id (bm_of (h_nodes H) b) i = (Some (btree f (h_nodes H2) z), added)"
      using h(5) s(4) r(4,5) by (simp add: Set_id_def)
    have w: "bm_wf (Some (btree f (h_nodes H2) z))" using S [OF v] by simp
    have "n_height (btree f (h_nodes H2) z) = f" using set_node_correct [OF wy s(4)] wf_height by blast
    note F = bm_fineI [OF s(3) w this]
    show ?thesis using F r(1) s(1) h(1,6) changed_trans [OF r(2) s(2)] v Some by (simp add: HB_Set_def)
  qed
qed

lemma HB_Clear_correct:
  assumes e: "e \<noteq> 0" and t: "tidy H" and g: "bm_fine (h_nodes H) e b"
  shows "\<exists>b' removed H'. HB_Clear b i e H = (b', removed, e, H') \<and> changed e H (bm_reach (h_nodes H) b) H' (bm_reach (h_nodes H') b') \<and>
    bm_fine (h_nodes H') e b' \<and> Clear_id (bm_of (h_nodes H) b) i = (bm_of (h_nodes H') b', removed)"
proof -
  have wf: "bm_wf (bm_of (h_nodes H) b)" using g by (simp add: bm_fine_def)
  note S = Clear_id_correct [OF wf, of i] and has = HB_Has_correct [OF g, of i]
  show ?thesis
  proof (cases "HB_Has b i H")
    case False
    then show ?thesis using changed_refl [OF t] g has by (cases b) (simp_all add: HB_Clear_def Clear_id_def, blast+)
  next
    case True
    then obtain x where Some: "b = Some x" by (cases b) (simp_all add: HB_Has_def)
    obtain h where h: "h = bh_height (node_at H x)" "h \<le> maxHeight" "bgood h (h_nodes H) e x" "wf_node h (btree h (h_nodes H) x)"
        "bm_of (h_nodes H) b = Some (btree h (h_nodes H) x)" "bm_reach (h_nodes H) b = breach h (h_nodes H) x"
        "n_height (btree h (h_nodes H) x) = h"
      using bm_fineD [OF g [unfolded Some]] unfolding Some by blast
    have hn: "has_node h (btree h (h_nodes H) x) i" using True has h(5,7) by (simp add: Has_def split: if_splits)
    obtain r H1 where r: "hb_clear h x i e H = (r, e, H1)" "clear_node h (btree h (h_nodes H) x) i = map_option (btree h (h_nodes H1)) r"
        "case r of None \<Rightarrow> H1 = H
         | Some y \<Rightarrow> changed e H (breach h (h_nodes H) x) H1 (breach h (h_nodes H1) y) \<and> bgood h (h_nodes H1) e y"
      using hb_clear_correct [OF e t h(3,4) hn] by blast
    show ?thesis
    proof (cases r)
      case None
      have "changed e H (breach h (h_nodes H) x) H {}" by (rule changed_more [OF changed_refl [OF t] subset_refl]) simp
      then show ?thesis using True has h r None Some
        by (simp add: HB_Clear_def Clear_id_def bm_of_def bm_reach_def bm_fine_def bm_wf_def) blast
    next
      case y: (Some y)
      have c: "changed e H (breach h (h_nodes H) x) H1 (breach h (h_nodes H1) y)" "bgood h (h_nodes H1) e y" using r(3) y by simp_all
      have "low_id h i \<in> elems h (btree h (h_nodes H) x)" using has_node_elems [OF h(4)] hn by blast
      then have wy: "wf_node h (btree h (h_nodes H1) y)" using clear_node_correct [OF h(4,2)] r(2) y by fastforce
      obtain f where f: "f \<le> h" "btree f (h_nodes H1) (hb_strip h y H1) = strip (btree h (h_nodes H1) y)" "bgood f (h_nodes H1) e (hb_strip h y H1)"
          "breach f (h_nodes H1) (hb_strip h y H1) \<subseteq> breach h (h_nodes H1) y" "bh_height (node_at H1 (hb_strip h y H1)) = f"
        using hb_strip_correct [OF c(2) wy] by blast
      obtain nd nz where nd: "h_nodes H1 y = Some nd" "h_nodes H1 (hb_strip h y H1) = Some nz" using bgood_root [OF c(2)] bgood_root [OF f(3)] by blast
      have hy: "bh_height nd = h" using wf_height [OF wy] btree_root(2) [OF nd(1)] by simp
      have v: "Clear_id (bm_of (h_nodes H) b) i = (Some (btree f (h_nodes H1) (hb_strip h y H1)), True)"
        using True has h(5,7) r(2) y f(2) by (simp add: Clear_id_def)
      have w: "bm_wf (Some (btree f (h_nodes H1) (hb_strip h y H1)))" using S [OF v] by simp
      have "n_height (btree f (h_nodes H1) (hb_strip h y H1)) = f" using btree_root(2) [OF nd(2)] nd(2) f(5) by simp
      note F = bm_fineI [OF f(3) w this]
      have "HB_Clear b i e H = (Some (hb_strip h y H1), True, e, H1)"
        using True r(1) y h(1) Some nd(1) hy by (simp add: HB_Clear_def)
      then show ?thesis using F v h(6) changed_more [OF c(1) subset_refl f(4)] by simp blast
    qed
  qed
qed

end
