(* ===== verification/Arena.thy ===== *)
theory Arena
  imports Memory
begin

text \<open>
  Many writers over one memory: each has its epoch and its current structures (a transaction
  writes all its vectors with one Writer, and all its bitmaps with another), and there are the
  structures published so far, which anybody reads and any writer may start from. The locale
  \<open>owning\<close> says what a write must promise for such an arena to behave as if structures were
  plain values; its theorem is that every run does, so that a published structure never changes.
\<close>

section \<open>Arenas\<close>

record ('n, 'r) arena =
  ar_heap :: "'n heap"
  ar_epoch :: "nat \<Rightarrow> uint64"
  ar_cur :: "nat \<Rightarrow> nat \<Rightarrow> 'r"
  ar_pub :: "'r list"

text \<open>Freeze forgets the writer's epoch; the next write starts a new one.\<close>

definition Freeze_epoch :: "uint64 \<Rightarrow> uint64" where
  "Freeze_epoch w = 0"

text \<open>
  \<open>AWrite\<close> writes a current structure, \<open>APublish\<close> freezes the writer and hands its structure out,
  as Commit and Snapshot do, \<open>ALoad\<close> makes a published structure a current one, as the first
  write of a table in a transaction does, and \<open>AEmpty\<close> starts with an empty one.
\<close>

datatype 'op action = AWrite nat nat 'op | AFreeze nat | APublish nat nat | ALoad nat nat nat | AEmpty nat nat

definition upd2 :: "(nat \<Rightarrow> nat \<Rightarrow> 'a) \<Rightarrow> nat \<Rightarrow> nat \<Rightarrow> 'a \<Rightarrow> nat \<Rightarrow> nat \<Rightarrow> 'a" where
  "upd2 f w t a = f(w := (f w)(t := a))"

type_synonym ('n, 'r, 'op) writing = "'op \<Rightarrow> 'r \<Rightarrow> uint64 \<Rightarrow> 'n heap \<Rightarrow> 'r \<times> uint64 \<times> 'n heap"

fun act :: "('n, 'r, 'op) writing \<Rightarrow> 'r \<Rightarrow> 'op action \<Rightarrow> ('n, 'r) arena \<Rightarrow> ('n, 'r) arena" where
  "act wr r0 (AWrite w t op) W = (case wr op (ar_cur W w t) (ar_epoch W w) (ar_heap W) of
     (v, e, H) \<Rightarrow> W\<lparr>ar_heap := H, ar_epoch := (ar_epoch W)(w := e), ar_cur := upd2 (ar_cur W) w t v\<rparr>)"
| "act wr r0 (AFreeze w) W = W\<lparr>ar_epoch := (ar_epoch W)(w := Freeze_epoch (ar_epoch W w))\<rparr>"
| "act wr r0 (APublish w t) W = W\<lparr>ar_epoch := (ar_epoch W)(w := Freeze_epoch (ar_epoch W w)), ar_pub := ar_pub W @ [ar_cur W w t]\<rparr>"
| "act wr r0 (ALoad w t k) W = (if k < length (ar_pub W) then W\<lparr>ar_cur := upd2 (ar_cur W) w t (ar_pub W ! k)\<rparr> else W)"
| "act wr r0 (AEmpty w t) W = W\<lparr>ar_cur := upd2 (ar_cur W) w t r0\<rparr>"

definition arena0 :: "'r \<Rightarrow> ('n, 'r) arena" where
  "arena0 r0 = \<lparr>ar_heap = empty_heap, ar_epoch = (\<lambda>_. 0), ar_cur = (\<lambda>_ _. r0), ar_pub = []\<rparr>"

text \<open>The same over values.\<close>

record 'v plain =
  pl_cur :: "nat \<Rightarrow> nat \<Rightarrow> 'v"
  pl_pub :: "'v list"

fun act_plain :: "('op \<Rightarrow> 'v \<Rightarrow> 'v) \<Rightarrow> 'v \<Rightarrow> 'op action \<Rightarrow> 'v plain \<Rightarrow> 'v plain" where
  "act_plain f v0 (AWrite w t op) X = X\<lparr>pl_cur := upd2 (pl_cur X) w t (f op (pl_cur X w t))\<rparr>"
| "act_plain f v0 (AFreeze w) X = X"
| "act_plain f v0 (APublish w t) X = X\<lparr>pl_pub := pl_pub X @ [pl_cur X w t]\<rparr>"
| "act_plain f v0 (ALoad w t k) X = (if k < length (pl_pub X) then X\<lparr>pl_cur := upd2 (pl_cur X) w t (pl_pub X ! k)\<rparr> else X)"
| "act_plain f v0 (AEmpty w t) X = X\<lparr>pl_cur := upd2 (pl_cur X) w t v0\<rparr>"

definition plain0 :: "'v \<Rightarrow> 'v plain" where
  "plain0 v0 = \<lparr>pl_cur = (\<lambda>_ _. v0), pl_pub = []\<rparr>"

definition plain_of :: "('n nodes \<Rightarrow> 'r \<Rightarrow> 'v) \<Rightarrow> ('n, 'r) arena \<Rightarrow> 'v plain" where
  "plain_of shown W = \<lparr>pl_cur = (\<lambda>w t. shown (h_nodes (ar_heap W)) (ar_cur W w t)),
     pl_pub = map (shown (h_nodes (ar_heap W))) (ar_pub W)\<rparr>"

lemma word_room: "unat (c :: uint64) < 2 ^ 64 - 1 \<Longrightarrow> c + 1 \<noteq> 0 \<and> c < c + 1 \<and> unat (c + 1) = unat c + 1"
proof -
  assume a: "unat c < 2 ^ 64 - 1"
  have n: "c + 1 \<noteq> 0"
  proof
    assume "c + 1 = 0"
    then have "c = - 1" by (simp add: eq_neg_iff_add_eq_0)
    then show False using a by (simp add: unsigned_minus_1_eq_mask mask_eq_exp_minus_1)
  qed
  then have "unat (c + 1) = unat c + 1" using unatSuc [of c] by (simp add: add.commute)
  then show ?thesis using n by (simp add: word_less_nat_alt)
qed

lemma upd2_apply: "upd2 g w t a w' t' = (if (w', t') = (w, t) then a else g w' t')"
  by (simp add: upd2_def)

section \<open>The interface\<close>

text \<open>
  \<open>shown N r\<close> is the value of the structure \<open>r\<close> in the memory \<open>N\<close>, \<open>reached N r\<close> its nodes, \<open>fine N e r\<close>
  says that a writer of epoch \<open>e\<close> may write it. A writer without an epoch starts one before it
  writes the first node, or writes nothing: it leaves the structure as it is, or drops all of it.
\<close>

locale owning =
  fixes shown :: "('a owned_node_scheme) nodes \<Rightarrow> 'r \<Rightarrow> 'v"
    and reached :: "('a owned_node_scheme) nodes \<Rightarrow> 'r \<Rightarrow> addr set"
    and fine :: "('a owned_node_scheme) nodes \<Rightarrow> uint64 \<Rightarrow> 'r \<Rightarrow> bool"
    and wr :: "('a owned_node_scheme, 'r, 'op) writing"
    and f :: "'op \<Rightarrow> 'v \<Rightarrow> 'v"
    and r0 :: 'r and v0 :: 'v
  assumes same_law: "(\<And>x. x \<in> reached N r \<Longrightarrow> N' x = N x) \<Longrightarrow>
      shown N' r = shown N r \<and> reached N' r = reached N r \<and> fine N' e r = fine N e r"
    and there_law: "fine N e r \<Longrightarrow> reached N r \<subseteq> dom N"
    and unowned: "fine N e r \<Longrightarrow> owned e' N (reached N r) = {} \<Longrightarrow> fine N e' r"
    and empty_law: "fine N e r0 \<and> reached N r0 = {} \<and> shown N r0 = v0"
    and write_law: "e \<noteq> 0 \<Longrightarrow> tidy H \<Longrightarrow> fine (h_nodes H) e r \<Longrightarrow> \<exists>r' H'. wr op r e H = (r', e, H') \<and>
      changed e H (reached (h_nodes H) r) H' (reached (h_nodes H') r') \<and> fine (h_nodes H') e r' \<and>
      shown (h_nodes H') r' = f op (shown (h_nodes H) r)"
    and fresh_law: "h_epochs H + 1 \<noteq> 0 \<Longrightarrow> fine (h_nodes H) 0 r \<Longrightarrow>
      (\<exists>r'. (r' = r \<or> r' = r0) \<and> wr op r 0 H = (r', 0, H) \<and> f op (shown (h_nodes H) r) = shown (h_nodes H) r') \<or>
      wr op r 0 H = wr op r (h_epochs H + 1) (H\<lparr>h_epochs := h_epochs H + 1\<rparr>)"
begin

text \<open>
  What a writer owns it shows in one structure only, and nobody else shows it; published
  structures show nothing that is owned.
\<close>

definition wok :: "('a owned_node_scheme) heap \<Rightarrow> (nat \<Rightarrow> uint64) \<Rightarrow> (nat \<Rightarrow> nat \<Rightarrow> 'r) \<Rightarrow> 'r list \<Rightarrow> bool" where
  "wok H E C P \<longleftrightarrow> tidy H \<and>
     (\<forall>x nd. h_nodes H x = Some nd \<longrightarrow> n_epoch nd \<noteq> 0 \<and> n_epoch nd \<le> h_epochs H) \<and>
     (\<forall>w. E w \<le> h_epochs H) \<and> (\<forall>w w'. w \<noteq> w' \<longrightarrow> E w = E w' \<longrightarrow> E w = 0) \<and>
     (\<forall>w t. fine (h_nodes H) (E w) (C w t)) \<and>
     (\<forall>w t w' t'. (w, t) \<noteq> (w', t') \<longrightarrow> owned (E w) (h_nodes H) (reached (h_nodes H) (C w t)) \<inter> reached (h_nodes H) (C w' t') = {}) \<and>
     (\<forall>w w' t. w \<noteq> w' \<longrightarrow> owned (E w) (h_nodes H) (reached (h_nodes H) (C w' t)) = {}) \<and>
     (\<forall>v\<in>set P. fine (h_nodes H) 0 v \<and> (\<forall>w. owned (E w) (h_nodes H) (reached (h_nodes H) v) = {}))"

definition arena_ok :: "('a owned_node_scheme, 'r) arena \<Rightarrow> bool" where
  "arena_ok W \<longleftrightarrow> wok (ar_heap W) (ar_epoch W) (ar_cur W) (ar_pub W)"

lemma wokD:
  assumes "wok H E C P"
  shows "tidy H" "h_nodes H x = Some nd \<Longrightarrow> n_epoch nd \<noteq> 0 \<and> n_epoch nd \<le> h_epochs H" "E w \<le> h_epochs H"
    "w \<noteq> w' \<Longrightarrow> E w = E w' \<Longrightarrow> E w = 0" "fine (h_nodes H) (E w) (C w t)"
    "(w, t) \<noteq> (w', t') \<Longrightarrow> owned (E w) (h_nodes H) (reached (h_nodes H) (C w t)) \<inter> reached (h_nodes H) (C w' t') = {}"
    "w \<noteq> w' \<Longrightarrow> owned (E w) (h_nodes H) (reached (h_nodes H) (C w' t)) = {}"
    "v \<in> set P \<Longrightarrow> fine (h_nodes H) 0 v" "v \<in> set P \<Longrightarrow> owned (E w) (h_nodes H) (reached (h_nodes H) v) = {}"
proof -
  note a = assms [unfolded wok_def]
  note b = a [THEN conjunct2] note c = b [THEN conjunct2] note d = c [THEN conjunct2] note e = d [THEN conjunct2]
  note f = e [THEN conjunct2] note g = f [THEN conjunct2] note h = g [THEN conjunct2]
  show "tidy H" by (rule a [THEN conjunct1])
  show "h_nodes H x = Some nd \<Longrightarrow> n_epoch nd \<noteq> 0 \<and> n_epoch nd \<le> h_epochs H" by (rule b [THEN conjunct1, rule_format])
  show "E w \<le> h_epochs H" by (rule c [THEN conjunct1, rule_format])
  show "w \<noteq> w' \<Longrightarrow> E w = E w' \<Longrightarrow> E w = 0" by (rule d [THEN conjunct1, rule_format])
  show "fine (h_nodes H) (E w) (C w t)" by (rule e [THEN conjunct1, rule_format])
  show "(w, t) \<noteq> (w', t') \<Longrightarrow> owned (E w) (h_nodes H) (reached (h_nodes H) (C w t)) \<inter> reached (h_nodes H) (C w' t') = {}"
    by (rule f [THEN conjunct1, rule_format])
  show "w \<noteq> w' \<Longrightarrow> owned (E w) (h_nodes H) (reached (h_nodes H) (C w' t)) = {}" by (rule g [THEN conjunct1, rule_format])
  show "v \<in> set P \<Longrightarrow> fine (h_nodes H) 0 v" "v \<in> set P \<Longrightarrow> owned (E w) (h_nodes H) (reached (h_nodes H) v) = {}"
    using h by (simp_all only: Ball_def)
qed

lemma wokI:
  assumes "tidy H" "\<And>x nd. h_nodes H x = Some nd \<Longrightarrow> n_epoch nd \<noteq> 0 \<and> n_epoch nd \<le> h_epochs H" "\<And>w. E w \<le> h_epochs H"
    "\<And>w w'. w \<noteq> w' \<Longrightarrow> E w = E w' \<Longrightarrow> E w = 0" "\<And>w t. fine (h_nodes H) (E w) (C w t)"
    "\<And>w t w' t'. (w, t) \<noteq> (w', t') \<Longrightarrow> owned (E w) (h_nodes H) (reached (h_nodes H) (C w t)) \<inter> reached (h_nodes H) (C w' t') = {}"
    "\<And>w w' t. w \<noteq> w' \<Longrightarrow> owned (E w) (h_nodes H) (reached (h_nodes H) (C w' t)) = {}"
    "\<And>v. v \<in> set P \<Longrightarrow> fine (h_nodes H) 0 v" "\<And>v w. v \<in> set P \<Longrightarrow> owned (E w) (h_nodes H) (reached (h_nodes H) v) = {}"
  shows "wok H E C P"
proof -
  have b: "\<forall>x nd. h_nodes H x = Some nd \<longrightarrow> n_epoch nd \<noteq> 0 \<and> n_epoch nd \<le> h_epochs H" using assms(2) by blast
  have v: "\<forall>v\<in>set P. fine (h_nodes H) 0 v \<and> (\<forall>w. owned (E w) (h_nodes H) (reached (h_nodes H) v) = {})" using assms(8,9) by simp
  show ?thesis unfolding wok_def by (intro b v conjI allI impI) (fact assms)+
qed

lemma reached_less: "tidy H \<Longrightarrow> fine (h_nodes H) e v \<Longrightarrow> x \<in> reached (h_nodes H) v \<Longrightarrow> x < h_next H"
  using there_law unfolding tidy_def by blast

text \<open>A writer that gets an epoch no node has, or none.\<close>

lemma wok_epoch:
  assumes ok: "wok H E C P" and e: "e = 0 \<or> h_epochs H < e \<and> e \<le> c" and c: "h_epochs H \<le> c"
  shows "wok (H\<lparr>h_epochs := c\<rparr>) (E(w := e)) C P"
proof -
  note D = wokD [OF ok]
  have "n_epoch nd \<noteq> e" if "h_nodes H x = Some nd" for x nd using D(2) [OF that] e by auto
  then have none: "owned e (h_nodes H) S = {}" for S by (auto simp: owned_def)
  have o: "owned ((E(w := e)) u) (h_nodes H) S \<subseteq> owned (E u) (h_nodes H) S" for u S using none by (cases "u = w") simp_all
  show ?thesis
  proof (rule wokI, goal_cases)
    case 1 then show ?case using D(1) by (simp add: tidy_def)
  next
    case (2 x nd) then show ?case using D(2) [of x nd] c by auto
  next
    case (3 u) then show ?case using D(3) [of u] e c by auto
  next
    case (4 u u') then show ?case using D(4) [of u u'] D(3) [of u] D(3) [of u'] e by (auto split: if_splits)
  next
    case (5 u t) then show ?case using D(5) [of u t] unowned [OF D(5) none] by (cases "u = w") simp_all
  next
    case (6 u t u' t') then show ?case using D(6) [OF 6] o [of u "reached (h_nodes H) (C u t)"] by auto
  next
    case (7 u u' t) then show ?case using D(7) [OF 7] o [of u "reached (h_nodes H) (C u' t)"] by auto
  next
    case (8 v) then show ?case using D(8) by simp
  next
    case (9 v u) then show ?case using D(9) [OF 9] o [of u "reached (h_nodes H) v"] by auto
  qed
qed

text \<open>A write by a writer that has an epoch.\<close>

lemma changed_frame:
  assumes ch: "changed e H S H' S'" and t: "tidy H" and g: "fine (h_nodes H) e' u" and d: "owned e (h_nodes H) S \<inter> reached (h_nodes H) u = {}"
  shows "shown (h_nodes H') u = shown (h_nodes H) u" "reached (h_nodes H') u = reached (h_nodes H) u"
    "fine (h_nodes H') e'' u = fine (h_nodes H) e'' u" "x \<in> reached (h_nodes H) u \<Longrightarrow> h_nodes H' x = h_nodes H x"
proof -
  have s: "h_nodes H' x = h_nodes H x" if "x \<in> reached (h_nodes H) u" for x
    using changedD(4) [OF ch, of x] reached_less [OF t g that] d that by blast
  show "shown (h_nodes H') u = shown (h_nodes H) u" "reached (h_nodes H') u = reached (h_nodes H) u"
    "fine (h_nodes H') e'' u = fine (h_nodes H) e'' u" using same_law [of "h_nodes H" u "h_nodes H'" e'', OF s] by blast+
  show "x \<in> reached (h_nodes H) u \<Longrightarrow> h_nodes H' x = h_nodes H x" by (rule s)
qed

lemma wok_set:
  assumes ok: "wok H E C P" and e: "E w \<noteq> 0" and ch: "changed (E w) H (reached (h_nodes H) (C w t)) H' (reached (h_nodes H') v')"
    and v': "fine (h_nodes H') (E w) v'"
  shows "wok H' E (upd2 C w t v') P"
    and "(w', t') \<noteq> (w, t) \<Longrightarrow> shown (h_nodes H') (C w' t') = shown (h_nodes H) (C w' t')"
    and "u \<in> set P \<Longrightarrow> shown (h_nodes H') u = shown (h_nodes H) u"
proof -
  note D = wokD [OF ok] and ch' = changedD [OF ch]
  let ?N = "h_nodes H" and ?N' = "h_nodes H'" and ?S = "reached (h_nodes H) (C w t)"
  have apart_cur: "owned (E w) ?N ?S \<inter> reached ?N (C w' t') = {}" if "(w', t') \<noteq> (w, t)" for w' t'
    using D(6) [of w t w' t'] that by metis
  have apart_pub: "owned (E w) ?N ?S \<inter> reached ?N u = {}" if "u \<in> set P" for u
    using D(9) [OF that, of w] by (auto simp: owned_def)
  note cur = changed_frame [OF ch D(1) D(5) apart_cur] and pub = changed_frame [OF ch D(1) D(8) apart_pub]
  show "shown ?N' (C w' t') = shown ?N (C w' t')" if "(w', t') \<noteq> (w, t)" for w' t' by (rule cur(1) [OF that])
  show "shown ?N' u = shown ?N u" if "u \<in> set P" for u by (rule pub(1) [OF that that])
  have own_cur: "owned e' ?N' (reached ?N' (C w' t')) = owned e' ?N (reached ?N (C w' t'))" if "(w', t') \<noteq> (w, t)" for e' w' t'
    unfolding cur(2) [OF that] by (rule owned_cong) (rule cur(4) [OF that])
  have own_pub: "owned e' ?N' (reached ?N' u) = owned e' ?N (reached ?N u)" if "u \<in> set P" for e' u
    unfolding pub(2) [OF that that] by (rule owned_cong) (rule pub(4) [OF that that])
  have new: "x \<in> ?S \<or> h_next H \<le> x" if "x \<in> reached ?N' v'" for x by (rule ch'(6) [OF that])
  have own_new: "x \<in> owned (E w) ?N ?S \<or> h_next H \<le> x" if "x \<in> owned (E w) ?N' (reached ?N' v')" for x
  proof (rule ccontr)
    assume a: "\<not> ?thesis"
    then have "h_nodes H' x = h_nodes H x" using ch'(4) [of x] by simp
    then show False using a new [of x] that by (auto simp: owned_def)
  qed
  have low: "x < h_next H" if "x \<in> reached ?N (C w' t')" for x w' t' by (rule reached_less [OF D(1) D(5) that])
  have up: "upd2 C w t v' w' t' = (if (w', t') = (w, t) then v' else C w' t')" for w' t' by (simp add: upd2_def)
  show "wok H' E (upd2 C w t v') P"
  proof (rule wokI, goal_cases)
    case 1 show ?case by (rule ch'(1))
  next
    case (2 x nd) then show ?case using ch'(5) [OF 2] D(2) [of x nd] D(3) [of w] e ch'(3) by auto
  next
    case (3 u) show ?case using D(3) ch'(3) by simp
  next
    case (4 u u') then show ?case by (rule D(4))
  next
    case (5 u s) show ?case using v' cur(3) D(5) by (simp add: up del: prod.inject) blast
  next
    case (6 u s u' s')
    consider "(u, s) = (w, t)" | "(u, s) \<noteq> (w, t)" "(u', s') = (w, t)" | "(u, s) \<noteq> (w, t)" "(u', s') \<noteq> (w, t)" by blast
    then show ?case
    proof cases
      case 1
      then have o: "(u', s') \<noteq> (w, t)" using 6 by metis
      have "x \<notin> reached ?N (C u' s')" if "x \<in> owned (E w) ?N' (reached ?N' v')" for x
        using own_new [OF that] apart_cur [OF o] low [of x u' s'] by force
      then show ?thesis using 1 o cur(2) [OF o] by (auto simp: up)
    next
      case 2
      have "x \<notin> reached ?N' v'" if "x \<in> owned (E u) ?N (reached ?N (C u s))" for x
        using new [of x] D(6) [of u s w t] low [of x u s] that 2(1) by (force simp: owned_def)
      then show ?thesis using 2 own_cur [OF 2(1)] by (auto simp: up)
    next
      case 3
      then show ?thesis using D(6) [OF 6] own_cur [OF 3(1)] cur(2) [OF 3(2)] by (auto simp: up)
    qed
  next
    case (7 u u' s)
    show ?case
    proof (cases "(u', s) = (w, t)")
      case True
      have False if x: "x \<in> reached ?N' v'" "?N' x = Some nd" "n_epoch nd = E u" for x nd
      proof -
        have "n_epoch nd \<noteq> E w" using D(4) [of u w] 7 True x(3) e by auto
        then have "?N x = Some nd" using ch'(5) [OF x(2)] by blast
        moreover from this have "x \<in> ?S" using new [OF x(1)] D(1) by (auto simp: tidy_def)
        ultimately have "x \<in> owned (E u) ?N ?S" using x(3) by (auto simp: owned_def)
        then show False using D(7) [of u w t] 7 True by auto
      qed
      then show ?thesis using True by (auto simp: up owned_def)
    next
      case False
      then show ?thesis using own_cur [OF False] D(7) [OF 7] by (simp add: up del: prod.inject)
    qed
  next
    case (8 u) then show ?case using pub(3) D(8) by blast
  next
    case (9 u w') then show ?case using own_pub D(9) by simp
  qed
qed

lemma wok_load:
  assumes ok: "wok H E C P" and v: "v \<in> set P"
  shows "wok H E (upd2 C w t v) P"
proof -
  note D = wokD [OF ok]
  show ?thesis
  proof (rule wokI; (rule D; assumption)?)
    show "fine (h_nodes H) (E u) (upd2 C w t v u s)" for u s
      using D(5) unowned [OF D(8) [OF v] D(9) [OF v]] by (simp add: upd2_apply)
    show "owned (E u) (h_nodes H) (reached (h_nodes H) (upd2 C w t v u s)) \<inter> reached (h_nodes H) (upd2 C w t v u' s') = {}"
      if "(u, s) \<noteq> (u', s')" for u s u' s'
      using D(6) [OF that] D(9) [OF v, of u] by (auto simp: upd2_apply owned_def)
    show "owned (E u) (h_nodes H) (reached (h_nodes H) (upd2 C w t v u' s)) = {}" if "u \<noteq> u'" for u u' s
      using D(7) [OF that] D(9) [OF v] by (simp add: upd2_apply)
  qed
qed

lemma wok_empty:
  assumes ok: "wok H E C P"
  shows "wok H E (upd2 C w t r0) P"
proof -
  note D = wokD [OF ok]
  show ?thesis
  proof (rule wokI; (rule D; assumption)?)
    show "fine (h_nodes H) (E u) (upd2 C w t r0 u s)" for u s using D(5) empty_law by (simp add: upd2_apply)
    show "owned (E u) (h_nodes H) (reached (h_nodes H) (upd2 C w t r0 u s)) \<inter> reached (h_nodes H) (upd2 C w t r0 u' s') = {}"
      if "(u, s) \<noteq> (u', s')" for u s u' s'
      using D(6) [OF that] empty_law by (simp add: upd2_apply owned_def)
    show "owned (E u) (h_nodes H) (reached (h_nodes H) (upd2 C w t r0 u' s)) = {}" if "u \<noteq> u'" for u u' s
      using D(7) [OF that] empty_law by (simp add: upd2_apply owned_def)
  qed
qed

text \<open>An arena has room as long as its epoch counter cannot wrap.\<close>

lemma act_correct:
  assumes ok: "arena_ok W" and room: "unat (h_epochs (ar_heap W)) < 2 ^ 64 - 1"
  shows "arena_ok (act wr r0 a W) \<and> plain_of shown (act wr r0 a W) = act_plain f v0 a (plain_of shown W) \<and>
    unat (h_epochs (ar_heap (act wr r0 a W))) \<le> unat (h_epochs (ar_heap W)) + 1"
proof (cases a)
  case (AWrite w t op)
  let ?H = "ar_heap W" and ?E = "ar_epoch W" and ?C = "ar_cur W" and ?P = "ar_pub W" and ?v = "ar_cur W w t"
  have k: "wok ?H ?E ?C ?P" using ok by (simp add: arena_ok_def)
  note room = word_room [OF room]
  show ?thesis
  proof (cases "?E w = 0 \<and> (\<exists>r'. (r' = ?v \<or> r' = r0) \<and> wr op ?v 0 ?H = (r', 0, ?H) \<and> f op (shown (h_nodes ?H) ?v) = shown (h_nodes ?H) r')")
    case True
    then obtain r' where r': "?E w = 0" "r' = ?v \<or> r' = r0" "wr op ?v 0 ?H = (r', 0, ?H)" "f op (shown (h_nodes ?H) ?v) = shown (h_nodes ?H) r'"
      by blast
    have "upd2 ?C w t ?v = ?C" by (simp add: upd2_def)
    then have "wok ?H ?E (upd2 ?C w t r') ?P" using k wok_empty [OF k] r'(2) by metis
    moreover have "act wr r0 a W = W\<lparr>ar_cur := upd2 ?C w t r'\<rparr>"
      using AWrite r'(1,3) by (simp add: fun_upd_idem)
    moreover have "(\<lambda>u s. shown N (upd2 ?C w t r' u s)) = upd2 (\<lambda>u s. shown N (?C u s)) w t (shown N r')" for N
      by (intro ext) (simp add: upd2_apply)
    ultimately show ?thesis using AWrite r'(4) by (simp add: arena_ok_def plain_of_def)
  next
    case False
    have "\<exists>H1 e. wok H1 (?E(w := e)) ?C ?P \<and> e \<noteq> 0 \<and> wr op ?v (?E w) ?H = wr op ?v e H1 \<and>
        h_nodes H1 = h_nodes ?H \<and> unat (h_epochs H1) \<le> unat (h_epochs ?H) + 1"
    proof (cases "?E w = 0")
      case True
      then have "wr op ?v 0 ?H = wr op ?v (h_epochs ?H + 1) (?H\<lparr>h_epochs := h_epochs ?H + 1\<rparr>)"
        using fresh_law [of ?H ?v op] wokD(5) [OF k, of w t] room False by auto
      then show ?thesis using wok_epoch [OF k, of "h_epochs ?H + 1" "h_epochs ?H + 1" w] room less_imp_le [of "h_epochs ?H" "h_epochs ?H + 1"] True
        by (intro exI [of _ "?H\<lparr>h_epochs := h_epochs ?H + 1\<rparr>"] exI [of _ "h_epochs ?H + 1"]) simp
    next
      case False
      then show ?thesis using k by (intro exI [of _ ?H] exI [of _ "?E w"]) simp
    qed
    then obtain H1 e where H1: "wok H1 (?E(w := e)) ?C ?P" "e \<noteq> 0" "wr op ?v (?E w) ?H = wr op ?v e H1"
        "h_nodes H1 = h_nodes ?H" "unat (h_epochs H1) \<le> unat (h_epochs ?H) + 1" by blast
    have g1: "fine (h_nodes H1) e ?v" using wokD(5) [OF H1(1), of w t] by simp
    obtain v' H' where h: "wr op ?v e H1 = (v', e, H')" "changed e H1 (reached (h_nodes H1) ?v) H' (reached (h_nodes H') v')"
        "fine (h_nodes H') e v'" "shown (h_nodes H') v' = f op (shown (h_nodes H1) ?v)"
      using write_law [OF H1(2) wokD(1) [OF H1(1)] g1, of op] by blast
    note S = wok_set [OF H1(1), of w t H' v', simplified, OF H1(2) h(2,3)]
    have "act wr r0 a W = W\<lparr>ar_heap := H', ar_epoch := ?E(w := e), ar_cur := upd2 ?C w t v'\<rparr>"
      using AWrite H1(3) h(1) by simp
    moreover have "(\<lambda>u s. shown (h_nodes H') (upd2 ?C w t v' u s)) =
        upd2 (\<lambda>u s. shown (h_nodes ?H) (?C u s)) w t (f op (shown (h_nodes ?H) ?v))"
      using h(4) S(2) H1(4) by (intro ext) (auto simp: upd2_apply)
    then have "plain_of shown (W\<lparr>ar_heap := H', ar_epoch := ?E(w := e), ar_cur := upd2 ?C w t v'\<rparr>) = act_plain f v0 a (plain_of shown W)"
      using AWrite S(3) H1(4) by (simp add: plain_of_def)
    ultimately show ?thesis using S(1) changedD(3) [OF h(2)] H1(5) by (simp add: arena_ok_def)
  qed
next
  case (AFreeze w)
  have "wok (ar_heap W) ((ar_epoch W)(w := 0)) (ar_cur W) (ar_pub W)"
    using wok_epoch [OF ok [unfolded arena_ok_def], of 0 "h_epochs (ar_heap W)" w] by simp
  then show ?thesis using AFreeze by (simp add: arena_ok_def Freeze_epoch_def plain_of_def)
next
  case (APublish w t)
  have k: "wok (ar_heap W) ((ar_epoch W)(w := 0)) (ar_cur W) (ar_pub W)"
    using wok_epoch [OF ok [unfolded arena_ok_def], of 0 "h_epochs (ar_heap W)" w] by simp
  note D = wokD [OF k]
  have none: "owned 0 (h_nodes (ar_heap W)) S = {}" for S using D(2) by (fastforce simp: owned_def)
  have "wok (ar_heap W) ((ar_epoch W)(w := 0)) (ar_cur W) (ar_pub W @ [ar_cur W w t])"
  proof (rule wokI; (rule D; assumption)?)
    show "fine (h_nodes (ar_heap W)) 0 v" if "v \<in> set (ar_pub W @ [ar_cur W w t])" for v
      using that D(8) unowned [OF D(5) none] by auto
    show "owned (((ar_epoch W)(w := 0)) u) (h_nodes (ar_heap W)) (reached (h_nodes (ar_heap W)) v) = {}"
      if "v \<in> set (ar_pub W @ [ar_cur W w t])" for u v
      using that D(9) [of v u] D(7) [of u w t] none by (cases "u = w") auto
  qed
  then show ?thesis using APublish by (simp add: arena_ok_def Freeze_epoch_def plain_of_def)
next
  case (ALoad w t k)
  show ?thesis
  proof (cases "k < length (ar_pub W)")
    case True
    then have "wok (ar_heap W) (ar_epoch W) (upd2 (ar_cur W) w t (ar_pub W ! k)) (ar_pub W)"
      using wok_load [OF ok [unfolded arena_ok_def]] by simp
    moreover have "(\<lambda>u s. shown N (upd2 (ar_cur W) w t (ar_pub W ! k) u s)) =
        upd2 (\<lambda>u s. shown N (ar_cur W u s)) w t (shown N (ar_pub W ! k))" for N
      by (intro ext) (simp add: upd2_apply)
    ultimately show ?thesis using ALoad True by (simp add: arena_ok_def plain_of_def)
  next
    case False
    then show ?thesis using ALoad ok by (simp add: plain_of_def)
  qed
next
  case (AEmpty w t)
  have "wok (ar_heap W) (ar_epoch W) (upd2 (ar_cur W) w t r0) (ar_pub W)" by (rule wok_empty [OF ok [unfolded arena_ok_def]])
  moreover have "(\<lambda>u s. shown N (upd2 (ar_cur W) w t r0 u s)) = upd2 (\<lambda>u s. shown N (ar_cur W u s)) w t v0" for N
    using empty_law [of N] by (intro ext) (simp add: upd2_apply)
  ultimately show ?thesis using AEmpty by (simp add: arena_ok_def plain_of_def)
qed

text \<open>Every run is a run over values, and what has been published stays as it was.\<close>

lemma arena_run:
  assumes "length as < 2 ^ 64 - 1"
  shows "arena_ok (fold (act wr r0) as (arena0 r0)) \<and> plain_of shown (fold (act wr r0) as (arena0 r0)) = fold (act_plain f v0) as (plain0 v0) \<and>
    unat (h_epochs (ar_heap (fold (act wr r0) as (arena0 r0)))) \<le> length as"
  using assms
proof (induction as rule: rev_induct)
  case Nil
  have "arena_ok (arena0 r0)"
    using empty_law by (simp add: arena_ok_def arena0_def wok_def tidy_def owned_def empty_heap_def)
  then show ?case using empty_law by (simp add: arena0_def plain_of_def plain0_def empty_heap_def)
next
  case (snoc a as)
  then have ih: "arena_ok (fold (act wr r0) as (arena0 r0))" "plain_of shown (fold (act wr r0) as (arena0 r0)) = fold (act_plain f v0) as (plain0 v0)"
      "unat (h_epochs (ar_heap (fold (act wr r0) as (arena0 r0)))) \<le> length as" by simp_all
  have "unat (h_epochs (ar_heap (fold (act wr r0) as (arena0 r0)))) < 2 ^ 64 - 1" using ih(3) snoc.prems by simp
  from act_correct [OF ih(1) this, of a] show ?case using ih(2,3) by auto
qed

lemma published_stay:
  assumes "length as + length bs < 2 ^ 64 - 1"
  defines "W \<equiv> fold (act wr r0) as (arena0 r0)" and "U \<equiv> fold (act wr r0) (as @ bs) (arena0 r0)"
  shows "plain_of shown W = fold (act_plain f v0) as (plain0 v0)" "plain_of shown U = fold (act_plain f v0) (as @ bs) (plain0 v0)"
    "take (length (ar_pub W)) (pl_pub (plain_of shown U)) = pl_pub (plain_of shown W)"
proof -
  have keeps: "take (length (pl_pub X)) (pl_pub (fold (act_plain f v0) cs X)) = pl_pub X" for cs and X :: "'v plain"
  proof (induction cs rule: rev_induct)
    case (snoc c cs)
    have "\<exists>ys. pl_pub (act_plain f v0 c Y) = pl_pub Y @ ys" for Y :: "'v plain" by (cases c) auto
    then obtain ys where "pl_pub (act_plain f v0 c (fold (act_plain f v0) cs X)) = pl_pub (fold (act_plain f v0) cs X) @ ys" by blast
    moreover have "length (pl_pub X) \<le> length (pl_pub (fold (act_plain f v0) cs X))"
      using snoc by (metis length_take min.cobounded1 take_all_iff nat_le_linear)
    ultimately show ?case using snoc by simp
  qed simp
  show w: "plain_of shown W = fold (act_plain f v0) as (plain0 v0)" and u: "plain_of shown U = fold (act_plain f v0) (as @ bs) (plain0 v0)"
    using arena_run [of as] arena_run [of "as @ bs"] assms(1) by (simp_all add: W_def U_def)
  have "length (ar_pub W) = length (pl_pub (plain_of shown W))" by (simp add: plain_of_def)
  then show "take (length (ar_pub W)) (pl_pub (plain_of shown U)) = pl_pub (plain_of shown W)"
    unfolding u w using keeps [of "fold (act_plain f v0) as (plain0 v0)" bs] by simp
qed

end

end
