(* ===== verification/BitmapWorld.thy ===== *)
theory BitmapWorld
  imports BitmapHeap Arena
begin

text \<open>
  The bitmaps of BitmapHeap in an arena, as the sets of row ids that the bitmap indexes of a
  database keep: they interpret the locale of the theory Arena, so every run of an arena of
  bitmaps is a run over the values of the theory Bitmap.
\<close>

section \<open>Bitmaps may be used as values\<close>

datatype bm_op = BSet uint32 | BClear uint32

fun hb_apply :: "(bhnode, hbitmap, bm_op) writing" where
  "hb_apply (BSet i) b w H = (case HB_Set b i w H of (b', added, w', H') \<Rightarrow> (b', w', H'))"
| "hb_apply (BClear i) b w H = (case HB_Clear b i w H of (b', removed, w', H') \<Rightarrow> (b', w', H'))"

fun bm_apply :: "bm_op \<Rightarrow> bitmap \<Rightarrow> bitmap" where
  "bm_apply (BSet i) b = fst (Set_id b i)"
| "bm_apply (BClear i) b = fst (Clear_id b i)"

text \<open>The first write of a writer without an epoch starts one, unless there is nothing to write.\<close>

lemma node_at_epochs [simp]: "node_at (H\<lparr>h_epochs := c\<rparr>) x = node_at H x"
  by (simp add: node_at_def)

lemma hb_has_node_epochs [simp]: "hb_has_node h x i (H\<lparr>h_epochs := c\<rparr>) = hb_has_node h x i H"
  by (induction h arbitrary: x) (simp_all add: Let_def)

lemma HB_Has_epochs [simp]: "HB_Has b i (H\<lparr>h_epochs := c\<rparr>) = HB_Has b i H"
  by (simp add: HB_Has_def split: option.split)

lemma hb_own_fresh: "h_epochs H + 1 \<noteq> 0 \<Longrightarrow> hb_own x 0 H = hb_own x (h_epochs H + 1) (H\<lparr>h_epochs := h_epochs H + 1\<rparr>)"
  by (simp add: hb_own_def begin_epoch_def)

lemma hb_set_old: "hb_has_node h x i H \<Longrightarrow> hb_set h x i w H = (x, False, w, H)"
  by (induction h arbitrary: x) (simp_all add: Let_def split: if_splits)

lemma hb_set_fresh:
  assumes "h_epochs H + 1 \<noteq> 0"
  shows "\<not> hb_has_node h x i H \<Longrightarrow> hb_set h x i 0 H = hb_set h x i (h_epochs H + 1) (H\<lparr>h_epochs := h_epochs H + 1\<rparr>)"
proof (induction h arbitrary: x)
  case 0
  then show ?case by (simp add: hb_own_fresh [OF assms])
next
  case (Suc h)
  then show ?case
    by (cases "bit (bh_present (node_at H x)) (slot_of h i)") (simp_all add: Let_def hb_own_fresh [OF assms])
qed

lemma HB_Set_fresh:
  assumes "h_epochs H + 1 \<noteq> 0" and "\<not> HB_Has b i H"
  shows "HB_Set b i 0 H = HB_Set b i (h_epochs H + 1) (H\<lparr>h_epochs := h_epochs H + 1\<rparr>)"
proof (cases b)
  case None
  then show ?thesis using assms(1) by (simp add: HB_Set_def begin_epoch_def)
next
  case (Some x)
  let ?h = "bh_height (node_at H x)"
  show ?thesis
  proof (cases "beyond ?h i")
    case True
    then show ?thesis using Some assms(1) by (simp add: HB_Set_def hb_grow.simps [of ?h] begin_epoch_def)
  next
    case False
    then have "\<not> hb_has_node ?h x i H" using assms(2) Some by (simp add: HB_Has_def)
    then show ?thesis using Some False hb_set_fresh [OF assms(1)] by (simp add: HB_Set_def hb_grow.simps [of ?h])
  qed
qed

lemma HB_Set_old: "HB_Has b i H \<Longrightarrow> HB_Set b i w H = (b, False, w, H)"
  by (auto simp: HB_Has_def HB_Set_def hb_set_old hb_grow.simps split: option.splits if_splits)

lemma HB_Clear_fresh:
  assumes "h_epochs H + 1 \<noteq> 0" and "bm_fine (h_nodes H) e b"
  shows "HB_Clear b i 0 H = (b, False, 0, H) \<and> \<not> HB_Has b i H \<or>
    HB_Clear b i 0 H = (None, True, 0, H) \<and> fst (Clear_id (bm_of (h_nodes H) b) i) = None \<or>
    HB_Clear b i 0 H = HB_Clear b i (h_epochs H + 1) (H\<lparr>h_epochs := h_epochs H + 1\<rparr>)"
proof (cases "HB_Has b i H")
  case False
  then show ?thesis by (cases b) (simp_all add: HB_Clear_def)
next
  case True
  then obtain x where x: "b = Some x" by (cases b) (simp_all add: HB_Has_def)
  let ?h = "bh_height (node_at H x)"
  show ?thesis
  proof (cases "bh_count (node_at H x) = 1")
    case one: True
    obtain h where h: "h = ?h" "bgood h (h_nodes H) e x" "bm_of (h_nodes H) b = Some (btree h (h_nodes H) x)" "n_height (btree h (h_nodes H) x) = h"
      using bm_fineD [OF assms(2) [unfolded x]] unfolding x by blast
    obtain nd where nd: "h_nodes H x = Some nd" using bgood_root [OF h(2)] by blast
    then have "n_count (btree h (h_nodes H) x) = 1" using btree_root(1) [OF nd, of h] one by simp
    then have "clear_node h (btree h (h_nodes H) x) i = None" by (cases h) simp_all
    then have "fst (Clear_id (bm_of (h_nodes H) b) i) = None"
      using h(3,4) HB_Has_correct [OF assms(2), of i] True by (simp add: Clear_id_def)
    moreover have "hb_clear ?h x i 0 H = (None, 0, H)" using one by (cases ?h) simp_all
    ultimately show ?thesis using True x by (simp add: HB_Clear_def)
  next
    case False
    then have "hb_clear ?h x i 0 H = hb_clear ?h x i (h_epochs H + 1) (H\<lparr>h_epochs := h_epochs H + 1\<rparr>)"
      by (cases ?h) (simp_all add: hb_own_fresh [OF assms(1)])
    then show ?thesis using True x by (simp add: HB_Clear_def)
  qed
qed

lemma bm_same:
  assumes "\<And>x. x \<in> bm_reach N r \<Longrightarrow> N' x = N x"
  shows "bm_of N' r = bm_of N r \<and> bm_reach N' r = bm_reach N r \<and> bm_fine N' e r = bm_fine N e r"
proof (cases r)
  case (Some x)
  have "root_height N' x = root_height N x" using assms [of x] Some by (simp add: bm_reach_def root_height_def)
  then show ?thesis using bsame_nodes [of "root_height N x" N x N'] assms Some by (simp add: bm_of_def bm_reach_def bm_fine_def)
qed (simp add: bm_of_def bm_reach_def bm_fine_def)

lemma bgood_unowned:
  assumes "bgood h N e x" and "owned e' N (breach h N x) = {}"
  shows "bgood h N e' x"
  using assms
proof (induction h arbitrary: x)
  case (Suc h)
  then obtain nd where nd: "N x = Some nd" "\<forall>k\<in>set (bh_kids nd). bgood h N e k \<and> x \<notin> breach h N k" by auto
  have none: "owned e' N (breach h N k) = {}" if "k \<in> set (bh_kids nd)" for k
    using Suc.prems(2) nd(1) that by (auto simp: owned_def)
  have "bsep h N e' a b" if "a \<in> set (bh_kids nd)" for a b using none [OF that] by (auto simp: bsep_def owned_def)
  then have "sorted_wrt (bsep h N e') (bh_kids nd)" by (simp add: sorted_wrt_iff_nth_less)
  then show ?case using nd Suc.IH none by auto
qed simp

lemma hb_apply_correct:
  assumes "e \<noteq> 0" "tidy H" "bm_fine (h_nodes H) e r"
  shows "\<exists>r' H'. hb_apply op r e H = (r', e, H') \<and> changed e H (bm_reach (h_nodes H) r) H' (bm_reach (h_nodes H') r') \<and>
    bm_fine (h_nodes H') e r' \<and> bm_of (h_nodes H') r' = bm_apply op (bm_of (h_nodes H) r)"
proof (cases op)
  case (BSet i)
  obtain b' added H' where "HB_Set r i e H = (b', added, e, H')" "changed e H (bm_reach (h_nodes H) r) H' (bm_reach (h_nodes H') b')"
      "bm_fine (h_nodes H') e b'" "Set_id (bm_of (h_nodes H) r) i = (bm_of (h_nodes H') b', added)"
    using HB_Set_correct [OF assms] by blast
  then show ?thesis unfolding BSet by simp
next
  case (BClear i)
  obtain b' removed H' where "HB_Clear r i e H = (b', removed, e, H')" "changed e H (bm_reach (h_nodes H) r) H' (bm_reach (h_nodes H') b')"
      "bm_fine (h_nodes H') e b'" "Clear_id (bm_of (h_nodes H) r) i = (bm_of (h_nodes H') b', removed)"
    using HB_Clear_correct [OF assms] by blast
  then show ?thesis unfolding BClear by simp
qed

lemma Set_id_old:
  assumes wf: "bm_wf b" and "Has b i"
  shows "fst (Set_id b i) = b"
proof -
  have "insert (unat i) (bm_set b) = bm_set b" using assms Has_iff [OF wf] by blast
  moreover obtain b' added where s: "Set_id b i = (b', added)" by (cases "Set_id b i")
  ultimately show ?thesis using Set_id_correct [OF wf s] bm_set_inject [OF _ wf, of b'] by simp
qed

lemma hb_apply_fresh:
  assumes "h_epochs H + 1 \<noteq> 0" "bm_fine (h_nodes H) 0 r"
  shows "(\<exists>r'. (r' = r \<or> r' = None) \<and> hb_apply op r 0 H = (r', 0, H) \<and> bm_apply op (bm_of (h_nodes H) r) = bm_of (h_nodes H) r') \<or>
    hb_apply op r 0 H = hb_apply op r (h_epochs H + 1) (H\<lparr>h_epochs := h_epochs H + 1\<rparr>)"
proof (cases op)
  case (BSet i)
  have "bm_wf (bm_of (h_nodes H) r)" using assms(2) by (simp add: bm_fine_def)
  note old = Set_id_old [OF this, of i] and has = HB_Has_correct [OF assms(2), of i]
  show ?thesis
  proof (cases "HB_Has r i H")
    case True
    then show ?thesis unfolding BSet using HB_Set_old [OF True] old has by simp
  next
    case False
    then show ?thesis unfolding BSet using HB_Set_fresh [OF assms(1)] by simp
  qed
next
  case (BClear i)
  note has = HB_Has_correct [OF assms(2), of i]
  show ?thesis using HB_Clear_fresh [OF assms, of i]
  proof (elim disjE conjE)
    assume "HB_Clear r i 0 H = (r, False, 0, H)" "\<not> HB_Has r i H"
    then show ?thesis unfolding BClear using has by (simp add: Clear_id_def)
  next
    assume "HB_Clear r i 0 H = (None, True, 0, H)" "fst (Clear_id (bm_of (h_nodes H) r) i) = None"
    then show ?thesis unfolding BClear by (simp add: bm_of_def)
  next
    assume "HB_Clear r i 0 H = HB_Clear r i (h_epochs H + 1) (H\<lparr>h_epochs := h_epochs H + 1\<rparr>)"
    then show ?thesis unfolding BClear by simp
  qed
qed

interpretation bitmaps: owning bm_of bm_reach bm_fine hb_apply bm_apply None None
proof
  show "bm_of N' r = bm_of N r \<and> bm_reach N' r = bm_reach N r \<and> bm_fine N' e r = bm_fine N e r"
    if "\<And>x. x \<in> bm_reach N r \<Longrightarrow> N' x = N x" for N N' e r
    using that by (rule bm_same)
  show "bm_reach N r \<subseteq> dom N" if "bm_fine N e r" for N e r
    using that bgood_reach [of "root_height N (the r)" N e "the r"] by (cases r) (simp_all add: bm_fine_def bm_reach_def)
  show "bm_fine N e' r" if "bm_fine N e r" "owned e' N (bm_reach N r) = {}" for N e e' r
    using that bgood_unowned by (cases r) (auto simp: bm_fine_def bm_reach_def)
  show "bm_fine N e None \<and> bm_reach N None = {} \<and> bm_of N None = None" for N e
    by (simp add: bm_fine_def bm_reach_def bm_of_def bm_wf_def)
  show "\<exists>r' H'. hb_apply op r e H = (r', e, H') \<and> changed e H (bm_reach (h_nodes H) r) H' (bm_reach (h_nodes H') r') \<and>
      bm_fine (h_nodes H') e r' \<and> bm_of (h_nodes H') r' = bm_apply op (bm_of (h_nodes H) r)"
    if "e \<noteq> 0" "tidy H" "bm_fine (h_nodes H) e r" for e H r op
    using that by (rule hb_apply_correct)
  show "(\<exists>r'. (r' = r \<or> r' = None) \<and> hb_apply op r 0 H = (r', 0, H) \<and> bm_apply op (bm_of (h_nodes H) r) = bm_of (h_nodes H) r') \<or>
      hb_apply op r 0 H = hb_apply op r (h_epochs H + 1) (H\<lparr>h_epochs := h_epochs H + 1\<rparr>)"
    if "h_epochs H + 1 \<noteq> 0" "bm_fine (h_nodes H) 0 r" for H r op
    using that by (rule hb_apply_fresh)
qed

text \<open>
  C35: bitmaps may be used as values. However many writers set and clear ids in one memory,
  mutating in place what they created since their last Freeze, every run computes what the run
  over plain values computes, and every bitmap published on the way still has, at the end, the
  ids it was published with.
\<close>
theorem published_bitmaps_stay:
  fixes as bs :: "bm_op action list"
  assumes "length as + length bs < 2 ^ 64 - 1"
  defines "W \<equiv> fold (act hb_apply None) as (arena0 None)" and "U \<equiv> fold (act hb_apply None) (as @ bs) (arena0 None)"
  shows "plain_of bm_of W = fold (act_plain bm_apply None) as (plain0 None) \<and>
    plain_of bm_of U = fold (act_plain bm_apply None) (as @ bs) (plain0 None) \<and>
    take (length (ar_pub W)) (pl_pub (plain_of bm_of U)) = pl_pub (plain_of bm_of W)"
  using bitmaps.published_stay [OF assms(1)] unfolding W_def U_def by blast

lemma published_bitmaps_stay_witness:
  "pl_pub (plain_of bm_of (fold (act hb_apply None)
      [AWrite 0 0 (BSet 5), APublish 0 0, AWrite 0 0 (BSet 70000), AWrite 0 0 (BClear 5)] (arena0 None))) = [fst (Set_id None 5)]"
  using published_bitmaps_stay [of "[AWrite 0 0 (BSet 5), APublish 0 0]" "[AWrite 0 0 (BSet 70000), AWrite 0 0 (BClear 5)]"]
  by (simp add: plain0_def upd2_def del: act.simps)

end
