(* ===== verification/RowTable.thy ===== *)
theory RowTable
  imports Prelude
begin

text \<open>
  The interface of the row table: a persistent vector from 32-bit row ids to objects. A
  write may fill the table as long as one id stays unset, because the source counts the set
  values in 32 bits. Clients are the row bookkeeping of bitmap indexes and the reads that map
  row ids to rows.
\<close>

locale row_table =
  fixes good :: "'t \<Rightarrow> bool" and none_set :: 't and get :: "'t \<Rightarrow> uint32 \<Rightarrow> 'v option"
    and put :: "'t \<Rightarrow> uint32 \<Rightarrow> 'v option \<Rightarrow> 't"
  assumes none_law: "good none_set \<and> get none_set i = None"
    and put_law: "good t \<Longrightarrow> (if k = i then v else get t k) = None \<Longrightarrow>
      good (put t i v) \<and> get (put t i v) j = (if j = i then v else get t j)"
begin

lemma get_put: "good t \<Longrightarrow> (if k = i then v else get t k) = None \<Longrightarrow>
    get (put t i v) j = (if j = i then v else get t j)"
  using put_law by blast

lemma good_put: "good t \<Longrightarrow> (if k = i then v else get t k) = None \<Longrightarrow> good (put t i v)"
  using put_law by blast

text \<open>Unsetting always has room.\<close>

lemma unset: "good t \<Longrightarrow> good (put t i None) \<and> get (put t i None) j = (if j = i then None else get t j)"
  using put_law [of t i i None] by simp

text \<open>A batch of writes that leaves some id \<open>k\<close> unset throughout is a map update.\<close>

lemma put_list:
  "good t \<Longrightarrow> get t k = None \<Longrightarrow> k \<notin> fst ` set ps \<Longrightarrow>
   good (fold (\<lambda>(i, v) t. put t i v) ps t) \<and>
   get (fold (\<lambda>(i, v) t. put t i v) ps t) j = (case map_of (rev ps) j of None \<Rightarrow> get t j | Some v \<Rightarrow> v)"
proof (induction ps arbitrary: t)
  case (Cons p ps)
  obtain i v where p: "p = (i, v)" by fastforce
  have k: "(if k = i then v else get t k) = None" using Cons.prems p by auto
  have g: "good (put t i v)" by (rule good_put [OF Cons.prems(1) k])
  have "get (put t i v) k = None" using get_put [OF Cons.prems(1) k, of k] k by simp
  moreover have "k \<notin> fst ` set ps" using Cons.prems(3) by simp
  ultimately have ih: "good (fold (\<lambda>(i, v) t. put t i v) ps (put t i v)) \<and>
      get (fold (\<lambda>(i, v) t. put t i v) ps (put t i v)) j =
        (case map_of (rev ps) j of None \<Rightarrow> get (put t i v) j | Some v \<Rightarrow> v)"
    using Cons.IH [OF g] by blast
  then show ?case
    using get_put [OF Cons.prems(1) k, of j] by (simp add: p map_add_def split: option.splits)
qed simp

text \<open>A write is seen by a later read of the same id and of no other.\<close>

lemma put_put_same:
  "good t \<Longrightarrow> get t k = None \<Longrightarrow> k \<noteq> i \<Longrightarrow> get (put (put t i v) i w) j = (if j = i then w else get t j)"
proof -
  assume t: "good t" "get t k = None" "k \<noteq> i"
  then have k: "(if k = i then v else get t k) = None" by simp
  have g: "good (put t i v)" by (rule good_put [OF t(1) k])
  have "(if k = i then w else get (put t i v) k) = None" using t get_put [OF t(1) k, of k] by simp
  then show ?thesis using get_put [OF g] get_put [OF t(1) k, of j] by simp
qed

end

end
