(* ===== verification/Pvec.thy ===== *)
theory Pvec
  imports RowTable
begin

text \<open>
  The persistent vector of \<^verbatim>\<open>internal/pvec/pvec.go\<close>: a trie of leaves of 16 values under
  directory nodes of 32 children. A nil value is None. Vectors are immutable values here; the
  source's Writer mutates in place only nodes it created since its last Freeze.
\<close>

section \<open>Vectors\<close>

datatype 'v pnode =
  PNode (p_used: uint32) (p_vals: "'v option list") (p_kids: "'v pnode option list")

record 'v vector =
  v_root :: "'v pnode option"
  v_height :: nat

definition leafSize :: nat where
  "leafSize = 16"

definition innerSize :: nat where
  "innerSize = 32"

definition newLeaf :: "'v pnode" where
  "newLeaf = PNode 0 (replicate leafSize None) []"

definition newInner :: "'v pnode" where
  "newInner = PNode 0 [] (replicate innerSize None)"

definition empty_vector :: "'v vector" where
  "empty_vector = \<lparr>v_root = None, v_height = 0\<rparr>"

definition pspan :: "nat \<Rightarrow> nat" where
  "pspan h = 4 + 5 * h"

definition pbeyond :: "nat \<Rightarrow> uint32 \<Rightarrow> bool" where
  "pbeyond h i \<longleftrightarrow> pspan h < 32 \<and> drop_bit (pspan h) i \<noteq> 0"

definition leaf_slot :: "uint32 \<Rightarrow> nat" where
  "leaf_slot i = unat (i AND 15)"

definition pslot :: "nat \<Rightarrow> uint32 \<Rightarrow> nat" where
  "pslot h i = unat (drop_bit (pspan h) i AND 31)"

section \<open>Reading\<close>

definition VLen :: "'v vector \<Rightarrow> int" where
  "VLen v = (case v_root v of None \<Rightarrow> 0 | Some n \<Rightarrow> uint (p_used n))"

primrec leaf_at :: "nat \<Rightarrow> 'v pnode option \<Rightarrow> uint32 \<Rightarrow> 'v pnode option" where
  "leaf_at 0 n i = n"
| "leaf_at (Suc h) n i = (case n of None \<Rightarrow> None | Some m \<Rightarrow> leaf_at h (p_kids m ! pslot h i) i)"

definition leaf :: "'v vector \<Rightarrow> uint32 \<Rightarrow> 'v pnode option" where
  "leaf v i = (if v_root v = None \<or> pbeyond (v_height v) i then None else leaf_at (v_height v) (v_root v) i)"

definition Get :: "'v vector \<Rightarrow> uint32 \<Rightarrow> 'v option" where
  "Get v i = (case leaf v i of None \<Rightarrow> None | Some l \<Rightarrow> p_vals l ! leaf_slot i)"

text \<open>A cursor remembers the last leaf.\<close>

record 'v cursor =
  c_v :: "'v vector"
  c_leaf :: "'v pnode option"
  c_base :: uint32
  c_ok :: bool

definition Cursor :: "'v vector \<Rightarrow> 'v cursor" where
  "Cursor v = \<lparr>c_v = v, c_leaf = None, c_base = 0, c_ok = False\<rparr>"

definition CursorGet :: "'v cursor \<Rightarrow> uint32 \<Rightarrow> 'v cursor \<times> 'v option" where
  "CursorGet c i =
    (let base = i AND NOT 15;
         c = (if \<not> c_ok c \<or> base \<noteq> c_base c then c\<lparr>c_leaf := leaf (c_v c) i, c_base := base, c_ok := True\<rparr> else c)
     in case c_leaf c of None \<Rightarrow> (c, None) | Some l \<Rightarrow> (c, p_vals l ! leaf_slot i))"

section \<open>Writing\<close>

definition own_leaf :: "'v pnode option \<Rightarrow> 'v pnode" where
  "own_leaf n = (case n of None \<Rightarrow> newLeaf | Some m \<Rightarrow> m)"

definition own_inner :: "'v pnode option \<Rightarrow> 'v pnode" where
  "own_inner n = (case n of None \<Rightarrow> newInner | Some m \<Rightarrow> m)"

definition used_of :: "'v pnode option \<Rightarrow> uint32" where
  "used_of n = (case n of None \<Rightarrow> 0 | Some m \<Rightarrow> p_used m)"

primrec pset :: "nat \<Rightarrow> 'v pnode option \<Rightarrow> uint32 \<Rightarrow> 'v option \<Rightarrow> 'v pnode option" where
  "pset 0 n i val =
    (let m = own_leaf n; slot = leaf_slot i; was = (p_vals m ! slot \<noteq> None);
         used = (if was \<and> val = None then p_used m - 1
                 else if \<not> was \<and> val \<noteq> None then p_used m + 1 else p_used m)
     in if used = 0 then None else Some (PNode used ((p_vals m)[slot := val]) (p_kids m)))"
| "pset (Suc h) n i val =
    (let m = own_inner n; slot = pslot h i;
         before = used_of (p_kids m ! slot);
         c = pset h (p_kids m ! slot) i val;
         used = p_used m + (used_of c - before)
     in if used = 0 then None else Some (PNode used (p_vals m) ((p_kids m)[slot := c])))"

function raise_height :: "nat \<Rightarrow> uint32 \<Rightarrow> nat" where
  "raise_height h i = (if pbeyond h i then raise_height (h + 1) i else h)"
  by pat_completeness auto
termination
  by (relation "measure (\<lambda>(h, i). 32 - pspan h)") (auto simp: pbeyond_def pspan_def)

declare raise_height.simps [simp del]

text \<open>Growing a vector that has a root: the old root becomes child 0 of a new one.\<close>

function grow_vector :: "'v pnode \<Rightarrow> nat \<Rightarrow> uint32 \<Rightarrow> 'v pnode \<times> nat" where
  "grow_vector n h i =
    (if pbeyond h i then grow_vector (PNode (p_used n) [] ((p_kids newInner)[0 := Some n])) (h + 1) i else (n, h))"
  by pat_completeness auto
termination
  by (relation "measure (\<lambda>(n, h, i). 32 - pspan h)") (auto simp: pbeyond_def pspan_def)

declare grow_vector.simps [simp del]

definition PSet :: "'v vector \<Rightarrow> uint32 \<Rightarrow> 'v option \<Rightarrow> 'v vector" where
  "PSet v i val =
    (if val = None \<and> Get v i = None then v
     else
       let (root, height) =
         (if val = None then (v_root v, v_height v)
          else case v_root v of
            None \<Rightarrow> (None, raise_height (v_height v) i)
          | Some n \<Rightarrow> (case grow_vector n (v_height v) i of (n', h') \<Rightarrow> (Some n', h')))
       in case pset height root i val of
            None \<Rightarrow> empty_vector
          | Some n \<Rightarrow> \<lparr>v_root = Some n, v_height = height\<rparr>)"

section \<open>The map a vector stands for\<close>

text \<open>\<open>pmap h n\<close> maps the low \<open>pspan h\<close> bits of an id to the value of a node of height \<open>h\<close>.\<close>

primrec pmap :: "nat \<Rightarrow> 'v pnode option \<Rightarrow> nat \<Rightarrow> 'v option" where
  "pmap 0 n j = (case n of None \<Rightarrow> None | Some m \<Rightarrow> if j < 16 then p_vals m ! j else None)"
| "pmap (Suc h) n j = (case n of None \<Rightarrow> None
    | Some m \<Rightarrow> if j < 2 ^ pspan (Suc h) then pmap h (p_kids m ! (j div 2 ^ pspan h)) (j mod 2 ^ pspan h) else None)"

definition cnt :: "(nat \<Rightarrow> 'v option) \<Rightarrow> uint32" where
  "cnt m = word_of_nat (card (dom m))"

primrec wf_p :: "nat \<Rightarrow> 'v pnode \<Rightarrow> bool" where
  "wf_p 0 n \<longleftrightarrow> length (p_vals n) = 16 \<and> p_used n = cnt (pmap 0 (Some n)) \<and> pmap 0 (Some n) \<noteq> Map.empty"
| "wf_p (Suc h) n \<longleftrightarrow> length (p_kids n) = 32 \<and> (\<forall>k. Some k \<in> set (p_kids n) \<longrightarrow> wf_p h k) \<and>
     p_used n = cnt (pmap (Suc h) (Some n)) \<and> pmap (Suc h) (Some n) \<noteq> Map.empty"

definition opt_wf :: "nat \<Rightarrow> 'v pnode option \<Rightarrow> bool" where
  "opt_wf h n \<longleftrightarrow> (case n of None \<Rightarrow> True | Some m \<Rightarrow> wf_p h m)"

definition v_map :: "'v vector \<Rightarrow> nat \<Rightarrow> 'v option" where
  "v_map v = pmap (v_height v) (v_root v)"

text \<open>The topmost directory level could address more than 32 bits; no index does.\<close>

definition vec_ok :: "'v vector \<Rightarrow> bool" where
  "vec_ok v \<longleftrightarrow> v_height v \<le> 6 \<and> opt_wf (v_height v) (v_root v) \<and> dom (v_map v) \<subseteq> {..< 2 ^ 32}"

declare wf_p.simps [simp del] pmap.simps [simp del]

subsection \<open>Arithmetic of indexes\<close>

definition plow :: "nat \<Rightarrow> uint32 \<Rightarrow> nat" where
  "plow h i = unat i mod 2 ^ pspan h"

lemma pspan_simps [simp]: "pspan 0 = 4" "pspan (Suc h) = pspan h + 5"
  by (simp_all add: pspan_def)

lemma leaf_slot_eq: "leaf_slot i = plow 0 i"
  using unat_and_mask [of i 4] by (simp add: leaf_slot_def plow_def mask_eq_exp_minus_1)

lemma plow_less [simp]: "plow h i < 2 ^ pspan h"
  by (simp add: plow_def)

lemma leaf_slot_less [simp]: "leaf_slot i < 16"
  using plow_less [of 0 i] by (simp add: leaf_slot_eq)

lemma plow_mod [simp]: "plow (Suc h) i mod 2 ^ pspan h = plow h i"
  by (simp add: plow_def power_add mod_mult2_eq)

lemma plow_div [simp]: "plow (Suc h) i div 2 ^ pspan h = pslot h i"
proof -
  have "pslot h i = unat i div 2 ^ pspan h mod 32"
    using unat_and_mask [of "drop_bit (pspan h) i" 5]
    by (simp add: pslot_def mask_eq_exp_minus_1 unat_drop_bit)
  also have "\<dots> = unat i mod (2 ^ pspan h * 32) div 2 ^ pspan h"
    by (simp add: mod_mult2_eq)
  finally show ?thesis by (simp add: plow_def power_add)
qed

lemma pslot_less [simp]: "pslot h i < 32"
proof -
  have "plow (Suc h) i < 32 * 2 ^ pspan h" using plow_less [of "Suc h" i] by (simp add: power_add)
  then have "plow (Suc h) i div 2 ^ pspan h < 32" by (rule less_mult_imp_div_less)
  then show ?thesis by simp
qed

lemma pbeyond_iff: "h \<le> 6 \<Longrightarrow> pbeyond h i \<longleftrightarrow> 2 ^ pspan h \<le> unat i"
proof -
  assume h: "h \<le> 6"
  have d: "drop_bit (pspan h) i \<noteq> 0 \<longleftrightarrow> 2 ^ pspan h \<le> unat i"
    using unat_drop_bit [of "pspan h" i] by (metis div_eq_0_iff not_less unat_eq_zero power_not_zero zero_neq_numeral)
  show ?thesis
  proof (cases "pspan h < 32")
    case True
    with d show ?thesis by (simp add: pbeyond_def)
  next
    case False
    then have "(2 :: nat) ^ 32 \<le> 2 ^ pspan h" by (intro power_increasing) simp_all
    moreover have "unat i < 2 ^ 32" using unsigned_less [of i] by simp
    ultimately show ?thesis using False by (simp add: pbeyond_def)
  qed
qed

lemma plow_eq: "unat i < 2 ^ pspan h \<Longrightarrow> plow h i = unat i"
  by (simp add: plow_def)

lemma eq_plow_Suc: "x = plow (Suc h) i \<longleftrightarrow> x div 2 ^ pspan h = pslot h i \<and> x mod 2 ^ pspan h = plow h i"
  by (metis plow_div plow_mod div_mult_mod_eq)

subsection \<open>Basic facts\<close>

lemma pmap_None [simp]: "pmap h None = Map.empty"
  by (cases h) (simp_all add: fun_eq_iff pmap.simps)

lemma pmap_less: "pmap h n j = Some x \<Longrightarrow> j < 2 ^ pspan h"
  by (cases h; cases n) (auto simp: pmap.simps split: if_splits)

lemma finite_dom_pmap [simp]: "finite (dom (pmap h n))"
  by (rule finite_subset [of _ "{..< 2 ^ pspan h}"]) (auto dest: pmap_less)

lemma opt_wf_simps [simp]: "opt_wf h None" "opt_wf h (Some n) = wf_p h n"
  by (simp_all add: opt_wf_def)

lemma wf_kid: "wf_p (Suc h) n \<Longrightarrow> s < 32 \<Longrightarrow> opt_wf h (p_kids n ! s)"
  by (cases "p_kids n ! s") (simp, metis nth_mem opt_wf_simps(2) wf_p.simps(2))

lemma wf_used: "wf_p h n \<Longrightarrow> p_used n = cnt (pmap h (Some n))"
  by (cases h) (simp_all add: wf_p.simps)

lemma cnt_empty [simp]: "cnt Map.empty = 0"
  by (simp add: cnt_def)

lemma used_of_cnt: "opt_wf h n \<Longrightarrow> used_of n = cnt (pmap h n)"
  by (cases n) (simp_all add: used_of_def wf_used)

lemma leaf_at_correct:
  "opt_wf h n \<Longrightarrow> (case leaf_at h n i of None \<Rightarrow> None | Some l \<Rightarrow> p_vals l ! leaf_slot i) = pmap h n (plow h i)"
proof (induction h arbitrary: n)
  case 0
  then show ?case by (cases n) (simp_all add: pmap.simps leaf_slot_eq [symmetric])
next
  case (Suc h)
  show ?case
  proof (cases n)
    case (Some m)
    then have "wf_p (Suc h) m" using Suc.prems by simp
    then have "opt_wf h (p_kids m ! pslot h i)" by (rule wf_kid) simp
    then show ?thesis using Suc.IH Some plow_less [of "Suc h" i] by (simp add: pmap.simps)
  qed simp
qed

lemma Get_correct: "vec_ok v \<Longrightarrow> Get v i = v_map v (unat i)"
proof -
  assume ok: "vec_ok v"
  show ?thesis
  proof (cases "v_root v = None \<or> pbeyond (v_height v) i")
    case True
    have "pmap (v_height v) (v_root v) (unat i) = None"
    proof (cases "v_root v")
      case (Some n)
      then have "2 ^ pspan (v_height v) \<le> unat i" using True ok pbeyond_iff by (auto simp: vec_ok_def)
      then show ?thesis using pmap_less [of "v_height v" "v_root v" "unat i"]
        by (cases "pmap (v_height v) (v_root v) (unat i)") auto
    qed simp
    then show ?thesis using True by (auto simp: Get_def leaf_def v_map_def)
  next
    case False
    then have "plow (v_height v) i = unat i"
      using ok pbeyond_iff [of "v_height v" i] by (simp add: vec_ok_def plow_eq)
    then show ?thesis
      using leaf_at_correct [of "v_height v" "v_root v" i] ok False by (simp add: Get_def leaf_def v_map_def vec_ok_def)
  qed
qed

lemma VLen_correct: "vec_ok v \<Longrightarrow> VLen v = int (card (dom (v_map v))) mod 2 ^ 32"
proof -
  assume ok: "vec_ok v"
  show ?thesis
  proof (cases "v_root v")
    case (Some n)
    then have "wf_p (v_height v) n" using ok by (simp add: vec_ok_def)
    then have "p_used n = cnt (v_map v)" unfolding v_map_def Some by (rule wf_used)
    then show ?thesis by (simp add: VLen_def Some cnt_def unsigned_of_nat take_bit_eq_mod zmod_int)
  qed (simp add: VLen_def v_map_def)
qed

subsection \<open>Writing\<close>

definition delta :: "'v option \<Rightarrow> 'v option \<Rightarrow> uint32" where
  "delta a b = (if a = None \<and> b \<noteq> None then 1 else if a \<noteq> None \<and> b = None then - 1 else 0)"

lemma cnt_upd: "finite (dom m) \<Longrightarrow> cnt (m(i := v)) = cnt m + delta (m i) v"
proof -
  assume f: "finite (dom m)"
  show ?thesis
  proof (cases "m i")
    case None
    then have "i \<notin> dom m" by auto
    then show ?thesis using f None
      by (cases v) (auto simp: cnt_def delta_def)
  next
    case (Some x)
    then have i: "i \<in> dom m" by auto
    show ?thesis
    proof (cases v)
      case None
      then show ?thesis using Some card_remove_word [OF f i] by (simp add: cnt_def delta_def del: card_Diff_insert)
    next
      case v: (Some y)
      have "dom (m(i := v)) = dom m" using i v by auto
      then show ?thesis using Some v by (simp add: cnt_def delta_def)
    qed
  qed
qed

text \<open>A count of zero means no values, as long as some index below \<open>2 ^ 32\<close> is unset.\<close>

lemma cnt_0_iff:
  assumes "finite (dom m)" and "card (dom m) < 2 ^ 32"
  shows "cnt m = 0 \<longleftrightarrow> m = Map.empty"
proof
  assume "cnt m = 0"
  then have "unat (word_of_nat (card (dom m)) :: uint32) = 0" by (simp add: cnt_def)
  then have "card (dom m) = 0" using assms(2) by (simp add: unat_of_nat)
  then show "m = Map.empty" using assms(1) by (simp add: dom_eq_empty_conv)
qed simp

lemma pmap_leaf_upd:
  assumes "length (p_vals m) = 16"
  shows "pmap 0 (Some (PNode u ((p_vals m)[leaf_slot i := v]) ks)) = (pmap 0 (Some m))(plow 0 i := v)"
  using assms by (auto simp: fun_eq_iff pmap.simps nth_list_update leaf_slot_eq [symmetric])

lemma pmap_inner_upd:
  assumes "length (p_kids m) = 32" and "pmap h c = (pmap h (p_kids m ! pslot h i))(plow h i := v)"
  shows "pmap (Suc h) (Some (PNode u vs ((p_kids m)[pslot h i := c]))) = (pmap (Suc h) (Some m))(plow (Suc h) i := v)"
proof (rule ext)
  fix j
  show "pmap (Suc h) (Some (PNode u vs ((p_kids m)[pslot h i := c]))) j = ((pmap (Suc h) (Some m))(plow (Suc h) i := v)) j"
  proof (cases "j div 2 ^ pspan h = pslot h i")
    case True
    then show ?thesis using assms plow_less [of "Suc h" i] eq_plow_Suc [of j h i]
      by (auto simp: pmap.simps)
  next
    case False
    then have "j \<noteq> plow (Suc h) i" using eq_plow_Suc by blast
    then show ?thesis using False assms(1) by (simp add: pmap.simps nth_list_update)
  qed
qed

lemma card_le_of_upd: "finite (dom m) \<Longrightarrow> dom k \<subseteq> dom m \<Longrightarrow> card (dom m) < 2 ^ 32 \<Longrightarrow> card (dom k) < (2 :: nat) ^ 32"
  using card_mono [of "dom m" "dom k"] by simp

text \<open>A node that may be missing, with the update of its map written out.\<close>

lemma new_maps [simp]: "pmap 0 (Some newLeaf) = Map.empty" "pmap (Suc h) (Some newInner) = Map.empty"
  by (auto simp: fun_eq_iff pmap.simps newLeaf_def newInner_def leafSize_def innerSize_def
      less_mult_imp_div_less power_add)

lemma wf_leafI:
  "length (p_vals n) = 16 \<Longrightarrow> pmap 0 (Some n) = f \<Longrightarrow> p_used n = cnt f \<Longrightarrow> f \<noteq> Map.empty \<Longrightarrow> wf_p 0 n"
  by (simp add: wf_p.simps)

lemma wf_innerI:
  "length (p_kids n) = 32 \<Longrightarrow> (\<And>k. Some k \<in> set (p_kids n) \<Longrightarrow> wf_p h k) \<Longrightarrow>
   pmap (Suc h) (Some n) = f \<Longrightarrow> p_used n = cnt f \<Longrightarrow> f \<noteq> Map.empty \<Longrightarrow> wf_p (Suc h) n"
  by (simp add: wf_p.simps)

lemma own_leaf_facts:
  assumes "opt_wf 0 n"
  shows "length (p_vals (own_leaf n)) = 16" "p_used (own_leaf n) = cnt (pmap 0 n)"
    "pmap 0 (Some (own_leaf n)) = pmap 0 n"
proof -
  show "length (p_vals (own_leaf n)) = 16"
    using assms by (cases n) (simp_all add: own_leaf_def newLeaf_def leafSize_def wf_p.simps)
  show "p_used (own_leaf n) = cnt (pmap 0 n)"
    using assms wf_used [of 0] by (cases n) (simp add: own_leaf_def newLeaf_def, simp add: own_leaf_def)
  show "pmap 0 (Some (own_leaf n)) = pmap 0 n"
    by (cases n) (simp_all add: own_leaf_def)
qed

lemma own_inner_facts:
  assumes "opt_wf (Suc h) n"
  shows "length (p_kids (own_inner n)) = 32" "p_used (own_inner n) = cnt (pmap (Suc h) n)"
    "pmap (Suc h) (Some (own_inner n)) = pmap (Suc h) n" "s < 32 \<Longrightarrow> opt_wf h (p_kids (own_inner n) ! s)"
    "Some k \<in> set (p_kids (own_inner n)) \<Longrightarrow> wf_p h k"
proof -
  show "length (p_kids (own_inner n)) = 32"
    using assms by (cases n) (simp_all add: own_inner_def newInner_def innerSize_def wf_p.simps)
  show "p_used (own_inner n) = cnt (pmap (Suc h) n)"
    using assms wf_used [of "Suc h"] by (cases n) (simp add: own_inner_def newInner_def, simp add: own_inner_def)
  show "pmap (Suc h) (Some (own_inner n)) = pmap (Suc h) n"
    by (cases n) (simp_all add: own_inner_def)
  show "s < 32 \<Longrightarrow> opt_wf h (p_kids (own_inner n) ! s)"
    using assms wf_kid by (cases n) (simp_all add: own_inner_def newInner_def innerSize_def)
  show "Some k \<in> set (p_kids (own_inner n)) \<Longrightarrow> wf_p h k"
    using assms by (cases n) (auto simp: own_inner_def newInner_def innerSize_def wf_p.simps)
qed

lemma pset_leaf:
  assumes ok: "opt_wf 0 n" and room: "card (dom ((pmap 0 n)(plow 0 i := v))) < 2 ^ 32"
  shows "opt_wf 0 (pset 0 n i v) \<and> pmap 0 (pset 0 n i v) = (pmap 0 n)(plow 0 i := v)"
proof -
  define m where "m = own_leaf n"
  have m: "length (p_vals m) = 16" "p_used m = cnt (pmap 0 n)" "pmap 0 (Some m) = pmap 0 n"
    by (rule own_leaf_facts [OF ok, folded m_def])+
  let ?was = "p_vals m ! leaf_slot i \<noteq> None"
  let ?used = "if ?was \<and> v = None then p_used m - 1 else if \<not> ?was \<and> v \<noteq> None then p_used m + 1 else p_used m"
  have at: "pmap 0 n (plow 0 i) = p_vals m ! leaf_slot i"
    unfolding m(3) [symmetric] by (simp add: pmap.simps leaf_slot_eq [symmetric])
  have "?used = p_used m + delta (pmap 0 n (plow 0 i)) v"
    unfolding at delta_def by auto
  then have used: "?used = cnt ((pmap 0 n)(plow 0 i := v))"
    using m(2) by (simp add: cnt_upd)
  have p: "pset 0 n i v = (if ?used = 0 then None else Some (PNode ?used ((p_vals m)[leaf_slot i := v]) (p_kids m)))"
    by (simp only: pset.simps Let_def m_def)
  have upd: "pmap 0 (Some (PNode ?used ((p_vals m)[leaf_slot i := v]) (p_kids m))) = (pmap 0 n)(plow 0 i := v)"
    unfolding pmap_leaf_upd [OF m(1)] m(3) ..
  show ?thesis
  proof (cases "?used = 0")
    case True
    then have "(pmap 0 n)(plow 0 i := v) = Map.empty" using used cnt_0_iff [OF _ room] by simp
    then show ?thesis unfolding p using True by simp
  next
    case False
    then have "(pmap 0 n)(plow 0 i := v) \<noteq> Map.empty" using used by auto
    then have "wf_p 0 (PNode ?used ((p_vals m)[leaf_slot i := v]) (p_kids m))"
      by (intro wf_leafI [OF _ upd]) (simp_all only: pnode.sel used length_list_update m(1) not_False_eq_True)
    then show ?thesis unfolding p using False upd by simp
  qed
qed

text \<open>A child's values are among its parent's, so a child that is updated keeps the room.\<close>

lemma room_kid:
  assumes len: "length (p_kids m) = 32"
    and room: "card (dom ((pmap (Suc h) (Some m))(plow (Suc h) i := v))) < 2 ^ 32"
  shows "card (dom ((pmap h (p_kids m ! pslot h i))(plow h i := v))) < 2 ^ 32"
proof -
  let ?k = "(pmap h (p_kids m ! pslot h i))(plow h i := v)" and ?g = "\<lambda>j. pslot h i * 2 ^ pspan h + j"
  have shift: "?g (plow h i) = plow (Suc h) i"
    using plow_div [of h i] plow_mod [of h i] by (metis div_mult_mod_eq)
  have sub: "?g ` dom ?k \<subseteq> dom ((pmap (Suc h) (Some m))(plow (Suc h) i := v))"
  proof
    fix x assume "x \<in> ?g ` dom ?k"
    then obtain j where "j \<in> dom ?k" and x: "x = ?g j" by (elim imageE)
    then obtain y where j: "?k j = Some y" "x = ?g j" unfolding dom_def by blast
    show "x \<in> dom ((pmap (Suc h) (Some m))(plow (Suc h) i := v))"
    proof (cases "j = plow h i")
      case True
      then show ?thesis using j shift by (auto split: if_splits)
    next
      case False
      then have p: "pmap h (p_kids m ! pslot h i) j = Some y" using j(1) by simp
      then have lt: "j < 2 ^ pspan h" by (rule pmap_less)
      have "x < 32 * 2 ^ pspan h" unfolding j(2) by (rule combine_less [OF pslot_less lt])
      then have "x < 2 ^ pspan (Suc h)" by (simp add: power_add mult.commute)
      then have "pmap (Suc h) (Some m) x = Some y" using p lt j(2) by (simp add: pmap.simps)
      moreover have "x \<noteq> plow (Suc h) i" using False j(2) shift by auto
      ultimately show ?thesis by auto
    qed
  qed
  have "card (dom ?k) = card (?g ` dom ?k)" by (rule card_image [symmetric]) (simp add: inj_on_def)
  also have "\<dots> \<le> card (dom ((pmap (Suc h) (Some m))(plow (Suc h) i := v)))"
    by (rule card_mono [OF _ sub]) simp
  finally show ?thesis using room by simp
qed

lemma pset_correct:
  "opt_wf h n \<Longrightarrow> card (dom ((pmap h n)(plow h i := v))) < 2 ^ 32 \<Longrightarrow>
   opt_wf h (pset h n i v) \<and> pmap h (pset h n i v) = (pmap h n)(plow h i := v)"
proof (induction h arbitrary: n)
  case 0
  then show ?case by (rule pset_leaf)
next
  case (Suc h)
  define m where "m = own_inner n"
  note m = own_inner_facts [OF Suc.prems(1), folded m_def]
  let ?k = "p_kids m ! pslot h i"
  define c where "c = pset h ?k i v"
  let ?used = "p_used m + (used_of c - used_of ?k)"
  have k: "opt_wf h ?k" by (rule m(4)) simp
  have "card (dom ((pmap (Suc h) (Some m))(plow (Suc h) i := v))) < 2 ^ 32" unfolding m(3) by (rule Suc.prems(2))
  note room = room_kid [OF m(1) this]
  have c: "opt_wf h c" "pmap h c = (pmap h ?k)(plow h i := v)"
    using Suc.IH [OF k room] unfolding c_def by blast+
  have at: "pmap (Suc h) n (plow (Suc h) i) = pmap h ?k (plow h i)"
    unfolding m(3) [symmetric] using plow_less [of "Suc h" i] by (simp add: pmap.simps)
  have "?used = cnt (pmap (Suc h) n) + delta (pmap h ?k (plow h i)) v"
    unfolding m(2) used_of_cnt [OF c(1)] used_of_cnt [OF k] c(2) cnt_upd [OF finite_dom_pmap] by simp
  then have used: "?used = cnt ((pmap (Suc h) n)(plow (Suc h) i := v))"
    by (simp add: cnt_upd at)
  have p: "pset (Suc h) n i v = (if ?used = 0 then None else Some (PNode ?used (p_vals m) ((p_kids m)[pslot h i := c])))"
    by (simp only: pset.simps Let_def m_def c_def)
  have upd: "pmap (Suc h) (Some (PNode ?used (p_vals m) ((p_kids m)[pslot h i := c]))) = (pmap (Suc h) n)(plow (Suc h) i := v)"
    unfolding pmap_inner_upd [OF m(1) c(2)] m(3) ..
  show ?case
  proof (cases "?used = 0")
    case True
    have "finite (dom ((pmap (Suc h) n)(plow (Suc h) i := v)))" by simp
    then have "(pmap (Suc h) n)(plow (Suc h) i := v) = Map.empty"
      using True used cnt_0_iff [OF _ Suc.prems(2)] by metis
    then show ?thesis unfolding p using True by simp
  next
    case False
    then have ne: "(pmap (Suc h) n)(plow (Suc h) i := v) \<noteq> Map.empty" using used by auto
    have "wf_p (Suc h) (PNode ?used (p_vals m) ((p_kids m)[pslot h i := c]))"
    proof (rule wf_innerI [OF _ _ upd _ ne])
      show "length (p_kids (PNode ?used (p_vals m) ((p_kids m)[pslot h i := c]))) = 32" by (simp add: m(1))
      show "p_used (PNode ?used (p_vals m) ((p_kids m)[pslot h i := c])) = cnt ((pmap (Suc h) n)(plow (Suc h) i := v))"
        unfolding pnode.sel by (rule used)
      fix k' assume "Some k' \<in> set (p_kids (PNode ?used (p_vals m) ((p_kids m)[pslot h i := c])))"
      then have "Some k' = c \<or> Some k' \<in> set (p_kids m)"
        using set_update_subset_insert [of "p_kids m" "pslot h i" c] by auto
      then show "wf_p h k'" using c(1) m(5) by auto
    qed
    then show ?thesis unfolding p using False upd by simp
  qed
qed

text \<open>Growing and the first height leave the map as it is and cover the index.\<close>

lemma not_pbeyond_6: "\<not> pbeyond 6 i"
  by (simp add: pbeyond_def pspan_def)

lemma raise_height_correct:
  "h \<le> 6 \<Longrightarrow> raise_height h i \<le> 6 \<and> \<not> pbeyond (raise_height h i) i"
proof (induction h i rule: raise_height.induct)
  case (1 h i)
  show ?case
  proof (cases "pbeyond h i")
    case True
    then have "h + 1 \<le> 6" using 1(2) not_pbeyond_6 [of i] by (cases "h = 6") auto
    then have "raise_height (h + 1) i \<le> 6 \<and> \<not> pbeyond (raise_height (h + 1) i) i" using 1(1) [OF True] by simp
    then show ?thesis using True by (subst (1 2) raise_height.simps) simp
  next
    case False
    then have "raise_height h i = h" by (subst raise_height.simps) simp
    then show ?thesis using False 1(2) by simp
  qed
qed

lemma grown_root:
  assumes "wf_p h n"
  defines "n' \<equiv> PNode (p_used n) [] ((p_kids newInner)[0 := Some n])"
  shows "wf_p (Suc h) n'" and "pmap (Suc h) (Some n') = pmap h (Some n)"
proof -
  show e: "pmap (Suc h) (Some n') = pmap h (Some n)"
  proof (rule ext)
    fix j
    show "pmap (Suc h) (Some n') j = pmap h (Some n) j"
    proof (cases "j < 2 ^ pspan h")
      case True
      then have "j < 2 ^ pspan (Suc h)" by (simp add: power_add)
      then show ?thesis using True by (simp add: pmap.simps n'_def newInner_def innerSize_def)
    next
      case False
      then have none: "pmap h (Some n) j = None" using pmap_less [of h "Some n" j] by (cases "pmap h (Some n) j") auto
      show ?thesis
      proof (cases "j < 2 ^ pspan (Suc h)")
        case True
        then have "j div 2 ^ pspan h < 32" by (simp add: power_add less_mult_imp_div_less)
        moreover have "j div 2 ^ pspan h \<noteq> 0" using False by (simp add: div_eq_0_iff)
        ultimately show ?thesis using True none by (simp add: pmap.simps n'_def newInner_def innerSize_def)
      qed (use none in \<open>simp add: pmap.simps\<close>)
    qed
  qed
  show "wf_p (Suc h) n'"
  proof (rule wf_innerI [OF _ _ e])
    show "p_used n' = cnt (pmap h (Some n))" using wf_used [OF assms(1)] by (simp add: n'_def)
    show "pmap h (Some n) \<noteq> Map.empty" using assms(1) by (cases h) (simp_all add: wf_p.simps)
    show "wf_p h k" if "Some k \<in> set (p_kids n')" for k
      using that assms(1) set_update_subset_insert [of "replicate innerSize None" 0 "Some n"]
      by (auto simp: n'_def newInner_def innerSize_def)
  qed (simp add: n'_def newInner_def innerSize_def)
qed

lemma grow_vector_correct:
  "wf_p h n \<Longrightarrow> h \<le> 6 \<Longrightarrow> grow_vector n h i = (n', h') \<Longrightarrow>
   wf_p h' n' \<and> h' \<le> 6 \<and> \<not> pbeyond h' i \<and> pmap h' (Some n') = pmap h (Some n)"
proof (induction n h i arbitrary: n' h' rule: grow_vector.induct)
  case (1 n h i)
  let ?n = "PNode (p_used n) [] ((p_kids newInner)[0 := Some n])"
  show ?case
  proof (cases "pbeyond h i")
    case True
    then have "h + 1 \<le> 6" using "1.prems"(2) not_pbeyond_6 [of i] by (cases "h = 6") auto
    moreover have "grow_vector ?n (h + 1) i = (n', h')"
      using "1.prems"(3) True by (subst (asm) grow_vector.simps) simp
    moreover note g = grown_root [OF "1.prems"(1)]
    ultimately show ?thesis using "1.IH" [OF True, of n' h'] by simp
  next
    case False
    then have "n' = n" "h' = h" using "1.prems"(3) by (simp_all add: grow_vector.simps [of n h i])
    then show ?thesis using "1.prems" False by simp
  qed
qed

lemma vec_ok_empty [simp]: "vec_ok empty_vector" "v_map empty_vector = Map.empty"
  by (simp_all add: vec_ok_def v_map_def empty_vector_def)

lemma PSet_correct:
  assumes ok: "vec_ok v" and room: "card (dom ((v_map v)(unat i := val))) < 2 ^ 32"
  shows "vec_ok (PSet v i val) \<and> v_map (PSet v i val) = (v_map v)(unat i := val)"
proof -
  have low: "dom ((v_map v)(unat i := val)) \<subseteq> {..< 2 ^ 32}"
    using ok unsigned_less [of i] by (auto simp: vec_ok_def split: if_splits)
  have finish: "vec_ok w \<and> v_map w = (v_map v)(unat i := val)"
    if h: "h \<le> 6" and wf: "opt_wf h root" and b: "\<not> pbeyond h i" and m: "pmap h root = v_map v"
      and w: "w = (case pset h root i val of None \<Rightarrow> empty_vector | Some n \<Rightarrow> \<lparr>v_root = Some n, v_height = h\<rparr>)"
    for h root w
  proof -
    have "plow h i = unat i" using b pbeyond_iff [OF h] by (simp add: plow_eq)
    then have "opt_wf h (pset h root i val) \<and> pmap h (pset h root i val) = (v_map v)(unat i := val)"
      using pset_correct [OF wf, of i val] room m by simp
    then have "v_map w = (v_map v)(unat i := val) \<and> v_height w \<le> 6 \<and> opt_wf (v_height w) (v_root w)"
      by (cases "pset h root i val") (simp_all add: w v_map_def empty_vector_def h)
    then show ?thesis using low by (simp add: vec_ok_def)
  qed
  show ?thesis
  proof (cases "val = None \<and> Get v i = None")
    case True
    then have "PSet v i val = v" by (simp add: PSet_def)
    moreover have "(v_map v)(unat i := val) = v_map v" using True Get_correct [OF ok, of i] by auto
    ultimately show ?thesis using ok by simp
  next
    case False
    have hv: "v_height v \<le> 6" "opt_wf (v_height v) (v_root v)" using ok by (simp_all add: vec_ok_def)
    consider (unset) "val = None" | (first) x where "val = Some x" "v_root v = None" | (more) x n where "val = Some x" "v_root v = Some n"
      by (cases "val = None"; cases "v_root v") auto
    then show ?thesis
    proof cases
      case unset
      then have "Get v i \<noteq> None" using False by simp
      then have "\<not> pbeyond (v_height v) i" by (auto simp: Get_def leaf_def split: if_splits)
      moreover have "PSet v i val = (case pset (v_height v) (v_root v) i val of None \<Rightarrow> empty_vector
          | Some n \<Rightarrow> \<lparr>v_root = Some n, v_height = v_height v\<rparr>)"
        unfolding PSet_def if_not_P [OF False] using unset by simp
      ultimately show ?thesis by (intro finish [OF hv]) (simp_all only: v_map_def not_False_eq_True)
    next
      case first
      then show ?thesis using raise_height_correct [OF hv(1), of i]
        by (intro finish [of "raise_height (v_height v) i" None]) (simp_all add: v_map_def PSet_def)
    next
      case more
      obtain n' h' where g: "grow_vector n (v_height v) i = (n', h')" by fastforce
      have "wf_p (v_height v) n" using hv more by simp
      note gc = grow_vector_correct [OF this hv(1) g]
      show ?thesis using more gc g
        by (intro finish [of h' "Some n'"]) (simp_all add: v_map_def PSet_def)
    qed
  qed
qed

section \<open>Cursors\<close>

text \<open>A cursor answers from its leaf for every id of the range the leaf covers.\<close>

definition cursor_ok :: "'v cursor \<Rightarrow> bool" where
  "cursor_ok c \<longleftrightarrow> (c_ok c \<longrightarrow> (\<forall>i. i AND NOT 15 = c_base c \<longrightarrow> leaf (c_v c) i = c_leaf c))"

lemma drop_bit_base: "4 \<le> k \<Longrightarrow> drop_bit k (i AND NOT 15) = drop_bit k (i :: uint32)"
proof (rule bit_word_eqI)
  fix n assume k: "4 \<le> k" and n: "n < LENGTH(32)"
  have "bit (15 :: uint32) (k + n) = False"
  proof -
    have "(15 :: uint32) = mask 4" by (simp add: mask_eq_exp_minus_1)
    then show ?thesis using k by (simp only: bit_mask_iff) simp
  qed
  moreover have "k + n < 32" if "bit i (k + n)" using bit_imp_le_length [OF that] by simp
  ultimately show "bit (drop_bit k (i AND NOT 15)) n \<longleftrightarrow> bit (drop_bit k i) n"
    unfolding bit_drop_bit_eq comp_def bit_and_iff bit_not_iff by auto
qed

lemma leaf_at_base: "leaf_at h n (i AND NOT 15) = leaf_at h n i"
proof (induction h arbitrary: n)
  case (Suc h)
  have "pslot h (i AND NOT 15) = pslot h i"
    unfolding pslot_def by (subst drop_bit_base) (simp_all add: pspan_def)
  then show ?case using Suc by (simp split: option.split)
qed simp

lemma leaf_base: "leaf v (i AND NOT 15) = leaf v i"
proof -
  have "pbeyond h (i AND NOT 15) = pbeyond h i" for h
    unfolding pbeyond_def by (subst drop_bit_base) (simp_all add: pspan_def)
  then show ?thesis unfolding leaf_def leaf_at_base by (simp only:)
qed

lemma CursorGet_correct:
  assumes "cursor_ok c"
  shows "cursor_ok (fst (CursorGet c i)) \<and> c_v (fst (CursorGet c i)) = c_v c \<and> snd (CursorGet c i) = Get (c_v c) i"
proof (cases "\<not> c_ok c \<or> i AND NOT 15 \<noteq> c_base c")
  case True
  let ?c = "c\<lparr>c_leaf := leaf (c_v c) i, c_base := i AND NOT 15, c_ok := True\<rparr>"
  have g: "CursorGet c i = (?c, Get (c_v c) i)"
    unfolding CursorGet_def Let_def if_P [OF True] by (simp add: Get_def split: option.split)
  have "cursor_ok ?c"
    unfolding cursor_ok_def
  proof (intro impI allI)
    fix j assume "j AND NOT 15 = c_base ?c"
    then have "j AND NOT 15 = i AND NOT 15" by simp
    then have "leaf (c_v c) j = leaf (c_v c) i" by (metis leaf_base)
    then show "leaf (c_v ?c) j = c_leaf ?c" by simp
  qed
  then show ?thesis by (simp add: g)
next
  case False
  have l: "leaf (c_v c) i = c_leaf c" using assms False unfolding cursor_ok_def by blast
  have "CursorGet c i = (c, Get (c_v c) i)"
    unfolding CursorGet_def Let_def if_not_P [OF False] by (simp add: Get_def l split: option.split)
  then show ?thesis using assms by simp
qed

primrec cursor_run :: "'v cursor \<Rightarrow> uint32 list \<Rightarrow> 'v option list" where
  "cursor_run c [] = []"
| "cursor_run c (i # is) = snd (CursorGet c i) # cursor_run (fst (CursorGet c i)) is"

lemma cursor_run_correct: "cursor_ok c \<Longrightarrow> cursor_run c is = map (Get (c_v c)) is"
  by (induction "is" arbitrary: c) (simp_all add: CursorGet_correct)

section \<open>Vectors implement the row table\<close>

lemma dom_card_room:
  assumes "vec_ok v" and "(if k = i then x else Get v k) = None"
  shows "card (dom ((v_map v)(unat i := x))) < 2 ^ 32"
proof -
  let ?m = "(v_map v)(unat i := x)"
  have "j < 2 ^ 32" if "j \<in> dom ?m" for j
  proof (cases "j = unat i")
    case True
    then show ?thesis using unsigned_less [of i] by simp
  next
    case False
    then have "j \<in> dom (v_map v)" using that by (auto split: if_splits)
    then show ?thesis using assms(1) unfolding vec_ok_def by blast
  qed
  then have "dom ?m \<subseteq> {..< 2 ^ 32}" by blast
  moreover have "unat k \<notin> dom ?m"
    using assms(2) Get_correct [OF assms(1), of k] by (auto simp: word_unat_eq_iff split: if_splits)
  moreover have "unat k \<in> {..< 2 ^ 32}" using unsigned_less [of k] by simp
  ultimately have "dom ?m \<subset> {..< 2 ^ 32}" by blast
  then have "card (dom ?m) < card {..< (2 :: nat) ^ 32}" by (intro psubset_card_mono) simp_all
  then show ?thesis by simp
qed

interpretation pv: row_table vec_ok empty_vector Get PSet
proof
  show "vec_ok empty_vector \<and> Get empty_vector i = None" for i
    by (simp add: Get_correct)
  show "vec_ok (PSet t i v) \<and> Get (PSet t i v) j = (if j = i then v else Get t j)"
    if "vec_ok t" "(if k = i then v else Get t k) = None" for t k i v j
  proof -
    have p: "vec_ok (PSet t i v) \<and> v_map (PSet t i v) = (v_map t)(unat i := v)"
      by (rule PSet_correct [OF that(1) dom_card_room [OF that]])
    then show ?thesis using Get_correct [OF that(1)] Get_correct [of "PSet t i v"] by (simp add: word_unat_eq_iff)
  qed
qed

lemma Get_empty [simp]: "Get empty_vector i = None"
  using pv.none_law by blast

section \<open>Properties\<close>

text \<open>
  C33: Writer.Set replaces the value at one index (nil unsets it) and leaves every other index
  as it was, growing or emptying the trie as needed, as long as some index stays unset.
\<close>
theorem vector_get_set:
  assumes "vec_ok v" and "(if k = i then val else Get v k) = None"
  shows "vec_ok (PSet v i val) \<and> Get (PSet v i val) j = (if j = i then val else Get v j)"
  by (rule pv.put_law [OF assms])

lemma vector_get_set_witness:
  "Get (PSet (PSet empty_vector 5 (Some ''a'')) 70000 (Some ''b'')) 5 = Some ''a''"
proof -
  have "vec_ok (PSet empty_vector 5 (Some ''a''))" "Get (PSet empty_vector 5 (Some ''a'')) j = (if j = 5 then Some ''a'' else Get empty_vector j)" for j
    using vector_get_set [of "empty_vector :: string vector" 0 5 "Some ''a''" j] by simp_all
  then show ?thesis
    using vector_get_set [of "PSet empty_vector 5 (Some ''a'')" 0 70000 "Some ''b''" 5] by simp
qed

text \<open>
  A Cursor, which answers from the leaf it remembers, reads at any sequence of indexes
  exactly what Get reads from the root.
\<close>
theorem cursor_reads: "cursor_run (Cursor v) is = map (Get v) is"
  using cursor_run_correct [of "Cursor v"] by (simp add: cursor_ok_def Cursor_def)

text \<open>
  Len is the number of indexes that hold a value, modulo \<open>2 ^ 32\<close>.
\<close>
theorem vector_Len:
  assumes "vec_ok v"
  shows "VLen v = int (card {i. Get v i \<noteq> None}) mod 2 ^ 32"
proof -
  have "unat ` {i. Get v i \<noteq> None} = dom (v_map v)"
  proof (intro set_eqI iffI)
    fix j assume "j \<in> dom (v_map v)"
    then have "j < 2 ^ 32" using assms unfolding vec_ok_def by blast
    then have "unat (word_of_nat j :: uint32) = j" by (simp add: unat_of_nat)
    then show "j \<in> unat ` {i. Get v i \<noteq> None}"
      using \<open>j \<in> dom (v_map v)\<close> Get_correct [OF assms, of "word_of_nat j"] by (intro image_eqI [of _ _ "word_of_nat j"]) auto
  qed (auto simp: Get_correct [OF assms])
  moreover have "card (unat ` {i. Get v i \<noteq> None}) = card {i. Get v i \<noteq> None}"
    by (rule card_image [OF inj_on_subset [OF inj_unsigned]]) simp
  ultimately show ?thesis using VLen_correct [OF assms] by simp
qed

lemma vector_Len_witness: "VLen (empty_vector :: string vector) = int (card {i. Get (empty_vector :: string vector) i \<noteq> None}) mod 2 ^ 32"
  by (rule vector_Len) simp

end
