(* ===== verification/PvecHeap.thy ===== *)
theory PvecHeap
  imports Pvec Memory
begin

text \<open>
  The vectors of \<^verbatim>\<open>internal/pvec/pvec.go\<close> as the source has them: nodes in memory, shared between
  versions, and a Writer that mutates in place the nodes of its own epoch and copies every other
  node first. The operations refine those on values, and no write reaches a node that another
  vector, published or owned by somebody else, still shows.
\<close>

section \<open>Nodes in memory\<close>

record 'v hnode = owned_node +
  n_used :: uint32
  n_vals :: "'v option list"
  n_kids :: "addr option list"

definition hnewLeaf :: "uint64 \<Rightarrow> 'v hnode" where
  "hnewLeaf e = \<lparr>n_epoch = e, n_used = 0, n_vals = replicate leafSize None, n_kids = []\<rparr>"

definition hnewInner :: "uint64 \<Rightarrow> 'v hnode" where
  "hnewInner e = \<lparr>n_epoch = e, n_used = 0, n_vals = [], n_kids = replicate innerSize None\<rparr>"

text \<open>Go's copy of one slice over the front of another.\<close>

definition copy_over :: "'a list \<Rightarrow> 'a list \<Rightarrow> 'a list" where
  "copy_over dst src = take (length dst) src @ drop (length src) dst"

section \<open>Writing\<close>

text \<open>\<open>own\<close> hands out a node that the writer may mutate.\<close>

definition own_node :: "addr option \<Rightarrow> bool \<Rightarrow> uint64 \<Rightarrow> 'v hnode heap \<Rightarrow> addr \<times> uint64 \<times> 'v hnode heap" where
  "own_node n is_leaf w H = (case begin_epoch w H of (e, H1) \<Rightarrow>
     (case n of
        None \<Rightarrow> (case alloc (if is_leaf then hnewLeaf e else hnewInner e) H1 of (x, H2) \<Rightarrow> (x, e, H2))
      | Some x \<Rightarrow> (let nd = node_at H1 x in
          if n_epoch nd = e then (x, e, H1)
          else (let c = (if is_leaf
                 then (let c = hnewLeaf e in c\<lparr>n_used := n_used nd, n_vals := copy_over (n_vals c) (n_vals nd)\<rparr>)
                 else (let c = hnewInner e in c\<lparr>n_used := n_used nd, n_kids := copy_over (n_kids c) (n_kids nd)\<rparr>))
            in (case alloc c H1 of (y, H2) \<Rightarrow> (y, e, H2))))))"

definition hused :: "'v hnode heap \<Rightarrow> addr option \<Rightarrow> uint32" where
  "hused H n = (case n of None \<Rightarrow> 0 | Some x \<Rightarrow> n_used (node_at H x))"

primrec hset :: "nat \<Rightarrow> addr option \<Rightarrow> uint32 \<Rightarrow> 'v option \<Rightarrow> uint64 \<Rightarrow> 'v hnode heap \<Rightarrow> addr option \<times> uint64 \<times> 'v hnode heap" where
  "hset 0 n i val w H = (case own_node n True w H of (x, w1, H1) \<Rightarrow>
     let nd = node_at H1 x; slot = leaf_slot i; was = (n_vals nd ! slot \<noteq> None);
         used = (if was \<and> val = None then n_used nd - 1 else if \<not> was \<and> val \<noteq> None then n_used nd + 1 else n_used nd);
         H2 = store x (nd\<lparr>n_used := used, n_vals := (n_vals nd)[slot := val]\<rparr>) H1
     in (if used = 0 then None else Some x, w1, H2))"
| "hset (Suc h) n i val w H = (case own_node n False w H of (x, w1, H1) \<Rightarrow>
     let slot = pslot h i; kid = n_kids (node_at H1 x) ! slot; before = hused H1 kid in
     (case hset h kid i val w1 H1 of (c, w2, H2) \<Rightarrow>
        let nd = node_at H2 x; used = n_used nd + (hused H2 c - before);
            H3 = store x (nd\<lparr>n_kids := (n_kids nd)[slot := c], n_used := used\<rparr>) H2
        in (if used = 0 then None else Some x, w2, H3)))"

record hvector =
  hv_root :: "addr option"
  hv_height :: nat

text \<open>Vector.Same: two vectors are the same object if their roots are.\<close>

definition Same :: "hvector \<Rightarrow> hvector \<Rightarrow> bool" where
  "Same v u \<longleftrightarrow> hv_root v = hv_root u"

text \<open>The loop that puts new roots on top of a vector that has one.\<close>

function hgrow :: "addr \<Rightarrow> nat \<Rightarrow> uint32 \<Rightarrow> uint64 \<Rightarrow> 'v hnode heap \<Rightarrow> addr \<times> nat \<times> uint64 \<times> 'v hnode heap" where
  "hgrow x h i w H = (if pbeyond h i
     then (case own_node None False w H of (y, w1, H1) \<Rightarrow>
       let nd = node_at H1 y
       in hgrow y (h + 1) i w1 (store y (nd\<lparr>n_kids := (n_kids nd)[0 := Some x], n_used := n_used (node_at H1 x)\<rparr>) H1))
     else (x, h, w, H))"
  by pat_completeness auto
termination
  by (relation "measure (\<lambda>(x, h, i, w, H). 32 - pspan h)") (auto simp: pbeyond_def pspan_def)

declare hgrow.simps [simp del]

primrec hleaf_at :: "nat \<Rightarrow> addr option \<Rightarrow> uint32 \<Rightarrow> 'v hnode heap \<Rightarrow> addr option" where
  "hleaf_at 0 n i H = n"
| "hleaf_at (Suc h) n i H = (case n of None \<Rightarrow> None | Some x \<Rightarrow> hleaf_at h (n_kids (node_at H x) ! pslot h i) i H)"

definition HGet :: "hvector \<Rightarrow> uint32 \<Rightarrow> 'v hnode heap \<Rightarrow> 'v option" where
  "HGet v i H = (case (if hv_root v = None \<or> pbeyond (hv_height v) i then None else hleaf_at (hv_height v) (hv_root v) i H) of
     None \<Rightarrow> None | Some x \<Rightarrow> n_vals (node_at H x) ! leaf_slot i)"

definition HSet :: "hvector \<Rightarrow> uint32 \<Rightarrow> 'v option \<Rightarrow> uint64 \<Rightarrow> 'v hnode heap \<Rightarrow> hvector \<times> uint64 \<times> 'v hnode heap" where
  "HSet v i val w H =
    (if val = None \<and> HGet v i H = None then (v, w, H)
     else
       (case (if val = None then (hv_root v, hv_height v, w, H)
              else case hv_root v of
                None \<Rightarrow> (None, raise_height (hv_height v) i, w, H)
              | Some x \<Rightarrow> (case hgrow x (hv_height v) i w H of (y, h, w1, H1) \<Rightarrow> (Some y, h, w1, H1))) of
          (root, height, w1, H1) \<Rightarrow> (case hset height root i val w1 H1 of
            (None, w2, H2) \<Rightarrow> (\<lparr>hv_root = None, hv_height = 0\<rparr>, w2, H2)
          | (Some y, w2, H2) \<Rightarrow> (\<lparr>hv_root = Some y, hv_height = height\<rparr>, w2, H2))))"

section \<open>The tree a vector shows\<close>

primrec tree :: "nat \<Rightarrow> 'v hnode nodes \<Rightarrow> addr option \<Rightarrow> 'v pnode option" where
  "tree 0 N n = (case n of None \<Rightarrow> None | Some x \<Rightarrow> (case N x of None \<Rightarrow> None | Some nd \<Rightarrow> Some (PNode (n_used nd) (n_vals nd) [])))"
| "tree (Suc h) N n = (case n of None \<Rightarrow> None | Some x \<Rightarrow>
     (case N x of None \<Rightarrow> None | Some nd \<Rightarrow> Some (PNode (n_used nd) [] (map (tree h N) (n_kids nd)))))"

primrec reach :: "nat \<Rightarrow> 'v hnode nodes \<Rightarrow> addr option \<Rightarrow> addr set" where
  "reach 0 N n = set_option n"
| "reach (Suc h) N n = (case n of None \<Rightarrow> {} | Some x \<Rightarrow>
     insert x (case N x of None \<Rightarrow> {} | Some nd \<Rightarrow> \<Union> (reach h N ` set (n_kids nd))))"

definition shape :: "bool \<Rightarrow> 'v hnode \<Rightarrow> bool" where
  "shape is_leaf nd \<longleftrightarrow> (if is_leaf then length (n_vals nd) = 16 \<and> n_kids nd = [] else n_vals nd = [] \<and> length (n_kids nd) = 32)"

text \<open>
  A tree that a writer of epoch \<open>e\<close> may write: its nodes are there, and what the writer owns
  below one child is not reached through another.
\<close>

definition apart :: "nat \<Rightarrow> 'v hnode nodes \<Rightarrow> uint64 \<Rightarrow> addr option list \<Rightarrow> bool" where
  "apart h N e ks \<longleftrightarrow> (\<forall>i<length ks. \<forall>j<length ks. i \<noteq> j \<longrightarrow> owned e N (reach h N (ks ! i)) \<inter> reach h N (ks ! j) = {})"

primrec good :: "nat \<Rightarrow> 'v hnode nodes \<Rightarrow> uint64 \<Rightarrow> addr option \<Rightarrow> bool" where
  "good 0 N e n \<longleftrightarrow> (\<forall>x. n = Some x \<longrightarrow> (\<exists>nd. N x = Some nd \<and> shape True nd))"
| "good (Suc h) N e n \<longleftrightarrow> (\<forall>x. n = Some x \<longrightarrow> (\<exists>nd. N x = Some nd \<and> shape False nd \<and>
     (\<forall>k\<in>set (n_kids nd). good h N e k \<and> x \<notin> reach h N k) \<and> apart h N e (n_kids nd)))"

lemma tree_None [simp]: "tree h N None = None" and reach_None [simp]: "reach h N None = {}" and good_None [simp]: "good h N e None"
  by (cases h; simp)+

lemma good_reach: "good h N e n \<Longrightarrow> reach h N n \<subseteq> dom N"
proof (induction h arbitrary: n)
  case 0
  then show ?case by (cases n) auto
next
  case (Suc h)
  show ?case
  proof (cases n)
    case (Some x)
    then obtain nd where nd: "N x = Some nd" "\<forall>k\<in>set (n_kids nd). good h N e k" using Suc.prems by auto
    then show ?thesis using Suc.IH Some by fastforce
  qed simp
qed

text \<open>What a vector shows depends on the nodes it reaches only.\<close>

lemma same_nodes:
  assumes "\<And>x. x \<in> reach h N n \<Longrightarrow> N' x = N x"
  shows "tree h N' n = tree h N n" "reach h N' n = reach h N n" "good h N' e n = good h N e n"
proof -
  have "tree h N' n = tree h N n \<and> reach h N' n = reach h N n \<and> good h N' e n = good h N e n"
    using assms
  proof (induction h arbitrary: n)
    case 0
    then show ?case by (cases n) auto
  next
    case (Suc h)
    show ?case
    proof (cases n)
      case (Some x)
      then have x: "N' x = N x" using Suc.prems by simp
      show ?thesis
      proof (cases "N x")
        case None
        then show ?thesis using Some x by simp
      next
        case nd: (Some nd)
        have k: "tree h N' k = tree h N k \<and> reach h N' k = reach h N k \<and> good h N' e k = good h N e k" if "k \<in> set (n_kids nd)" for k
          by (rule Suc.IH) (use Suc.prems Some nd that in auto)
        have o: "owned e N' (reach h N k) = owned e N (reach h N k)" if "k \<in> set (n_kids nd)" for k
          by (rule owned_cong) (use Suc.prems Some nd that in auto)
        have "apart h N' e (n_kids nd) = apart h N e (n_kids nd)" using k o by (simp add: apart_def)
        then show ?thesis using k Some nd x by (simp cong: map_cong)
      qed
    qed simp
  qed
  then show "tree h N' n = tree h N n" "reach h N' n = reach h N n" "good h N' e n = good h N e n" by blast+
qed

lemma good_unowned:
  assumes "good h N e n" and "\<And>x nd. x \<in> reach h N n \<Longrightarrow> N x = Some nd \<Longrightarrow> n_epoch nd \<noteq> e'"
  shows "good h N e' n"
  using assms
proof (induction h arbitrary: n)
  case (Suc h)
  show ?case
  proof (cases n)
    case (Some x)
    then obtain nd where nd: "N x = Some nd" "shape False nd" "\<forall>k\<in>set (n_kids nd). good h N e k \<and> x \<notin> reach h N k"
      using Suc.prems(1) by auto
    have "good h N e' k" if "k \<in> set (n_kids nd)" for k
      by (rule Suc.IH) (use nd that Suc.prems(2) Some in auto)
    moreover have "owned e' N (reach h N k) = {}" if "k \<in> set (n_kids nd)" for k
      using that Suc.prems(2) Some nd(1) by (auto simp: owned_def)
    then have "apart h N e' (n_kids nd)" by (simp add: apart_def)
    ultimately show ?thesis using nd Some by simp
  qed simp
qed simp

section \<open>A write refines the write on values\<close>

lemma copy_over_all [simp]: "length src = length dst \<Longrightarrow> copy_over dst src = src"
  by (simp add: copy_over_def)

text \<open>The node \<open>own_node\<close> hands out: the old one or a new one, with the old contents.\<close>

lemma own_node_spec:
  assumes e: "e \<noteq> 0" and t: "tidy H" and n: "\<And>x. n = Some x \<Longrightarrow> \<exists>nd. h_nodes H x = Some nd \<and> shape is_leaf nd"
  shows "\<exists>y nd H1. own_node n is_leaf e H = (y, e, H1) \<and> h_nodes H1 y = Some nd \<and> n_epoch nd = e \<and> shape is_leaf nd \<and> tidy H1 \<and>
    h_epochs H1 = h_epochs H \<and> n_used nd = hused H n \<and>
    n_vals nd = (case n of None \<Rightarrow> n_vals (if is_leaf then hnewLeaf e else hnewInner e) | Some x \<Rightarrow> n_vals (node_at H x)) \<and>
    n_kids nd = (case n of None \<Rightarrow> if is_leaf then [] else replicate 32 None | Some x \<Rightarrow> n_kids (node_at H x)) \<and>
    (n = Some y \<and> H1 = H \<or> y = h_next H \<and> h_next H1 = h_next H + 1 \<and> (\<forall>x. x \<noteq> y \<longrightarrow> h_nodes H1 x = h_nodes H x))"
proof (cases n)
  case None
  then show ?thesis using e t
    by (auto simp: own_node_def begin_epoch_def alloc_def hnewLeaf_def hnewInner_def hused_def shape_def tidy_def leafSize_def innerSize_def)
next
  case (Some x)
  then obtain nd where nd: "h_nodes H x = Some nd" "shape is_leaf nd" using n by blast
  then have at: "node_at H x = nd" by (simp add: node_at_def)
  show ?thesis
  proof (cases "n_epoch nd = e")
    case True
    then show ?thesis using Some nd at e t by (auto simp: own_node_def begin_epoch_def hused_def)
  next
    case False
    then show ?thesis using Some nd at e t
      by (auto simp: own_node_def begin_epoch_def alloc_def hnewLeaf_def hnewInner_def hused_def shape_def tidy_def Let_def leafSize_def innerSize_def)
  qed
qed

text \<open>What a write leaves alone, and the tree it returns.\<close>

definition wrote :: "nat \<Rightarrow> uint64 \<Rightarrow> 'v hnode heap \<Rightarrow> addr option \<Rightarrow> 'v hnode heap \<Rightarrow> addr option \<Rightarrow> bool" where
  "wrote h e H n H' n' \<longleftrightarrow> tidy H' \<and> h_next H \<le> h_next H' \<and> h_epochs H' = h_epochs H \<and>
     (\<forall>x<h_next H. x \<notin> owned e (h_nodes H) (reach h (h_nodes H) n) \<longrightarrow> h_nodes H' x = h_nodes H x) \<and>
     (\<forall>x nd. h_nodes H' x = Some nd \<longrightarrow> n_epoch nd = e \<or> h_nodes H x = Some nd) \<and>
     reach h (h_nodes H') n' \<subseteq> reach h (h_nodes H) n \<union> {h_next H..<h_next H'} \<and> good h (h_nodes H') e n'"

lemma wroteD:
  assumes "wrote h e H n H' n'"
  shows "tidy H'" "h_next H \<le> h_next H'" "h_epochs H' = h_epochs H"
    "x < h_next H \<Longrightarrow> x \<notin> owned e (h_nodes H) (reach h (h_nodes H) n) \<Longrightarrow> h_nodes H' x = h_nodes H x"
    "h_nodes H' x = Some nd \<Longrightarrow> n_epoch nd = e \<or> h_nodes H x = Some nd"
    "x \<in> reach h (h_nodes H') n' \<Longrightarrow> x \<in> reach h (h_nodes H) n \<or> h_next H \<le> x" "good h (h_nodes H') e n'"
  using assms unfolding wrote_def by auto

text \<open>What the writer owns below the result it owned before, or it is new.\<close>

lemma wrote_owned:
  assumes "wrote h e H n H' n'" and "x \<in> owned e (h_nodes H') (reach h (h_nodes H') n')"
  shows "x \<in> owned e (h_nodes H) (reach h (h_nodes H) n) \<or> h_next H \<le> x"
proof (rule ccontr)
  assume a: "\<not> ?thesis"
  then have x: "x < h_next H" "x \<notin> owned e (h_nodes H) (reach h (h_nodes H) n)" by auto
  have "x \<in> reach h (h_nodes H) n" using wroteD(6) [OF assms(1), of x] assms(2) x(1) by (auto simp: owned_def)
  then show False using wroteD(4) [OF assms(1) x] assms(2) x(2) by (auto simp: owned_def)
qed

lemma tidy_less: "tidy H \<Longrightarrow> good h (h_nodes H) e n \<Longrightarrow> x \<in> reach h (h_nodes H) n \<Longrightarrow> x < h_next H"
  using good_reach unfolding tidy_def by blast

text \<open>Other vectors do not see the write.\<close>

lemma wrote_frame:
  assumes w: "wrote h e H n H' n'" and t: "tidy H" and g: "good k (h_nodes H) e' m"
    and d: "owned e (h_nodes H) (reach h (h_nodes H) n) \<inter> reach k (h_nodes H) m = {}"
  shows "tree k (h_nodes H') m = tree k (h_nodes H) m" "reach k (h_nodes H') m = reach k (h_nodes H) m"
    "good k (h_nodes H') e'' m = good k (h_nodes H) e'' m" "x \<in> reach k (h_nodes H) m \<Longrightarrow> h_nodes H' x = h_nodes H x"
proof -
  have s: "h_nodes H' x = h_nodes H x" if "x \<in> reach k (h_nodes H) m" for x
    using wroteD(4) [OF w, of x] tidy_less [OF t g that] d that by blast
  show "tree k (h_nodes H') m = tree k (h_nodes H) m" "reach k (h_nodes H') m = reach k (h_nodes H) m"
    "good k (h_nodes H') e'' m = good k (h_nodes H) e'' m"
    using same_nodes [of k "h_nodes H" m "h_nodes H'"] s by blast+
  show "x \<in> reach k (h_nodes H) m \<Longrightarrow> h_nodes H' x = h_nodes H x" by (rule s)
qed

lemma hused_tree: "good h (h_nodes H) e n \<Longrightarrow> hused H n = used_of (tree h (h_nodes H) n)"
  by (cases h; cases n) (auto simp: hused_def used_of_def node_at_def)

lemma own_leaf_tree:
  assumes "\<And>x. n = Some x \<Longrightarrow> \<exists>nd. h_nodes H x = Some nd \<and> shape True nd"
    and "n_used nd = hused H n" and "n_kids nd = []"
    and "n_vals nd = (case n of None \<Rightarrow> n_vals (hnewLeaf e) | Some x \<Rightarrow> n_vals (node_at H x))"
  shows "own_leaf (tree 0 (h_nodes H) n) = PNode (n_used nd) (n_vals nd) []"
proof (cases n)
  case None
  then show ?thesis using assms by (simp add: own_leaf_def newLeaf_def hnewLeaf_def hused_def)
next
  case (Some x)
  then obtain m where "h_nodes H x = Some m" using assms(1) by blast
  then show ?thesis using assms Some by (simp add: own_leaf_def hused_def node_at_def)
qed

lemma own_inner_tree:
  assumes "\<And>x. n = Some x \<Longrightarrow> \<exists>nd. h_nodes H x = Some nd \<and> shape False nd"
    and "n_used nd = hused H n"
    and "n_kids nd = (case n of None \<Rightarrow> replicate 32 None | Some x \<Rightarrow> n_kids (node_at H x))"
  shows "own_inner (tree (Suc h) (h_nodes H) n) = PNode (n_used nd) [] (map (tree h (h_nodes H)) (n_kids nd))"
proof (cases n)
  case None
  then show ?thesis using assms by (simp add: own_inner_def newInner_def hused_def innerSize_def)
next
  case (Some x)
  then obtain m where "h_nodes H x = Some m" using assms(1) by blast
  then show ?thesis using assms Some by (simp add: own_inner_def hused_def node_at_def)
qed

text \<open>The step of a directory node after the write of one child.\<close>

lemma kid_step:
  fixes u :: uint32
  assumes t: "tidy H" and x: "h_nodes H x = Some nd" "n_epoch nd = e" "length (n_kids nd) = 32" "n_vals nd = []"
    and g: "\<And>k. k \<in> set (n_kids nd) \<Longrightarrow> good h (h_nodes H) e k \<and> x \<notin> reach h (h_nodes H) k" and ap: "apart h (h_nodes H) e (n_kids nd)"
    and s: "s < 32" and w: "wrote h e H (n_kids nd ! s) H2 c"
  defines "H3 \<equiv> store x (nd\<lparr>n_kids := (n_kids nd)[s := c], n_used := u\<rparr>) H2"
  shows "h_nodes H2 x = Some nd"
    and "tree (Suc h) (h_nodes H3) (Some x) = Some (PNode u [] ((map (tree h (h_nodes H)) (n_kids nd))[s := tree h (h_nodes H2) c]))"
    and "good (Suc h) (h_nodes H3) e (Some x)"
    and "reach (Suc h) (h_nodes H3) (Some x) \<subseteq> insert x (\<Union> (reach h (h_nodes H) ` set (n_kids nd))) \<union> {h_next H..<h_next H3}"
    and "tidy H3"
proof -
  let ?N = "h_nodes H" and ?N2 = "h_nodes H2" and ?N3 = "h_nodes H3" and ?ks = "n_kids nd"
  have k: "?ks ! j \<in> set ?ks" if "j < 32" for j using that x(3) by simp
  have xl: "x < h_next H" using t x(1) by (auto simp: tidy_def)
  show x2: "?N2 x = Some nd"
    using wroteD(4) [OF w xl] g [OF k [OF s]] x(1) by (auto simp: owned_def)
  have x3: "?N3 x = Some (nd\<lparr>n_kids := ?ks[s := c], n_used := u\<rparr>)" and other: "y \<noteq> x \<Longrightarrow> ?N3 y = ?N2 y" for y
    by (simp_all add: H3_def store_def)
  have c: "x \<notin> reach h ?N2 c" using wroteD(6) [OF w, of x] xl g [OF k [OF s]] by auto
  have c3: "?N3 y = ?N2 y" if "y \<in> reach h ?N2 c" for y using other c that by metis
  note C = same_nodes [of h ?N2 c ?N3, OF c3]
  have rest: "?N3 y = ?N y" if "j < 32" "j \<noteq> s" "y \<in> reach h ?N (?ks ! j)" for j y
  proof -
    have "owned e ?N (reach h ?N (?ks ! s)) \<inter> reach h ?N (?ks ! j) = {}" using ap that s x(3) by (auto simp: apart_def)
    then have "?N2 y = ?N y" using wrote_frame(4) [OF w t, of h e "?ks ! j" y] g [OF k [OF that(1)]] that(3) by blast
    moreover have "y \<noteq> x" using g [OF k [OF that(1)]] that(3) by blast
    ultimately show ?thesis using other by simp
  qed
  have R: "tree h ?N3 (?ks ! j) = tree h ?N (?ks ! j)" "reach h ?N3 (?ks ! j) = reach h ?N (?ks ! j)" "good h ?N3 e (?ks ! j)"
      "owned e ?N3 (reach h ?N (?ks ! j)) = owned e ?N (reach h ?N (?ks ! j))" if "j < 32" "j \<noteq> s" for j
    using same_nodes [of h ?N "?ks ! j" ?N3, OF rest [OF that]] g [OF k [OF that(1)]] owned_cong [of _ ?N3 ?N e, OF rest [OF that]]
    by auto
  show "tidy H3" unfolding H3_def using wroteD(1,2) [OF w] xl by (intro tidy_store) auto
  have "map (tree h ?N3) (?ks[s := c]) = (map (tree h ?N) ?ks)[s := tree h ?N2 c]"
  proof (rule nth_equalityI)
    fix j assume "j < length (map (tree h ?N3) (?ks[s := c]))"
    then show "map (tree h ?N3) (?ks[s := c]) ! j = (map (tree h ?N) ?ks)[s := tree h ?N2 c] ! j"
      using x(3) R(1) [of j] C(1) by (cases "j = s") simp_all
  qed simp
  then show "tree (Suc h) ?N3 (Some x) = Some (PNode u [] ((map (tree h ?N) ?ks)[s := tree h ?N2 c]))"
    using x3 by simp
  have nk: "?ks[s := c] ! j = (if j = s then c else ?ks ! j)" if "j < 32" for j using that x(3) s by simp
  have kid: "good h ?N3 e (?ks[s := c] ! j) \<and> x \<notin> reach h ?N3 (?ks[s := c] ! j)" if "j < 32" for j
    using wroteD(7) [OF w] C(2,3) c R(2,3) [OF that] g [OF k [OF that]] by (simp add: nk [OF that])
  have own_c: "y \<in> owned e ?N (reach h ?N (?ks ! s)) \<or> h_next H \<le> y" if "y \<in> owned e ?N3 (reach h ?N3 c)" for y
    using wrote_owned [OF w, of y] that owned_cong [of "reach h ?N2 c" ?N3 ?N2 e] c3 C(2) by auto
  have low: "y < h_next H" if "j < 32" "y \<in> reach h ?N (?ks ! j)" for j y
    using tidy_less [OF t] g [OF k [OF that(1)]] that(2) by blast
  have "apart h ?N3 e (?ks[s := c])"
    unfolding apart_def
  proof (intro allI impI)
    fix i j assume ij: "i < length (?ks[s := c])" "j < length (?ks[s := c])" "i \<noteq> j"
    then have l: "i < 32" "j < 32" using x(3) by simp_all
    have a: "owned e ?N (reach h ?N (?ks ! i)) \<inter> reach h ?N (?ks ! j) = {}" using ap l ij(3) x(3) by (simp add: apart_def)
    consider "i = s" | "j = s" | "i \<noteq> s" "j \<noteq> s" by blast
    then show "owned e ?N3 (reach h ?N3 (?ks[s := c] ! i)) \<inter> reach h ?N3 (?ks[s := c] ! j) = {}"
    proof cases
      case 1
      have "y \<notin> reach h ?N (?ks ! j)" if "y \<in> owned e ?N3 (reach h ?N3 c)" for y
        using own_c [OF that] a low [OF l(2), of y] unfolding 1 by force
      then show ?thesis unfolding nk [OF l(1)] nk [OF l(2)] using 1 ij(3) R(2) [OF l(2)] by auto
    next
      case 2
      have "y \<notin> reach h ?N3 c" if "y \<in> owned e ?N (reach h ?N (?ks ! i))" for y
      proof
        assume "y \<in> reach h ?N3 c"
        then have "y \<in> reach h ?N (?ks ! s) \<or> h_next H \<le> y" using wroteD(6) [OF w] C(2) by auto
        then show False using a that low [OF l(1), of y] unfolding 2 by (auto simp: owned_def)
      qed
      then show ?thesis unfolding nk [OF l(1)] nk [OF l(2)] using 2 ij(3) R(2,4) [OF l(1)] by auto
    next
      case 3
      then show ?thesis unfolding nk [OF l(1)] nk [OF l(2)] using a R(2,4) [OF l(1)] R(2) [OF l(2)] by simp
    qed
  qed
  moreover have "good h ?N3 e q \<and> x \<notin> reach h ?N3 q" if "q \<in> set (?ks[s := c])" for q
    using kid that x(3) by (metis in_set_conv_nth length_list_update)
  ultimately show "good (Suc h) ?N3 e (Some x)" using x3 x(3,4) by (simp add: shape_def)
  have "reach h ?N3 (?ks[s := c] ! j) \<subseteq> \<Union> (reach h ?N ` set ?ks) \<union> {h_next H..<h_next H3}" if "j < 32" for j
  proof (cases "j = s")
    case True
    have "y < h_next H3" if "y \<in> reach h ?N2 c" for y
      using tidy_less [OF wroteD(1) [OF w] wroteD(7) [OF w] that] by (simp add: H3_def store_def)
    then show ?thesis using True wroteD(6) [OF w] C(2) k [OF s] s by (auto simp: nk that) fastforce+
  next
    case False
    then show ?thesis using R(2) [OF that] k [OF that] by (auto simp: nk that)
  qed
  then have "reach h ?N3 q \<subseteq> \<Union> (reach h ?N ` set ?ks) \<union> {h_next H..<h_next H3}" if "q \<in> set (?ks[s := c])" for q
    using that x(3) by (metis in_set_conv_nth length_list_update)
  then show "reach (Suc h) ?N3 (Some x) \<subseteq> insert x (\<Union> (reach h ?N ` set ?ks)) \<union> {h_next H..<h_next H3}"
    using x3 by fastforce
qed

lemma hset_correct:
  assumes "e \<noteq> 0"
  shows "tidy H \<Longrightarrow> good h (h_nodes H) e n \<Longrightarrow>
    \<exists>n' H'. hset h n i val e H = (n', e, H') \<and> wrote h e H n H' n' \<and>
      tree h (h_nodes H') n' = pset h (tree h (h_nodes H) n) i val"
proof (induction h arbitrary: n H)
  case 0
  have sh: "\<And>x. n = Some x \<Longrightarrow> \<exists>nd. h_nodes H x = Some nd \<and> shape True nd" using 0 by simp
  obtain y nd H1 where o: "own_node n True e H = (y, e, H1)" "h_nodes H1 y = Some nd" "n_epoch nd = e" "shape True nd" "tidy H1"
      "h_epochs H1 = h_epochs H" "n_used nd = hused H n" "n_vals nd = (case n of None \<Rightarrow> n_vals (hnewLeaf e) | Some x \<Rightarrow> n_vals (node_at H x))"
      and old: "n = Some y \<and> H1 = H \<or> y = h_next H \<and> h_next H1 = h_next H + 1 \<and> (\<forall>x. x \<noteq> y \<longrightarrow> h_nodes H1 x = h_nodes H x)"
    using own_node_spec [where n = n and is_leaf = True, OF assms 0(1) sh, unfolded if_True] by blast
  have kids: "n_kids nd = []" using o(4) by (simp add: shape_def)
  define used where "used = (if n_vals nd ! leaf_slot i \<noteq> None \<and> val = None then n_used nd - 1
     else if \<not> n_vals nd ! leaf_slot i \<noteq> None \<and> val \<noteq> None then n_used nd + 1 else n_used nd)"
  let ?nd = "nd\<lparr>n_used := used, n_vals := (n_vals nd)[leaf_slot i := val]\<rparr>"
  let ?H = "store y ?nd H1" and ?r = "if used = 0 then None else Some y"
  have at: "node_at H1 y = nd" using o(2) by (simp add: node_at_def)
  have y: "y < h_next H1" using o(2,5) by (auto simp: tidy_def)
  have run: "hset 0 n i val e H = (?r, e, ?H)"
    using o(1) by (simp only: hset.simps prod.case Let_def at) (simp add: used_def)
  have tr: "tree 0 (h_nodes ?H) ?r = pset 0 (tree 0 (h_nodes H) n) i val"
    using own_leaf_tree [OF sh o(7) kids o(8)] kids by (simp add: store_def used_def Let_def)
  have "wrote 0 e H n ?H ?r"
    unfolding wrote_def
  proof (intro conjI allI impI)
    show "tidy ?H" by (rule tidy_store [OF o(5) y])
    show "h_next H \<le> h_next ?H" using old by (auto simp: store_def)
    show "h_epochs ?H = h_epochs H" using o(6) by (simp add: store_def)
    show "h_nodes ?H x = h_nodes H x" if "x < h_next H" "x \<notin> owned e (h_nodes H) (reach 0 (h_nodes H) n)" for x
      using that old o(2,3) by (auto simp: store_def owned_def)
    show "n_epoch m = e \<or> h_nodes H x = Some m" if "h_nodes ?H x = Some m" for x m
      using that old o(3) by (auto simp: store_def split: if_splits)
    show "reach 0 (h_nodes ?H) ?r \<subseteq> reach 0 (h_nodes H) n \<union> {h_next H..<h_next ?H}" using old y by (auto simp: store_def)
    show "good 0 (h_nodes ?H) e ?r" using o(4) by (simp add: store_def shape_def)
  qed
  then show ?case using run tr by blast
next
  case (Suc h)
  have sh: "\<And>x. n = Some x \<Longrightarrow> \<exists>nd. h_nodes H x = Some nd \<and> shape False nd" using Suc.prems(2) by auto
  obtain y nd H1 where o: "own_node n False e H = (y, e, H1)" "h_nodes H1 y = Some nd" "n_epoch nd = e" "shape False nd" "tidy H1"
      "h_epochs H1 = h_epochs H" "n_used nd = hused H n" "n_kids nd = (case n of None \<Rightarrow> replicate 32 None | Some x \<Rightarrow> n_kids (node_at H x))"
      and old: "n = Some y \<and> H1 = H \<or> y = h_next H \<and> h_next H1 = h_next H + 1 \<and> (\<forall>x. x \<noteq> y \<longrightarrow> h_nodes H1 x = h_nodes H x)"
    using own_node_spec [where n = n and is_leaf = False, OF assms Suc.prems(1) sh, unfolded if_False] by blast
  have at: "node_at H1 y = nd" using o(2) by (simp add: node_at_def)
  have lens: "length (n_kids nd) = 32" "n_vals nd = []" using o(4) by (simp_all add: shape_def)
  have kids: "good h (h_nodes H) e k" "reach h (h_nodes H) k \<subseteq> reach (Suc h) (h_nodes H) n" "y \<notin> reach h (h_nodes H) k"
    if k: "k \<in> set (n_kids nd)" for k
  proof -
    have "good h (h_nodes H) e k \<and> reach h (h_nodes H) k \<subseteq> reach (Suc h) (h_nodes H) n \<and> (\<forall>x. n = Some x \<longrightarrow> x \<notin> reach h (h_nodes H) k)"
    proof (cases n)
      case None
      then show ?thesis using k o(8) by (simp add: in_set_replicate)
    next
      case (Some x)
      then show ?thesis using Suc.prems(2) k o(8) by (auto simp: node_at_def)
    qed
    then show "good h (h_nodes H) e k" "reach h (h_nodes H) k \<subseteq> reach (Suc h) (h_nodes H) n" "y \<notin> reach h (h_nodes H) k"
      using old tidy_less [OF Suc.prems(1), of h e k y] by auto
  qed
  have ap: "apart h (h_nodes H) e (n_kids nd)"
  proof (cases n)
    case None
    then show ?thesis using o(8) by (simp add: apart_def owned_def)
  next
    case (Some x)
    then show ?thesis using Suc.prems(2) o(8) by (auto simp: node_at_def)
  qed
  have off: "h_nodes H1 x = h_nodes H x" if "x \<noteq> y" for x using old that by auto
  have same: "tree h (h_nodes H1) k = tree h (h_nodes H) k" "reach h (h_nodes H1) k = reach h (h_nodes H) k" "good h (h_nodes H1) e k"
      "owned e (h_nodes H1) (reach h (h_nodes H) k) = owned e (h_nodes H) (reach h (h_nodes H) k)" if k: "k \<in> set (n_kids nd)" for k
  proof -
    have "h_nodes H1 x = h_nodes H x" if "x \<in> reach h (h_nodes H) k" for x using off kids(3) [OF k] that by metis
    note r = same_nodes [of h "h_nodes H" k "h_nodes H1", OF this] owned_cong [of _ "h_nodes H1" "h_nodes H" e, OF this]
    show "tree h (h_nodes H1) k = tree h (h_nodes H) k" "reach h (h_nodes H1) k = reach h (h_nodes H) k" "good h (h_nodes H1) e k"
      "owned e (h_nodes H1) (reach h (h_nodes H) k) = owned e (h_nodes H) (reach h (h_nodes H) k)"
      using r kids(1) [OF k] by simp_all
  qed
  let ?s = "pslot h i" and ?kid = "n_kids nd ! pslot h i"
  have kid: "?kid \<in> set (n_kids nd)" using lens(1) by simp
  obtain c H2 where c: "hset h ?kid i val e H1 = (c, e, H2)" "wrote h e H1 ?kid H2 c"
      "tree h (h_nodes H2) c = pset h (tree h (h_nodes H) ?kid) i val"
    using Suc.IH [OF o(5) same(3) [OF kid]] same(1) [OF kid] by auto
  define u where "u = n_used nd + (hused H2 c - hused H1 ?kid)"
  have g1: "good h (h_nodes H1) e k \<and> y \<notin> reach h (h_nodes H1) k" if "k \<in> set (n_kids nd)" for k
    using same(2,3) kids(3) that by simp
  have ap1: "apart h (h_nodes H1) e (n_kids nd)" using ap same(2,4) by (simp add: apart_def)
  note st = kid_step(1) [OF o(5,2,3) lens g1 ap1 pslot_less c(2)] kid_step(2-5) [where u = u, OF o(5,2,3) lens g1 ap1 pslot_less c(2)]
  let ?H = "store y (nd\<lparr>n_kids := (n_kids nd)[?s := c], n_used := u\<rparr>) H2" and ?r = "if u = 0 then None else Some y"
  have at2: "node_at H2 y = nd" using st(1) by (simp add: node_at_def)
  have run: "hset (Suc h) n i val e H = (?r, e, ?H)"
    using o(1) by (simp only: hset.simps prod.case Let_def at c(1) at2) (simp add: u_def)
  have kt: "tree h (h_nodes H1) ?kid = tree h (h_nodes H) ?kid" "map (tree h (h_nodes H1)) (n_kids nd) = map (tree h (h_nodes H)) (n_kids nd)"
    using same(1) kid by simp_all
  have us: "hused H2 c = used_of (pset h (tree h (h_nodes H) ?kid) i val)" "hused H1 ?kid = used_of (tree h (h_nodes H) ?kid)"
    using hused_tree [OF wroteD(7) [OF c(2)]] hused_tree [OF same(3) [OF kid]] c(3) kt(1) by simp_all
  have "pset (Suc h) (tree (Suc h) (h_nodes H) n) i val =
      (if u = 0 then None else Some (PNode u [] ((map (tree h (h_nodes H)) (n_kids nd))[?s := pset h (tree h (h_nodes H) ?kid) i val])))"
    using own_inner_tree [OF sh o(7,8), of h] lens(1) by (simp add: Let_def u_def us)
  then have tr: "tree (Suc h) (h_nodes ?H) ?r = pset (Suc h) (tree (Suc h) (h_nodes H) n) i val"
    using st(2) unfolding c(3) kt(2) by (simp del: tree.simps)
  have nx: "h_next H \<le> h_next H1" "y < h_next H1" "h_next H1 \<le> h_next ?H"
    using old wroteD(2) [OF c(2)] tidy_less [OF o(5)] o(2,5) by (auto simp: store_def tidy_def)
  have "wrote (Suc h) e H n ?H ?r"
    unfolding wrote_def
  proof (intro conjI allI impI)
    show "tidy ?H" by (rule st(5))
    show "h_next H \<le> h_next ?H" using nx by simp
    show "h_epochs ?H = h_epochs H" using wroteD(3) [OF c(2)] o(6) by (simp add: store_def)
    show "h_nodes ?H x = h_nodes H x" if x: "x < h_next H" "x \<notin> owned e (h_nodes H) (reach (Suc h) (h_nodes H) n)" for x
    proof -
      have "x \<noteq> y" using x old o(2,3) by (auto simp: owned_def)
      moreover have "x \<notin> owned e (h_nodes H1) (reach h (h_nodes H1) ?kid)"
        using x(2) same(2,4) [OF kid] kids(2) [OF kid] by (auto simp: owned_def)
      then have "h_nodes H2 x = h_nodes H1 x" using wroteD(4) [OF c(2), of x] x(1) nx(1) by simp
      ultimately show ?thesis using off by (simp add: store_def)
    qed
    show "n_epoch m = e \<or> h_nodes H x = Some m" if "h_nodes ?H x = Some m" for x m
      using that o(3) wroteD(5) [OF c(2), of x m] off [of x] by (auto simp: store_def split: if_splits)
    show "reach (Suc h) (h_nodes ?H) ?r \<subseteq> reach (Suc h) (h_nodes H) n \<union> {h_next H..<h_next ?H}"
    proof (cases "u = 0")
      case False
      have "y \<in> reach (Suc h) (h_nodes H) n \<union> {h_next H..<h_next ?H}" using old nx by auto
      moreover have "\<Union> (reach h (h_nodes H1) ` set (n_kids nd)) \<subseteq> reach (Suc h) (h_nodes H) n" using same(2) kids(2) by auto
      moreover have "{h_next H1..<h_next ?H} \<subseteq> {h_next H..<h_next ?H}" using nx(1) by auto
      ultimately have "insert y (\<Union> (reach h (h_nodes H1) ` set (n_kids nd))) \<union> {h_next H1..<h_next ?H}
          \<subseteq> reach (Suc h) (h_nodes H) n \<union> {h_next H..<h_next ?H}" by blast
      with st(4) have "reach (Suc h) (h_nodes ?H) (Some y) \<subseteq> reach (Suc h) (h_nodes H) n \<union> {h_next H..<h_next ?H}" by (rule subset_trans)
      then show ?thesis using False by (simp only: if_False)
    qed simp
    show "good (Suc h) (h_nodes ?H) e ?r" using st(3) by (simp del: good.simps)
  qed
  then show ?case using run tr by blast
qed

section \<open>Vectors in memory\<close>

definition vec_of :: "'v hnode nodes \<Rightarrow> hvector \<Rightarrow> 'v vector" where
  "vec_of N v = \<lparr>v_root = tree (hv_height v) N (hv_root v), v_height = hv_height v\<rparr>"

definition vreach :: "'v hnode nodes \<Rightarrow> hvector \<Rightarrow> addr set" where
  "vreach N v = reach (hv_height v) N (hv_root v)"

definition vgood :: "'v hnode nodes \<Rightarrow> uint64 \<Rightarrow> hvector \<Rightarrow> bool" where
  "vgood N e v = good (hv_height v) N e (hv_root v)"

lemma wrote_changed: "wrote h e H n H' n' \<Longrightarrow> changed e H (reach h (h_nodes H) n) H' (reach h (h_nodes H') n')"
  unfolding changed_def using wroteD [of h e H n H' n'] by blast

subsection \<open>Reading\<close>

lemma hleaf_at_correct: "good h (h_nodes H) e n \<Longrightarrow> leaf_at h (tree h (h_nodes H) n) i = tree 0 (h_nodes H) (hleaf_at h n i H)
    \<and> good 0 (h_nodes H) e (hleaf_at h n i H)"
proof (induction h arbitrary: n)
  case (Suc h)
  show ?case
  proof (cases n)
    case (Some x)
    then obtain nd where nd: "h_nodes H x = Some nd" "shape False nd" "\<forall>k\<in>set (n_kids nd). good h (h_nodes H) e k" using Suc.prems by auto
    have l: "pslot h i < length (n_kids nd)" using nd(2) by (simp add: shape_def)
    then have "good h (h_nodes H) e (n_kids nd ! pslot h i)" using nd(3) by simp
    then show ?thesis using Suc.IH [of "n_kids nd ! pslot h i"] Some nd(1) l by (simp add: node_at_def del: tree.simps(1) good.simps(1))
  qed simp
qed simp

lemma tree_some: "good h N e (Some x) \<Longrightarrow> tree h N (Some x) \<noteq> None"
  by (cases h) auto

lemma HGet_correct:
  assumes "vgood (h_nodes H) e v"
  shows "HGet v i H = Get (vec_of (h_nodes H) v) i"
proof -
  have r: "hv_root v = None \<longleftrightarrow> v_root (vec_of (h_nodes H) v) = None"
    using assms tree_some [of "hv_height v" "h_nodes H" e] by (cases "hv_root v") (auto simp: vec_of_def vgood_def)
  note l = hleaf_at_correct [OF assms [unfolded vgood_def], of i]
  show ?thesis
  proof (cases "hv_root v = None \<or> pbeyond (hv_height v) i")
    case True
    then show ?thesis using r by (auto simp: HGet_def Get_def leaf_def vec_of_def)
  next
    case False
    then have n: "\<not> (v_root (vec_of (h_nodes H) v) = None \<or> pbeyond (v_height (vec_of (h_nodes H) v)) i)"
      unfolding r [symmetric] by (simp add: vec_of_def)
    have "leaf (vec_of (h_nodes H) v) i = tree 0 (h_nodes H) (hleaf_at (hv_height v) (hv_root v) i H)"
      unfolding leaf_def if_not_P [OF n] using l by (simp add: vec_of_def del: tree.simps)
    then show ?thesis using False l by (auto simp: HGet_def Get_def node_at_def split: option.split)
  qed
qed

text \<open>Vectors that are the same object show the same values.\<close>

lemma leaf_at_None [simp]: "leaf_at h None i = None"
  by (cases h) simp_all

lemma same_root_heights:
  "good h N e n \<Longrightarrow> good h' N e' n \<Longrightarrow> n \<noteq> None \<Longrightarrow>
   h = h' \<or> (\<forall>i. leaf_at h (tree h N n) i = None) \<and> (\<forall>i. leaf_at h' (tree h' N n) i = None)"
proof (induction h arbitrary: h' n)
  case 0
  then show ?case by (cases h') (auto simp: shape_def)
next
  case (Suc a)
  obtain x where x: "n = Some x" using Suc.prems(3) by blast
  obtain nd where nd: "N x = Some nd" "shape False nd" "\<And>k. k \<in> set (n_kids nd) \<Longrightarrow> good a N e k" using Suc.prems(1) x by auto
  have "h' \<noteq> 0" using Suc.prems(2) x nd(1,2) by (cases h') (auto simp: shape_def)
  then obtain b where b: "h' = Suc b" by (cases h') auto
  have g: "good b N e' k" if "k \<in> set (n_kids nd)" for k using Suc.prems(2) that x nd(1) unfolding b by auto
  show ?case
  proof (cases "a = b")
    case False
    have k: "leaf_at a (tree a N (n_kids nd ! l)) i = None \<and> leaf_at b (tree b N (n_kids nd ! l)) i = None"
      if "l < length (n_kids nd)" for l i
    proof (cases "n_kids nd ! l")
      case None
      then show ?thesis by simp
    next
      case (Some y)
      have m: "n_kids nd ! l \<in> set (n_kids nd)" using that by simp
      then show ?thesis using Suc.IH [OF nd(3) [OF m] g [OF m]] False Some by auto
    qed
    have "pslot c i < length (n_kids nd)" for c i using nd(2) by (simp add: shape_def)
    then show ?thesis using k x nd(1) unfolding b by simp
  qed (simp add: b)
qed

lemma Same_rows:
  assumes "Same v u" and "vgood N e v" and "vgood N e' u"
  shows "Get (vec_of N v) i = Get (vec_of N u) i"
proof (cases "hv_root v")
  case None
  then show ?thesis using assms(1) by (simp add: Same_def vec_of_def Get_def leaf_def)
next
  case (Some x)
  then have u: "hv_root u = Some x" using assms(1) by (simp add: Same_def)
  have "hv_height v = hv_height u \<or> (\<forall>i. leaf_at (hv_height v) (tree (hv_height v) N (Some x)) i = None) \<and>
      (\<forall>i. leaf_at (hv_height u) (tree (hv_height u) N (Some x)) i = None)"
    by (rule same_root_heights) (use assms(2,3) Some u in \<open>auto simp: vgood_def\<close>)
  then show ?thesis
  proof
    assume "hv_height v = hv_height u"
    then show ?thesis using Some u by (simp add: vec_of_def)
  next
    assume "(\<forall>i. leaf_at (hv_height v) (tree (hv_height v) N (Some x)) i = None) \<and>
      (\<forall>i. leaf_at (hv_height u) (tree (hv_height u) N (Some x)) i = None)"
    then have "leaf (vec_of N v) i = None" "leaf (vec_of N u) i = None" using Some u by (auto simp: leaf_def vec_of_def)
    then show ?thesis by (simp add: Get_def)
  qed
qed

subsection \<open>Growing\<close>

text \<open>A new root above \<open>x\<close>.\<close>

definition rooted :: "uint64 \<Rightarrow> addr \<Rightarrow> 'v hnode heap \<Rightarrow> 'v hnode heap" where
  "rooted e x H = H\<lparr>h_next := h_next H + 1, h_nodes := (h_nodes H)(h_next H \<mapsto>
     \<lparr>n_epoch = e, n_used = n_used (node_at H x), n_vals = [], n_kids = (replicate 32 None)[0 := Some x]\<rparr>)\<rparr>"

lemma hgrow_step:
  assumes "e \<noteq> 0" and "x \<noteq> h_next H" and "pbeyond h i"
  shows "hgrow x h i e H = hgrow (h_next H) (h + 1) i e (rooted e x H)"
  using assms by (subst hgrow.simps)
    (simp add: own_node_def begin_epoch_def alloc_def store_def node_at_def hnewInner_def innerSize_def rooted_def Let_def)

lemma rooted_correct:
  assumes t: "tidy H" and g: "good h (h_nodes H) e (Some x)" and p: "tree h (h_nodes H) (Some x) = Some p"
  shows "tidy (rooted e x H)" "good (Suc h) (h_nodes (rooted e x H)) e (Some (h_next H))"
    "tree (Suc h) (h_nodes (rooted e x H)) (Some (h_next H)) = Some (PNode (p_used p) [] ((p_kids newInner)[0 := Some p]))"
    "changed e H (reach h (h_nodes H) (Some x)) (rooted e x H) (reach (Suc h) (h_nodes (rooted e x H)) (Some (h_next H)))"
proof -
  let ?y = "h_next H" and ?N = "h_nodes H" and ?N2 = "h_nodes (rooted e x H)"
  let ?ks = "(replicate 32 None)[0 := Some x] :: addr option list"
  have y: "?y \<notin> reach h ?N (Some x)" using tidy_less [OF t g] by blast
  have N2: "?N2 ?y = Some \<lparr>n_epoch = e, n_used = n_used (node_at H x), n_vals = [], n_kids = ?ks\<rparr>"
      "\<And>z. z \<noteq> ?y \<Longrightarrow> ?N2 z = ?N z" by (simp_all add: rooted_def)
  have "?N2 z = ?N z" if "z \<in> reach h ?N (Some x)" for z using N2(2) y that by metis
  note S = same_nodes [of h ?N "Some x" ?N2, OF this]
  have ks: "set ?ks = {Some x, None}" by (auto simp: set_replicate_conv_if upd_conv_take_nth_drop)
  have nth: "?ks ! j = (if j = 0 then Some x else None)" if "j < 32" for j using that by simp
  show t2: "tidy (rooted e x H)" using t by (auto simp: tidy_def rooted_def)
  have "apart h ?N2 e ?ks" by (auto simp: apart_def nth owned_def)
  then show "good (Suc h) ?N2 e (Some ?y)" using N2(1) S(2,3) g y ks by (simp add: shape_def)
  have "n_used (node_at H x) = p_used p" using hused_tree [OF g] p by (simp add: hused_def used_of_def)
  moreover have "map (tree h ?N2) ?ks = (p_kids newInner)[0 := Some p]"
    using S(1) p by (simp add: newInner_def innerSize_def map_update)
  ultimately show "tree (Suc h) ?N2 (Some ?y) = Some (PNode (p_used p) [] ((p_kids newInner)[0 := Some p]))"
    using N2(1) by simp
  have "reach (Suc h) ?N2 (Some ?y) = insert ?y (reach h ?N (Some x))" using N2(1) S(2) ks by simp
  then show "changed e H (reach h ?N (Some x)) (rooted e x H) (reach (Suc h) ?N2 (Some ?y))"
    using t2 by (auto simp: changed_def rooted_def simp del: reach.simps)
qed

lemma hgrow_correct:
  assumes "e \<noteq> 0"
  shows "w = e \<Longrightarrow> tidy H \<Longrightarrow> good h (h_nodes H) e (Some x) \<Longrightarrow> tree h (h_nodes H) (Some x) = Some p \<Longrightarrow>
    \<exists>y h' H1. hgrow x h i w H = (y, h', e, H1) \<and> changed e H (reach h (h_nodes H) (Some x)) H1 (reach h' (h_nodes H1) (Some y)) \<and>
      good h' (h_nodes H1) e (Some y) \<and> tree h' (h_nodes H1) (Some y) = Some (fst (grow_vector p h i)) \<and> h' = snd (grow_vector p h i)"
proof (induction p h i arbitrary: x w H rule: grow_vector.induct)
  case (1 p h i)
  show ?case
  proof (cases "pbeyond h i")
    case False
    then have "hgrow x h i w H = (x, h, e, H)" "grow_vector p h i = (p, h)"
      using 1(2) by (simp_all add: hgrow.simps grow_vector.simps)
    then show ?thesis using 1(3-5) changed_refl by simp
  next
    case True
    have "x \<in> reach h (h_nodes H) (Some x)" by (cases h) simp_all
    then have x: "x \<noteq> h_next H" using tidy_less [OF 1(3,4)] by blast
    note r = rooted_correct [OF 1(3-5)]
    obtain y h' H1 where h: "hgrow (h_next H) (h + 1) i e (rooted e x H) = (y, h', e, H1)"
        "changed e (rooted e x H) (reach (h + 1) (h_nodes (rooted e x H)) (Some (h_next H))) H1 (reach h' (h_nodes H1) (Some y))"
        "good h' (h_nodes H1) e (Some y)"
        "tree h' (h_nodes H1) (Some y) = Some (fst (grow_vector (PNode (p_used p) [] ((p_kids newInner)[0 := Some p])) (h + 1) i))"
        "h' = snd (grow_vector (PNode (p_used p) [] ((p_kids newInner)[0 := Some p])) (h + 1) i)"
      using 1(1) [OF True refl r(1), of "h_next H"] r(2,3) by (simp del: tree.simps reach.simps good.simps) blast
    have "grow_vector p h i = grow_vector (PNode (p_used p) [] ((p_kids newInner)[0 := Some p])) (h + 1) i"
      using True by (simp add: grow_vector.simps [of p])
    moreover have "hgrow x h i w H = (y, h', e, H1)" using hgrow_step [OF assms x True] h(1) 1(2) by simp
    ultimately show ?thesis using h(3-5) changed_trans [OF r(4)] h(2) by (simp del: tree.simps reach.simps good.simps)
  qed
qed

subsection \<open>Set\<close>

lemma PSet_unfold:
  "PSet v i val = (if val = None \<and> Get v i = None then v
     else case (if val = None then (v_root v, v_height v) else case v_root v of None \<Rightarrow> (None, raise_height (v_height v) i)
         | Some n \<Rightarrow> (Some (fst (grow_vector n (v_height v) i)), snd (grow_vector n (v_height v) i))) of
       (root, height) \<Rightarrow> (case pset height root i val of None \<Rightarrow> empty_vector | Some n \<Rightarrow> \<lparr>v_root = Some n, v_height = height\<rparr>))"
  by (auto simp: PSet_def Let_def split: prod.splits option.splits)

lemma HSet_correct:
  assumes e: "e \<noteq> 0" and t: "tidy H" and g: "vgood (h_nodes H) e v"
  shows "\<exists>v' H'. HSet v i val e H = (v', e, H') \<and> changed e H (vreach (h_nodes H) v) H' (vreach (h_nodes H') v') \<and>
    vgood (h_nodes H') e v' \<and> vec_of (h_nodes H') v' = PSet (vec_of (h_nodes H) v) i val"
proof (cases "val = None \<and> HGet v i H = None")
  case True
  then show ?thesis using HGet_correct [OF g] changed_refl [OF t] g by (simp add: HSet_def PSet_def)
next
  case False
  let ?u = "vec_of (h_nodes H) v"
  have no: "\<not> (val = None \<and> Get ?u i = None)" using False HGet_correct [OF g] by simp
  have "\<exists>root height H1. (if val = None then (hv_root v, hv_height v, e, H)
      else case hv_root v of None \<Rightarrow> (None, raise_height (hv_height v) i, e, H)
        | Some x \<Rightarrow> (case hgrow x (hv_height v) i e H of (y, h, w1, H1) \<Rightarrow> (Some y, h, w1, H1))) = (root, height, e, H1) \<and>
      (if val = None then (v_root ?u, v_height ?u) else case v_root ?u of None \<Rightarrow> (None, raise_height (v_height ?u) i)
        | Some n \<Rightarrow> (Some (fst (grow_vector n (v_height ?u) i)), snd (grow_vector n (v_height ?u) i))) =
        (tree height (h_nodes H1) root, height) \<and>
      changed e H (vreach (h_nodes H) v) H1 (reach height (h_nodes H1) root) \<and> good height (h_nodes H1) e root"
  proof (cases "val = None \<or> hv_root v = None")
    case True
    then show ?thesis using changed_refl [OF t] g by (auto simp: vec_of_def vreach_def vgood_def)
  next
    case grow: False
    then obtain x where x: "hv_root v = Some x" by blast
    have gx: "good (hv_height v) (h_nodes H) e (Some x)" using g x by (simp add: vgood_def)
    then obtain p where p: "tree (hv_height v) (h_nodes H) (Some x) = Some p" using tree_some by blast
    from hgrow_correct [OF e refl t gx p, of i]
    show ?thesis using grow x p by (auto simp: vec_of_def vreach_def)
  qed
  then obtain root height H1 where r: "(if val = None then (hv_root v, hv_height v, e, H)
      else case hv_root v of None \<Rightarrow> (None, raise_height (hv_height v) i, e, H)
        | Some x \<Rightarrow> (case hgrow x (hv_height v) i e H of (y, h, w1, H1) \<Rightarrow> (Some y, h, w1, H1))) = (root, height, e, H1)"
      "(if val = None then (v_root ?u, v_height ?u) else case v_root ?u of None \<Rightarrow> (None, raise_height (v_height ?u) i)
        | Some n \<Rightarrow> (Some (fst (grow_vector n (v_height ?u) i)), snd (grow_vector n (v_height ?u) i))) = (tree height (h_nodes H1) root, height)"
      "changed e H (vreach (h_nodes H) v) H1 (reach height (h_nodes H1) root)" "good height (h_nodes H1) e root"
    by blast
  obtain n' H2 where h: "hset height root i val e H1 = (n', e, H2)" "wrote height e H1 root H2 n'"
      "tree height (h_nodes H2) n' = pset height (tree height (h_nodes H1) root) i val"
    using hset_correct [OF e changedD(1) [OF r(3)] r(4)] by blast
  let ?v = "case n' of None \<Rightarrow> \<lparr>hv_root = None, hv_height = 0\<rparr> | Some y \<Rightarrow> \<lparr>hv_root = Some y, hv_height = height\<rparr>"
  have run: "HSet v i val e H = (?v, e, H2)"
    unfolding HSet_def if_not_P [OF False] r(1) using h(1) by (simp split: option.split)
  have ch: "changed e H (vreach (h_nodes H) v) H2 (reach height (h_nodes H2) n')"
    by (rule changed_trans [OF r(3) wrote_changed [OF h(2)]])
  have ts: "\<exists>p. tree height (h_nodes H2) (Some y) = Some p" if "n' = Some y" for y
    using tree_some [of height "h_nodes H2" e y] wroteD(7) [OF h(2)] that by (cases "tree height (h_nodes H2) (Some y)") auto
  have "vec_of (h_nodes H2) ?v = PSet ?u i val"
    unfolding PSet_unfold if_not_P [OF no] r(2) using h(3) ts by (cases n') (auto simp: vec_of_def empty_vector_def)
  moreover have "changed e H (vreach (h_nodes H) v) H2 (vreach (h_nodes H2) ?v)"
    using ch by (cases n') (simp_all add: vreach_def)
  moreover have "vgood (h_nodes H2) e ?v" using wroteD(7) [OF h(2)] by (cases n') (simp_all add: vgood_def)
  ultimately show ?thesis using run by blast
qed

end
