(* ===== verification/PvecWorld.thy ===== *)
theory PvecWorld
  imports PvecHeap Arena
begin

text \<open>
  The vectors of PvecHeap in an arena: many writers over one memory, as the transactions of a
  database one after the other and those of its snapshots beside them. They interpret the locale
  of the theory Arena, so every run of an arena of vectors is a run over plain values.
\<close>

section \<open>Vectors may be used as values\<close>

definition empty_hvector :: hvector where
  "empty_hvector = \<lparr>hv_root = None, hv_height = 0\<rparr>"

text \<open>The write of an arena sets an index to a value; the plain one is that of Pvec.\<close>

definition vset :: "('v hnode, hvector, uint32 \<times> 'v option) writing" where
  "vset op v w H = HSet v (fst op) (snd op) w H"

definition vput :: "uint32 \<times> 'v option \<Rightarrow> 'v vector \<Rightarrow> 'v vector" where
  "vput op v = PSet v (fst op) (snd op)"

lemma vgood_unowned:
  assumes "vgood N e v" and "owned e' N (vreach N v) = {}"
  shows "vgood N e' v"
proof -
  have "n_epoch nd \<noteq> e'" if "x \<in> reach (hv_height v) N (hv_root v)" "N x = Some nd" for x nd
    using assms(2) that by (auto simp: owned_def vreach_def)
  then show ?thesis using good_unowned assms(1) unfolding vgood_def by blast
qed

text \<open>The first write of a writer without an epoch starts one.\<close>

lemma own_node_fresh: "own_node n l 0 H = own_node n l (h_epochs H + 1) (H\<lparr>h_epochs := h_epochs H + 1\<rparr>)" if "h_epochs H + 1 \<noteq> 0"
  using that by (simp add: own_node_def begin_epoch_def)

lemma hset_fresh: "hset h n i val 0 H = hset h n i val (h_epochs H + 1) (H\<lparr>h_epochs := h_epochs H + 1\<rparr>)" if "h_epochs H + 1 \<noteq> 0"
  by (cases h) (simp_all only: hset.simps own_node_fresh [OF that])

lemma HGet_epochs [simp]: "HGet v i (H\<lparr>h_epochs := c\<rparr>) = HGet v i H"
proof -
  have "hleaf_at h n i (H\<lparr>h_epochs := c\<rparr>) = hleaf_at h n i H" for h n
    by (induction h arbitrary: n) (simp_all add: node_at_def split: option.split)
  then show ?thesis by (simp add: HGet_def node_at_def split: option.split)
qed

lemma HSet_fresh:
  assumes "h_epochs H + 1 \<noteq> 0" and "\<not> (val = None \<and> HGet v i H = None)"
  shows "HSet v i val 0 H = HSet v i val (h_epochs H + 1) (H\<lparr>h_epochs := h_epochs H + 1\<rparr>)"
proof -
  let ?e = "h_epochs H + 1" and ?H = "H\<lparr>h_epochs := h_epochs H + 1\<rparr>"
  have g: "hgrow x h i 0 H = hgrow x h i ?e ?H" if "pbeyond h i" for x h
    using that assms(1) by (simp add: hgrow.simps [of x h] own_node_fresh del: One_nat_def)
  have g': "hgrow x h i w H = (x, h, w, H)" if "\<not> pbeyond h i" for x h w and H :: "'a hnode heap"
    using that by (simp add: hgrow.simps)
  show ?thesis
  proof (cases "val = None \<or> hv_root v = None")
    case True
    then show ?thesis using assms(2) hset_fresh [OF assms(1)] by (auto simp: HSet_def)
  next
    case False
    then obtain x y where "val = Some y" "hv_root v = Some x" by auto
    then show ?thesis using g g' hset_fresh [OF assms(1)]
      by (cases "pbeyond (hv_height v) i") (simp_all add: HSet_def)
  qed
qed

interpretation vectors: owning vec_of vreach vgood vset vput empty_hvector empty_vector
proof
  show "vec_of N' r = vec_of N r \<and> vreach N' r = vreach N r \<and> vgood N' e r = vgood N e r"
    if "\<And>x. x \<in> vreach N r \<Longrightarrow> N' x = N x" for N N' :: "'a hnode nodes" and e r
    using same_nodes [of "hv_height r" N "hv_root r" N'] that by (simp add: vec_of_def vreach_def vgood_def)
  show "vreach N r \<subseteq> dom N" if "vgood N e r" for N :: "'a hnode nodes" and e r
    using good_reach that unfolding vgood_def vreach_def .
  show "vgood N e' r" if "vgood N e r" "owned e' N (vreach N r) = {}" for N :: "'a hnode nodes" and e e' r
    using that by (rule vgood_unowned)
  show "vgood N e empty_hvector \<and> vreach N empty_hvector = {} \<and> vec_of N empty_hvector = empty_vector" for N :: "'a hnode nodes" and e
    by (simp add: empty_hvector_def vgood_def vreach_def vec_of_def empty_vector_def)
  show "\<exists>r' H'. vset op r e H = (r', e, H') \<and> changed e H (vreach (h_nodes H) r) H' (vreach (h_nodes H') r') \<and>
      vgood (h_nodes H') e r' \<and> vec_of (h_nodes H') r' = vput op (vec_of (h_nodes H) r)"
    if "e \<noteq> 0" "tidy H" "vgood (h_nodes H) e r" for e and H :: "'a hnode heap" and r op
    using HSet_correct [OF that, of "fst op" "snd op"] by (simp add: vset_def vput_def)
  show "(\<exists>r'. (r' = r \<or> r' = empty_hvector) \<and> vset op r 0 H = (r', 0, H) \<and> vput op (vec_of (h_nodes H) r) = vec_of (h_nodes H) r') \<or>
      vset op r 0 H = vset op r (h_epochs H + 1) (H\<lparr>h_epochs := h_epochs H + 1\<rparr>)"
    if "h_epochs H + 1 \<noteq> 0" "vgood (h_nodes H) 0 r" for H :: "'a hnode heap" and r op
    using HSet_fresh [OF that(1), of "snd op" r "fst op"] HGet_correct [OF that(2), of "fst op"]
    by (cases "snd op = None \<and> HGet r (fst op) H = None") (auto simp: vset_def vput_def HSet_def PSet_def)
qed

text \<open>
  C34: vectors may be used as values. However many writers work on one memory, mutating in place
  what they created since their last Freeze, every run computes what the run over plain values
  computes, and every vector published on the way still has, at the end, the value it was
  published with.
\<close>
theorem published_vectors_stay:
  fixes as bs :: "(uint32 \<times> 'v option) action list"
  assumes "length as + length bs < 2 ^ 64 - 1"
  defines "W \<equiv> fold (act vset empty_hvector) as (arena0 empty_hvector)"
    and "U \<equiv> fold (act vset empty_hvector) (as @ bs) (arena0 empty_hvector)"
  shows "plain_of vec_of W = fold (act_plain vput empty_vector) as (plain0 empty_vector) \<and>
    plain_of vec_of U = fold (act_plain vput empty_vector) (as @ bs) (plain0 empty_vector) \<and>
    take (length (ar_pub W)) (pl_pub (plain_of vec_of U)) = pl_pub (plain_of vec_of W)"
  using vectors.published_stay [OF assms(1)] unfolding W_def U_def by blast

lemma published_vectors_stay_witness:
  "pl_pub (plain_of vec_of (fold (act vset empty_hvector)
      [AWrite 0 0 (5, Some ''a''), APublish 0 0, AWrite 0 0 (5, Some ''b''), AWrite 0 0 (600, Some ''c'')] (arena0 empty_hvector))) =
    [PSet empty_vector 5 (Some ''a'')]"
  using published_vectors_stay [of "[AWrite 0 0 (5, Some ''a''), APublish 0 0]" "[AWrite 0 0 (5, Some ''b''), AWrite 0 0 (600, Some ''c'')]"]
  by (simp add: plain0_def upd2_def vput_def del: act.simps)

end
