(* ===== verification/Keys.thy ===== *)
theory Keys
  imports Prelude
begin

text \<open>
  The encodings of index keys (index.go, extract.go): signed and unsigned integers as
  order-preserving big-endian bytes, terminated and lower-cased strings, UUIDs, and the
  \<^verbatim>\<open>keyList\<close> that collects several keys in one buffer. Every routine of extract.go is the
  allocation-free twin of one of index.go; the twins are both modelled and shown equal.
  A Go string is a list of bytes. The Unicode part of \<^verbatim>\<open>strings.ToLower\<close> (what it does to a
  string with a byte of 128 or more) is the argument \<open>uni\<close> of the definitions that need it.
\<close>

section \<open>Key lists\<close>

record keyList =
  buf :: bytes
  ends :: "nat list"

definition kl_empty :: keyList where
  "kl_empty = \<lparr>buf = [], ends = []\<rparr>"

definition kl_reset :: "keyList \<Rightarrow> keyList" where
  "kl_reset k = k\<lparr>buf := [], ends := []\<rparr>"

definition kl_len :: "keyList \<Rightarrow> nat" where
  "kl_len k = length (ends k)"

definition kl_key :: "keyList \<Rightarrow> nat \<Rightarrow> bytes" where
  "kl_key k i = (let start = (if i > 0 then ends k ! (i - 1) else 0)
    in take (ends k ! i - start) (drop start (buf k)))"

definition kl_end :: "keyList \<Rightarrow> keyList" where
  "kl_end k = k\<lparr>ends := ends k @ [length (buf k)]\<rparr>"

definition kl_append :: "bytes \<Rightarrow> keyList \<Rightarrow> keyList" where
  "kl_append b k = k\<lparr>buf := buf k @ b\<rparr>"

definition kl_add :: "bytes \<Rightarrow> bytes \<Rightarrow> keyList \<Rightarrow> keyList" where
  "kl_add val sfx k = kl_end (kl_append sfx (kl_append val k))"

definition kl_split :: "keyList \<Rightarrow> bytes list" where
  "kl_split k = map (kl_key k) [0..<length (ends k)]"

text \<open>The ends are offsets in order; what follows the last end is a key being built.\<close>

definition kl_ok :: "keyList \<Rightarrow> bool" where
  "kl_ok k \<longleftrightarrow> sorted (ends k) \<and> (\<forall>e\<in>set (ends k). e \<le> length (buf k))"

definition pending :: "keyList \<Rightarrow> bytes" where
  "pending k = drop (if ends k = [] then 0 else last (ends k)) (buf k)"

lemma kl_empty_simps [simp]: "kl_ok kl_empty" "kl_split kl_empty = []" "pending kl_empty = []" "kl_len kl_empty = 0"
  by (simp_all add: kl_ok_def kl_empty_def kl_split_def pending_def kl_len_def)

lemma kl_reset_simps [simp]: "kl_reset k = kl_empty"
  by (cases k) (simp add: kl_reset_def kl_empty_def)

lemma kl_append_simps [simp]: "ends (kl_append b k) = ends k" "buf (kl_append b k) = buf k @ b"
  by (simp_all add: kl_append_def)

lemma kl_append_ok [simp]: "kl_ok k \<Longrightarrow> kl_ok (kl_append b k)"
  by (auto simp: kl_ok_def)

lemma take_drop_append: "e \<le> length b \<Longrightarrow> take (e - s) (drop s (b @ c)) = take (e - s) (drop s b)"
  by (cases "s \<le> length b") simp_all

lemma kl_append_key: "kl_ok k \<Longrightarrow> i < length (ends k) \<Longrightarrow> kl_key (kl_append b k) i = kl_key k i"
proof -
  assume ok: "kl_ok k" and i: "i < length (ends k)"
  let ?s = "if i > 0 then ends k ! (i - 1) else 0"
  have "ends k ! i \<le> length (buf k)" using ok i by (simp add: kl_ok_def)
  then have "take (ends k ! i - ?s) (drop ?s (buf k @ b)) = take (ends k ! i - ?s) (drop ?s (buf k))"
    by (rule take_drop_append)
  then show ?thesis by (simp only: kl_key_def Let_def kl_append_simps)
qed

lemma kl_append_split [simp]: "kl_ok k \<Longrightarrow> kl_split (kl_append b k) = kl_split k"
  by (simp add: kl_split_def kl_append_key)

lemma kl_append_pending [simp]: "kl_ok k \<Longrightarrow> pending (kl_append b k) = pending k @ b"
  by (auto simp: pending_def kl_ok_def)

lemma kl_end_ok [simp]: "kl_ok k \<Longrightarrow> kl_ok (kl_end k)"
  by (auto simp: kl_ok_def kl_end_def sorted_append)

lemma kl_end_pending [simp]: "pending (kl_end k) = []"
  by (simp add: pending_def kl_end_def)

lemma kl_end_split [simp]: "kl_split (kl_end k) = kl_split k @ [pending k]"
proof -
  have "kl_key (kl_end k) i = kl_key k i" if "i < length (ends k)" for i
    using that by (simp add: kl_key_def kl_end_def nth_append Let_def)
  moreover have "kl_key (kl_end k) (length (ends k)) = pending k"
    by (auto simp: kl_key_def kl_end_def pending_def nth_append last_conv_nth Let_def)
  ultimately show ?thesis by (simp add: kl_split_def) (simp add: kl_end_def kl_key_def)
qed

lemma length_kl_split [simp]: "length (kl_split k) = kl_len k"
  by (simp add: kl_split_def kl_len_def)

lemma kl_key_split: "i < kl_len k \<Longrightarrow> kl_key k i = kl_split k ! i"
  by (simp add: kl_split_def kl_len_def)

lemma kl_add_simps [simp]:
  assumes "kl_ok k" and "pending k = []"
  shows "kl_ok (kl_add v s k)" "pending (kl_add v s k) = []" "kl_split (kl_add v s k) = kl_split k @ [v @ s]"
  using assms by (simp_all add: kl_add_def)

lemma kl_add_list:
  assumes "kl_ok k" and "pending k = []"
  shows "kl_split (fold (\<lambda>(v, s). kl_add v s) ps k) = kl_split k @ map (\<lambda>(v, s). v @ s) ps"
  using assms by (induction ps arbitrary: k) auto

section \<open>Integers\<close>

text \<open>\<^verbatim>\<open>binary.BigEndian\<close> on the low \<open>n\<close> bytes of a word.\<close>

definition be :: "nat \<Rightarrow> uint64 \<Rightarrow> bytes" where
  "be n w = map (\<lambda>i. ucast (drop_bit (8 * (n - 1 - i)) w)) [0..<n]"

definition sign_flip :: "nat \<Rightarrow> uint64 \<Rightarrow> uint64" where
  "sign_flip sz val = val XOR push_bit (sz * 8 - 1) (- 1)"

definition encodeUInt :: "uint64 \<Rightarrow> nat \<Rightarrow> bytes outcome" where
  "encodeUInt val sz =
    (if sz = 1 then Ret [ucast val]
     else if sz = 2 then Ret (be 2 (ucast (ucast val :: 16 word)))
     else if sz = 4 then Ret (be 4 (ucast (ucast val :: uint32)))
     else if sz = 8 then Ret (be 8 val)
     else Panic)"

definition encodeInt :: "uint64 \<Rightarrow> nat \<Rightarrow> bytes outcome" where
  "encodeInt val sz =
    (let scaled = sign_flip sz val
     in if sz = 1 then Ret [ucast scaled]
        else if sz = 2 then Ret (be 2 (ucast (ucast scaled :: 16 word)))
        else if sz = 4 then Ret (be 4 (ucast (ucast scaled :: uint32)))
        else if sz = 8 then Ret (be 8 scaled)
        else Panic)"

text \<open>The appending twins of extract.go; the last case of the switch is the default.\<close>

definition appendUint :: "bytes \<Rightarrow> uint64 \<Rightarrow> nat \<Rightarrow> bytes" where
  "appendUint dst val sz =
    (if sz = 1 then dst @ [ucast val]
     else if sz = 2 then dst @ be 2 (ucast (ucast val :: 16 word))
     else if sz = 4 then dst @ be 4 (ucast (ucast val :: uint32))
     else dst @ be 8 val)"

definition appendInt :: "bytes \<Rightarrow> uint64 \<Rightarrow> nat \<Rightarrow> bytes" where
  "appendInt dst val sz = appendUint dst (sign_flip sz val) sz"

definition int_size :: "nat \<Rightarrow> bool" where
  "int_size n \<longleftrightarrow> n \<in> {1, 2, 4, 8}"

lemma appendUint_encode: "int_size n \<Longrightarrow> encodeUInt v n = Ret (appendUint [] v n) \<and> appendUint dst v n = dst @ appendUint [] v n"
  by (auto simp: int_size_def encodeUInt_def appendUint_def)

lemma appendInt_encode: "int_size n \<Longrightarrow> encodeInt v n = Ret (appendInt [] v n) \<and> appendInt dst v n = dst @ appendInt [] v n"
  by (auto simp: int_size_def encodeInt_def appendInt_def appendUint_def Let_def)

subsection \<open>Big-endian bytes compare like numbers\<close>

fun of_be :: "bytes \<Rightarrow> nat" where
  "of_be [] = 0"
| "of_be (b # bs) = unat b * 256 ^ length bs + of_be bs"

lemma of_be_less: "of_be bs < 256 ^ length bs"
proof (induction bs)
  case (Cons b bs)
  have "unat b < 256" using unsigned_less [of b] by simp
  then have "unat b * 256 ^ length bs + of_be bs < 256 * 256 ^ length bs" by (rule combine_less [OF _ Cons])
  then show ?case by simp
qed simp

lemma less_of_be: "length xs = length ys \<Longrightarrow> xs < ys \<longleftrightarrow> of_be xs < of_be ys"
proof (induction xs ys rule: list_induct2)
  case (Cons x xs y ys)
  let ?m = "256 ^ length ys :: nat"
  have lt: "of_be xs < ?m" "of_be ys < ?m" using of_be_less [of xs] of_be_less [of ys] Cons(1) by simp_all
  consider "unat x < unat y" | "unat x = unat y" | "unat y < unat x" by linarith
  then show ?case
  proof cases
    case 1
    have "unat x * ?m + of_be xs < Suc (unat x) * ?m" using lt by simp
    also have "\<dots> \<le> unat y * ?m" using 1 by (intro mult_le_mono1) simp
    finally show ?thesis using 1 Cons(1) by (simp add: word_less_nat_alt)
  next
    case 2
    then have "x = y" by (simp add: word_unat_eq_iff)
    then show ?thesis using Cons by simp
  next
    case 3
    have "unat y * ?m + of_be ys < Suc (unat y) * ?m" using lt by simp
    also have "\<dots> \<le> unat x * ?m" using 3 by (intro mult_le_mono1) simp
    finally show ?thesis using 3 Cons(1) by (auto simp: word_less_nat_alt word_unat_eq_iff)
  qed
qed simp

lemma be_Suc: "be (Suc n) w = ucast (drop_bit (8 * n) w) # be n w"
proof -
  have "[0..<Suc n] = 0 # map Suc [0..<n]" by (simp add: map_Suc_upt upt_conv_Cons del: upt_Suc)
  then show ?thesis by (simp add: be_def comp_def del: upt_Suc)
qed

lemma length_be [simp]: "length (be n w) = n"
  by (simp add: be_def)

lemma of_be_be: "of_be (be n w) = unat w mod 2 ^ (8 * n)"
proof (induction n)
  case 0
  then show ?case by (simp add: be_def)
next
  case (Suc n)
  have "unat (ucast (drop_bit (8 * n) w) :: byte) = unat w div 2 ^ (8 * n) mod 256"
    by (simp add: unsigned_ucast_eq unat_drop_bit take_bit_eq_mod)
  moreover have "(256 :: nat) ^ n = 2 ^ (8 * n)" by (simp add: power_mult)
  moreover have "unat w mod 2 ^ (8 * Suc n) = unat w div 2 ^ (8 * n) mod 256 * 2 ^ (8 * n) + unat w mod 2 ^ (8 * n)"
  proof -
    have "(2 :: nat) ^ (8 * Suc n) = 2 ^ (8 * n) * 256" by (simp add: power_add)
    then show ?thesis by (simp only: mod_mult2_eq) (simp add: mult.commute)
  qed
  ultimately show ?case using Suc by (simp add: be_Suc)
qed

lemma be_trunc: "8 * n \<le> LENGTH('a) \<Longrightarrow> LENGTH('a) \<le> 64 \<Longrightarrow> be n (ucast (ucast w :: 'a :: len word)) = be n w"
proof -
  assume le: "8 * n \<le> LENGTH('a)" "LENGTH('a) \<le> 64"
  have "(ucast (drop_bit (8 * (n - 1 - i)) (ucast (ucast w :: 'a word) :: uint64)) :: byte) = ucast (drop_bit (8 * (n - 1 - i)) w)"
    if "i < n" for i
  proof (rule bit_word_eqI)
    fix b assume "b < LENGTH(8)"
    then have b: "b < 8" by simp
    have "8 * (n - 1 - i) + b < 8 * n" using that b by simp
    then have "8 * (n - 1 - i) + b < LENGTH('a)" using le by simp
    then show "bit (ucast (drop_bit (8 * (n - 1 - i)) (ucast (ucast w :: 'a word) :: uint64)) :: byte) b =
      bit (ucast (drop_bit (8 * (n - 1 - i)) w) :: byte) b"
      using b le by (simp add: bit_simps)
  qed
  then show ?thesis by (simp add: be_def)
qed

lemma appendUint_be: "int_size n \<Longrightarrow> appendUint [] v n = be n v"
proof -
  assume "int_size n"
  then consider "n = 1" | "n = 2" | "n = 4" | "n = 8" by (auto simp: int_size_def)
  then show ?thesis
  proof cases
    case 1
    then show ?thesis by (simp add: appendUint_def be_def)
  next
    case 2
    have "be 2 (ucast (ucast v :: 16 word)) = be 2 v" by (rule be_trunc) simp_all
    then show ?thesis using 2 by (simp add: appendUint_def)
  next
    case 3
    have "be 4 (ucast (ucast v :: uint32)) = be 4 v" by (rule be_trunc) simp_all
    then show ?thesis using 3 by (simp add: appendUint_def)
  qed (simp add: appendUint_def)
qed

lemma encodeUInt_order:
  assumes "int_size n" and "unat v < 2 ^ (8 * n)" and "unat w < 2 ^ (8 * n)"
  shows "appendUint [] v n < appendUint [] w n \<longleftrightarrow> v < w"
  unfolding appendUint_be [OF assms(1)] using assms(2,3)
  by (simp add: less_of_be of_be_be word_less_nat_alt)

subsection \<open>Flipping the sign bit biases a signed value\<close>

lemma flip_top_bit:
  fixes a :: int
  shows "take_bit (Suc k) (a XOR - (2 ^ k)) = take_bit (Suc k) (a + 2 ^ k)"
proof -
  have m: "bit (- (2 ^ k) :: int) j \<longleftrightarrow> k \<le> j" for j
    by (simp add: bit_minus_exp_iff)
  have l: "take_bit k (a XOR - (2 ^ k)) = take_bit k a"
    by (intro bit_eqI) (auto simp: bit_take_bit_iff bit_xor_iff m)
  have l': "take_bit k (a + 2 ^ k) = take_bit k a"
    by (simp add: take_bit_eq_mod)
  have t: "bit (a + 2 ^ k) k \<longleftrightarrow> \<not> bit a k"
    by (simp add: bit_iff_odd div_add_self2)
  show ?thesis
    unfolding take_bit_Suc_from_most l l' using t m [of k] by (simp add: bit_xor_iff)
qed

lemma bit_sign_flip:
  assumes "8 * n = Suc k" and "k < 64" and "j \<le> k"
  shows "bit (sign_flip n v) j \<longleftrightarrow> bit v j \<noteq> (k \<le> j)"
proof -
  have "n * 8 - 1 = k" using assms(1) by simp
  then have "sign_flip n v = v XOR push_bit k (- 1)" by (simp add: sign_flip_def)
  moreover have "bit (push_bit k (- 1) :: uint64) j \<longleftrightarrow> k \<le> j"
    using assms(2,3) by (auto simp: bit_push_bit_iff bit_minus_1_iff bit_not_iff bit_mask_iff)
  ultimately show ?thesis by (simp only: bit_xor_iff)
qed

lemma unat_sign_flip:
  assumes k: "8 * n = Suc k" "k < 64" and v: "- (2 ^ k) \<le> sint v" "sint v < 2 ^ k"
  shows "int (unat (sign_flip n v) mod 2 ^ (8 * n)) = sint v + 2 ^ k"
proof -
  have "int (unat (sign_flip n v) mod 2 ^ (8 * n)) = take_bit (Suc k) (uint (sign_flip n v))"
    unfolding k(1) by (simp add: take_bit_eq_mod zmod_int)
  also have "\<dots> = take_bit (Suc k) (sint v XOR - (2 ^ k))"
  proof (rule bit_eqI)
    fix j
    show "bit (take_bit (Suc k) (uint (sign_flip n v))) j = bit (take_bit (Suc k) (sint v XOR - (2 ^ k))) j"
    proof (cases "j \<le> k")
      case True
      then have "bit (uint (sign_flip n v)) j \<longleftrightarrow> bit v j \<noteq> (k \<le> j)"
        using bit_sign_flip [OF k True] k(2) by (simp add: bit_uint_iff)
      moreover have "bit (sint v) j = bit v j" using True k(2) by (simp add: bit_sint_iff)
      ultimately show ?thesis using True by (simp add: bit_take_bit_iff bit_xor_iff bit_minus_exp_iff)
    qed (simp only: bit_take_bit_iff less_Suc_eq_le simp_thms)
  qed
  also have "\<dots> = take_bit (Suc k) (sint v + 2 ^ k)" by (rule flip_top_bit)
  also have "\<dots> = sint v + 2 ^ k"
    by (rule take_bit_int_eq_self) (use v in simp_all)
  finally show ?thesis .
qed

lemma encodeInt_order:
  assumes "int_size n" and "- (2 ^ (8 * n - 1)) \<le> sint v" "sint v < 2 ^ (8 * n - 1)"
    and "- (2 ^ (8 * n - 1)) \<le> sint w" "sint w < 2 ^ (8 * n - 1)"
  shows "appendInt [] v n < appendInt [] w n \<longleftrightarrow> sint v < sint w"
    and "appendInt [] v n = appendInt [] w n \<longleftrightarrow> v = w"
proof -
  have n: "8 * n = Suc (8 * n - 1)" "8 * n - 1 < 64" using assms(1) by (auto simp: int_size_def)
  have of: "int (of_be (appendInt [] u n)) = sint u + 2 ^ (8 * n - 1)"
    if "- (2 ^ (8 * n - 1)) \<le> sint u" "sint u < 2 ^ (8 * n - 1)" for u
    unfolding appendInt_def appendUint_be [OF assms(1)] of_be_be by (rule unat_sign_flip [OF n that])
  have len: "length (appendInt [] u n) = n" for u
    unfolding appendInt_def appendUint_be [OF assms(1)] by simp
  have "appendInt [] v n < appendInt [] w n \<longleftrightarrow> int (of_be (appendInt [] v n)) < int (of_be (appendInt [] w n))"
    by (simp add: less_of_be len)
  then show "appendInt [] v n < appendInt [] w n \<longleftrightarrow> sint v < sint w"
    unfolding of [OF assms(2,3)] of [OF assms(4,5)] by simp
  show "appendInt [] v n = appendInt [] w n \<longleftrightarrow> v = w"
  proof
    assume "appendInt [] v n = appendInt [] w n"
    then have "sint v = sint w" using of [OF assms(2,3)] of [OF assms(4,5)] by simp
    then show "v = w" by (rule word_eq_iff_signed [THEN iffD2])
  qed simp
qed

section \<open>Strings\<close>

definition ascii_lower :: "byte \<Rightarrow> byte" where
  "ascii_lower c = (if 65 \<le> c \<and> c \<le> 90 then c + (97 - 65) else c)"

text \<open>\<^verbatim>\<open>strings.ToLower\<close>: bytewise on ASCII; on other strings the argument \<open>uni\<close>.\<close>

definition ToLower :: "(bytes \<Rightarrow> bytes) \<Rightarrow> bytes \<Rightarrow> bytes" where
  "ToLower uni s = (if \<exists>b\<in>set s. 128 \<le> b then uni s else map ascii_lower s)"

text \<open>The two loops of appendLower: look for a byte of 128 or more, then append.\<close>

fun has_non_ascii :: "bytes \<Rightarrow> bool" where
  "has_non_ascii [] = False"
| "has_non_ascii (c # cs) = (if 128 \<le> c then True else has_non_ascii cs)"

fun append_ascii_lower :: "bytes \<Rightarrow> bytes \<Rightarrow> bytes" where
  "append_ascii_lower dst [] = dst"
| "append_ascii_lower dst (c # cs) =
    append_ascii_lower (dst @ [if 65 \<le> c \<and> c \<le> 90 then c + (97 - 65) else c]) cs"

definition appendLower :: "(bytes \<Rightarrow> bytes) \<Rightarrow> bytes \<Rightarrow> bytes \<Rightarrow> bytes" where
  "appendLower uni dst s = (if has_non_ascii s then dst @ ToLower uni s else append_ascii_lower dst s)"

definition appendString :: "(bytes \<Rightarrow> bytes) \<Rightarrow> bytes \<Rightarrow> bytes \<Rightarrow> bool \<Rightarrow> bytes" where
  "appendString uni dst s lowercase = (if lowercase then appendLower uni dst s else dst @ s)"

definition lower_if :: "(bytes \<Rightarrow> bytes) \<Rightarrow> bool \<Rightarrow> bytes \<Rightarrow> bytes" where
  "lower_if uni lowercase s = (if lowercase then ToLower uni s else s)"

lemma has_non_ascii_iff: "has_non_ascii s \<longleftrightarrow> (\<exists>b\<in>set s. 128 \<le> b)"
  by (induction s) auto

lemma append_ascii_lower_eq: "append_ascii_lower dst s = dst @ map ascii_lower s"
  by (induction dst s rule: append_ascii_lower.induct) (simp_all add: ascii_lower_def)

lemma appendString_eq [simp]: "appendString uni dst s lowercase = dst @ lower_if uni lowercase s"
  by (auto simp: appendString_def appendLower_def lower_if_def has_non_ascii_iff append_ascii_lower_eq ToLower_def)

text \<open>A terminated key of a string without NUL is a prefix of no other such key.\<close>

lemma terminated_prefix:
  assumes "0 \<notin> set s" and "0 \<notin> set t" and "prefix (s @ [0 :: byte]) (t @ [0] @ u)"
  shows "s = t"
proof -
  obtain v where v: "s @ 0 # v = t @ 0 # u" using assms(3) by (auto elim!: prefixE)
  then show ?thesis using assms(1,2)
    by (auto simp: append_eq_append_conv2 append_eq_Cons_conv Cons_eq_append_conv)
qed

section \<open>UUIDs\<close>

definition hexNibble :: "byte \<Rightarrow> byte option" where
  "hexNibble c =
    (if 48 \<le> c \<and> c \<le> 57 then Some (c - 48)
     else if 97 \<le> c \<and> c \<le> 102 then Some (c - 97 + 10)
     else if 65 \<le> c \<and> c \<le> 70 then Some (c - 65 + 10)
     else None)"

definition hyphen :: byte where
  "hyphen = 45"

text \<open>The loop of appendUUID: hyphens seen, nibbles seen, the high nibble kept, the output.\<close>

fun uuid_loop :: "bytes \<Rightarrow> nat \<Rightarrow> nat \<Rightarrow> byte \<Rightarrow> bytes \<Rightarrow> (nat \<times> nat \<times> bytes) option" where
  "uuid_loop [] hyphens nibbles hi dst = Some (hyphens, nibbles, dst)"
| "uuid_loop (c # cs) hyphens nibbles hi dst =
    (if c = hyphen then uuid_loop cs (hyphens + 1) nibbles hi dst
     else case hexNibble c of
       None \<Rightarrow> None
     | Some v \<Rightarrow>
         if nibbles mod 2 = 0 then uuid_loop cs hyphens (nibbles + 1) v dst
         else uuid_loop cs hyphens (nibbles + 1) hi (dst @ [push_bit 4 hi OR v]))"

definition appendUUID :: "bytes \<Rightarrow> bytes \<Rightarrow> bool \<Rightarrow> bytes option" where
  "appendUUID dst s enforceLength =
    (if length s > 36 \<or> (enforceLength \<and> length s \<noteq> 36) then None
     else case uuid_loop s 0 0 0 dst of
       None \<Rightarrow> None
     | Some (hyphens, nibbles, out) \<Rightarrow> if hyphens > 4 \<or> nibbles mod 2 \<noteq> 0 then None else Some out)"

text \<open>\<^verbatim>\<open>hex.DecodeString\<close>: pairs of hexadecimal digits; None for its errors.\<close>

fun DecodeString :: "bytes \<Rightarrow> bytes option" where
  "DecodeString [] = Some []"
| "DecodeString [c] = None"
| "DecodeString (a # b # cs) = (case (hexNibble a, hexNibble b) of
     (Some x, Some y) \<Rightarrow> (case DecodeString cs of None \<Rightarrow> None | Some ds \<Rightarrow> Some ((push_bit 4 x OR y) # ds))
   | _ \<Rightarrow> None)"

datatype uuid_error = NotThirtySix | TooLong | TooManyHyphens | OddLength | InvalidHex

definition parseStringSlow :: "bytes \<Rightarrow> bool \<Rightarrow> uuid_error + bytes" where
  "parseStringSlow s enforceLength =
    (if enforceLength \<and> length s \<noteq> 36 then Inl NotThirtySix
     else if length s > 36 then Inl TooLong
     else if length (filter (\<lambda>c. c = hyphen) s) > 4 then Inl TooManyHyphens
     else let sanitized = filter (\<lambda>c. c \<noteq> hyphen) s
       in if length sanitized mod 2 \<noteq> 0 then Inl OddLength
          else case DecodeString sanitized of None \<Rightarrow> Inl InvalidHex | Some dec \<Rightarrow> Inr dec)"

text \<open>The exported parseString tries the fast loop and asks the slow one for the verdict.\<close>

definition parseString :: "bytes \<Rightarrow> bool \<Rightarrow> uuid_error + bytes" where
  "parseString s enforceLength = (case appendUUID [] s enforceLength of
     Some out \<Rightarrow> Inr out
   | None \<Rightarrow> parseStringSlow s enforceLength)"

lemma hexNibble_hyphen [simp]: "hexNibble hyphen = None"
  by (simp add: hexNibble_def hyphen_def)

fun hex_pairs :: "bytes \<Rightarrow> byte \<Rightarrow> bool \<Rightarrow> bytes option" where
  "hex_pairs [] hi low = Some []"
| "hex_pairs (c # cs) hi low = (case hexNibble c of None \<Rightarrow> None | Some v \<Rightarrow>
     if low then (case hex_pairs cs hi False of None \<Rightarrow> None | Some ds \<Rightarrow> Some ((push_bit 4 hi OR v) # ds))
     else hex_pairs cs v True)"

lemma uuid_loop_pairs:
  "uuid_loop s h n hi dst = (case hex_pairs (filter (\<lambda>c. c \<noteq> hyphen) s) hi (n mod 2 \<noteq> 0) of
     None \<Rightarrow> None
   | Some ds \<Rightarrow> Some (h + length (filter (\<lambda>c. c = hyphen) s), n + length (filter (\<lambda>c. c \<noteq> hyphen) s), dst @ ds))"
proof (induction s arbitrary: h n hi dst)
  case (Cons c s)
  show ?case
  proof (cases "c = hyphen")
    case False
    then show ?thesis
      by (cases "hexNibble c"; cases "n mod 2 = 0") (auto simp: Cons.IH mod_Suc split: option.split)
  qed (simp add: Cons.IH split: option.split)
qed simp

lemma hex_pairs_decode: "even (length s) \<Longrightarrow> hex_pairs s hi False = DecodeString s"
proof (induction s arbitrary: hi rule: DecodeString.induct)
  case (3 a b cs)
  then show ?case by (cases "hexNibble a"; cases "hexNibble b") simp_all
qed simp_all

lemma appendUUID_slow:
  "appendUUID dst s e = (case parseStringSlow s e of Inl _ \<Rightarrow> None | Inr dec \<Rightarrow> Some (dst @ dec))"
proof -
  let ?n = "length (filter (\<lambda>c. c \<noteq> hyphen) s)"
  consider "length s > 36 \<or> (e \<and> length s \<noteq> 36)" | "\<not> (length s > 36 \<or> (e \<and> length s \<noteq> 36))" "?n mod 2 \<noteq> 0"
    | "\<not> (length s > 36 \<or> (e \<and> length s \<noteq> 36))" "?n mod 2 = 0" by blast
  then show ?thesis
  proof cases
    case 1
    then show ?thesis by (auto simp: appendUUID_def parseStringSlow_def)
  next
    case 2
    then show ?thesis
      by (auto simp: appendUUID_def parseStringSlow_def uuid_loop_pairs Let_def split: option.split)
  next
    case 3
    then have "even ?n" by presburger
    note d = hex_pairs_decode [OF this, of 0]
    show ?thesis using 3
      by (auto simp: appendUUID_def parseStringSlow_def uuid_loop_pairs Let_def d split: option.split)
  qed
qed

lemma parseString_slow: "parseString s e = parseStringSlow s e"
  by (simp add: parseString_def appendUUID_slow split: sum.split)

section \<open>Properties\<close>

text \<open>
  C39: keys of signed integers sort like the integers and are unequal for unequal integers,
  at every width the source uses; and the appending twin appends exactly encodeInt's bytes.
\<close>
theorem int_key_order:
  assumes "int_size n" and "- (2 ^ (8 * n - 1)) \<le> sint v" "sint v < 2 ^ (8 * n - 1)"
    and "- (2 ^ (8 * n - 1)) \<le> sint w" "sint w < 2 ^ (8 * n - 1)"
  shows "\<exists>a b. encodeInt v n = Ret a \<and> encodeInt w n = Ret b \<and> (a < b \<longleftrightarrow> sint v < sint w) \<and>
    (a = b \<longleftrightarrow> v = w) \<and> length a = n \<and> appendInt dst v n = dst @ a"
  using appendInt_encode [OF assms(1), of v dst] appendInt_encode [OF assms(1), of w dst] encodeInt_order [OF assms]
  by (intro exI [of _ "appendInt [] v n"] exI [of _ "appendInt [] w n"])
    (simp add: appendInt_def appendUint_be [OF assms(1)])

lemma int_key_order_witness:
  "\<exists>a b. encodeInt (- 5) 2 = Ret a \<and> encodeInt 300 2 = Ret b \<and> (a < b \<longleftrightarrow> sint (- 5 :: uint64) < sint (300 :: uint64)) \<and>
    (a = b \<longleftrightarrow> (- 5 :: uint64) = 300) \<and> length a = 2 \<and> appendInt [7] (- 5) 2 = [7] @ a"
  by (rule int_key_order) (simp_all add: int_size_def)

text \<open>
  Keys of unsigned integers sort like the integers, and the appending twin appends
  exactly encodeUInt's bytes.
\<close>
theorem uint_key_order:
  assumes "int_size n" and "unat v < 2 ^ (8 * n)" and "unat w < 2 ^ (8 * n)"
  shows "\<exists>a b. encodeUInt v n = Ret a \<and> encodeUInt w n = Ret b \<and> (a < b \<longleftrightarrow> v < w) \<and>
    length a = n \<and> appendUint dst v n = dst @ a"
  using appendUint_encode [OF assms(1), of v dst] appendUint_encode [OF assms(1), of w dst] encodeUInt_order [OF assms]
  by (intro exI [of _ "appendUint [] v n"] exI [of _ "appendUint [] w n"])
    (simp add: appendUint_be [OF assms(1)])

lemma uint_key_order_witness:
  "\<exists>a b. encodeUInt 255 2 = Ret a \<and> encodeUInt 256 2 = Ret b \<and> (a < b \<longleftrightarrow> (255 :: uint64) < 256) \<and>
    length a = 2 \<and> appendUint [] 255 2 = [] @ a"
  by (rule uint_key_order) (simp_all add: int_size_def)

text \<open>
  The one-pass appendUUID accepts exactly the strings parseStringSlow accepts, with or
  without the length check, and appends exactly the bytes it returns, so the exported
  parseString is parseStringSlow on every input.
\<close>
theorem uuid_fast_is_slow:
  "appendUUID dst s enforceLength =
     (case parseStringSlow s enforceLength of Inl _ \<Rightarrow> None | Inr dec \<Rightarrow> Some (dst @ dec)) \<and>
   parseString s enforceLength = parseStringSlow s enforceLength"
  by (simp add: appendUUID_slow parseString_slow)

text \<open>
  A keyList returns exactly the keys that were added, in order: split after any adds on
  an empty or reset list, and key i for each of them.
\<close>
theorem keyList_collects:
  "kl_split (fold (\<lambda>(v, s). kl_add v s) ps (kl_reset k)) = map (\<lambda>(v, s). v @ s) ps"
  by (simp add: kl_add_list)

end
