(* ===== verification/Indexers.thy ===== *)
theory Indexers
  imports Keys
begin

text \<open>
  The built-in indexers of index.go and typed.go: the original implementations (the
  \<^verbatim>\<open>...Slow\<close> methods and the methods without a fast path), which turn an object or the
  arguments of a query into index keys. Objects are described by what reflection reports of
  them; errors are values, and a panic of the source is \<open>Panics\<close>. "Original" means the methods of
  this repository that do not use the fast path; they are go-memdb's, but for the walk of
  CompoundMultiIndex, which this repository has repaired (the first deliberate difference of
  docs/compatibility.md). A nil and an empty slice of bytes are the same list here. The field values that
  \<^verbatim>\<open>reflect.Value.String\<close> renders for a field that is not a string are \<^verbatim>\<open>"<T Value>"\<close>.
\<close>

section \<open>Objects\<close>

datatype width = W8 | W16 | W32 | W64 | WInt

text \<open>
  Field values by kind. A pointer holds None for nil, else what reflect's String renders of
  its target (the string itself when the element kind is string). A map holds the rendered
  keys and values in iteration order, and whether its type is exactly \<^verbatim>\<open>map[string]string\<close>.
  \<open>VOther z\<close> is any other kind, with \<open>z\<close> None if its type is not comparable and otherwise
  whether it equals its zero value; \<open>VSlice\<close> is a slice whose elements are not of kind string.
\<close>

datatype fval =
    VString bytes
  | VPtr bool "bytes option"
  | VInt width uint64
  | VUint width uint64
  | VBool bool
  | VStrings "bytes list"
  | VSlice
  | VMap bool "(bytes \<times> bytes) list"
  | VOther "bool option"

text \<open>
  How a field is reached: directly, or through an embedded pointer that may be nil.
  \<open>fd_exported\<close> is whether reflection may read the field as an interface and
  \<open>fd_embed_exported\<close> whether every struct it is promoted through is exported too.
\<close>

datatype path = Direct | ThroughPtr | ThroughNil

record field =
  fd_name :: string
  fd_exported :: bool
  fd_embed_exported :: bool
  fd_path :: path
  fd_type :: bytes
  fd_val :: fval

text \<open>
  What an interface holds: nothing, a nil pointer to a struct type, a pointer to a struct, a
  struct, or something else. Struct types are numbered.
\<close>

datatype obj = ONil | ONilPtr nat | OPtr nat "field list" | OStruct nat "field list" | OOther

text \<open>Query arguments by dynamic type; \<open>named\<close> integers have a defined type of integer kind.\<close>

datatype arg =
    AString bytes
  | ABytes bytes
  | ABool bool
  | AInt bool width uint64
  | AUint bool width uint64
  | AUintptr uint64
  | ANil
  | AOther

datatype err =
    EOneArg | EOneOrTwoArgs | EArgString | EArgStringOrBytes | EArgBool | EArgInvalid | EArgKind | EArgSigned | EArgUnsigned
  | EOverflow | EByteSlice | EUUID uuid_error
  | EField string | EFieldKind string
  | ECond | ENilObject | EObjectType | ENoGet
  | ESub nat err | ENotSingle nat | ENeither nat | ENoPrefix nat | EArgCount | ETooMany | EPairs
  | EUser nat

datatype 'a res = Ok 'a | Err err | Panics

definition bind_res :: "'a res \<Rightarrow> ('a \<Rightarrow> 'b res) \<Rightarrow> 'b res" where
  "bind_res r f = (case r of Ok a \<Rightarrow> f a | Err e \<Rightarrow> Err e | Panics \<Rightarrow> Panics)"

definition of_outcome :: "'a outcome \<Rightarrow> 'a res" where
  "of_outcome r = (case r of Ret a \<Rightarrow> Ok a | Panic \<Rightarrow> Panics)"

definition of_uuid :: "uuid_error + bytes \<Rightarrow> bytes res" where
  "of_uuid r = (case r of Inl e \<Rightarrow> Err (EUUID e) | Inr b \<Rightarrow> Ok b)"

section \<open>Indexers\<close>

text \<open>
  A ConditionalIndex holds the user's function (None for nil), which returns None for an
  error. The typed indexers hold the number of their struct type and the accessor, None for
  nil. A custom indexer implements SingleIndexer, MultiIndexer or neither.
\<close>

datatype custom_from =
    FromSingle "obj \<Rightarrow> bytes option res"
  | FromMulti "obj \<Rightarrow> bytes list option res"
  | FromNone

datatype indexer =
    IString string bool
  | IStringSlice string bool
  | IStringMap string bool
  | IInt string
  | IUint string
  | IBool string
  | IUUID string
  | IFieldSet string
  | ICond "(obj \<Rightarrow> bool option) option"
  | ITString nat "(field list \<Rightarrow> bytes) option" bool
  | ITStrings nat "(field list \<Rightarrow> bytes list) option" bool
  | ITInt nat "(field list \<Rightarrow> uint64) option" width
  | ITUint nat "(field list \<Rightarrow> uint64) option" width
  | ITBool nat "(field list \<Rightarrow> bool) option"
  | ICompound "indexer list" bool
  | ICompoundMulti "indexer list" bool
  | ICustom custom_from "arg list \<Rightarrow> bytes res" "(arg list \<Rightarrow> bytes res) option"

definition is_multi :: "indexer \<Rightarrow> bool" where
  "is_multi ix = (case ix of IStringSlice _ _ \<Rightarrow> True | IStringMap _ _ \<Rightarrow> True | ITStrings _ _ _ \<Rightarrow> True
    | ICompoundMulti _ _ \<Rightarrow> True | ICustom (FromMulti _) _ _ \<Rightarrow> True | _ \<Rightarrow> False)"

definition is_single :: "indexer \<Rightarrow> bool" where
  "is_single ix = (case ix of IStringSlice _ _ \<Rightarrow> False | IStringMap _ _ \<Rightarrow> False | ITStrings _ _ _ \<Rightarrow> False
    | ICompoundMulti _ _ \<Rightarrow> False | ICustom (FromSingle _) _ _ \<Rightarrow> True | ICustom _ _ _ \<Rightarrow> False | _ \<Rightarrow> True)"

text \<open>\<^verbatim>\<open>strconv.IntSize\<close> is 64.\<close>

definition width_bytes :: "width \<Rightarrow> nat" where
  "width_bytes w = (case w of W8 \<Rightarrow> 1 | W16 \<Rightarrow> 2 | W32 \<Rightarrow> 4 | W64 \<Rightarrow> 8 | WInt \<Rightarrow> 8)"

definition IsIntType :: "fval \<Rightarrow> nat option" where
  "IsIntType k = (case k of VInt w _ \<Rightarrow> Some (width_bytes w) | _ \<Rightarrow> None)"

definition IsUintType :: "fval \<Rightarrow> nat option" where
  "IsUintType k = (case k of VUint w _ \<Rightarrow> Some (width_bytes w) | _ \<Rightarrow> None)"

section \<open>Fields of an object\<close>

text \<open>
  \<^verbatim>\<open>reflect.Indirect(reflect.ValueOf(obj)).FieldByName(name)\<close>: it panics on anything but a
  struct or a non-nil pointer to one, and on a path through a nil embedded pointer.
\<close>

definition field_by_name :: "obj \<Rightarrow> string \<Rightarrow> field option outcome" where
  "field_by_name obj name = (case (case obj of OPtr _ fs \<Rightarrow> Some fs | OStruct _ fs \<Rightarrow> Some fs | _ \<Rightarrow> None) of
     None \<Rightarrow> Panic
   | Some fs \<Rightarrow> (case find (\<lambda>f. fd_name f = name) fs of
       None \<Rightarrow> Ret None
     | Some f \<Rightarrow> if fd_path f = ThroughNil then Panic else Ret (Some f)))"

definition with_field :: "obj \<Rightarrow> string \<Rightarrow> (field \<Rightarrow> 'a res) \<Rightarrow> 'a res" where
  "with_field obj name g = (case field_by_name obj name of
     Panic \<Rightarrow> Panics | Ret None \<Rightarrow> Err (EField name) | Ret (Some f) \<Rightarrow> g f)"

text \<open>\<^verbatim>\<open>reflect.Value.String\<close>: the string, or the type in angle brackets.\<close>

definition render :: "bytes \<Rightarrow> bytes" where
  "render ty = map of_char ''<'' @ ty @ map of_char '' Value>''"

definition value_String :: "field \<Rightarrow> bytes" where
  "value_String f = (case fd_val f of VString s \<Rightarrow> s | _ \<Rightarrow> render (fd_type f))"

section \<open>The original FromObject methods\<close>

definition string_fromObjectSlow :: "(bytes \<Rightarrow> bytes) \<Rightarrow> string \<Rightarrow> bool \<Rightarrow> obj \<Rightarrow> bytes option res" where
  "string_fromObjectSlow uni name lowercase obj = with_field obj name (\<lambda>f.
     case (case fd_val f of VPtr _ p \<Rightarrow> p | _ \<Rightarrow> Some (value_String f)) of
       None \<Rightarrow> Ok None
     | Some val \<Rightarrow> if val = [] then Ok None else Ok (Some (lower_if uni lowercase val @ [0])))"

definition string_keys :: "(bytes \<Rightarrow> bytes) \<Rightarrow> bool \<Rightarrow> bytes list \<Rightarrow> bytes list" where
  "string_keys uni lowercase vals = map (\<lambda>v. lower_if uni lowercase v @ [0]) (filter (\<lambda>v. v \<noteq> []) vals)"

definition found :: "bytes list \<Rightarrow> bytes list option" where
  "found vals = (if vals = [] then None else Some vals)"

definition stringSlice_fromObjectSlow :: "(bytes \<Rightarrow> bytes) \<Rightarrow> string \<Rightarrow> bool \<Rightarrow> obj \<Rightarrow> bytes list option res" where
  "stringSlice_fromObjectSlow uni name lowercase obj = with_field obj name (\<lambda>f.
     case fd_val f of
       VStrings vals \<Rightarrow> Ok (found (string_keys uni lowercase vals))
     | _ \<Rightarrow> Err (EFieldKind name))"

text \<open>Each call ranges over the map in an order of its own; the list of pairs is one such order.\<close>

definition map_keys :: "(bytes \<Rightarrow> bytes) \<Rightarrow> bool \<Rightarrow> (bytes \<times> bytes) list \<Rightarrow> bytes list" where
  "map_keys uni lowercase kvs =
     map (\<lambda>(k, v). lower_if uni lowercase k @ [0] @ lower_if uni lowercase v @ [0]) (filter (\<lambda>(k, v). k \<noteq> []) kvs)"

definition stringMap_fromObjectSlow :: "(bytes \<Rightarrow> bytes) \<Rightarrow> string \<Rightarrow> bool \<Rightarrow> obj \<Rightarrow> bytes list option res" where
  "stringMap_fromObjectSlow uni name lowercase obj = with_field obj name (\<lambda>f.
     case fd_val f of
       VMap _ kvs \<Rightarrow> Ok (found (map_keys uni lowercase kvs))
     | _ \<Rightarrow> Err (EFieldKind name))"

definition int_fromObjectSlow :: "string \<Rightarrow> obj \<Rightarrow> bytes option res" where
  "int_fromObjectSlow name obj = with_field obj name (\<lambda>f.
     case fd_val f of
       VInt w val \<Rightarrow> bind_res (of_outcome (encodeInt val (width_bytes w))) (\<lambda>b. Ok (Some b))
     | _ \<Rightarrow> Err (EFieldKind name))"

definition uint_fromObjectSlow :: "string \<Rightarrow> obj \<Rightarrow> bytes option res" where
  "uint_fromObjectSlow name obj = with_field obj name (\<lambda>f.
     case fd_val f of
       VUint w val \<Rightarrow> bind_res (of_outcome (encodeUInt val (width_bytes w))) (\<lambda>b. Ok (Some b))
     | _ \<Rightarrow> Err (EFieldKind name))"

definition bool_fromObjectSlow :: "string \<Rightarrow> obj \<Rightarrow> bytes option res" where
  "bool_fromObjectSlow name obj = with_field obj name (\<lambda>f.
     case fd_val f of VBool b \<Rightarrow> Ok (Some [of_bool b]) | _ \<Rightarrow> Err (EFieldKind name))"

text \<open>
  The source returns its flag \<open>ok\<close> as true together with the error of a value that is no UUID;
  an error stands alone here, and every caller looks at the error before the flag.
\<close>

definition uuid_fromObjectSlow :: "string \<Rightarrow> obj \<Rightarrow> bytes option res" where
  "uuid_fromObjectSlow name obj = with_field obj name (\<lambda>f.
     let val = value_String f
     in if val = [] then Ok None else bind_res (of_uuid (parseString val True)) (\<lambda>b. Ok (Some b)))"

text \<open>
  FieldSetIndex compares the field's value with its type's zero value as interfaces: that
  panics on an unexported field and on a type that cannot be compared.
\<close>

definition is_zero :: "fval \<Rightarrow> bool option" where
  "is_zero v = (case v of VString s \<Rightarrow> Some (s = []) | VPtr _ p \<Rightarrow> Some (p = None) | VInt _ n \<Rightarrow> Some (n = 0)
     | VUint _ n \<Rightarrow> Some (n = 0) | VBool b \<Rightarrow> Some (\<not> b) | VStrings _ \<Rightarrow> None | VSlice \<Rightarrow> None | VMap _ _ \<Rightarrow> None
     | VOther z \<Rightarrow> z)"

definition fieldSet_fromObjectSlow :: "string \<Rightarrow> obj \<Rightarrow> bytes option res" where
  "fieldSet_fromObjectSlow name obj = with_field obj name (\<lambda>f.
     if \<not> fd_exported f then Panics
     else case is_zero (fd_val f) of None \<Rightarrow> Panics | Some z \<Rightarrow> Ok (Some [of_bool (\<not> z)]))"

definition cond_FromObject :: "(obj \<Rightarrow> bool option) option \<Rightarrow> obj \<Rightarrow> bytes option res" where
  "cond_FromObject c obj = (case c of None \<Rightarrow> Panics
     | Some g \<Rightarrow> (case g obj of None \<Rightarrow> Err ECond | Some b \<Rightarrow> Ok (Some [of_bool b])))"

text \<open>The typed indexers' \<^verbatim>\<open>object[T]\<close> and FromObject (typed.go).\<close>

definition object :: "nat \<Rightarrow> obj \<Rightarrow> field list res" where
  "object t obj = (case obj of
     OPtr u fs \<Rightarrow> if u = t then Ok fs else Err EObjectType
   | OStruct u fs \<Rightarrow> if u = t then Ok fs else Err EObjectType
   | ONilPtr u \<Rightarrow> if u = t then Err ENilObject else Err EObjectType
   | _ \<Rightarrow> Err EObjectType)"

definition typed_get :: "nat \<Rightarrow> (field list \<Rightarrow> 'a) option \<Rightarrow> obj \<Rightarrow> 'a res" where
  "typed_get t getf obj = bind_res (object t obj) (\<lambda>o'.
     case getf of None \<Rightarrow> Err ENoGet | Some g \<Rightarrow> Ok (g o'))"

definition tstring_FromObject :: "(bytes \<Rightarrow> bytes) \<Rightarrow> nat \<Rightarrow> (field list \<Rightarrow> bytes) option \<Rightarrow> bool \<Rightarrow> obj \<Rightarrow> bytes option res" where
  "tstring_FromObject uni t getf lowercase obj = bind_res (typed_get t getf obj) (\<lambda>val.
     if val = [] then Ok None else Ok (Some (appendString uni [] val lowercase @ [0])))"

definition tstrings_FromObject :: "(bytes \<Rightarrow> bytes) \<Rightarrow> nat \<Rightarrow> (field list \<Rightarrow> bytes list) option \<Rightarrow> bool \<Rightarrow> obj \<Rightarrow> bytes list option res" where
  "tstrings_FromObject uni t getf lowercase obj = bind_res (typed_get t getf obj) (\<lambda>vals.
     Ok (found (map (\<lambda>v. appendString uni [] v lowercase @ [0]) (filter (\<lambda>v. v \<noteq> []) vals))))"

definition tint_FromObject :: "nat \<Rightarrow> (field list \<Rightarrow> uint64) option \<Rightarrow> width \<Rightarrow> obj \<Rightarrow> bytes option res" where
  "tint_FromObject t getf w obj = bind_res (typed_get t getf obj) (\<lambda>val. Ok (Some (appendInt [] val (width_bytes w))))"

definition tuint_FromObject :: "nat \<Rightarrow> (field list \<Rightarrow> uint64) option \<Rightarrow> width \<Rightarrow> obj \<Rightarrow> bytes option res" where
  "tuint_FromObject t getf w obj = bind_res (typed_get t getf obj) (\<lambda>val. Ok (Some (appendUint [] val (width_bytes w))))"

definition tbool_FromObject :: "nat \<Rightarrow> (field list \<Rightarrow> bool) option \<Rightarrow> obj \<Rightarrow> bytes option res" where
  "tbool_FromObject t getf obj = bind_res (typed_get t getf obj) (\<lambda>b. Ok (Some [of_bool b]))"

subsection \<open>Compound indexes\<close>

text \<open>
  The loop of CompoundIndex over its sub-indexers' results, and the loop of
  CompoundMultiIndex that collects one list of values per level, in the original order.
\<close>

fun compound_fold :: "bool \<Rightarrow> nat \<Rightarrow> (bool \<times> bytes option res) list \<Rightarrow> bytes \<Rightarrow> bytes option res" where
  "compound_fold am i [] out = Ok (Some out)"
| "compound_fold am i ((single, r) # rs) out =
    (if \<not> single then Err (ENotSingle i)
     else case r of
       Err e \<Rightarrow> Err (ESub i e)
     | Panics \<Rightarrow> Panics
     | Ok None \<Rightarrow> if am then Ok (Some out) else Ok None
     | Ok (Some val) \<Rightarrow> compound_fold am (i + 1) rs (out @ val))"

datatype sub_result = SubSingle "bytes option res" | SubMulti "bytes list option res" | SubNeither

text \<open>None: a value is missing and AllowMissing is not set.\<close>

fun multi_levels :: "bool \<Rightarrow> nat \<Rightarrow> sub_result list \<Rightarrow> bytes list list \<Rightarrow> bytes list list option res" where
  "multi_levels am i [] levels = Ok (Some levels)"
| "multi_levels am i (SubSingle r # rs) levels = (case r of
     Err e \<Rightarrow> Err (ESub i e)
   | Panics \<Rightarrow> Panics
   | Ok None \<Rightarrow> if am then Ok (Some levels) else Ok None
   | Ok (Some val) \<Rightarrow> multi_levels am (i + 1) rs (levels @ [[val]]))"
| "multi_levels am i (SubMulti r # rs) levels = (case r of
     Err e \<Rightarrow> Err (ESub i e)
   | Panics \<Rightarrow> Panics
   | Ok None \<Rightarrow> if am then Ok (Some levels) else Ok None
   | Ok (Some vals) \<Rightarrow> multi_levels am (i + 1) rs (levels @ [vals]))"
| "multi_levels am i (SubNeither # rs) levels = Err (ENeither i)"

text \<open>
  \<^verbatim>\<open>walkVals\<close>: the levels as a tree, walked depth first; with AllowMissing every proper
  prefix of a path is a key too, before the keys that extend it. Every prefix is a list of its
  own, as in the repaired method of this repository.
\<close>

fun walkVals :: "bool \<Rightarrow> bytes \<Rightarrow> bytes list list \<Rightarrow> bytes list" where
  "walkVals am currPrefix [] = []"
| "walkVals am currPrefix [leaves] = map (\<lambda>v. currPrefix @ v) leaves"
| "walkVals am currPrefix (vals # lvl # rest) =
    concat (map (\<lambda>v. (if am then [currPrefix @ v] else []) @ walkVals am (currPrefix @ v) (lvl # rest)) vals)"

definition multi_result :: "bool \<Rightarrow> bytes list list option res \<Rightarrow> bytes list option res" where
  "multi_result am r = bind_res r (\<lambda>l. case l of None \<Rightarrow> Ok None | Some levels \<Rightarrow> Ok (Some (walkVals am [] levels)))"

text \<open>
  The original FromObject of every indexer, sub-indexers included. (A multi-valued indexer has
  no single FromObject and conversely; those cases are never asked for.)
\<close>

fun up_single :: "(bytes \<Rightarrow> bytes) \<Rightarrow> obj \<Rightarrow> indexer \<Rightarrow> bytes option res" where
  "up_single uni obj (IString name lc) = string_fromObjectSlow uni name lc obj"
| "up_single uni obj (IInt name) = int_fromObjectSlow name obj"
| "up_single uni obj (IUint name) = uint_fromObjectSlow name obj"
| "up_single uni obj (IBool name) = bool_fromObjectSlow name obj"
| "up_single uni obj (IUUID name) = uuid_fromObjectSlow name obj"
| "up_single uni obj (IFieldSet name) = fieldSet_fromObjectSlow name obj"
| "up_single uni obj (ICond c) = cond_FromObject c obj"
| "up_single uni obj (ITString t g lc) = tstring_FromObject uni t g lc obj"
| "up_single uni obj (ITInt t g w) = tint_FromObject t g w obj"
| "up_single uni obj (ITUint t g w) = tuint_FromObject t g w obj"
| "up_single uni obj (ITBool t g) = tbool_FromObject t g obj"
| "up_single uni obj (ICompound ixs am) =
    compound_fold am 0 (map (\<lambda>ix. (is_single ix, up_single uni obj ix)) ixs) []"
| "up_single uni obj (ICustom (FromSingle g) _ _) = g obj"
| "up_single uni obj _ = Panics"

fun up_multi :: "(bytes \<Rightarrow> bytes) \<Rightarrow> obj \<Rightarrow> indexer \<Rightarrow> bytes list option res" where
  "up_multi uni obj (IStringSlice name lc) = stringSlice_fromObjectSlow uni name lc obj"
| "up_multi uni obj (IStringMap name lc) = stringMap_fromObjectSlow uni name lc obj"
| "up_multi uni obj (ITStrings t g lc) = tstrings_FromObject uni t g lc obj"
| "up_multi uni obj (ICompoundMulti ixs am) =
    multi_result am (multi_levels am 0 (map (\<lambda>ix.
      if is_single ix then SubSingle (up_single uni obj ix)
      else if is_multi ix then SubMulti (up_multi uni obj ix) else SubNeither) ixs) [])"
| "up_multi uni obj (ICustom (FromMulti g) _ _) = g obj"
| "up_multi uni obj _ = Panics"

section \<open>The original FromArgs and PrefixFromArgs methods\<close>

definition string_fromArgsSlow :: "(bytes \<Rightarrow> bytes) \<Rightarrow> bool \<Rightarrow> arg list \<Rightarrow> bytes res" where
  "string_fromArgsSlow uni lowercase args = (case args of
     [a] \<Rightarrow> (case a of AString s \<Rightarrow> Ok (lower_if uni lowercase s @ [0]) | _ \<Rightarrow> Err EArgString)
   | _ \<Rightarrow> Err EOneArg)"

text \<open>PrefixFromArgs strips the terminator of what FromArgs returned.\<close>

definition strip_terminator :: "bytes res \<Rightarrow> bytes res" where
  "strip_terminator r = bind_res r (\<lambda>val. let n = length val in if n > 0 then Ok (take (n - 1) val) else Ok val)"

definition stringMap_fromArgsSlow :: "(bytes \<Rightarrow> bytes) \<Rightarrow> bool \<Rightarrow> arg list \<Rightarrow> bytes res" where
  "stringMap_fromArgsSlow uni lowercase args =
    (if length args > 2 \<or> length args = 0 then Err EOneOrTwoArgs
     else case args ! 0 of
       AString key \<Rightarrow>
         if length args = 2
         then (case args ! 1 of
             AString val \<Rightarrow> Ok ((lower_if uni lowercase key @ [0]) @ lower_if uni lowercase val @ [0])
           | _ \<Rightarrow> Err EArgString)
         else Ok (lower_if uni lowercase key @ [0])
     | _ \<Rightarrow> Err EArgString)"

definition int_fromArgsSlow :: "arg list \<Rightarrow> bytes res" where
  "int_fromArgsSlow args = (case args of
     [a] \<Rightarrow> (case a of
         ANil \<Rightarrow> Err EArgInvalid
       | AInt named w val \<Rightarrow> of_outcome (encodeInt val (width_bytes w))
       | _ \<Rightarrow> Err EArgKind)
   | _ \<Rightarrow> Err EOneArg)"

definition uint_fromArgsSlow :: "arg list \<Rightarrow> bytes res" where
  "uint_fromArgsSlow args = (case args of
     [a] \<Rightarrow> (case a of
         ANil \<Rightarrow> Err EArgInvalid
       | AUint named w val \<Rightarrow> of_outcome (encodeUInt val (width_bytes w))
       | _ \<Rightarrow> Err EArgKind)
   | _ \<Rightarrow> Err EOneArg)"

definition fromBoolArgs :: "arg list \<Rightarrow> bytes res" where
  "fromBoolArgs args = (case args of
     [a] \<Rightarrow> (case a of ABool b \<Rightarrow> (if b then Ok [1] else Ok [0]) | _ \<Rightarrow> Err EArgBool)
   | _ \<Rightarrow> Err EOneArg)"

definition uuid_fromArgsSlow :: "arg list \<Rightarrow> bytes res" where
  "uuid_fromArgsSlow args = (case args of
     [a] \<Rightarrow> (case a of
         AString s \<Rightarrow> of_uuid (parseString s True)
       | ABytes b \<Rightarrow> if length b \<noteq> 16 then Err EByteSlice else Ok b
       | _ \<Rightarrow> Err EArgStringOrBytes)
   | _ \<Rightarrow> Err EOneArg)"

definition uuid_prefixFromArgsSlow :: "arg list \<Rightarrow> bytes res" where
  "uuid_prefixFromArgsSlow args = (case args of
     [a] \<Rightarrow> (case a of
         AString s \<Rightarrow> of_uuid (parseString s False)
       | ABytes b \<Rightarrow> Ok b
       | _ \<Rightarrow> Err EArgStringOrBytes)
   | _ \<Rightarrow> Err EOneArg)"

text \<open>Typed indexers: a string; or an integer of any type, which must fit the index's width.\<close>

definition stringFromArgs :: "(bytes \<Rightarrow> bytes) \<Rightarrow> arg list \<Rightarrow> bool \<Rightarrow> bytes res" where
  "stringFromArgs uni args lowercase = (case args of
     [a] \<Rightarrow> (case a of AString s \<Rightarrow> Ok (appendString uni [] s lowercase @ [0]) | _ \<Rightarrow> Err EArgString)
   | _ \<Rightarrow> Err EOneArg)"

definition signedArg :: "arg \<Rightarrow> uint64 option" where
  "signedArg a = (case a of AInt False w v \<Rightarrow> Some v | _ \<Rightarrow> None)"

definition unsignedArg :: "arg \<Rightarrow> uint64 option" where
  "unsignedArg a = (case a of AUint False w v \<Rightarrow> Some v | AUintptr v \<Rightarrow> Some v | _ \<Rightarrow> None)"

definition signed_overflow :: "width \<Rightarrow> uint64 \<Rightarrow> bool" where
  "signed_overflow w v \<longleftrightarrow> (let sz = width_bytes w in
     sz < 8 \<and> (sint v < - (2 ^ (8 * sz - 1)) \<or> sint v > 2 ^ (8 * sz - 1) - 1))"

definition unsigned_overflow :: "width \<Rightarrow> uint64 \<Rightarrow> bool" where
  "unsigned_overflow w v \<longleftrightarrow> (let sz = width_bytes w in sz < 8 \<and> uint v > 2 ^ (8 * sz) - 1)"

definition tint_FromArgs :: "width \<Rightarrow> arg list \<Rightarrow> bytes res" where
  "tint_FromArgs w args = (case args of
     [a] \<Rightarrow> (case (case signedArg a of Some v \<Rightarrow> Some v
                   | None \<Rightarrow> (case a of AInt named w' v \<Rightarrow> Some v | _ \<Rightarrow> None)) of
         None \<Rightarrow> Err EArgSigned
       | Some v \<Rightarrow> if signed_overflow w v then Err EOverflow else Ok (appendInt [] v (width_bytes w)))
   | _ \<Rightarrow> Err EOneArg)"

definition tuint_FromArgs :: "width \<Rightarrow> arg list \<Rightarrow> bytes res" where
  "tuint_FromArgs w args = (case args of
     [a] \<Rightarrow> (case (case unsignedArg a of Some v \<Rightarrow> Some v
                   | None \<Rightarrow> (case a of AUint named w' v \<Rightarrow> Some v | AUintptr v \<Rightarrow> Some v | _ \<Rightarrow> None)) of
         None \<Rightarrow> Err EArgUnsigned
       | Some v \<Rightarrow> if unsigned_overflow w v then Err EOverflow else Ok (appendUint [] v (width_bytes w)))
   | _ \<Rightarrow> Err EOneArg)"

subsection \<open>Compound arguments\<close>

text \<open>One argument per sub-indexer, given as its FromArgs.\<close>

fun compound_args :: "nat \<Rightarrow> (arg list \<Rightarrow> bytes res) list \<Rightarrow> arg list \<Rightarrow> bytes \<Rightarrow> bytes res" where
  "compound_args i (g # gs) (a # as) out = (case g [a] of
     Err e \<Rightarrow> Err (ESub i e) | Panics \<Rightarrow> Panics | Ok val \<Rightarrow> compound_args (i + 1) gs as (out @ val))"
| "compound_args i _ _ out = Ok out"

text \<open>For a prefix the last argument goes to PrefixFromArgs, when the sub-indexer has it.\<close>

fun compound_prefix :: "nat \<Rightarrow> ((arg list \<Rightarrow> bytes res) \<times> (arg list \<Rightarrow> bytes res) option) list \<Rightarrow> arg list \<Rightarrow> bytes \<Rightarrow> bytes res" where
  "compound_prefix i ((g, p) # gs) (a # as) out =
    (if as \<noteq> []
     then (case g [a] of
       Err e \<Rightarrow> Err (ESub i e) | Panics \<Rightarrow> Panics | Ok val \<Rightarrow> compound_prefix (i + 1) gs as (out @ val))
     else (case p of None \<Rightarrow> Err (ENoPrefix i)
       | Some pf \<Rightarrow> (case pf [a] of
           Err e \<Rightarrow> Err (ESub i e) | Panics \<Rightarrow> Panics | Ok val \<Rightarrow> Ok (out @ val))))"
| "compound_prefix i _ _ out = Ok out"

definition is_map :: "indexer \<Rightarrow> bool" where
  "is_map ix = (case ix of IStringMap _ _ \<Rightarrow> True | _ \<Rightarrow> False)"

text \<open>CompoundMultiIndex.FromArgs: StringMapFieldIndex takes a pair of arguments.\<close>

fun count_pairs :: "indexer list \<Rightarrow> nat \<Rightarrow> nat \<Rightarrow> nat \<Rightarrow> nat option" where
  "count_pairs [] nargs argCount maps = Some maps"
| "count_pairs (ix # ixs) nargs argCount maps =
    (if argCount \<ge> nargs then Some maps
     else if is_map ix
     then (if argCount + 1 \<ge> nargs then None else count_pairs ixs nargs (argCount + 2) (maps + 1))
     else count_pairs ixs nargs (argCount + 1) maps)"

fun multi_args :: "nat \<Rightarrow> (bool \<times> (arg list \<Rightarrow> bytes res)) list \<Rightarrow> arg list \<Rightarrow> bytes \<Rightarrow> bytes res" where
  "multi_args i [] args out = Ok out"
| "multi_args i ((mapp, g) # gs) args out = (case args of
     [] \<Rightarrow> Ok out
   | a # as \<Rightarrow>
      (if mapp
       then (case as of
           [] \<Rightarrow> Panics
         | b # bs \<Rightarrow> (case (if b = ANil then g [a] else g [a, b]) of
               Err e \<Rightarrow> Err (ESub i e) | Panics \<Rightarrow> Panics | Ok val \<Rightarrow> multi_args (i + 1) gs bs (out @ val)))
       else (case g [a] of
           Err e \<Rightarrow> Err (ESub i e) | Panics \<Rightarrow> Panics | Ok val \<Rightarrow> multi_args (i + 1) gs as (out @ val))))"

definition compoundMulti_FromArgs :: "bool \<Rightarrow> indexer list \<Rightarrow> (arg list \<Rightarrow> bytes res) list \<Rightarrow> arg list \<Rightarrow> bytes res" where
  "compoundMulti_FromArgs am ixs gs args = (case count_pairs ixs (length args) 0 0 of
     None \<Rightarrow> Err EPairs
   | Some maps \<Rightarrow>
       if am \<and> length args > length ixs + maps then Err ETooMany
       else if \<not> am \<and> length args \<noteq> length ixs + maps then Err EArgCount
       else multi_args 0 (zip (map is_map ixs) gs) args [])"

definition has_prefix :: "indexer \<Rightarrow> bool" where
  "has_prefix ix = (case ix of IString _ _ \<Rightarrow> True | IStringSlice _ _ \<Rightarrow> True | IUUID _ \<Rightarrow> True | ITString _ _ _ \<Rightarrow> True
    | ITStrings _ _ _ \<Rightarrow> True | ICompound _ _ \<Rightarrow> True | ICustom _ _ (Some _) \<Rightarrow> True | _ \<Rightarrow> False)"

text \<open>The original FromArgs and PrefixFromArgs of every indexer.\<close>

fun up_args :: "(bytes \<Rightarrow> bytes) \<Rightarrow> indexer \<Rightarrow> arg list \<Rightarrow> bytes res" where
  "up_args uni (IString name lc) args = string_fromArgsSlow uni lc args"
| "up_args uni (IStringSlice name lc) args = string_fromArgsSlow uni lc args"
| "up_args uni (IStringMap name lc) args = stringMap_fromArgsSlow uni lc args"
| "up_args uni (IInt name) args = int_fromArgsSlow args"
| "up_args uni (IUint name) args = uint_fromArgsSlow args"
| "up_args uni (IBool name) args = fromBoolArgs args"
| "up_args uni (IUUID name) args = uuid_fromArgsSlow args"
| "up_args uni (IFieldSet name) args = fromBoolArgs args"
| "up_args uni (ICond c) args = fromBoolArgs args"
| "up_args uni (ITString t g lc) args = stringFromArgs uni args lc"
| "up_args uni (ITStrings t g lc) args = stringFromArgs uni args lc"
| "up_args uni (ITInt t g w) args = tint_FromArgs w args"
| "up_args uni (ITUint t g w) args = tuint_FromArgs w args"
| "up_args uni (ITBool t g) args = fromBoolArgs args"
| "up_args uni (ICompound ixs am) args =
    (if length args \<noteq> length ixs then Err EArgCount
     else compound_args 0 (map (\<lambda>ix as. up_args uni ix as) ixs) args [])"
| "up_args uni (ICompoundMulti ixs am) args =
    compoundMulti_FromArgs am ixs (map (\<lambda>ix as. up_args uni ix as) ixs) args"
| "up_args uni (ICustom _ g _) args = g args"

fun up_prefix :: "(bytes \<Rightarrow> bytes) \<Rightarrow> indexer \<Rightarrow> arg list \<Rightarrow> bytes res" where
  "up_prefix uni (IString name lc) args = strip_terminator (up_args uni (IString name lc) args)"
| "up_prefix uni (IStringSlice name lc) args = strip_terminator (up_args uni (IStringSlice name lc) args)"
| "up_prefix uni (IUUID name) args = uuid_prefixFromArgsSlow args"
| "up_prefix uni (ITString t g lc) args = bind_res (stringFromArgs uni args lc) (\<lambda>val. Ok (take (length val - 1) val))"
| "up_prefix uni (ITStrings t g lc) args = bind_res (stringFromArgs uni args lc) (\<lambda>val. Ok (take (length val - 1) val))"
| "up_prefix uni (ICompound ixs am) args =
    (if length args > length ixs then Err ETooMany
     else compound_prefix 0 (map (\<lambda>ix. (up_args uni ix, if has_prefix ix then Some (\<lambda>as. up_prefix uni ix as) else None)) ixs) args [])"
| "up_prefix uni (ICustom _ _ (Some p)) args = p args"
| "up_prefix uni _ args = Panics"

end
