(* ===== verification/Extract.thy ===== *)
theory Extract
  imports Indexers
begin

text \<open>
  The extractors of extract.go, the allocation-free twins of the indexers: they append keys to
  a caller's buffer, take only the common path, and report \<open>handled = False\<close> for everything
  else, whereupon the caller asks the original method. The theory shows that whatever they
  handle they answer exactly as the original method does. An extractor is identified with its
  indexer (subsCurrent holds: an indexer is an immutable value here). How a field is resolved,
  cached and read from memory is the subject of the theory FieldAccess; here an object is the list of
  its fields. The build is the default one, which reads slices and maps through unsafe pointers.
\<close>

section \<open>Fields\<close>

text \<open>
  resolveField together with the isNilObject test that follows every use of it: a field of a
  non-nil pointer to a struct that is not promoted through an embedded pointer.
\<close>

definition usable_field :: "obj \<Rightarrow> string \<Rightarrow> field option" where
  "usable_field obj name = (case obj of
     OPtr _ fs \<Rightarrow> (case find (\<lambda>f. fd_name f = name) fs of
         None \<Rightarrow> None | Some f \<Rightarrow> if fd_path f = Direct then Some f else None)
   | _ \<Rightarrow> None)"

definition typedOf :: "nat \<Rightarrow> (field list \<Rightarrow> 'a) option \<Rightarrow> obj \<Rightarrow> 'a option" where
  "typedOf t getf obj = (case obj of
     OPtr u fs \<Rightarrow> if u = t then (case getf of None \<Rightarrow> None | Some g \<Rightarrow> Some (g fs)) else None
   | _ \<Rightarrow> None)"

section \<open>One value\<close>

definition scalar :: "indexer \<Rightarrow> bool" where
  "scalar ix = (case ix of IString _ _ \<Rightarrow> True | IInt _ \<Rightarrow> True | IUint _ \<Rightarrow> True | IBool _ \<Rightarrow> True | IUUID _ \<Rightarrow> True
    | IFieldSet _ \<Rightarrow> True | ITString _ _ _ \<Rightarrow> True | ITInt _ _ _ \<Rightarrow> True | ITUint _ _ _ \<Rightarrow> True | ITBool _ _ \<Rightarrow> True
    | _ \<Rightarrow> False)"

definition append_text :: "(bytes \<Rightarrow> bytes) \<Rightarrow> bytes \<Rightarrow> bytes \<Rightarrow> bool \<Rightarrow> bytes \<times> bool \<times> bool" where
  "append_text uni dst val lc = (if val = [] then (dst, False, True) else (appendString uni dst val lc @ [0], True, True))"

text \<open>The loop over a compound index's sub-extractors; \<open>start\<close> is the length to cut back to.\<close>

fun compound_scalar :: "bool \<Rightarrow> nat \<Rightarrow> (bool \<times> (bytes \<Rightarrow> bytes \<times> bool \<times> bool)) list \<Rightarrow> bytes \<Rightarrow> bytes \<times> bool \<times> bool" where
  "compound_scalar am start [] dst = (dst, True, True)"
| "compound_scalar am start ((sc, g) # subs) dst =
    (if \<not> sc then (take start dst, False, False)
     else case g dst of (out, ok, handled) \<Rightarrow>
       if \<not> handled then (take start dst, False, False)
       else if \<not> ok then (if am then (dst, True, True) else (take start dst, False, True))
       else compound_scalar am start subs out)"

fun appendScalar :: "(bytes \<Rightarrow> bytes) \<Rightarrow> obj \<Rightarrow> indexer \<Rightarrow> bytes \<Rightarrow> bytes \<times> bool \<times> bool" where
  "appendScalar uni obj (IString name lc) dst = (case usable_field obj name of
     None \<Rightarrow> (dst, False, False)
   | Some f \<Rightarrow> (case fd_val f of
       VString val \<Rightarrow> append_text uni dst val lc
     | VPtr True p \<Rightarrow> (case p of None \<Rightarrow> (dst, False, True) | Some val \<Rightarrow> append_text uni dst val lc)
     | _ \<Rightarrow> (dst, False, False)))"
| "appendScalar uni obj (IInt name) dst = (case usable_field obj name of
     None \<Rightarrow> (dst, False, False)
   | Some f \<Rightarrow> (case fd_val f of
       VInt w val \<Rightarrow> (appendInt dst val (width_bytes w), True, True) | _ \<Rightarrow> (dst, False, False)))"
| "appendScalar uni obj (IUint name) dst = (case usable_field obj name of
     None \<Rightarrow> (dst, False, False)
   | Some f \<Rightarrow> (case fd_val f of
       VUint w val \<Rightarrow> (appendUint dst val (width_bytes w), True, True) | _ \<Rightarrow> (dst, False, False)))"
| "appendScalar uni obj (IBool name) dst = (case usable_field obj name of
     None \<Rightarrow> (dst, False, False)
   | Some f \<Rightarrow> (case fd_val f of
       VBool b \<Rightarrow> (if b then (dst @ [1], True, True) else (dst @ [0], True, True)) | _ \<Rightarrow> (dst, False, False)))"
| "appendScalar uni obj (IUUID name) dst = (case usable_field obj name of
     None \<Rightarrow> (dst, False, False)
   | Some f \<Rightarrow> (case fd_val f of
       VString val \<Rightarrow> if val = [] then (dst, False, True)
         else (case appendUUID dst val True of Some out \<Rightarrow> (out, True, True) | None \<Rightarrow> (dst, False, False))
     | _ \<Rightarrow> (dst, False, False)))"
| "appendScalar uni obj (IFieldSet name) dst = (case usable_field obj name of
     None \<Rightarrow> (dst, False, False)
   | Some f \<Rightarrow> if \<not> (fd_exported f \<and> fd_embed_exported f) then (dst, False, False)
       else (case (case fd_val f of VPtr _ p \<Rightarrow> Some (p \<noteq> None) | VString s \<Rightarrow> Some (s \<noteq> []) | VBool b \<Rightarrow> Some b | _ \<Rightarrow> None) of
           None \<Rightarrow> (dst, False, False)
         | Some isset \<Rightarrow> if isset then (dst @ [1], True, True) else (dst @ [0], True, True)))"
| "appendScalar uni obj (ITString t g lc) dst = (case typedOf t g obj of
     None \<Rightarrow> (dst, False, False) | Some val \<Rightarrow> append_text uni dst val lc)"
| "appendScalar uni obj (ITInt t g w) dst = (case typedOf t g obj of
     None \<Rightarrow> (dst, False, False) | Some val \<Rightarrow> (appendInt dst val (width_bytes w), True, True))"
| "appendScalar uni obj (ITUint t g w) dst = (case typedOf t g obj of
     None \<Rightarrow> (dst, False, False) | Some val \<Rightarrow> (appendUint dst val (width_bytes w), True, True))"
| "appendScalar uni obj (ITBool t g) dst = (case typedOf t g obj of
     None \<Rightarrow> (dst, False, False) | Some b \<Rightarrow> (dst @ [if b then 1 else 0], True, True))"
| "appendScalar uni obj (ICompound ixs am) dst =
    compound_scalar am (length dst) (map (\<lambda>ix. (scalar ix, \<lambda>d. appendScalar uni obj ix d)) ixs) dst"
| "appendScalar uni obj _ dst = (dst, False, False)"

text \<open>With the one kind that can fail after doing observable work, a ConditionalIndex.\<close>

definition appendObjectErr :: "(bytes \<Rightarrow> bytes) \<Rightarrow> obj \<Rightarrow> indexer \<Rightarrow> bytes \<Rightarrow> (bytes \<times> bool \<times> bool) \<times> err option" where
  "appendObjectErr uni obj ix dst = (case ix of
     ICond c \<Rightarrow> (case c of
         None \<Rightarrow> ((dst, False, False), None)
       | Some g \<Rightarrow> (case g obj of
           None \<Rightarrow> ((dst, False, True), Some ECond)
         | Some res \<Rightarrow> if res then ((dst @ [1], True, True), None) else ((dst @ [0], True, True), None)))
   | _ \<Rightarrow> (appendScalar uni obj ix dst, None))"

section \<open>All keys of an object\<close>

definition maxCompoundDepth :: nat where
  "maxCompoundDepth = 8"

text \<open>
  Collecting the values of the sub-indexers level by level in \<open>tmp\<close>: None for a level that is
  not handled, \<open>Some None\<close> for a missing value without AllowMissing. \<open>bounds ! d\<close> up to
  \<open>bounds ! (d + 1)\<close> are the values of level \<open>d\<close>.
\<close>

fun collect_levels :: "bool \<Rightarrow> (keyList \<Rightarrow> keyList \<times> bool \<times> bool) list \<Rightarrow> keyList \<Rightarrow> nat list \<Rightarrow> (keyList \<times> nat list) option option" where
  "collect_levels am [] tmp bounds = Some (Some (tmp, bounds))"
| "collect_levels am (g # gs) tmp bounds = (case g tmp of (tmp', ok, handled) \<Rightarrow>
    if \<not> handled then None
    else if \<not> ok then (if am then Some (Some (tmp', bounds)) else Some None)
    else collect_levels am gs tmp' (bounds @ [kl_len tmp']))"

text \<open>The depth-first product loop, with its position and prefix length per depth.\<close>

partial_function (option) product_loop ::
  "bool \<Rightarrow> keyList \<Rightarrow> nat list \<Rightarrow> nat \<Rightarrow> bytes \<Rightarrow> int \<Rightarrow> nat list \<Rightarrow> nat list \<Rightarrow> bytes \<Rightarrow> keyList \<Rightarrow> keyList option" where
  "product_loop am tmp bounds levels sfx depth pos plen pfx kl =
    (if depth < 0 \<or> levels = 0 then Some kl
     else let d = nat depth in
       if pos ! d = bounds ! (d + 1) - bounds ! d
       then product_loop am tmp bounds levels sfx (depth - 1) (pos[d := 0]) plen
              (if depth - 1 \<ge> 0 then take (plen ! nat (depth - 1)) pfx else pfx) kl
       else let v = kl_key tmp (bounds ! d + pos ! d) in
         if d = levels - 1
         then product_loop am tmp bounds levels sfx depth (pos[d := pos ! d + 1]) plen pfx
                (kl_end (kl_append ((pfx @ v) @ sfx) kl))
         else product_loop am tmp bounds levels sfx (depth + 1) (pos[d := pos ! d + 1]) (plen[d := length pfx]) (pfx @ v)
                (if am then kl_end (kl_append ((pfx @ v) @ sfx) kl) else kl))"

definition append_strings :: "(bytes \<Rightarrow> bytes) \<Rightarrow> bool \<Rightarrow> bytes \<Rightarrow> bytes list \<Rightarrow> keyList \<Rightarrow> keyList \<times> bool" where
  "append_strings uni lc sfx vals kl = fold (\<lambda>val (kl, ok).
     if val = [] then (kl, ok)
     else (kl_end (kl\<lparr>buf := (appendString uni (buf kl) val lc @ [0]) @ sfx\<rparr>), True)) vals (kl, False)"

definition append_pairs :: "(bytes \<Rightarrow> bytes) \<Rightarrow> bool \<Rightarrow> bytes \<Rightarrow> (bytes \<times> bytes) list \<Rightarrow> keyList \<Rightarrow> keyList \<times> bool" where
  "append_pairs uni lc sfx kvs kl = fold (\<lambda>(k, v) (kl, ok).
     if k = [] then (kl, ok)
     else (kl_end (kl\<lparr>buf := (appendString uni (appendString uni (buf kl) k lc @ [0]) v lc @ [0]) @ sfx\<rparr>), True)) kvs (kl, False)"

text \<open>The kinds with one list of strings, without scratch space.\<close>

definition append_multi :: "(bytes \<Rightarrow> bytes) \<Rightarrow> obj \<Rightarrow> bytes \<Rightarrow> indexer \<Rightarrow> keyList \<Rightarrow> keyList \<times> bool \<times> bool" where
  "append_multi uni obj sfx ix kl = (case ix of
     IStringSlice name lc \<Rightarrow> (case usable_field obj name of
         None \<Rightarrow> (kl, False, False)
       | Some f \<Rightarrow> (case fd_val f of
           VStrings vals \<Rightarrow> (case append_strings uni lc sfx vals kl of (kl', ok) \<Rightarrow> (kl', ok, True))
         | _ \<Rightarrow> (kl, False, False)))
   | ITStrings t g lc \<Rightarrow> (case typedOf t g obj of
         None \<Rightarrow> (kl, False, False)
       | Some vals \<Rightarrow> (case append_strings uni lc sfx vals kl of (kl', ok) \<Rightarrow> (kl', ok, True)))
   | IStringMap name lc \<Rightarrow> (case usable_field obj name of
         None \<Rightarrow> (kl, False, False)
       | Some f \<Rightarrow> (case fd_val f of
           VMap exact kvs \<Rightarrow> if \<not> exact then (kl, False, False)
             else (case append_pairs uni lc sfx kvs kl of (kl', ok) \<Rightarrow> (kl', ok, True))
         | _ \<Rightarrow> (kl, False, False)))
   | _ \<Rightarrow> (kl, False, False))"

definition collect_sub :: "(bytes \<Rightarrow> bytes) \<Rightarrow> obj \<Rightarrow> indexer \<Rightarrow> keyList \<Rightarrow> keyList \<times> bool \<times> bool" where
  "collect_sub uni obj ix tmp =
    (if scalar ix
     then (case appendScalar uni obj ix (buf tmp) of (out, ok, handled) \<Rightarrow>
         if handled \<and> ok then (kl_end (tmp\<lparr>buf := out\<rparr>), ok, handled) else (tmp, ok, handled))
     else append_multi uni obj [] ix tmp)"

text \<open>
  The space the product needs, computed beforehand: the bytes and the number of its keys. Every
  access to the ends and every division is checked: Panic for one that Go would not survive.
\<close>

definition level_count :: "nat list \<Rightarrow> nat \<Rightarrow> nat" where
  "level_count bounds d = bounds ! (d + 1) - bounds ! d"

fun add_sizes :: "keyList \<Rightarrow> nat list \<Rightarrow> nat \<Rightarrow> nat list \<Rightarrow> nat \<Rightarrow> nat outcome" where
  "add_sizes tmp bounds count [] sz = Ret sz"
| "add_sizes tmp bounds count (d # ds) sz = (let c = level_count bounds d in
     if bounds ! (d + 1) = 0 \<or> bounds ! (d + 1) > length (ends tmp) then Panic
     else let l = ends tmp ! (bounds ! (d + 1) - 1) - (if bounds ! d > 0 then ends tmp ! (bounds ! d - 1) else 0) in
       if c = 0 then Panic else add_sizes tmp bounds count ds (sz + l * (count div c)))"

fun product_sizes :: "keyList \<Rightarrow> nat list \<Rightarrow> nat \<Rightarrow> int list \<Rightarrow> nat \<Rightarrow> nat \<Rightarrow> (nat \<times> nat) outcome" where
  "product_sizes tmp bounds suffix_len [] sz keys = Ret (sz, keys)"
| "product_sizes tmp bounds suffix_len (k # ks) sz keys = (let ds = [0..<nat (k + 1)]; count = prod_list (map (level_count bounds) ds) in
     case add_sizes tmp bounds count ds sz of
       Panic \<Rightarrow> Panic
     | Ret sz1 \<Rightarrow> product_sizes tmp bounds suffix_len ks (sz1 + count * suffix_len) (keys + count))"

definition output_sizes :: "bool \<Rightarrow> keyList \<Rightarrow> nat list \<Rightarrow> nat \<Rightarrow> (nat \<times> nat) outcome" where
  "output_sizes am tmp bounds suffix_len = (let levels = length bounds - 1; first = (if am then 0 else int levels - 1)
     in product_sizes tmp bounds suffix_len [first..int levels - 1] 0 0)"

text \<open>None is a call that does not return: a panic of the size computation, or a product loop without end.\<close>

definition appendKeys :: "(bytes \<Rightarrow> bytes) \<Rightarrow> obj \<Rightarrow> bytes \<Rightarrow> bool \<Rightarrow> indexer \<Rightarrow> keyList \<Rightarrow>
    (keyList \<times> bool \<times> bool \<times> err option) option" where
  "appendKeys uni obj sfx has_tmp ix kl = (case ix of
     ICompoundMulti ixs am \<Rightarrow>
       if \<not> has_tmp \<or> length ixs > maxCompoundDepth then Some (kl, False, False, None)
       else (case collect_levels am (map (collect_sub uni obj) ixs) (kl_reset kl_empty) [0] of
           None \<Rightarrow> Some (kl, False, False, None)
         | Some None \<Rightarrow> Some (kl, False, True, None)
         | Some (Some (tmp, bounds)) \<Rightarrow>
             (case output_sizes am tmp bounds (length sfx) of
                Panic \<Rightarrow> None
              | Ret _ \<Rightarrow> map_option (\<lambda>kl'. (kl', True, True, None))
                  (product_loop am tmp bounds (length bounds - 1) sfx 0
                     (replicate maxCompoundDepth 0) (replicate maxCompoundDepth 0) [] kl)))
   | IStringSlice _ _ \<Rightarrow> (case append_multi uni obj sfx ix kl of (kl', ok, handled) \<Rightarrow> Some (kl', ok, handled, None))
   | ITStrings _ _ _ \<Rightarrow> (case append_multi uni obj sfx ix kl of (kl', ok, handled) \<Rightarrow> Some (kl', ok, handled, None))
   | IStringMap _ _ \<Rightarrow> (case append_multi uni obj sfx ix kl of (kl', ok, handled) \<Rightarrow> Some (kl', ok, handled, None))
   | ICustom _ _ _ \<Rightarrow> Some (kl, False, False, None)
   | _ \<Rightarrow> (case appendObjectErr uni obj ix (buf kl) of ((out, ok, handled), err) \<Rightarrow>
       if \<not> handled \<or> \<not> ok \<or> err \<noteq> None then Some (kl\<lparr>buf := take (length (buf kl)) out\<rparr>, ok, handled, err)
       else Some (kl_end (kl\<lparr>buf := out @ sfx\<rparr>), True, True, None)))"

section \<open>What the extractors handle they answer like the original methods\<close>

named_theorems original \<open>unfoldings of the original methods\<close>

lemma usable_with_field [original]: "usable_field obj name = Some f \<Longrightarrow> with_field obj name g = g f"
  by (cases obj) (auto simp: usable_field_def with_field_def field_by_name_def split: option.splits if_splits)

lemma typedOf_get [original]: "typedOf t g obj = Some v \<Longrightarrow> typed_get t g obj = Ok v"
  by (cases obj) (auto simp: typedOf_def typed_get_def object_def bind_res_def split: option.splits if_splits)

lemma int_size_width [simp]: "int_size (width_bytes w)"
  by (cases w) (simp_all add: width_bytes_def int_size_def)

lemma encode_Ok [simp]:
  "of_outcome (encodeInt v (width_bytes w)) = Ok (appendInt [] v (width_bytes w))"
  "of_outcome (encodeUInt v (width_bytes w)) = Ok (appendUint [] v (width_bytes w))"
  using appendInt_encode [OF int_size_width, of v w "[]"] appendUint_encode [OF int_size_width, of v w "[]"]
  by (simp_all add: of_outcome_def)

lemma append_split:
  "appendInt dst v (width_bytes w) = dst @ appendInt [] v (width_bytes w)"
  "appendUint dst v (width_bytes w) = dst @ appendUint [] v (width_bytes w)"
  using appendInt_encode [OF int_size_width, of v w dst] appendUint_encode [OF int_size_width, of v w dst]
  by blast+

lemma bind_Ok [simp]: "bind_res (Ok a) f = f a" "bind_res (Err e) f = Err e" "bind_res Panics f = Panics"
  by (simp_all add: bind_res_def)

text \<open>
  What a result \<open>(out, ok, handled)\<close> on \<open>dst\<close> says of the original answer \<open>r\<close>: nothing when it
  is not handled, and then or without a value the buffer is unchanged.
\<close>

definition agrees :: "bytes \<Rightarrow> bytes option res \<Rightarrow> bytes \<times> bool \<times> bool \<Rightarrow> bool" where
  "agrees dst r t \<longleftrightarrow> (case t of (out, ok, handled) \<Rightarrow>
     (handled \<longrightarrow> (if ok then \<exists>k. r = Ok (Some k) \<and> out = dst @ k else r = Ok None \<and> out = dst)) \<and>
     (\<not> handled \<longrightarrow> \<not> ok \<and> out = dst))"

lemma agrees_simps [simp]: "agrees dst r (dst, False, False)" "agrees dst (Ok None) (dst, False, True)"
  "agrees dst (Ok (Some k)) (dst @ k, True, True)"
  by (simp_all add: agrees_def)

lemma agrees_append_text [simp]:
  "agrees dst (if val = [] then Ok None else Ok (Some (lower_if uni lc val @ [0]))) (append_text uni dst val lc)"
  "agrees dst (Ok None) (append_text uni dst [] lc)"
  "val \<noteq> [] \<Longrightarrow> agrees dst (Ok (Some (lower_if uni lc val @ [0]))) (append_text uni dst val lc)"
  by (simp_all add: append_text_def agrees_def)

lemma agrees_uuid:
  "agrees dst (bind_res (of_uuid (parseString val True)) (\<lambda>b. Ok (Some b)))
     (case appendUUID dst val True of Some out \<Rightarrow> (out, True, True) | None \<Rightarrow> (dst, False, False))"
  by (auto simp: appendUUID_slow parseString_slow of_uuid_def bind_res_def split: sum.split)

lemma compound_scalar_agrees:
  assumes "\<forall>x\<in>set xs. \<forall>d. agrees d (r x) (g x d)" and "\<forall>x\<in>set xs. sc x \<longrightarrow> single x"
  shows "agrees base (compound_fold am i (map (\<lambda>x. (single x, r x)) xs) acc)
    (compound_scalar am (length base) (map (\<lambda>x. (sc x, g x)) xs) (base @ acc))"
  using assms
proof (induction xs arbitrary: i acc)
  case Nil
  then show ?case by (simp add: agrees_def)
next
  case (Cons x xs)
  show ?case
  proof (cases "sc x")
    case False
    then show ?thesis by (simp add: agrees_def)
  next
    case True
    then have s: "single x" using Cons.prems(2) by simp
    obtain out ok handled where g: "g x (base @ acc) = (out, ok, handled)" by (cases "g x (base @ acc)") auto
    have a: "agrees (base @ acc) (r x) (out, ok, handled)" using Cons.prems(1) g by (metis list.set_intros(1))
    consider "\<not> handled" | "handled" "\<not> ok" | k where "handled" "ok" "r x = Ok (Some k)" "out = base @ acc @ k"
      using a by (cases ok) (auto simp: agrees_def)
    then show ?thesis
    proof cases
      case 1
      then show ?thesis using True g by (simp add: agrees_def)
    next
      case 2
      then have "r x = Ok None" using a by (simp add: agrees_def)
      then show ?thesis using 2 True s g by (simp add: agrees_def)
    next
      case 3
      then show ?thesis using True s g Cons.IH [of "i + 1" "acc @ k"] Cons.prems by simp
    qed
  qed
qed

lemma scalar_single: "scalar ix \<Longrightarrow> is_single ix"
  by (cases ix) (simp_all add: scalar_def is_single_def)

lemma appendScalar_agrees: "agrees dst (up_single uni obj ix) (appendScalar uni obj ix dst)"
proof (induction uni obj ix dst rule: appendScalar.induct)
  case (1 uni obj name lc dst)
  show ?case
  proof (cases "usable_field obj name")
    case (Some f)
    then show ?thesis
      by (cases "fd_val f") (auto simp: string_fromObjectSlow_def usable_with_field value_String_def split: option.split bool.split)
  qed simp
next
  case (2 uni obj name dst)
  then show ?case
    by (auto simp: int_fromObjectSlow_def original append_split [of dst] split: option.split fval.split)
next
  case (3 uni obj name dst)
  then show ?case
    by (auto simp: uint_fromObjectSlow_def original append_split [of dst] split: option.split fval.split)
next
  case (4 uni obj name dst)
  then show ?case
    by (auto simp: bool_fromObjectSlow_def original split: option.split fval.split)
next
  case (5 uni obj name dst)
  show ?case
  proof (cases "usable_field obj name")
    case (Some f)
    then show ?thesis
      by (cases "fd_val f") (simp_all add: uuid_fromObjectSlow_def usable_with_field value_String_def Let_def agrees_uuid)
  qed simp
next
  case (6 uni obj name dst)
  show ?case
  proof (cases "usable_field obj name")
    case (Some f)
    then show ?thesis
      by (cases "fd_val f") (auto simp: fieldSet_fromObjectSlow_def usable_with_field is_zero_def)
  qed simp
next
  case (7 uni obj t g lc dst)
  show ?case
  proof (cases "typedOf t g obj")
    case (Some val)
    then show ?thesis by (simp add: tstring_FromObject_def typedOf_get)
  qed simp
next
  case (8 uni obj t g w dst)
  then show ?case by (auto simp: tint_FromObject_def original append_split [of dst] split: option.split)
next
  case (9 uni obj t g w dst)
  then show ?case by (auto simp: tuint_FromObject_def original append_split [of dst] split: option.split)
next
  case (10 uni obj t g dst)
  then show ?case by (auto simp: tbool_FromObject_def original split: option.split)
next
  case (11 uni obj ixs am dst)
  have "\<forall>x\<in>set ixs. \<forall>d. agrees d (up_single uni obj x) (appendScalar uni obj x d)" using 11 by blast
  then show ?case
    using compound_scalar_agrees [where xs = ixs and r = "up_single uni obj" and g = "\<lambda>ix d. appendScalar uni obj ix d" and
        sc = scalar and single = is_single and base = dst and am = am and i = 0 and acc = "[]"]
    by (simp add: scalar_single)
qed simp_all

subsection \<open>Several values\<close>

definition kl_good :: "keyList \<Rightarrow> bool" where
  "kl_good kl \<longleftrightarrow> kl_ok kl \<and> pending kl = []"

definition appended :: "keyList \<Rightarrow> keyList \<Rightarrow> bytes list \<Rightarrow> bool" where
  "appended kl kl' vals \<longleftrightarrow> kl_good kl' \<and> kl_split kl' = kl_split kl @ vals"

lemma appended_refl: "kl_good kl \<Longrightarrow> appended kl kl []"
  by (simp add: appended_def)

lemma appended_trans: "appended kl kl' vs \<Longrightarrow> appended kl' kl'' ws \<Longrightarrow> appended kl kl'' (vs @ ws)"
  by (simp add: appended_def)

lemma appended_end: "kl_good kl \<Longrightarrow> appended kl (kl_end (kl_append k kl)) [k]"
  by (simp add: appended_def kl_good_def)

lemma buf_append: "kl\<lparr>buf := buf kl @ k\<rparr> = kl_append k kl"
  by (simp add: kl_append_def)

lemma append_strings_fold:
  "kl_good kl \<Longrightarrow> fold (\<lambda>val (kl, ok). if val = [] then (kl, ok)
     else (kl_end (kl\<lparr>buf := (appendString uni (buf kl) val lc @ [0]) @ sfx\<rparr>), True)) vals (kl, ok) = (kl', ok') \<Longrightarrow>
   appended kl kl' (map (\<lambda>k. k @ sfx) (string_keys uni lc vals)) \<and> (ok' \<longleftrightarrow> ok \<or> string_keys uni lc vals \<noteq> [])"
proof (induction vals arbitrary: kl ok)
  case Nil
  then show ?case by (simp add: appended_refl string_keys_def)
next
  case (Cons v vals)
  show ?case
  proof (cases "v = []")
    case True
    then show ?thesis using Cons by (simp add: string_keys_def)
  next
    case False
    let ?kl = "kl_end (kl_append (lower_if uni lc v @ [0] @ sfx) kl)"
    have a: "appended kl ?kl [lower_if uni lc v @ [0] @ sfx]" by (rule appended_end [OF Cons.prems(1)])
    then have g: "kl_good ?kl" by (simp add: appended_def)
    have "fold (\<lambda>val (kl, ok). if val = [] then (kl, ok)
        else (kl_end (kl\<lparr>buf := (appendString uni (buf kl) val lc @ [0]) @ sfx\<rparr>), True)) vals (?kl, True) = (kl', ok')"
      using Cons.prems(2) False by (simp add: buf_append)
    from Cons.IH [OF g this] show ?thesis using appended_trans [OF a] False by (auto simp: string_keys_def)
  qed
qed

lemma append_pairs_fold:
  "kl_good kl \<Longrightarrow> fold (\<lambda>(k, v) (kl, ok). if k = [] then (kl, ok)
     else (kl_end (kl\<lparr>buf := (appendString uni (appendString uni (buf kl) k lc @ [0]) v lc @ [0]) @ sfx\<rparr>), True)) kvs (kl, ok) = (kl', ok') \<Longrightarrow>
   appended kl kl' (map (\<lambda>k. k @ sfx) (map_keys uni lc kvs)) \<and> (ok' \<longleftrightarrow> ok \<or> map_keys uni lc kvs \<noteq> [])"
proof (induction kvs arbitrary: kl ok)
  case Nil
  then show ?case by (simp add: appended_refl map_keys_def)
next
  case (Cons kv kvs)
  obtain k v where kv: "kv = (k, v)" by fastforce
  show ?case
  proof (cases "k = []")
    case True
    then show ?thesis using Cons kv by (simp add: map_keys_def)
  next
    case False
    let ?kl = "kl_end (kl_append (lower_if uni lc k @ [0] @ lower_if uni lc v @ [0] @ sfx) kl)"
    have a: "appended kl ?kl [lower_if uni lc k @ [0] @ lower_if uni lc v @ [0] @ sfx]"
      by (rule appended_end [OF Cons.prems(1)])
    then have g: "kl_good ?kl" by (simp add: appended_def)
    have "fold (\<lambda>(k, v) (kl, ok). if k = [] then (kl, ok)
        else (kl_end (kl\<lparr>buf := (appendString uni (appendString uni (buf kl) k lc @ [0]) v lc @ [0]) @ sfx\<rparr>), True)) kvs (?kl, True) = (kl', ok')"
      using Cons.prems(2) False kv by (simp add: buf_append)
    from Cons.IH [OF g this] show ?thesis using appended_trans [OF a] False kv by (auto simp: map_keys_def)
  qed
qed

text \<open>
  What \<open>(kl', ok, handled)\<close> says of the original list of values, with the suffix appended to each.
\<close>

definition agrees_multi :: "bytes \<Rightarrow> keyList \<Rightarrow> bytes list option res \<Rightarrow> keyList \<times> bool \<times> bool \<Rightarrow> bool" where
  "agrees_multi sfx kl r t \<longleftrightarrow> (case t of (kl', ok, handled) \<Rightarrow>
     (handled \<longrightarrow> (if ok then \<exists>vals. r = Ok (Some vals) \<and> appended kl kl' (map (\<lambda>k. k @ sfx) vals)
        else r = Ok None \<and> appended kl kl' [])) \<and>
     (\<not> handled \<longrightarrow> \<not> ok \<and> kl' = kl))"

lemma agrees_multi_unhandled [simp]: "agrees_multi sfx kl r (kl, False, False)"
  by (simp add: agrees_multi_def)

lemma agrees_strings:
  "kl_good kl \<Longrightarrow> agrees_multi sfx kl (Ok (found (string_keys uni lc vals)))
     (case append_strings uni lc sfx vals kl of (kl', ok) \<Rightarrow> (kl', ok, True))"
  using append_strings_fold [of kl uni lc sfx vals False]
  by (cases "append_strings uni lc sfx vals kl") (auto simp: append_strings_def agrees_multi_def found_def)

lemma agrees_pairs:
  "kl_good kl \<Longrightarrow> agrees_multi sfx kl (Ok (found (map_keys uni lc kvs)))
     (case append_pairs uni lc sfx kvs kl of (kl', ok) \<Rightarrow> (kl', ok, True))"
  using append_pairs_fold [of kl uni lc sfx kvs False]
  by (cases "append_pairs uni lc sfx kvs kl") (auto simp: append_pairs_def agrees_multi_def found_def)

lemma append_multi_agrees:
  assumes "kl_good kl"
  shows "agrees_multi sfx kl (up_multi uni obj ix) (append_multi uni obj sfx ix kl)"
proof (cases ix)
  case (IStringSlice name lc)
  show ?thesis
  proof (cases "usable_field obj name")
    case (Some f)
    then show ?thesis using IStringSlice agrees_strings [OF assms]
      by (cases "fd_val f") (simp_all add: append_multi_def stringSlice_fromObjectSlow_def usable_with_field)
  qed (simp add: IStringSlice append_multi_def)
next
  case (IStringMap name lc)
  show ?thesis
  proof (cases "usable_field obj name")
    case (Some f)
    then show ?thesis using IStringMap agrees_pairs [OF assms]
      by (cases "fd_val f") (simp_all add: append_multi_def stringMap_fromObjectSlow_def usable_with_field)
  qed (simp add: IStringMap append_multi_def)
next
  case (ITStrings t g lc)
  show ?thesis
  proof (cases "typedOf t g obj")
    case (Some vals)
    then show ?thesis using ITStrings agrees_strings [OF assms, of sfx uni lc vals]
      by (simp add: append_multi_def tstrings_FromObject_def typedOf_get string_keys_def)
  qed (simp add: ITStrings append_multi_def)
qed (simp_all add: append_multi_def)

section \<open>The product of a compound multi-index\<close>

text \<open>The original result of one sub-indexer as the values of its level.\<close>

definition sub_result :: "(bytes \<Rightarrow> bytes) \<Rightarrow> obj \<Rightarrow> indexer \<Rightarrow> sub_result" where
  "sub_result uni obj ix = (if is_single ix then SubSingle (up_single uni obj ix)
     else if is_multi ix then SubMulti (up_multi uni obj ix) else SubNeither)"

lemma collect_sub_handled:
  assumes good: "kl_good tmp" and c: "collect_sub uni obj ix tmp = (tmp', ok, True)"
  shows "if ok then \<exists>vals. (sub_result uni obj ix = SubMulti (Ok (Some vals)) \<or>
           (\<exists>v. vals = [v] \<and> sub_result uni obj ix = SubSingle (Ok (Some v)))) \<and> appended tmp tmp' vals \<and> vals \<noteq> []
    else (sub_result uni obj ix = SubMulti (Ok None) \<or> sub_result uni obj ix = SubSingle (Ok None)) \<and> appended tmp tmp' []"
proof (cases "scalar ix")
  case True
  then have s: "sub_result uni obj ix = SubSingle (up_single uni obj ix)"
    using scalar_single by (simp add: sub_result_def)
  obtain out ok' handled where a: "appendScalar uni obj ix (buf tmp) = (out, ok', handled)"
    by (cases "appendScalar uni obj ix (buf tmp)") auto
  then have h: "handled" "ok' = ok" using c True by (auto simp: collect_sub_def split: if_splits)
  have ag: "agrees (buf tmp) (up_single uni obj ix) (out, ok, True)"
    using appendScalar_agrees [of "buf tmp" uni obj ix] a h by simp
  show ?thesis
  proof (cases ok)
    case o: True
    then obtain k where k: "up_single uni obj ix = Ok (Some k)" "out = buf tmp @ k" using ag by (auto simp: agrees_def)
    then have "tmp' = kl_end (kl_append k tmp)"
      using c a h o True by (simp add: collect_sub_def buf_append)
    then show ?thesis using o k(1) s appended_end [OF good] by auto
  next
    case False
    then have "up_single uni obj ix = Ok None" "tmp' = tmp"
      using ag c a h True by (auto simp: agrees_def collect_sub_def)
    then show ?thesis using False s appended_refl [OF good] by simp
  qed
next
  case False
  then have am: "append_multi uni obj [] ix tmp = (tmp', ok, True)" using c by (simp add: collect_sub_def)
  then have "is_multi ix \<and> \<not> is_single ix" and ne: "\<And>vals. up_multi uni obj ix = Ok (Some vals) \<Longrightarrow> vals \<noteq> []"
    by (cases ix; auto simp: append_multi_def is_multi_def is_single_def stringSlice_fromObjectSlow_def stringMap_fromObjectSlow_def
        tstrings_FromObject_def found_def with_field_def bind_res_def split: if_splits option.splits fval.splits outcome.splits res.splits)+
  then have s: "sub_result uni obj ix = SubMulti (up_multi uni obj ix)" by (simp add: sub_result_def)
  show ?thesis
    using append_multi_agrees [OF good, of "[]" uni obj ix] s unfolding am
    by (auto simp: agrees_multi_def split: if_splits) (use ne in blast)+
qed

definition bounds_of :: "'a list list \<Rightarrow> nat list" where
  "bounds_of levels = map (\<lambda>d. length (concat (take d levels))) [0..<Suc (length levels)]"

lemma bounds_of_Nil [simp]: "bounds_of [] = [0]"
  by (simp add: bounds_of_def)

lemma bounds_of_snoc: "bounds_of (levels @ [l]) = bounds_of levels @ [length (concat (levels @ [l]))]"
  by (simp add: bounds_of_def)

lemma nth_bounds: "d \<le> length levels \<Longrightarrow> bounds_of levels ! d = length (concat (take d levels))"
  by (simp add: bounds_of_def del: upt_Suc)

lemma length_bounds [simp]: "length (bounds_of levels) = Suc (length levels)"
  by (simp add: bounds_of_def)

lemma collect_levels_correct:
  "kl_good tmp \<Longrightarrow> kl_split tmp = concat levels \<Longrightarrow>
   collect_levels am (map (collect_sub uni obj) ixs) tmp (bounds_of levels) = Some r \<Longrightarrow> [] \<notin> set levels \<Longrightarrow>
   (case r of
      None \<Rightarrow> multi_levels am i (map (sub_result uni obj) ixs) levels = Ok None
    | Some (tmp', bounds) \<Rightarrow> \<exists>levels'. multi_levels am i (map (sub_result uni obj) ixs) levels = Ok (Some levels') \<and>
        kl_good tmp' \<and> kl_split tmp' = concat levels' \<and> bounds = bounds_of levels' \<and> [] \<notin> set levels' \<and>
        length levels' \<le> length levels + length ixs)"
proof (induction ixs arbitrary: tmp levels i)
  case Nil
  then show ?case by auto
next
  case (Cons ix ixs)
  obtain tmp' ok handled where c: "collect_sub uni obj ix tmp = (tmp', ok, handled)"
    by (cases "collect_sub uni obj ix tmp") auto
  then have h: "handled" using Cons.prems(3) by (cases handled) simp_all
  have c': "collect_sub uni obj ix tmp = (tmp', ok, True)" using c h by simp
  note s = collect_sub_handled [OF Cons.prems(1) c']
  show ?case
  proof (cases ok)
    case True
    then obtain vals where v: "sub_result uni obj ix = SubMulti (Ok (Some vals)) \<or>
        (\<exists>v. vals = [v] \<and> sub_result uni obj ix = SubSingle (Ok (Some v)))" "appended tmp tmp' vals" "vals \<noteq> []"
      using s by auto
    have ne: "[] \<notin> set (levels @ [vals])" using v(3) Cons.prems(4) by simp
    have g: "kl_good tmp'" "kl_split tmp' = concat (levels @ [vals])"
      using v(2) Cons.prems(2) by (simp_all add: appended_def)
    have "kl_len tmp' = length (concat (levels @ [vals]))" using g(2) by (metis length_kl_split)
    then have "collect_levels am (map (collect_sub uni obj) ixs) tmp' (bounds_of (levels @ [vals])) = Some r"
      using Cons.prems(3) c' True by (simp add: bounds_of_snoc)
    note ih = Cons.IH [OF g this ne, of "i + 1"]
    have m: "multi_levels am i (map (sub_result uni obj) (ix # ixs)) levels =
        multi_levels am (i + 1) (map (sub_result uni obj) ixs) (levels @ [vals])"
      using v(1) by auto
    show ?thesis using ih unfolding m by (auto split: option.splits)
  next
    case False
    then have sr: "sub_result uni obj ix = SubMulti (Ok None) \<or> sub_result uni obj ix = SubSingle (Ok None)"
      and a: "appended tmp tmp' []" using s by auto
    show ?thesis
    proof (cases am)
      case True
      then have "r = Some (tmp', bounds_of levels)" using Cons.prems(3) c' False by simp
      moreover have "multi_levels am i (map (sub_result uni obj) (ix # ixs)) levels = Ok (Some levels)"
        using sr True by auto
      ultimately show ?thesis using a Cons.prems(2,4) by (auto simp: appended_def)
    next
      case nam: False
      then have "r = None" using Cons.prems(3) c' False by simp
      moreover have "multi_levels am i (map (sub_result uni obj) (ix # ixs)) levels = Ok None"
        using sr nam by auto
      ultimately show ?thesis by simp
    qed
  qed
qed

subsection \<open>The loop visits the keys of walkVals\<close>

definition add_keys :: "bytes \<Rightarrow> bytes list \<Rightarrow> keyList \<Rightarrow> keyList" where
  "add_keys sfx ks kl = fold (\<lambda>k. kl_add k sfx) ks kl"

lemma add_keys_simps [simp]: "add_keys sfx [] kl = kl" "add_keys sfx (k # ks) kl = add_keys sfx ks (kl_add k sfx kl)"
  "add_keys sfx (ks @ js) kl = add_keys sfx js (add_keys sfx ks kl)"
  by (simp_all add: add_keys_def)

lemma kl_add_end: "kl_end (kl_append (k @ sfx) kl) = kl_add k sfx kl"
  by (simp add: kl_add_def kl_append_def)

lemma add_keys_appended: "kl_good kl \<Longrightarrow> appended kl (add_keys sfx ks kl) (map (\<lambda>k. k @ sfx) ks)"
proof (induction ks arbitrary: kl)
  case Nil
  then show ?case by (simp add: appended_refl)
next
  case (Cons k ks)
  have a: "appended kl (kl_add k sfx kl) [k @ sfx]"
    using appended_end [OF Cons.prems] by (simp add: kl_add_end [symmetric])
  then have "appended (kl_add k sfx kl) (add_keys sfx ks (kl_add k sfx kl)) (map (\<lambda>k. k @ sfx) ks)"
    by (intro Cons.IH) (simp add: appended_def)
  from appended_trans [OF a this] show ?case by simp
qed

text \<open>The state of the loop between two levels, for fixed levels.\<close>

lemma level_bounds:
  assumes "d < length lv"
  shows "bounds_of lv ! (d + 1) - bounds_of lv ! d = length (lv ! d)"
proof -
  have "take (Suc d) lv = take d lv @ [lv ! d]" using assms by (simp add: take_Suc_conv_app_nth)
  then show ?thesis using assms by (simp add: nth_bounds)
qed

lemma level_key:
  assumes "kl_split tmp = concat lv" and "d < length lv" and "p < length (lv ! d)"
  shows "kl_key tmp (bounds_of lv ! d + p) = lv ! d ! p"
proof -
  have c: "concat lv = concat (take d lv) @ lv ! d @ concat (drop (Suc d) lv)"
    using assms(2) by (metis concat.simps(2) concat_append id_take_nth_drop)
  have b: "bounds_of lv ! d = length (concat (take d lv))" using assms(2) by (simp add: nth_bounds)
  have "length (concat (take d lv)) + p < kl_len tmp"
    using assms(3) unfolding length_kl_split [symmetric] assms(1) c by simp
  then show ?thesis unfolding b using assms(3)
    by (simp only: kl_key_split assms(1) c) (simp add: nth_append)
qed

lemma walk_leaf: "walkVals am pfx [vs] = map (\<lambda>v. pfx @ v) vs"
  by simp

lemma walk_Nil: "walkVals am pfx ([] # rest) = []"
  by (cases rest) simp_all

lemma walk_Cons: "walkVals am pfx ((v # vs) # lvl # rest) =
    (if am then [pfx @ v] else []) @ walkVals am (pfx @ v) (lvl # rest) @ walkVals am pfx (vs # lvl # rest)"
  by simp

text \<open>The three turns the loop can take at depth \<open>d\<close>.\<close>

lemma product_done:
  assumes "d < length lv" and "pos ! d = length (lv ! d)"
  shows "product_loop am tmp (bounds_of lv) (length lv) sfx (int d) pos plen pfx kl =
    product_loop am tmp (bounds_of lv) (length lv) sfx (int d - 1) (pos[d := 0]) plen
      (if 0 < d then take (plen ! (d - 1)) pfx else pfx) kl"
proof -
  have "\<not> (int d < 0 \<or> length lv = 0)" using assms(1) by auto
  moreover have "pos ! nat (int d) = bounds_of lv ! (nat (int d) + 1) - bounds_of lv ! nat (int d)"
    using assms level_bounds [OF assms(1)] by simp
  moreover have "(if int d - 1 \<ge> 0 then take (plen ! nat (int d - 1)) pfx else pfx) =
      (if 0 < d then take (plen ! (d - 1)) pfx else pfx)"
    by (simp add: nat_diff_distrib')
  ultimately show ?thesis
    by (subst product_loop.simps) (simp only: if_not_P if_P if_False if_True Let_def nat_int)
qed

lemma product_leaf:
  assumes "kl_split tmp = concat lv" and "d < length lv" and "pos ! d < length (lv ! d)" and "d = length lv - 1"
  shows "product_loop am tmp (bounds_of lv) (length lv) sfx (int d) pos plen pfx kl =
    product_loop am tmp (bounds_of lv) (length lv) sfx (int d) (pos[d := pos ! d + 1]) plen pfx
      (kl_add (pfx @ (lv ! d ! (pos ! d))) sfx kl)"
proof -
  have "\<not> (int d < 0 \<or> length lv = 0)" using assms(2) by auto
  moreover have "\<not> pos ! nat (int d) = bounds_of lv ! (nat (int d) + 1) - bounds_of lv ! nat (int d)"
    using assms(3) level_bounds [OF assms(2)] by simp
  moreover have "(nat (int d) = length lv - 1) = True" using assms(4) by simp
  ultimately show ?thesis
    by (subst product_loop.simps) (simp only: if_not_P if_False if_True Let_def nat_int kl_add_end level_key [OF assms(1-3)])
qed

lemma product_inner:
  assumes "kl_split tmp = concat lv" and "d < length lv" and "pos ! d < length (lv ! d)" and "d \<noteq> length lv - 1"
  shows "product_loop am tmp (bounds_of lv) (length lv) sfx (int d) pos plen pfx kl =
    product_loop am tmp (bounds_of lv) (length lv) sfx (int (Suc d)) (pos[d := pos ! d + 1]) (plen[d := length pfx])
      (pfx @ (lv ! d ! (pos ! d))) (if am then kl_add (pfx @ (lv ! d ! (pos ! d))) sfx kl else kl)"
proof -
  have "\<not> (int d < 0 \<or> length lv = 0)" using assms(2) by auto
  moreover have "\<not> pos ! nat (int d) = bounds_of lv ! (nat (int d) + 1) - bounds_of lv ! nat (int d)"
    using assms(3) level_bounds [OF assms(2)] by simp
  moreover have "\<not> nat (int d) = length lv - 1" using assms(4) by simp
  moreover have "int d + 1 = int (Suc d)" by simp
  ultimately show ?thesis
    by (subst product_loop.simps) (simp only: if_not_P if_False if_True Let_def nat_int kl_add_end level_key [OF assms(1-3)])
qed

lemma product_from:
  assumes split: "kl_split tmp = concat lv"
  shows "d < length lv \<Longrightarrow> length lv \<le> length pos \<Longrightarrow> length lv \<le> length plen \<Longrightarrow> pos ! d \<le> length (lv ! d) \<Longrightarrow>
    (\<forall>e<length lv. d < e \<longrightarrow> pos ! e = 0) \<Longrightarrow>
    \<exists>plen'. length plen' = length plen \<and> (\<forall>e<d. plen' ! e = plen ! e) \<and>
      product_loop am tmp (bounds_of lv) (length lv) sfx (int d) pos plen pfx kl =
      product_loop am tmp (bounds_of lv) (length lv) sfx (int d - 1) (pos[d := 0]) plen'
        (if 0 < d then take (plen ! (d - 1)) pfx else pfx)
        (add_keys sfx (walkVals am pfx (drop (pos ! d) (lv ! d) # drop (Suc d) lv)) kl)"
proof (induction "length lv - d" arbitrary: d pos plen pfx kl rule: less_induct)
  case outer: less
  note d = outer.prems(1)
  show ?case
    using outer.prems(2-5)
  proof (induction "length (lv ! d) - pos ! d" arbitrary: pos plen kl rule: less_induct)
    case less
    have n0: "length lv \<noteq> 0" using d by auto
    show ?case
    proof (cases "pos ! d = length (lv ! d)")
      case True
      have w: "add_keys sfx (walkVals am pfx (drop (pos ! d) (lv ! d) # drop (Suc d) lv)) kl = kl"
        using True by (simp add: walk_Nil)
      show ?thesis
        unfolding w by (intro exI [of _ plen] conjI refl allI impI product_done [OF d True])
    next
      case False
      then have p: "pos ! d < length (lv ! d)" using less.prems(3) by simp
      define v where "v = lv ! d ! (pos ! d)"
      have dr: "drop (pos ! d) (lv ! d) = v # drop (Suc (pos ! d)) (lv ! d)"
        unfolding v_def by (rule Cons_nth_drop_Suc [OF p, symmetric])
      let ?pos = "pos[d := pos ! d + 1]"
      have pl: "d < length pos" using d less.prems(1) by simp
      have posd: "?pos ! d = Suc (pos ! d)" using pl by simp
      show ?thesis
      proof (cases "d = length lv - 1")
        case leaf: True
        have rest: "drop (Suc d) lv = []" using leaf by simp
        have st: "product_loop am tmp (bounds_of lv) (length lv) sfx (int d) pos plen pfx kl =
            product_loop am tmp (bounds_of lv) (length lv) sfx (int d) ?pos plen pfx (kl_add (pfx @ v) sfx kl)"
          unfolding v_def by (rule product_leaf [OF split d p leaf])
        have "length (lv ! d) - ?pos ! d < length (lv ! d) - pos ! d" using posd p by simp
        from less.hyps [OF this, of plen "kl_add (pfx @ v) sfx kl"] less.prems p
        obtain plen' where h: "length plen' = length plen" "\<forall>e<d. plen' ! e = plen ! e"
          "product_loop am tmp (bounds_of lv) (length lv) sfx (int d) ?pos plen pfx (kl_add (pfx @ v) sfx kl) =
           product_loop am tmp (bounds_of lv) (length lv) sfx (int d - 1) (?pos[d := 0]) plen'
             (if 0 < d then take (plen ! (d - 1)) pfx else pfx)
             (add_keys sfx (walkVals am pfx (drop (?pos ! d) (lv ! d) # drop (Suc d) lv)) (kl_add (pfx @ v) sfx kl))"
          using posd by auto
        have "add_keys sfx (walkVals am pfx (drop (?pos ! d) (lv ! d) # drop (Suc d) lv)) (kl_add (pfx @ v) sfx kl) =
            add_keys sfx (walkVals am pfx (drop (pos ! d) (lv ! d) # drop (Suc d) lv)) kl"
          unfolding dr posd rest by simp
        then show ?thesis using h st by (intro exI [of _ plen']) simp
      next
        case inner: False
        then have sd: "Suc d < length lv" using d by simp
        define kl1 where "kl1 = (if am then kl_add (pfx @ v) sfx kl else kl)"
        let ?plen = "plen[d := length pfx]"
        have st: "product_loop am tmp (bounds_of lv) (length lv) sfx (int d) pos plen pfx kl =
            product_loop am tmp (bounds_of lv) (length lv) sfx (int (Suc d)) ?pos ?plen (pfx @ v) kl1"
          unfolding v_def kl1_def by (rule product_inner [OF split d p inner])
        have z: "?pos ! Suc d = 0" using less.prems(4) sd by simp
        have "length lv - Suc d < length lv - d" using d by simp
        from outer.hyps [OF this sd, of ?pos ?plen "pfx @ v" kl1]
        obtain plen1 where h1: "length plen1 = length plen" "\<forall>e<Suc d. plen1 ! e = ?plen ! e"
          "product_loop am tmp (bounds_of lv) (length lv) sfx (int (Suc d)) ?pos ?plen (pfx @ v) kl1 =
           product_loop am tmp (bounds_of lv) (length lv) sfx (int (Suc d) - 1) (?pos[Suc d := 0]) plen1
             (take (?plen ! d) (pfx @ v))
             (add_keys sfx (walkVals am (pfx @ v) (drop (?pos ! Suc d) (lv ! Suc d) # drop (Suc (Suc d)) lv)) kl1)"
          using less.prems z by auto
        have same: "?pos[Suc d := 0] = ?pos" using z by (metis list_update_id)
        have tk: "take (?plen ! d) (pfx @ v) = pfx" using d less.prems(2) by simp
        have ds: "drop (?pos ! Suc d) (lv ! Suc d) # drop (Suc (Suc d)) lv = drop (Suc d) lv"
          unfolding z using sd by (simp add: Cons_nth_drop_Suc)
        define kl2 where "kl2 = add_keys sfx (walkVals am (pfx @ v) (drop (Suc d) lv)) kl1"
        have st2: "product_loop am tmp (bounds_of lv) (length lv) sfx (int d) pos plen pfx kl =
            product_loop am tmp (bounds_of lv) (length lv) sfx (int d) ?pos plen1 pfx kl2"
          unfolding st h1(3) same tk ds kl2_def by simp
        have "length (lv ! d) - ?pos ! d < length (lv ! d) - pos ! d" using posd p by simp
        from less.hyps [OF this, of plen1 kl2]
        obtain plen' where h: "length plen' = length plen1" "\<forall>e<d. plen' ! e = plen1 ! e"
          "product_loop am tmp (bounds_of lv) (length lv) sfx (int d) ?pos plen1 pfx kl2 =
           product_loop am tmp (bounds_of lv) (length lv) sfx (int d - 1) (?pos[d := 0]) plen'
             (if 0 < d then take (plen1 ! (d - 1)) pfx else pfx)
             (add_keys sfx (walkVals am pfx (drop (?pos ! d) (lv ! d) # drop (Suc d) lv)) kl2)"
          using posd p less.prems h1(1) by auto
        obtain lvl rest where lr: "drop (Suc d) lv = lvl # rest" using sd by (metis Cons_nth_drop_Suc)
        have keys: "add_keys sfx (walkVals am pfx (drop (?pos ! d) (lv ! d) # drop (Suc d) lv)) kl2 =
            add_keys sfx (walkVals am pfx (drop (pos ! d) (lv ! d) # drop (Suc d) lv)) kl"
          unfolding dr posd kl2_def lr walk_Cons by (simp add: kl1_def)
        have pe: "plen1 ! e = plen ! e" if "e < d" for e using h1(2) that by simp
        have "(if 0 < d then take (plen1 ! (d - 1)) pfx else pfx) = (if 0 < d then take (plen ! (d - 1)) pfx else pfx)"
          using pe by simp
        then show ?thesis using h h1(1) pe unfolding st2 keys by (intro exI [of _ plen']) simp
      qed
    qed
  qed
qed

lemma product_loop_correct:
  assumes "kl_split tmp = concat lv" and "length lv \<le> maxCompoundDepth"
  shows "product_loop am tmp (bounds_of lv) (length lv) sfx 0 (replicate maxCompoundDepth 0)
    (replicate maxCompoundDepth 0) [] kl = Some (add_keys sfx (walkVals am [] lv) kl)"
proof (cases lv)
  case Nil
  then show ?thesis by (subst product_loop.simps) simp
next
  case (Cons l ls)
  have n: "0 < length lv" using Cons by simp
  have z: "replicate maxCompoundDepth (0 :: nat) ! e = 0" if "e < length lv" for e using that assms(2) by simp
  obtain plen' where p: "product_loop am tmp (bounds_of lv) (length lv) sfx (int 0) (replicate maxCompoundDepth 0)
      (replicate maxCompoundDepth 0) [] kl =
    product_loop am tmp (bounds_of lv) (length lv) sfx (int 0 - 1) ((replicate maxCompoundDepth 0)[0 := 0]) plen' []
      (add_keys sfx (walkVals am [] (drop (replicate maxCompoundDepth (0 :: nat) ! 0) (lv ! 0) # drop (Suc 0) lv)) kl)"
    using product_from [OF assms(1) n, of "replicate maxCompoundDepth 0" "replicate maxCompoundDepth 0" am sfx "[]" kl] assms(2) z n
    by auto
  have "drop (replicate maxCompoundDepth (0 :: nat) ! 0) (lv ! 0) # drop (Suc 0) lv = lv"
    using Cons z [OF n] by simp
  with p show ?thesis by (simp add: product_loop.simps [of am tmp "bounds_of lv" "length lv" sfx "- 1"])
qed

section \<open>appendKeys\<close>

text \<open>When no level is empty the computation of the sizes does not panic.\<close>

lemma prod_levels: "k \<le> length lv \<Longrightarrow> map (level_count (bounds_of lv)) [0..<k] = map length (take k lv)"
  by (rule nth_equalityI) (use level_bounds [of _ lv] in \<open>simp_all add: level_count_def\<close>)

lemma add_sizes_runs:
  assumes "kl_split tmp = concat lv" and "[] \<notin> set lv" and "\<forall>d\<in>set ds. d < length lv"
  shows "\<exists>n. add_sizes tmp (bounds_of lv) count ds sz = Ret n"
  using assms(3)
proof (induction ds arbitrary: sz)
  case (Cons d ds)
  have d: "d < length lv" using Cons.prems by simp
  then have c: "level_count (bounds_of lv) d = length (lv ! d)" "lv ! d \<noteq> []"
    using level_bounds [of d lv] assms(2) nth_mem [of d lv] by (auto simp: level_count_def simp del: nth_mem)
  have n: "bounds_of lv ! (d + 1) = length (concat (take (d + 1) lv))" using d by (simp add: nth_bounds)
  have "concat lv = concat (take (d + 1) lv) @ concat (drop (d + 1) lv)" by (simp flip: concat_append)
  then have "bounds_of lv ! (d + 1) \<le> length (ends tmp)"
    using assms(1) length_kl_split [of tmp] unfolding n by (simp add: kl_len_def)
  moreover have "bounds_of lv ! (d + 1) \<noteq> 0"
  proof
    assume "bounds_of lv ! (d + 1) = 0"
    then have "length (lv ! d) = 0" using c(1) by (simp add: level_count_def)
    then show False using c(2) by simp
  qed
  ultimately show ?case using c Cons by simp
qed simp

lemma product_sizes_runs:
  assumes "kl_split tmp = concat lv" and "[] \<notin> set lv" and "\<forall>k\<in>set ks. k < int (length lv)"
  shows "\<exists>r. product_sizes tmp (bounds_of lv) n ks sz keys = Ret r"
  using assms(3)
proof (induction ks arbitrary: sz keys)
  case (Cons k ks)
  let ?ds = "[0..<nat (k + 1)]"
  let ?count = "prod_list (map (level_count (bounds_of lv)) ?ds)"
  have "\<forall>d\<in>set ?ds. d < length lv" using Cons.prems by auto
  then obtain m where m: "add_sizes tmp (bounds_of lv) ?count ?ds sz = Ret m" using add_sizes_runs [OF assms(1,2)] by blast
  obtain r where "product_sizes tmp (bounds_of lv) n ks (m + ?count * n) (keys + ?count) = Ret r"
    using Cons.IH [of "m + ?count * n" "keys + ?count"] Cons.prems by auto
  then show ?case by (simp only: product_sizes.simps Let_def m outcome.case) blast
qed simp

lemma output_sizes_runs:
  assumes "kl_split tmp = concat lv" and "[] \<notin> set lv"
  shows "\<exists>r. output_sizes am tmp (bounds_of lv) n = Ret r"
  unfolding output_sizes_def Let_def by (rule product_sizes_runs [OF assms]) auto

text \<open>The original keys of an object, for single- and multi-valued indexers alike.\<close>

definition up_keys :: "(bytes \<Rightarrow> bytes) \<Rightarrow> obj \<Rightarrow> indexer \<Rightarrow> bytes list option res" where
  "up_keys uni obj ix = (if is_single ix then bind_res (up_single uni obj ix) (\<lambda>r. Ok (map_option (\<lambda>v. [v]) r))
     else up_multi uni obj ix)"

definition agrees_keys :: "bytes \<Rightarrow> keyList \<Rightarrow> bytes list option res \<Rightarrow> (keyList \<times> bool \<times> bool \<times> err option) option \<Rightarrow> bool" where
  "agrees_keys sfx kl r t \<longleftrightarrow> (case t of None \<Rightarrow> False | Some (kl', ok, handled, err) \<Rightarrow>
     if \<not> handled then \<not> ok \<and> err = None \<and> kl' = kl
     else case err of
       Some e \<Rightarrow> \<not> ok \<and> r = Err e
     | None \<Rightarrow> if ok then \<exists>vals. r = Ok (Some vals) \<and> appended kl kl' (map (\<lambda>k. k @ sfx) vals)
         else r = Ok None \<and> appended kl kl' [])"

lemma agrees_keys_unhandled [simp]: "agrees_keys sfx kl r (Some (kl, False, False, None))"
  by (simp add: agrees_keys_def)

lemma agrees_keys_multi:
  "agrees_multi sfx kl r (kl', ok, handled) \<Longrightarrow> agrees_keys sfx kl r (Some (kl', ok, handled, None))"
  by (cases handled) (auto simp: agrees_keys_def agrees_multi_def)

lemma map_sub_result:
  "map (\<lambda>ix. if is_single ix then SubSingle (up_single uni obj ix)
      else if is_multi ix then SubMulti (up_multi uni obj ix) else SubNeither) ixs = map (sub_result uni obj) ixs"
  by (simp add: sub_result_def)

lemma appendKeys_product:
  assumes "kl_good kl"
  shows "agrees_keys sfx kl (up_keys uni obj (ICompoundMulti ixs am)) (appendKeys uni obj sfx has_tmp (ICompoundMulti ixs am) kl)"
proof -
  have up: "up_keys uni obj (ICompoundMulti ixs am) = multi_result am (multi_levels am 0 (map (sub_result uni obj) ixs) [])"
    unfolding up_keys_def up_multi.simps map_sub_result by (simp add: is_single_def)
  show ?thesis
  proof (cases "\<not> has_tmp \<or> length ixs > maxCompoundDepth")
    case True
    then show ?thesis by (simp add: appendKeys_def)
  next
    case False
    have good: "kl_good kl_empty" by (simp add: kl_good_def)
    show ?thesis
    proof (cases "collect_levels am (map (collect_sub uni obj) ixs) kl_empty [0]")
      case None
      then show ?thesis using False by (simp add: appendKeys_def)
    next
      case (Some r)
      have c: "case r of None \<Rightarrow> multi_levels am 0 (map (sub_result uni obj) ixs) [] = Ok None
        | Some (tmp', bounds) \<Rightarrow> \<exists>levels'. multi_levels am 0 (map (sub_result uni obj) ixs) [] = Ok (Some levels') \<and>
            kl_good tmp' \<and> kl_split tmp' = concat levels' \<and> bounds = bounds_of levels' \<and> [] \<notin> set levels' \<and>
            length levels' \<le> length ([] :: bytes list list) + length ixs"
        using Some by (intro collect_levels_correct [OF good]) simp_all
      show ?thesis
      proof (cases r)
        case None
        then show ?thesis
          using Some c False appended_refl [OF assms] up by (simp add: appendKeys_def multi_result_def agrees_keys_def)
      next
        case r: (Some tb)
        obtain tmp bounds where tb: "tb = (tmp, bounds)" by fastforce
        then obtain lv where lv: "multi_levels am 0 (map (sub_result uni obj) ixs) [] = Ok (Some lv)"
            "kl_split tmp = concat lv" "bounds = bounds_of lv" "length lv \<le> length ixs" "[] \<notin> set lv"
          using c r by auto
        obtain sizes where sz: "output_sizes am tmp bounds (length sfx) = Ret sizes"
          using output_sizes_runs [OF lv(2,5)] unfolding lv(3) by blast
        have p: "product_loop am tmp bounds (length bounds - 1) sfx 0 (replicate maxCompoundDepth 0)
            (replicate maxCompoundDepth 0) [] kl = Some (add_keys sfx (walkVals am [] lv) kl)"
          using product_loop_correct [OF lv(2), of am sfx kl] lv(3,4) False by simp
        have "appendKeys uni obj sfx has_tmp (ICompoundMulti ixs am) kl = Some (add_keys sfx (walkVals am [] lv) kl, True, True, None)"
          using Some r tb p sz False by (simp add: appendKeys_def)
        then show ?thesis
          using up lv(1) add_keys_appended [OF assms] by (simp add: agrees_keys_def multi_result_def)
      qed
    qed
  qed
qed

lemma appendKeys_one:
  assumes good: "kl_good kl" and a: "agrees (buf kl) (up_single uni obj ix) (appendScalar uni obj ix (buf kl))"
    and up: "up_keys uni obj ix = bind_res (up_single uni obj ix) (\<lambda>r. Ok (map_option (\<lambda>v. [v]) r))"
    and k: "appendKeys uni obj sfx has_tmp ix kl = (case (appendScalar uni obj ix (buf kl), None) of ((out, ok, handled), err) \<Rightarrow>
       if \<not> handled \<or> \<not> ok \<or> err \<noteq> None then Some (kl\<lparr>buf := take (length (buf kl)) out\<rparr>, ok, handled, err)
       else Some (kl_end (kl\<lparr>buf := out @ sfx\<rparr>), True, True, None))"
  shows "agrees_keys sfx kl (up_keys uni obj ix) (appendKeys uni obj sfx has_tmp ix kl)"
proof -
  obtain out ok handled where s: "appendScalar uni obj ix (buf kl) = (out, ok, handled)"
    by (cases "appendScalar uni obj ix (buf kl)") auto
  show ?thesis
  proof (cases "handled \<and> ok")
    case False
    then have out: "out = buf kl" "\<not> ok" "handled \<longrightarrow> up_single uni obj ix = Ok None"
      using a by (auto simp: s agrees_def)
    have "appendKeys uni obj sfx has_tmp ix kl = Some (kl, False, handled, None)"
      unfolding k s using out False by simp
    then show ?thesis using out(3) appended_refl [OF good] by (simp add: up agrees_keys_def)
  next
    case True
    then obtain v where v: "up_single uni obj ix = Ok (Some v)" "out = buf kl @ v" using a s by (auto simp: agrees_def)
    then show ?thesis using True s appended_end [OF good, of "v @ sfx"] by (simp add: k up agrees_keys_def buf_append)
  qed
qed

lemma appendKeys_cond:
  assumes "kl_good kl"
  shows "agrees_keys sfx kl (up_keys uni obj (ICond c)) (appendKeys uni obj sfx has_tmp (ICond c) kl)"
proof (cases c)
  case None
  then show ?thesis by (simp add: appendKeys_def appendObjectErr_def)
next
  case (Some g)
  show ?thesis
  proof (cases "g obj")
    case None
    then show ?thesis using Some
      by (simp add: appendKeys_def appendObjectErr_def agrees_keys_def up_keys_def is_single_def cond_FromObject_def)
  next
    case r: (Some res)
    then show ?thesis using Some appended_end [OF assms, of "[0] @ sfx"] appended_end [OF assms, of "[1] @ sfx"]
      by (cases res) (simp_all add: buf_append appendKeys_def appendObjectErr_def agrees_keys_def up_keys_def is_single_def cond_FromObject_def)
  qed
qed

lemma appendKeys_agrees:
  assumes "kl_good kl"
  shows "agrees_keys sfx kl (up_keys uni obj ix) (appendKeys uni obj sfx has_tmp ix kl)"
proof -
  have one: ?thesis if "is_single ix" "appendKeys uni obj sfx has_tmp ix kl =
     (case (appendScalar uni obj ix (buf kl), None) of ((out, ok, handled), err) \<Rightarrow>
       if \<not> handled \<or> \<not> ok \<or> err \<noteq> None then Some (kl\<lparr>buf := take (length (buf kl)) out\<rparr>, ok, handled, err)
       else Some (kl_end (kl\<lparr>buf := out @ sfx\<rparr>), True, True, None))"
    using appendKeys_one [OF assms appendScalar_agrees _ that(2)] that(1) by (simp add: up_keys_def)
  have multi: ?thesis if "\<not> is_single ix"
    "appendKeys uni obj sfx has_tmp ix kl = (case append_multi uni obj sfx ix kl of (kl', ok, handled) \<Rightarrow> Some (kl', ok, handled, None))"
    using append_multi_agrees [OF assms, of sfx uni obj ix] that
    by (cases "append_multi uni obj sfx ix kl") (simp add: up_keys_def agrees_keys_multi)
  show ?thesis
  proof (cases ix)
    case (ICompoundMulti ixs am)
    then show ?thesis using appendKeys_product [OF assms] by simp
  next
    case (ICond c)
    then show ?thesis using appendKeys_cond [OF assms] by simp
  next
    case (IStringSlice name lc)
    then show ?thesis by (intro multi) (simp_all add: appendKeys_def is_single_def)
  next
    case (IStringMap name lc)
    then show ?thesis by (intro multi) (simp_all add: appendKeys_def is_single_def)
  next
    case (ITStrings t g lc)
    then show ?thesis by (intro multi) (simp_all add: appendKeys_def is_single_def)
  next
    case (ICustom a b c)
    then show ?thesis by (simp add: appendKeys_def)
  qed (rule one; simp add: appendKeys_def appendObjectErr_def is_single_def)+
qed

corollary appendKeys_returns:
  assumes "kl_good kl"
  obtains kl' ok handled e where "appendKeys uni obj sfx has_tmp ix kl = Some (kl', ok, handled, e)"
  using appendKeys_agrees [OF assms, of sfx uni obj ix has_tmp] that
  by (cases "appendKeys uni obj sfx has_tmp ix kl") (auto simp: agrees_keys_def)

end
