(* ===== verification/IndexFast.thy ===== *)
theory IndexFast
  imports Extract
begin

text \<open>
  Keys of query arguments (appendArgs of extract.go) and the exported methods of the built-in
  indexers (index_fast.go), which try the fast path and ask the original method otherwise. The
  theory shows that every exported method returns the original result on every input: the
  same keys, the same error, the same panic.
\<close>

section \<open>appendArgs\<close>

text \<open>Sub-indexers a compound index takes arguments for, and those with prefix arguments.\<close>

definition arg_kind :: "indexer \<Rightarrow> bool" where
  "arg_kind ix = (case ix of ICompound _ _ \<Rightarrow> False | ICompoundMulti _ _ \<Rightarrow> False | ICustom _ _ _ \<Rightarrow> False | _ \<Rightarrow> True)"

definition prefix_kind :: "indexer \<Rightarrow> bool" where
  "prefix_kind ix = (case ix of IString _ _ \<Rightarrow> True | IStringSlice _ _ \<Rightarrow> True | IUUID _ \<Rightarrow> True
    | ITString _ _ _ \<Rightarrow> True | ITStrings _ _ _ \<Rightarrow> True | _ \<Rightarrow> False)"

definition string_args :: "(bytes \<Rightarrow> bytes) \<Rightarrow> bool \<Rightarrow> bool \<Rightarrow> arg list \<Rightarrow> bytes \<Rightarrow> bytes option" where
  "string_args uni pre lc args dst = (case args of
     [a] \<Rightarrow> (case a of
         AString s \<Rightarrow> let dst' = appendString uni dst s lc in if pre then Some dst' else Some (dst' @ [0])
       | _ \<Rightarrow> None)
   | _ \<Rightarrow> None)"

definition bool_args :: "bool \<Rightarrow> arg list \<Rightarrow> bytes \<Rightarrow> bytes option" where
  "bool_args pre args dst = (if pre then None else case args of
     [a] \<Rightarrow> (case a of ABool v \<Rightarrow> if v then Some (dst @ [1]) else Some (dst @ [0]) | _ \<Rightarrow> None)
   | _ \<Rightarrow> None)"

fun map_args :: "(bytes \<Rightarrow> bytes) \<Rightarrow> bool \<Rightarrow> arg list \<Rightarrow> bytes \<Rightarrow> bytes option" where
  "map_args uni lc [] dst = Some dst"
| "map_args uni lc (a # as) dst = (case a of
     AString s \<Rightarrow> map_args uni lc as (appendString uni dst s lc @ [0])
   | _ \<Rightarrow> None)"

fun compound_append :: "bool \<Rightarrow> (bool \<times> bool \<times> (bool \<Rightarrow> arg list \<Rightarrow> bytes \<Rightarrow> bytes option)) list \<Rightarrow> arg list \<Rightarrow> bytes \<Rightarrow> bytes option" where
  "compound_append pre ((ak, pk, g) # subs) (a # as) dst =
    (if \<not> ak then None
     else let last = pre \<and> as = []
       in if last \<and> \<not> pk then None
          else case g last [a] dst of None \<Rightarrow> None | Some out \<Rightarrow> compound_append pre subs as out)"
| "compound_append pre _ _ dst = Some dst"

fun appendArgs :: "(bytes \<Rightarrow> bytes) \<Rightarrow> bool \<Rightarrow> indexer \<Rightarrow> arg list \<Rightarrow> bytes \<Rightarrow> bytes option" where
  "appendArgs uni pre (IString name lc) args dst = string_args uni pre lc args dst"
| "appendArgs uni pre (IStringSlice name lc) args dst = string_args uni pre lc args dst"
| "appendArgs uni pre (ITString t g lc) args dst = string_args uni pre lc args dst"
| "appendArgs uni pre (ITStrings t g lc) args dst = string_args uni pre lc args dst"
| "appendArgs uni pre (ITInt t g w) args dst = (if pre then None else case args of
     [a] \<Rightarrow> (case signedArg a of None \<Rightarrow> None
       | Some val \<Rightarrow> if signed_overflow w val then None else Some (appendInt dst val (width_bytes w)))
   | _ \<Rightarrow> None)"
| "appendArgs uni pre (ITUint t g w) args dst = (if pre then None else case args of
     [a] \<Rightarrow> (case unsignedArg a of None \<Rightarrow> None
       | Some val \<Rightarrow> if unsigned_overflow w val then None else Some (appendUint dst val (width_bytes w)))
   | _ \<Rightarrow> None)"
| "appendArgs uni pre (IStringMap name lc) args dst =
    (if pre \<or> length args = 0 \<or> length args > 2 then None else map_args uni lc args dst)"
| "appendArgs uni pre (IInt name) args dst = (if pre then None else case args of
     [a] \<Rightarrow> (case a of AInt False w v \<Rightarrow> Some (appendInt dst v (width_bytes w)) | _ \<Rightarrow> None)
   | _ \<Rightarrow> None)"
| "appendArgs uni pre (IUint name) args dst = (if pre then None else case args of
     [a] \<Rightarrow> (case a of AUint False w v \<Rightarrow> Some (appendUint dst v (width_bytes w)) | _ \<Rightarrow> None)
   | _ \<Rightarrow> None)"
| "appendArgs uni pre (IBool name) args dst = bool_args pre args dst"
| "appendArgs uni pre (IFieldSet name) args dst = bool_args pre args dst"
| "appendArgs uni pre (ICond c) args dst = bool_args pre args dst"
| "appendArgs uni pre (ITBool t g) args dst = bool_args pre args dst"
| "appendArgs uni pre (IUUID name) args dst = (case args of
     [a] \<Rightarrow> (case a of
         AString v \<Rightarrow> appendUUID dst v (\<not> pre)
       | ABytes v \<Rightarrow> if \<not> pre \<and> length v \<noteq> 16 then None else Some (dst @ v)
       | _ \<Rightarrow> None)
   | _ \<Rightarrow> None)"
| "appendArgs uni pre (ICompound ixs am) args dst =
    (if (if pre then length args > length ixs else length args \<noteq> length ixs) then None
     else compound_append pre (map (\<lambda>ix. (arg_kind ix, prefix_kind ix, \<lambda>l as d. appendArgs uni l ix as d)) ixs) args dst)"
| "appendArgs uni pre _ args dst = None"

text \<open>The one argument shape of typed keys: a string.\<close>

definition appendStringArg :: "(bytes \<Rightarrow> bytes) \<Rightarrow> indexer \<Rightarrow> bytes \<Rightarrow> bool \<Rightarrow> bytes \<Rightarrow> bytes option" where
  "appendStringArg uni ix arg pre dst = (case ix of
     IUUID _ \<Rightarrow> appendUUID dst arg (\<not> pre)
   | _ \<Rightarrow> (case (case ix of IString _ lc \<Rightarrow> Some lc | IStringSlice _ lc \<Rightarrow> Some lc
              | ITString _ _ lc \<Rightarrow> Some lc | ITStrings _ _ lc \<Rightarrow> Some lc | _ \<Rightarrow> None) of
       None \<Rightarrow> None
     | Some lowercase \<Rightarrow> let dst' = appendString uni dst arg lowercase in if pre then Some dst' else Some (dst' @ [0])))"

text \<open>The original answer to an argument list.\<close>

definition up_query :: "(bytes \<Rightarrow> bytes) \<Rightarrow> bool \<Rightarrow> indexer \<Rightarrow> arg list \<Rightarrow> bytes res" where
  "up_query uni pre ix args = (if pre then up_prefix uni ix args else up_args uni ix args)"

lemma string_args_up:
  assumes "string_args uni pre lc args dst = Some out"
  shows "\<exists>k. out = dst @ k \<and> (if pre then strip_terminator (string_fromArgsSlow uni lc args) = Ok k
      else string_fromArgsSlow uni lc args = Ok k) \<and>
    (if pre then bind_res (stringFromArgs uni args lc) (\<lambda>val. Ok (take (length val - 1) val)) = Ok k
      else stringFromArgs uni args lc = Ok k)"
  using assms
  by (auto simp: string_args_def string_fromArgsSlow_def stringFromArgs_def strip_terminator_def Let_def
      split: list.splits arg.splits if_splits)

lemma bool_args_up: "bool_args pre args dst = Some out \<Longrightarrow> \<not> pre \<and> (\<exists>k. out = dst @ k \<and> fromBoolArgs args = Ok k)"
  by (auto simp: bool_args_def fromBoolArgs_def split: list.splits arg.splits if_splits)

lemma map_args_up:
  assumes "map_args uni lc args dst = Some out" and "length args \<noteq> 0" and "length args \<le> 2"
  shows "\<exists>k. out = dst @ k \<and> stringMap_fromArgsSlow uni lc args = Ok k"
proof -
  obtain a as where a: "args = a # as" using assms(2) by (cases args) auto
  show ?thesis
  proof (cases as)
    case Nil
    then show ?thesis using assms(1) a
      by (auto simp: stringMap_fromArgsSlow_def split: arg.splits)
  next
    case (Cons b bs)
    then have "bs = []" using assms(3) a by simp
    then show ?thesis using assms(1) a Cons
      by (auto simp: stringMap_fromArgsSlow_def split: arg.splits)
  qed
qed

lemma uuid_args_up:
  "appendUUID dst v e = Some out \<Longrightarrow> \<exists>k. out = dst @ k \<and> of_uuid (parseString v e) = Ok k"
  by (auto simp: appendUUID_slow parseString_slow of_uuid_def split: sum.splits)

lemma prefix_kind_has: "prefix_kind ix \<Longrightarrow> has_prefix ix"
  by (cases ix) (simp_all add: prefix_kind_def has_prefix_def)

lemma compound_append_args:
  assumes "compound_append False (map (\<lambda>ix. (ak ix, pk ix, g ix)) ixs) args dst = Some out"
    and "\<And>ix a d o'. ix \<in> set ixs \<Longrightarrow> g ix False [a] d = Some o' \<Longrightarrow> \<exists>k. up ix [a] = Ok k \<and> o' = d @ k"
  shows "\<exists>k. compound_args i (map up ixs) args acc = Ok (acc @ k) \<and> out = dst @ k"
  using assms
proof (induction ixs arbitrary: args dst i acc)
  case Nil
  then show ?case by simp
next
  case (Cons ix ixs)
  show ?case
  proof (cases args)
    case Nil
    then show ?thesis using Cons.prems(1) by simp
  next
    case args: (Cons a as)
    then obtain o' where o': "g ix False [a] dst = Some o'"
        "compound_append False (map (\<lambda>ix. (ak ix, pk ix, g ix)) ixs) as o' = Some out"
      using Cons.prems(1) by (auto simp: Let_def split: if_splits option.splits)
    obtain k where k: "up ix [a] = Ok k" "o' = dst @ k" using Cons.prems(2) [OF _ o'(1)] by auto
    obtain k' where "compound_args (i + 1) (map up ixs) as (acc @ k) = Ok ((acc @ k) @ k')" "out = o' @ k'"
      using Cons.IH [OF o'(2), of "i + 1" "acc @ k"] Cons.prems(2) by auto
    then show ?thesis using k args by simp
  qed
qed

lemma compound_append_prefix:
  assumes "compound_append True (map (\<lambda>ix. (ak ix, pk ix, g ix)) ixs) args dst = Some out"
    and "\<And>ix a d o'. ix \<in> set ixs \<Longrightarrow> g ix False [a] d = Some o' \<Longrightarrow> \<exists>k. up ix [a] = Ok k \<and> o' = d @ k"
    and "\<And>ix a d o'. ix \<in> set ixs \<Longrightarrow> g ix True [a] d = Some o' \<Longrightarrow> pk ix \<Longrightarrow> \<exists>p k. upp ix = Some p \<and> p [a] = Ok k \<and> o' = d @ k"
  shows "\<exists>k. compound_prefix i (map (\<lambda>ix. (up ix, upp ix)) ixs) args acc = Ok (acc @ k) \<and> out = dst @ k"
  using assms
proof (induction ixs arbitrary: args dst i acc)
  case Nil
  then show ?case by simp
next
  case (Cons ix ixs)
  show ?case
  proof (cases args)
    case Nil
    then show ?thesis using Cons.prems(1) by simp
  next
    case args: (Cons a as)
    show ?thesis
    proof (cases "as = []")
      case True
      then have o': "pk ix" "g ix True [a] dst = Some out"
        using Cons.prems(1) args by (auto simp: Let_def split: if_splits option.splits elim: compound_append.elims)
      then obtain p k where "upp ix = Some p" "p [a] = Ok k" "out = dst @ k"
        using Cons.prems(3) [OF _ o'(2,1)] by auto
      then show ?thesis using args True by simp
    next
      case False
      then obtain o' where o': "g ix False [a] dst = Some o'"
          "compound_append True (map (\<lambda>ix. (ak ix, pk ix, g ix)) ixs) as o' = Some out"
        using Cons.prems(1) args by (auto simp: Let_def split: if_splits option.splits)
      obtain k where k: "up ix [a] = Ok k" "o' = dst @ k" using Cons.prems(2) [OF _ o'(1)] by auto
      obtain k' where "compound_prefix (i + 1) (map (\<lambda>ix. (up ix, upp ix)) ixs) as (acc @ k) = Ok ((acc @ k) @ k')" "out = o' @ k'"
        using Cons.IH [OF o'(2), of "i + 1" "acc @ k"] Cons.prems(2,3) by auto
      then show ?thesis using k args False by simp
    qed
  qed
qed

lemma appendArgs_up:
  "appendArgs uni pre ix args dst = Some out \<Longrightarrow> \<exists>k. up_query uni pre ix args = Ok k \<and> out = dst @ k"
proof (induction uni pre ix args dst arbitrary: out rule: appendArgs.induct)
  case (1 uni pre name lc args dst)
  then show ?case using string_args_up [of uni pre lc args dst out] by (auto simp: up_query_def)
next
  case (2 uni pre name lc args dst)
  then show ?case using string_args_up [of uni pre lc args dst out] by (auto simp: up_query_def)
next
  case (3 uni pre t g lc args dst)
  then show ?case using string_args_up [of uni pre lc args dst out] by (auto simp: up_query_def split: if_splits)
next
  case (4 uni pre t g lc args dst)
  then show ?case using string_args_up [of uni pre lc args dst out] by (auto simp: up_query_def split: if_splits)
next
  case (5 uni pre t g w args dst)
  then show ?case
    by (auto simp: up_query_def tint_FromArgs_def append_split [of dst] split: if_splits list.splits option.splits)
next
  case (6 uni pre t g w args dst)
  then show ?case
    by (auto simp: up_query_def tuint_FromArgs_def append_split [of dst] split: if_splits list.splits option.splits)
next
  case (7 uni pre name lc args dst)
  then show ?case using map_args_up [of uni lc args dst out] by (auto simp: up_query_def split: if_splits)
next
  case (8 uni pre name args dst)
  then show ?case
    by (auto simp: up_query_def int_fromArgsSlow_def append_split [of dst] split: if_splits list.splits arg.splits bool.splits)
next
  case (9 uni pre name args dst)
  then show ?case
    by (auto simp: up_query_def uint_fromArgsSlow_def append_split [of dst] split: if_splits list.splits arg.splits bool.splits)
next
  case (14 uni pre name args dst)
  then show ?case
    by (auto simp: up_query_def uuid_fromArgsSlow_def uuid_prefixFromArgsSlow_def
        split: if_splits list.splits arg.splits dest!: uuid_args_up)
next
  case (15 uni pre ixs am args dst)
  have sub: "\<exists>k. up_query uni l ix as = Ok k \<and> o' = d @ k"
    if "ix \<in> set ixs" "appendArgs uni l ix as d = Some o'" for ix l as d o'
    using 15(1) that "15.prems" by (auto split: if_splits)
  show ?case
  proof (cases pre)
    case False
    then have c: "length args = length ixs"
        "compound_append False (map (\<lambda>ix. (arg_kind ix, prefix_kind ix, \<lambda>l as d. appendArgs uni l ix as d)) ixs) args dst = Some out"
      using "15.prems" by (simp_all split: if_splits)
    have "\<exists>k. compound_args 0 (map (up_args uni) ixs) args [] = Ok ([] @ k) \<and> out = dst @ k"
      by (rule compound_append_args [OF c(2)]) (use sub in \<open>fastforce simp: up_query_def\<close>)
    then show ?thesis using False c(1) by (simp add: up_query_def)
  next
    case True
    then have c: "\<not> length args > length ixs"
        "compound_append True (map (\<lambda>ix. (arg_kind ix, prefix_kind ix, \<lambda>l as d. appendArgs uni l ix as d)) ixs) args dst = Some out"
      using "15.prems" by (simp_all split: if_splits)
    have "\<exists>k. compound_prefix 0 (map (\<lambda>ix. (up_args uni ix, if has_prefix ix then Some (up_prefix uni ix) else None)) ixs) args [] = Ok ([] @ k) \<and> out = dst @ k"
    proof (rule compound_append_prefix [OF c(2)])
      fix ix a d o' assume ix: "ix \<in> set ixs"
      show "appendArgs uni False ix [a] d = Some o' \<Longrightarrow> \<exists>k. up_args uni ix [a] = Ok k \<and> o' = d @ k"
        using sub [OF ix] by (fastforce simp: up_query_def)
      show "appendArgs uni True ix [a] d = Some o' \<Longrightarrow> prefix_kind ix \<Longrightarrow>
          \<exists>p k. (if has_prefix ix then Some (up_prefix uni ix) else None) = Some p \<and> p [a] = Ok k \<and> o' = d @ k"
        using sub [OF ix, of True "[a]" d o'] by (auto simp: up_query_def prefix_kind_has)
    qed
    then show ?thesis using True c(1) by (simp add: up_query_def)
  qed
qed (auto simp: up_query_def dest!: bool_args_up)

section \<open>The exported methods\<close>

text \<open>
  FromObject of a scalar index: a value the fast path produced, copied; otherwise the original
  method. A compound index additionally insists on a key that is not empty.
\<close>

definition fast_or :: "bytes \<times> bool \<times> bool \<Rightarrow> bytes option res \<Rightarrow> bytes option res" where
  "fast_or t slow = (case t of (out, ok, handled) \<Rightarrow> if handled \<and> ok then Ok (Some out) else slow)"

definition fast_or_nonempty :: "bytes \<times> bool \<times> bool \<Rightarrow> bytes option res \<Rightarrow> bytes option res" where
  "fast_or_nonempty t slow = (case t of (out, ok, handled) \<Rightarrow>
     if handled \<and> ok \<and> length out > 0 then Ok (Some out) else slow)"

definition fast_keys_or :: "(keyList \<times> bool \<times> bool \<times> err option) option \<Rightarrow> bytes list option res \<Rightarrow> bytes list option res" where
  "fast_keys_or t slow = (case t of None \<Rightarrow> Panics | Some (kl, ok, handled, err) \<Rightarrow>
     if handled \<and> ok then Ok (Some (kl_split kl)) else slow)"

fun FromObject :: "(bytes \<Rightarrow> bytes) \<Rightarrow> obj \<Rightarrow> indexer \<Rightarrow> bytes option res" where
  "FromObject uni obj (IString name lc) =
    fast_or (appendScalar uni obj (IString name lc) []) (string_fromObjectSlow uni name lc obj)"
| "FromObject uni obj (IInt name) = fast_or (appendScalar uni obj (IInt name) []) (int_fromObjectSlow name obj)"
| "FromObject uni obj (IUint name) = fast_or (appendScalar uni obj (IUint name) []) (uint_fromObjectSlow name obj)"
| "FromObject uni obj (IBool name) = fast_or (appendScalar uni obj (IBool name) []) (bool_fromObjectSlow name obj)"
| "FromObject uni obj (IUUID name) = fast_or (appendScalar uni obj (IUUID name) []) (uuid_fromObjectSlow name obj)"
| "FromObject uni obj (IFieldSet name) = fast_or (appendScalar uni obj (IFieldSet name) []) (fieldSet_fromObjectSlow name obj)"
| "FromObject uni obj (ICond c) = cond_FromObject c obj"
| "FromObject uni obj (ITString t g lc) = tstring_FromObject uni t g lc obj"
| "FromObject uni obj (ITInt t g w) = tint_FromObject t g w obj"
| "FromObject uni obj (ITUint t g w) = tuint_FromObject t g w obj"
| "FromObject uni obj (ITBool t g) = tbool_FromObject t g obj"
| "FromObject uni obj (ICompound ixs am) =
    fast_or_nonempty (appendScalar uni obj (ICompound ixs am) [])
      (compound_fold am 0 (map (\<lambda>ix. (is_single ix, FromObject uni obj ix)) ixs) [])"
| "FromObject uni obj (ICustom (FromSingle g) _ _) = g obj"
| "FromObject uni obj _ = Panics"

fun FromObjectMulti :: "(bytes \<Rightarrow> bytes) \<Rightarrow> obj \<Rightarrow> indexer \<Rightarrow> bytes list option res" where
  "FromObjectMulti uni obj (IStringSlice name lc) =
    fast_keys_or (appendKeys uni obj [] False (IStringSlice name lc) kl_empty) (stringSlice_fromObjectSlow uni name lc obj)"
| "FromObjectMulti uni obj (IStringMap name lc) =
    fast_keys_or (appendKeys uni obj [] False (IStringMap name lc) kl_empty) (stringMap_fromObjectSlow uni name lc obj)"
| "FromObjectMulti uni obj (ITStrings t g lc) = tstrings_FromObject uni t g lc obj"
| "FromObjectMulti uni obj (ICompoundMulti ixs am) =
    fast_keys_or (appendKeys uni obj [] True (ICompoundMulti ixs am) kl_empty)
      (multi_result am (multi_levels am 0 (map (\<lambda>ix.
        if is_single ix then SubSingle (FromObject uni obj ix)
        else if is_multi ix then SubMulti (FromObjectMulti uni obj ix) else SubNeither) ixs) []))"
| "FromObjectMulti uni obj (ICustom (FromMulti g) _ _) = g obj"
| "FromObjectMulti uni obj _ = Panics"

definition stringArg :: "(bytes \<Rightarrow> bytes) \<Rightarrow> arg list \<Rightarrow> bool \<Rightarrow> bool \<Rightarrow> bytes option" where
  "stringArg uni args lowercase terminate = (case args of
     [a] \<Rightarrow> (case a of
         AString arg \<Rightarrow> let out = appendString uni [] arg lowercase in Some (if terminate then out @ [0] else out)
       | _ \<Rightarrow> None)
   | _ \<Rightarrow> None)"

definition arg_or :: "bytes option \<Rightarrow> bytes res \<Rightarrow> bytes res" where
  "arg_or r slow = (case r of Some out \<Rightarrow> Ok out | None \<Rightarrow> slow)"

definition nonempty_arg_or :: "bytes option \<Rightarrow> bytes res \<Rightarrow> bytes res" where
  "nonempty_arg_or r slow = (case r of Some out \<Rightarrow> if length out > 0 then Ok out else slow | None \<Rightarrow> slow)"

definition int_FromArgs :: "arg list \<Rightarrow> bytes res" where
  "int_FromArgs args = (case args of
     [a] \<Rightarrow> (case a of
         AInt named w v \<Rightarrow> if named then int_fromArgsSlow args else of_outcome (encodeInt v (width_bytes w))
       | _ \<Rightarrow> int_fromArgsSlow args)
   | _ \<Rightarrow> int_fromArgsSlow args)"

definition uint_FromArgs :: "arg list \<Rightarrow> bytes res" where
  "uint_FromArgs args = (case args of
     [a] \<Rightarrow> (case a of
         AUint named w v \<Rightarrow> if named then uint_fromArgsSlow args else of_outcome (encodeUInt v (width_bytes w))
       | _ \<Rightarrow> uint_fromArgsSlow args)
   | _ \<Rightarrow> uint_fromArgsSlow args)"

definition uuid_FromArgs :: "arg list \<Rightarrow> bytes res" where
  "uuid_FromArgs args = (case args of
     [a] \<Rightarrow> (case a of AString s \<Rightarrow> of_uuid (parseString s True) | _ \<Rightarrow> uuid_fromArgsSlow args)
   | _ \<Rightarrow> uuid_fromArgsSlow args)"

definition uuid_PrefixFromArgs :: "arg list \<Rightarrow> bytes res" where
  "uuid_PrefixFromArgs args = (case args of
     [a] \<Rightarrow> (case a of AString s \<Rightarrow> of_uuid (parseString s False) | _ \<Rightarrow> uuid_prefixFromArgsSlow args)
   | _ \<Rightarrow> uuid_prefixFromArgsSlow args)"

fun FromArgs :: "(bytes \<Rightarrow> bytes) \<Rightarrow> indexer \<Rightarrow> arg list \<Rightarrow> bytes res" where
  "FromArgs uni (IString name lc) args = arg_or (stringArg uni args lc True) (string_fromArgsSlow uni lc args)"
| "FromArgs uni (IStringSlice name lc) args = arg_or (stringArg uni args lc True) (string_fromArgsSlow uni lc args)"
| "FromArgs uni (IStringMap name lc) args =
    arg_or (appendArgs uni False (IStringMap name lc) args []) (stringMap_fromArgsSlow uni lc args)"
| "FromArgs uni (IInt name) args = int_FromArgs args"
| "FromArgs uni (IUint name) args = uint_FromArgs args"
| "FromArgs uni (IBool name) args = fromBoolArgs args"
| "FromArgs uni (IUUID name) args = uuid_FromArgs args"
| "FromArgs uni (IFieldSet name) args = fromBoolArgs args"
| "FromArgs uni (ICond c) args = fromBoolArgs args"
| "FromArgs uni (ITString t g lc) args = stringFromArgs uni args lc"
| "FromArgs uni (ITStrings t g lc) args = stringFromArgs uni args lc"
| "FromArgs uni (ITInt t g w) args = tint_FromArgs w args"
| "FromArgs uni (ITUint t g w) args = tuint_FromArgs w args"
| "FromArgs uni (ITBool t g) args = fromBoolArgs args"
| "FromArgs uni (ICompound ixs am) args =
    nonempty_arg_or (appendArgs uni False (ICompound ixs am) args [])
      (if length args \<noteq> length ixs then Err EArgCount
       else compound_args 0 (map (\<lambda>ix as. FromArgs uni ix as) ixs) args [])"
| "FromArgs uni (ICompoundMulti ixs am) args =
    compoundMulti_FromArgs am ixs (map (\<lambda>ix as. FromArgs uni ix as) ixs) args"
| "FromArgs uni (ICustom _ g _) args = g args"

fun PrefixFromArgs :: "(bytes \<Rightarrow> bytes) \<Rightarrow> indexer \<Rightarrow> arg list \<Rightarrow> bytes res" where
  "PrefixFromArgs uni (IString name lc) args =
    arg_or (stringArg uni args lc False) (strip_terminator (FromArgs uni (IString name lc) args))"
| "PrefixFromArgs uni (IStringSlice name lc) args =
    arg_or (stringArg uni args lc False) (strip_terminator (FromArgs uni (IStringSlice name lc) args))"
| "PrefixFromArgs uni (IUUID name) args = uuid_PrefixFromArgs args"
| "PrefixFromArgs uni (ITString t g lc) args = bind_res (stringFromArgs uni args lc) (\<lambda>val. Ok (take (length val - 1) val))"
| "PrefixFromArgs uni (ITStrings t g lc) args = bind_res (stringFromArgs uni args lc) (\<lambda>val. Ok (take (length val - 1) val))"
| "PrefixFromArgs uni (ICompound ixs am) args =
    nonempty_arg_or (appendArgs uni True (ICompound ixs am) args [])
      (if length args > length ixs then Err ETooMany
       else compound_prefix 0 (map (\<lambda>ix. (FromArgs uni ix,
              if has_prefix ix then Some (\<lambda>as. PrefixFromArgs uni ix as) else None)) ixs) args [])"
| "PrefixFromArgs uni (ICustom _ _ (Some p)) args = p args"
| "PrefixFromArgs uni _ args = Panics"

section \<open>The exported methods answer like the original ones\<close>

lemma fast_or_up: "agrees [] r t \<Longrightarrow> fast_or t r = r"
  by (cases t) (auto simp: fast_or_def agrees_def split: if_splits)

lemma fast_or_nonempty_up: "agrees [] r t \<Longrightarrow> fast_or_nonempty t r = r"
  by (cases t) (auto simp: fast_or_nonempty_def agrees_def split: if_splits)

lemma fast_keys_or_up: "agrees_keys [] kl_empty r t \<Longrightarrow> fast_keys_or t r = r"
  by (cases t) (auto simp: fast_keys_or_def agrees_keys_def appended_def split: if_splits option.splits)

lemma kl_good_empty [simp]: "kl_good kl_empty"
  by (simp add: kl_good_def)

lemma FromObject_up: "FromObject uni obj ix = up_single uni obj ix"
proof (induction uni obj ix rule: FromObject.induct)
  case (12 uni obj ixs am)
  have eq: "map (\<lambda>ix. (is_single ix, FromObject uni obj ix)) ixs = map (\<lambda>ix. (is_single ix, up_single uni obj ix)) ixs"
    using 12 by simp
  have "fast_or_nonempty (appendScalar uni obj (ICompound ixs am) []) (up_single uni obj (ICompound ixs am)) =
      up_single uni obj (ICompound ixs am)"
    by (rule fast_or_nonempty_up [OF appendScalar_agrees])
  then show ?case unfolding FromObject.simps eq up_single.simps .
next
  case (1 uni obj name lc)
  show ?case using fast_or_up [OF appendScalar_agrees [of "[]" uni obj "IString name lc"]] by simp
next
  case (2 uni obj name)
  show ?case using fast_or_up [OF appendScalar_agrees [of "[]" uni obj "IInt name"]] by simp
next
  case (3 uni obj name)
  show ?case using fast_or_up [OF appendScalar_agrees [of "[]" uni obj "IUint name"]] by simp
next
  case (4 uni obj name)
  show ?case using fast_or_up [OF appendScalar_agrees [of "[]" uni obj "IBool name"]] by simp
next
  case (5 uni obj name)
  show ?case using fast_or_up [OF appendScalar_agrees [of "[]" uni obj "IUUID name"]] by simp
next
  case (6 uni obj name)
  show ?case using fast_or_up [OF appendScalar_agrees [of "[]" uni obj "IFieldSet name"]] by simp
qed simp_all

lemma appendKeys_up_multi:
  "\<not> is_single ix \<Longrightarrow> agrees_keys [] kl_empty (up_multi uni obj ix) (appendKeys uni obj [] has_tmp ix kl_empty)"
  using appendKeys_agrees [OF kl_good_empty, of "[]" uni obj ix has_tmp] by (simp add: up_keys_def)

lemma FromObjectMulti_up: "FromObjectMulti uni obj ix = up_multi uni obj ix"
proof (induction uni obj ix rule: FromObjectMulti.induct)
  case (1 uni obj name lc)
  show ?case using fast_keys_or_up [OF appendKeys_up_multi [of "IStringSlice name lc"]] by (simp add: is_single_def)
next
  case (2 uni obj name lc)
  show ?case using fast_keys_or_up [OF appendKeys_up_multi [of "IStringMap name lc"]] by (simp add: is_single_def)
next
  case (4 uni obj ixs am)
  have eq: "map (\<lambda>ix. if is_single ix then SubSingle (FromObject uni obj ix)
        else if is_multi ix then SubMulti (FromObjectMulti uni obj ix) else SubNeither) ixs =
      map (\<lambda>ix. if is_single ix then SubSingle (up_single uni obj ix)
        else if is_multi ix then SubMulti (up_multi uni obj ix) else SubNeither) ixs"
    using 4 by (simp add: FromObject_up)
  have "\<not> is_single (ICompoundMulti ixs am)" by (simp add: is_single_def)
  from fast_keys_or_up [OF appendKeys_up_multi [OF this, of uni obj True]]
  show ?case unfolding FromObjectMulti.simps eq up_multi.simps .
qed simp_all

lemma stringArg_up:
  "arg_or (stringArg uni args lc True) (string_fromArgsSlow uni lc args) = string_fromArgsSlow uni lc args"
  "arg_or (stringArg uni args lc False) (strip_terminator (string_fromArgsSlow uni lc args)) = strip_terminator (string_fromArgsSlow uni lc args)"
  by (auto simp: arg_or_def stringArg_def string_fromArgsSlow_def strip_terminator_def Let_def split: option.split list.split arg.split)

lemma arg_or_query:
  assumes "r = up_query uni pre ix args"
  shows "arg_or (appendArgs uni pre ix args []) r = r" and "nonempty_arg_or (appendArgs uni pre ix args []) r = r"
  using appendArgs_up [of uni pre ix args "[]"] assms
  by (auto simp: arg_or_def nonempty_arg_or_def split: option.split)

lemma FromArgs_up: "FromArgs uni ix args = up_args uni ix args"
proof (induction uni ix args rule: FromArgs.induct)
  case (3 uni name lc args)
  then show ?case using arg_or_query(1) [of _ uni False "IStringMap name lc" args] by (simp add: up_query_def)
next
  case (15 uni ixs am args)
  have up: "up_query uni False (ICompound ixs am) args = up_args uni (ICompound ixs am) args"
    by (simp add: up_query_def)
  have "(if length args \<noteq> length ixs then Err EArgCount
      else compound_args 0 (map (\<lambda>ix as. FromArgs uni ix as) ixs) args []) = up_args uni (ICompound ixs am) args"
  proof (cases "length args = length ixs")
    case True
    have eq: "map (\<lambda>ix as. FromArgs uni ix as) ixs = map (\<lambda>ix as. up_args uni ix as) ixs"
      using 15 True by (simp add: fun_eq_iff)
    show ?thesis unfolding eq up_args.simps ..
  qed simp
  then show ?case using arg_or_query(2) [OF up [symmetric]] by (simp only: FromArgs.simps)
next
  case (16 uni ixs am args)
  have eq: "map (\<lambda>ix as. FromArgs uni ix as) ixs = map (\<lambda>ix as. up_args uni ix as) ixs"
    using 16 by (simp add: fun_eq_iff)
  show ?case unfolding FromArgs.simps eq up_args.simps ..
qed (auto simp: stringArg_up int_FromArgs_def uint_FromArgs_def uuid_FromArgs_def int_fromArgsSlow_def uint_fromArgsSlow_def
    uuid_fromArgsSlow_def split: list.split arg.split)

lemma PrefixFromArgs_up: "PrefixFromArgs uni ix args = up_prefix uni ix args"
proof (induction uni ix args rule: PrefixFromArgs.induct)
  case (6 uni ixs am args)
  have up: "up_query uni True (ICompound ixs am) args = up_prefix uni (ICompound ixs am) args"
    by (simp add: up_query_def)
  have "(if length args > length ixs then Err ETooMany
       else compound_prefix 0 (map (\<lambda>ix. (FromArgs uni ix,
              if has_prefix ix then Some (\<lambda>as. PrefixFromArgs uni ix as) else None)) ixs) args []) =
      up_prefix uni (ICompound ixs am) args"
  proof (cases "length args > length ixs")
    case False
    have "(if has_prefix ix then Some (\<lambda>as. PrefixFromArgs uni ix as) else None) =
        (if has_prefix ix then Some (\<lambda>as. up_prefix uni ix as) else None)" if "ix \<in> set ixs" for ix
      using 6 that False by (auto simp: fun_eq_iff)
    then have eq: "map (\<lambda>ix. (FromArgs uni ix, if has_prefix ix then Some (\<lambda>as. PrefixFromArgs uni ix as) else None)) ixs =
        map (\<lambda>ix. (up_args uni ix, if has_prefix ix then Some (\<lambda>as. up_prefix uni ix as) else None)) ixs"
      by (simp add: FromArgs_up fun_eq_iff)
    show ?thesis unfolding eq up_prefix.simps ..
  qed simp
  then show ?case using arg_or_query(2) [OF up [symmetric]] by (simp only: PrefixFromArgs.simps)
qed (auto simp: stringArg_up FromArgs_up uuid_PrefixFromArgs_def uuid_prefixFromArgsSlow_def split: list.split arg.split)

end
