(* ===== verification/IndexSpec.thy ===== *)
theory IndexSpec
  imports IndexFast
begin

text \<open>
  The properties of key extraction: the exported indexer methods and the transactions' fast
  path answer like the original methods of this repository (which this repository keeps beside the
  fast path, with its own repair of walkVals), and the key stored for an object is the key a query
  for its value asks for.
\<close>

section \<open>Stored keys and query keys\<close>

text \<open>The argument that queries one plain index for the value an object has in its field.\<close>

definition query_arg :: "obj \<Rightarrow> indexer \<Rightarrow> arg option" where
  "query_arg obj ix = (case ix of
     IString name _ \<Rightarrow> (case field_by_name obj name of
         Ret (Some f) \<Rightarrow> (case fd_val f of VPtr _ p \<Rightarrow> map_option AString p | _ \<Rightarrow> Some (AString (value_String f)))
       | _ \<Rightarrow> None)
   | IUUID name \<Rightarrow> (case field_by_name obj name of Ret (Some f) \<Rightarrow> Some (AString (value_String f)) | _ \<Rightarrow> None)
   | IInt name \<Rightarrow> (case field_by_name obj name of
         Ret (Some f) \<Rightarrow> (case fd_val f of VInt w v \<Rightarrow> Some (AInt False w v) | _ \<Rightarrow> None) | _ \<Rightarrow> None)
   | IUint name \<Rightarrow> (case field_by_name obj name of
         Ret (Some f) \<Rightarrow> (case fd_val f of VUint w v \<Rightarrow> Some (AUint False w v) | _ \<Rightarrow> None) | _ \<Rightarrow> None)
   | IBool name \<Rightarrow> (case field_by_name obj name of
         Ret (Some f) \<Rightarrow> (case fd_val f of VBool v \<Rightarrow> Some (ABool v) | _ \<Rightarrow> None) | _ \<Rightarrow> None)
   | _ \<Rightarrow> None)"

lemma query_key:
  assumes "up_single uni obj ix = Ok (Some k)" and "query_arg obj ix = Some a"
  shows "up_args uni ix [a] = Ok k"
  using assms
  by (cases ix) (auto simp: query_arg_def with_field_def string_fromObjectSlow_def string_fromArgsSlow_def value_String_def
      uuid_fromObjectSlow_def uuid_fromArgsSlow_def int_fromObjectSlow_def uint_fromObjectSlow_def bool_fromObjectSlow_def
      fromBoolArgs_def int_fromArgsSlow_def uint_fromArgsSlow_def bind_res_def Let_def
      split: outcome.splits option.splits fval.splits if_splits res.splits)

lemma compound_query_key:
  assumes "compound_fold False i (map (\<lambda>ix. (is_single ix, up_single uni obj ix)) ixs) out = Ok (Some k)"
    and "list_all2 (\<lambda>ix a. query_arg obj ix = Some a) ixs args"
  shows "compound_args i (map (\<lambda>ix as. up_args uni ix as) ixs) args out = Ok k"
  using assms
proof (induction ixs arbitrary: i args out)
  case (Cons ix ixs)
  then obtain a as where args: "args = a # as" "query_arg obj ix = Some a"
      "list_all2 (\<lambda>ix a. query_arg obj ix = Some a) ixs as"
    by (auto simp: list_all2_Cons1)
  then obtain v where v: "up_single uni obj ix = Ok (Some v)"
      "compound_fold False (i + 1) (map (\<lambda>ix. (is_single ix, up_single uni obj ix)) ixs) (out @ v) = Ok (Some k)"
    using Cons.prems(1) by (auto split: if_splits res.splits option.splits)
  then show ?case using Cons.IH [OF v(2) args(3)] query_key [OF v(1) args(2)] args(1) by simp
qed simp

section \<open>The properties\<close>

text \<open>
  C37: the exported methods of the built-in indexers return what the original methods return:
  FromObject on every object (the same keys, the same report of a missing value, the same
  error, the same panic), FromArgs and PrefixFromArgs on every argument list.
\<close>
theorem exported_methods:
  "FromObject uni obj ix = up_single uni obj ix \<and> FromObjectMulti uni obj ix = up_multi uni obj ix \<and>
   FromArgs uni ix args = up_args uni ix args \<and> PrefixFromArgs uni ix args = up_prefix uni ix args"
  by (simp add: FromObject_up FromObjectMulti_up FromArgs_up PrefixFromArgs_up)

text \<open>
  C36: a transaction's extractor always returns when it is asked for all keys of an object (its
  size computation does not panic and its product loop ends), and what it handles it answers like
  the original methods of this repository: an error is theirs, otherwise the keys it adds to the
  list, suffix apart, are theirs in their order and none when they report no value; what it does
  not handle leaves the list as it was.
\<close>
theorem extractor_keys:
  assumes "kl_good kl"
  shows "\<exists>kl' ok handled e. appendKeys uni obj sfx has_tmp ix kl = Some (kl', ok, handled, e) \<and>
   (if \<not> handled then kl' = kl
    else case e of
      Some e' \<Rightarrow> up_keys uni obj ix = Err e'
    | None \<Rightarrow> (\<exists>found. up_keys uni obj ix = Ok found \<and> (ok \<longleftrightarrow> found \<noteq> None) \<and> kl_good kl' \<and>
        kl_split kl' = kl_split kl @ (case found of None \<Rightarrow> [] | Some vals \<Rightarrow> map (\<lambda>k. k @ sfx) vals)))"
proof -
  obtain kl' ok handled e where a: "appendKeys uni obj sfx has_tmp ix kl = Some (kl', ok, handled, e)"
    by (rule appendKeys_returns [OF assms])
  show ?thesis
    using appendKeys_agrees [OF assms, of sfx uni obj ix has_tmp] unfolding a
    by (auto simp: agrees_keys_def appended_def split: if_splits option.splits)
qed

text \<open>The product of one tag with the values of two others, with every proper prefix.\<close>

lemma extractor_keys_witness:
  "\<exists>kl'. appendKeys (\<lambda>s. s) (OPtr 0 [\<lparr>fd_name = ''Tags'', fd_exported = True, fd_embed_exported = True, fd_path = Direct,
      fd_type = [], fd_val = VStrings [[97], [98]]\<rparr>]) [9] True
      (ICompoundMulti [IStringSlice ''Tags'' False, IStringSlice ''Tags'' False] True) kl_empty = Some (kl', True, True, None) \<and>
    kl_split kl' = [[97, 0, 9], [97, 0, 97, 0, 9], [97, 0, 98, 0, 9], [98, 0, 9], [98, 0, 97, 0, 9], [98, 0, 98, 0, 9]]"
proof -
  let ?f = "\<lparr>fd_name = ''Tags'', fd_exported = True, fd_embed_exported = True, fd_path = Direct,
      fd_type = [], fd_val = VStrings [[97], [98]]\<rparr>"
  let ?ix = "ICompoundMulti [IStringSlice ''Tags'' False, IStringSlice ''Tags'' False] True"
  obtain kl' ok handled e where a: "appendKeys (\<lambda>s. s) (OPtr 0 [?f]) [9] True ?ix kl_empty = Some (kl', ok, handled, e)"
    and r: "if \<not> handled then kl' = kl_empty
      else case e of
        Some e' \<Rightarrow> up_keys (\<lambda>s. s) (OPtr 0 [?f]) ?ix = Err e'
      | None \<Rightarrow> (\<exists>found. up_keys (\<lambda>s. s) (OPtr 0 [?f]) ?ix = Ok found \<and> (ok \<longleftrightarrow> found \<noteq> None) \<and> kl_good kl' \<and>
          kl_split kl' = kl_split kl_empty @ (case found of None \<Rightarrow> [] | Some vals \<Rightarrow> map (\<lambda>k. k @ [9]) vals))"
    using extractor_keys [OF kl_good_empty] by blast
  have "\<not> scalar (IStringSlice ''Tags'' False)" by code_simp
  then have h: "handled \<and> e = None"
    using a by (auto simp: appendKeys_def collect_sub_def append_multi_def usable_field_def maxCompoundDepth_def
        append_strings_def split: prod.splits if_splits option.splits outcome.splits)
  have u: "up_keys (\<lambda>s. s) (OPtr 0 [?f]) ?ix = Ok (Some [[97, 0], [97, 0, 97, 0], [97, 0, 98, 0], [98, 0], [98, 0, 97, 0], [98, 0, 98, 0]])"
    by code_simp
  have "kl_split kl_empty = []" by (simp add: kl_split_def kl_empty_def)
  then show ?thesis using a r h u by simp
qed

text \<open>
  The key of a query that the extractor encodes in the transaction's buffer is the key
  FromArgs (or, for a prefix query, PrefixFromArgs) returns.
\<close>
theorem extractor_args:
  assumes "appendArgs uni pre ix args dst = Some out"
  shows "\<exists>k. (if pre then PrefixFromArgs uni ix args else FromArgs uni ix args) = Ok k \<and> out = dst @ k"
  using appendArgs_up [OF assms] by (auto simp: up_query_def FromArgs_up PrefixFromArgs_up)

lemma extractor_args_witness:
  "PrefixFromArgs (\<lambda>s. s) (ICompound [IInt ''Age'', IString ''Name'' False] True) [AInt False W8 3, AString [97]] = Ok [131, 97]"
proof -
  have "appendArgs (\<lambda>s. s) True (ICompound [IInt ''Age'', IString ''Name'' False] True) [AInt False W8 3, AString [97]] [7]
      = Some ([7] @ [131, 97])"
    by code_simp
  from extractor_args [OF this] show ?thesis by auto
qed

text \<open>
  C38: a row is found under its own values: when an index (plain, or compound over plain ones)
  stores a row under a key, a query whose arguments are the row's field values asks for
  exactly that key.
\<close>
theorem stored_key_is_queried:
  assumes "FromObject uni obj ix = Ok (Some k)"
    and "case ix of ICompound ixs am \<Rightarrow> \<not> am \<and> list_all2 (\<lambda>i a. query_arg obj i = Some a) ixs args
      | _ \<Rightarrow> \<exists>a. query_arg obj ix = Some a \<and> args = [a]"
  shows "FromArgs uni ix args = Ok k"
proof (cases "\<exists>ixs am. ix = ICompound ixs am")
  case True
  then obtain ixs where ix: "ix = ICompound ixs False" "list_all2 (\<lambda>i a. query_arg obj i = Some a) ixs args"
    using assms(2) by auto
  then have "compound_args 0 (map (\<lambda>ix as. up_args uni ix as) ixs) args [] = Ok k"
    using compound_query_key [of 0 uni obj ixs "[]" k args] assms(1) by (simp add: FromObject_up)
  then show ?thesis using ix list_all2_lengthD [OF ix(2)] by (simp add: FromArgs_up)
next
  case False
  then obtain a where "query_arg obj ix = Some a" "args = [a]" using assms(2) by (cases ix) auto
  then show ?thesis using query_key assms(1) by (simp add: FromArgs_up FromObject_up)
qed

lemma stored_key_is_queried_witness:
  "FromArgs (\<lambda>s. s) (ICompound [IInt ''Age'', IString ''Name'' True] False) [AInt False W16 3, AString [65]] = Ok [128, 3, 97, 0]"
proof -
  let ?obj = "OPtr 0 [\<lparr>fd_name = ''Age'', fd_exported = True, fd_embed_exported = True, fd_path = Direct, fd_type = [], fd_val = VInt W16 3\<rparr>,
    \<lparr>fd_name = ''Name'', fd_exported = True, fd_embed_exported = True, fd_path = Direct, fd_type = [], fd_val = VString [65]\<rparr>]"
  let ?ix = "ICompound [IInt ''Age'', IString ''Name'' True] False"
  have "FromObject (\<lambda>s. s) ?obj ?ix = Ok (Some [128, 3, 97, 0])"
    unfolding FromObject_up by code_simp
  then show ?thesis
  proof (rule stored_key_is_queried)
    have "list_all2 (\<lambda>i a. query_arg ?obj i = Some a) [IInt ''Age'', IString ''Name'' True] [AInt False W16 3, AString [65]]"
      by (simp add: query_arg_def field_by_name_def value_String_def)
    then show "case ?ix of ICompound ixs am \<Rightarrow> \<not> am \<and> list_all2 (\<lambda>i a. query_arg ?obj i = Some a) ixs [AInt False W16 3, AString [65]]
        | _ \<Rightarrow> \<exists>a. query_arg ?obj ?ix = Some a \<and> [AInt False W16 3, AString [65]] = [a]" by (simp only: indexer.case) blast
  qed
qed

end
