(* ===== verification/FieldAccess.thy ===== *)
theory FieldAccess
  imports Extract
begin

text \<open>
  How an extractor gets at the fields of an object: resolveField and its caches (extract.go) and
  the two builds of the field readers, by offset through unsafe pointers (extract_unsafe.go) and
  through reflection (extract_safe.go). The theory Extract describes an object by the fields that
  reflection finds in it; here objects are Go values with a memory layout, and the readers of
  both builds are shown to return what that description says.
\<close>

section \<open>Types, values and memory\<close>

text \<open>
  The kinds of fields the extractors distinguish: \<open>KPtr b\<close> with \<open>b\<close> for a pointer to a string kind,
  \<open>KStrings\<close> a slice of a string kind, \<open>KMap b\<close> with \<open>b\<close> for exactly \<^verbatim>\<open>map[string]string\<close>. That
  resolveField also notes whether a slice is exactly \<^verbatim>\<open>[]byte\<close> is used nowhere.
\<close>

datatype leafkind = KString | KPtr bool | KInt width | KUint width | KBool | KStrings | KSlice | KMap bool | KOther

text \<open>
  A type with its size, and the fields of a struct type at the offsets the compiler has chosen;
  \<open>TPtrStruct\<close> is a pointer to a struct, which may be embedded.
\<close>

datatype gotype =
    TLeaf leafkind nat
  | TStruct nat "gofield list"
  | TPtrStruct gotype
and gofield = GoField (gf_name: string) (gf_exported: bool) (gf_embedded: bool) (gf_offset: nat) (gf_type: gotype)

text \<open>
  A value: that of a field without fields of its own, a struct (with what a comparison with its
  zero value gives), or a pointer to a struct (with what reflect's String renders).
\<close>

datatype goval = GLeaf fval | GStruct "bool option" "goval list" | GPtr bytes "goval option"

definition leaf_of :: "goval \<Rightarrow> fval" where
  "leaf_of v = (case v of GLeaf x \<Rightarrow> x | GStruct z vs \<Rightarrow> VOther z | GPtr r p \<Rightarrow> VPtr False (map_option (\<lambda>_. r) p))"

fun fits :: "leafkind \<Rightarrow> fval \<Rightarrow> bool" where
  "fits KString v = (\<exists>s. v = VString s)"
| "fits (KPtr b) v = (\<exists>p. v = VPtr b p)"
| "fits (KInt w) v = (\<exists>x. v = VInt w x)"
| "fits (KUint w) v = (\<exists>x. v = VUint w x)"
| "fits KBool v = (\<exists>b. v = VBool b)"
| "fits KStrings v = (\<exists>ss. v = VStrings ss)"
| "fits KSlice v = (v = VSlice)"
| "fits (KMap b) v = (\<exists>m. v = VMap b m)"
| "fits KOther v = (\<exists>z. v = VOther z)"

definition size_of :: "gotype \<Rightarrow> nat" where
  "size_of t = (case t of TLeaf k n \<Rightarrow> n | TStruct n fs \<Rightarrow> n | TPtrStruct t \<Rightarrow> 8)"

definition kind_of :: "gotype \<Rightarrow> leafkind" where
  "kind_of t = (case t of TLeaf k n \<Rightarrow> k | TStruct n fs \<Rightarrow> KOther | TPtrStruct t \<Rightarrow> KPtr False)"

primrec has_type :: "gotype \<Rightarrow> goval \<Rightarrow> bool" and field_type :: "gofield \<Rightarrow> goval \<Rightarrow> bool" where
  "has_type (TLeaf k n) v = (case v of GLeaf x \<Rightarrow> fits k x | _ \<Rightarrow> False)"
| "has_type (TStruct n fs) v = (case v of GStruct z vs \<Rightarrow> list_all2 (\<lambda>g x. g x) (map field_type fs) vs | _ \<Rightarrow> False)"
| "has_type (TPtrStruct t) v = (case v of GPtr r p \<Rightarrow> (case p of None \<Rightarrow> True | Some w \<Rightarrow> has_type t w) | _ \<Rightarrow> False)"
| "field_type (GoField nm ex em off t) v = has_type t v"

text \<open>The fields of a struct lie in order and do not overlap; only fields of other kinds may be empty.\<close>

fun in_order :: "nat \<Rightarrow> (nat \<times> nat) list \<Rightarrow> nat \<Rightarrow> bool" where
  "in_order start [] n = (start \<le> n)"
| "in_order start ((off, sz) # r) n = (start \<le> off \<and> in_order (off + sz) r n)"

primrec layout_ok :: "gotype \<Rightarrow> bool" and field_layout :: "gofield \<Rightarrow> bool" where
  "layout_ok (TLeaf k n) = (k = KOther \<or> 0 < n)"
| "layout_ok (TStruct n fs) = (in_order 0 (map (\<lambda>f. (gf_offset f, size_of (gf_type f))) fs) n \<and> list_all (\<lambda>b. b) (map field_layout fs))"
| "layout_ok (TPtrStruct t) = layout_ok t"
| "field_layout (GoField nm ex em off t) = layout_ok t"

text \<open>The memory of a value at an address: what is stored at each offset.\<close>

primrec cells :: "gotype \<Rightarrow> goval \<Rightarrow> nat \<Rightarrow> (nat \<times> fval) list" and field_cells :: "gofield \<Rightarrow> goval \<Rightarrow> nat \<Rightarrow> (nat \<times> fval) list" where
  "cells (TLeaf k n) v base = (if n = 0 then [] else [(base, leaf_of v)])"
| "cells (TStruct n fs) v base = (case v of GStruct z vs \<Rightarrow> concat (map2 (\<lambda>g x. g x base) (map field_cells fs) vs) | _ \<Rightarrow> [])"
| "cells (TPtrStruct t) v base = [(base, leaf_of v)]"
| "field_cells (GoField nm ex em off t) v base = cells t v (base + off)"

section \<open>Reflection\<close>

definition struct_fields :: "gotype \<Rightarrow> gofield list" where
  "struct_fields t = (case t of TStruct n fs \<Rightarrow> fs | TPtrStruct (TStruct n fs) \<Rightarrow> fs | _ \<Rightarrow> [])"

text \<open>
  reflect's FieldByName: level by level through the embedded structs, and nothing if a name is
  found more than once on its level. A node is a type with the index path to it.
\<close>

definition level_matches :: "string \<Rightarrow> (nat list \<times> gotype) list \<Rightarrow> (nat list \<times> gofield) list" where
  "level_matches name nodes = concat (map (\<lambda>(p, t). map (\<lambda>i. (p @ [i], struct_fields t ! i))
     (filter (\<lambda>i. gf_name (struct_fields t ! i) = name) [0..<length (struct_fields t)])) nodes)"

definition next_level :: "(nat list \<times> gotype) list \<Rightarrow> (nat list \<times> gotype) list" where
  "next_level nodes = concat (map (\<lambda>(p, t). map (\<lambda>i. (p @ [i], gf_type (struct_fields t ! i)))
     (filter (\<lambda>i. gf_embedded (struct_fields t ! i)) [0..<length (struct_fields t)])) nodes)"

lemma struct_fields_size: "sum_list (map (\<lambda>f. size (gf_type f) + 1) (struct_fields t)) < size t + 1"
proof -
  have f: "sum_list (map (\<lambda>f. size (gf_type f) + 1) fs) \<le> size_list size fs" for fs :: "gofield list"
  proof (induction fs)
    case (Cons f fs)
    then show ?case by (cases f) simp
  qed simp
  have st: "sum_list (map (\<lambda>f. size (gf_type f) + 1) fs) < size (TStruct n fs) + 1" for n fs using f [of fs] by simp
  show ?thesis
  proof (cases t)
    case (TPtrStruct t')
    then show ?thesis using st by (cases t') (simp_all add: struct_fields_def less_SucI)
  qed (use st in \<open>simp_all add: struct_fields_def\<close>)
qed

definition nodes_size :: "(nat list \<times> gotype) list \<Rightarrow> nat" where
  "nodes_size nodes = sum_list (map (\<lambda>x. size (snd x) + 1) nodes)"

lemma next_level_size: "nodes \<noteq> [] \<Longrightarrow> nodes_size (next_level nodes) < nodes_size nodes"
proof (induction nodes)
  case (Cons a nodes)
  obtain p t where a: "a = (p, t)" by (cases a)
  let ?fs = "struct_fields t"
  let ?k = "map (\<lambda>i. (p @ [i], gf_type (?fs ! i))) (filter (\<lambda>i. gf_embedded (?fs ! i)) [0..<length ?fs])"
  have "nodes_size ?k = sum_list (map (\<lambda>i. size (gf_type (?fs ! i)) + 1) (filter (\<lambda>i. gf_embedded (?fs ! i)) [0..<length ?fs]))"
    by (simp add: nodes_size_def comp_def)
  also have "\<dots> \<le> sum_list (map (\<lambda>i. size (gf_type (?fs ! i)) + 1) [0..<length ?fs])" by (rule sum_list_filter_le_nat)
  also have "map (\<lambda>i. size (gf_type (?fs ! i)) + 1) [0..<length ?fs] = map (\<lambda>f. size (gf_type f) + 1) ?fs" by (rule nth_equalityI) simp_all
  also have "sum_list \<dots> < size t + 1" by (rule struct_fields_size)
  finally have k: "nodes_size ?k < size t + 1" .
  have "nodes_size (next_level nodes) \<le> nodes_size nodes"
  proof (cases nodes)
    case Nil
    then show ?thesis by (simp add: next_level_def nodes_size_def)
  next
    case (Cons b bs)
    then show ?thesis using Cons.IH by simp
  qed
  moreover have "next_level (a # nodes) = ?k @ next_level nodes" by (simp add: a next_level_def)
  ultimately show ?case using k by (simp add: nodes_size_def a)
qed simp

function FieldByName :: "string \<Rightarrow> (nat list \<times> gotype) list \<Rightarrow> (nat list \<times> gofield) option" where
  "FieldByName name nodes = (if nodes = [] then None
     else case level_matches name nodes of [] \<Rightarrow> FieldByName name (next_level nodes) | [m] \<Rightarrow> Some m | _ \<Rightarrow> None)"
  by pat_completeness auto
termination
  by (relation "measure (\<lambda>(name, nodes). nodes_size nodes)") (simp_all add: next_level_size)

declare FieldByName.simps [simp del]

text \<open>reflect's FieldByIndex; None where it panics on a nil embedded pointer.\<close>

fun field_by_index :: "goval \<Rightarrow> nat list \<Rightarrow> goval option" where
  "field_by_index v [] = Some v"
| "field_by_index v (i # is) = (case v of
     GStruct z vs \<Rightarrow> if i < length vs then field_by_index (vs ! i) is else None
   | GPtr r (Some (GStruct z vs)) \<Rightarrow> if i < length vs then field_by_index (vs ! i) is else None
   | _ \<Rightarrow> None)"

section \<open>resolveField\<close>

datatype dyntype = DPtr nat gotype | DStruct nat gotype | DOther nat

record fieldInfo =
  fi_typ :: "dyntype option"
  fi_name :: string
  fi_usable :: bool
  fi_kind :: leafkind
  fi_size :: nat
  fi_exported :: bool
  fi_offset :: nat
  fi_index :: "nat list"

text \<open>The loop along the path: whether it got to the end, whether all fields are exported, the offset.\<close>

fun resolve_path :: "gofield list \<Rightarrow> nat list \<Rightarrow> bool \<Rightarrow> nat \<Rightarrow> bool \<times> bool \<times> nat" where
  "resolve_path fs [] ex off = (True, ex, off)"
| "resolve_path fs (i # is) ex off =
    (let f = fs ! i; ex' = (ex \<and> gf_exported f); off' = off + gf_offset f
     in if is = [] then (True, ex', off')
        else case gf_type f of TStruct n fs' \<Rightarrow> resolve_path fs' is ex' off' | _ \<Rightarrow> (False, ex', off'))"

definition kind_size :: "leafkind \<Rightarrow> nat" where
  "kind_size k = (case k of KInt w \<Rightarrow> width_bytes w | KUint w \<Rightarrow> width_bytes w | _ \<Rightarrow> 0)"

definition resolveField :: "dyntype option \<Rightarrow> string \<Rightarrow> fieldInfo" where
  "resolveField typ name =
    (let fi = \<lparr>fi_typ = typ, fi_name = name, fi_usable = False, fi_kind = KOther, fi_size = 0, fi_exported = False, fi_offset = 0, fi_index = []\<rparr>
     in case typ of
       Some (DPtr u (TStruct n fs)) \<Rightarrow> (case FieldByName name [([], TStruct n fs)] of
           None \<Rightarrow> fi
         | Some (p, sf) \<Rightarrow> (case resolve_path fs p True 0 of (reached, ex, off) \<Rightarrow>
             if \<not> reached then fi\<lparr>fi_exported := ex\<rparr>
             else fi\<lparr>fi_exported := ex, fi_kind := kind_of (gf_type sf), fi_size := kind_size (kind_of (gf_type sf)),
                     fi_offset := off, fi_index := p, fi_usable := True\<rparr>))
     | _ \<Rightarrow> fi)"

section \<open>Reading a field\<close>

text \<open>What an interface holds: nothing, a pointer to a struct (nil: None), a struct, or something else.\<close>

datatype gobj = NilIface | PtrTo nat gotype "goval option" | StructOf nat gotype goval | OtherVal nat

definition type_of_obj :: "gobj \<Rightarrow> dyntype option" where
  "type_of_obj ob = (case ob of NilIface \<Rightarrow> None | PtrTo u T p \<Rightarrow> Some (DPtr u T) | StructOf u T v \<Rightarrow> Some (DStruct u T) | OtherVal n \<Rightarrow> Some (DOther n))"

text \<open>
  Whether the data word of an interface is nil; it is asked only of objects with a usable field,
  which hold a pointer, so what it says of structs and other values does not matter.
\<close>

definition isNilObject :: "gobj \<Rightarrow> bool" where
  "isNilObject ob = (case ob of NilIface \<Rightarrow> True | PtrTo u T p \<Rightarrow> p = None | StructOf u T v \<Rightarrow> False | OtherVal n \<Rightarrow> False)"

text \<open>The default build: what lies in memory at the offset; None where nothing of a known type does.\<close>

definition fieldPointer :: "gobj \<Rightarrow> fieldInfo \<Rightarrow> fval option" where
  "fieldPointer ob fi = (case ob of PtrTo u T (Some V) \<Rightarrow> map_of (cells T V 0) (fi_offset fi) | _ \<Rightarrow> None)"

text \<open>The build without package unsafe: the field at the index path.\<close>

definition fieldValue :: "gobj \<Rightarrow> fieldInfo \<Rightarrow> fval option" where
  "fieldValue ob fi = (case ob of PtrTo u T (Some V) \<Rightarrow> map_option leaf_of (field_by_index V (fi_index fi)) | _ \<Rightarrow> None)"

text \<open>
  The readers of both builds take the value as one of a type; anything else is undefined in the
  first build and a panic of reflect in the second. An integer is read by the size that the field
  info holds in the first build.
\<close>

definition readString :: "gobj \<Rightarrow> fieldInfo \<Rightarrow> bytes outcome" where
  "readString ob fi = (case fieldPointer ob fi of Some (VString s) \<Rightarrow> Ret s | _ \<Rightarrow> Panic)"
definition readStringPtr :: "gobj \<Rightarrow> fieldInfo \<Rightarrow> bytes option outcome" where
  "readStringPtr ob fi = (case fieldPointer ob fi of Some (VPtr b p) \<Rightarrow> if b then Ret p else Panic | _ \<Rightarrow> Panic)"
definition readPtrIsNil :: "gobj \<Rightarrow> fieldInfo \<Rightarrow> bool outcome" where
  "readPtrIsNil ob fi = (case fieldPointer ob fi of Some (VPtr b p) \<Rightarrow> Ret (p = None) | _ \<Rightarrow> Panic)"
definition readBool :: "gobj \<Rightarrow> fieldInfo \<Rightarrow> bool outcome" where
  "readBool ob fi = (case fieldPointer ob fi of Some (VBool b) \<Rightarrow> Ret b | _ \<Rightarrow> Panic)"
definition readInt :: "gobj \<Rightarrow> fieldInfo \<Rightarrow> uint64 outcome" where
  "readInt ob fi = (case fieldPointer ob fi of Some (VInt w x) \<Rightarrow> if fi_size fi = width_bytes w then Ret x else Panic | _ \<Rightarrow> Panic)"
definition readUint :: "gobj \<Rightarrow> fieldInfo \<Rightarrow> uint64 outcome" where
  "readUint ob fi = (case fieldPointer ob fi of Some (VUint w x) \<Rightarrow> if fi_size fi = width_bytes w then Ret x else Panic | _ \<Rightarrow> Panic)"
definition readStrings :: "gobj \<Rightarrow> fieldInfo \<Rightarrow> (bytes list \<times> bool) outcome" where
  "readStrings ob fi = (case fieldPointer ob fi of Some (VStrings ss) \<Rightarrow> Ret (ss, True) | _ \<Rightarrow> Panic)"
definition readStringMap :: "gobj \<Rightarrow> fieldInfo \<Rightarrow> ((bytes \<times> bytes) list \<times> bool) outcome" where
  "readStringMap ob fi = (case fieldPointer ob fi of Some (VMap b m) \<Rightarrow> if b then Ret (m, True) else Panic | _ \<Rightarrow> Panic)"

definition safe_readString :: "gobj \<Rightarrow> fieldInfo \<Rightarrow> bytes outcome" where
  "safe_readString ob fi = (case fieldValue ob fi of Some (VString s) \<Rightarrow> Ret s | _ \<Rightarrow> Panic)"
definition safe_readStringPtr :: "gobj \<Rightarrow> fieldInfo \<Rightarrow> bytes option outcome" where
  "safe_readStringPtr ob fi = (case fieldValue ob fi of Some (VPtr b p) \<Rightarrow> Ret p | _ \<Rightarrow> Panic)"
definition safe_readPtrIsNil :: "gobj \<Rightarrow> fieldInfo \<Rightarrow> bool outcome" where
  "safe_readPtrIsNil ob fi = (case fieldValue ob fi of Some (VPtr b p) \<Rightarrow> Ret (p = None) | _ \<Rightarrow> Panic)"
definition safe_readBool :: "gobj \<Rightarrow> fieldInfo \<Rightarrow> bool outcome" where
  "safe_readBool ob fi = (case fieldValue ob fi of Some (VBool b) \<Rightarrow> Ret b | _ \<Rightarrow> Panic)"
definition safe_readInt :: "gobj \<Rightarrow> fieldInfo \<Rightarrow> uint64 outcome" where
  "safe_readInt ob fi = (case fieldValue ob fi of Some (VInt w x) \<Rightarrow> Ret x | _ \<Rightarrow> Panic)"
definition safe_readUint :: "gobj \<Rightarrow> fieldInfo \<Rightarrow> uint64 outcome" where
  "safe_readUint ob fi = (case fieldValue ob fi of Some (VUint w x) \<Rightarrow> Ret x | _ \<Rightarrow> Panic)"
definition safe_readStrings :: "gobj \<Rightarrow> fieldInfo \<Rightarrow> (bytes list \<times> bool) outcome" where
  "safe_readStrings ob fi = Ret ([], False)"
definition safe_readStringMap :: "gobj \<Rightarrow> fieldInfo \<Rightarrow> ((bytes \<times> bytes) list \<times> bool) outcome" where
  "safe_readStringMap ob fi = Ret ([], False)"

section \<open>The object as the theory Extract describes it\<close>

text \<open>How a field is reached: whether the path goes through an embedded pointer.\<close>

definition sub_value :: "goval \<Rightarrow> nat \<Rightarrow> goval" where
  "sub_value v i = (case v of GStruct z vs \<Rightarrow> vs ! i | GPtr r (Some (GStruct z vs)) \<Rightarrow> vs ! i | _ \<Rightarrow> v)"

fun path_of :: "goval \<Rightarrow> nat list \<Rightarrow> path" where
  "path_of v [] = Direct"
| "path_of v (i # is) = (if is = [] then Direct else case sub_value v i of
     GPtr r None \<Rightarrow> ThroughNil
   | GPtr r (Some w) \<Rightarrow> (if path_of (GPtr r (Some w)) is = ThroughNil then ThroughNil else ThroughPtr)
   | w \<Rightarrow> path_of w is)"

fun path_exported :: "gotype \<Rightarrow> nat list \<Rightarrow> bool" where
  "path_exported t [] = True"
| "path_exported t (i # is) = (is = [] \<or> gf_exported (struct_fields t ! i) \<and> path_exported (gf_type (struct_fields t ! i)) is)"

definition field_at :: "(gotype \<Rightarrow> bytes) \<Rightarrow> gotype \<Rightarrow> goval \<Rightarrow> string \<Rightarrow> nat list \<times> gofield \<Rightarrow> field" where
  "field_at tn T V name res = (case res of (p, sf) \<Rightarrow>
     \<lparr>fd_name = name, fd_exported = gf_exported sf, fd_embed_exported = path_exported T p, fd_path = path_of V p,
      fd_type = tn (gf_type sf), fd_val = (case field_by_index V p of None \<Rightarrow> VSlice | Some w \<Rightarrow> leaf_of w)\<rparr>)"

primrec names :: "gotype \<Rightarrow> string list" and field_names :: "gofield \<Rightarrow> string list" where
  "names (TLeaf k n) = []"
| "names (TStruct n fs) = concat (map field_names fs)"
| "names (TPtrStruct t) = names t"
| "field_names (GoField nm ex em off t) = nm # names t"

definition fields_of :: "(gotype \<Rightarrow> bytes) \<Rightarrow> gotype \<Rightarrow> goval \<Rightarrow> field list" where
  "fields_of tn T V = concat (map (\<lambda>nm. case FieldByName nm [([], T)] of None \<Rightarrow> [] | Some m \<Rightarrow> [field_at tn T V nm m]) (remdups (names T)))"

definition obj_of :: "(gotype \<Rightarrow> bytes) \<Rightarrow> gobj \<Rightarrow> obj" where
  "obj_of tn ob = (case ob of NilIface \<Rightarrow> ONil | PtrTo u T p \<Rightarrow> (case p of None \<Rightarrow> ONilPtr u | Some V \<Rightarrow> OPtr u (fields_of tn T V))
     | StructOf u T V \<Rightarrow> OStruct u (fields_of tn T V) | OtherVal n \<Rightarrow> OOther)"

definition gobj_ok :: "gobj \<Rightarrow> bool" where
  "gobj_ok ob = (case ob of PtrTo u T (Some V) \<Rightarrow> (\<exists>n fs. T = TStruct n fs) \<and> has_type T V \<and> layout_ok T | _ \<Rightarrow> True)"

section \<open>Where a field is in memory\<close>

lemma field_type_has: "field_type f v = has_type (gf_type f) v" and field_layout_ok: "field_layout f = layout_ok (gf_type f)"
  and field_cells_eq: "field_cells f v base = cells (gf_type f) v (base + gf_offset f)"
  by (cases f; simp)+

lemma list_all_layout: "list_all (\<lambda>b. b) (map field_layout fs) = list_all (\<lambda>f. layout_ok (gf_type f)) fs"
  by (induction fs) (simp_all add: field_layout_ok)

lemma has_type_struct: "has_type (TStruct n fs) v \<longleftrightarrow> (\<exists>z vs. v = GStruct z vs \<and> list_all2 (\<lambda>f. has_type (gf_type f)) fs vs)"
  by (cases v) (auto simp: list_all2_map1 field_type_has)

lemma cells_struct: "cells (TStruct n fs) (GStruct z vs) base = concat (map2 (\<lambda>f x. cells (gf_type f) x (base + gf_offset f)) fs vs)"
  by (simp add: zip_map1 comp_def case_prod_unfold field_cells_eq)

lemma in_order_ge: "in_order s rs n \<Longrightarrow> (off, sz) \<in> set rs \<Longrightarrow> s \<le> off \<and> off + sz \<le> n"
proof (induction s rs n rule: in_order.induct)
  case (2 start o1 s1 r n)
  have "o1 + s1 \<le> n" using "2.prems"(1) by (induction r arbitrary: o1 s1) (auto, metis add_leD1 le_trans)
  then show ?case using 2 by fastforce
qed simp

lemma in_order_disjoint:
  "in_order s rs n \<Longrightarrow> i < j \<Longrightarrow> j < length rs \<Longrightarrow> fst (rs ! i) + snd (rs ! i) \<le> fst (rs ! j)"
proof (induction s rs n arbitrary: i j rule: in_order.induct)
  case (2 start o1 s1 r n)
  show ?case
  proof (cases i)
    case 0
    then have "rs ! (j - 1) \<in> set rs" if "rs = r" for rs using "2.prems" that by simp
    then show ?thesis using 0 in_order_ge [of "o1 + s1" r n "fst (r ! (j - 1))" "snd (r ! (j - 1))"] "2.prems" by (simp add: nth_Cons')
  next
    case (Suc i')
    then show ?thesis using "2.IH" [of i' "j - 1"] "2.prems" by (auto simp: nth_Cons')
  qed
qed simp

text \<open>A value's cells lie within its size.\<close>

lemma cells_range:
  "layout_ok t \<Longrightarrow> a \<in> fst ` set (cells t v base) \<Longrightarrow> base \<le> a \<and> a < base + size_of t"
  "field_layout f \<Longrightarrow> a \<in> fst ` set (field_cells f v base) \<Longrightarrow> base + gf_offset f \<le> a \<and> a < base + gf_offset f + size_of (gf_type f)"
proof (induction t and f arbitrary: a v base and a v base)
  case (TLeaf k n)
  then show ?case by (auto simp: size_of_def split: if_splits)
next
  case (TStruct n fs)
  then obtain z vs where v: "v = GStruct z vs" by (cases v) auto
  obtain f x where f: "(f, x) \<in> set (zip fs vs)" "a \<in> fst ` set (field_cells f x base)"
    using TStruct.prems(2) by (auto simp: v zip_map1)
  then have m: "f \<in> set fs" by (auto dest: set_zip_leftD)
  have "field_layout f" using TStruct.prems(1) m by (auto simp: list_all_iff)
  from TStruct.IH [OF m this f(2)] show ?case
    using in_order_ge [of 0 _ n "gf_offset f" "size_of (gf_type f)"] TStruct.prems(1) m by (fastforce simp: size_of_def)
next
  case (TPtrStruct t)
  then show ?case by (simp add: size_of_def)
next
  case (GoField nm ex em off t)
  then show ?case by simp
qed

lemma map_of_concat_only:
  "i < length xss \<Longrightarrow> (\<And>j. j < length xss \<Longrightarrow> j \<noteq> i \<Longrightarrow> a \<notin> fst ` set (xss ! j)) \<Longrightarrow> map_of (concat xss) a = map_of (xss ! i) a"
proof (induction xss arbitrary: i)
  case (Cons xs xss)
  show ?case
  proof (cases i)
    case 0
    have "a \<notin> fst ` set (xss ! j)" if "j < length xss" for j using Cons.prems(2) [of "Suc j"] that 0 by simp
    then have "a \<notin> fst ` set (concat xss)" by (auto simp: in_set_conv_nth) (metis fst_conv image_eqI nth_mem)
    then have "map_of (concat xss) a = None" by (simp add: map_of_eq_None_iff)
    then show ?thesis using 0 by (simp add: map_add_def split: option.split)
  next
    case (Suc k)
    have "a \<notin> fst ` set xs" using Cons.prems(2) [of 0] Suc by simp
    moreover have "map_of (concat xss) a = map_of (xss ! k) a"
      using Cons.IH [of k] Cons.prems Suc by (metis Suc_less_eq length_Cons nat.inject nth_Cons_Suc)
    ultimately show ?thesis using Suc by (simp add: map_add_def map_of_eq_None_iff [THEN iffD2] split: option.split)
  qed
qed simp

lemma struct_cell:
  assumes ty: "list_all2 (\<lambda>f. has_type (gf_type f)) fs vs" and lay: "layout_ok (TStruct n fs)" and i: "i < length fs"
    and a: "map_of (cells (gf_type (fs ! i)) (vs ! i) (base + gf_offset (fs ! i))) a = Some x"
  shows "map_of (cells (TStruct n fs) (GStruct z vs) base) a = Some x"
proof -
  let ?xss = "map2 (\<lambda>f x. cells (gf_type f) x (base + gf_offset f)) fs vs" and ?rs = "map (\<lambda>f. (gf_offset f, size_of (gf_type f))) fs"
  have len: "length vs = length fs" using ty by (simp add: list_all2_lengthD)
  have ord: "in_order 0 ?rs n" and ok: "\<And>j. j < length fs \<Longrightarrow> layout_ok (gf_type (fs ! j))"
    using lay by (simp_all add: list_all_length field_layout_ok)
  have nth: "?xss ! j = cells (gf_type (fs ! j)) (vs ! j) (base + gf_offset (fs ! j))" if "j < length fs" for j
    using that len by simp
  have ri: "base + gf_offset (fs ! i) \<le> a \<and> a < base + gf_offset (fs ! i) + size_of (gf_type (fs ! i))"
    using cells_range(1) [OF ok [OF i]] a by (metis domI dom_map_of_conv_image_fst)
  have "a \<notin> fst ` set (?xss ! j)" if "j < length ?xss" "j \<noteq> i" for j
  proof
    assume "a \<in> fst ` set (?xss ! j)"
    then have rj: "base + gf_offset (fs ! j) \<le> a \<and> a < base + gf_offset (fs ! j) + size_of (gf_type (fs ! j))"
      using cells_range(1) [OF ok] nth that(1) len by simp
    show False using in_order_disjoint [OF ord, of i j] in_order_disjoint [OF ord, of j i] ri rj that i len by (cases "i < j") auto
  qed
  then have "map_of (concat ?xss) a = map_of (?xss ! i) a" by (intro map_of_concat_only) (use i len in auto)
  then show ?thesis using a nth [OF i] by (simp only: cells_struct)
qed

section \<open>What FieldByName finds\<close>

fun field_path :: "gotype \<Rightarrow> nat list \<Rightarrow> gofield option" where
  "field_path t [] = None"
| "field_path t (i # is) = (if i < length (struct_fields t)
     then if is = [] then Some (struct_fields t ! i) else field_path (gf_type (struct_fields t ! i)) is else None)"

lemma field_path_append:
  "field_path t p = Some f \<Longrightarrow> i < length (struct_fields (gf_type f)) \<Longrightarrow> field_path t (p @ [i]) = Some (struct_fields (gf_type f) ! i)"
  by (induction t p rule: field_path.induct) (auto split: if_splits)

text \<open>The nodes of a search: the root, or embedded fields of it.\<close>

definition node_of :: "gotype \<Rightarrow> nat list \<times> gotype \<Rightarrow> bool" where
  "node_of T x = (case x of (p, t) \<Rightarrow> p = [] \<and> t = T \<or> (\<exists>f. field_path T p = Some f \<and> t = gf_type f))"

lemma node_field: "node_of T (p, t) \<Longrightarrow> i < length (struct_fields t) \<Longrightarrow> field_path T (p @ [i]) = Some (struct_fields t ! i)"
  by (auto simp: node_of_def field_path_append)

lemma FieldByName_path:
  "FieldByName name nodes = Some (p, sf) \<Longrightarrow> \<forall>x\<in>set nodes. node_of T x \<Longrightarrow> field_path T p = Some sf \<and> gf_name sf = name"
proof (induction name nodes rule: FieldByName.induct)
  case (1 name nodes)
  have m: "field_path T q = Some f \<and> gf_name f = name" if "(q, f) \<in> set (level_matches name nodes)" for q f
    using that "1.prems"(2) by (auto simp: level_matches_def node_field)
  have n: "\<forall>x\<in>set (next_level nodes). node_of T x"
    using "1.prems"(2) by (auto simp: next_level_def node_of_def field_path_append)
  show ?case
  proof (cases "level_matches name nodes")
    case Nil
    then show ?thesis using 1 n by (simp add: FieldByName.simps [of name nodes] split: if_splits)
  next
    case (Cons x xs)
    then have "x = (p, sf)" using "1.prems"(1) by (cases xs) (simp_all add: FieldByName.simps [of name nodes] split: if_splits)
    then show ?thesis using m [of p sf] Cons by simp
  qed
qed

lemma struct_fields_names: "f \<in> set (struct_fields t) \<Longrightarrow> gf_name f \<in> set (names t) \<and> set (names (gf_type f)) \<subseteq> set (names t)"
proof -
  have f: "gf_name f \<in> set (field_names f) \<and> set (names (gf_type f)) \<subseteq> set (field_names f)" for f by (cases f) auto
  have st: "gf_name f \<in> set (names (TStruct n fs)) \<and> set (names (gf_type f)) \<subseteq> set (names (TStruct n fs))" if "f \<in> set fs" for n fs
    using f [of f] that by simp blast
  assume m: "f \<in> set (struct_fields t)"
  then consider n fs where "t = TStruct n fs" "f \<in> set fs" | n fs where "t = TPtrStruct (TStruct n fs)" "f \<in> set fs"
    by (auto simp: struct_fields_def split: gotype.splits)
  then show ?thesis
  proof cases
    case 1
    show ?thesis unfolding 1(1) by (rule st [OF 1(2)])
  next
    case 2
    show ?thesis unfolding 2(1) names.simps(3) by (rule st [OF 2(2)])
  qed
qed

lemma field_path_names: "field_path t p = Some f \<Longrightarrow> gf_name f \<in> set (names t)"
proof (induction t p rule: field_path.induct)
  case (2 t i "is")
  then show ?case using struct_fields_names [OF nth_mem, of i t] by (auto split: if_splits)
qed simp

lemma find_field:
  "find (\<lambda>f. fd_name f = name) (fields_of tn T V) = map_option (field_at tn T V name) (FieldByName name [([], T)])"
proof -
  let ?g = "\<lambda>nm. case FieldByName nm [([], T)] of None \<Rightarrow> [] | Some m \<Rightarrow> [field_at tn T V nm m]"
  have nm: "fd_name (field_at tn T V n m) = n" for n m by (simp add: field_at_def split: prod.split)
  have g: "find (\<lambda>f. fd_name f = name) (concat (map ?g ns)) =
      (if name \<in> set ns then map_option (field_at tn T V name) (FieldByName name [([], T)]) else None)" for ns
    by (induction ns) (auto simp: nm split: option.splits)
  have "name \<in> set (names T)" if "FieldByName name [([], T)] = Some m" for m
  proof -
    obtain p sf where m: "m = (p, sf)" by (cases m)
    show ?thesis using FieldByName_path [of name "[([], T)]" p sf T] field_path_names [of T p sf] that m by (simp add: node_of_def)
  qed
  then show ?thesis unfolding fields_of_def g by (cases "FieldByName name [([], T)]") auto
qed

section \<open>The path of a usable field\<close>

lemma path_of_struct: "path_of (GStruct z vs) (i # is) = (if is = [] then Direct else case vs ! i of
     GPtr r None \<Rightarrow> ThroughNil
   | GPtr r (Some w) \<Rightarrow> (if path_of (GPtr r (Some w)) is = ThroughNil then ThroughNil else ThroughPtr)
   | w \<Rightarrow> path_of w is)"
  by (simp add: sub_value_def)

declare path_of.simps(2) [simp del]

lemma walk:
  assumes "field_path (TStruct n fs) p = Some sf" and "has_type (TStruct n fs) V" and "layout_ok (TStruct n fs)"
    and "resolve_path fs p ex off = (reached, ex', off')"
  shows "(reached \<longleftrightarrow> path_of V p = Direct) \<and>
    (reached \<longrightarrow> ex' = (ex \<and> path_exported (TStruct n fs) p \<and> gf_exported sf) \<and>
      (\<exists>w d. field_by_index V p = Some w \<and> has_type (gf_type sf) w \<and> off' = off + d \<and>
        (kind_of (gf_type sf) \<noteq> KOther \<longrightarrow> map_of (cells (TStruct n fs) V base) (base + d) = Some (leaf_of w))))"
  using assms
proof (induction p arbitrary: n fs V ex off base)
  case (Cons i p)
  have sf: "struct_fields (TStruct n fs) = fs" by (simp add: struct_fields_def)
  obtain z vs where V: "V = GStruct z vs" and ty: "list_all2 (\<lambda>f. has_type (gf_type f)) fs vs"
    using Cons.prems(2) unfolding has_type_struct by blast
  have i: "i < length fs" using Cons.prems(1) by (simp add: sf split: if_splits)
  have len: "length vs = length fs" using ty by (simp add: list_all2_lengthD)
  have hi: "has_type (gf_type (fs ! i)) (vs ! i)" using ty i by (rule list_all2_nthD)
  have li: "layout_ok (gf_type (fs ! i))" using Cons.prems(3) i by (simp add: list_all_length field_layout_ok)
  show ?case
  proof (cases p)
    case Nil
    then have s: "sf = fs ! i" using Cons.prems(1) by (simp add: sf i)
    have "map_of (cells (TStruct n fs) V base) (base + gf_offset sf) = Some (leaf_of (vs ! i))" if "kind_of (gf_type sf) \<noteq> KOther"
    proof -
      have "map_of (cells (gf_type (fs ! i)) (vs ! i) (base + gf_offset (fs ! i))) (base + gf_offset (fs ! i)) = Some (leaf_of (vs ! i))"
        using that li s by (cases "gf_type (fs ! i)") (auto simp: kind_of_def)
      then show ?thesis unfolding V s by (rule struct_cell [OF ty Cons.prems(3) i])
    qed
    then show ?thesis using Cons.prems(4) Nil V s hi i len by (auto simp: Let_def path_of_struct)
  next
    case (Cons j p')
    have fp: "field_path (gf_type (fs ! i)) p = Some sf" using Cons.prems(1) Cons i by (simp add: sf)
    show ?thesis
    proof (cases "gf_type (fs ! i)")
      case (TStruct m gs)
      obtain z' ws where w: "vs ! i = GStruct z' ws" using hi unfolding TStruct has_type_struct by blast
      have run: "resolve_path gs p (ex \<and> gf_exported (fs ! i)) (off + gf_offset (fs ! i)) = (reached, ex', off')"
        using Cons.prems(4) Cons TStruct by (simp add: Let_def)
      note ih = Cons.IH [OF fp [unfolded TStruct] hi [unfolded TStruct] li [unfolded TStruct] run, of "base + gf_offset (fs ! i)"]
      have po: "path_of V (i # p) = path_of (vs ! i) p" using Cons V w by (simp add: path_of_struct)
      show ?thesis
      proof (cases reached)
        case True
        then obtain w' d where d: "field_by_index (vs ! i) p = Some w'" "has_type (gf_type sf) w'" "off' = off + gf_offset (fs ! i) + d"
            "kind_of (gf_type sf) \<noteq> KOther \<longrightarrow> map_of (cells (TStruct m gs) (vs ! i) (base + gf_offset (fs ! i))) (base + gf_offset (fs ! i) + d) = Some (leaf_of w')"
          using ih by blast
        have c: "map_of (cells (TStruct n fs) V base) (base + (gf_offset (fs ! i) + d)) = Some (leaf_of w')" if "kind_of (gf_type sf) \<noteq> KOther"
          unfolding V using struct_cell [OF ty Cons.prems(3) i, of base "base + (gf_offset (fs ! i) + d)" "leaf_of w'" z] d(4) that TStruct
          by (simp add: add.assoc)
        have "ex' = (ex \<and> path_exported (TStruct n fs) (i # p) \<and> gf_exported sf)"
          using ih True Cons TStruct by (auto simp: sf)
        then show ?thesis using ih True po d(1-3) c V i len by (intro conjI impI exI [of _ w'] exI [of _ "gf_offset (fs ! i) + d"]) auto
      next
        case False
        then show ?thesis using ih po by simp
      qed
    next
      case (TPtrStruct t)
      then obtain r q where w: "vs ! i = GPtr r q" using hi by (cases "vs ! i") auto
      have "\<not> reached" using Cons.prems(4) Cons TPtrStruct by (simp add: Let_def)
      moreover have "path_of V (i # p) \<noteq> Direct" using Cons V w by (cases q) (simp_all add: path_of_struct)
      ultimately show ?thesis by simp
    next
      case (TLeaf k m)
      then show ?thesis using fp Cons by (simp add: struct_fields_def)
    qed
  qed
qed simp

section \<open>Both builds read the same\<close>

text \<open>What resolveField makes of a pointer to a struct.\<close>

lemma resolve_struct:
  "resolveField (Some (DPtr u (TStruct n fs))) name = (case FieldByName name [([], TStruct n fs)] of
     None \<Rightarrow> resolveField (Some (DOther 0)) name\<lparr>fi_typ := Some (DPtr u (TStruct n fs))\<rparr>
   | Some (p, sf) \<Rightarrow> (case resolve_path fs p True 0 of (reached, ex, off) \<Rightarrow>
       \<lparr>fi_typ = Some (DPtr u (TStruct n fs)), fi_name = name, fi_usable = reached,
        fi_kind = (if reached then kind_of (gf_type sf) else KOther), fi_size = (if reached then kind_size (kind_of (gf_type sf)) else 0),
        fi_exported = ex, fi_offset = (if reached then off else 0), fi_index = (if reached then p else [])\<rparr>))"
  by (simp add: resolveField_def Let_def split: option.split prod.split)

text \<open>
  What a build promises: \<open>rd\<close> reads the field that reflection finds, for every field resolveField
  has found usable, in an object whose memory is laid out as its type says.
\<close>

locale field_build =
  fixes rd :: "gobj \<Rightarrow> fieldInfo \<Rightarrow> fval option"
  assumes rd_law: "has_type (TStruct n fs) V \<Longrightarrow> layout_ok (TStruct n fs) \<Longrightarrow> field_path (TStruct n fs) p = Some sf \<Longrightarrow>
      resolve_path fs p True 0 = (True, ex, off) \<Longrightarrow> field_by_index V p = Some w \<Longrightarrow> kind_of (gf_type sf) \<noteq> KOther \<Longrightarrow>
      fi_offset fi = off \<Longrightarrow> fi_index fi = p \<Longrightarrow> rd (PtrTo u (TStruct n fs) (Some V)) fi = Some (leaf_of w)"
begin

lemma described:
  assumes ok: "gobj_ok ob" and f: "usable_field (obj_of tn ob) name = Some f"
  defines "fi \<equiv> resolveField (type_of_obj ob) name"
  shows "fits (fi_kind fi) (fd_val f) \<and> fi_size fi = kind_size (fi_kind fi) \<and> (fi_kind fi \<noteq> KOther \<longrightarrow> rd ob fi = Some (fd_val f))"
proof -
  obtain u T V where ob: "ob = PtrTo u T (Some V)"
    using f by (auto simp: usable_field_def obj_of_def split: gobj.splits option.splits)
  obtain n fs where T: "T = TStruct n fs" and ty: "has_type (TStruct n fs) V" and lay: "layout_ok (TStruct n fs)"
    using ok by (auto simp: gobj_ok_def ob)
  obtain p sf where found: "FieldByName name [([], TStruct n fs)] = Some (p, sf)" and fd: "f = field_at tn T V name (p, sf)" "fd_path f = Direct"
    using f by (auto simp: usable_field_def obj_of_def ob T find_field split: if_splits option.splits)
  have fp: "field_path (TStruct n fs) p = Some sf" using FieldByName_path [OF found] by (simp add: node_of_def)
  obtain reached ex off where rp: "resolve_path fs p True 0 = (reached, ex, off)" by (metis prod_cases3)
  note W = walk [OF fp ty lay rp, of 0]
  have r: reached using W fd by (simp add: field_at_def)
  then obtain w where w: "field_by_index V p = Some w" "has_type (gf_type sf) w" using W by blast
  have fi: "fi = \<lparr>fi_typ = Some (DPtr u T), fi_name = name, fi_usable = True, fi_kind = kind_of (gf_type sf),
      fi_size = kind_size (kind_of (gf_type sf)), fi_exported = ex, fi_offset = off, fi_index = p\<rparr>"
    using found rp r by (simp add: fi_def ob T type_of_obj_def resolve_struct)
  have v: "fd_val f = leaf_of w" using fd(1) w(1) by (simp add: field_at_def)
  have "fits (kind_of (gf_type sf)) (leaf_of w)"
    using w(2) by (cases "gf_type sf") (auto simp: kind_of_def leaf_of_def split: goval.splits)
  then show ?thesis using rd_law [OF ty lay fp rp [unfolded r [THEN eqTrueI]] w(1)] fi v ob T by auto
qed

end

interpretation unsafe_build: field_build fieldPointer
proof
  fix n fs V p sf ex off w u and fi :: fieldInfo
  assume a: "has_type (TStruct n fs) V" "layout_ok (TStruct n fs)" "field_path (TStruct n fs) p = Some sf"
    "resolve_path fs p True 0 = (True, ex, off)" "field_by_index V p = Some w" "kind_of (gf_type sf) \<noteq> KOther" "fi_offset fi = off"
  show "fieldPointer (PtrTo u (TStruct n fs) (Some V)) fi = Some (leaf_of w)"
    using walk [OF a(3,1,2,4), of 0] a(5-7) by (auto simp: fieldPointer_def)
qed

interpretation safe_build: field_build fieldValue
  by unfold_locales (simp add: fieldValue_def)

text \<open>What the readers of both builds return for a field that holds the value \<open>v\<close>.\<close>

definition reads :: "gobj \<Rightarrow> fieldInfo \<Rightarrow> fval \<Rightarrow> bool" where
  "reads ob fi v = (case v of
     VString s \<Rightarrow> fi_kind fi = KString \<and> readString ob fi = Ret s \<and> safe_readString ob fi = Ret s
   | VPtr b p \<Rightarrow> fi_kind fi = KPtr b \<and> readPtrIsNil ob fi = Ret (p = None) \<and> safe_readPtrIsNil ob fi = Ret (p = None) \<and>
       (b \<longrightarrow> readStringPtr ob fi = Ret p \<and> safe_readStringPtr ob fi = Ret p)
   | VInt w x \<Rightarrow> fi_kind fi = KInt w \<and> fi_size fi = width_bytes w \<and> readInt ob fi = Ret x \<and> safe_readInt ob fi = Ret x
   | VUint w x \<Rightarrow> fi_kind fi = KUint w \<and> fi_size fi = width_bytes w \<and> readUint ob fi = Ret x \<and> safe_readUint ob fi = Ret x
   | VBool b \<Rightarrow> fi_kind fi = KBool \<and> readBool ob fi = Ret b \<and> safe_readBool ob fi = Ret b
   | VStrings ss \<Rightarrow> fi_kind fi = KStrings \<and> readStrings ob fi = Ret (ss, True) \<and> safe_readStrings ob fi = Ret ([], False)
   | VMap e m \<Rightarrow> fi_kind fi = KMap e \<and> (e \<longrightarrow> readStringMap ob fi = Ret (m, True)) \<and> safe_readStringMap ob fi = Ret ([], False)
   | VSlice \<Rightarrow> fi_kind fi = KSlice
   | VOther z \<Rightarrow> fi_kind fi = KOther)"

lemma fits_reads:
  assumes "fits (fi_kind fi) v" and "fi_size fi = kind_size (fi_kind fi)"
    and "fi_kind fi \<noteq> KOther \<longrightarrow> fieldPointer ob fi = Some v \<and> fieldValue ob fi = Some v"
  shows "reads ob fi v"
  using assms
  by (cases "fi_kind fi") (auto simp: reads_def readString_def safe_readString_def readPtrIsNil_def safe_readPtrIsNil_def readStringPtr_def
    safe_readStringPtr_def readInt_def safe_readInt_def readUint_def safe_readUint_def readBool_def safe_readBool_def readStrings_def
    safe_readStrings_def readStringMap_def safe_readStringMap_def kind_size_def)

text \<open>
  C24: field access is memory safe and agrees with reflection. Whatever struct type an object has,
  with embedded structs, promoted and shadowed names, and whatever its memory layout, resolveField
  finds the field usable exactly when reflection finds one that is not behind an embedded pointer,
  and then the offset it has added up holds a value of exactly the type that the reader of the
  default build takes it for: the unsafe read returns what the field holds, and so does the
  reader of the reflection-only build (which leaves slices and maps to the exported methods).
\<close>
theorem field_access:
  assumes "gobj_ok ob"
  shows "case usable_field (obj_of tn ob) name of
      None \<Rightarrow> \<not> (fi_usable (resolveField (type_of_obj ob) name) \<and> \<not> isNilObject ob)
    | Some f \<Rightarrow> fi_usable (resolveField (type_of_obj ob) name) \<and> \<not> isNilObject ob \<and>
        fi_exported (resolveField (type_of_obj ob) name) = (fd_exported f \<and> fd_embed_exported f) \<and>
        reads ob (resolveField (type_of_obj ob) name) (fd_val f)"
proof -
  let ?fi = "resolveField (type_of_obj ob) name"
  show ?thesis
  proof (cases "\<exists>u T V. ob = PtrTo u T (Some V)")
    case False
    then have "usable_field (obj_of tn ob) name = None" by (auto simp: usable_field_def obj_of_def split: gobj.split option.split)
    moreover have "\<not> (fi_usable ?fi \<and> \<not> isNilObject ob)"
      using False by (cases ob) (auto simp: type_of_obj_def resolveField_def isNilObject_def split: option.split)
    ultimately show ?thesis by simp
  next
    case True
    then obtain u T V where ob: "ob = PtrTo u T (Some V)" by blast
    obtain n fs where T: "T = TStruct n fs" and ty: "has_type (TStruct n fs) V" and lay: "layout_ok (TStruct n fs)"
      using assms by (auto simp: gobj_ok_def ob)
    have fi: "?fi = resolveField (Some (DPtr u (TStruct n fs))) name" by (simp add: ob T type_of_obj_def)
    show ?thesis
    proof (cases "FieldByName name [([], TStruct n fs)]")
      case None
      then show ?thesis by (simp add: fi ob T resolve_struct usable_field_def obj_of_def find_field) (simp add: resolveField_def type_of_obj_def)
    next
      case (Some m)
      obtain p sf where m: "m = (p, sf)" by (cases m)
      have fp: "field_path (TStruct n fs) p = Some sf" using FieldByName_path [of name _ p sf "TStruct n fs"] Some m by (simp add: node_of_def)
      obtain reached ex off where rp: "resolve_path fs p True 0 = (reached, ex, off)" by (metis prod_cases3)
      note W = walk [OF fp ty lay rp, of 0]
      have uf: "usable_field (obj_of tn ob) name = (if reached then Some (field_at tn (TStruct n fs) V name (p, sf)) else None)"
        using W Some m by (simp add: ob T usable_field_def obj_of_def find_field) (simp add: field_at_def)
      show ?thesis
      proof (cases reached)
        case False
        then show ?thesis using uf fi Some m rp by (simp add: resolve_struct)
      next
        case True
        let ?f = "field_at tn (TStruct n fs) V name (p, sf)"
        have u: "usable_field (obj_of tn ob) name = Some ?f" using uf True by simp
        have "reads ob ?fi (fd_val ?f)" using unsafe_build.described [OF assms u] safe_build.described [OF assms u] by (intro fits_reads) auto
        moreover have "fi_usable ?fi \<and> fi_exported ?fi = (fd_exported ?f \<and> fd_embed_exported ?f)"
          using W True Some m rp by (auto simp: fi resolve_struct field_at_def)
        ultimately show ?thesis using u by (simp add: ob isNilObject_def)
      qed
    qed
  qed
qed

text \<open>An object with a promoted field behind padding.\<close>

definition sample_struct :: gotype where
  "sample_struct = TStruct 32 [GoField ''Base'' True True 0 (TStruct 8 [GoField ''Flag'' True False 0 (TLeaf KBool 1),
       GoField ''Age'' True False 4 (TLeaf (KInt W32) 4)]), GoField ''Name'' True False 8 (TLeaf KString 16)]"

definition sample_value :: goval where
  "sample_value = GStruct None [GStruct None [GLeaf (VBool True), GLeaf (VInt W32 41)], GLeaf (VString [97])]"

lemma field_access_witness:
  "readInt (PtrTo 0 sample_struct (Some sample_value)) (resolveField (Some (DPtr 0 sample_struct)) ''Age'') = Ret 41"
proof -
  have ok: "gobj_ok (PtrTo 0 sample_struct (Some sample_value))"
    by (auto simp: gobj_ok_def sample_struct_def sample_value_def size_of_def)
  have m: "FieldByName ''Age'' [([], sample_struct)] = Some ([0, 1], GoField ''Age'' True False 4 (TLeaf (KInt W32) 4))"
    by code_simp
  have "usable_field (obj_of (\<lambda>_. []) (PtrTo 0 sample_struct (Some sample_value))) ''Age'' =
      Some (field_at (\<lambda>_. []) sample_struct sample_value ''Age'' ([0, 1], GoField ''Age'' True False 4 (TLeaf (KInt W32) 4)))"
    using m by (simp add: usable_field_def obj_of_def find_field) (simp add: field_at_def sample_value_def path_of.simps(2) sub_value_def)
  then show ?thesis
    using field_access [OF ok, where tn = "\<lambda>_. []" and name = "''Age''"] by (simp add: reads_def field_at_def sample_value_def leaf_of_def type_of_obj_def)
qed

section \<open>The caches of field resolutions\<close>

text \<open>
  The cache all extractors share, 512 entries addressed by a hash of type and name, and the
  one-entry caches of the extractors that have one. Loads and stores are atomic, everything else
  of a lookup interleaves with the lookups of other goroutines. \<open>th\<close> is typeHash.
\<close>

unbundle bit_operations_syntax

definition cache_slot :: "(dyntype option \<Rightarrow> uint64) \<Rightarrow> dyntype option \<Rightarrow> string \<Rightarrow> nat" where
  "cache_slot th typ name = (let h = fold (\<lambda>c h. h * 31 + of_char c) name (th typ) in unat ((h XOR drop_bit 9 h) mod 512))"

text \<open>
  Where a goroutine is in fieldOf: about to look at its extractor's own cache, then, in lookupField,
  at the shared one (with the extractor whose cache is to be filled, if any), resolving, storing,
  or done with the result.
\<close>

datatype lookup =
    LIdle
  | LOwn nat "dyntype option" string
  | LSlot "nat option" "dyntype option" string
  | LResolve "nat option" "dyntype option" string
  | LStoreSlot "nat option" "dyntype option" string fieldInfo
  | LStoreOwn nat "dyntype option" string fieldInfo
  | LDone "dyntype option" string fieldInfo

record caches =
  cc_slots :: "nat \<Rightarrow> fieldInfo option"
  cc_own :: "nat \<Rightarrow> fieldInfo option"
  cc_at :: "nat \<Rightarrow> lookup"

definition hit :: "fieldInfo option \<Rightarrow> dyntype option \<Rightarrow> string \<Rightarrow> bool" where
  "hit f typ name = (case f of None \<Rightarrow> False | Some fi \<Rightarrow> fi_typ fi = typ \<and> fi_name fi = name)"

text \<open>What follows when lookupField has returned.\<close>

definition looked_up :: "nat option \<Rightarrow> dyntype option \<Rightarrow> string \<Rightarrow> fieldInfo \<Rightarrow> lookup" where
  "looked_up e typ name fi = (case e of None \<Rightarrow> LDone typ name fi | Some x \<Rightarrow> LStoreOwn x typ name fi)"

inductive look_step :: "(dyntype option \<Rightarrow> uint64) \<Rightarrow> caches \<Rightarrow> caches \<Rightarrow> bool" for th where
  call: "cc_at c g \<in> {LIdle, LDone t n fi} \<Longrightarrow> look_step th c (c\<lparr>cc_at := (cc_at c)(g := LOwn e typ name)\<rparr>)"
| call_throw_away: "cc_at c g \<in> {LIdle, LDone t n fi} \<Longrightarrow> look_step th c (c\<lparr>cc_at := (cc_at c)(g := LSlot None typ name)\<rparr>)"
| own_hit: "cc_at c g = LOwn e typ name \<Longrightarrow> cc_own c e = Some fi \<Longrightarrow> hit (Some fi) typ name \<Longrightarrow>
    look_step th c (c\<lparr>cc_at := (cc_at c)(g := LDone typ name fi)\<rparr>)"
| own_miss: "cc_at c g = LOwn e typ name \<Longrightarrow> \<not> hit (cc_own c e) typ name \<Longrightarrow>
    look_step th c (c\<lparr>cc_at := (cc_at c)(g := LSlot (Some e) typ name)\<rparr>)"
| slot_hit: "cc_at c g = LSlot e typ name \<Longrightarrow> cc_slots c (cache_slot th typ name) = Some fi \<Longrightarrow> hit (Some fi) typ name \<Longrightarrow>
    look_step th c (c\<lparr>cc_at := (cc_at c)(g := looked_up e typ name fi)\<rparr>)"
| slot_miss: "cc_at c g = LSlot e typ name \<Longrightarrow> \<not> hit (cc_slots c (cache_slot th typ name)) typ name \<Longrightarrow>
    look_step th c (c\<lparr>cc_at := (cc_at c)(g := LResolve e typ name)\<rparr>)"
| resolved: "cc_at c g = LResolve e typ name \<Longrightarrow>
    look_step th c (c\<lparr>cc_at := (cc_at c)(g := LStoreSlot e typ name (resolveField typ name))\<rparr>)"
| store_slot: "cc_at c g = LStoreSlot e typ name fi \<Longrightarrow>
    look_step th c (c\<lparr>cc_slots := (cc_slots c)(cache_slot th typ name := Some fi), cc_at := (cc_at c)(g := looked_up e typ name fi)\<rparr>)"
| store_own: "cc_at c g = LStoreOwn e typ name fi \<Longrightarrow>
    look_step th c (c\<lparr>cc_own := (cc_own c)(e := Some fi), cc_at := (cc_at c)(g := LDone typ name fi)\<rparr>)"

definition no_caches :: caches where
  "no_caches = \<lparr>cc_slots = (\<lambda>_. None), cc_own = (\<lambda>_. None), cc_at = (\<lambda>_. LIdle)\<rparr>"

text \<open>Every entry, and every result on its way, is what resolveField returns for its type and name.\<close>

definition entry_ok :: "fieldInfo \<Rightarrow> bool" where
  "entry_ok fi \<longleftrightarrow> fi = resolveField (fi_typ fi) (fi_name fi)"

definition lookup_ok :: "lookup \<Rightarrow> bool" where
  "lookup_ok l = (case l of LStoreSlot e typ name fi \<Rightarrow> fi = resolveField typ name | LStoreOwn e typ name fi \<Rightarrow> fi = resolveField typ name
     | LDone typ name fi \<Rightarrow> fi = resolveField typ name | _ \<Rightarrow> True)"

definition caches_ok :: "caches \<Rightarrow> bool" where
  "caches_ok c \<longleftrightarrow> (\<forall>i fi. cc_slots c i = Some fi \<longrightarrow> entry_ok fi) \<and> (\<forall>e fi. cc_own c e = Some fi \<longrightarrow> entry_ok fi) \<and> (\<forall>g. lookup_ok (cc_at c g))"

lemma resolve_keeps_key [simp]: "fi_typ (resolveField typ name) = typ" "fi_name (resolveField typ name) = name"
  by (simp_all add: resolveField_def Let_def split: option.split dyntype.split gotype.split prod.split)

lemma looked_up_ok: "fi = resolveField typ name \<Longrightarrow> lookup_ok (looked_up e typ name fi)"
  by (simp add: looked_up_def lookup_ok_def split: option.split)

lemma caches_ok_at: "caches_ok c \<Longrightarrow> lookup_ok l \<Longrightarrow> caches_ok (c\<lparr>cc_at := (cc_at c)(g := l)\<rparr>)"
  by (simp add: caches_ok_def)

lemma look_step_ok:
  assumes "caches_ok c" and "look_step th c c'"
  shows "caches_ok c'"
  using assms(2)
proof cases
  case (own_hit g e ty nm fi)
  have "entry_ok fi" using assms(1) own_hit(3) by (simp add: caches_ok_def)
  then have "fi = resolveField ty nm" using own_hit(4) by (auto simp: entry_ok_def hit_def)
  then show ?thesis unfolding own_hit(1) by (intro caches_ok_at [OF assms(1)]) (simp add: lookup_ok_def)
next
  case (slot_hit g e ty nm fi)
  have "entry_ok fi" using assms(1) slot_hit(3) by (simp add: caches_ok_def)
  then have "fi = resolveField ty nm" using slot_hit(4) by (auto simp: entry_ok_def hit_def)
  then show ?thesis unfolding slot_hit(1) by (intro caches_ok_at [OF assms(1)] looked_up_ok)
next
  case (store_slot g e ty nm fi)
  have "lookup_ok (LStoreSlot e ty nm fi)" using assms(1) store_slot(2) unfolding caches_ok_def by metis
  then have "fi = resolveField ty nm" by (simp add: lookup_ok_def)
  then show ?thesis using assms(1) looked_up_ok [of fi ty nm e] by (auto simp: store_slot(1) caches_ok_def entry_ok_def)
next
  case (store_own g e ty nm fi)
  have "lookup_ok (LStoreOwn e ty nm fi)" using assms(1) store_own(2) unfolding caches_ok_def by metis
  then have "fi = resolveField ty nm" by (simp add: lookup_ok_def)
  then show ?thesis using assms(1) by (auto simp: store_own(1) caches_ok_def entry_ok_def lookup_ok_def)
qed (simp_all add: caches_ok_at [OF assms(1)] lookup_ok_def)

text \<open>
  C25: the caches are invisible. Under every interleaving of lookups by any number of goroutines,
  through any extractors, colliding in the shared cache as the hash will have it, every lookup
  returns what resolveField returns for its type and name.
\<close>
theorem cached_fields:
  assumes "(look_step th)\<^sup>*\<^sup>* no_caches c" and "cc_at c g = LDone typ name fi"
  shows "fi = resolveField typ name"
proof -
  have "caches_ok c"
    using assms(1)
  proof (induction rule: rtranclp_induct)
    case base
    then show ?case by (simp add: no_caches_def caches_ok_def lookup_ok_def)
  next
    case (step c c')
    then show ?case using look_step_ok by blast
  qed
  then have "lookup_ok (cc_at c g)" by (simp add: caches_ok_def)
  then show ?thesis using assms(2) by (simp add: lookup_ok_def)
qed

text \<open>A throw-away extractor looks a field up: miss, resolve, store.\<close>

lemma cached_fields_witness:
  "\<exists>c fi. (look_step (\<lambda>_. 7))\<^sup>*\<^sup>* no_caches c \<and> cc_at c 0 = LDone (Some (DPtr 0 sample_struct)) ''Age'' fi \<and>
    fi = resolveField (Some (DPtr 0 sample_struct)) ''Age''"
proof -
  let ?th = "\<lambda>_ :: dyntype option. 7 :: uint64" and ?t = "Some (DPtr 0 sample_struct)" and ?n = "''Age''"
  let ?at = "\<lambda>l. no_caches\<lparr>cc_at := (cc_at no_caches)(0 := l)\<rparr>"
  have 1: "look_step ?th no_caches (?at (LSlot None ?t ?n))" by (rule call_throw_away) (simp add: no_caches_def)
  have 2: "look_step ?th (?at (LSlot None ?t ?n)) (?at (LResolve None ?t ?n))"
    using slot_miss [of "?at (LSlot None ?t ?n)" 0 None ?t ?n ?th] by (simp add: no_caches_def hit_def)
  have 3: "look_step ?th (?at (LResolve None ?t ?n)) (?at (LStoreSlot None ?t ?n (resolveField ?t ?n)))"
    using resolved [of "?at (LResolve None ?t ?n)" 0 None ?t ?n ?th] by simp
  obtain c where 4: "look_step ?th (?at (LStoreSlot None ?t ?n (resolveField ?t ?n))) c" "cc_at c 0 = LDone ?t ?n (resolveField ?t ?n)"
    using store_slot [of "?at (LStoreSlot None ?t ?n (resolveField ?t ?n))" 0 None ?t ?n "resolveField ?t ?n" ?th] by (auto simp: looked_up_def)
  have r: "(look_step ?th)\<^sup>*\<^sup>* no_caches c"
    using 1 2 3 4(1) by (meson rtranclp.rtrancl_refl rtranclp.rtrancl_into_rtrancl)
  show ?thesis using cached_fields [OF r 4(2)] r 4(2) by blast
qed

end
