(* ===== verification/NameIndex.thy ===== *)
theory NameIndex
  imports Prelude "HOL-Library.Char_ord" "HOL-Library.Multiset"
begin

text \<open>
  The name lookup of schema_compile.go: an array of names placed by length with a counting
  sort, where a lookup compares its argument with the names of the same length and bisects
  among many. The theory shows that the structure is the finite map it is built from.
  Positions are natural numbers (the source keeps them in 32 bits, which no number of names
  exceeds). The zero value of the entry type is the argument \<open>zero\<close> of \<open>nb_start\<close>.
\<close>

section \<open>The structure and its builder\<close>

record 'v nameIndex =
  entries :: "(string \<times> 'v) list"
  off :: "nat list"

definition crowdedLength :: nat where
  "crowdedLength = 4"

definition nb_start :: "'v \<Rightarrow> nat \<Rightarrow> nat \<Rightarrow> 'v nameIndex" where
  "nb_start zero names longest =
    (if names > 0 then \<lparr>entries = replicate names ([], zero), off = replicate (longest + 2) 0\<rparr>
     else \<lparr>entries = [], off = []\<rparr>)"

definition nb_count :: "nat \<Rightarrow> 'v nameIndex \<Rightarrow> 'v nameIndex" where
  "nb_count l b = b\<lparr>off := (off b)[l + 1 := off b ! (l + 1) + 1]\<rparr>"

definition nb_counted :: "'v nameIndex \<Rightarrow> 'v nameIndex" where
  "nb_counted b = b\<lparr>off := fold (\<lambda>l os. os[l := os ! l + os ! (l - 1)]) [1..<length (off b)] (off b)\<rparr>"

definition nb_place :: "string \<Rightarrow> 'v \<Rightarrow> 'v nameIndex \<Rightarrow> 'v nameIndex" where
  "nb_place name val b =
    (let l = length name
     in \<lparr>entries = (entries b)[off b ! l := (name, val)], off = (off b)[l := off b ! l + 1]\<rparr>)"

text \<open>Only a length that enough names share is put in order.\<close>

definition sort_bucket :: "nat list \<Rightarrow> nat \<Rightarrow> (string \<times> 'v) list \<Rightarrow> (string \<times> 'v) list" where
  "sort_bucket os l es =
    (let from = os ! l; to = os ! (l + 1); bucket = take (to - from) (drop from es)
     in if length bucket > crowdedLength then take from es @ sort_key fst bucket @ drop to es else es)"

definition nb_done :: "'v nameIndex \<Rightarrow> 'v nameIndex" where
  "nb_done x =
    (if off x = [] then x
     else let os = 0 # butlast (off x)
       in \<lparr>entries = fold (sort_bucket os) [0..<length os - 1] (entries x), off = os\<rparr>)"

text \<open>The builder as every caller drives it: start; count every name; counted; place; done.\<close>

definition build_names :: "'v \<Rightarrow> nat \<Rightarrow> (string \<times> 'v) list \<Rightarrow> 'v nameIndex" where
  "build_names zero longest names =
    nb_done (fold (\<lambda>(n, v). nb_place n v) names
      (nb_counted (fold (\<lambda>(n, v). nb_count (length n)) names (nb_start zero (length names) longest))))"

definition newNameIndex :: "'v \<Rightarrow> (string \<times> 'v) list \<Rightarrow> 'v nameIndex" where
  "newNameIndex zero names = build_names zero (fold (\<lambda>(n, v) m. max m (length n)) names 0) names"

section \<open>Lookup\<close>

text \<open>The bisection: the first position whose name is not less.\<close>

function bisect :: "(string \<times> 'v) list \<Rightarrow> string \<Rightarrow> nat \<Rightarrow> nat \<Rightarrow> nat" where
  "bisect bucket name lo hi =
    (if lo < hi
     then let mid = (lo + hi) div 2
       in if fst (bucket ! mid) < name then bisect bucket name (mid + 1) hi else bisect bucket name lo mid
     else lo)"
  by pat_completeness auto
termination
  by (relation "measure (\<lambda>(b, n, lo, hi). hi - lo)") auto

declare bisect.simps [simp del]

fun scan :: "(string \<times> 'v) list \<Rightarrow> string \<Rightarrow> 'v option" where
  "scan [] name = None"
| "scan ((n, v) # es) name = (if n = name then Some v else scan es name)"

definition ni_get :: "'v nameIndex \<Rightarrow> string \<Rightarrow> 'v option" where
  "ni_get x name =
    (let l = length name
     in if l + 1 < length (off x)
        then let bucket = take (off x ! (l + 1) - off x ! l) (drop (off x ! l) (entries x))
          in if length bucket > crowdedLength
             then let lo = bisect bucket name 0 (length bucket)
               in scan (take (min (lo + 1) (length bucket) - lo) (drop lo bucket)) name
             else scan bucket name
        else None)"

section \<open>Lookup in one bucket\<close>

lemma scan_map_of: "scan es name = map_of es name"
  by (induction es name rule: scan.induct) auto

lemma bisect_correct:
  assumes "sorted (map fst bucket)" and "hi \<le> length bucket" and "lo \<le> hi"
    and "\<forall>i<lo. fst (bucket ! i) < name" and "\<forall>i<length bucket. hi \<le> i \<longrightarrow> name \<le> fst (bucket ! i)"
  shows "lo \<le> bisect bucket name lo hi \<and> bisect bucket name lo hi \<le> hi \<and>
    (\<forall>i<bisect bucket name lo hi. fst (bucket ! i) < name) \<and>
    (\<forall>i<length bucket. bisect bucket name lo hi \<le> i \<longrightarrow> name \<le> fst (bucket ! i))"
  using assms
proof (induction bucket name lo hi rule: bisect.induct)
  case (1 bucket name lo hi)
  show ?case
  proof (cases "lo < hi")
    case False
    then have b: "bisect bucket name lo hi = lo" by (subst bisect.simps) simp
    have "hi = lo" using False 1(5) by simp
    then show ?thesis unfolding b using 1(6,7) by simp
  next
    case True
    let ?mid = "(lo + hi) div 2"
    have mid: "lo \<le> ?mid" "?mid < hi" using True by auto
    have mono: "fst (bucket ! i) \<le> fst (bucket ! j)" if "i \<le> j" "j < length bucket" for i j
      using sorted_nth_mono [OF 1(3), of i j] that by simp
    show ?thesis
    proof (cases "fst (bucket ! ?mid) < name")
      case less: True
      have b: "bisect bucket name lo hi = bisect bucket name (?mid + 1) hi"
        using True less by (subst bisect.simps) simp
      have l: "\<forall>i<?mid + 1. fst (bucket ! i) < name"
      proof (intro allI impI)
        fix i assume "i < ?mid + 1"
        then have "fst (bucket ! i) \<le> fst (bucket ! ?mid)" using mid 1(4) by (intro mono) simp_all
        then show "fst (bucket ! i) < name" using less by (rule le_less_trans)
      qed
      have m: "?mid + 1 \<le> hi" using mid by simp
      have "?mid + 1 \<le> bisect bucket name (?mid + 1) hi \<and> bisect bucket name (?mid + 1) hi \<le> hi \<and>
          (\<forall>i<bisect bucket name (?mid + 1) hi. fst (bucket ! i) < name) \<and>
          (\<forall>i<length bucket. bisect bucket name (?mid + 1) hi \<le> i \<longrightarrow> name \<le> fst (bucket ! i))"
        by (rule 1(1) [OF True refl less 1(3,4) m l 1(7)])
      then show ?thesis using mid by (simp add: b)
    next
      case False
      have b: "bisect bucket name lo hi = bisect bucket name lo ?mid"
        using True False by (subst bisect.simps) simp
      have l: "\<forall>i<length bucket. ?mid \<le> i \<longrightarrow> name \<le> fst (bucket ! i)"
      proof (intro allI impI)
        fix i assume "i < length bucket" "?mid \<le> i"
        then have "fst (bucket ! ?mid) \<le> fst (bucket ! i)" by (intro mono)
        moreover have "name \<le> fst (bucket ! ?mid)" using False by simp
        ultimately show "name \<le> fst (bucket ! i)" by (rule order_trans [rotated])
      qed
      have "lo \<le> bisect bucket name lo ?mid \<and> bisect bucket name lo ?mid \<le> ?mid \<and>
          (\<forall>i<bisect bucket name lo ?mid. fst (bucket ! i) < name) \<and>
          (\<forall>i<length bucket. bisect bucket name lo ?mid \<le> i \<longrightarrow> name \<le> fst (bucket ! i))"
        using mid 1(4) by (intro 1(2) [OF True refl False 1(3) _ mid(1) 1(6) l]) simp
      then show ?thesis using mid by (simp add: b)
    qed
  qed
qed

lemma bisect_scan:
  assumes "sorted (map fst bucket)" and "lo = bisect bucket name 0 (length bucket)"
  shows "scan (take (min (lo + 1) (length bucket) - lo) (drop lo bucket)) name = map_of bucket name"
proof -
  have b: "lo \<le> length bucket" "\<forall>i<lo. fst (bucket ! i) < name"
      "\<forall>i<length bucket. lo \<le> i \<longrightarrow> name \<le> fst (bucket ! i)"
    using bisect_correct [OF assms(1), of "length bucket" 0 name] by (auto simp: assms(2))
  show ?thesis
  proof (cases "lo < length bucket")
    case False
    have "map_of bucket name = None"
    proof -
      have "fst e < name" if "e \<in> set bucket" for e
        using that b False by (auto simp: in_set_conv_nth)
      then show ?thesis by (auto simp: map_of_eq_None_iff)
    qed
    then show ?thesis using False by simp
  next
    case True
    have split: "bucket = take lo bucket @ bucket ! lo # drop (Suc lo) bucket" using True by (simp add: id_take_nth_drop)
    have front: "map_of (take lo bucket) name = None"
    proof -
      have "fst e < name" if "e \<in> set (take lo bucket)" for e
        using that b by (auto simp: in_set_conv_nth)
      then show ?thesis by (auto simp: map_of_eq_None_iff)
    qed
    obtain n v where nv: "bucket ! lo = (n, v)" by fastforce
    have "scan (take (min (lo + 1) (length bucket) - lo) (drop lo bucket)) name = scan [bucket ! lo] name"
      using True by (simp add: Cons_nth_drop_Suc [symmetric])
    moreover have "map_of bucket name = map_of (bucket ! lo # drop (Suc lo) bucket) name"
      using front by (subst split) (simp add: map_add_def)
    moreover have "map_of (drop (Suc lo) bucket) name = None" if "n \<noteq> name"
    proof -
      have "name < n" using b(3) True nv that by (metis fst_conv le_neq_trans order_refl)
      moreover have "n \<le> fst (bucket ! i)" if "lo < i" "i < length bucket" for i
        using sorted_nth_mono [OF assms(1), of lo i] that nv by simp
      moreover have "\<exists>i. lo < i \<and> i < length bucket \<and> e = bucket ! i" if "e \<in> set (drop (Suc lo) bucket)" for e
      proof -
        from that obtain i where "i < length (drop (Suc lo) bucket)" "e = drop (Suc lo) bucket ! i"
          by (auto simp: in_set_conv_nth)
        then show ?thesis by (intro exI [of _ "Suc lo + i"]) auto
      qed
      ultimately have "name < fst e" if "e \<in> set (drop (Suc lo) bucket)" for e
        using that less_le_trans by blast
      then show ?thesis by (auto simp: map_of_eq_None_iff)
    qed
    ultimately show ?thesis by (simp add: nv)
  qed
qed

section \<open>The builder\<close>

text \<open>
  The names of one length, in the order they are placed, and how many names are shorter than
  a length: the bucket of length \<open>l\<close> is to be at the positions from \<open>base ns l\<close> on.
\<close>

definition of_length :: "nat \<Rightarrow> (string \<times> 'v) list \<Rightarrow> (string \<times> 'v) list" where
  "of_length l ns = filter (\<lambda>e. length (fst e) = l) ns"

definition base :: "(string \<times> 'v) list \<Rightarrow> nat \<Rightarrow> nat" where
  "base ns l = length (filter (\<lambda>e. length (fst e) < l) ns)"

lemma base_0 [simp]: "base ns 0 = 0"
  by (simp add: base_def)

lemma base_Suc: "base ns (Suc l) = base ns l + length (of_length l ns)"
  by (induction ns) (auto simp: base_def of_length_def)

lemma base_mono: "l \<le> k \<Longrightarrow> base ns l \<le> base ns k"
  by (induction k rule: nat_induct) (auto simp: base_Suc le_Suc_eq)

lemma base_all: "\<forall>e\<in>set ns. length (fst e) < k \<Longrightarrow> base ns k = length ns"
  by (simp add: base_def)

lemma base_within: "\<forall>e\<in>set ns. length (fst e) \<le> longest \<Longrightarrow> l \<le> longest \<Longrightarrow> base ns l + length (of_length l ns) \<le> length ns"
  using base_mono [of "Suc l" "Suc longest" ns] base_all [of ns "Suc longest"] by (simp add: base_Suc less_Suc_eq_le)

lemma buckets_disjoint:
  assumes "i < length (of_length l ns)" and "j < length (of_length k ns)" and "l \<noteq> k"
  shows "base ns l + i \<noteq> base ns k + j"
proof (cases "l < k")
  case True
  then show ?thesis using base_mono [of "Suc l" k ns] assms by (simp add: base_Suc)
next
  case False
  then show ?thesis using base_mono [of "Suc k" l ns] assms by (simp add: base_Suc)
qed

lemma of_length_append: "of_length l (ps @ qs) = of_length l ps @ of_length l qs"
  by (simp add: of_length_def)

lemma map_of_of_length: "map_of (of_length (length name) ns) name = map_of ns name"
  by (induction ns) (auto simp: of_length_def)

lemma count_phase:
  assumes "\<forall>e\<in>set ps. length (fst e) + 1 < length (off b)"
  shows "entries (fold (\<lambda>(n, v). nb_count (length n)) ps b) = entries b \<and>
    length (off (fold (\<lambda>(n, v). nb_count (length n)) ps b)) = length (off b) \<and>
    off (fold (\<lambda>(n, v). nb_count (length n)) ps b) ! 0 = off b ! 0 \<and>
    (\<forall>l. l + 1 < length (off b) \<longrightarrow>
      off (fold (\<lambda>(n, v). nb_count (length n)) ps b) ! (l + 1) = off b ! (l + 1) + length (of_length l ps))"
  using assms
proof (induction ps arbitrary: b)
  case (Cons p ps)
  obtain n v where p: "p = (n, v)" by fastforce
  have "entries (nb_count (length n) b) = entries b" "length (off (nb_count (length n) b)) = length (off b)"
      "off (nb_count (length n) b) ! 0 = off b ! 0"
      "l + 1 < length (off b) \<Longrightarrow> off (nb_count (length n) b) ! (l + 1) = off b ! (l + 1) + (if length n = l then 1 else 0)" for l
    by (auto simp: nb_count_def)
  then show ?case using Cons.IH [of "nb_count (length n) b"] Cons.prems by (auto simp: p of_length_def)
qed (simp add: of_length_def)

lemma prefix_sums:
  "n \<le> length (os :: nat list) \<Longrightarrow> length (fold (\<lambda>l os. os[l := os ! l + os ! (l - 1)]) [1..<n] os) = length os \<and>
    (\<forall>j<length os. fold (\<lambda>l os. os[l := os ! l + os ! (l - 1)]) [1..<n] os ! j =
      (if j < n then sum_list (take (Suc j) os) else os ! j))"
proof (induction n)
  case (Suc n)
  show ?case
  proof (cases n)
    case 0
    then show ?thesis using Suc by (cases os) auto
  next
    case (Suc m)
    have up: "[1..<Suc n] = [1..<n] @ [n]" using Suc by (simp add: upt_Suc_append)
    let ?r = "fold (\<lambda>l os. os[l := os ! l + os ! (l - 1)]) [1..<n] os"
    have ih: "length ?r = length os" "\<And>j. j < length os \<Longrightarrow> ?r ! j = (if j < n then sum_list (take (Suc j) os) else os ! j)"
      using Suc.IH Suc.prems by auto
    have "?r ! n + ?r ! (n - 1) = sum_list (take (Suc n) os)"
      using ih(2) [of n] ih(2) [of "n - 1"] Suc Suc.prems by (simp add: take_Suc_conv_app_nth ac_simps)
    then show ?thesis unfolding up using ih Suc.prems by (auto simp: nth_list_update less_Suc_eq)
  qed
qed auto

lemma counted_base:
  assumes "length os = longest + 2" and "os ! 0 = 0" and "\<forall>l\<le>longest. os ! (l + 1) = length (of_length l ns)"
  shows "j \<le> longest + 1 \<Longrightarrow> sum_list (take (Suc j) os) = base ns j"
proof (induction j)
  case 0
  then show ?case using assms by (simp add: take_Suc_conv_app_nth)
next
  case (Suc j)
  then show ?case using assms by (simp add: take_Suc_conv_app_nth [of "Suc j"] base_Suc)
qed

lemma place_phase:
  assumes "\<forall>e\<in>set ns. length (fst e) \<le> longest"
  shows "ns = ps @ qs \<Longrightarrow> length (entries b) = length ns \<Longrightarrow> length (off b) = longest + 2 \<Longrightarrow>
    (\<forall>l\<le>longest. off b ! l = base ns l) \<Longrightarrow>
    length (entries (fold (\<lambda>(n, v). nb_place n v) ps b)) = length ns \<and>
    length (off (fold (\<lambda>(n, v). nb_place n v) ps b)) = longest + 2 \<and>
    (\<forall>l\<le>longest. off (fold (\<lambda>(n, v). nb_place n v) ps b) ! l = base ns l + length (of_length l ps) \<and>
      (\<forall>i<length (of_length l ps). entries (fold (\<lambda>(n, v). nb_place n v) ps b) ! (base ns l + i) = of_length l ps ! i))"
proof (induction ps arbitrary: qs rule: rev_induct)
  case (snoc p ps)
  obtain n v where p: "p = (n, v)" by fastforce
  let ?c = "fold (\<lambda>(n, v). nb_place n v) ps b"
  let ?k = "length n"
  have ih: "length (entries ?c) = length ns" "length (off ?c) = longest + 2"
      "\<And>l. l \<le> longest \<Longrightarrow> off ?c ! l = base ns l + length (of_length l ps)"
      "\<And>l i. l \<le> longest \<Longrightarrow> i < length (of_length l ps) \<Longrightarrow> entries ?c ! (base ns l + i) = of_length l ps ! i"
    using snoc.IH [of "p # qs"] snoc.prems by auto
  have k: "?k \<le> longest" using assms snoc.prems(1) p by auto
  have kp: "length (of_length ?k ps) < length (of_length ?k ns)"
    using snoc.prems(1) p by (simp add: of_length_def)
  then have pos: "base ns ?k + length (of_length ?k ps) < length ns"
    using base_within [OF assms k] by linarith
  have step: "fold (\<lambda>(n, v). nb_place n v) (ps @ [p]) b =
      \<lparr>entries = (entries ?c)[base ns ?k + length (of_length ?k ps) := (n, v)],
       off = (off ?c)[?k := base ns ?k + length (of_length ?k ps) + 1]\<rparr>"
    using ih(3) [OF k] by (simp add: p nb_place_def Let_def)
  have "entries (fold (\<lambda>(n, v). nb_place n v) (ps @ [p]) b) ! (base ns l + i) = of_length l (ps @ [p]) ! i"
    if l: "l \<le> longest" and i: "i < length (of_length l (ps @ [p]))" for l i
  proof (cases "l = ?k")
    case True
    have one: "of_length ?k [p] = [(n, v)]" by (simp add: of_length_def p)
    show ?thesis
      unfolding step True of_length_append one
      using i pos ih(1) ih(4) [OF l, of i] True one
      by (auto simp: of_length_append nth_append nth_list_update less_Suc_eq)
  next
    case False
    then have "of_length l [p] = []" using p by (simp add: of_length_def)
    then have i': "i < length (of_length l ps)" using i by (simp add: of_length_append)
    moreover have "length (of_length l ps) \<le> length (of_length l ns)" using snoc.prems(1) by (simp add: of_length_append)
    ultimately have "base ns ?k + length (of_length ?k ps) \<noteq> base ns l + i"
      using buckets_disjoint [of "length (of_length ?k ps)" ?k ns i l] kp False by simp
    moreover have "of_length l [p] = []" using False by (simp add: of_length_def p)
    ultimately show ?thesis unfolding step of_length_append using i' ih(4) [OF l i'] by simp
  qed
  moreover have "off (fold (\<lambda>(n, v). nb_place n v) (ps @ [p]) b) ! l = base ns l + length (of_length l (ps @ [p]))"
    if "l \<le> longest" for l
    unfolding step using ih(2) ih(3) [OF that] that p by (auto simp: of_length_append of_length_def [of _ "[(n, v)]"] nth_list_update)
  moreover have "length (entries (fold (\<lambda>(n, v). nb_place n v) (ps @ [p]) b)) = length ns"
      "length (off (fold (\<lambda>(n, v). nb_place n v) (ps @ [p]) b)) = longest + 2"
    unfolding step using ih(1,2) by simp_all
  ultimately show ?case by blast
qed (simp add: of_length_def)

text \<open>The slice of positions that a bucket occupies, and its order after \<open>nb_done\<close>.\<close>

definition slice :: "nat \<Rightarrow> nat \<Rightarrow> 'a list \<Rightarrow> 'a list" where
  "slice i j xs = take (j - i) (drop i xs)"

lemma slice_cong:
  "length ys = length xs \<Longrightarrow> (\<And>n. i \<le> n \<Longrightarrow> n < j \<Longrightarrow> n < length xs \<Longrightarrow> ys ! n = xs ! n) \<Longrightarrow> slice i j ys = slice i j xs"
  by (rule nth_equalityI) (auto simp: slice_def)

lemma slice_eqI:
  "i + length zs \<le> length xs \<Longrightarrow> (\<And>n. n < length zs \<Longrightarrow> xs ! (i + n) = zs ! n) \<Longrightarrow> slice i (i + length zs) xs = zs"
  by (rule nth_equalityI) (auto simp: slice_def)

lemma slice_middle: "i \<le> j \<Longrightarrow> j \<le> length xs \<Longrightarrow> length zs = j - i \<Longrightarrow> slice i j (take i xs @ zs @ drop j xs) = zs"
  by (simp add: slice_def)

lemma slice_beside:
  assumes "f \<le> t" "t \<le> length xs" "length zs = t - f" "j \<le> f \<or> t \<le> i"
  shows "slice i j (take f xs @ zs @ drop t xs) = slice i j xs"
  using assms by (intro slice_cong) (auto simp: nth_append)

lemma sort_bucket_slices:
  assumes "os ! l \<le> os ! (l + 1)" and "os ! (l + 1) \<le> length es"
  shows "length (sort_bucket os l es) = length es \<and>
    slice (os ! l) (os ! (l + 1)) (sort_bucket os l es) =
      (let b = slice (os ! l) (os ! (l + 1)) es in if length b > crowdedLength then sort_key fst b else b) \<and>
    (\<forall>i j. j \<le> os ! l \<or> os ! (l + 1) \<le> i \<longrightarrow> slice i j (sort_bucket os l es) = slice i j es)"
proof -
  let ?b = "slice (os ! l) (os ! (l + 1)) es"
  have sb: "sort_bucket os l es =
      (if length ?b > crowdedLength then take (os ! l) es @ sort_key fst ?b @ drop (os ! (l + 1)) es else es)"
    by (simp add: sort_bucket_def Let_def slice_def)
  have len: "length (sort_key fst ?b) = os ! (l + 1) - os ! l" using assms by (simp add: slice_def)
  have "length (take (os ! l) es @ sort_key fst ?b @ drop (os ! (l + 1)) es) = length es" using len assms by simp
  then show ?thesis
    using slice_middle [OF assms len] slice_beside [OF assms len] by (auto simp only: sb Let_def split: if_splits)
qed

lemma sort_phase:
  assumes "\<And>l. l \<le> longest + 1 \<Longrightarrow> os ! l = base ns l" and "base ns (longest + 1) = length es"
    and "\<And>l. l \<le> longest \<Longrightarrow> slice (base ns l) (base ns (l + 1)) es = of_length l ns"
  shows "k \<le> longest + 1 \<Longrightarrow> length (fold (sort_bucket os) [0..<k] es) = length es \<and>
    (\<forall>l\<le>longest. slice (base ns l) (base ns (l + 1)) (fold (sort_bucket os) [0..<k] es) =
      (if l < k \<and> length (of_length l ns) > crowdedLength then sort_key fst (of_length l ns) else of_length l ns))"
proof (induction k)
  case (Suc k)
  let ?es = "fold (sort_bucket os) [0..<k] es"
  have ih: "length ?es = length es" "\<And>l. l \<le> longest \<Longrightarrow> slice (base ns l) (base ns (l + 1)) ?es =
      (if l < k \<and> length (of_length l ns) > crowdedLength then sort_key fst (of_length l ns) else of_length l ns)"
    using Suc by auto
  have os: "os ! k = base ns k" "os ! (k + 1) = base ns (k + 1)" using assms(1) Suc.prems by auto
  have "os ! k \<le> os ! (k + 1)" "os ! (k + 1) \<le> length ?es"
    using os base_mono [of k "k + 1" ns] base_mono [of "k + 1" "longest + 1" ns] assms(2) ih(1) Suc.prems by auto
  note step = sort_bucket_slices [OF this]
  have "slice (base ns l) (base ns (l + 1)) (sort_bucket os k ?es) =
      (if l < Suc k \<and> length (of_length l ns) > crowdedLength then sort_key fst (of_length l ns) else of_length l ns)"
    if l: "l \<le> longest" for l
  proof (cases "l = k")
    case True
    then show ?thesis using step ih(2) [OF l] os by (simp add: Let_def)
  next
    case False
    have "base ns (l + 1) \<le> os ! k \<or> os ! (k + 1) \<le> base ns l"
      using False base_mono [of "l + 1" k ns] base_mono [of "k + 1" l ns] unfolding os by (cases "l < k") auto
    then have "slice (base ns l) (base ns (l + 1)) (sort_bucket os k ?es) = slice (base ns l) (base ns (l + 1)) ?es"
      using step by blast
    then show ?thesis using ih(2) [OF l] False by (auto simp: less_Suc_eq)
  qed
  then show ?case using step ih(1) by simp
qed (use assms in auto)

lemma ni_get_slice: "ni_get x name =
   (let l = length name
    in if l + 1 < length (off x) then map_of (slice (off x ! l) (off x ! (l + 1)) (entries x)) name else None)"
  if "\<forall>l. l + 1 < length (off x) \<longrightarrow> length (slice (off x ! l) (off x ! (l + 1)) (entries x)) > crowdedLength \<longrightarrow>
    sorted (map fst (slice (off x ! l) (off x ! (l + 1)) (entries x)))"
proof (cases "length name + 1 < length (off x) \<and> length (slice (off x ! length name) (off x ! (length name + 1)) (entries x)) > crowdedLength")
  case True
  then show ?thesis using bisect_scan [OF _ refl, of "slice (off x ! length name) (off x ! (length name + 1)) (entries x)" name] that
    by (simp add: ni_get_def Let_def slice_def)
next
  case False
  then show ?thesis by (auto simp: ni_get_def Let_def slice_def scan_map_of)
qed

lemma map_of_sort_key: "distinct (map fst ns) \<Longrightarrow> map_of (sort_key fst ns) = map_of ns"
proof -
  assume d: "distinct (map fst ns)"
  have "mset (map fst (sort_key fst ns)) = mset (map fst ns)" by simp
  then have d': "distinct (map fst (sort_key fst ns))" using d by (metis mset_eq_imp_distinct_iff)
  show "map_of (sort_key fst ns) = map_of ns"
  proof
    fix n
    have "map_of (sort_key fst ns) n = Some v \<longleftrightarrow> map_of ns n = Some v" for v
      using map_of_eq_Some_iff [OF d] map_of_eq_Some_iff [OF d'] by simp
    then show "map_of (sort_key fst ns) n = map_of ns n" by (metis option.exhaust)
  qed
qed

lemma build_names_get:
  assumes long: "\<forall>e\<in>set ns. length (fst e) \<le> longest" and "distinct (map fst ns)"
  shows "ni_get (build_names zero longest ns) name = map_of ns name"
proof (cases "ns = []")
  case True
  then show ?thesis by (simp add: build_names_def nb_start_def nb_counted_def nb_done_def ni_get_def)
next
  case False
  let ?b0 = "nb_start zero (length ns) longest"
  let ?b1 = "fold (\<lambda>(n, v). nb_count (length n)) ns ?b0"
  let ?b2 = "nb_counted ?b1"
  let ?b3 = "fold (\<lambda>(n, v). nb_place n v) ns ?b2"
  have b0: "entries ?b0 = replicate (length ns) ([], zero)" "off ?b0 = replicate (longest + 2) 0"
    using False by (simp_all add: nb_start_def)
  have b1: "entries ?b1 = entries ?b0" "length (off ?b1) = longest + 2" "off ?b1 ! 0 = 0"
      "\<forall>l\<le>longest. off ?b1 ! (l + 1) = length (of_length l ns)"
    using count_phase [of ns ?b0] long by (auto simp: b0 less_Suc_eq_le nth_Cons')
  have b2: "length (entries ?b2) = length ns" "length (off ?b2) = longest + 2" "\<forall>l\<le>longest. off ?b2 ! l = base ns l"
  proof -
    let ?r = "fold (\<lambda>l os. os[l := os ! l + os ! (l - 1)]) [1..<length (off ?b1)] (off ?b1)"
    have r: "length ?r = length (off ?b1)"
        "\<And>j. j < length (off ?b1) \<Longrightarrow> ?r ! j = (if j < length (off ?b1) then sum_list (take (Suc j) (off ?b1)) else off ?b1 ! j)"
      using prefix_sums [OF order_refl, of "off ?b1"] by blast+
    have e: "entries ?b2 = entries ?b1" "off ?b2 = ?r" by (simp_all add: nb_counted_def)
    show "length (entries ?b2) = length ns" unfolding e b1(1) b0(1) by simp
    show "length (off ?b2) = longest + 2" using e(2) r(1) b1(2) by simp
    show "\<forall>l\<le>longest. off ?b2 ! l = base ns l"
    proof (intro allI impI)
      fix l assume "l \<le> longest"
      then have l: "l < length (off ?b1)" "l \<le> longest + 1" using b1(2) by simp_all
      have "?r ! l = sum_list (take (Suc l) (off ?b1))" using r(2) [OF l(1)] l(1) by (simp only: if_True)
      also have "\<dots> = base ns l" by (rule counted_base [OF b1(2,3,4) l(2)])
      finally show "off ?b2 ! l = base ns l" unfolding e .
    qed
  qed
  have b3: "length (entries ?b3) = length ns" "length (off ?b3) = longest + 2"
      "\<And>l. l \<le> longest \<Longrightarrow> off ?b3 ! l = base ns (l + 1)"
      "\<And>l i. l \<le> longest \<Longrightarrow> i < length (of_length l ns) \<Longrightarrow> entries ?b3 ! (base ns l + i) = of_length l ns ! i"
    using place_phase [OF long, of ns "[]" ?b2] b2 by (auto simp: base_Suc)
  let ?os = "0 # butlast (off ?b3)"
  have os: "?os ! l = base ns l" if "l \<le> longest + 1" for l
    using b3(2,3) that by (cases l) (auto simp: nth_butlast)
  have sl: "slice (base ns l) (base ns (l + 1)) (entries ?b3) = of_length l ns" if "l \<le> longest" for l
    using slice_eqI [of "base ns l" "of_length l ns" "entries ?b3"] b3 base_within [OF long that] that by (simp add: base_Suc)
  have tot: "base ns (longest + 1) = length (entries ?b3)"
    using base_all [of ns "longest + 1"] long b3(1) by (simp add: less_Suc_eq_le)
  let ?x = "build_names zero longest ns"
  have x: "off ?x = ?os" "entries ?x = fold (sort_bucket ?os) [0..<longest + 1] (entries ?b3)"
  proof -
    have "off ?b3 \<noteq> []" using b3(2) by (metis list.size(3) add_is_0 zero_neq_numeral)
    then have "?x = \<lparr>entries = fold (sort_bucket ?os) [0..<length ?os - 1] (entries ?b3), off = ?os\<rparr>"
      by (simp only: build_names_def nb_done_def Let_def if_False)
    moreover have "length ?os - 1 = longest + 1" using b3(2) by simp
    ultimately show "off ?x = ?os" "entries ?x = fold (sort_bucket ?os) [0..<longest + 1] (entries ?b3)"
      by simp_all
  qed
  have buckets: "slice (off ?x ! l) (off ?x ! (l + 1)) (entries ?x) =
      (if length (of_length l ns) > crowdedLength then sort_key fst (of_length l ns) else of_length l ns)"
    if "l \<le> longest" for l
    using sort_phase [OF os tot sl, of "longest + 1"] that os [of l] os [of "l + 1"] unfolding x by auto
  have len: "length (off ?x) = longest + 2" using b3(2) by (simp add: x(1))
  have "ni_get ?x name = (if length name \<le> longest then map_of (of_length (length name) ns) name else None)"
  proof (subst ni_get_slice)
    show "\<forall>l. l + 1 < length (off ?x) \<longrightarrow> length (slice (off ?x ! l) (off ?x ! (l + 1)) (entries ?x)) > crowdedLength \<longrightarrow>
        sorted (map fst (slice (off ?x ! l) (off ?x ! (l + 1)) (entries ?x)))"
    proof (intro allI impI)
      fix l assume l: "l + 1 < length (off ?x)" "length (slice (off ?x ! l) (off ?x ! (l + 1)) (entries ?x)) > crowdedLength"
      then have "l \<le> longest" using len by simp
      from l(2) show "sorted (map fst (slice (off ?x ! l) (off ?x ! (l + 1)) (entries ?x)))"
        unfolding buckets [OF \<open>l \<le> longest\<close>] by (simp split: if_splits)
    qed
    have "distinct (map fst (of_length l ns))" for l
      using assms(2) by (simp add: of_length_def distinct_map_filter)
    then show "(let l = length name in if l + 1 < length (off ?x)
        then map_of (slice (off ?x ! l) (off ?x ! (l + 1)) (entries ?x)) name else None) =
        (if length name \<le> longest then map_of (of_length (length name) ns) name else None)"
      using buckets [of "length name"] by (auto simp: len Let_def map_of_sort_key)
  qed
  also have "\<dots> = map_of ns name"
  proof (cases "length name \<le> longest")
    case False
    then have "map_of ns name = None" using long by (auto simp: map_of_eq_None_iff)
    then show ?thesis using False by simp
  qed (simp add: map_of_of_length)
  finally show ?thesis .
qed

lemma longest_name: "\<forall>e\<in>set ns. length (fst e) \<le> fold (\<lambda>(n, v) m. max m (length n)) ns k"
  and longest_start: "k \<le> fold (\<lambda>(n, v) m. max m (length n)) ns k"
proof (induction ns arbitrary: k)
  case (Cons p ns)
  obtain n v where "p = (n, v)" by fastforce
  { case 1 show ?case using Cons.IH(1) [of "max k (length n)"] Cons.IH(2) [of "max k (length n)"] \<open>p = (n, v)\<close> by auto
  next
    case 2 show ?case using Cons.IH(2) [of "max k (length n)"] \<open>p = (n, v)\<close> by auto }
qed auto

lemma longest_names: "\<forall>e\<in>set ns. length (fst e) \<le> fold (\<lambda>(n, v) m. max m (length n)) ns k"
  using longest_name by blast

text \<open>
  C27: a name lookup answers like the finite map of the names it was built from, whatever
  their lengths and however many share one; with the placement by length, the order only of
  crowded lengths, and the bisection.
\<close>
theorem lookup_is_map:
  assumes "distinct (map fst names)"
  shows "ni_get (newNameIndex zero names) name = map_of names name"
  unfolding newNameIndex_def using longest_names assms by (rule build_names_get)

lemma lookup_is_map_witness:
  "ni_get (newNameIndex (0 :: nat) [(''a5'', 5), (''a1'', 1), (''a4'', 4), (''b'', 9), (''a2'', 2), (''a3'', 3)]) ''a4'' = Some 4 \<and>
   ni_get (newNameIndex (0 :: nat) [(''a5'', 5), (''a1'', 1), (''a4'', 4), (''b'', 9), (''a2'', 2), (''a3'', 3)]) ''a9'' = None"
  using lookup_is_map [of "[(''a5'', 5), (''a1'', 1), (''a4'', 4), (''b'', 9), (''a2'', 2), (''a3'', 3)]" "0 :: nat"] by simp

end
