(* ===== verification/Schema.thy ===== *)
theory Schema
  imports NameIndex IndexFast
begin

text \<open>
  Schemas and their compilation: schema.go (Validate), schema_compile.go (compileSchema,
  resolveNames) and validateBitmapIndex of bitmap_index.go. A map of the schema is the list of
  its entries in the order an iteration visits them, with distinct keys. Pointers to
  TableSchema and IndexSchema are not nil. The theory shows that a compiled schema has the
  layout the transactions rely on, that it does not depend on the iteration order, and that
  index names resolve by go-memdb's rule.
\<close>

section \<open>Schemas\<close>

text \<open>What an IndexSchema's Indexer holds: nothing, an indexer, or a BitmapIndex around one.\<close>

datatype sindexer = SNone | SPlain indexer | SBitmap sindexer

definition SingleIndexer :: "sindexer \<Rightarrow> bool" where
  "SingleIndexer s = (case s of SPlain ix \<Rightarrow> is_single ix | _ \<Rightarrow> False)"

definition MultiIndexer :: "sindexer \<Rightarrow> bool" where
  "MultiIndexer s = (case s of SPlain ix \<Rightarrow> is_multi ix | SBitmap _ \<Rightarrow> True | SNone \<Rightarrow> False)"

definition isBitmap :: "sindexer \<Rightarrow> bool" where
  "isBitmap s = (case s of SBitmap _ \<Rightarrow> True | _ \<Rightarrow> False)"

record indexSchema =
  is_name :: string
  is_allowMissing :: bool
  is_unique :: bool
  is_indexer :: sindexer

record tableSchema =
  ts_name :: string
  ts_indexes :: "(string \<times> indexSchema) list"

type_synonym dbSchema = "(string \<times> tableSchema) list"

datatype schema_error =
    ESchemaNil | ENoTables | ETableMismatch string | ETable string schema_error
  | ENoTableName | ENoIndexes string | ENoId | EIdNotUnique | EIdNotSingle
  | EIndexMismatch string | EIndex string schema_error
  | ENoIndexName | ENoIndexer string | ENotIndexer string
  | EWrapsBitmap string string | EMustWrap string string | EBitmapUnique string string

section \<open>Validation\<close>

definition IndexSchema_Validate :: "indexSchema \<Rightarrow> schema_error option" where
  "IndexSchema_Validate s =
    (if is_name s = [] then Some ENoIndexName
     else if is_indexer s = SNone then Some (ENoIndexer (is_name s))
     else if SingleIndexer (is_indexer s) then None
     else if MultiIndexer (is_indexer s) then None
     else Some (ENotIndexer (is_name s)))"

fun validate_indexes :: "(string \<times> indexSchema) list \<Rightarrow> schema_error option" where
  "validate_indexes [] = None"
| "validate_indexes ((name, index) # rest) =
    (if name \<noteq> is_name index then Some (EIndexMismatch name)
     else case IndexSchema_Validate index of Some e \<Rightarrow> Some (EIndex name e) | None \<Rightarrow> validate_indexes rest)"

definition TableSchema_Validate :: "tableSchema \<Rightarrow> schema_error option" where
  "TableSchema_Validate s =
    (if ts_name s = [] then Some ENoTableName
     else if ts_indexes s = [] then Some (ENoIndexes (ts_name s))
     else case map_of (ts_indexes s) ''id'' of
       None \<Rightarrow> Some ENoId
     | Some is \<Rightarrow>
         if \<not> is_unique is then Some EIdNotUnique
         else if \<not> SingleIndexer (is_indexer is) then Some EIdNotSingle
         else validate_indexes (ts_indexes s))"

fun validate_tables :: "dbSchema \<Rightarrow> schema_error option" where
  "validate_tables [] = None"
| "validate_tables ((name, table) # rest) =
    (if name \<noteq> ts_name table then Some (ETableMismatch name)
     else case TableSchema_Validate table of Some e \<Rightarrow> Some (ETable name e) | None \<Rightarrow> validate_tables rest)"

definition DBSchema_Validate :: "dbSchema option \<Rightarrow> schema_error option" where
  "DBSchema_Validate s = (case s of
     None \<Rightarrow> Some ESchemaNil
   | Some tables \<Rightarrow> if tables = [] then Some ENoTables else validate_tables tables)"

definition validateBitmapIndex :: "string \<Rightarrow> indexSchema \<Rightarrow> sindexer \<Rightarrow> schema_error option" where
  "validateBitmapIndex table is inner =
    (if isBitmap inner then Some (EWrapsBitmap (is_name is) table)
     else if \<not> SingleIndexer inner \<and> \<not> MultiIndexer inner then Some (EMustWrap (is_name is) table)
     else if is_unique is then Some (EBitmapUnique (is_name is) table)
     else None)"

section \<open>Compiled schemas\<close>

text \<open>
  The indexer of a compiled index is the wrapped one for a bitmap index; which of the
  interfaces it implements is a function of it, and so is its extractor.
\<close>

record compiledIndex =
  ci_name :: string
  ci_slot :: nat
  ci_ord :: nat
  ci_ix :: indexer
  ci_unique :: bool
  ci_allowMissing :: bool
  ci_bitmap :: bool

type_synonym indexRef = "compiledIndex \<times> bool"

record compiledTable =
  ct_name :: string
  ct_ord :: nat
  ct_indexes :: "compiledIndex list"
  ct_classic :: nat
  ct_byName :: "indexRef nameIndex"
  ct_bitmapByName :: "indexRef nameIndex option"

definition prefixSuffix :: string where
  "prefixSuffix = ''_prefix''"

definition HasSuffix :: "string \<Rightarrow> string \<Rightarrow> bool" where
  "HasSuffix s sfx \<longleftrightarrow> length sfx \<le> length s \<and> drop (length s - length sfx) s = sfx"

definition TrimSuffix :: "string \<Rightarrow> string \<Rightarrow> string" where
  "TrimSuffix s sfx = (if HasSuffix s sfx then take (length s - length sfx) s else s)"

definition no_indexer :: indexer where
  "no_indexer = ICustom FromNone (\<lambda>_. Panics) None"

definition zero_index :: compiledIndex where
  "zero_index = \<lparr>ci_name = [], ci_slot = 0, ci_ord = 0, ci_ix = no_indexer, ci_unique = False,
    ci_allowMissing = False, ci_bitmap = False\<rparr>"

definition zero_table :: compiledTable where
  "zero_table = \<lparr>ct_name = [], ct_ord = 0, ct_indexes = [], ct_classic = 0,
    ct_byName = \<lparr>entries = [], off = []\<rparr>, ct_bitmapByName = None\<rparr>"

subsection \<open>Names\<close>

text \<open>The names an index is addressed by: its own, unless that ends in \<open>_prefix\<close>, and the prefix one.\<close>

definition ref_names :: "compiledIndex \<Rightarrow> (string \<times> indexRef) list" where
  "ref_names ci =
    (if \<not> HasSuffix (ci_name ci) prefixSuffix
     then [(ci_name ci, (ci, False)), (ci_name ci @ prefixSuffix, (ci, True))]
     else [(ci_name ci @ prefixSuffix, (ci, True))])"

definition indexNames :: "compiledIndex list \<Rightarrow> indexRef nameIndex" where
  "indexNames indexes =
    (let longest = fold (\<lambda>ci m. max m (length (ci_name ci) + length prefixSuffix)) indexes 0
     in build_names (zero_index, False) longest (concat (map ref_names indexes)))"

definition resolveNames :: "compiledTable \<Rightarrow> compiledTable" where
  "resolveNames t =
    t\<lparr>ct_byName := indexNames (take (ct_classic t) (ct_indexes t)),
      ct_bitmapByName :=
        (if ct_classic t < length (ct_indexes t) then Some (indexNames (drop (ct_classic t) (ct_indexes t)))
         else ct_bitmapByName t)\<rparr>"

definition bitmapIndex :: "compiledTable \<Rightarrow> string \<Rightarrow> indexRef option" where
  "bitmapIndex t name = (case ct_bitmapByName t of None \<Rightarrow> None | Some x \<Rightarrow> ni_get x name)"

subsection \<open>compileSchema\<close>

text \<open>The ordinary indexes other than \<open>id\<close> and the bitmap indexes, in iteration order.\<close>

fun split_names :: "(string \<times> indexSchema) list \<Rightarrow> string list \<times> string list" where
  "split_names [] = ([], [])"
| "split_names ((iname, is) # rest) = (case split_names rest of (names, bms) \<Rightarrow>
     if isBitmap (is_indexer is) then (names, iname # bms)
     else if iname \<noteq> ''id'' then (iname # names, bms)
     else (names, bms))"

text \<open>One index; a name the table does not have would be a nil pointer dereference.\<close>

definition compile_index :: "string \<Rightarrow> tableSchema \<Rightarrow> nat \<Rightarrow> nat \<Rightarrow> nat \<Rightarrow> string \<Rightarrow> (schema_error + compiledIndex) outcome" where
  "compile_index tname ts classic slot ord iname = (case map_of (ts_indexes ts) iname of
     None \<Rightarrow> Panic
   | Some is \<Rightarrow>
       let mk = (\<lambda>ix bm. \<lparr>ci_name = iname, ci_slot = slot, ci_ord = ord, ci_ix = ix, ci_unique = is_unique is,
                   ci_allowMissing = is_allowMissing is, ci_bitmap = bm\<rparr>)
       in if ord \<ge> classic
          then (case is_indexer is of
              SBitmap inner \<Rightarrow> (case validateBitmapIndex tname is inner of
                  Some e \<Rightarrow> Ret (Inl e)
                | None \<Rightarrow> (case inner of SPlain ix \<Rightarrow> Ret (Inr (mk ix True)) | _ \<Rightarrow> Panic))
            | _ \<Rightarrow> Panic)
          else (case is_indexer is of SPlain ix \<Rightarrow> Ret (Inr (mk ix False)) | _ \<Rightarrow> Panic))"

fun compile_indexes :: "string \<Rightarrow> tableSchema \<Rightarrow> nat \<Rightarrow> nat \<Rightarrow> nat \<Rightarrow> string list \<Rightarrow> (schema_error + compiledIndex list) outcome" where
  "compile_indexes tname ts classic slot ord [] = Ret (Inr [])"
| "compile_indexes tname ts classic slot ord (iname # names) = (case compile_index tname ts classic slot ord iname of
     Panic \<Rightarrow> Panic
   | Ret (Inl e) \<Rightarrow> Ret (Inl e)
   | Ret (Inr ci) \<Rightarrow> (case compile_indexes tname ts classic (slot + 1) (ord + 1) names of
       Panic \<Rightarrow> Panic
     | Ret (Inl e) \<Rightarrow> Ret (Inl e)
     | Ret (Inr cis) \<Rightarrow> Ret (Inr (ci # cis))))"

definition compile_table :: "string \<Rightarrow> tableSchema \<Rightarrow> nat \<Rightarrow> nat \<Rightarrow> (schema_error + compiledTable) outcome" where
  "compile_table tname ts start tord = (case split_names (ts_indexes ts) of (others, bms) \<Rightarrow>
     let names = ''id'' # sort others; classic = length names
     in case compile_indexes tname ts classic start 0 (names @ sort bms) of
       Panic \<Rightarrow> Panic
     | Ret (Inl e) \<Rightarrow> Ret (Inl e)
     | Ret (Inr cis) \<Rightarrow> Ret (Inr (resolveNames
         \<lparr>ct_name = tname, ct_ord = tord, ct_indexes = cis, ct_classic = classic,
          ct_byName = \<lparr>entries = [], off = []\<rparr>, ct_bitmapByName = None\<rparr>)))"

text \<open>The loop over the tables: the next table's position and first slot, and the name builder.\<close>

fun compile_tables :: "dbSchema \<Rightarrow> nat \<Rightarrow> nat \<Rightarrow> string list \<Rightarrow> compiledTable nameIndex \<Rightarrow> (schema_error + compiledTable nameIndex) outcome" where
  "compile_tables sch tord start [] b = Ret (Inr b)"
| "compile_tables sch tord start (tname # names) b = (case map_of sch tname of
     None \<Rightarrow> Panic
   | Some ts \<Rightarrow> (case compile_table tname ts start tord of
       Panic \<Rightarrow> Panic
     | Ret (Inl e) \<Rightarrow> Ret (Inl e)
     | Ret (Inr ct) \<Rightarrow> compile_tables sch (tord + 1) (start + length (ct_indexes ct)) names (nb_place tname ct b)))"

definition compileSchema :: "dbSchema \<Rightarrow> (schema_error + compiledTable nameIndex \<times> nat) outcome" where
  "compileSchema sch =
    (let tableNames = sort (map fst sch);
         total = sum_list (map (\<lambda>(n, ts). length (ts_indexes ts)) sch);
         longest = fold (\<lambda>n m. max m (length n)) tableNames 0;
         b = nb_counted (fold (\<lambda>n. nb_count (length n)) tableNames (nb_start zero_table (length tableNames) longest))
     in case compile_tables sch 0 0 tableNames b of
       Panic \<Rightarrow> Panic
     | Ret (Inl e) \<Rightarrow> Ret (Inl e)
     | Ret (Inr b') \<Rightarrow> Ret (Inr (nb_done b', total)))"

section \<open>The layout of a compiled schema\<close>

text \<open>What the transactions rely on, for one table and for all of them.\<close>

definition ct_wf :: "compiledTable \<Rightarrow> bool" where
  "ct_wf ct \<longleftrightarrow> 0 < ct_classic ct \<and> ct_classic ct \<le> length (ct_indexes ct) \<and>
     distinct (map ci_name (ct_indexes ct)) \<and>
     ci_name (ct_indexes ct ! 0) = ''id'' \<and> ci_unique (ct_indexes ct ! 0) \<and> is_single (ci_ix (ct_indexes ct ! 0)) \<and>
     (\<forall>i<length (ct_indexes ct). ci_ord (ct_indexes ct ! i) = i \<and>
        (ci_bitmap (ct_indexes ct ! i) \<longleftrightarrow> ct_classic ct \<le> i) \<and>
        ci_slot (ct_indexes ct ! i) = ci_slot (ct_indexes ct ! 0) + i) \<and>
     ct_byName ct = indexNames (take (ct_classic ct) (ct_indexes ct)) \<and>
     ct_bitmapByName ct = (if ct_classic ct < length (ct_indexes ct)
       then Some (indexNames (drop (ct_classic ct) (ct_indexes ct))) else None)"

definition slots_of :: "compiledTable \<Rightarrow> nat set" where
  "slots_of ct = ci_slot ` set (ct_indexes ct)"

definition db_ok :: "compiledTable nameIndex \<Rightarrow> nat \<Rightarrow> bool" where
  "db_ok tabs ntrees \<longleftrightarrow> (\<forall>n ct. ni_get tabs n = Some ct \<longrightarrow>
     ct_name ct = n \<and> ct_wf ct \<and> slots_of ct \<subseteq> {..<ntrees} \<and>
     (\<forall>n' ct'. ni_get tabs n' = Some ct' \<longrightarrow> n' \<noteq> n \<longrightarrow> ct_ord ct' \<noteq> ct_ord ct \<and> slots_of ct' \<inter> slots_of ct = {}))"

text \<open>How a compiled table follows its schema: the order of its indexes, and their flags.\<close>

definition follows_schema :: "compiledTable \<Rightarrow> tableSchema \<Rightarrow> bool" where
  "follows_schema ct ts \<longleftrightarrow>
     map ci_name (ct_indexes ct) = ''id'' # sort (fst (split_names (ts_indexes ts))) @ sort (snd (split_names (ts_indexes ts))) \<and>
     ct_classic ct = 1 + length (fst (split_names (ts_indexes ts))) \<and>
     (\<forall>ci\<in>set (ct_indexes ct). \<exists>is. map_of (ts_indexes ts) (ci_name ci) = Some is \<and>
        ci_unique ci = is_unique is \<and> ci_allowMissing ci = is_allowMissing is \<and>
        is_indexer is = (if ci_bitmap ci then SBitmap (SPlain (ci_ix ci)) else SPlain (ci_ix ci)))"

text \<open>A schema NewMemDB accepts; the keys of Go maps are distinct.\<close>

definition schema_valid :: "dbSchema \<Rightarrow> bool" where
  "schema_valid sch \<longleftrightarrow> DBSchema_Validate (Some sch) = None \<and> distinct (map fst sch) \<and>
     (\<forall>(n, ts)\<in>set sch. distinct (map fst (ts_indexes ts)))"

lemma validate_tablesD: "validate_tables ts = None \<Longrightarrow> (n, t) \<in> set ts \<Longrightarrow> TableSchema_Validate t = None \<and> ts_name t = n"
  by (induction ts rule: validate_tables.induct) (auto split: if_splits option.splits)

lemma validate_indexesD: "validate_indexes is = None \<Longrightarrow> (n, i) \<in> set is \<Longrightarrow> IndexSchema_Validate i = None \<and> is_name i = n"
  by (induction "is" rule: validate_indexes.induct) (auto split: if_splits option.splits)

lemma split_names_filter:
  "split_names is = (map fst (filter (\<lambda>(n, i). \<not> isBitmap (is_indexer i) \<and> n \<noteq> ''id'') is),
     map fst (filter (\<lambda>(n, i). isBitmap (is_indexer i)) is))"
  by (induction "is" rule: split_names.induct) auto

lemma compile_indexes_each:
  "compile_indexes tname ts classic slot ord names = Ret (Inr cis) \<Longrightarrow>
   length cis = length names \<and>
   (\<forall>i<length names. compile_index tname ts classic (slot + i) (ord + i) (names ! i) = Ret (Inr (cis ! i)))"
proof (induction names arbitrary: slot ord cis)
  case (Cons n ns)
  then obtain ci cis' where c: "compile_index tname ts classic slot ord n = Ret (Inr ci)" "cis = ci # cis'"
      "compile_indexes tname ts classic (slot + 1) (ord + 1) ns = Ret (Inr cis')"
    by (auto split: outcome.splits sum.splits)
  then show ?case using Cons.IH [OF c(3)] by (auto simp: nth_Cons split: nat.split)
qed simp

lemma compile_indexes_panic:
  assumes "\<And>i. i < length names \<Longrightarrow> compile_index tname ts classic (slot + i) (ord + i) (names ! i) \<noteq> Panic"
  shows "compile_indexes tname ts classic slot ord names \<noteq> Panic"
  using assms
proof (induction names arbitrary: slot ord)
  case (Cons n ns)
  have "compile_indexes tname ts classic (slot + 1) (ord + 1) ns \<noteq> Panic"
    using Cons.prems [of "Suc _"] by (intro Cons.IH) simp
  moreover have "compile_index tname ts classic slot ord n \<noteq> Panic" using Cons.prems [of 0] by simp
  ultimately show ?case by (auto split: outcome.splits sum.splits)
qed simp

lemma compile_tables_each:
  "compile_tables sch tord start names b = Ret (Inr b') \<Longrightarrow>
   \<exists>cts. length cts = length names \<and> b' = fold (\<lambda>(n, v). nb_place n v) (zip names cts) b \<and>
     (\<forall>i<length names. \<exists>ts. map_of sch (names ! i) = Some ts \<and>
        compile_table (names ! i) ts (start + sum_list (map (\<lambda>c. length (ct_indexes c)) (take i cts))) (tord + i) = Ret (Inr (cts ! i)))"
proof (induction names arbitrary: tord start b)
  case (Cons n ns)
  then obtain ts ct where c: "map_of sch n = Some ts" "compile_table n ts start tord = Ret (Inr ct)"
      "compile_tables sch (tord + 1) (start + length (ct_indexes ct)) ns (nb_place n ct b) = Ret (Inr b')"
    by (auto split: outcome.splits sum.splits option.splits)
  obtain cts where cts: "length cts = length ns" "b' = fold (\<lambda>(n, v). nb_place n v) (zip ns cts) (nb_place n ct b)"
      "\<And>i. i < length ns \<Longrightarrow> \<exists>ts. map_of sch (ns ! i) = Some ts \<and>
        compile_table (ns ! i) ts (start + length (ct_indexes ct) + sum_list (map (\<lambda>c. length (ct_indexes c)) (take i cts)))
          (tord + 1 + i) = Ret (Inr (cts ! i))"
    using Cons.IH [OF c(3)] by blast
  have "\<exists>ts. map_of sch ((n # ns) ! i) = Some ts \<and>
      compile_table ((n # ns) ! i) ts (start + sum_list (map (\<lambda>c. length (ct_indexes c)) (take i (ct # cts)))) (tord + i) =
        Ret (Inr ((ct # cts) ! i))" if "i < length (n # ns)" for i
    using that c cts(3) [of "i - 1"] by (cases i) (simp_all add: add.assoc)
  then show ?case using cts by (intro exI [of _ "ct # cts"]) simp
qed simp

lemma compile_tables_panic:
  assumes "\<And>n s t. n \<in> set names \<Longrightarrow> \<exists>ts. map_of sch n = Some ts \<and> compile_table n ts s t \<noteq> Panic"
  shows "compile_tables sch tord start names b \<noteq> Panic"
  using assms
proof (induction names arbitrary: tord start b)
  case (Cons n ns)
  obtain ts where ts: "map_of sch n = Some ts" "compile_table n ts start tord \<noteq> Panic" using Cons.prems [of n] by auto
  have "compile_tables sch t s ns b' \<noteq> Panic" for t s b' using Cons.prems by (intro Cons.IH) simp
  then show ?case using ts by (auto split: outcome.splits sum.splits)
qed simp

text \<open>One table of a valid schema.\<close>

definition table_valid :: "tableSchema \<Rightarrow> bool" where
  "table_valid ts \<longleftrightarrow> TableSchema_Validate ts = None \<and> distinct (map fst (ts_indexes ts))"

lemma table_valid_id:
  "table_valid ts \<Longrightarrow> \<exists>is ix. map_of (ts_indexes ts) ''id'' = Some is \<and> is_unique is \<and> is_indexer is = SPlain ix \<and> is_single ix"
  by (auto simp: table_valid_def TableSchema_Validate_def SingleIndexer_def split: if_splits option.splits sindexer.splits)

lemma table_valid_index:
  assumes "table_valid ts" and "(n, is) \<in> set (ts_indexes ts)"
  shows "is_indexer is \<noteq> SNone \<and> map_of (ts_indexes ts) n = Some is \<and> is_name is = n"
  using assms validate_indexesD [of "ts_indexes ts" n "is"]
  by (auto simp: table_valid_def TableSchema_Validate_def IndexSchema_Validate_def split: if_splits option.splits)

lemma table_names:
  assumes "table_valid ts"
  shows "distinct (''id'' # sort (fst (split_names (ts_indexes ts))) @ sort (snd (split_names (ts_indexes ts)))) \<and>
    set (''id'' # sort (fst (split_names (ts_indexes ts))) @ sort (snd (split_names (ts_indexes ts)))) = fst ` set (ts_indexes ts) \<and>
    length (''id'' # fst (split_names (ts_indexes ts)) @ snd (split_names (ts_indexes ts))) = length (ts_indexes ts)"
proof -
  let ?is = "ts_indexes ts"
  let ?C = "filter (\<lambda>(n, i). \<not> isBitmap (is_indexer i) \<and> n \<noteq> ''id'') ?is"
  let ?B = "filter (\<lambda>(n, i). isBitmap (is_indexer i)) ?is"
  let ?L = "''id'' # map fst ?C @ map fst ?B"
  have d: "distinct (map fst ?is)" using assms by (simp add: table_valid_def)
  obtain is0 ix where id: "map_of ?is ''id'' = Some is0" "is_indexer is0 = SPlain ix"
    using table_valid_id [OF assms] by auto
  have idn: "\<not> isBitmap (is_indexer i)" if "(''id'', i) \<in> set ?is" for i
    using that id map_of_is_SomeI [OF d that] by (simp add: isBitmap_def)
  have key: "i = j" if "(n, i) \<in> set ?is" "(n, j) \<in> set ?is" for n i j
    using map_of_is_SomeI [OF d that(1)] map_of_is_SomeI [OF d that(2)] by simp
  have dC: "distinct (map fst ?C)" and dB: "distinct (map fst ?B)" using d by (simp_all add: distinct_map_filter)
  have "''id'' \<in> fst ` set ?is" using map_of_SomeD [OF id(1)] by force
  then have s1: "set ?L \<subseteq> fst ` set ?is" by auto
  have s2: "fst p \<in> set ?L" if "p \<in> set ?is" for p
  proof (cases "isBitmap (is_indexer (snd p))")
    case True
    then have "p \<in> set ?B" using that by (cases p) simp
    then show ?thesis by simp
  next
    case False
    show ?thesis
    proof (cases "fst p = ''id''")
      case False
      with \<open>\<not> isBitmap _\<close> have "p \<in> set ?C" using that by (cases p) simp
      then show ?thesis by simp
    qed simp
  qed
  have s: "set ?L = set (map fst ?is)" using s1 s2 by auto
  have "''id'' \<notin> set (map fst ?C)" by auto
  moreover have "''id'' \<notin> set (map fst ?B)" using idn by auto
  moreover have "set (map fst ?C) \<inter> set (map fst ?B) = {}"
  proof (rule ccontr)
    assume "set (map fst ?C) \<inter> set (map fst ?B) \<noteq> {}"
    then obtain n i j where "(n, i) \<in> set ?is" "(n, j) \<in> set ?is" "\<not> isBitmap (is_indexer i)" "isBitmap (is_indexer j)"
      by auto
    then show False using key by blast
  qed
  ultimately have dL: "distinct ?L" using dC dB by auto
  have "length ?L = card (set ?L)" using distinct_card [OF dL] by (rule sym)
  also have "\<dots> = length ?is" unfolding s using distinct_card [OF d] by simp
  finally have len: "length ?L = length ?is" .
  have sn: "fst (split_names ?is) = map fst ?C" "snd (split_names ?is) = map fst ?B"
    by (simp_all only: split_names_filter fst_conv snd_conv)
  have "distinct (''id'' # sort (map fst ?C) @ sort (map fst ?B))" using dL by simp
  moreover have "set (''id'' # sort (map fst ?C) @ sort (map fst ?B)) = set ?L" by simp
  ultimately show ?thesis unfolding sn using s len by simp
qed

lemma compile_indexD:
  assumes "compile_index tname ts classic slot ord n = Ret (Inr ci)"
  shows "ci_name ci = n \<and> ci_slot ci = slot \<and> ci_ord ci = ord \<and> (ci_bitmap ci \<longleftrightarrow> classic \<le> ord) \<and>
    (\<exists>is. map_of (ts_indexes ts) n = Some is \<and> ci_unique ci = is_unique is \<and> ci_allowMissing ci = is_allowMissing is \<and>
      is_indexer is = (if ci_bitmap ci then SBitmap (SPlain (ci_ix ci)) else SPlain (ci_ix ci)))"
  using assms
  by (auto simp: compile_index_def Let_def split: option.splits if_splits sindexer.splits outcome.splits)

lemma compile_table_ok:
  assumes "table_valid ts" and "compile_table tname ts start tord = Ret (Inr ct)"
  shows "ct_name ct = tname \<and> ct_ord ct = tord \<and> ct_wf ct \<and> follows_schema ct ts \<and>
    slots_of ct = {start ..< start + length (ct_indexes ct)} \<and> length (ct_indexes ct) = length (ts_indexes ts)"
proof -
  let ?o = "sort (fst (split_names (ts_indexes ts)))" and ?b = "sort (snd (split_names (ts_indexes ts)))"
  let ?names = "''id'' # ?o @ ?b" and ?cl = "1 + length ?o"
  obtain cis where c: "compile_indexes tname ts ?cl start 0 ?names = Ret (Inr cis)"
      "ct = resolveNames \<lparr>ct_name = tname, ct_ord = tord, ct_indexes = cis, ct_classic = ?cl,
          ct_byName = \<lparr>entries = [], off = []\<rparr>, ct_bitmapByName = None\<rparr>"
    using assms(2) by (auto simp: compile_table_def Let_def split: prod.splits outcome.splits sum.splits)
  have len: "length cis = length ?names"
    and each: "\<And>i. i < length ?names \<Longrightarrow> compile_index tname ts ?cl (start + i) i (?names ! i) = Ret (Inr (cis ! i))"
    using compile_indexes_each [OF c(1)] by auto
  have nm: "map ci_name cis = ?names"
    using len compile_indexD [OF each] by (intro nth_equalityI) auto
  have ct: "ct_name ct = tname" "ct_ord ct = tord" "ct_indexes ct = cis" "ct_classic ct = ?cl"
      "ct_byName ct = indexNames (take ?cl cis)"
      "ct_bitmapByName ct = (if ?cl < length cis then Some (indexNames (drop ?cl cis)) else None)"
    by (simp_all add: c(2) resolveNames_def)
  have slot: "ci_slot (cis ! i) = start + i" "ci_ord (cis ! i) = i" "ci_bitmap (cis ! i) \<longleftrightarrow> ?cl \<le> i" if "i < length cis" for i
    using compile_indexD [OF each, of i] that len by auto
  have sl: "slots_of ct = {start ..< start + length cis}"
  proof -
    have "set cis = (\<lambda>i. cis ! i) ` {..<length cis}" by (auto simp: set_conv_nth)
    then have "slots_of ct = (\<lambda>i. start + i) ` {..<length cis}"
      using slot(1) by (auto simp: slots_of_def ct image_iff)
    then show ?thesis by (auto simp: image_iff) (metis add_diff_inverse_nat add_less_cancel_left lessThan_iff not_le)
  qed
  have zero: "0 < length cis" using len by simp
  obtain is0 ix where id: "map_of (ts_indexes ts) ''id'' = Some is0" "is_unique is0" "is_indexer is0 = SPlain ix" "is_single ix"
    using table_valid_id [OF assms(1)] by auto
  have "compile_index tname ts ?cl (start + 0) 0 ''id'' = Ret (Inr (cis ! 0))" using each [of 0] by simp
  note i0 = compile_indexD [OF this]
  have "ci_unique (cis ! 0) \<and> ci_ix (cis ! 0) = ix" using i0 id by (auto split: if_splits)
  moreover have "ci_name (cis ! 0) = ''id''" using i0 by simp
  moreover have "?cl \<le> length cis" unfolding len by simp
  moreover have "distinct (map ci_name cis)" unfolding nm using table_names [OF assms(1)] by blast
  moreover have "ci_slot (cis ! i) = ci_slot (cis ! 0) + i" if "i < length cis" for i
    using slot(1) [OF that] slot(1) [OF zero] by simp
  ultimately have "ct_wf ct" unfolding ct_wf_def ct using slot(2,3) id(4) by simp
  moreover have "follows_schema ct ts"
    unfolding follows_schema_def ct nm
  proof (intro conjI ballI)
    fix ci assume "ci \<in> set cis"
    then obtain i where i: "i < length ?names" "ci = cis ! i" using len by (auto simp only: in_set_conv_nth)
    note D = compile_indexD [OF each [OF i(1)]]
    have "?names ! i = ci_name (cis ! i)" using D by simp
    then show "\<exists>is. map_of (ts_indexes ts) (ci_name ci) = Some is \<and> ci_unique ci = is_unique is \<and>
        ci_allowMissing ci = is_allowMissing is \<and>
        is_indexer is = (if ci_bitmap ci then SBitmap (SPlain (ci_ix ci)) else SPlain (ci_ix ci))"
      unfolding i(2) using D by metis
  qed (simp_all add: split_names_filter)
  moreover have "length cis = length (ts_indexes ts)" using len table_names [OF assms(1)] by simp
  ultimately show ?thesis using ct sl by simp
qed

lemma compile_index_runs:
  assumes "table_valid ts" and "n \<in> fst ` set (ts_indexes ts)"
    and "classic \<le> ord \<longleftrightarrow> (\<exists>i. map_of (ts_indexes ts) n = Some i \<and> isBitmap (is_indexer i))"
  shows "compile_index tname ts classic slot ord n \<noteq> Panic"
proof -
  obtain i where i: "(n, i) \<in> set (ts_indexes ts)" using assms(2) by auto
  have v: "is_indexer i \<noteq> SNone" "map_of (ts_indexes ts) n = Some i" using table_valid_index [OF assms(1) i] by simp_all
  have "validateBitmapIndex tname i inner = None \<Longrightarrow> \<exists>ix. inner = SPlain ix" for inner
    by (cases inner) (auto simp: validateBitmapIndex_def isBitmap_def SingleIndexer_def MultiIndexer_def split: if_splits)
  then show ?thesis using v assms(3)
    by (cases "is_indexer i") (auto simp: compile_index_def Let_def isBitmap_def split: option.splits sindexer.splits)
qed

lemma compile_table_runs:
  assumes "table_valid ts"
  shows "compile_table tname ts start tord \<noteq> Panic"
proof -
  let ?o = "sort (fst (split_names (ts_indexes ts)))" and ?b = "sort (snd (split_names (ts_indexes ts)))"
  let ?names = "''id'' # ?o @ ?b" and ?cl = "length (''id'' # ?o)"
  have bm: "n \<in> set ?b \<longleftrightarrow> (\<exists>i. map_of (ts_indexes ts) n = Some i \<and> isBitmap (is_indexer i))" for n
  proof
    assume "n \<in> set ?b"
    then obtain i where "(n, i) \<in> set (ts_indexes ts)" "isBitmap (is_indexer i)" by (auto simp: split_names_filter)
    then show "\<exists>i. map_of (ts_indexes ts) n = Some i \<and> isBitmap (is_indexer i)" using table_valid_index [OF assms] by blast
  next
    assume "\<exists>i. map_of (ts_indexes ts) n = Some i \<and> isBitmap (is_indexer i)"
    then show "n \<in> set ?b" by (force simp: split_names_filter dest: map_of_SomeD)
  qed
  have "compile_indexes tname ts ?cl start 0 ?names \<noteq> Panic"
  proof (rule compile_indexes_panic)
    fix i assume i: "i < length ?names"
    have d: "distinct ?names" and s: "set ?names = fst ` set (ts_indexes ts)" using table_names [OF assms] by blast+
    have nth: "?names ! i \<in> set ?names" using i by (rule nth_mem)
    have "?cl \<le> 0 + i \<longleftrightarrow> ?names ! i \<in> set ?b"
    proof
      assume "?cl \<le> 0 + i"
      then have "?names ! i = ?b ! (i - ?cl)" "i - ?cl < length ?b" using i by (auto simp: nth_append nth_Cons split: nat.split)
      then show "?names ! i \<in> set ?b" by (simp only: nth_mem)
    next
      assume "?names ! i \<in> set ?b"
      then have "?names ! i \<notin> set (''id'' # ?o)" using d by auto
      moreover have "i < ?cl \<Longrightarrow> ?names ! i = (''id'' # ?o) ! i" by (simp add: nth_append nth_Cons split: nat.split)
      ultimately show "?cl \<le> 0 + i" by (metis add_0 nth_mem not_le)
    qed
    then show "compile_index tname ts ?cl (start + i) (0 + i) (?names ! i) \<noteq> Panic"
      using nth s by (intro compile_index_runs [OF assms]) (simp_all only: bm)
  qed
  then show ?thesis by (auto simp: compile_table_def Let_def split_names_filter split: outcome.splits sum.splits)
qed

lemma schema_valid_table: "schema_valid sch \<Longrightarrow> map_of sch n = Some ts \<Longrightarrow> table_valid ts"
proof -
  assume v: "schema_valid sch" and n: "map_of sch n = Some ts"
  have "(n, ts) \<in> set sch" using n by (rule map_of_SomeD)
  moreover have "validate_tables sch = None" using v by (simp add: schema_valid_def DBSchema_Validate_def split: if_splits)
  ultimately show "table_valid ts" using v validate_tablesD [of sch n ts]
    unfolding table_valid_def schema_valid_def by blast
qed

lemma count_zip:
  "length cts = length ns \<Longrightarrow> fold (\<lambda>(n, v). nb_count (length n)) (zip ns cts) b = fold (\<lambda>n. nb_count (length n)) ns b"
  by (induction cts ns arbitrary: b rule: list_induct2) auto

lemma compileSchema_each:
  assumes "schema_valid sch" and "compileSchema sch = Ret (Inr (tabs, ntrees))"
  shows "\<exists>cts. length cts = length sch \<and> tabs = build_names zero_table (fold (\<lambda>n m. max m (length n)) (sort (map fst sch)) 0)
       (zip (sort (map fst sch)) cts) \<and>
     (\<forall>i<length sch. \<exists>ts. map_of sch (sort (map fst sch) ! i) = Some ts \<and>
        compile_table (sort (map fst sch) ! i) ts (sum_list (map (\<lambda>c. length (ct_indexes c)) (take i cts))) i = Ret (Inr (cts ! i)))"
proof -
  let ?ns = "sort (map fst sch)"
  let ?longest = "fold (\<lambda>n m. max m (length n)) ?ns 0"
  let ?b = "nb_counted (fold (\<lambda>n. nb_count (length n)) ?ns (nb_start zero_table (length ?ns) ?longest))"
  obtain b' where b': "compile_tables sch 0 0 ?ns ?b = Ret (Inr b')" "tabs = nb_done b'"
    using assms(2) by (auto simp: compileSchema_def Let_def split: outcome.splits sum.splits)
  obtain cts where cts: "length cts = length ?ns" "b' = fold (\<lambda>(n, v). nb_place n v) (zip ?ns cts) ?b"
      "\<forall>i<length ?ns. \<exists>ts. map_of sch (?ns ! i) = Some ts \<and>
        compile_table (?ns ! i) ts (0 + sum_list (map (\<lambda>c. length (ct_indexes c)) (take i cts))) (0 + i) = Ret (Inr (cts ! i))"
    using compile_tables_each [OF b'(1)] by blast
  have "tabs = build_names zero_table ?longest (zip ?ns cts)"
    unfolding build_names_def count_zip [OF cts(1)] b'(2) cts(2) using cts(1) by simp
  then show ?thesis using cts by (intro exI [of _ cts]) simp
qed

lemma longest_of: "\<forall>n\<in>set ns. length n \<le> fold (\<lambda>n m. max m (length n)) ns k"
  using longest_names [of "map (\<lambda>n. (n, ())) ns" k] by (simp add: fold_map comp_def)

lemma sum_take_mono: "i \<le> j \<Longrightarrow> sum_list (take i xs) \<le> sum_list (take j (xs :: nat list))"
  using take_add [of i "j - i" xs] by simp

lemma compiled_tables:
  assumes "schema_valid sch" and "compileSchema sch = Ret (Inr (tabs, ntrees))"
  shows "db_ok tabs ntrees \<and> (\<forall>n. case map_of sch n of None \<Rightarrow> ni_get tabs n = None
      | Some ts \<Rightarrow> (\<exists>ct. ni_get tabs n = Some ct \<and> follows_schema ct ts)) \<and>
    (\<forall>n ct. ni_get tabs n = Some ct \<longrightarrow> ct_ord ct < length sch)"
proof -
  let ?ns = "sort (map fst sch)"
  let ?len = "\<lambda>c. length (ct_indexes c)"
  obtain cts where cts: "length cts = length sch"
      "tabs = build_names zero_table (fold (\<lambda>n m. max m (length n)) ?ns 0) (zip ?ns cts)"
      "\<And>i. i < length sch \<Longrightarrow> \<exists>ts. map_of sch (?ns ! i) = Some ts \<and>
        compile_table (?ns ! i) ts (sum_list (map ?len (take i cts))) i = Ret (Inr (cts ! i))"
    using compileSchema_each [OF assms] by blast
  have d: "distinct ?ns" using assms(1) by (simp add: schema_valid_def)
  have get: "ni_get tabs n = map_of (zip ?ns cts) n" for n
    unfolding cts(2)
  proof (rule build_names_get)
    have "fst e \<in> set ?ns" if "e \<in> set (zip ?ns cts)" for e using that set_zip_leftD [of "fst e" "snd e" ?ns cts] by simp
    then show "\<forall>e\<in>set (zip ?ns cts). length (fst e) \<le> fold (\<lambda>n m. max m (length n)) ?ns 0"
      using longest_of [of ?ns 0] by blast
    show "distinct (map fst (zip ?ns cts))" using d cts(1) by simp
  qed
  have ok: "ct_name (cts ! i) = ?ns ! i \<and> ct_ord (cts ! i) = i \<and> ct_wf (cts ! i) \<and>
      slots_of (cts ! i) = {sum_list (map ?len (take i cts)) ..< sum_list (map ?len (take (Suc i) cts))} \<and>
      (\<exists>ts. map_of sch (?ns ! i) = Some ts \<and> follows_schema (cts ! i) ts \<and> ?len (cts ! i) = length (ts_indexes ts))"
    if i: "i < length sch" for i
  proof -
    obtain ts where ts: "map_of sch (?ns ! i) = Some ts"
        "compile_table (?ns ! i) ts (sum_list (map ?len (take i cts))) i = Ret (Inr (cts ! i))"
      using cts(3) [OF i] by blast
    have "take (Suc i) cts = take i cts @ [cts ! i]" using i cts(1) by (simp add: take_Suc_conv_app_nth)
    then show ?thesis using compile_table_ok [OF schema_valid_table [OF assms(1) ts(1)] ts(2)] ts(1) by simp
  qed
  have at: "\<exists>i<length sch. n = ?ns ! i \<and> ct = cts ! i" if "ni_get tabs n = Some ct" for n ct
    using that map_of_SomeD [of "zip ?ns cts" n ct] cts(1) unfolding get by (auto simp: in_set_zip)
  have "sum_list (map ?len (take (Suc i) cts)) \<le> ntrees" if "i < length sch" for i
  proof -
    have "sum_list (map ?len cts) = sum_list (map (\<lambda>n. length (ts_indexes (the (map_of sch n)))) ?ns)"
    proof (rule arg_cong [where f = sum_list], rule nth_equalityI)
      fix i assume "i < length (map ?len cts)"
      then show "map ?len cts ! i = map (\<lambda>n. length (ts_indexes (the (map_of sch n)))) ?ns ! i"
        using ok [of i] cts(1) by auto
    qed (simp add: cts(1))
    also have "\<dots> = sum_list (map (\<lambda>n. length (ts_indexes (the (map_of sch n)))) (map fst sch))"
      by (simp flip: sum_mset_sum_list add: multiset.map_comp comp_def)
    also have "\<dots> = sum_list (map (\<lambda>(n, ts). length (ts_indexes ts)) sch)"
      using assms(1) by (auto simp: schema_valid_def comp_def intro!: arg_cong [where f = sum_list])
    also have "\<dots> = ntrees"
      using assms(2) by (auto simp: compileSchema_def Let_def split: outcome.splits sum.splits)
    finally show ?thesis using sum_take_mono [of "Suc i" "length cts" "map ?len cts"] that cts(1) by (simp add: take_map)
  qed
  note within = this
  have disj: "slots_of (cts ! i) \<inter> slots_of (cts ! j) = {}" if "i < j" "j < length sch" for i j
    using ok [of i] ok [of j] that sum_take_mono [of "Suc i" j "map ?len cts"] by (auto simp: take_map)
  have "db_ok tabs ntrees"
    unfolding db_ok_def
  proof (intro allI impI)
    fix n ct assume "ni_get tabs n = Some ct"
    then obtain i where i: "i < length sch" "n = ?ns ! i" "ct = cts ! i" using at by blast
    have "ct_ord ct' \<noteq> ct_ord ct \<and> slots_of ct' \<inter> slots_of ct = {}" if ct': "ni_get tabs n' = Some ct'" "n' \<noteq> n" for n' ct'
    proof -
      obtain j where j: "j < length sch" "n' = ?ns ! j" "ct' = cts ! j" using at [OF ct'(1)] by blast
      then have "j \<noteq> i" using i ct'(2) by auto
      then show ?thesis using disj [of i j] disj [of j i] ok [OF i(1)] ok [OF j(1)] i j by (cases "i < j") auto
    qed
    then show "ct_name ct = n \<and> ct_wf ct \<and> slots_of ct \<subseteq> {..<ntrees} \<and>
       (\<forall>n' ct'. ni_get tabs n' = Some ct' \<longrightarrow> n' \<noteq> n \<longrightarrow> ct_ord ct' \<noteq> ct_ord ct \<and> slots_of ct' \<inter> slots_of ct = {})"
      using ok [OF i(1)] within [OF i(1)] i by auto
  qed
  moreover have "ct_ord ct < length sch" if "ni_get tabs n = Some ct" for n ct
    using at [OF that] ok by auto
  moreover have "case map_of sch n of None \<Rightarrow> ni_get tabs n = None
      | Some ts \<Rightarrow> (\<exists>ct. ni_get tabs n = Some ct \<and> follows_schema ct ts)" for n
  proof (cases "map_of sch n")
    case None
    then have "n \<notin> set ?ns" by (auto simp: map_of_eq_None_iff)
    then show ?thesis using None cts(1) by (simp add: get map_of_zip_is_None)
  next
    case (Some ts)
    then have "n \<in> set ?ns" by (force dest: map_of_SomeD)
    then obtain i where i: "i < length ?ns" "n = ?ns ! i" by (metis in_set_conv_nth)
    then have "ni_get tabs n = Some (cts ! i)" using d cts(1) by (simp add: get map_of_zip_nth)
    then show ?thesis using ok [of i] i Some by auto
  qed
  ultimately show ?thesis by blast
qed

section \<open>Index names\<close>

lemma HasSuffix_append [simp]: "HasSuffix (n @ sfx) sfx"
  by (simp add: HasSuffix_def)

lemma TrimSuffix_append [simp]: "TrimSuffix (n @ sfx) sfx = n"
  by (simp add: TrimSuffix_def)

lemma HasSuffix_eq: "HasSuffix q sfx \<Longrightarrow> q = TrimSuffix q sfx @ sfx"
  by (simp add: TrimSuffix_def HasSuffix_def) (metis append_take_drop_id)

lemma ref_names_get:
  "map_of (ref_names ci) q =
    (if ci_name ci = TrimSuffix q prefixSuffix then Some (ci, HasSuffix q prefixSuffix) else None)"
proof (cases "HasSuffix q prefixSuffix")
  case True
  then have "q = TrimSuffix q prefixSuffix @ prefixSuffix" by (rule HasSuffix_eq)
  then obtain n where n: "q = n @ prefixSuffix" by blast
  have ne: "ci_name ci \<noteq> n @ prefixSuffix" if "\<not> HasSuffix (ci_name ci) prefixSuffix"
    using that HasSuffix_append by metis
  have "prefixSuffix \<noteq> []" by (simp add: prefixSuffix_def)
  then show ?thesis using ne [symmetric] by (auto simp: ref_names_def n)
next
  case False
  then have "TrimSuffix q prefixSuffix = q" by (simp add: TrimSuffix_def)
  then show ?thesis using False by (auto simp: ref_names_def)
qed

lemma ref_names_trim: "n \<in> fst ` set (ref_names ci) \<Longrightarrow> TrimSuffix n prefixSuffix = ci_name ci"
  by (auto simp: ref_names_def TrimSuffix_def [of "ci_name ci"] split: if_splits)

lemma ref_names_distinct:
  "distinct (map ci_name ixs) \<Longrightarrow> distinct (map fst (concat (map ref_names ixs)))"
proof (induction ixs)
  case (Cons ci ixs)
  have "distinct (map fst (ref_names ci))" by (simp add: ref_names_def prefixSuffix_def)
  moreover have "fst ` set (ref_names ci) \<inter> fst ` set (concat (map ref_names ixs)) = {}"
  proof (rule ccontr)
    assume "fst ` set (ref_names ci) \<inter> fst ` set (concat (map ref_names ixs)) \<noteq> {}"
    then obtain n cj where "n \<in> fst ` set (ref_names ci)" "cj \<in> set ixs" "n \<in> fst ` set (ref_names cj)" by auto
    then have "ci_name ci = ci_name cj" using ref_names_trim by metis
    then show False using Cons.prems \<open>cj \<in> set ixs\<close> by simp
  qed
  ultimately show ?case using Cons by simp
qed simp

lemma ref_names_find:
  "map_of (concat (map ref_names ixs)) q =
    map_option (\<lambda>ci. (ci, HasSuffix q prefixSuffix)) (find (\<lambda>ci. ci_name ci = TrimSuffix q prefixSuffix) ixs)"
  by (induction ixs) (auto simp: map_add_def ref_names_get)

lemma longest_index: "\<forall>ci\<in>set ixs. length (ci_name ci) + k \<le> fold (\<lambda>ci m. max m (length (ci_name ci) + k)) ixs m"
  and longest_index_start: "m \<le> fold (\<lambda>ci m. max m (length (ci_name ci) + k)) ixs m"
proof (induction ixs arbitrary: m)
  case (Cons ci ixs)
  { case 1 show ?case using Cons.IH(1) [of "max m (length (ci_name ci) + k)"] Cons.IH(2) [of "max m (length (ci_name ci) + k)"] by auto
  next
    case 2 show ?case using Cons.IH(2) [of "max m (length (ci_name ci) + k)"] by auto }
qed auto

lemma indexNames_get:
  assumes "distinct (map ci_name ixs)"
  shows "ni_get (indexNames ixs) q =
    map_option (\<lambda>ci. (ci, HasSuffix q prefixSuffix)) (find (\<lambda>ci. ci_name ci = TrimSuffix q prefixSuffix) ixs)"
proof -
  have "length (fst e) \<le> fold (\<lambda>ci m. max m (length (ci_name ci) + length prefixSuffix)) ixs 0"
    if "e \<in> set (concat (map ref_names ixs))" for e
  proof -
    from that obtain ci where ci: "ci \<in> set ixs" "e \<in> set (ref_names ci)" by auto
    then have "length (fst e) \<le> length (ci_name ci) + length prefixSuffix" by (auto simp: ref_names_def split: if_splits)
    then show ?thesis using longest_index [of ixs "length prefixSuffix" 0] ci(1) by (meson order_trans)
  qed
  then have "ni_get (indexNames ixs) q = map_of (concat (map ref_names ixs)) q"
    unfolding indexNames_def Let_def by (intro build_names_get ref_names_distinct [OF assms] ballI)
  then show ?thesis by (simp only: ref_names_find)
qed

lemma compileSchema_runs:
  assumes "schema_valid sch"
  shows "compileSchema sch \<noteq> Panic"
proof -
  let ?ns = "sort (map fst sch)"
  have "compile_tables sch 0 0 ?ns b \<noteq> Panic" for b
  proof (rule compile_tables_panic)
    fix n s t assume "n \<in> set ?ns"
    then obtain ts where "map_of sch n = Some ts" by (metis map_of_eq_None_iff not_None_eq set_map set_sort)
    then show "\<exists>ts. map_of sch n = Some ts \<and> compile_table n ts s t \<noteq> Panic"
      using compile_table_runs [OF schema_valid_table [OF assms]] by blast
  qed
  then show ?thesis by (simp add: compileSchema_def Let_def split: outcome.split sum.split)
qed

section \<open>Which schemas compile\<close>

text \<open>
  Validate looks at a bitmap index only to see that it is one. Compilation accepts a bitmap index
  that wraps a single- or multi-valued indexer, not another bitmap index, and is not unique.
\<close>

definition bitmap_proper :: "indexSchema \<Rightarrow> bool" where
  "bitmap_proper is \<longleftrightarrow> (case is_indexer is of
     SBitmap inner \<Rightarrow> (case inner of SPlain ix \<Rightarrow> is_single ix \<or> is_multi ix | _ \<Rightarrow> False) \<and> \<not> is_unique is
   | _ \<Rightarrow> True)"

lemma compile_index_proper:
  assumes "compile_index tname ts classic slot ord n = Ret (Inr ci)" and "map_of (ts_indexes ts) n = Some is"
  shows "bitmap_proper is"
  using assms
  by (auto simp: compile_index_def bitmap_proper_def validateBitmapIndex_def SingleIndexer_def MultiIndexer_def isBitmap_def Let_def
      split: option.splits if_splits sindexer.splits)

text \<open>The errors of compilation name an index that is not proper.\<close>

definition bitmap_error :: "string \<Rightarrow> tableSchema \<Rightarrow> schema_error \<Rightarrow> bool" where
  "bitmap_error tname ts e \<longleftrightarrow> (\<exists>n is. (n, is) \<in> set (ts_indexes ts) \<and> \<not> bitmap_proper is \<and>
     e \<in> {EWrapsBitmap (is_name is) tname, EMustWrap (is_name is) tname, EBitmapUnique (is_name is) tname})"

lemma compile_index_error:
  assumes "compile_index tname ts classic slot ord n = Ret (Inl e)"
  shows "bitmap_error tname ts e"
proof -
  obtain s inner where "map_of (ts_indexes ts) n = Some s" "is_indexer s = SBitmap inner" "validateBitmapIndex tname s inner = Some e"
    using assms by (auto simp: compile_index_def Let_def split: option.splits if_splits sindexer.splits)
  then show ?thesis unfolding bitmap_error_def
    by (intro exI [of _ n] exI [of _ s])
      (auto dest!: map_of_SomeD simp: bitmap_proper_def validateBitmapIndex_def SingleIndexer_def MultiIndexer_def isBitmap_def
        split: if_splits sindexer.splits)
qed

lemma compile_indexes_error: "compile_indexes tname ts classic slot ord names = Ret (Inl e) \<Longrightarrow> bitmap_error tname ts e"
  by (induction names arbitrary: slot ord) (auto split: outcome.splits sum.splits dest: compile_index_error)

lemma compile_table_error: "compile_table tname ts start tord = Ret (Inl e) \<Longrightarrow> bitmap_error tname ts e"
  by (auto simp: compile_table_def Let_def simp del: compile_indexes.simps split: prod.splits outcome.splits sum.splits
      dest: compile_indexes_error)

lemma compile_tables_error:
  "compile_tables sch tord start names b = Ret (Inl e) \<Longrightarrow> \<exists>n ts. map_of sch n = Some ts \<and> bitmap_error n ts e"
  by (induction names arbitrary: tord start b) (fastforce split: option.splits outcome.splits sum.splits dest: compile_table_error)+

lemma compile_table_proper:
  assumes "table_valid ts" and "compile_table tname ts start tord = Ret (Inr ct)" and "(n, is) \<in> set (ts_indexes ts)"
  shows "bitmap_proper is"
proof -
  let ?o = "sort (fst (split_names (ts_indexes ts)))" and ?b = "sort (snd (split_names (ts_indexes ts)))"
  let ?names = "''id'' # ?o @ ?b"
  obtain cis where c: "compile_indexes tname ts (1 + length ?o) start 0 ?names = Ret (Inr cis)"
    using assms(2) by (auto simp: compile_table_def Let_def split: prod.splits outcome.splits sum.splits)
  have "n \<in> set ?names" using table_names [OF assms(1)] assms(3) by force
  then obtain i where "i < length ?names" "n = ?names ! i" by (metis in_set_conv_nth)
  then have "\<exists>slot ord ci. compile_index tname ts (1 + length ?o) slot ord n = Ret (Inr ci)"
    using compile_indexes_each [OF c] by blast
  then show ?thesis using compile_index_proper table_valid_index [OF assms(1,3)] by blast
qed

lemma compile_outcome:
  assumes "schema_valid sch"
  shows "case compileSchema sch of
      Panic \<Rightarrow> False
    | Ret (Inl e) \<Rightarrow> \<exists>(n, ts)\<in>set sch. bitmap_error n ts e
    | Ret (Inr _) \<Rightarrow> \<forall>(n, ts)\<in>set sch. \<forall>(i, is)\<in>set (ts_indexes ts). bitmap_proper is"
proof (cases "compileSchema sch")
  case Panic
  then show ?thesis using compileSchema_runs [OF assms] by simp
next
  case (Ret r)
  show ?thesis
  proof (cases r)
    case (Inl e)
    then obtain n ts where "map_of sch n = Some ts" "bitmap_error n ts e"
      using Ret compile_tables_error by (fastforce simp: compileSchema_def Let_def split: outcome.splits sum.splits)
    then show ?thesis using Ret Inl by (auto dest!: map_of_SomeD)
  next
    case (Inr p)
    obtain tabs k where p: "p = (tabs, k)" by fastforce
    let ?ns = "sort (map fst sch)"
    obtain cts where cts: "\<And>i. i < length sch \<Longrightarrow> \<exists>ts. map_of sch (?ns ! i) = Some ts \<and>
        compile_table (?ns ! i) ts (sum_list (map (\<lambda>c. length (ct_indexes c)) (take i cts))) i = Ret (Inr (cts ! i))"
      using compileSchema_each [OF assms, of tabs k] Ret Inr p by blast
    have "bitmap_proper is" if m: "(n, ts) \<in> set sch" "(i, is) \<in> set (ts_indexes ts)" for n ts i "is"
    proof -
      have "n \<in> set ?ns" using m(1) by force
      then obtain l where l: "l < length sch" "n = ?ns ! l" by (metis in_set_conv_nth length_map length_sort)
      have n: "map_of sch n = Some ts" using assms m(1) by (simp add: schema_valid_def)
      then obtain start tord ct where "compile_table n ts start tord = Ret (Inr ct)" using cts [OF l(1)] l(2) by auto
      then show ?thesis using compile_table_proper [OF schema_valid_table [OF assms n]] m(2) by blast
    qed
    then show ?thesis using Ret Inr by auto
  qed
qed

section \<open>The properties\<close>

text \<open>
  C26: compiling a valid schema never panics. It succeeds exactly when every bitmap index wraps a
  single- or multi-valued indexer and is not unique; otherwise it returns an error that names an
  index that is not like that. What it yields has the layout the transactions rely on: every
  table of the schema and no other is found by its name; its first index is the unique,
  single-valued \<open>id\<close>, then come the ordinary indexes and then the bitmap indexes, each sorted by
  name whatever order the maps are iterated in; and every index of every table has a tree slot
  of its own below the number of trees.
\<close>
theorem compiled_schema:
  assumes "schema_valid sch"
  shows "if \<forall>(n, ts)\<in>set sch. \<forall>(i, is)\<in>set (ts_indexes ts). bitmap_proper is
    then \<exists>tabs ntrees. compileSchema sch = Ret (Inr (tabs, ntrees)) \<and> db_ok tabs ntrees \<and>
      (\<forall>n. case map_of sch n of None \<Rightarrow> ni_get tabs n = None | Some ts \<Rightarrow> (\<exists>ct. ni_get tabs n = Some ct \<and> follows_schema ct ts))
    else \<exists>e. compileSchema sch = Ret (Inl e) \<and> (\<exists>(n, ts)\<in>set sch. bitmap_error n ts e)"
proof -
  note o = compile_outcome [OF assms]
  show ?thesis
  proof (cases "compileSchema sch")
    case Panic
    then show ?thesis using o by simp
  next
    case (Ret r)
    show ?thesis
    proof (cases r)
      case (Inl e)
      then obtain n ts where e: "(n, ts) \<in> set sch" "bitmap_error n ts e" using o Ret by auto
      then have "\<not> (\<forall>(n, ts)\<in>set sch. \<forall>(i, is)\<in>set (ts_indexes ts). bitmap_proper is)" by (fastforce simp: bitmap_error_def)
      then show ?thesis using Ret Inl e by auto
    next
      case (Inr p)
      then obtain tabs k where "compileSchema sch = Ret (Inr (tabs, k))" using Ret by (cases p) auto
      then show ?thesis using o compiled_tables [OF assms] by auto
    qed
  qed
qed

definition sample_schema :: dbSchema where
  "sample_schema =
    [(''person'', \<lparr>ts_name = ''person'', ts_indexes =
       [(''status'', \<lparr>is_name = ''status'', is_allowMissing = True, is_unique = False, is_indexer = SBitmap (SPlain (IString ''Status'' False))\<rparr>),
        (''name'', \<lparr>is_name = ''name'', is_allowMissing = False, is_unique = False, is_indexer = SPlain (IString ''Name'' True)\<rparr>),
        (''id'', \<lparr>is_name = ''id'', is_allowMissing = False, is_unique = True, is_indexer = SPlain (IString ''ID'' False)\<rparr>)]\<rparr>)]"

definition sample_tables :: "compiledTable nameIndex" where
  "sample_tables = (case compileSchema sample_schema of Ret (Inr (tabs, _)) \<Rightarrow> tabs | _ \<Rightarrow> \<lparr>entries = [], off = []\<rparr>)"

lemma sample_valid: "schema_valid sample_schema"
  by (simp add: schema_valid_def sample_schema_def DBSchema_Validate_def TableSchema_Validate_def
      IndexSchema_Validate_def SingleIndexer_def MultiIndexer_def is_single_def)

lemma sample_compiles: "compileSchema sample_schema = Ret (Inr (sample_tables, 3))"
proof -
  have "(case compileSchema sample_schema of Ret (Inr (tabs, n)) \<Rightarrow> n = 3 | _ \<Rightarrow> False)" by code_simp
  then show ?thesis by (auto simp: sample_tables_def split: outcome.splits sum.splits)
qed

text \<open>The sample schema compiles; with a unique bitmap index it does not.\<close>

definition improper_schema :: dbSchema where
  "improper_schema = map (\<lambda>(n, ts). (n, ts\<lparr>ts_indexes := map (\<lambda>(i, is). (i, is\<lparr>is_unique := True\<rparr>)) (ts_indexes ts)\<rparr>)) sample_schema"

lemma improper_valid: "schema_valid improper_schema"
  by (simp add: improper_schema_def schema_valid_def sample_schema_def DBSchema_Validate_def TableSchema_Validate_def
      IndexSchema_Validate_def SingleIndexer_def MultiIndexer_def is_single_def)

lemma compiled_schema_witness:
  "db_ok sample_tables 3 \<and> ni_get sample_tables ''dog'' = None \<and>
   (\<exists>ct. ni_get sample_tables ''person'' = Some ct \<and> map ci_name (ct_indexes ct) = [''id'', ''name'', ''status'']) \<and>
   (\<exists>e. compileSchema improper_schema = Ret (Inl e))"
proof -
  have p: "\<forall>(n, ts)\<in>set sample_schema. \<forall>(i, is)\<in>set (ts_indexes ts). bitmap_proper is"
    by (simp add: sample_schema_def bitmap_proper_def is_single_def)
  have q: "\<not> (\<forall>(n, ts)\<in>set improper_schema. \<forall>(i, is)\<in>set (ts_indexes ts). bitmap_proper is)"
    by (simp add: improper_schema_def sample_schema_def bitmap_proper_def is_single_def)
  have t: "db_ok sample_tables 3 \<and> (\<forall>n. case map_of sample_schema n of None \<Rightarrow> ni_get sample_tables n = None
      | Some ts \<Rightarrow> (\<exists>ct. ni_get sample_tables n = Some ct \<and> follows_schema ct ts))"
    using compiled_schema [OF sample_valid] p sample_compiles by simp
  have "map_of sample_schema ''person'' = Some (snd (hd sample_schema))" "map_of sample_schema ''dog'' = None"
    by (simp_all add: sample_schema_def)
  with t [THEN conjunct2, rule_format, of "''person''"] t [THEN conjunct2, rule_format, of "''dog''"]
  obtain ct where "ni_get sample_tables ''person'' = Some ct" "follows_schema ct (snd (hd sample_schema))"
      "ni_get sample_tables ''dog'' = None" by auto
  moreover have "\<exists>e. compileSchema improper_schema = Ret (Inl e)" using compiled_schema [OF improper_valid] q by auto
  ultimately show ?thesis using t by (simp add: follows_schema_def sample_schema_def isBitmap_def)
qed

text \<open>
  The precomputed index names resolve by go-memdb's rule: a trailing \<open>_prefix\<close> is always
  stripped first and asks for a prefix scan of the index of the remaining name, and any other
  name is an exact query of the index of that name.
\<close>
theorem names_resolve:
  assumes "distinct (map ci_name ixs)"
  shows "ni_get (indexNames ixs) q =
    (if HasSuffix q ''_prefix''
     then map_option (\<lambda>ci. (ci, True)) (find (\<lambda>ci. ci_name ci = TrimSuffix q ''_prefix'') ixs)
     else map_option (\<lambda>ci. (ci, False)) (find (\<lambda>ci. ci_name ci = q) ixs))"
  using indexNames_get [OF assms, of q] by (simp add: prefixSuffix_def TrimSuffix_def)

lemma names_resolve_witness:
  "ni_get (indexNames [zero_index\<lparr>ci_name := ''id''\<rparr>, zero_index\<lparr>ci_name := ''x_prefix''\<rparr>]) ''x_prefix'' = None \<and>
   ni_get (indexNames [zero_index\<lparr>ci_name := ''id''\<rparr>, zero_index\<lparr>ci_name := ''x_prefix''\<rparr>]) ''id_prefix'' =
     Some (zero_index\<lparr>ci_name := ''id''\<rparr>, True)"
  using names_resolve [of "[zero_index\<lparr>ci_name := ''id''\<rparr>, zero_index\<lparr>ci_name := ''x_prefix''\<rparr>]"]
  by (simp add: HasSuffix_def TrimSuffix_def)

end
