(* ===== verification/Juuri.thy ===== *)
theory Juuri
  imports BitmapIter Indexers "HOL-Library.RBT"
begin

text \<open>
  The tree library go-juuri is not part of the repository: a tree is a parameter of the model,
  the record of the operations the transactions call, and what they rely on is the predicate
  \<open>juuri_laws\<close>: a persistent ordered map from byte strings whose iterators return the entries
  of a prefix or a range in key order. Its watches are a parameter of
  the theory Notify; freezing is not modelled, since trees are values here. The locale \<open>juuri_tree\<close> collects
  what follows from the laws; red-black trees of the HOL library interpret it, which gives the
  witnesses of the theorems that assume the laws a concrete tree.
\<close>

text \<open>
  The values of the index trees: rows in ordinary indexes, sets of row ids in bitmap indexes,
  and row ids in the map from primary keys.
\<close>

datatype cell = CRow obj | CBits bitmap | CId uint32

record 't juuri =
  j_new :: 't
  j_get :: "'t \<Rightarrow> bytes \<Rightarrow> cell option"
  j_insert :: "'t \<Rightarrow> bytes \<Rightarrow> cell \<Rightarrow> 't \<times> cell option"
  j_delete :: "'t \<Rightarrow> bytes \<Rightarrow> 't \<times> cell option"
  j_deletePrefix :: "'t \<Rightarrow> bytes \<Rightarrow> 't \<times> bool"
  j_prefix :: "'t \<Rightarrow> bytes \<Rightarrow> (bytes \<times> cell) list"
  j_rprefix :: "'t \<Rightarrow> bytes \<Rightarrow> (bytes \<times> cell) list"
  j_lower :: "'t \<Rightarrow> bytes \<Rightarrow> (bytes \<times> cell) list"
  j_rlower :: "'t \<Rightarrow> bytes \<Rightarrow> (bytes \<times> cell) list"
  j_first :: "'t \<Rightarrow> bytes \<Rightarrow> cell option"
  j_last :: "'t \<Rightarrow> bytes \<Rightarrow> cell option"
  j_longest :: "'t \<Rightarrow> bytes \<Rightarrow> cell option"

text \<open>\<open>j_prefix\<close> and its kin are everything an iterator sought there returns.\<close>

definition juuri_laws :: "'t juuri \<Rightarrow> bool" where
  "juuri_laws J \<longleftrightarrow>
     (\<forall>k. j_get J (j_new J) k = None) \<and>
     (\<forall>t k v. j_get J (fst (j_insert J t k v)) = (j_get J t)(k \<mapsto> v) \<and> snd (j_insert J t k v) = j_get J t k) \<and>
     (\<forall>t k. j_get J (fst (j_delete J t k)) = (j_get J t)(k := None) \<and> snd (j_delete J t k) = j_get J t k) \<and>
     (\<forall>t p. j_get J (fst (j_deletePrefix J t p)) = (\<lambda>k. if prefix p k then None else j_get J t k) \<and>
        (snd (j_deletePrefix J t p) \<longleftrightarrow> (\<exists>k. prefix p k \<and> j_get J t k \<noteq> None))) \<and>
     (\<forall>t p. sorted_wrt (<) (map fst (j_prefix J t p)) \<and>
        set (j_prefix J t p) = {(k, v). j_get J t k = Some v \<and> prefix p k}) \<and>
     (\<forall>t p. j_rprefix J t p = rev (j_prefix J t p)) \<and>
     (\<forall>t q. sorted_wrt (<) (map fst (j_lower J t q)) \<and>
        set (j_lower J t q) = {(k, v). j_get J t k = Some v \<and> q \<le> k}) \<and>
     (\<forall>t q. sorted_wrt (>) (map fst (j_rlower J t q)) \<and>
        set (j_rlower J t q) = {(k, v). j_get J t k = Some v \<and> k \<le> q}) \<and>
     (\<forall>t p. j_first J t p = (case j_prefix J t p of [] \<Rightarrow> None | (k, v) # _ \<Rightarrow> Some v)) \<and>
     (\<forall>t p. j_last J t p = (case rev (j_prefix J t p) of [] \<Rightarrow> None | (k, v) # _ \<Rightarrow> Some v)) \<and>
     (\<forall>t q v. j_longest J t q = Some v \<longleftrightarrow>
        (\<exists>k. prefix k q \<and> j_get J t k = Some v \<and>
          (\<forall>k'. prefix k' q \<longrightarrow> j_get J t k' \<noteq> None \<longrightarrow> length k' \<le> length k)))"

locale juuri_tree =
  fixes J :: "'t juuri"
  assumes laws: "juuri_laws J"
begin

lemma get_new [simp]: "j_get J (j_new J) k = None"
  using laws by (simp add: juuri_laws_def)

lemma get_insert [simp]: "j_get J (fst (j_insert J t k v)) = (j_get J t)(k \<mapsto> v)"
  and old_insert [simp]: "snd (j_insert J t k v) = j_get J t k"
  using laws by (simp_all add: juuri_laws_def)

lemma get_delete [simp]: "j_get J (fst (j_delete J t k)) = (j_get J t)(k := None)"
  and old_delete [simp]: "snd (j_delete J t k) = j_get J t k"
  using laws by (simp_all add: juuri_laws_def)

lemma get_deletePrefix [simp]: "j_get J (fst (j_deletePrefix J t p)) k = (if prefix p k then None else j_get J t k)"
  and any_deletePrefix [simp]: "snd (j_deletePrefix J t p) \<longleftrightarrow> (\<exists>k. prefix p k \<and> j_get J t k \<noteq> None)"
  using laws by (simp_all add: juuri_laws_def)

lemma set_prefix [simp]: "set (j_prefix J t p) = {(k, v). j_get J t k = Some v \<and> prefix p k}"
  and sorted_prefix: "sorted_wrt (<) (map fst (j_prefix J t p))"
  and set_lower [simp]: "set (j_lower J t q) = {(k, v). j_get J t k = Some v \<and> q \<le> k}"
  and sorted_lower: "sorted_wrt (<) (map fst (j_lower J t q))"
  and set_rlower [simp]: "set (j_rlower J t q) = {(k, v). j_get J t k = Some v \<and> k \<le> q}"
  and sorted_rlower: "sorted_wrt (>) (map fst (j_rlower J t q))"
  and rprefix_rev [simp]: "j_rprefix J t p = rev (j_prefix J t p)"
  using laws by (simp_all add: juuri_laws_def)

lemma first_prefix: "j_first J t p = (case j_prefix J t p of [] \<Rightarrow> None | (k, v) # _ \<Rightarrow> Some v)"
  and last_prefix: "j_last J t p = (case rev (j_prefix J t p) of [] \<Rightarrow> None | (k, v) # _ \<Rightarrow> Some v)"
  using laws by (simp_all add: juuri_laws_def)

lemma longest_iff: "j_longest J t q = Some v \<longleftrightarrow> (\<exists>k. prefix k q \<and> j_get J t k = Some v \<and>
    (\<forall>k'. prefix k' q \<longrightarrow> j_get J t k' \<noteq> None \<longrightarrow> length k' \<le> length k))"
  using laws by (simp add: juuri_laws_def)

text \<open>What a tree answers is determined by its entries.\<close>

lemma sorted_keys_unique:
  fixes xs ys :: "(bytes \<times> cell) list"
  assumes "sorted_wrt (<) (map fst xs)" and "sorted_wrt (<) (map fst ys)" and "set xs = set ys"
  shows "xs = ys"
proof -
  have "distinct (map fst xs)" "distinct (map fst ys)" using assms(1,2) by (simp_all add: strict_sorted_iff)
  moreover have "map fst xs = map fst ys"
    using assms by (intro sorted_distinct_set_unique) (auto simp: strict_sorted_iff)
  ultimately show ?thesis using assms(3)
    by (intro nth_equalityI) (auto dest: map_eq_imp_length_eq,
      metis (no_types, lifting) eq_key_imp_eq_value length_map nth_map nth_mem prod.collapse)
qed

lemma prefix_cong: "j_get J t = j_get J u \<Longrightarrow> j_prefix J t p = j_prefix J u p"
  and lower_cong: "j_get J t = j_get J u \<Longrightarrow> j_lower J t q = j_lower J u q"
  by (rule sorted_keys_unique; simp add: sorted_prefix sorted_lower)+

lemma first_None: "j_first J t p = None \<longleftrightarrow> (\<forall>k. prefix p k \<longrightarrow> j_get J t k = None)"
proof -
  have "j_prefix J t p = [] \<longleftrightarrow> set (j_prefix J t p) = {}" by (rule set_empty [symmetric])
  also have "\<dots> \<longleftrightarrow> (\<forall>k. prefix p k \<longrightarrow> j_get J t k = None)" unfolding set_prefix by (auto simp: not_Some_eq)
  finally show ?thesis by (auto simp: first_prefix split: list.splits)
qed

lemma first_Some: "j_first J t p = Some v \<Longrightarrow> \<exists>k. prefix p k \<and> j_get J t k = Some v \<and>
    (\<forall>k'. prefix p k' \<longrightarrow> j_get J t k' \<noteq> None \<longrightarrow> k \<le> k')"
proof -
  assume "j_first J t p = Some v"
  then obtain k r where x: "j_prefix J t p = (k, v) # r" by (auto simp: first_prefix split: list.splits)
  then have "(k, v) \<in> set (j_prefix J t p)" by simp
  then have kv: "j_get J t k = Some v" "prefix p k" by simp_all
  have "k \<le> k'" if "prefix p k'" "j_get J t k' \<noteq> None" for k'
  proof -
    obtain v' where "(k', v') \<in> set (j_prefix J t p)" using \<open>prefix p k'\<close> \<open>j_get J t k' \<noteq> None\<close> by auto
    moreover have "sorted_wrt (<) (k # map fst r)" using sorted_prefix [of t p] x by simp
    ultimately show ?thesis using x by (fastforce simp: less_imp_le)
  qed
  then show ?thesis using kv by blast
qed

end

section \<open>A concrete tree\<close>

definition rbt_juuri :: "(bytes, cell) RBT.rbt juuri" where
  "rbt_juuri = \<lparr>j_new = RBT.empty,
     j_get = RBT.lookup,
     j_insert = (\<lambda>t k v. (RBT.insert k v t, RBT.lookup t k)),
     j_delete = (\<lambda>t k. (RBT.delete k t, RBT.lookup t k)),
     j_deletePrefix = (\<lambda>t p. (fold (\<lambda>(k, v) t. if prefix p k then RBT.delete k t else t) (RBT.entries t) t,
        \<exists>e\<in>set (RBT.entries t). prefix p (fst e))),
     j_prefix = (\<lambda>t p. filter (\<lambda>(k, v). prefix p k) (RBT.entries t)),
     j_rprefix = (\<lambda>t p. rev (filter (\<lambda>(k, v). prefix p k) (RBT.entries t))),
     j_lower = (\<lambda>t q. filter (\<lambda>(k, v). q \<le> k) (RBT.entries t)),
     j_rlower = (\<lambda>t q. rev (filter (\<lambda>(k, v). k \<le> q) (RBT.entries t))),
     j_first = (\<lambda>t p. case filter (\<lambda>(k, v). prefix p k) (RBT.entries t) of [] \<Rightarrow> None | (k, v) # _ \<Rightarrow> Some v),
     j_last = (\<lambda>t p. case rev (filter (\<lambda>(k, v). prefix p k) (RBT.entries t)) of [] \<Rightarrow> None | (k, v) # _ \<Rightarrow> Some v),
     j_longest = (\<lambda>t q. case rev (filter (\<lambda>(k, v). prefix k q) (RBT.entries t)) of [] \<Rightarrow> None | (k, v) # _ \<Rightarrow> Some v)\<rparr>"

lemma entries_sorted: "sorted_wrt (<) (map fst (RBT.entries t))"
  using RBT.sorted_entries [of t] RBT.distinct_entries [of t] by (simp add: strict_sorted_iff)

lemma entries_lookup: "(k, v) \<in> set (RBT.entries t) \<longleftrightarrow> RBT.lookup t k = Some v"
  using RBT.map_of_entries [of t] RBT.distinct_entries [of t] by (metis map_of_eq_Some_iff)

lemma sorted_filter_keys: "sorted_wrt (<) (map fst (xs :: (bytes \<times> cell) list)) \<Longrightarrow> sorted_wrt (<) (map fst (filter P xs))"
  by (simp add: sorted_wrt_map sorted_wrt_filter)

lemma lookup_delete_fold:
  "RBT.lookup (fold (\<lambda>(k, v) t. if prefix p k then RBT.delete k t else t) es t) =
    (\<lambda>k. if prefix p k \<and> k \<in> fst ` set es then None else RBT.lookup t k)"
  by (induction es arbitrary: t) (auto simp: fun_eq_iff)

lemma prefix_le: "prefix k q \<Longrightarrow> (k :: bytes) \<le> q"
proof -
  assume "prefix k q"
  then obtain zs where "q = k @ zs" by (auto simp: prefix_def)
  then show "k \<le> q" by (cases zs) (auto simp: list_le_def list_less_def intro: lexord_append_rightI)
qed

lemma rbt_laws: "juuri_laws rbt_juuri"
proof -
  have del: "(\<lambda>k. if prefix p k \<and> k \<in> fst ` set (RBT.entries t) then None else RBT.lookup t k) =
      (\<lambda>k. if prefix p k then None else RBT.lookup t k)" for p and t :: "(bytes, cell) RBT.rbt"
    by (rule ext) (auto simp: image_iff entries_lookup, metis entries_lookup not_Some_eq fst_conv)
  have any: "(\<exists>e\<in>set (RBT.entries t). prefix p (fst e)) \<longleftrightarrow> (\<exists>k. prefix p k \<and> RBT.lookup t k \<noteq> None)"
    for p and t :: "(bytes, cell) RBT.rbt"
    by (auto simp: Bex_def entries_lookup)
  have rsort: "sorted_wrt (>) (map fst (rev (filter P (RBT.entries t))))" for P and t :: "(bytes, cell) RBT.rbt"
    using sorted_filter_keys [OF entries_sorted, of P t] by (simp add: rev_map [symmetric] sorted_wrt_rev)
  have long: "(case rev (filter (\<lambda>(k, v). prefix k q) (RBT.entries t)) of [] \<Rightarrow> None | (k, v) # _ \<Rightarrow> Some v) = Some v \<longleftrightarrow>
      (\<exists>k. prefix k q \<and> RBT.lookup t k = Some v \<and> (\<forall>k'. prefix k' q \<longrightarrow> RBT.lookup t k' \<noteq> None \<longrightarrow> length k' \<le> length k))"
    for q v and t :: "(bytes, cell) RBT.rbt"
  proof -
    let ?r = "rev (filter (\<lambda>(k, v). prefix k q) (RBT.entries t))"
    have set_r: "(k, w) \<in> set ?r \<longleftrightarrow> prefix k q \<and> RBT.lookup t k = Some w" for k w by (auto simp: entries_lookup)
    have len: "length k' \<le> length k" if "prefix k q" "prefix k' q" "k' \<le> k" for k k' :: bytes
      using that prefix_same_cases [OF that(1,2)] prefix_le [of k k'] by (auto dest: prefix_length_le)
    show ?thesis
    proof (cases ?r)
      case Nil
      then have "\<not> (prefix k q \<and> RBT.lookup t k = Some w)" for k w using set_r [of k w] by simp
      then show ?thesis using Nil by auto
    next
      case (Cons e es)
      obtain k w where e: "e = (k, w)" by fastforce
      have kw: "prefix k q" "RBT.lookup t k = Some w" using set_r [of k w] Cons e by auto
      have "sorted_wrt (>) (k # map fst es)" using rsort [of "\<lambda>(k, v). prefix k q" t] Cons e by simp
      then have max: "k' \<le> k" if "prefix k' q" "RBT.lookup t k' = Some w'" for k' w'
        using set_r [of k' w'] that Cons e by (fastforce simp: less_imp_le)
      have "length k' \<le> length k" if "prefix k' q" "RBT.lookup t k' \<noteq> None" for k'
        using len [OF kw(1) that(1)] max [OF that(1)] that(2) by auto
      moreover have "k' = k" if "prefix k' q" "\<forall>k''. prefix k'' q \<longrightarrow> RBT.lookup t k'' \<noteq> None \<longrightarrow> length k'' \<le> length k'"
          "RBT.lookup t k' = Some w'" for k' w'
      proof -
        have "prefix k' k" using prefix_same_cases [OF that(1) kw(1)] max [OF that(1,3)] prefix_le [of k k'] by fastforce
        moreover have "length k \<le> length k'" using that(2) kw by simp
        ultimately show ?thesis by (auto simp: prefix_def)
      qed
      moreover have "(case ?r of [] \<Rightarrow> None | (k, v) # _ \<Rightarrow> Some v) = Some w" using Cons e by simp
      ultimately show ?thesis using kw by (metis option.inject)
    qed
  qed
  have walk: "sorted_wrt (<) (map fst (filter P (RBT.entries t))) \<and>
      set (filter (\<lambda>(k, v). Q k) (RBT.entries t)) = {(k, v). RBT.lookup t k = Some v \<and> Q k}"
    for P Q and t :: "(bytes, cell) RBT.rbt"
    using sorted_filter_keys [OF entries_sorted] by (auto simp: entries_lookup)
  show ?thesis
    unfolding juuri_laws_def
  proof (intro conjI allI)
    show "j_get rbt_juuri (j_new rbt_juuri) k = None" for k by (simp add: rbt_juuri_def)
    show "j_get rbt_juuri (fst (j_insert rbt_juuri t k v)) = (j_get rbt_juuri t)(k \<mapsto> v)"
      "snd (j_insert rbt_juuri t k v) = j_get rbt_juuri t k" for t k v by (simp_all add: rbt_juuri_def)
    show "j_get rbt_juuri (fst (j_delete rbt_juuri t k)) = (j_get rbt_juuri t)(k := None)"
      "snd (j_delete rbt_juuri t k) = j_get rbt_juuri t k" for t k by (simp_all add: rbt_juuri_def)
    show "j_get rbt_juuri (fst (j_deletePrefix rbt_juuri t p)) = (\<lambda>k. if prefix p k then None else j_get rbt_juuri t k)"
      "snd (j_deletePrefix rbt_juuri t p) = (\<exists>k. prefix p k \<and> j_get rbt_juuri t k \<noteq> None)" for t p
      by (simp_all only: rbt_juuri_def juuri.simps fst_conv snd_conv lookup_delete_fold del any)
    show "sorted_wrt (<) (map fst (j_prefix rbt_juuri t p))"
      "set (j_prefix rbt_juuri t p) = {(k, v). j_get rbt_juuri t k = Some v \<and> prefix p k}" for t p
      using walk by (simp_all add: rbt_juuri_def)
    show "j_rprefix rbt_juuri t p = rev (j_prefix rbt_juuri t p)" for t p by (simp add: rbt_juuri_def)
    show "sorted_wrt (<) (map fst (j_lower rbt_juuri t q))"
      "set (j_lower rbt_juuri t q) = {(k, v). j_get rbt_juuri t k = Some v \<and> q \<le> k}" for t q
      using walk by (simp_all add: rbt_juuri_def)
    show "sorted_wrt (>) (map fst (j_rlower rbt_juuri t q))" for t q using rsort by (simp add: rbt_juuri_def)
    show "set (j_rlower rbt_juuri t q) = {(k, v). j_get rbt_juuri t k = Some v \<and> k \<le> q}" for t q
      using walk [of _ t "\<lambda>k. k \<le> q"] by (simp add: rbt_juuri_def)
    show "j_first rbt_juuri t p = (case j_prefix rbt_juuri t p of [] \<Rightarrow> None | (k, v) # _ \<Rightarrow> Some v)"
      "j_last rbt_juuri t p = (case rev (j_prefix rbt_juuri t p) of [] \<Rightarrow> None | (k, v) # _ \<Rightarrow> Some v)" for t p
      by (simp_all add: rbt_juuri_def)
    show "j_longest rbt_juuri t q = Some v \<longleftrightarrow> (\<exists>k. prefix k q \<and> j_get rbt_juuri t k = Some v \<and>
        (\<forall>k'. prefix k' q \<longrightarrow> j_get rbt_juuri t k' \<noteq> None \<longrightarrow> length k' \<le> length k))" for t q v
      using long by (simp add: rbt_juuri_def del: not_None_eq)
  qed
qed

interpretation rbt: juuri_tree rbt_juuri
  by unfold_locales (rule rbt_laws)

end
