(* ===== verification/TxnState.thy ===== *)
theory TxnState
  imports Schema Juuri Pvec
begin

text \<open>
  The state of databases and transactions (memdb.go, txn.go, bitmap_index.go), and the keys of
  a row in the indexes of its table (compiledIndex.keys and .values, compiledTable.primaryKey
  of schema_compile.go and bitmap_index.go). Trees, bitmaps and vectors are values, so freezing
  them is not modelled, and every transaction starts with a new write state, which is all it can
  observe of the pooled one it gets (theory Pool); a compiled table is identified by its position \<open>ct_ord\<close>, which
  stands for the pointer the source compares. The scratch buffers of writeState, which every
  operation resets before it uses them, are local to the operations.
\<close>

section \<open>Errors\<close>

datatype terr =
    EReadOnlyInsert | EReadOnlyDelete
  | EInvalidTable string | EInvalidIndex string | EIsBitmap string
  | EPrimary err | ENoPrimary
  | EBuild string err | EMissingValue string
  | ENotFound
  | ENotPrefixIndex string | ELookup terr
  | ENoPrefixScan string | EIndexArgs err
  | EMustUsePrefix string | ENotUnique string
  | ENotBitmap string | ENoArguments string | ENoBitmaps string

text \<open>What a call returns: a value, an error, or it panics.\<close>

datatype 'a tres = TOk 'a | TErr terr | TPanic

section \<open>State\<close>

text \<open>
  The row bookkeeping of a table with bitmap indexes; the source has one type for a version
  (tableRows) and one for a transaction (rowsTxn), which differ in mutability only.
\<close>

record 't tableRows =
  r_ids :: 't
  r_rows :: "obj vector"
  r_all :: bitmap
  r_free :: bitmap
  r_next :: uint32

record 't dbRoot =
  d_trees :: "'t list"
  d_ext :: "'t tableRows option list option"

text \<open>The tree transactions of a table by position, None until started, and its row bookkeeping.\<close>

record 't tableTxn =
  tt_table :: compiledTable
  tt_idx :: "'t option list"
  tt_rows :: "'t tableRows option"

text \<open>A Change, with interfaces that may be nil; and the write half of a transaction.\<close>

record change =
  c_Table :: string
  c_Before :: obj
  c_After :: obj
  c_primaryKey :: bytes

text \<open>Deferred functions are numbered; None is a nil function.\<close>

type_synonym deferred = "nat option"

record 't txn =
  x_root :: "'t dbRoot option"
  x_write :: bool
  x_tables :: "'t tableTxn list option"
  x_after :: deferred
  x_afterMore :: "deferred list option"
  x_changes :: "change list option"

record 't memdb =
  db_tables :: "compiledTable nameIndex"
  db_root :: "'t dbRoot"
  db_primary :: bool
  db_locked :: bool

section \<open>Keys of a row\<close>

record keyRange =
  newFrom :: nat
  newTo :: nat
  oldFrom :: nat
  oldTo :: nat
  r_ok :: bool
  r_okOld :: bool

text \<open>
  compiledIndex.keys: the extractor first, then the exported method. The suffix is the primary
  key if the index is not unique. compiledIndex.values is the same without a suffix.
\<close>

definition keys_with :: "(bytes \<Rightarrow> bytes) \<Rightarrow> bytes \<Rightarrow> compiledIndex \<Rightarrow> obj \<Rightarrow> keyList \<Rightarrow> (keyList \<times> bool) res" where
  "keys_with uni sfx ci obj kl = (case appendKeys uni obj sfx True (ci_ix ci) kl of
     None \<Rightarrow> Panics
   | Some (kl', ok, handled, err) \<Rightarrow>
     if handled then (case err of Some e \<Rightarrow> Err e | None \<Rightarrow> Ok (kl', ok))
     else if is_single (ci_ix ci)
     then (case FromObject uni obj (ci_ix ci) of
         Err e \<Rightarrow> Err e | Panics \<Rightarrow> Panics
       | Ok None \<Rightarrow> Ok (kl', False)
       | Ok (Some val) \<Rightarrow> Ok (kl_add val sfx kl', True))
     else (case FromObjectMulti uni obj (ci_ix ci) of
         Err e \<Rightarrow> Err e | Panics \<Rightarrow> Panics
       | Ok None \<Rightarrow> Ok (kl', False)
       | Ok (Some vals) \<Rightarrow> Ok (fold (\<lambda>val. kl_add val sfx) vals kl', True)))"

definition ci_keys :: "(bytes \<Rightarrow> bytes) \<Rightarrow> compiledIndex \<Rightarrow> obj \<Rightarrow> bytes \<Rightarrow> keyList \<Rightarrow> (keyList \<times> bool) res" where
  "ci_keys uni ci obj idVal kl = keys_with uni (if \<not> ci_unique ci then idVal else []) ci obj kl"

definition ci_values :: "(bytes \<Rightarrow> bytes) \<Rightarrow> compiledIndex \<Rightarrow> obj \<Rightarrow> keyList \<Rightarrow> (keyList \<times> bool) res" where
  "ci_values uni ci obj kl = keys_with uni [] ci obj kl"

definition primaryKey :: "(bytes \<Rightarrow> bytes) \<Rightarrow> compiledTable \<Rightarrow> obj \<Rightarrow> bytes tres" where
  "primaryKey uni ct obj = (let ix = ci_ix (ct_indexes ct ! 0) in
     case (case appendObjectErr uni obj ix [] of ((out, ok, handled), err) \<Rightarrow>
         if handled then (case err of Some e \<Rightarrow> Err e | None \<Rightarrow> Ok (if ok then Some out else None))
         else FromObject uni obj ix) of
       Panics \<Rightarrow> TPanic
     | Err e \<Rightarrow> TErr (EPrimary e)
     | Ok None \<Rightarrow> TErr ENoPrimary
     | Ok (Some k) \<Rightarrow> TOk k)"

subsection \<open>What the keys are\<close>

text \<open>The keys of a row in an index, as a list.\<close>

definition row_keys :: "(bytes \<Rightarrow> bytes) \<Rightarrow> compiledIndex \<Rightarrow> bytes \<Rightarrow> obj \<Rightarrow> bytes list option res" where
  "row_keys uni ci sfx obj = bind_res (up_keys uni obj (ci_ix ci)) (\<lambda>found. Ok (map_option (map (\<lambda>k. k @ sfx)) found))"

lemma row_keys_cases:
  "row_keys uni ci sfx obj = (case up_keys uni obj (ci_ix ci) of Err e \<Rightarrow> Err e | Panics \<Rightarrow> Panics
     | Ok None \<Rightarrow> Ok None | Ok (Some ks) \<Rightarrow> Ok (Some (map (\<lambda>k. k @ sfx) ks)))"
  by (simp add: row_keys_def bind_res_def split: res.split option.split)

lemma kl_add_appended: "kl_good kl \<Longrightarrow> appended kl (kl_add k sfx kl) [k @ sfx]"
  using appended_end [of kl "k @ sfx"] by (simp add: kl_add_end [symmetric])

lemma fold_add_keys: "fold (\<lambda>val. kl_add val sfx) vals kl = add_keys sfx vals kl"
  by (simp add: add_keys_def)

lemma keys_with_row:
  assumes "kl_good kl"
  shows "case row_keys uni ci sfx obj of
      Err e \<Rightarrow> keys_with uni sfx ci obj kl = Err e
    | Panics \<Rightarrow> keys_with uni sfx ci obj kl = Panics
    | Ok ks \<Rightarrow> \<exists>kl'. keys_with uni sfx ci obj kl = Ok (kl', ks \<noteq> None) \<and>
        appended kl kl' (case ks of None \<Rightarrow> [] | Some ks \<Rightarrow> ks)"
proof -
  obtain kl' ok handled err where a: "appendKeys uni obj sfx True (ci_ix ci) kl = Some (kl', ok, handled, err)"
    using appendKeys_returns [OF assms, of uni obj sfx True "ci_ix ci"] by blast
  note ag = appendKeys_agrees [OF assms, of sfx uni obj "ci_ix ci" True, unfolded a]
  show ?thesis
  proof (cases handled)
    case True
    then show ?thesis using ag a
      by (auto simp: keys_with_def agrees_keys_def row_keys_cases split: option.splits if_splits res.splits)
  next
    case False
    then have kl': "kl' = kl" using ag by (simp add: agrees_keys_def)
    show ?thesis
    proof (cases "is_single (ci_ix ci)")
      case True
      then show ?thesis using False a kl' kl_add_appended [OF assms] appended_refl [OF assms]
        by (auto simp: keys_with_def row_keys_cases up_keys_def FromObject_up bind_res_def split: res.splits option.splits)
    next
      case multi: False
      then show ?thesis using False a kl' add_keys_appended [OF assms] appended_refl [OF assms]
        by (auto simp: keys_with_def row_keys_cases up_keys_def FromObjectMulti_up fold_add_keys split: res.splits option.splits)
    qed
  qed
qed

lemma appendObjectErr_up:
  assumes "appendObjectErr uni obj ix [] = ((out, ok, handled), err)" and "handled"
  shows "up_single uni obj ix = (case err of Some e \<Rightarrow> Err e | None \<Rightarrow> Ok (if ok then Some out else None))"
proof (cases "\<exists>c. ix = ICond c")
  case True
  then show ?thesis using assms
    by (auto simp: appendObjectErr_def cond_FromObject_def split: option.splits if_splits)
next
  case False
  then have "appendObjectErr uni obj ix [] = (appendScalar uni obj ix [], None)"
    by (cases ix) (auto simp: appendObjectErr_def)
  then show ?thesis using appendScalar_agrees [of "[]" uni obj ix] assms by (auto simp: agrees_def split: if_splits)
qed

lemma primaryKey_up:
  "primaryKey uni ct obj = (case up_single uni obj (ci_ix (ct_indexes ct ! 0)) of
     Panics \<Rightarrow> TPanic | Err e \<Rightarrow> TErr (EPrimary e) | Ok None \<Rightarrow> TErr ENoPrimary | Ok (Some k) \<Rightarrow> TOk k)"
proof -
  obtain out ok handled err where a: "appendObjectErr uni obj (ci_ix (ct_indexes ct ! 0)) [] = ((out, ok, handled), err)"
    by (metis prod.collapse)
  show ?thesis
    using appendObjectErr_up [OF a] by (cases handled) (simp_all add: primaryKey_def a FromObject_up)
qed

end
