(* ===== verification/Rows.thy ===== *)
theory Rows
  imports TxnState BitmapOps
begin

text \<open>
  The bookkeeping of bitmap indexes (bitmap_index.go): row ids, the vector of rows, the sets of
  used and free ids, and the index trees from values to sets of row ids, as a write changes
  them. The theory shows that applyBitmaps keeps all of them in line with the rows of the
  table; it rests on the laws of id sets (\<open>bm\<close>) and row tables (\<open>pv\<close>).
\<close>

section \<open>The operations\<close>

definition is_nil :: "obj \<Rightarrow> bool" where
  "is_nil ob = (case ob of ONil \<Rightarrow> True | _ \<Rightarrow> False)"

definition range_keys :: "keyList \<Rightarrow> nat \<Rightarrow> nat \<Rightarrow> bytes list" where
  "range_keys kl from to = map (kl_key kl) [from..<to]"

text \<open>bitmapKeys: the values of the new row and of the one it replaces, in every bitmap index.\<close>

fun bitmapKeys :: "(bytes \<Rightarrow> bytes) \<Rightarrow> obj \<Rightarrow> obj \<Rightarrow> compiledIndex list \<Rightarrow> keyList \<Rightarrow> keyList \<Rightarrow> keyRange list \<Rightarrow>
    (keyList \<times> keyList \<times> keyRange list) tres" where
  "bitmapKeys uni ob existing [] bmNew bmOld ranges = TOk (bmNew, bmOld, ranges)"
| "bitmapKeys uni ob existing (ci # cis) bmNew bmOld ranges =
    (case (if \<not> is_nil ob then ci_values uni ci ob bmNew else Ok (bmNew, False)) of
       Panics \<Rightarrow> TPanic
     | Err e \<Rightarrow> TErr (EBuild (ci_name ci) e)
     | Ok (bmNew', ok) \<Rightarrow>
         if \<not> is_nil ob \<and> \<not> ok \<and> \<not> ci_allowMissing ci then TErr (EMissingValue (ci_name ci))
         else (case (if \<not> is_nil existing then ci_values uni ci existing bmOld else Ok (bmOld, False)) of
             Panics \<Rightarrow> TPanic
           | Err e \<Rightarrow> TErr (EBuild (ci_name ci) e)
           | Ok (bmOld', okOld) \<Rightarrow> bitmapKeys uni ob existing cis bmNew' bmOld'
               (ranges @ [\<lparr>newFrom = kl_len bmNew, newTo = kl_len bmNew', oldFrom = kl_len bmOld, oldTo = kl_len bmOld',
                           r_ok = ok, r_okOld = okOld\<rparr>])))"

definition contains :: "keyList \<Rightarrow> nat \<Rightarrow> nat \<Rightarrow> bytes \<Rightarrow> bool" where
  "contains kl from to key = list_ex (\<lambda>k. kl_key kl k = key) [from..<to]"

text \<open>The row id a write concerns; None for an inserted row means the table is out of ids.\<close>

definition row_id :: "'t juuri \<Rightarrow> obj \<Rightarrow> obj \<Rightarrow> bytes \<Rightarrow> 't tableRows \<Rightarrow> ('t tableRows \<times> uint32) outcome" where
  "row_id J ob existing idVal r =
    (if \<not> is_nil existing
     then (case j_get J (r_ids r) idVal of
         Some (CId i) \<Rightarrow>
           if is_nil ob
           then Ret (r\<lparr>r_ids := fst (j_delete J (r_ids r) idVal), r_all := fst (Clear_id (r_all r) i),
                       r_free := fst (Set_id (r_free r) i)\<rparr>, i)
           else Ret (r, i)
       | _ \<Rightarrow> Panic)
     else (case (case Min_id (r_free r) of
           Panic \<Rightarrow> Panic
         | Ret (Some m) \<Rightarrow> Ret (r\<lparr>r_free := fst (Clear_id (r_free r) m)\<rparr>, m)
         | Ret None \<Rightarrow> if r_next r + 1 = 0 then Panic else Ret (r\<lparr>r_next := r_next r + 1\<rparr>, r_next r)) of
         Panic \<Rightarrow> Panic
       | Ret (r', i) \<Rightarrow> Ret (r'\<lparr>r_ids := fst (j_insert J (r_ids r') idVal (CId i)), r_all := fst (Set_id (r_all r') i)\<rparr>, i)))"

text \<open>
  The two loops over the values of one bitmap index. Whether an insertion is skipped because
  the new set is the old one (Same) is decided on the values: a set that was changed in place
  is in the tree already.
\<close>

fun clear_values :: "'t juuri \<Rightarrow> keyList \<Rightarrow> keyRange \<Rightarrow> uint32 \<Rightarrow> bytes list \<Rightarrow> 't \<Rightarrow> 't outcome" where
  "clear_values J bmNew kr i [] tree = Ret tree"
| "clear_values J bmNew kr i (key # ks) tree =
    (if contains bmNew (newFrom kr) (newTo kr) key then clear_values J bmNew kr i ks tree
     else case j_get J tree key of
       None \<Rightarrow> clear_values J bmNew kr i ks tree
     | Some (CBits s) \<Rightarrow> (let nxt = fst (Clear_id s i)
         in clear_values J bmNew kr i ks
              (if Empty nxt then fst (j_delete J tree key)
               else if nxt \<noteq> s then fst (j_insert J tree key (CBits nxt)) else tree))
     | Some _ \<Rightarrow> Panic)"

fun set_values :: "'t juuri \<Rightarrow> keyList \<Rightarrow> keyRange \<Rightarrow> uint32 \<Rightarrow> bytes list \<Rightarrow> 't \<Rightarrow> 't outcome" where
  "set_values J bmOld kr i [] tree = Ret tree"
| "set_values J bmOld kr i (key # ks) tree =
    (if contains bmOld (oldFrom kr) (oldTo kr) key then set_values J bmOld kr i ks tree
     else case (case j_get J tree key of None \<Rightarrow> Some None | Some (CBits s) \<Rightarrow> Some s | Some _ \<Rightarrow> None) of
       None \<Rightarrow> Panic
     | Some s \<Rightarrow> (let nxt = fst (Set_id s i)
         in set_values J bmOld kr i ks (if nxt \<noteq> s then fst (j_insert J tree key (CBits nxt)) else tree)))"

text \<open>
  One index: its tree transaction is started when the first value has to change. Starting it
  without a change would leave the same tree.
\<close>

definition untouched :: "keyList \<Rightarrow> keyList \<Rightarrow> keyRange \<Rightarrow> bool" where
  "untouched bmNew bmOld kr \<longleftrightarrow>
     (\<forall>key\<in>set (range_keys bmOld (oldFrom kr) (oldTo kr)). contains bmNew (newFrom kr) (newTo kr) key) \<and>
     (\<forall>key\<in>set (range_keys bmNew (newFrom kr) (newTo kr)). contains bmOld (oldFrom kr) (oldTo kr) key)"

definition start_index :: "'t dbRoot \<Rightarrow> compiledIndex \<Rightarrow> 't tableTxn \<Rightarrow> 't tableTxn" where
  "start_index root ci tt = (case tt_idx tt ! ci_ord ci of
     Some _ \<Rightarrow> tt
   | None \<Rightarrow> tt\<lparr>tt_idx := (tt_idx tt)[ci_ord ci := Some (d_trees root ! ci_slot ci)]\<rparr>)"

definition tree_at :: "'t tableTxn \<Rightarrow> compiledIndex \<Rightarrow> 't" where
  "tree_at tt ci = the (tt_idx tt ! ci_ord ci)"

definition put_tree :: "compiledIndex \<Rightarrow> 't \<Rightarrow> 't tableTxn \<Rightarrow> 't tableTxn" where
  "put_tree ci t tt = tt\<lparr>tt_idx := (tt_idx tt)[ci_ord ci := Some t]\<rparr>"

fun apply_bitmap_indexes :: "'t juuri \<Rightarrow> 't dbRoot \<Rightarrow> keyList \<Rightarrow> keyList \<Rightarrow> uint32 \<Rightarrow>
    (compiledIndex \<times> keyRange) list \<Rightarrow> 't tableTxn \<Rightarrow> 't tableTxn outcome" where
  "apply_bitmap_indexes J root bmNew bmOld i [] tt = Ret tt"
| "apply_bitmap_indexes J root bmNew bmOld i ((ci, kr) # rest) tt =
    (if newFrom kr = newTo kr \<and> oldFrom kr = oldTo kr \<or> untouched bmNew bmOld kr
     then apply_bitmap_indexes J root bmNew bmOld i rest tt
     else let tt' = start_index root ci tt in
       case clear_values J bmNew kr i (range_keys bmOld (oldFrom kr) (oldTo kr)) (tree_at tt' ci) of
         Panic \<Rightarrow> Panic
       | Ret t1 \<Rightarrow> (case set_values J bmOld kr i (range_keys bmNew (newFrom kr) (newTo kr)) t1 of
           Panic \<Rightarrow> Panic
         | Ret t2 \<Rightarrow> apply_bitmap_indexes J root bmNew bmOld i rest (put_tree ci t2 tt')))"

text \<open>rowsOf: the bookkeeping of the table in this transaction; the root's at first.\<close>

definition rowsOf :: "'t dbRoot \<Rightarrow> 't tableTxn \<Rightarrow> 't tableRows outcome" where
  "rowsOf root tt = (case tt_rows tt of
     Some r \<Rightarrow> Ret r
   | None \<Rightarrow> (case d_ext root of None \<Rightarrow> Panic
       | Some rs \<Rightarrow> (case rs ! ct_ord (tt_table tt) of None \<Rightarrow> Panic | Some r \<Rightarrow> Ret r)))"

definition applyBitmaps :: "'t juuri \<Rightarrow> 't dbRoot \<Rightarrow> 't tableTxn \<Rightarrow> keyList \<Rightarrow> keyList \<Rightarrow> keyRange list \<Rightarrow> obj \<Rightarrow> obj \<Rightarrow> bytes \<Rightarrow> 't tableTxn outcome" where
  "applyBitmaps J root tt bmNew bmOld ranges ob existing idVal =
    (let ct = tt_table tt in
     case rowsOf root tt of Panic \<Rightarrow> Panic | Ret r \<Rightarrow>
     case row_id J ob existing idVal r of Panic \<Rightarrow> Panic | Ret (r', i) \<Rightarrow>
       apply_bitmap_indexes J root bmNew bmOld i (zip (drop (ct_classic ct) (ct_indexes ct)) ranges)
         (tt\<lparr>tt_rows := Some (r'\<lparr>r_rows := PSet (r_rows r') i (if is_nil ob then None else Some ob)\<rparr>)\<rparr>))"

section \<open>The bookkeeping follows the rows\<close>

text \<open>
  \<open>R\<close> is the table: primary keys to rows. \<open>idof\<close> reads the map of row ids. The row bookkeeping
  is right for \<open>R\<close> when every row has an id of its own below \<open>next\<close>, the vector holds the row at
  its id and nothing elsewhere, and \<open>all\<close> and \<open>free\<close> split the ids below \<open>next\<close>.
\<close>

definition idof :: "'t juuri \<Rightarrow> 't tableRows \<Rightarrow> bytes \<Rightarrow> uint32 option" where
  "idof J r pk = (case j_get J (r_ids r) pk of Some (CId i) \<Rightarrow> Some i | _ \<Rightarrow> None)"

lemma idof_get: "idof J r pk = Some i \<Longrightarrow> j_get J (r_ids r) pk = Some (CId i)"
  by (simp add: idof_def split: option.splits cell.splits)

definition ids_of :: "'t juuri \<Rightarrow> 't tableRows \<Rightarrow> nat set" where
  "ids_of J r = {unat i | i pk. idof J r pk = Some i}"

definition rows_ok :: "'t juuri \<Rightarrow> 't tableRows \<Rightarrow> (bytes \<Rightarrow> obj option) \<Rightarrow> bool" where
  "rows_ok J r R \<longleftrightarrow>
     (\<forall>pk c. j_get J (r_ids r) pk = Some c \<longrightarrow> (\<exists>i. c = CId i)) \<and>
     dom (idof J r) = dom R \<and>
     (\<forall>p q i. idof J r p = Some i \<longrightarrow> idof J r q = Some i \<longrightarrow> p = q) \<and>
     vec_ok (r_rows r) \<and>
     (\<forall>i ob. Get (r_rows r) i = Some ob \<longleftrightarrow> (\<exists>pk. idof J r pk = Some i \<and> R pk = Some ob)) \<and>
     bm_wf (r_all r) \<and> bm_wf (r_free r) \<and>
     bm_set (r_all r) = ids_of J r \<and>
     ids_of J r \<subseteq> {..<unat (r_next r)} \<and>
     bm_set (r_free r) = {..<unat (r_next r)} - ids_of J r"

lemma rows_okD:
  assumes "rows_ok J r R"
  shows "j_get J (r_ids r) pk = Some c \<Longrightarrow> \<exists>i. c = CId i" "dom (idof J r) = dom R"
    "idof J r p = Some i \<Longrightarrow> idof J r q = Some i \<Longrightarrow> p = q"
    "vec_ok (r_rows r)" "Get (r_rows r) i = Some ob \<longleftrightarrow> (\<exists>pk. idof J r pk = Some i \<and> R pk = Some ob)"
    "bm_wf (r_all r)" "bm_wf (r_free r)" "bm_set (r_all r) = ids_of J r"
    "ids_of J r \<subseteq> {..<unat (r_next r)}" "bm_set (r_free r) = {..<unat (r_next r)} - ids_of J r"
  using assms unfolding rows_ok_def by blast+

lemma rows_okI:
  assumes "\<And>pk c. j_get J (r_ids r) pk = Some c \<Longrightarrow> \<exists>i. c = CId i" "dom (idof J r) = dom R"
    "\<And>p q i. idof J r p = Some i \<Longrightarrow> idof J r q = Some i \<Longrightarrow> p = q"
    "vec_ok (r_rows r)" "\<And>i ob. Get (r_rows r) i = Some ob \<longleftrightarrow> (\<exists>pk. idof J r pk = Some i \<and> R pk = Some ob)"
    "bm_wf (r_all r)" "bm_wf (r_free r)" "bm_set (r_all r) = ids_of J r"
    "ids_of J r \<subseteq> {..<unat (r_next r)}" "bm_set (r_free r) = {..<unat (r_next r)} - ids_of J r"
  shows "rows_ok J r R"
  using assms unfolding rows_ok_def by blast

lemma idof_upd [simp]: "idof J (r\<lparr>r_rows := x\<rparr>) = idof J r" "idof J (r\<lparr>r_all := b\<rparr>) = idof J r"
    "idof J (r\<lparr>r_free := b\<rparr>) = idof J r" "idof J (r\<lparr>r_next := n\<rparr>) = idof J r"
  by (rule ext, simp add: idof_def)+

lemma ids_of_upd [simp]: "ids_of J (r\<lparr>r_rows := x\<rparr>) = ids_of J r"
  by (simp add: ids_of_def)

text \<open>An id of a row is never the last 32-bit number, so the vector always has an unset index.\<close>

lemma idof_less: "rows_ok J r R \<Longrightarrow> idof J r pk = Some i \<Longrightarrow> unat i < unat (r_next r)"
  using rows_okD(9) [of J r R] by (auto simp: ids_of_def)

lemma unat_le_last: "unat (x :: uint32) \<le> unat (- 1 :: uint32)"
proof -
  have "unat x < 2 ^ 32" using unsigned_less [of x] by simp
  moreover have "unat (- 1 :: uint32) = 2 ^ 32 - 1" by (simp add: unsigned_minus_1_eq_mask mask_eq_exp_minus_1)
  ultimately show ?thesis by linarith
qed

lemma last_id_unset: "rows_ok J r R \<Longrightarrow> Get (r_rows r) (- 1) = None"
proof (rule ccontr)
  assume r: "rows_ok J r R" and "Get (r_rows r) (- 1) \<noteq> None"
  then obtain pk where "idof J r pk = Some (- 1)" using rows_okD(5) [OF r] by blast
  then have "unat (- 1 :: uint32) < unat (r_next r)" using idof_less [OF r] by blast
  then show False using unat_le_last [of "r_next r"] by (rule leD [THEN notE, rotated])
qed

lemma bm_set_unat: "bm_wf b \<Longrightarrow> unat (i :: uint32) \<in> bm_set b \<longleftrightarrow> Has b i"
  by (simp add: bm.mem_law)

context juuri_tree
begin

lemma idof_ids [simp]:
  "idof J (r\<lparr>r_ids := fst (j_insert J (r_ids r) pk (CId i))\<rparr>) = (idof J r)(pk \<mapsto> i)"
  "idof J (r\<lparr>r_ids := fst (j_delete J (r_ids r) pk)\<rparr>) = (idof J r)(pk := None)"
  by (rule ext, simp add: idof_def)+

lemma row_id_update:
  assumes r: "rows_ok J r R" and "R pk = Some existing" and "\<not> is_nil existing" and "\<not> is_nil ob"
  shows "\<exists>i. row_id J ob existing pk r = Ret (r, i) \<and> idof J r pk = Some i \<and>
    rows_ok J (r\<lparr>r_rows := PSet (r_rows r) i (Some ob)\<rparr>) (R(pk \<mapsto> ob))"
proof -
  have "pk \<in> dom (idof J r)" using rows_okD(2) [OF r] assms(2) by auto
  then obtain i where i: "idof J r pk = Some i" by auto
  then have g: "j_get J (r_ids r) pk = Some (CId i)" by (rule idof_get)
  have "row_id J ob existing pk r = Ret (r, i)" using assms(3,4) g by (simp add: row_id_def)
  moreover have "rows_ok J (r\<lparr>r_rows := PSet (r_rows r) i (Some ob)\<rparr>) (R(pk \<mapsto> ob))" (is "rows_ok J ?r' ?R'")
  proof -
    have id: "idof J ?r' = idof J r" "ids_of J ?r' = ids_of J r" by simp_all
    have "i \<noteq> - 1"
    proof
      assume "i = - 1"
      then have "Get (r_rows r) (- 1) = Some existing" using rows_okD(5) [OF r] i assms(2) by blast
      then show False using last_id_unset [OF r] by simp
    qed
    then have room: "(if - 1 = i then Some ob else Get (r_rows r) (- 1)) = None" using last_id_unset [OF r] by simp
    note put = pv.put_law [OF rows_okD(4) [OF r] room]
    show ?thesis
    proof (rule rows_okI)
      show "\<exists>i. c = CId i" if "j_get J (r_ids ?r') q = Some c" for q c
        using rows_okD(1) [OF r] that by simp
      show "dom (idof J ?r') = dom ?R'" unfolding id using rows_okD(2) [OF r] assms(2) by auto
      show "p = q" if "idof J ?r' p = Some j" "idof J ?r' q = Some j" for p q j
        using that rows_okD(3) [OF r] unfolding id by blast
      show "vec_ok (r_rows ?r')" using put by simp
      show "Get (r_rows ?r') j = Some o' \<longleftrightarrow> (\<exists>q. idof J ?r' q = Some j \<and> ?R' q = Some o')" for j o'
        unfolding id
      proof (cases "j = i")
        case True
        have "q = pk" if "idof J r q = Some i" for q using that i rows_okD(3) [OF r] by blast
        then have q_iff: "(\<exists>q. idof J r q = Some i \<and> P q) \<longleftrightarrow> P pk" for P using i by metis
        show "Get (r_rows ?r') j = Some o' \<longleftrightarrow> (\<exists>q. idof J r q = Some j \<and> ?R' q = Some o')"
          unfolding True using put q_iff [of "\<lambda>q. ?R' q = Some o'"] by simp
      next
        case False
        then have "idof J r pk \<noteq> Some j" using i by simp
        then have "(\<exists>q. idof J r q = Some j \<and> ?R' q = Some o') \<longleftrightarrow> (\<exists>q. idof J r q = Some j \<and> R q = Some o')"
          by (metis fun_upd_apply)
        then show "Get (r_rows ?r') j = Some o' \<longleftrightarrow> (\<exists>q. idof J r q = Some j \<and> ?R' q = Some o')"
          using put False rows_okD(5) [OF r, of j o'] by simp
      qed
    qed (use rows_okD(6-10) [OF r] in \<open>simp_all add: id\<close>)
  qed
  ultimately show ?thesis using i by blast
qed

lemma row_id_delete:
  assumes r: "rows_ok J r R" and "R pk = Some existing" and "\<not> is_nil existing"
  shows "\<exists>i r'. row_id J ONil existing pk r = Ret (r', i) \<and> idof J r pk = Some i \<and> r_rows r' = r_rows r \<and>
    idof J r' = (idof J r)(pk := None) \<and> rows_ok J (r'\<lparr>r_rows := PSet (r_rows r') i None\<rparr>) (R(pk := None))"
proof -
  have "pk \<in> dom (idof J r)" using rows_okD(2) [OF r] assms(2) by auto
  then obtain i where i: "idof J r pk = Some i" by auto
  then have g: "j_get J (r_ids r) pk = Some (CId i)" by (rule idof_get)
  let ?r1 = "r\<lparr>r_ids := fst (j_delete J (r_ids r) pk), r_all := fst (Clear_id (r_all r) i), r_free := fst (Set_id (r_free r) i)\<rparr>"
  let ?r' = "?r1\<lparr>r_rows := PSet (r_rows r) i None\<rparr>"
  have rid: "row_id J ONil existing pk r = Ret (?r1, i)" using assms(3) g by (simp add: row_id_def is_nil_def)
  have id: "idof J ?r1 = (idof J r)(pk := None)" "idof J ?r' = (idof J r)(pk := None)"
    by simp_all
  have ids: "ids_of J ?r' = ids_of J r - {unat i}"
  proof -
    have "unat j = unat i \<longleftrightarrow> q = pk" if "idof J r q = Some j" for q j
      using that i rows_okD(3) [OF r, of q i pk] by (auto simp: word_unat_eq_iff [symmetric])
    then show ?thesis unfolding ids_of_def id by (auto split: if_splits)
  qed
  have il: "unat i < unat (r_next r)" by (rule idof_less [OF r i])
  note put = pv.unset [OF rows_okD(4) [OF r]]
  have "rows_ok J ?r' (R(pk := None))"
  proof (rule rows_okI)
    show "\<exists>i. c = CId i" if "j_get J (r_ids ?r') q = Some c" for q c
      using that rows_okD(1) [OF r] by (auto split: if_splits)
    show "dom (idof J ?r') = dom (R(pk := None))" using rows_okD(2) [OF r] by (simp add: id)
    show "p = q" if "idof J ?r' p = Some j" "idof J ?r' q = Some j" for p q j
      using that rows_okD(3) [OF r] unfolding id by (auto split: if_splits)
    show "vec_ok (r_rows ?r')" using put by simp
    show "Get (r_rows ?r') j = Some o' \<longleftrightarrow> (\<exists>q. idof J ?r' q = Some j \<and> (R(pk := None)) q = Some o')" for j o'
    proof (cases "j = i")
      case True
      have "q = pk" if "idof J r q = Some i" for q using that i rows_okD(3) [OF r] by blast
      then show ?thesis unfolding id using put True by (auto split: if_splits)
    next
      case False
      then have "idof J r pk \<noteq> Some j" using i by simp
      then have "(\<exists>q. idof J ?r' q = Some j \<and> (R(pk := None)) q = Some o') \<longleftrightarrow> (\<exists>q. idof J r q = Some j \<and> R q = Some o')"
        unfolding id by (metis fun_upd_apply option.distinct(1))
      then show ?thesis using put False rows_okD(5) [OF r, of j o'] by simp
    qed
    show "bm_wf (r_all ?r')" "bm_wf (r_free ?r')" using rows_okD(6,7) [OF r] by simp_all
    show "bm_set (r_all ?r') = ids_of J ?r'" unfolding ids using rows_okD(6,8) [OF r] by simp
    show "ids_of J ?r' \<subseteq> {..<unat (r_next ?r')}" unfolding ids using rows_okD(9) [OF r] by auto
    show "bm_set (r_free ?r') = {..<unat (r_next ?r')} - ids_of J ?r'"
      unfolding ids using rows_okD(7,9,10) [OF r] il by auto
  qed
  then show ?thesis using rid i id(1) by (intro exI [of _ i] exI [of _ ?r1]) simp
qed

text \<open>A new row takes the least free id, or the next one; it panics when there is none.\<close>

lemma row_id_insert:
  assumes r: "rows_ok J r R" and "R pk = None" and "\<not> is_nil ob"
    and "unat (r_next r) < 2 ^ 32 - 1 \<or> bm_set (r_free r) \<noteq> {}"
  shows "\<exists>i r'. row_id J ob ONil pk r = Ret (r', i) \<and> (\<forall>q. idof J r q \<noteq> Some i) \<and> r_rows r' = r_rows r \<and>
    idof J r' = (idof J r)(pk \<mapsto> i) \<and> rows_ok J (r'\<lparr>r_rows := PSet (r_rows r') i (Some ob)\<rparr>) (R(pk \<mapsto> ob))"
proof -
  have "\<exists>r1 i. (case Min_id (r_free r) of
           Panic \<Rightarrow> Panic
         | Ret (Some m) \<Rightarrow> Ret (r\<lparr>r_free := fst (Clear_id (r_free r) m)\<rparr>, m)
         | Ret None \<Rightarrow> if r_next r + 1 = 0 then Panic else Ret (r\<lparr>r_next := r_next r + 1\<rparr>, r_next r)) = Ret (r1, i) \<and>
      unat i \<notin> ids_of J r \<and> r_ids r1 = r_ids r \<and> r_rows r1 = r_rows r \<and> r_all r1 = r_all r \<and> bm_wf (r_free r1) \<and>
      bm_set (r_free r1) = {..<unat (r_next r1)} - insert (unat i) (ids_of J r) \<and>
      insert (unat i) (ids_of J r) \<subseteq> {..<unat (r_next r1)}"
  proof (cases "bm_set (r_free r) = {}")
    case True
    then have m: "Min_id (r_free r) = Ret None" using bm.least_None rows_okD(7) [OF r] by simp
    have n: "unat (r_next r) < 2 ^ 32 - 1" using assms(4) True by simp
    then have nx: "unat (r_next r + 1) = unat (r_next r) + 1" by (simp add: unat_word_ariths)
    then have "r_next r + 1 \<noteq> 0" by auto
    moreover have all: "{..<unat (r_next r)} = ids_of J r" using rows_okD(9,10) [OF r] True by blast
    moreover have "unat (r_next r) \<notin> ids_of J r" using all by auto
    moreover have "insert (unat (r_next r)) (ids_of J r) \<subseteq> {..<unat (r_next r) + 1}"
      "{} = {..<unat (r_next r) + 1} - insert (unat (r_next r)) (ids_of J r)"
      unfolding all [symmetric] by auto
    ultimately show ?thesis using m rows_okD(7) [OF r] True
      by (intro exI [of _ "r\<lparr>r_next := r_next r + 1\<rparr>"] exI [of _ "r_next r"]) (auto simp: nx)
  next
    case False
    obtain m where m: "Min_id (r_free r) = Ret (Some m)"
      using bm.least_Ret [OF rows_okD(7) [OF r]] bm.least_None [OF rows_okD(7) [OF r]] False by (metis not_Some_eq)
    have f: "unat m \<in> bm_set (r_free r)" using bm.least_Some [OF rows_okD(7) [OF r] m] by blast
    then have "unat m < unat (r_next r)" "unat m \<notin> ids_of J r" using rows_okD(10) [OF r] by auto
    then show ?thesis using m rows_okD(7,9,10) [OF r]
      by (intro exI [of _ "r\<lparr>r_free := fst (Clear_id (r_free r) m)\<rparr>"] exI [of _ m]) auto
  qed
  then obtain r1 i where c: "(case Min_id (r_free r) of
           Panic \<Rightarrow> Panic
         | Ret (Some m) \<Rightarrow> Ret (r\<lparr>r_free := fst (Clear_id (r_free r) m)\<rparr>, m)
         | Ret None \<Rightarrow> if r_next r + 1 = 0 then Panic else Ret (r\<lparr>r_next := r_next r + 1\<rparr>, r_next r)) = Ret (r1, i)"
      and new: "unat i \<notin> ids_of J r" and r1: "r_ids r1 = r_ids r" "r_rows r1 = r_rows r" "r_all r1 = r_all r" "bm_wf (r_free r1)"
        "bm_set (r_free r1) = {..<unat (r_next r1)} - insert (unat i) (ids_of J r)"
        "insert (unat i) (ids_of J r) \<subseteq> {..<unat (r_next r1)}" by blast
  let ?r2 = "r1\<lparr>r_ids := fst (j_insert J (r_ids r1) pk (CId i)), r_all := fst (Set_id (r_all r1) i)\<rparr>"
  let ?r' = "?r2\<lparr>r_rows := PSet (r_rows ?r2) i (Some ob)\<rparr>"
  have rid: "row_id J ob ONil pk r = Ret (?r2, i)" by (simp add: row_id_def is_nil_def c)
  have fresh: "idof J r q \<noteq> Some i" for q using new by (auto simp: ids_of_def)
  have id: "idof J ?r2 = (idof J r)(pk \<mapsto> i)" "idof J ?r' = (idof J r)(pk \<mapsto> i)"
  proof -
    have "idof J r1 = idof J r" using r1(1) by (simp add: idof_def fun_eq_iff)
    then show "idof J ?r2 = (idof J r)(pk \<mapsto> i)" "idof J ?r' = (idof J r)(pk \<mapsto> i)" by simp_all
  qed
  have npk: "idof J r pk = None" using rows_okD(2) [OF r] assms(2) by blast
  have ids: "ids_of J ?r' = insert (unat i) (ids_of J r)"
  proof -
    have "(\<exists>q. ((idof J r)(pk \<mapsto> i)) q = Some j) \<longleftrightarrow> j = i \<or> (\<exists>q. idof J r q = Some j)" for j
      using npk by (metis fun_upd_apply option.distinct(1) option.inject)
    then show ?thesis unfolding ids_of_def id by auto
  qed
  have "i \<noteq> - 1"
  proof
    assume "i = - 1"
    then have "unat (- 1 :: uint32) < unat (r_next r1)" using r1(6) by auto
    then show False using unat_le_last [of "r_next r1"] by (rule leD [THEN notE, rotated])
  qed
  then have room: "(if - 1 = i then Some ob else Get (r_rows r) (- 1)) = None" using last_id_unset [OF r] by simp
  note put = pv.put_law [OF rows_okD(4) [OF r] room]
  have "rows_ok J ?r' (R(pk \<mapsto> ob))"
  proof (rule rows_okI)
    show "\<exists>i. c = CId i" if "j_get J (r_ids ?r') q = Some c" for q c
      using that rows_okD(1) [OF r] by (auto simp: r1 split: if_splits)
    show "dom (idof J ?r') = dom (R(pk \<mapsto> ob))" unfolding id using rows_okD(2) [OF r] by simp
    show "p = q" if "idof J ?r' p = Some j" "idof J ?r' q = Some j" for p q j
      using that rows_okD(3) [OF r] fresh unfolding id by (auto split: if_splits)
    show "vec_ok (r_rows ?r')" using put by (simp add: r1)
    show "Get (r_rows ?r') j = Some o' \<longleftrightarrow> (\<exists>q. idof J ?r' q = Some j \<and> (R(pk \<mapsto> ob)) q = Some o')" for j o'
    proof (cases "j = i")
      case True
      then show ?thesis unfolding id using put fresh by (auto simp: r1 split: if_splits)
    next
      case False
      then have "(\<exists>q. idof J ?r' q = Some j \<and> (R(pk \<mapsto> ob)) q = Some o') \<longleftrightarrow> (\<exists>q. idof J r q = Some j \<and> R q = Some o')"
        unfolding id using npk by (metis fun_upd_apply option.distinct(1) option.inject)
      then show ?thesis using put False rows_okD(5) [OF r, of j o'] by (simp add: r1)
    qed
    show "bm_wf (r_all ?r')" "bm_wf (r_free ?r')" using rows_okD(6) [OF r] r1 by simp_all
    show "bm_set (r_all ?r') = ids_of J ?r'" unfolding ids using rows_okD(6,8) [OF r] by (simp add: r1)
    show "ids_of J ?r' \<subseteq> {..<unat (r_next ?r')}" unfolding ids using r1(6) by simp
    show "bm_set (r_free ?r') = {..<unat (r_next ?r')} - ids_of J ?r'" unfolding ids using r1(5) by simp
  qed
  then show ?thesis using rid fresh id(1) by (intro exI [of _ i] exI [of _ ?r2]) (simp add: r1)
qed

end

end
