(* ===== verification/RowSets.thy ===== *)
theory RowSets
  imports Rows
begin

text \<open>
  Bitmap indexes as maps from values to sets of row ids: what the loops of applyBitmaps do to
  them, and the invariant that ties the bookkeeping and the sets of a table to its rows.
\<close>

section \<open>Trees of sets\<close>

definition setT :: "'t juuri \<Rightarrow> 't \<Rightarrow> bytes \<Rightarrow> nat set" where
  "setT J t k = (case j_get J t k of Some (CBits s) \<Rightarrow> bm_set s | _ \<Rightarrow> {})"

definition sets_ok :: "'t juuri \<Rightarrow> 't \<Rightarrow> bool" where
  "sets_ok J t \<longleftrightarrow> (\<forall>k c. j_get J t k = Some c \<longrightarrow> (\<exists>s. c = CBits s \<and> bm_wf s \<and> bm_set s \<noteq> {}))"

lemma sets_okD: "sets_ok J t \<Longrightarrow> j_get J t k = Some c \<Longrightarrow> \<exists>s. c = CBits s \<and> bm_wf s \<and> bm_set s \<noteq> {}"
  by (simp add: sets_ok_def)

lemma sets_ok_cases:
  assumes "sets_ok J t"
  obtains "j_get J t k = None" "setT J t k = {}"
    | s where "j_get J t k = Some (CBits s)" "bm_wf s" "setT J t k = bm_set s" "bm_set s \<noteq> {}"
  using sets_okD [OF assms, of k] by (cases "j_get J t k") (auto simp: setT_def)

lemma setT_None: "sets_ok J t \<Longrightarrow> j_get J t k = None \<longleftrightarrow> setT J t k = {}"
  by (rule sets_ok_cases [of J t k]) auto

lemma contains_iff: "contains kl from to key \<longleftrightarrow> key \<in> set (range_keys kl from to)"
  by (auto simp: contains_def range_keys_def list_ex_iff)

context juuri_tree
begin

lemma sets_ok_new: "sets_ok J (j_new J)"
  by (simp add: sets_ok_def)

lemma sets_delete: "sets_ok J t \<Longrightarrow> sets_ok J (fst (j_delete J t k)) \<and> setT J (fst (j_delete J t k)) = (setT J t)(k := {})"
  by (auto simp: sets_ok_def setT_def fun_eq_iff split: if_splits)

lemma sets_insert: "sets_ok J t \<Longrightarrow> bm_wf s \<Longrightarrow> bm_set s \<noteq> {} \<Longrightarrow>
    sets_ok J (fst (j_insert J t k (CBits s))) \<and> setT J (fst (j_insert J t k (CBits s))) = (setT J t)(k := bm_set s)"
  by (auto simp: sets_ok_def setT_def fun_eq_iff split: if_splits)

lemma clear_step:
  assumes "sets_ok J t" and "j_get J t k = Some (CBits s)" and "bm_wf s" and "nxt = fst (Clear_id s i)"
  shows "let t' = (if Empty nxt then fst (j_delete J t k) else if nxt \<noteq> s then fst (j_insert J t k (CBits nxt)) else t)
    in sets_ok J t' \<and> setT J t' = (setT J t)(k := setT J t k - {unat i})"
proof -
  have n: "bm_wf nxt" "bm_set nxt = bm_set s - {unat i}" using assms(3,4) by simp_all
  have k: "setT J t k = bm_set s" using assms(2) by (simp add: setT_def)
  show ?thesis
  proof (cases "Empty nxt")
    case True
    then have "bm_set s - {unat i} = {}" using n Empty_iff by auto
    then show ?thesis using True sets_delete [OF assms(1), of k] k by (simp only: Let_def if_True)
  next
    case False
    then have ne: "bm_set nxt \<noteq> {}" using n Empty_iff by auto
    show ?thesis
    proof (cases "nxt = s")
      case True
      then have "(setT J t)(k := setT J t k - {unat i}) = setT J t" using n k by (simp add: fun_upd_idem)
      then show ?thesis using True False assms(1) by (simp add: Let_def)
    next
      case neq: False
      then show ?thesis using False sets_insert [OF assms(1) n(1) ne, of k] n(2) k by (simp add: Let_def)
    qed
  qed
qed

lemma clear_values_sets:
  "sets_ok J t \<Longrightarrow> \<exists>t'. clear_values J bmNew kr i ks t = Ret t' \<and> sets_ok J t' \<and>
    setT J t' = (\<lambda>k. if k \<in> set ks \<and> k \<notin> set (range_keys bmNew (newFrom kr) (newTo kr)) then setT J t k - {unat i} else setT J t k)"
proof (induction ks arbitrary: t)
  case Nil
  then show ?case by simp
next
  case (Cons key ks)
  let ?new = "set (range_keys bmNew (newFrom kr) (newTo kr))"
  show ?case
  proof (cases "key \<in> ?new")
    case True
    have "(\<lambda>k. if k \<in> set (key # ks) \<and> k \<notin> ?new then setT J t k - {unat i} else setT J t k) =
        (\<lambda>k. if k \<in> set ks \<and> k \<notin> ?new then setT J t k - {unat i} else setT J t k)" using True by (intro ext) auto
    then show ?thesis using Cons.IH [OF Cons.prems] True by (simp add: contains_iff)
  next
    case new: False
    show ?thesis
    proof (rule sets_ok_cases [OF Cons.prems, of key])
      assume n: "j_get J t key = None" "setT J t key = {}"
      have "(\<lambda>k. if k \<in> set (key # ks) \<and> k \<notin> ?new then setT J t k - {unat i} else setT J t k) =
          (\<lambda>k. if k \<in> set ks \<and> k \<notin> ?new then setT J t k - {unat i} else setT J t k)" using n by (intro ext) auto
      then show ?thesis using Cons.IH [OF Cons.prems] new n by (simp add: contains_iff)
    next
      fix s assume s: "j_get J t key = Some (CBits s)" "bm_wf s" "setT J t key = bm_set s" "bm_set s \<noteq> {}"
      let ?nxt = "fst (Clear_id s i)"
      let ?t = "if Empty ?nxt then fst (j_delete J t key) else if ?nxt \<noteq> s then fst (j_insert J t key (CBits ?nxt)) else t"
      have st: "sets_ok J ?t" "setT J ?t = (setT J t)(key := setT J t key - {unat i})"
        using clear_step [OF Cons.prems s(1,2) refl, of i] by (simp_all only: Let_def)
      have eq: "clear_values J bmNew kr i (key # ks) t = clear_values J bmNew kr i ks ?t"
        using new s by (simp add: contains_iff Let_def)
      show ?thesis unfolding eq using Cons.IH [OF st(1)] unfolding st(2)
        by (elim ex_forward) (use new in \<open>auto simp: fun_eq_iff\<close>)
    qed
  qed
qed

lemma set_values_sets:
  "sets_ok J t \<Longrightarrow> \<exists>t'. set_values J bmOld kr i ks t = Ret t' \<and> sets_ok J t' \<and>
    setT J t' = (\<lambda>k. if k \<in> set ks \<and> k \<notin> set (range_keys bmOld (oldFrom kr) (oldTo kr)) then insert (unat i) (setT J t k) else setT J t k)"
proof (induction ks arbitrary: t)
  case Nil
  then show ?case by simp
next
  case (Cons key ks)
  let ?old = "set (range_keys bmOld (oldFrom kr) (oldTo kr))"
  show ?case
  proof (cases "key \<in> ?old")
    case True
    have "(\<lambda>k. if k \<in> set (key # ks) \<and> k \<notin> ?old then insert (unat i) (setT J t k) else setT J t k) =
        (\<lambda>k. if k \<in> set ks \<and> k \<notin> ?old then insert (unat i) (setT J t k) else setT J t k)" using True by (intro ext) auto
    then show ?thesis using Cons.IH [OF Cons.prems] True by (simp add: contains_iff)
  next
    case old: False
    obtain s where s: "(case j_get J t key of None \<Rightarrow> Some None | Some (CBits s) \<Rightarrow> Some s | Some _ \<Rightarrow> None) = Some s"
        "bm_wf s" "setT J t key = bm_set s"
      using bm.emp_law by (rule_tac sets_ok_cases [OF Cons.prems, of key]) auto
    let ?nxt = "fst (Set_id s i)"
    let ?t = "if ?nxt \<noteq> s then fst (j_insert J t key (CBits ?nxt)) else t"
    have n: "bm_wf ?nxt" "bm_set ?nxt = insert (unat i) (bm_set s)" using s(2) by simp_all
    have "sets_ok J ?t \<and> setT J ?t = (setT J t)(key := insert (unat i) (setT J t key))"
    proof (cases "?nxt = s")
      case True
      then have "insert (unat i) (setT J t key) = setT J t key" using n(2) s(3) by simp
      then show ?thesis using True Cons.prems by (simp add: fun_upd_idem)
    next
      case False
      then show ?thesis using sets_insert [OF Cons.prems n(1), of key] n(2) s(3) by simp
    qed
    then have st: "sets_ok J ?t" "setT J ?t = (setT J t)(key := insert (unat i) (setT J t key))" by blast+
    have eq: "set_values J bmOld kr i (key # ks) t = set_values J bmOld kr i ks ?t"
      using old s(1) by (simp add: contains_iff Let_def)
    show ?thesis unfolding eq using Cons.IH [OF st(1)] unfolding st(2)
      by (elim ex_forward) (use old in \<open>auto simp: fun_eq_iff\<close>)
  qed
qed

end

section \<open>The keys a loop has built\<close>

text \<open>\<open>spans kl a b ks\<close>: positions \<open>a\<close> to \<open>b\<close> of the list hold the keys \<open>ks\<close>.\<close>

definition spans :: "keyList \<Rightarrow> nat \<Rightarrow> nat \<Rightarrow> bytes list \<Rightarrow> bool" where
  "spans kl from to ks \<longleftrightarrow> to \<le> kl_len kl \<and> from \<le> to \<and> range_keys kl from to = ks"

lemma range_keys_split: "to \<le> kl_len kl \<Longrightarrow> range_keys kl from to = take (to - from) (drop from (kl_split kl))"
  by (rule nth_equalityI) (auto simp: range_keys_def kl_key_split)

lemma appended_len: "appended kl kl' ks \<Longrightarrow> kl_len kl' = kl_len kl + length ks"
  by (metis appended_def length_append length_kl_split)

lemma spans_new: "appended kl kl' ks \<Longrightarrow> spans kl' (kl_len kl) (kl_len kl') ks"
  by (simp add: spans_def appended_len range_keys_split) (simp add: appended_def)

lemma spans_mono: "spans kl a b ks \<Longrightarrow> appended kl kl' ls \<Longrightarrow> spans kl' a b ks"
  by (auto simp: spans_def range_keys_split appended_len) (simp add: appended_def)

lemma spans_length: "spans kl a b ks \<Longrightarrow> length ks = b - a"
  by (auto simp: spans_def range_keys_def)

lemma spans_nth: "spans kl a b ks \<Longrightarrow> i < length ks \<Longrightarrow> kl_key kl (a + i) = ks ! i"
  by (auto simp: spans_def range_keys_def)

lemma spans_empty: "spans kl a b ks \<Longrightarrow> a = b \<longleftrightarrow> ks = []"
  by (auto simp: spans_def range_keys_def)

section \<open>bitmapKeys\<close>

text \<open>
  The keys of a row in an index; None stands for no row (a nil interface). A row is indexable
  when every index can be computed and has a value or may do without.
\<close>

definition keys_of :: "(bytes \<Rightarrow> bytes) \<Rightarrow> compiledIndex \<Rightarrow> bytes \<Rightarrow> obj \<Rightarrow> bytes list" where
  "keys_of uni ci sfx ob = (case row_keys uni ci sfx ob of Ok (Some ks) \<Rightarrow> ks | _ \<Rightarrow> [])"

definition vals_of :: "(bytes \<Rightarrow> bytes) \<Rightarrow> compiledIndex \<Rightarrow> obj \<Rightarrow> bytes list" where
  "vals_of uni ci ob = (if is_nil ob then [] else keys_of uni ci [] ob)"

definition has_key :: "(bytes \<Rightarrow> bytes) \<Rightarrow> compiledIndex \<Rightarrow> bytes \<Rightarrow> obj \<Rightarrow> bool" where
  "has_key uni ci sfx ob \<longleftrightarrow> (\<exists>ks. row_keys uni ci sfx ob = Ok ks \<and> (ks = None \<longrightarrow> ci_allowMissing ci))"

definition bm_range_ok :: "(bytes \<Rightarrow> bytes) \<Rightarrow> obj \<Rightarrow> obj \<Rightarrow> keyList \<Rightarrow> keyList \<Rightarrow> compiledIndex \<Rightarrow> keyRange \<Rightarrow> bool" where
  "bm_range_ok uni ob existing bmNew bmOld ci kr \<longleftrightarrow>
     spans bmNew (newFrom kr) (newTo kr) (vals_of uni ci ob) \<and> spans bmOld (oldFrom kr) (oldTo kr) (vals_of uni ci existing)"

lemma ci_values_row:
  assumes "kl_good kl" and "ci_values uni ci ob kl = Ok (kl', ok)"
  shows "\<exists>ks. row_keys uni ci [] ob = Ok ks \<and> (ok \<longleftrightarrow> ks \<noteq> None) \<and> appended kl kl' (keys_of uni ci [] ob)"
  using keys_with_row [OF assms(1), of uni "[]" ci ob] assms(2)
  by (auto simp: ci_values_def keys_of_def split: res.splits option.splits)

lemma ci_values_Panics: "kl_good kl \<Longrightarrow> ci_values uni ci ob kl = Panics \<longleftrightarrow> row_keys uni ci [] ob = Panics"
  using keys_with_row [of kl uni "[]" ci ob] by (auto simp: ci_values_def split: res.splits)

lemma ci_values_Err: "kl_good kl \<Longrightarrow> ci_values uni ci ob kl = Err e \<longleftrightarrow> row_keys uni ci [] ob = Err e"
  using keys_with_row [of kl uni "[]" ci ob] by (auto simp: ci_values_def split: res.splits)

lemma nil_or_values:
  assumes "kl_good kl" and "(if \<not> is_nil ob then ci_values uni ci ob kl else Ok (kl, False)) = Ok (kl', ok)"
  shows "appended kl kl' (vals_of uni ci ob)" and "kl_good kl'"
    and "\<not> is_nil ob \<Longrightarrow> ok \<or> ci_allowMissing ci \<Longrightarrow> has_key uni ci [] ob"
proof -
  show a: "appended kl kl' (vals_of uni ci ob)"
    using assms(2) ci_values_row [OF assms(1), of uni ci ob kl' ok] appended_refl [OF assms(1)]
    by (auto simp: vals_of_def split: if_splits)
  then show "kl_good kl'" by (simp add: appended_def)
  show "\<not> is_nil ob \<Longrightarrow> ok \<or> ci_allowMissing ci \<Longrightarrow> has_key uni ci [] ob"
    using assms(2) ci_values_row [OF assms(1), of uni ci ob kl' ok] by (auto simp: has_key_def)
qed

text \<open>When the keys of the old row can be built, an error or a panic is the new row's.\<close>

lemma bitmapKeys_spec:
  assumes "\<And>ci. \<not> is_nil existing \<Longrightarrow> ci \<in> set cis \<Longrightarrow> has_key uni ci [] existing"
  shows "kl_good bmNew \<Longrightarrow> kl_good bmOld \<Longrightarrow> (case bitmapKeys uni ob existing cis bmNew bmOld rs of
     TOk (n', o', rs') \<Rightarrow> (\<exists>rs0 ns os. rs' = rs @ rs0 \<and> appended bmNew n' ns \<and> appended bmOld o' os \<and>
       list_all2 (bm_range_ok uni ob existing n' o') cis rs0 \<and> (\<not> is_nil ob \<longrightarrow> (\<forall>ci\<in>set cis. has_key uni ci [] ob)))
   | TErr e \<Rightarrow> \<not> is_nil ob \<and> (\<exists>ci\<in>set cis. \<not> has_key uni ci [] ob)
   | TPanic \<Rightarrow> \<not> is_nil ob \<and> (\<exists>ci\<in>set cis. row_keys uni ci [] ob = Panics))"
  using assms
proof (induction cis arbitrary: bmNew bmOld rs)
  case Nil
  then show ?case using appended_refl by fastforce
next
  case (Cons ci cis)
  let ?new = "if \<not> is_nil ob then ci_values uni ci ob bmNew else Ok (bmNew, False)"
  let ?old = "if \<not> is_nil existing then ci_values uni ci existing bmOld else Ok (bmOld, False)"
  show ?case
  proof (cases ?new)
    case (Err e)
    then have "\<not> is_nil ob" "\<not> has_key uni ci [] ob"
      using ci_values_Err [OF Cons.prems(1)] by (auto simp: has_key_def split: if_splits)
    then show ?thesis using Err by auto
  next
    case Panics
    then have "\<not> is_nil ob" "row_keys uni ci [] ob = Panics" using ci_values_Panics [OF Cons.prems(1)] by (auto split: if_splits)
    then show ?thesis using Panics by auto
  next
    case (Ok p)
    then obtain n1 ok where new: "?new = Ok (n1, ok)" by (cases p) auto
    note n = nil_or_values [OF Cons.prems(1) new]
    show ?thesis
    proof (cases "\<not> is_nil ob \<and> \<not> ok \<and> \<not> ci_allowMissing ci")
      case True
      then have "\<not> has_key uni ci [] ob"
        using ci_values_row [OF Cons.prems(1), of uni ci ob n1 ok] new by (auto simp: has_key_def)
      then show ?thesis using new True by auto
    next
      case found: False
      show ?thesis
      proof (cases ?old)
        case (Err e)
        then show ?thesis using Cons.prems(3) [of ci] ci_values_Err [OF Cons.prems(2)] by (auto simp: has_key_def split: if_splits)
      next
        case Panics
        then show ?thesis using Cons.prems(3) [of ci] ci_values_Panics [OF Cons.prems(2)] by (auto simp: has_key_def split: if_splits)
      next
        case (Ok p)
        then obtain o1 okOld where old: "?old = Ok (o1, okOld)" by (cases p) auto
        note o = nil_or_values [OF Cons.prems(2) old]
        let ?r = "\<lparr>newFrom = kl_len bmNew, newTo = kl_len n1, oldFrom = kl_len bmOld, oldTo = kl_len o1, r_ok = ok, r_okOld = okOld\<rparr>"
        have eq: "bitmapKeys uni ob existing (ci # cis) bmNew bmOld rs = bitmapKeys uni ob existing cis n1 o1 (rs @ [?r])"
          by (simp only: bitmapKeys.simps new old found res.case prod.case if_False)
        have ih0: "\<And>ci. \<not> is_nil existing \<Longrightarrow> ci \<in> set cis \<Longrightarrow> has_key uni ci [] existing" using Cons.prems(3) by simp
        note ih = Cons.IH [OF n(2) o(2) ih0, of "rs @ [?r]"]
        show ?thesis
        proof (cases "bitmapKeys uni ob existing cis n1 o1 (rs @ [?r])")
          case (TOk q)
          then obtain n' o' rs' where q: "bitmapKeys uni ob existing cis n1 o1 (rs @ [?r]) = TOk (n', o', rs')" by (cases q) auto
          obtain rs0 ns os where i: "rs' = (rs @ [?r]) @ rs0" "appended n1 n' ns" "appended o1 o' os"
              "list_all2 (bm_range_ok uni ob existing n' o') cis rs0" "\<not> is_nil ob \<longrightarrow> (\<forall>ci\<in>set cis. has_key uni ci [] ob)"
            using ih q by auto
          have "bm_range_ok uni ob existing n' o' ci ?r"
            using spans_mono [OF spans_new [OF n(1)] i(2)] spans_mono [OF spans_new [OF o(1)] i(3)]
            by (simp add: bm_range_ok_def)
          moreover have "\<not> is_nil ob \<longrightarrow> has_key uni ci [] ob" using n(3) found by blast
          ultimately show ?thesis unfolding eq q
            using i appended_trans [OF n(1) i(2)] appended_trans [OF o(1) i(3)] by fastforce
        next
          case (TErr e)
          then show ?thesis unfolding eq using ih by auto
        next
          case TPanic
          then show ?thesis unfolding eq using ih by auto
        qed
      qed
    qed
  qed
qed

end
