(* ===== verification/TableTrees.thy ===== *)
theory TableTrees
  imports RowSets
begin

text \<open>
  Reading and writing the trees of one table inside a transaction, and applyBitmaps as a
  whole: it keeps the row bookkeeping and every bitmap index in line with the rows.
\<close>

section \<open>The trees of a table in a transaction\<close>

text \<open>The tree of an index as the transaction sees it: its own, or that of its base version.\<close>

definition cur_tree :: "'t dbRoot \<Rightarrow> 't tableTxn \<Rightarrow> compiledIndex \<Rightarrow> 't" where
  "cur_tree root tt ci = (case tt_idx tt ! ci_ord ci of Some t \<Rightarrow> t | None \<Rightarrow> d_trees root ! ci_slot ci)"

definition tt_wf :: "compiledTable \<Rightarrow> 't tableTxn \<Rightarrow> bool" where
  "tt_wf ct tt \<longleftrightarrow> ct_wf ct \<and> tt_table tt = ct \<and> length (tt_idx tt) = length (ct_indexes ct)"

lemma ct_wf_ord:
  assumes "ct_wf ct" and "ci \<in> set (ct_indexes ct)"
  shows "ci_ord ci < length (ct_indexes ct)" and "ct_indexes ct ! ci_ord ci = ci"
proof -
  obtain i where i: "i < length (ct_indexes ct)" "ci = ct_indexes ct ! i" using assms(2) by (metis in_set_conv_nth)
  then have "ci_ord ci = i" using assms(1) by (simp add: ct_wf_def)
  then show "ci_ord ci < length (ct_indexes ct)" "ct_indexes ct ! ci_ord ci = ci" using i by simp_all
qed

lemma ct_wf_eq: "ct_wf ct \<Longrightarrow> ci \<in> set (ct_indexes ct) \<Longrightarrow> cj \<in> set (ct_indexes ct) \<Longrightarrow> ci_ord ci = ci_ord cj \<longleftrightarrow> ci = cj"
  by (metis ct_wf_ord(2))

lemma ct_wf_distinct: "ct_wf ct \<Longrightarrow> distinct (ct_indexes ct)"
  unfolding ct_wf_def by (metis distinct_map)

lemma tt_fields [simp]:
  "tt_table (start_index root ci tt) = tt_table tt" "tt_rows (start_index root ci tt) = tt_rows tt"
  "length (tt_idx (start_index root ci tt)) = length (tt_idx tt)"
  "tt_table (put_tree ci t tt) = tt_table tt" "tt_rows (put_tree ci t tt) = tt_rows tt"
  "length (tt_idx (put_tree ci t tt)) = length (tt_idx tt)"
  by (simp_all add: start_index_def put_tree_def split: option.split)

lemma tt_wf_steps [simp]:
  "tt_wf ct (start_index root ci tt) = tt_wf ct tt" "tt_wf ct (put_tree ci t tt) = tt_wf ct tt"
  "tt_wf ct (tt\<lparr>tt_rows := r\<rparr>) = tt_wf ct tt"
  by (simp_all add: tt_wf_def)

lemma cur_tree_rows [simp]: "cur_tree root (tt\<lparr>tt_rows := r\<rparr>) ci = cur_tree root tt ci"
  by (simp add: cur_tree_def)

lemma tree_at_start:
  assumes "tt_wf ct tt" and "ci \<in> set (ct_indexes ct)"
  shows "tree_at (start_index root ci tt) ci = cur_tree root tt ci"
  using assms ct_wf_ord(1) [of ct ci]
  by (auto simp: tree_at_def start_index_def cur_tree_def tt_wf_def split: option.split)

lemma cur_tree_start [simp]:
  assumes "tt_wf ct tt" and "ci \<in> set (ct_indexes ct)" and "cj \<in> set (ct_indexes ct)"
  shows "cur_tree root (start_index root ci tt) cj = cur_tree root tt cj"
proof -
  have l: "ci_ord ci < length (tt_idx tt)" using assms(1,2) ct_wf_ord(1) by (simp add: tt_wf_def)
  have e: "ci_ord ci = ci_ord cj \<longleftrightarrow> ci = cj" using assms(1) by (intro ct_wf_eq [OF _ assms(2,3)]) (simp add: tt_wf_def)
  show ?thesis using l e
    by (cases "ci = cj") (simp_all add: start_index_def cur_tree_def split: option.split)
qed

lemma cur_tree_put:
  assumes "tt_wf ct tt" and "ci \<in> set (ct_indexes ct)" and "cj \<in> set (ct_indexes ct)"
  shows "cur_tree root (put_tree ci t tt) cj = (if cj = ci then t else cur_tree root tt cj)"
proof -
  have l: "ci_ord ci < length (tt_idx tt)" using assms(1,2) ct_wf_ord(1) by (simp add: tt_wf_def)
  have e: "ci_ord ci = ci_ord cj \<longleftrightarrow> ci = cj" using assms(1) by (intro ct_wf_eq [OF _ assms(2,3)]) (simp add: tt_wf_def)
  show ?thesis using l e by (cases "ci = cj") (simp_all add: put_tree_def cur_tree_def)
qed

section \<open>The loop over the bitmap indexes\<close>

definition upd_set :: "nat \<Rightarrow> bytes list \<Rightarrow> bytes list \<Rightarrow> (bytes \<Rightarrow> nat set) \<Rightarrow> bytes \<Rightarrow> nat set" where
  "upd_set i old new T k = (if k \<in> set new then if k \<in> set old then T k else insert i (T k)
     else if k \<in> set old then T k - {i} else T k)"

context juuri_tree
begin

lemma apply_bitmap_indexes_spec:
  assumes "tt_wf ct tt" and "set (map fst zs) \<subseteq> set (ct_indexes ct)" and "distinct (map fst zs)"
    and "\<And>ci kr. (ci, kr) \<in> set zs \<Longrightarrow> bm_range_ok uni ob existing bmNew bmOld ci kr \<and> sets_ok J (cur_tree root tt ci)"
  shows "\<exists>tt'. apply_bitmap_indexes J root bmNew bmOld i zs tt = Ret tt' \<and> tt_wf ct tt' \<and> tt_rows tt' = tt_rows tt \<and>
    (\<forall>cj\<in>set (ct_indexes ct). if cj \<in> set (map fst zs)
       then sets_ok J (cur_tree root tt' cj) \<and>
         setT J (cur_tree root tt' cj) = upd_set (unat i) (vals_of uni cj existing) (vals_of uni cj ob) (setT J (cur_tree root tt cj))
       else cur_tree root tt' cj = cur_tree root tt cj)"
  using assms
proof (induction zs arbitrary: tt)
  case Nil
  then show ?case by simp
next
  case (Cons z zs)
  obtain ci kr where z: "z = (ci, kr)" by fastforce
  have ci: "ci \<in> set (ct_indexes ct)" "ci \<notin> set (map fst zs)" using Cons.prems(2,3) z by auto
  have br: "bm_range_ok uni ob existing bmNew bmOld ci kr" and so: "sets_ok J (cur_tree root tt ci)"
    using Cons.prems(4) [of ci kr] z by auto
  let ?old = "vals_of uni ci existing" and ?new = "vals_of uni ci ob"
  have rk: "range_keys bmNew (newFrom kr) (newTo kr) = ?new" "range_keys bmOld (oldFrom kr) (oldTo kr) = ?old"
    using br by (simp_all add: bm_range_ok_def spans_def)
  have emp: "newFrom kr = newTo kr \<longleftrightarrow> ?new = []" "oldFrom kr = oldTo kr \<longleftrightarrow> ?old = []"
    using br by (auto simp: bm_range_ok_def dest: spans_empty)
  show ?case
  proof (cases "newFrom kr = newTo kr \<and> oldFrom kr = oldTo kr \<or> untouched bmNew bmOld kr")
    case True
    then have "upd_set (unat i) ?old ?new (setT J (cur_tree root tt ci)) = setT J (cur_tree root tt ci)"
      unfolding emp untouched_def contains_iff rk by (auto simp: upd_set_def fun_eq_iff)
    moreover have "apply_bitmap_indexes J root bmNew bmOld i (z # zs) tt = apply_bitmap_indexes J root bmNew bmOld i zs tt"
      using True z by simp
    moreover obtain tt' where "apply_bitmap_indexes J root bmNew bmOld i zs tt = Ret tt'" "tt_wf ct tt'" "tt_rows tt' = tt_rows tt"
      "\<forall>cj\<in>set (ct_indexes ct). if cj \<in> set (map fst zs)
         then sets_ok J (cur_tree root tt' cj) \<and>
           setT J (cur_tree root tt' cj) = upd_set (unat i) (vals_of uni cj existing) (vals_of uni cj ob) (setT J (cur_tree root tt cj))
         else cur_tree root tt' cj = cur_tree root tt cj"
      using Cons.IH [OF Cons.prems(1)] Cons.prems(2-4) by auto
    ultimately show ?thesis using so ci z by (intro exI [of _ tt']) auto
  next
    case False
    let ?tt = "start_index root ci tt"
    have ta: "tree_at ?tt ci = cur_tree root tt ci" by (rule tree_at_start [OF Cons.prems(1) ci(1)])
    obtain t1 where t1: "clear_values J bmNew kr i ?old (cur_tree root tt ci) = Ret t1" "sets_ok J t1"
        "setT J t1 = (\<lambda>k. if k \<in> set ?old \<and> k \<notin> set ?new then setT J (cur_tree root tt ci) k - {unat i} else setT J (cur_tree root tt ci) k)"
      using clear_values_sets [OF so, of bmNew kr i ?old] rk by auto
    obtain t2 where t2: "set_values J bmOld kr i ?new t1 = Ret t2" "sets_ok J t2"
        "setT J t2 = (\<lambda>k. if k \<in> set ?new \<and> k \<notin> set ?old then insert (unat i) (setT J t1 k) else setT J t1 k)"
      using set_values_sets [OF t1(2), of bmOld kr i ?new] rk by auto
    have set: "setT J t2 = upd_set (unat i) ?old ?new (setT J (cur_tree root tt ci))"
      unfolding t2(3) t1(3) by (rule ext) (auto simp: upd_set_def)
    let ?tt2 = "put_tree ci t2 ?tt"
    have eq: "apply_bitmap_indexes J root bmNew bmOld i (z # zs) tt = apply_bitmap_indexes J root bmNew bmOld i zs ?tt2"
      by (simp only: z apply_bitmap_indexes.simps False if_False Let_def rk ta t1(1) t2(1) outcome.case)
    have wf2: "tt_wf ct ?tt2" and rows2: "tt_rows ?tt2 = tt_rows tt" using Cons.prems(1) by simp_all
    have cur2: "cur_tree root ?tt2 cj = (if cj = ci then t2 else cur_tree root tt cj)" if "cj \<in> set (ct_indexes ct)" for cj
      using cur_tree_put [of ct ?tt ci cj root t2] Cons.prems(1) ci(1) that by simp
    have sub: "set (map fst zs) \<subseteq> set (ct_indexes ct)" "distinct (map fst zs)" using Cons.prems(2,3) by auto
    have each: "bm_range_ok uni ob existing bmNew bmOld cj kr' \<and> sets_ok J (cur_tree root ?tt2 cj)" if "(cj, kr') \<in> set zs" for cj kr'
    proof -
      have "cj \<in> set (map fst zs)" using that by force
      then have "cj \<noteq> ci" "cj \<in> set (ct_indexes ct)" using ci(2) sub(1) by auto
      then show ?thesis using Cons.prems(4) [of cj kr'] that cur2 [of cj] by simp
    qed
    obtain tt' where "apply_bitmap_indexes J root bmNew bmOld i zs ?tt2 = Ret tt'" "tt_wf ct tt'" "tt_rows tt' = tt_rows ?tt2"
      and al: "\<forall>cj\<in>set (ct_indexes ct). if cj \<in> set (map fst zs)
         then sets_ok J (cur_tree root tt' cj) \<and>
           setT J (cur_tree root tt' cj) = upd_set (unat i) (vals_of uni cj existing) (vals_of uni cj ob) (setT J (cur_tree root ?tt2 cj))
         else cur_tree root tt' cj = cur_tree root ?tt2 cj"
      using Cons.IH [OF wf2 sub each] by blast
    moreover have "if cj \<in> set (map fst (z # zs))
        then sets_ok J (cur_tree root tt' cj) \<and>
          setT J (cur_tree root tt' cj) = upd_set (unat i) (vals_of uni cj existing) (vals_of uni cj ob) (setT J (cur_tree root tt cj))
        else cur_tree root tt' cj = cur_tree root tt cj" if cj: "cj \<in> set (ct_indexes ct)" for cj
      using bspec [OF al cj] cur2 [OF cj] ci(2) t2(2) set z by (cases "cj = ci") auto
    ultimately show ?thesis unfolding eq using rows2 by auto
  qed
qed

end

section \<open>applyBitmaps\<close>

text \<open>
  \<open>members\<close>: the row ids a bitmap index should hold for a value. \<open>bits_ok\<close>: the bookkeeping
  and the bitmap indexes of a table are those of its rows \<open>R\<close>.
\<close>

definition members :: "'t juuri \<Rightarrow> (bytes \<Rightarrow> bytes) \<Rightarrow> compiledIndex \<Rightarrow> 't tableRows \<Rightarrow> (bytes \<Rightarrow> obj option) \<Rightarrow> bytes \<Rightarrow> nat set" where
  "members J uni ci r R k = {n. \<exists>i pk ob. n = unat i \<and> idof J r pk = Some i \<and> R pk = Some ob \<and> k \<in> set (vals_of uni ci ob)}"

definition bitmap_indexes :: "compiledTable \<Rightarrow> compiledIndex list" where
  "bitmap_indexes ct = drop (ct_classic ct) (ct_indexes ct)"

definition bits_ok :: "'t juuri \<Rightarrow> (bytes \<Rightarrow> bytes) \<Rightarrow> compiledTable \<Rightarrow> (compiledIndex \<Rightarrow> 't) \<Rightarrow> 't tableRows \<Rightarrow> (bytes \<Rightarrow> obj option) \<Rightarrow> bool" where
  "bits_ok J uni ct T r R \<longleftrightarrow> rows_ok J r R \<and>
     (\<forall>ci\<in>set (bitmap_indexes ct). sets_ok J (T ci) \<and> setT J (T ci) = members J uni ci r R)"

text \<open>A write of the row \<open>ob\<close> (nil to delete) over \<open>existing\<close> (nil if there is none).\<close>

definition writes :: "(bytes \<Rightarrow> obj option) \<Rightarrow> bytes \<Rightarrow> obj \<Rightarrow> obj \<Rightarrow> bool" where
  "writes R pk existing ob \<longleftrightarrow> R pk = Some existing \<and> \<not> is_nil existing \<or> R pk = None \<and> existing = ONil \<and> \<not> is_nil ob"

definition put_row :: "(bytes \<Rightarrow> obj option) \<Rightarrow> bytes \<Rightarrow> obj \<Rightarrow> bytes \<Rightarrow> obj option" where
  "put_row R pk ob = R(pk := if is_nil ob then None else Some ob)"

definition has_room :: "'t tableRows \<Rightarrow> bool" where
  "has_room r \<longleftrightarrow> unat (r_next r) < 2 ^ 32 - 1 \<or> bm_set (r_free r) \<noteq> {}"

lemma is_nil_iff [simp]: "is_nil ob \<longleftrightarrow> ob = ONil"
  by (cases ob) (simp_all add: is_nil_def)

context juuri_tree
begin

lemma row_id_write:
  assumes "rows_ok J r R" and "writes R pk existing ob" and "R pk = None \<Longrightarrow> has_room r"
  shows "\<exists>i r'. row_id J ob existing pk r = Ret (r', i) \<and> r_rows r' = r_rows r \<and>
    (if R pk = None then \<forall>q. idof J r q \<noteq> Some i else idof J r pk = Some i) \<and>
    idof J r' = (idof J r)(pk := if is_nil ob then None else Some i) \<and>
    rows_ok J (r'\<lparr>r_rows := PSet (r_rows r') i (if is_nil ob then None else Some ob)\<rparr>) (put_row R pk ob)"
proof (cases "R pk")
  case None
  then have e: "existing = ONil" "\<not> is_nil ob" using assms(2) by (auto simp: writes_def)
  from row_id_insert [OF assms(1) None e(2) assms(3) [OF None, unfolded has_room_def]]
  show ?thesis using None e(2) unfolding e(1) put_row_def by auto
next
  case (Some x)
  then have e: "R pk = Some existing" "\<not> is_nil existing" using assms(2) by (auto simp: writes_def)
  show ?thesis
  proof (cases "is_nil ob")
    case True
    then have "ob = ONil" by simp
    with row_id_delete [OF assms(1) e] show ?thesis using e(1) unfolding put_row_def by auto
  next
    case False
    then obtain i where i: "row_id J ob existing pk r = Ret (r, i)" "idof J r pk = Some i"
      "rows_ok J (r\<lparr>r_rows := PSet (r_rows r) i (Some ob)\<rparr>) (R(pk \<mapsto> ob))"
      using row_id_update [OF assms(1) e] by blast
    then have "(idof J r)(pk \<mapsto> i) = idof J r" by (simp add: fun_upd_idem)
    then show ?thesis using i False e(1) unfolding put_row_def by (intro exI [of _ i] exI [of _ r]) simp
  qed
qed

lemma members_write:
  assumes r: "rows_ok J r R" and w: "writes R pk existing ob"
    and i: "if R pk = None then \<forall>q. idof J r q \<noteq> Some i else idof J r pk = Some i"
    and id: "idof J r' = (idof J r)(pk := if is_nil ob then None else Some i)"
  shows "members J uni ci r' (put_row R pk ob) = upd_set (unat i) (vals_of uni ci existing) (vals_of uni ci ob) (members J uni ci r R)"
proof (rule ext)
  fix k
  define rest where "rest = {n. \<exists>j q o'. n = unat j \<and> q \<noteq> pk \<and> idof J r q = Some j \<and> R q = Some o' \<and> k \<in> set (vals_of uni ci o')}"
  have out: "unat i \<notin> rest"
  proof
    assume "unat i \<in> rest"
    then obtain j q where q: "unat i = unat j" "q \<noteq> pk" "idof J r q = Some j" by (auto simp: rest_def)
    then have "j = i" by (simp add: word_unat_eq_iff)
    then show False using q i rows_okD(3) [OF r, of q i pk] by (cases "R pk") auto
  qed
  have before: "members J uni ci r R k = rest \<union> (if k \<in> set (vals_of uni ci existing) then {unat i} else {})"
  proof (cases "R pk")
    case None
    then have "existing = ONil" using w by (simp add: writes_def)
    moreover have "members J uni ci r R k = rest" using None unfolding members_def rest_def by (auto, metis option.distinct(1))
    ultimately show ?thesis by (simp add: vals_of_def)
  next
    case (Some x)
    then have e: "R pk = Some existing" "idof J r pk = Some i" using w i by (auto simp: writes_def)
    show ?thesis unfolding members_def rest_def using e by (auto; metis e option.inject)
  qed
  have after: "members J uni ci r' (put_row R pk ob) k = rest \<union> (if k \<in> set (vals_of uni ci ob) then {unat i} else {})"
  proof (cases "is_nil ob")
    case True
    then show ?thesis unfolding members_def rest_def id put_row_def by (auto simp: vals_of_def split: if_splits)
  next
    case False
    then show ?thesis unfolding members_def rest_def id put_row_def by (auto split: if_splits)
  qed
  show "members J uni ci r' (put_row R pk ob) k = upd_set (unat i) (vals_of uni ci existing) (vals_of uni ci ob) (members J uni ci r R) k"
    unfolding upd_set_def before after using out by auto
qed

lemma applyBitmaps_spec:
  assumes wf: "tt_wf ct tt" and rows: "rowsOf root tt = Ret r" and ok: "bits_ok J uni ct (cur_tree root tt) r R"
    and w: "writes R pk existing ob" and room: "R pk = None \<Longrightarrow> has_room r"
    and ranges: "list_all2 (bm_range_ok uni ob existing bmNew bmOld) (bitmap_indexes ct) krs"
  shows "\<exists>tt' r'. applyBitmaps J root tt bmNew bmOld krs ob existing pk = Ret tt' \<and> tt_wf ct tt' \<and>
    rowsOf root tt' = Ret r' \<and> bits_ok J uni ct (cur_tree root tt') r' (put_row R pk ob) \<and>
    (\<forall>ci\<in>set (take (ct_classic ct) (ct_indexes ct)). cur_tree root tt' ci = cur_tree root tt ci)"
proof -
  have ro: "rows_ok J r R" and so: "\<And>ci. ci \<in> set (bitmap_indexes ct) \<Longrightarrow> sets_ok J (cur_tree root tt ci)"
    and se: "\<And>ci. ci \<in> set (bitmap_indexes ct) \<Longrightarrow> setT J (cur_tree root tt ci) = members J uni ci r R"
    using ok by (auto simp: bits_ok_def)
  obtain i r1 where i: "row_id J ob existing pk r = Ret (r1, i)"
      "if R pk = None then \<forall>q. idof J r q \<noteq> Some i else idof J r pk = Some i"
      "idof J r1 = (idof J r)(pk := if is_nil ob then None else Some i)"
      "rows_ok J (r1\<lparr>r_rows := PSet (r_rows r1) i (if is_nil ob then None else Some ob)\<rparr>) (put_row R pk ob)"
    using row_id_write [OF ro w room] by blast
  let ?r = "r1\<lparr>r_rows := PSet (r_rows r1) i (if is_nil ob then None else Some ob)\<rparr>"
  let ?tt = "tt\<lparr>tt_rows := Some ?r\<rparr>"
  let ?zs = "zip (bitmap_indexes ct) krs"
  have ct: "tt_table tt = ct" "ct_wf ct" using wf by (simp_all add: tt_wf_def)
  have len: "length krs = length (bitmap_indexes ct)" using ranges by (simp add: list_all2_lengthD)
  have fst: "map fst ?zs = bitmap_indexes ct" using len by simp
  have dis: "distinct (take (ct_classic ct) (ct_indexes ct) @ bitmap_indexes ct)"
    using ct_wf_distinct [OF ct(2)] by (simp add: bitmap_indexes_def)
  have sub: "set (map fst ?zs) \<subseteq> set (ct_indexes ct)" unfolding fst by (simp add: bitmap_indexes_def set_drop_subset)
  have each: "bm_range_ok uni ob existing bmNew bmOld ci kr \<and> sets_ok J (cur_tree root ?tt ci)" if "(ci, kr) \<in> set ?zs" for ci kr
    using that ranges so by (auto simp: list_all2_iff dest: set_zip_leftD)
  obtain tt' where tt': "apply_bitmap_indexes J root bmNew bmOld i ?zs ?tt = Ret tt'" "tt_wf ct tt'" "tt_rows tt' = Some ?r"
    and al: "\<And>cj. cj \<in> set (ct_indexes ct) \<Longrightarrow> if cj \<in> set (map fst ?zs)
       then sets_ok J (cur_tree root tt' cj) \<and>
         setT J (cur_tree root tt' cj) = upd_set (unat i) (vals_of uni cj existing) (vals_of uni cj ob) (setT J (cur_tree root ?tt cj))
       else cur_tree root tt' cj = cur_tree root ?tt cj"
    using apply_bitmap_indexes_spec [where tt = ?tt and i = i, OF _ sub _ each] wf dis unfolding fst by auto
  have "applyBitmaps J root tt bmNew bmOld krs ob existing pk = Ret tt'"
    using tt'(1) by (simp add: applyBitmaps_def ct(1) rows i(1) bitmap_indexes_def Let_def)
  moreover have "rowsOf root tt' = Ret ?r" by (simp add: rowsOf_def tt'(3))
  moreover have "bits_ok J uni ct (cur_tree root tt') ?r (put_row R pk ob)"
    unfolding bits_ok_def
  proof (intro conjI ballI)
    show "rows_ok J ?r (put_row R pk ob)" by (rule i(4))
    fix cj assume cj: "cj \<in> set (bitmap_indexes ct)"
    then have "cj \<in> set (ct_indexes ct)" by (auto simp: bitmap_indexes_def dest: in_set_dropD)
    note a = al [OF this, unfolded fst]
    show "sets_ok J (cur_tree root tt' cj)" using a cj by simp
    have "idof J ?r = (idof J r)(pk := if is_nil ob then None else Some i)" using i(3) by simp
    note members_write [OF ro w i(2) this, of uni cj]
    then show "setT J (cur_tree root tt' cj) = members J uni cj ?r (put_row R pk ob)"
      using a cj se [OF cj] by simp
  qed
  moreover have "cur_tree root tt' ci = cur_tree root tt ci" if "ci \<in> set (take (ct_classic ct) (ct_indexes ct))" for ci
  proof -
    have "ci \<in> set (ct_indexes ct)" "ci \<notin> set (bitmap_indexes ct)" using that dis by (auto dest: in_set_takeD)
    then show ?thesis using al [of ci, unfolded fst] by simp
  qed
  ultimately show ?thesis using tt'(2) by blast
qed

end

text \<open>A table with fewer rows than ids has an id left.\<close>

lemma rows_ok_room:
  assumes r: "rows_ok J r R" and c: "card (dom R) < 2 ^ 32 - 1"
  shows "has_room r"
proof (rule ccontr)
  assume "\<not> has_room r"
  then have f: "bm_set (r_free r) = {}" "2 ^ 32 - 1 \<le> unat (r_next r)" by (auto simp: has_room_def)
  then have all: "ids_of J r = {..<unat (r_next r)}" using rows_okD(9,10) [OF r] by blast
  have ids: "ids_of J r = (\<lambda>pk. unat (the (idof J r pk))) ` dom R"
    unfolding ids_of_def rows_okD(2) [OF r, symmetric] by (force simp: image_iff)
  have inj: "inj_on (\<lambda>pk. unat (the (idof J r pk))) (dom R)"
  proof (rule inj_onI)
    fix p q assume "p \<in> dom R" "q \<in> dom R" and e: "unat (the (idof J r p)) = unat (the (idof J r q))"
    then obtain i j where "idof J r p = Some i" "idof J r q = Some j" using rows_okD(2) [OF r] by (metis domD)
    then show "p = q" using e rows_okD(3) [OF r, of p i q] by (simp add: word_unat_eq_iff [symmetric])
  qed
  have "card (dom R) = unat (r_next r)" using card_image [OF inj] unfolding ids [symmetric] all by simp
  then show False using c f(2) by simp
qed

end
