(* ===== verification/Txn.thy ===== *)
theory Txn
  imports TableTrees IndexFast
begin

text \<open>
  The write operations of a transaction (txn.go): Insert, Delete, DeletePrefix and DeleteAll, on
  the trees of one table at a time. A call returns its result with the transaction's next state;
  a panic is a result too, and the state beside it is the one the panic left behind (of the
  operation that panicked, the state at its start). The queries they use come first.
\<close>

section \<open>Tables and indexes of a transaction\<close>

definition id_index :: "compiledTable \<Rightarrow> compiledIndex" where
  "id_index ct = ct_indexes ct ! 0"

definition tables_of :: "'t txn \<Rightarrow> 't tableTxn list" where
  "tables_of x = (case x_tables x of None \<Rightarrow> [] | Some ts \<Rightarrow> ts)"

fun find_tt :: "nat \<Rightarrow> 't tableTxn list \<Rightarrow> 't tableTxn option" where
  "find_tt n [] = None"
| "find_tt n (tt # tts) = (if ct_ord (tt_table tt) = n then Some tt else find_tt n tts)"

fun store_tt :: "'t tableTxn \<Rightarrow> 't tableTxn list \<Rightarrow> 't tableTxn list" where
  "store_tt tt [] = [tt]"
| "store_tt tt (tt' # tts) = (if ct_ord (tt_table tt') = ct_ord (tt_table tt) then tt # tts else tt' # store_tt tt tts)"

text \<open>Txn.tableTxn; the write state keeps what the operation makes of it (\<open>save\<close>).\<close>

definition tableTxn_of :: "compiledTable \<Rightarrow> 't txn \<Rightarrow> 't tableTxn" where
  "tableTxn_of ct x = (case find_tt (ct_ord ct) (tables_of x) of
     Some tt \<Rightarrow> tt
   | None \<Rightarrow> \<lparr>tt_table = ct, tt_idx = replicate (length (ct_indexes ct)) None, tt_rows = None\<rparr>)"

definition save :: "'t tableTxn \<Rightarrow> 't txn \<Rightarrow> 't txn" where
  "save tt x = x\<lparr>x_tables := Some (store_tt tt (tables_of x))\<rparr>"

definition readableIndex :: "compiledTable \<Rightarrow> compiledIndex \<Rightarrow> 't txn \<Rightarrow> 't outcome" where
  "readableIndex ct ci x =
    (case (case find_tt (ct_ord ct) (tables_of x) of None \<Rightarrow> None | Some tt \<Rightarrow> tt_idx tt ! ci_ord ci) of
       Some t \<Rightarrow> Ret t
     | None \<Rightarrow> (case x_root x of None \<Rightarrow> Panic | Some root \<Rightarrow> Ret (d_trees root ! ci_slot ci)))"

text \<open>What an ordinary index stores for a key; nil for a miss.\<close>

definition row_of :: "cell option \<Rightarrow> obj" where
  "row_of c = (case c of Some (CRow ob) \<Rightarrow> ob | _ \<Rightarrow> ONil)"

definition TrackChanges :: "'t txn \<Rightarrow> 't txn" where
  "TrackChanges x = (case x_changes x of None \<Rightarrow> x\<lparr>x_changes := Some []\<rparr> | Some _ \<Rightarrow> x)"

definition record_change :: "string \<Rightarrow> obj \<Rightarrow> obj \<Rightarrow> bytes \<Rightarrow> 't txn \<Rightarrow> 't txn" where
  "record_change table before after pk x = (case x_changes x of
     None \<Rightarrow> x
   | Some cs \<Rightarrow> x\<lparr>x_changes := Some (cs @ [\<lparr>c_Table = table, c_Before = before, c_After = after, c_primaryKey = pk\<rparr>])\<rparr>)"

section \<open>Query keys\<close>

text \<open>
  getIndexValue. The value is None where the source has a nil slice: without arguments, or when
  an exported FromArgs returns nil, which is the parameter \<open>nils\<close> and matters only for an empty
  value.
\<close>

definition getIndexValue :: "(bytes \<Rightarrow> bytes) \<Rightarrow> (indexer \<Rightarrow> arg list \<Rightarrow> bool) \<Rightarrow> compiledTable nameIndex \<Rightarrow> string \<Rightarrow> string \<Rightarrow>
    arg list \<Rightarrow> (compiledTable \<times> indexRef \<times> bytes option) tres" where
  "getIndexValue uni nils tabs table index args = (case ni_get tabs table of
     None \<Rightarrow> TErr (EInvalidTable table)
   | Some ct \<Rightarrow> (case ni_get (ct_byName ct) index of
       None \<Rightarrow> (case bitmapIndex ct index of
           Some _ \<Rightarrow> TErr (EIsBitmap (TrimSuffix index prefixSuffix))
         | None \<Rightarrow> TErr (EInvalidIndex (TrimSuffix index prefixSuffix)))
     | Some (ci, prefixScan) \<Rightarrow>
         if args = [] then TOk (ct, (ci, prefixScan), None)
         else (case appendArgs uni prefixScan (ci_ix ci) args [] of
           Some val \<Rightarrow> TOk (ct, (ci, prefixScan), Some val)
         | None \<Rightarrow>
             if prefixScan \<and> \<not> has_prefix (ci_ix ci) then TErr (ENoPrefixScan (ci_name ci))
             else (case (if prefixScan then PrefixFromArgs uni (ci_ix ci) args else FromArgs uni (ci_ix ci) args) of
                 Err e \<Rightarrow> TErr (EIndexArgs e)
               | Panics \<Rightarrow> TPanic
               | Ok val \<Rightarrow> TOk (ct, (ci, prefixScan), if val = [] \<and> nils (ci_ix ci) args then None else Some val)))))"

definition val_bytes :: "bytes option \<Rightarrow> bytes" where
  "val_bytes v = (case v of None \<Rightarrow> [] | Some b \<Rightarrow> b)"

text \<open>Get: the rows its iterator is going to return.\<close>

definition Txn_Get :: "'t juuri \<Rightarrow> (bytes \<Rightarrow> bytes) \<Rightarrow> (indexer \<Rightarrow> arg list \<Rightarrow> bool) \<Rightarrow> compiledTable nameIndex \<Rightarrow> 't txn \<Rightarrow>
    string \<Rightarrow> string \<Rightarrow> arg list \<Rightarrow> obj list tres" where
  "Txn_Get J uni nils tabs x table index args = (case getIndexValue uni nils tabs table index args of
     TErr e \<Rightarrow> TErr e
   | TPanic \<Rightarrow> TPanic
   | TOk (ct, (ci, prefixScan), val) \<Rightarrow> (case readableIndex ct ci x of
       Panic \<Rightarrow> TPanic
     | Ret tree \<Rightarrow> TOk (map (\<lambda>(k, c). row_of (Some c)) (j_prefix J tree (val_bytes val)))))"

section \<open>Insert\<close>

text \<open>The loop that builds the keys of the secondary indexes, of the new row and of the old.\<close>

fun build_keys :: "(bytes \<Rightarrow> bytes) \<Rightarrow> obj \<Rightarrow> obj option \<Rightarrow> bytes \<Rightarrow> compiledIndex list \<Rightarrow> keyList \<Rightarrow> keyList \<Rightarrow> keyRange list \<Rightarrow>
    (keyList \<times> keyList \<times> keyRange list) tres" where
  "build_keys uni ob existing pk [] newKeys oldKeys ranges = TOk (newKeys, oldKeys, ranges)"
| "build_keys uni ob existing pk (ci # cis) newKeys oldKeys ranges =
    (case ci_keys uni ci ob pk newKeys of
       Panics \<Rightarrow> TPanic
     | Err e \<Rightarrow> TErr (EBuild (ci_name ci) e)
     | Ok (newKeys', ok) \<Rightarrow>
         (case (case existing of None \<Rightarrow> Ok (oldKeys, False) | Some ex \<Rightarrow> ci_keys uni ci ex pk oldKeys) of
            Panics \<Rightarrow> TPanic
          | Err e \<Rightarrow> TErr (EBuild (ci_name ci) e)
          | Ok (oldKeys', okOld) \<Rightarrow>
              if \<not> ok \<and> \<not> ci_allowMissing ci then TErr (EMissingValue (ci_name ci))
              else build_keys uni ob existing pk cis newKeys' oldKeys'
                (ranges @ [\<lparr>newFrom = kl_len newKeys, newTo = kl_len newKeys', oldFrom = kl_len oldKeys, oldTo = kl_len oldKeys',
                            r_ok = ok, r_okOld = okOld\<rparr>])))"

text \<open>Old and new keys are compared position by position.\<close>

definition drop_old :: "'t juuri \<Rightarrow> keyList \<Rightarrow> keyList \<Rightarrow> keyRange \<Rightarrow> 't \<Rightarrow> 't" where
  "drop_old J newKeys oldKeys r tree = (if r_okOld r
     then fold (\<lambda>k t. let valExist = kl_key oldKeys k; n = newFrom r + k - oldFrom r
         in if n \<ge> newTo r \<or> valExist \<noteq> kl_key newKeys n then fst (j_delete J t valExist) else t)
       [oldFrom r..<oldTo r] tree
     else tree)"

definition add_new :: "'t juuri \<Rightarrow> keyList \<Rightarrow> keyRange \<Rightarrow> obj \<Rightarrow> 't \<Rightarrow> 't" where
  "add_new J newKeys r ob tree = fold (\<lambda>k t. fst (j_insert J t (kl_key newKeys k) (CRow ob))) [newFrom r..<newTo r] tree"

fun apply_ranges :: "'t juuri \<Rightarrow> 't dbRoot \<Rightarrow> keyList \<Rightarrow> keyList \<Rightarrow> obj \<Rightarrow> (compiledIndex \<times> keyRange) list \<Rightarrow> 't tableTxn \<Rightarrow> 't tableTxn" where
  "apply_ranges J root newKeys oldKeys ob [] tt = tt"
| "apply_ranges J root newKeys oldKeys ob ((ci, r) # rest) tt =
    (let tt' = start_index root ci tt
     in apply_ranges J root newKeys oldKeys ob rest
          (put_tree ci (add_new J newKeys r ob (drop_old J newKeys oldKeys r (tree_at tt' ci))) tt'))"

definition secondary :: "compiledTable \<Rightarrow> compiledIndex list" where
  "secondary ct = drop 1 (take (ct_classic ct) (ct_indexes ct))"

definition has_bitmaps :: "compiledTable \<Rightarrow> bool" where
  "has_bitmaps ct \<longleftrightarrow> ct_classic ct < length (ct_indexes ct)"

text \<open>
  Insert from the write of the primary index on. The result is the row it replaces (nil when
  there is none); an error undoes the write of the primary index.
\<close>

definition insert_row :: "'t juuri \<Rightarrow> (bytes \<Rightarrow> bytes) \<Rightarrow> 't dbRoot \<Rightarrow> 't tableTxn \<Rightarrow> obj \<Rightarrow> bytes \<Rightarrow> obj tres \<times> 't tableTxn" where
  "insert_row J uni root tt ob pk =
    (let ct = tt_table tt; ci = id_index ct; tt1 = start_index root ci tt in
     case j_insert J (tree_at tt1 ci) pk (CRow ob) of (t1, old) \<Rightarrow>
     let existing = row_of old; tt2 = put_tree ci t1 tt1;
       undo = put_tree ci (case old of Some c \<Rightarrow> fst (j_insert J t1 pk c) | None \<Rightarrow> fst (j_delete J t1 pk)) tt2 in
     case build_keys uni ob (map_option (\<lambda>_. existing) old) pk (secondary ct) kl_empty kl_empty [] of
       TPanic \<Rightarrow> (TPanic, tt2)
     | TErr e \<Rightarrow> (TErr e, undo)
     | TOk (newKeys, oldKeys, ranges) \<Rightarrow>
         (case (if has_bitmaps ct then bitmapKeys uni ob existing (bitmap_indexes ct) kl_empty kl_empty []
                else TOk (kl_empty, kl_empty, [])) of
            TPanic \<Rightarrow> (TPanic, tt2)
          | TErr e \<Rightarrow> (TErr e, undo)
          | TOk (bmNew, bmOld, bmRanges) \<Rightarrow>
              let tt3 = apply_ranges J root newKeys oldKeys ob (zip (secondary ct) ranges) tt2 in
              if has_bitmaps ct
              then (case applyBitmaps J root tt3 bmNew bmOld bmRanges ob existing pk of
                  Panic \<Rightarrow> (TPanic, tt3)
                | Ret tt4 \<Rightarrow> (TOk existing, tt4))
              else (TOk existing, tt3)))"

text \<open>
  A finished transaction has no root and no tables of its own, so the first index it touches
  panics.
\<close>

definition Insert :: "'t juuri \<Rightarrow> (bytes \<Rightarrow> bytes) \<Rightarrow> compiledTable nameIndex \<Rightarrow> string \<Rightarrow> obj \<Rightarrow> 't txn \<Rightarrow> unit tres \<times> 't txn" where
  "Insert J uni tabs table ob x =
    (if \<not> x_write x then (TErr EReadOnlyInsert, x)
     else case ni_get tabs table of
       None \<Rightarrow> (TErr (EInvalidTable table), x)
     | Some ct \<Rightarrow> (let tt = tableTxn_of ct x in
         case primaryKey uni ct ob of
           TErr e \<Rightarrow> (TErr e, save tt x)
         | TPanic \<Rightarrow> (TPanic, save tt x)
         | TOk pk \<Rightarrow> (case x_root x of
             None \<Rightarrow> (TPanic, save tt x)
           | Some root \<Rightarrow> (case insert_row J uni root tt ob pk of
               (TErr e, tt') \<Rightarrow> (TErr e, save tt' x)
             | (TPanic, tt') \<Rightarrow> (TPanic, save tt' x)
             | (TOk existing, tt') \<Rightarrow> (TOk (), record_change table existing ob pk (save tt' x))))))"

section \<open>Delete\<close>

text \<open>deleteFromIndexes: the keys are all built before any index is touched.\<close>

fun build_old :: "(bytes \<Rightarrow> bytes) \<Rightarrow> obj \<Rightarrow> bytes \<Rightarrow> nat option \<Rightarrow> compiledIndex list \<Rightarrow> keyList \<Rightarrow> keyRange list \<Rightarrow>
    (keyList \<times> keyRange list) tres" where
  "build_old uni ob pk skip [] oldKeys ranges = TOk (oldKeys, ranges)"
| "build_old uni ob pk skip (ci # cis) oldKeys ranges =
    (case (if Some (ci_ord ci) \<noteq> skip then ci_keys uni ci ob pk oldKeys else Ok (oldKeys, False)) of
       Panics \<Rightarrow> TPanic
     | Err e \<Rightarrow> TErr (EBuild (ci_name ci) e)
     | Ok (oldKeys', _) \<Rightarrow> build_old uni ob pk skip cis oldKeys'
         (ranges @ [\<lparr>newFrom = 0, newTo = 0, oldFrom = kl_len oldKeys, oldTo = kl_len oldKeys', r_ok = False, r_okOld = False\<rparr>]))"

fun apply_deletes :: "'t juuri \<Rightarrow> 't dbRoot \<Rightarrow> keyList \<Rightarrow> (compiledIndex \<times> keyRange) list \<Rightarrow> 't tableTxn \<Rightarrow> 't tableTxn" where
  "apply_deletes J root oldKeys [] tt = tt"
| "apply_deletes J root oldKeys ((ci, r) # rest) tt =
    (if oldFrom r = oldTo r then apply_deletes J root oldKeys rest tt
     else let tt' = start_index root ci tt
       in apply_deletes J root oldKeys rest
            (put_tree ci (fold (\<lambda>k t. fst (j_delete J t (kl_key oldKeys k))) [oldFrom r..<oldTo r] (tree_at tt' ci)) tt'))"

definition deleteFromIndexes :: "'t juuri \<Rightarrow> (bytes \<Rightarrow> bytes) \<Rightarrow> 't dbRoot \<Rightarrow> 't tableTxn \<Rightarrow> obj \<Rightarrow> bytes \<Rightarrow> nat option \<Rightarrow>
    unit tres \<times> 't tableTxn" where
  "deleteFromIndexes J uni root tt ob pk skip = (let ct = tt_table tt in
     case build_old uni ob pk skip (secondary ct) kl_empty [] of
       TPanic \<Rightarrow> (TPanic, tt)
     | TErr e \<Rightarrow> (TErr e, tt)
     | TOk (oldKeys, ranges) \<Rightarrow>
         (case (if has_bitmaps ct then bitmapKeys uni ONil ob (bitmap_indexes ct) kl_empty kl_empty []
                else TOk (kl_empty, kl_empty, [])) of
            TPanic \<Rightarrow> (TPanic, tt)
          | TErr e \<Rightarrow> (TErr e, tt)
          | TOk (bmNew, bmOld, bmRanges) \<Rightarrow>
              let tt1 = apply_deletes J root oldKeys (zip (secondary ct) ranges) tt in
              if has_bitmaps ct
              then (case applyBitmaps J root tt1 bmNew bmOld bmRanges ONil ob pk of
                  Panic \<Rightarrow> (TPanic, tt1)
                | Ret tt2 \<Rightarrow> (TOk (), tt2))
              else (TOk (), tt1)))"

text \<open>Delete from the write of the primary index on; the result is the row that was stored.\<close>

definition delete_row :: "'t juuri \<Rightarrow> (bytes \<Rightarrow> bytes) \<Rightarrow> 't dbRoot \<Rightarrow> 't tableTxn \<Rightarrow> bytes \<Rightarrow> obj tres \<times> 't tableTxn" where
  "delete_row J uni root tt pk =
    (let ci = id_index (tt_table tt); tt1 = start_index root ci tt in
     case j_delete J (tree_at tt1 ci) pk of
       (t1, None) \<Rightarrow> (TErr ENotFound, put_tree ci t1 tt1)
     | (t1, Some c) \<Rightarrow> (let existing = row_of (Some c) in
         case deleteFromIndexes J uni root (put_tree ci t1 tt1) existing pk None of
           (TPanic, tt2) \<Rightarrow> (TPanic, tt2)
         | (TErr e, tt2) \<Rightarrow> (TErr e, put_tree ci (fst (j_insert J (tree_at tt2 ci) pk c)) tt2)
         | (TOk _, tt2) \<Rightarrow> (TOk existing, tt2)))"

definition Delete :: "'t juuri \<Rightarrow> (bytes \<Rightarrow> bytes) \<Rightarrow> compiledTable nameIndex \<Rightarrow> string \<Rightarrow> obj \<Rightarrow> 't txn \<Rightarrow> unit tres \<times> 't txn" where
  "Delete J uni tabs table ob x =
    (if \<not> x_write x then (TErr EReadOnlyDelete, x)
     else case ni_get tabs table of
       None \<Rightarrow> (TErr (EInvalidTable table), x)
     | Some ct \<Rightarrow> (let tt = tableTxn_of ct x in
         case primaryKey uni ct ob of
           TErr e \<Rightarrow> (TErr e, save tt x)
         | TPanic \<Rightarrow> (TPanic, save tt x)
         | TOk pk \<Rightarrow> (case x_root x of
             None \<Rightarrow> (TPanic, save tt x)
           | Some root \<Rightarrow> (case delete_row J uni root tt pk of
               (TErr e, tt') \<Rightarrow> (TErr e, save tt' x)
             | (TPanic, tt') \<Rightarrow> (TPanic, save tt' x)
             | (TOk existing, tt') \<Rightarrow> (TOk (), record_change table existing ONil pk (save tt' x))))))"

text \<open>DeleteAll: the number of rows deleted, and the error that stopped it.\<close>

fun delete_each :: "'t juuri \<Rightarrow> (bytes \<Rightarrow> bytes) \<Rightarrow> compiledTable nameIndex \<Rightarrow> string \<Rightarrow> obj list \<Rightarrow> nat \<Rightarrow> 't txn \<Rightarrow>
    (nat \<times> terr option) outcome \<times> 't txn" where
  "delete_each J uni tabs table [] num x = (Ret (num, None), x)"
| "delete_each J uni tabs table (ob # obs) num x = (case Delete J uni tabs table ob x of
     (TErr e, x') \<Rightarrow> (Ret (num, Some e), x')
   | (TPanic, x') \<Rightarrow> (Panic, x')
   | (TOk _, x') \<Rightarrow> delete_each J uni tabs table obs (num + 1) x')"

definition DeleteAll :: "'t juuri \<Rightarrow> (bytes \<Rightarrow> bytes) \<Rightarrow> (indexer \<Rightarrow> arg list \<Rightarrow> bool) \<Rightarrow> compiledTable nameIndex \<Rightarrow> string \<Rightarrow> string \<Rightarrow>
    arg list \<Rightarrow> 't txn \<Rightarrow> (nat \<times> terr option) outcome \<times> 't txn" where
  "DeleteAll J uni nils tabs table index args x =
    (if \<not> x_write x then (Ret (0, Some EReadOnlyDelete), x)
     else case Txn_Get J uni nils tabs x table index args of
       TErr e \<Rightarrow> (Ret (0, Some e), x)
     | TPanic \<Rightarrow> (Panic, x)
     | TOk rows \<Rightarrow> delete_each J uni tabs table (takeWhile (\<lambda>ob. \<not> is_nil ob) rows) 0 x)"

section \<open>DeletePrefix\<close>

fun delete_entries :: "'t juuri \<Rightarrow> (bytes \<Rightarrow> bytes) \<Rightarrow> 't dbRoot \<Rightarrow> compiledTable \<Rightarrow> string \<Rightarrow> compiledIndex \<Rightarrow> obj list \<Rightarrow> 't txn \<Rightarrow>
    unit tres \<times> 't txn" where
  "delete_entries J uni root ct table target [] x = (TOk (), x)"
| "delete_entries J uni root ct table target (entry # es) x = (let tt = tableTxn_of ct x; ci = id_index ct in
     case primaryKey uni ct entry of
       TErr e \<Rightarrow> (TErr e, save tt x)
     | TPanic \<Rightarrow> (TPanic, save tt x)
     | TOk pk \<Rightarrow>
         let tt1 = start_index root ci tt;
           x1 = (case j_get J (tree_at tt1 ci) pk of None \<Rightarrow> x | Some c \<Rightarrow> record_change table (row_of (Some c)) ONil pk x);
           tt2 = (if ci_ord target \<noteq> ci_ord ci then put_tree ci (fst (j_delete J (tree_at tt1 ci) pk)) tt1 else tt1) in
         case deleteFromIndexes J uni root tt2 entry pk (Some (ci_ord target)) of
           (TErr e, tt3) \<Rightarrow> (TErr e, save tt3 x1)
         | (TPanic, tt3) \<Rightarrow> (TPanic, save tt3 x1)
         | (TOk _, tt3) \<Rightarrow> delete_entries J uni root ct table target es (save tt3 x1))"

definition DeletePrefix :: "'t juuri \<Rightarrow> (bytes \<Rightarrow> bytes) \<Rightarrow> (indexer \<Rightarrow> arg list \<Rightarrow> bool) \<Rightarrow> compiledTable nameIndex \<Rightarrow> string \<Rightarrow> string \<Rightarrow>
    bytes \<Rightarrow> 't txn \<Rightarrow> bool tres \<times> 't txn" where
  "DeletePrefix J uni nils tabs table prefix_index pfx x =
    (if \<not> x_write x then (TErr EReadOnlyDelete, x)
     else if \<not> HasSuffix prefix_index prefixSuffix then (TErr (ENotPrefixIndex prefix_index), x)
     else case Txn_Get J uni nils tabs x table prefix_index [AString pfx] of
       TErr e \<Rightarrow> (TErr (ELookup e), x)
     | TPanic \<Rightarrow> (TPanic, x)
     | TOk rows \<Rightarrow>
         (case (ni_get tabs table, x_root x) of
            (Some ct, Some root) \<Rightarrow>
              (case ni_get (ct_byName ct) prefix_index of
                 None \<Rightarrow> (TPanic, x)
               | Some (target, _) \<Rightarrow>
                   let entries = takeWhile (\<lambda>ob. \<not> is_nil ob) rows in
                   if entries = [] then (TOk False, x)
                   else (case delete_entries J uni root ct table target entries x of
                       (TErr e, x') \<Rightarrow> (TErr e, x')
                     | (TPanic, x') \<Rightarrow> (TPanic, x')
                     | (TOk _, x') \<Rightarrow>
                         let tt = start_index root target (tableTxn_of ct x')
                         in (case j_deletePrefix J (tree_at tt target) pfx of
                           (t, ok) \<Rightarrow> (if ok then TOk True else TPanic, save (put_tree target t tt) x'))))
          | _ \<Rightarrow> (TPanic, x)))"

end
