(* ===== verification/TableInv.thy ===== *)
theory TableInv
  imports Txn
begin

text \<open>
  The invariant of a table inside a transaction: the trees of its indexes, its bitmap indexes
  and its row bookkeeping are those of one map \<open>R\<close> from primary keys to rows. The lemmas say
  what the write of one row (insert_row, delete_row) makes of them.
\<close>

section \<open>The invariant\<close>

definition key_suffix :: "compiledIndex \<Rightarrow> bytes \<Rightarrow> bytes" where
  "key_suffix ci pk = (if \<not> ci_unique ci then pk else [])"

definition ikeys :: "(bytes \<Rightarrow> bytes) \<Rightarrow> compiledIndex \<Rightarrow> bytes \<Rightarrow> obj \<Rightarrow> bytes list" where
  "ikeys uni ci pk ob = keys_of uni ci (key_suffix ci pk) ob"

definition index_ok :: "'t juuri \<Rightarrow> (bytes \<Rightarrow> bytes) \<Rightarrow> compiledIndex \<Rightarrow> 't \<Rightarrow> (bytes \<Rightarrow> obj option) \<Rightarrow> bool" where
  "index_ok J uni ci t R \<longleftrightarrow>
     (\<forall>k c. j_get J t k = Some c \<longleftrightarrow> (\<exists>pk ob. c = CRow ob \<and> R pk = Some ob \<and> k \<in> set (ikeys uni ci pk ob)))"

text \<open>A row that Insert accepts under the primary key \<open>pk\<close>.\<close>

definition indexable :: "(bytes \<Rightarrow> bytes) \<Rightarrow> compiledTable \<Rightarrow> bytes \<Rightarrow> obj \<Rightarrow> bool" where
  "indexable uni ct pk ob \<longleftrightarrow> \<not> is_nil ob \<and> primaryKey uni ct ob = TOk pk \<and>
     (\<forall>ci\<in>set (secondary ct). has_key uni ci (key_suffix ci pk) ob) \<and>
     (\<forall>ci\<in>set (bitmap_indexes ct). has_key uni ci [] ob)"

text \<open>Different rows have different keys: uniqueness is the user's business, as in go-memdb.\<close>

definition no_clash :: "(bytes \<Rightarrow> bytes) \<Rightarrow> compiledTable \<Rightarrow> (bytes \<Rightarrow> obj option) \<Rightarrow> bool" where
  "no_clash uni ct R \<longleftrightarrow> (\<forall>ci\<in>set (secondary ct). \<forall>p q o1 o2. R p = Some o1 \<longrightarrow> R q = Some o2 \<longrightarrow> p \<noteq> q \<longrightarrow>
     set (ikeys uni ci p o1) \<inter> set (ikeys uni ci q o2) = {})"

text \<open>
  A row with the key of another takes its entry, in a unique index too (the last write wins), so the
  secondary indexes are those of the rows only as long as no two rows share a key: \<open>clean\<close> says
  that this has been so. The rest holds whether or not rows clash.
\<close>

definition table_inv :: "bool \<Rightarrow> 't juuri \<Rightarrow> (bytes \<Rightarrow> bytes) \<Rightarrow> compiledTable \<Rightarrow> 't dbRoot \<Rightarrow> 't tableTxn \<Rightarrow> (bytes \<Rightarrow> obj option) \<Rightarrow> bool" where
  "table_inv clean J uni ct root tt R \<longleftrightarrow> tt_wf ct tt \<and>
     (\<forall>pk. j_get J (cur_tree root tt (id_index ct)) pk = map_option CRow (R pk)) \<and>
     (clean \<longrightarrow> (\<forall>ci\<in>set (secondary ct). index_ok J uni ci (cur_tree root tt ci) R)) \<and>
     (has_bitmaps ct \<longrightarrow> (\<exists>r. rowsOf root tt = Ret r \<and> bits_ok J uni ct (cur_tree root tt) r R)) \<and>
     (\<forall>pk ob. R pk = Some ob \<longrightarrow> indexable uni ct pk ob) \<and> (clean \<longrightarrow> no_clash uni ct R)"

abbreviation table_ok :: "'t juuri \<Rightarrow> (bytes \<Rightarrow> bytes) \<Rightarrow> compiledTable \<Rightarrow> 't dbRoot \<Rightarrow> 't tableTxn \<Rightarrow> (bytes \<Rightarrow> obj option) \<Rightarrow> bool" where
  "table_ok \<equiv> table_inv True"

lemma table_invD:
  assumes "table_inv clean J uni ct root tt R"
  shows "tt_wf ct tt" "j_get J (cur_tree root tt (id_index ct)) pk = map_option CRow (R pk)"
    "clean \<Longrightarrow> ci \<in> set (secondary ct) \<Longrightarrow> index_ok J uni ci (cur_tree root tt ci) R"
    "has_bitmaps ct \<Longrightarrow> \<exists>r. rowsOf root tt = Ret r \<and> bits_ok J uni ct (cur_tree root tt) r R"
    "R pk = Some ob \<Longrightarrow> indexable uni ct pk ob" "clean \<Longrightarrow> no_clash uni ct R"
  using assms unfolding table_inv_def by blast+

lemma table_okD:
  assumes "table_ok J uni ct root tt R"
  shows "tt_wf ct tt" "j_get J (cur_tree root tt (id_index ct)) pk = map_option CRow (R pk)"
    "ci \<in> set (secondary ct) \<Longrightarrow> index_ok J uni ci (cur_tree root tt ci) R"
    "has_bitmaps ct \<Longrightarrow> \<exists>r. rowsOf root tt = Ret r \<and> bits_ok J uni ct (cur_tree root tt) r R"
    "R pk = Some ob \<Longrightarrow> indexable uni ct pk ob" "no_clash uni ct R"
  using table_invD [OF assms] by blast+

lemma key_suffix_keys: "ci_keys uni ci ob pk kl = keys_with uni (key_suffix ci pk) ci ob kl"
  by (simp add: ci_keys_def key_suffix_def)

subsection \<open>Which indexes there are\<close>

lemma id_secondary:
  assumes "ct_wf ct"
  shows "id_index ct \<in> set (ct_indexes ct)" "ci_ord (id_index ct) = 0"
    "take (ct_classic ct) (ct_indexes ct) = id_index ct # secondary ct"
    "ct_indexes ct = id_index ct # secondary ct @ bitmap_indexes ct"
    "distinct (id_index ct # secondary ct @ bitmap_indexes ct)"
    "has_bitmaps ct \<longleftrightarrow> bitmap_indexes ct \<noteq> []"
proof -
  have l: "0 < ct_classic ct" "ct_classic ct \<le> length (ct_indexes ct)" using assms by (simp_all add: ct_wf_def)
  then obtain c cs where c: "ct_indexes ct = c # cs" by (cases "ct_indexes ct") auto
  have i: "id_index ct = c" by (simp add: id_index_def c)
  obtain n where n: "ct_classic ct = Suc n" using l(1) by (cases "ct_classic ct") auto
  show t: "take (ct_classic ct) (ct_indexes ct) = id_index ct # secondary ct" by (simp add: secondary_def c n i)
  show "id_index ct \<in> set (ct_indexes ct)" by (simp add: i c)
  have "\<forall>i<length (ct_indexes ct). ci_ord (ct_indexes ct ! i) = i" using assms by (simp add: ct_wf_def)
  moreover have "0 < length (ct_indexes ct)" using l by linarith
  ultimately show "ci_ord (id_index ct) = 0" unfolding id_index_def by blast
  have "ct_indexes ct = take (ct_classic ct) (ct_indexes ct) @ bitmap_indexes ct" by (simp add: bitmap_indexes_def)
  then show d: "ct_indexes ct = id_index ct # secondary ct @ bitmap_indexes ct" unfolding t by simp
  show "distinct (id_index ct # secondary ct @ bitmap_indexes ct)"
    using ct_wf_distinct [OF assms] unfolding d [symmetric] .
  show "has_bitmaps ct \<longleftrightarrow> bitmap_indexes ct \<noteq> []" by (auto simp: has_bitmaps_def bitmap_indexes_def)
qed

lemma index_sets:
  assumes "ct_wf ct"
  shows "set (ct_indexes ct) = insert (id_index ct) (set (secondary ct) \<union> set (bitmap_indexes ct))"
    "id_index ct \<notin> set (secondary ct)" "id_index ct \<notin> set (bitmap_indexes ct)"
    "set (secondary ct) \<inter> set (bitmap_indexes ct) = {}" "distinct (secondary ct)" "distinct (bitmap_indexes ct)"
  using id_secondary(4,5) [OF assms] by (metis set_simps(2) set_append, auto)

section \<open>The keys of the ordinary indexes\<close>

definition range_ok :: "(bytes \<Rightarrow> bytes) \<Rightarrow> bytes \<Rightarrow> obj \<Rightarrow> obj option \<Rightarrow> keyList \<Rightarrow> keyList \<Rightarrow> compiledIndex \<Rightarrow> keyRange \<Rightarrow> bool" where
  "range_ok uni pk ob existing newKeys oldKeys ci r \<longleftrightarrow>
     spans newKeys (newFrom r) (newTo r) (ikeys uni ci pk ob) \<and>
     spans oldKeys (oldFrom r) (oldTo r) (case existing of None \<Rightarrow> [] | Some ex \<Rightarrow> ikeys uni ci pk ex) \<and>
     (r_okOld r \<or> oldFrom r = oldTo r)"

lemma keys_with_ok:
  assumes "kl_good kl" and "keys_with uni sfx ci ob kl = Ok (kl', ok)"
  shows "\<exists>ks. row_keys uni ci sfx ob = Ok ks \<and> (ok \<longleftrightarrow> ks \<noteq> None) \<and> appended kl kl' (keys_of uni ci sfx ob)"
  using keys_with_row [OF assms(1), of uni sfx ci ob] assms(2)
  by (auto simp: keys_of_def split: res.splits option.splits)

lemma keys_with_Panics: "kl_good kl \<Longrightarrow> keys_with uni sfx ci ob kl = Panics \<longleftrightarrow> row_keys uni ci sfx ob = Panics"
  using keys_with_row [of kl uni sfx ci ob] by (auto split: res.splits)

lemma keys_with_Err: "kl_good kl \<Longrightarrow> keys_with uni sfx ci ob kl = Err e \<longleftrightarrow> row_keys uni ci sfx ob = Err e"
  using keys_with_row [of kl uni sfx ci ob] by (auto split: res.splits)

lemma appended_good: "appended kl kl' ks \<Longrightarrow> kl_good kl'"
  by (simp add: appended_def)

text \<open>When the keys of the old row can be built, an error or a panic is the new row's.\<close>

lemma build_keys_spec:
  assumes "\<And>ex ci. existing = Some ex \<Longrightarrow> ci \<in> set cis \<Longrightarrow> has_key uni ci (key_suffix ci pk) ex"
  shows "kl_good newKeys \<Longrightarrow> kl_good oldKeys \<Longrightarrow> (case build_keys uni ob existing pk cis newKeys oldKeys rs of
     TOk (n', o', rs') \<Rightarrow> (\<exists>rs0 ns os. rs' = rs @ rs0 \<and> appended newKeys n' ns \<and> appended oldKeys o' os \<and>
       list_all2 (range_ok uni pk ob existing n' o') cis rs0 \<and> (\<forall>ci\<in>set cis. has_key uni ci (key_suffix ci pk) ob))
   | TErr e \<Rightarrow> (\<exists>ci\<in>set cis. \<not> has_key uni ci (key_suffix ci pk) ob)
   | TPanic \<Rightarrow> (\<exists>ci\<in>set cis. row_keys uni ci (key_suffix ci pk) ob = Panics))"
  using assms
proof (induction cis arbitrary: newKeys oldKeys rs)
  case Nil
  then show ?case using appended_refl by fastforce
next
  case (Cons ci cis)
  let ?old = "case existing of None \<Rightarrow> Ok (oldKeys, False) | Some ex \<Rightarrow> ci_keys uni ci ex pk oldKeys"
  show ?case
  proof (cases "ci_keys uni ci ob pk newKeys")
    case (Err e)
    then have "row_keys uni ci (key_suffix ci pk) ob = Err e" using keys_with_Err [OF Cons.prems(1)] by (simp add: key_suffix_keys)
    then show ?thesis using Err by (auto simp: has_key_def)
  next
    case Panics
    then have "row_keys uni ci (key_suffix ci pk) ob = Panics" using keys_with_Panics [OF Cons.prems(1)] by (simp add: key_suffix_keys)
    then show ?thesis using Panics by simp
  next
    case (Ok p)
    then obtain n1 ok where new: "ci_keys uni ci ob pk newKeys = Ok (n1, ok)" by (cases p) auto
    obtain ks where ks: "row_keys uni ci (key_suffix ci pk) ob = Ok ks" "ok \<longleftrightarrow> ks \<noteq> None" "appended newKeys n1 (ikeys uni ci pk ob)"
      using keys_with_ok [OF Cons.prems(1) new [unfolded key_suffix_keys]] unfolding ikeys_def by blast
    have "\<exists>o1 okOld. ?old = Ok (o1, okOld) \<and> (okOld \<or> kl_len oldKeys = kl_len o1) \<and>
        appended oldKeys o1 (case existing of None \<Rightarrow> [] | Some ex \<Rightarrow> ikeys uni ci pk ex)"
    proof (cases existing)
      case None
      then show ?thesis using appended_refl [OF Cons.prems(2)] by (intro exI [of _ oldKeys] exI [of _ False]) simp
    next
      case (Some ex)
      then obtain ks where "row_keys uni ci (key_suffix ci pk) ex = Ok ks" using Cons.prems(3) [of ex ci] by (auto simp: has_key_def)
      then obtain o1 where o1: "ci_keys uni ci ex pk oldKeys = Ok (o1, ks \<noteq> None)"
        using keys_with_row [OF Cons.prems(2), of uni "key_suffix ci pk" ci ex] by (auto simp: key_suffix_keys)
      then have a: "appended oldKeys o1 (ikeys uni ci pk ex)"
        using keys_with_ok [OF Cons.prems(2) o1 [unfolded key_suffix_keys]] unfolding ikeys_def by blast
      have "kl_len oldKeys = kl_len o1" if "ks = None"
        using appended_len [OF a] that \<open>row_keys uni ci (key_suffix ci pk) ex = Ok ks\<close> by (simp add: ikeys_def keys_of_def)
      then show ?thesis using o1 a Some by auto
    qed
    then obtain o1 okOld where old: "?old = Ok (o1, okOld)" "okOld \<or> kl_len oldKeys = kl_len o1"
        "appended oldKeys o1 (case existing of None \<Rightarrow> [] | Some ex \<Rightarrow> ikeys uni ci pk ex)" by blast
    show ?thesis
    proof (cases "\<not> ok \<and> \<not> ci_allowMissing ci")
      case True
      then have "\<not> has_key uni ci (key_suffix ci pk) ob" using ks(1,2) by (simp add: has_key_def)
      then show ?thesis using new old(1) True by simp
    next
      case found: False
      then have hk: "has_key uni ci (key_suffix ci pk) ob" using ks(1,2) by (auto simp: has_key_def)
      let ?r = "\<lparr>newFrom = kl_len newKeys, newTo = kl_len n1, oldFrom = kl_len oldKeys, oldTo = kl_len o1, r_ok = ok, r_okOld = okOld\<rparr>"
      have eq: "build_keys uni ob existing pk (ci # cis) newKeys oldKeys rs = build_keys uni ob existing pk cis n1 o1 (rs @ [?r])"
        by (simp only: build_keys.simps new old(1) found res.case prod.case if_False)
      have ih0: "\<And>ex cj. existing = Some ex \<Longrightarrow> cj \<in> set cis \<Longrightarrow> has_key uni cj (key_suffix cj pk) ex"
        using Cons.prems(3) by simp
      note ih = Cons.IH [OF appended_good [OF ks(3)] appended_good [OF old(3)] ih0, of "rs @ [?r]"]
      show ?thesis
      proof (cases "build_keys uni ob existing pk cis n1 o1 (rs @ [?r])")
        case (TOk q)
        then obtain n' o' rs' where q: "build_keys uni ob existing pk cis n1 o1 (rs @ [?r]) = TOk (n', o', rs')" by (cases q) auto
        obtain rs0 ns os where i: "rs' = (rs @ [?r]) @ rs0" "appended n1 n' ns" "appended o1 o' os"
            "list_all2 (range_ok uni pk ob existing n' o') cis rs0" "\<forall>ci\<in>set cis. has_key uni ci (key_suffix ci pk) ob"
          using ih q by auto
        have "range_ok uni pk ob existing n' o' ci ?r"
          using spans_mono [OF spans_new [OF ks(3)] i(2)] spans_mono [OF spans_new [OF old(3)] i(3)] old(2)
          by (auto simp: range_ok_def)
        then show ?thesis unfolding eq q
          using i hk appended_trans [OF ks(3) i(2)] appended_trans [OF old(3) i(3)] by fastforce
      next
        case (TErr e)
        then show ?thesis unfolding eq using ih by auto
      next
        case TPanic
        then show ?thesis unfolding eq using ih by auto
      qed
    qed
  qed
qed

section \<open>What a write does to a tree\<close>

text \<open>The new keys lead to the new row; keys only the old row had are gone.\<close>

definition upd_keys :: "obj \<Rightarrow> bytes list \<Rightarrow> bytes list \<Rightarrow> (bytes \<Rightarrow> cell option) \<Rightarrow> bytes \<Rightarrow> cell option" where
  "upd_keys ob old new m k = (if k \<in> set new then Some (CRow ob) else if k \<in> set old then None else m k)"

context juuri_tree
begin

lemma fold_delete: "j_get J (fold (\<lambda>k t. if P k then fst (j_delete J t (f k)) else t) ks t) =
    (\<lambda>k. if \<exists>i\<in>set ks. P i \<and> f i = k then None else j_get J t k)"
  by (induction ks arbitrary: t) (auto simp: fun_eq_iff)

lemma fold_insert: "j_get J (fold (\<lambda>k t. fst (j_insert J t (f k) c)) ks t) =
    (\<lambda>k. if k \<in> f ` set ks then Some c else j_get J t k)"
  by (induction ks arbitrary: t) (auto simp: fun_eq_iff)

lemma spans_image: "spans kl a b ks \<Longrightarrow> kl_key kl ` set [a..<b] = set ks"
  by (auto simp: spans_def range_keys_def)

lemma add_new_get: "spans newKeys (newFrom r) (newTo r) ns \<Longrightarrow>
    j_get J (add_new J newKeys r ob t) = (\<lambda>k. if k \<in> set ns then Some (CRow ob) else j_get J t k)"
  unfolding add_new_def fold_insert by (simp only: spans_image)

lemma drop_old_get:
  assumes n: "spans newKeys (newFrom r) (newTo r) ns" and o: "spans oldKeys (oldFrom r) (oldTo r) os" and ok: "r_okOld r \<or> oldFrom r = oldTo r"
    and k: "k \<notin> set ns"
  shows "j_get J (drop_old J newKeys oldKeys r t) k = (if k \<in> set os then None else j_get J t k)"
proof (cases "r_okOld r")
  case False
  then have "os = []" using ok spans_empty [OF o] by simp
  then show ?thesis using False by (simp add: drop_old_def)
next
  case True
  let ?P = "\<lambda>i. newFrom r + i - oldFrom r \<ge> newTo r \<or> kl_key oldKeys i \<noteq> kl_key newKeys (newFrom r + i - oldFrom r)"
  have "drop_old J newKeys oldKeys r t = fold (\<lambda>i t. if ?P i then fst (j_delete J t (kl_key oldKeys i)) else t) [oldFrom r..<oldTo r] t"
    using True by (simp add: drop_old_def Let_def)
  then have g: "j_get J (drop_old J newKeys oldKeys r t) k =
      (if \<exists>i\<in>set [oldFrom r..<oldTo r]. ?P i \<and> kl_key oldKeys i = k then None else j_get J t k)"
    by (simp only: fold_delete)
  have "?P i" if "i \<in> set [oldFrom r..<oldTo r]" "kl_key oldKeys i = k" for i
  proof (rule ccontr)
    assume "\<not> ?P i"
    then have lt: "newFrom r + i - oldFrom r < newTo r" and e: "kl_key newKeys (newFrom r + i - oldFrom r) = k"
      using that(2) by auto
    have "oldFrom r \<le> i" using that(1) by simp
    then have "newFrom r \<le> newFrom r + i - oldFrom r" by arith
    then have "newFrom r + i - oldFrom r \<in> set [newFrom r..<newTo r]" using lt by simp
    then have "k \<in> set ns" using spans_image [OF n] e by (metis image_eqI)
    then show False using k by simp
  qed
  then have "(\<exists>i\<in>set [oldFrom r..<oldTo r]. ?P i \<and> kl_key oldKeys i = k) \<longleftrightarrow> k \<in> set os"
    unfolding spans_image [OF o, symmetric] by blast
  then show ?thesis unfolding g by simp
qed

lemma write_keys_get:
  assumes "range_ok uni pk ob existing newKeys oldKeys ci r"
  shows "j_get J (add_new J newKeys r ob (drop_old J newKeys oldKeys r t)) =
    upd_keys ob (case existing of None \<Rightarrow> [] | Some ex \<Rightarrow> ikeys uni ci pk ex) (ikeys uni ci pk ob) (j_get J t)"
proof (rule ext)
  fix k
  show "j_get J (add_new J newKeys r ob (drop_old J newKeys oldKeys r t)) k =
    upd_keys ob (case existing of None \<Rightarrow> [] | Some ex \<Rightarrow> ikeys uni ci pk ex) (ikeys uni ci pk ob) (j_get J t) k"
    using assms drop_old_get [of newKeys r "ikeys uni ci pk ob" oldKeys _ k t]
    unfolding range_ok_def upd_keys_def by (subst add_new_get [of newKeys r "ikeys uni ci pk ob"]) auto
qed

lemma apply_ranges_get:
  assumes "tt_wf ct tt" and "set (map fst zs) \<subseteq> set (ct_indexes ct)" and "distinct (map fst zs)"
    and "\<And>ci r. (ci, r) \<in> set zs \<Longrightarrow> range_ok uni pk ob existing newKeys oldKeys ci r"
  shows "tt_wf ct (apply_ranges J root newKeys oldKeys ob zs tt) \<and>
    tt_rows (apply_ranges J root newKeys oldKeys ob zs tt) = tt_rows tt \<and>
    (\<forall>cj\<in>set (ct_indexes ct). let t' = cur_tree root (apply_ranges J root newKeys oldKeys ob zs tt) cj in
       if cj \<in> set (map fst zs)
       then j_get J t' = upd_keys ob (case existing of None \<Rightarrow> [] | Some ex \<Rightarrow> ikeys uni cj pk ex) (ikeys uni cj pk ob) (j_get J (cur_tree root tt cj))
       else t' = cur_tree root tt cj)"
  using assms
proof (induction zs arbitrary: tt)
  case Nil
  then show ?case by simp
next
  case (Cons z zs)
  obtain ci r where z: "z = (ci, r)" by fastforce
  have ci: "ci \<in> set (ct_indexes ct)" "ci \<notin> set (map fst zs)" using Cons.prems(2,3) z by auto
  have ro: "range_ok uni pk ob existing newKeys oldKeys ci r" using Cons.prems(4) [of ci r] z by simp
  let ?t = "add_new J newKeys r ob (drop_old J newKeys oldKeys r (cur_tree root tt ci))"
  let ?tt = "put_tree ci ?t (start_index root ci tt)"
  have eq: "apply_ranges J root newKeys oldKeys ob (z # zs) tt = apply_ranges J root newKeys oldKeys ob zs ?tt"
    by (simp only: z apply_ranges.simps Let_def tree_at_start [OF Cons.prems(1) ci(1)])
  have wf: "tt_wf ct ?tt" "tt_rows ?tt = tt_rows tt" using Cons.prems(1) by simp_all
  have sub: "set (map fst zs) \<subseteq> set (ct_indexes ct)" "distinct (map fst zs)" using Cons.prems(2,3) by auto
  have cur: "cur_tree root ?tt cj = (if cj = ci then ?t else cur_tree root tt cj)" if "cj \<in> set (ct_indexes ct)" for cj
    using cur_tree_put [of ct "start_index root ci tt" ci cj root ?t] Cons.prems(1) ci(1) that by simp
  have each: "\<And>cj r. (cj, r) \<in> set zs \<Longrightarrow> range_ok uni pk ob existing newKeys oldKeys cj r" using Cons.prems(4) by simp
  note ih = Cons.IH [OF wf(1) sub each]
  show ?case unfolding eq
  proof (intro conjI ballI)
    show "tt_wf ct (apply_ranges J root newKeys oldKeys ob zs ?tt)" "tt_rows (apply_ranges J root newKeys oldKeys ob zs ?tt) = tt_rows tt"
      using ih wf(2) by simp_all
    fix cj assume cj: "cj \<in> set (ct_indexes ct)"
    note i = bspec [OF conjunct2 [OF conjunct2 [OF ih]] cj]
    show "let t' = cur_tree root (apply_ranges J root newKeys oldKeys ob zs ?tt) cj in
       if cj \<in> set (map fst (z # zs))
       then j_get J t' = upd_keys ob (case existing of None \<Rightarrow> [] | Some ex \<Rightarrow> ikeys uni cj pk ex) (ikeys uni cj pk ob) (j_get J (cur_tree root tt cj))
       else t' = cur_tree root tt cj"
    proof (cases "cj = ci")
      case True
      show ?thesis unfolding True
        using i [unfolded True] ci(2) write_keys_get [OF ro, of "cur_tree root tt ci"] cur [OF ci(1)] z by (simp add: Let_def)
    next
      case False
      then show ?thesis using i cur [OF cj] z by (simp add: Let_def)
    qed
  qed
qed

end

section \<open>Inserting a row\<close>

definition row_list :: "(bytes \<Rightarrow> bytes) \<Rightarrow> compiledIndex \<Rightarrow> bytes \<Rightarrow> obj option \<Rightarrow> bytes list" where
  "row_list uni ci pk existing = (case existing of None \<Rightarrow> [] | Some ex \<Rightarrow> ikeys uni ci pk ex)"

lemma no_clashD: "no_clash uni ct R \<Longrightarrow> ci \<in> set (secondary ct) \<Longrightarrow> R p = Some o1 \<Longrightarrow> R q = Some o2 \<Longrightarrow>
    k \<in> set (ikeys uni ci p o1) \<Longrightarrow> k \<in> set (ikeys uni ci q o2) \<Longrightarrow> p = q"
  unfolding no_clash_def by blast

lemma index_ok_insert:
  assumes t: "index_ok J uni ci t R" and n: "no_clash uni ct R" "no_clash uni ct (R(pk \<mapsto> ob))" and ci: "ci \<in> set (secondary ct)"
    and t': "j_get J t' = upd_keys ob (row_list uni ci pk (R pk)) (ikeys uni ci pk ob) (j_get J t)"
  shows "index_ok J uni ci t' (R(pk \<mapsto> ob))"
  unfolding index_ok_def
proof (intro allI)
  fix k c
  have new: "p = pk" if "(R(pk \<mapsto> ob)) p = Some o1" "k \<in> set (ikeys uni ci p o1)" "k \<in> set (ikeys uni ci pk ob)" for p o1
    using no_clashD [OF n(2) ci that(1) _ that(2,3)] by simp
  have old: "k \<notin> set (ikeys uni ci p o1)" if p: "R p = Some o1" "p \<noteq> pk" "k \<in> set (row_list uni ci pk (R pk))" for p o1
  proof
    assume k: "k \<in> set (ikeys uni ci p o1)"
    obtain o2 where "R pk = Some o2" "k \<in> set (ikeys uni ci pk o2)" using p(3) by (cases "R pk") (auto simp: row_list_def)
    then show False using no_clashD [OF n(1) ci p(1) _ k] p(2) by blast
  qed
  have ix: "j_get J t k = Some c \<longleftrightarrow> (\<exists>p o1. c = CRow o1 \<and> R p = Some o1 \<and> k \<in> set (ikeys uni ci p o1))"
    using t by (simp add: index_ok_def)
  show "j_get J t' k = Some c \<longleftrightarrow> (\<exists>p o1. c = CRow o1 \<and> (R(pk \<mapsto> ob)) p = Some o1 \<and> k \<in> set (ikeys uni ci p o1))"
  proof (cases "k \<in> set (ikeys uni ci pk ob)")
    case True
    then have "j_get J t' k = Some c \<longleftrightarrow> c = CRow ob" by (auto simp: t' upd_keys_def)
    moreover have "(\<exists>p o1. c = CRow o1 \<and> (R(pk \<mapsto> ob)) p = Some o1 \<and> k \<in> set (ikeys uni ci p o1)) \<longleftrightarrow> c = CRow ob"
      using True new by (metis fun_upd_same option.inject)
    ultimately show ?thesis by simp
  next
    case False
    have r: "(\<exists>p o1. c = CRow o1 \<and> (R(pk \<mapsto> ob)) p = Some o1 \<and> k \<in> set (ikeys uni ci p o1)) \<longleftrightarrow>
        (\<exists>p o1. p \<noteq> pk \<and> c = CRow o1 \<and> R p = Some o1 \<and> k \<in> set (ikeys uni ci p o1))"
      using False by (metis fun_upd_apply option.inject)
    show ?thesis
    proof (cases "k \<in> set (row_list uni ci pk (R pk))")
      case True
      then have "j_get J t' k = None" using False by (simp add: t' upd_keys_def)
      then show ?thesis unfolding r using old True by auto
    next
      case k: False
      then have "j_get J t' k = j_get J t k" using False by (simp add: t' upd_keys_def)
      moreover have "p \<noteq> pk" if "R p = Some o1" "k \<in> set (ikeys uni ci p o1)" for p o1
        using k that by (auto simp: row_list_def)
      ultimately show ?thesis unfolding r by (metis ix)
    qed
  qed
qed

lemma index_ok_delete:
  assumes t: "index_ok J uni ci t R" and n: "no_clash uni ct R" and ci: "ci \<in> set (secondary ct)" and R: "R pk = Some ex"
    and t': "j_get J t' = (\<lambda>k. if k \<in> set (ikeys uni ci pk ex) then None else j_get J t k)"
  shows "index_ok J uni ci t' (R(pk := None))"
  unfolding index_ok_def
proof (intro allI)
  fix k c
  have old: "k \<notin> set (ikeys uni ci p o1)" if "R p = Some o1" "p \<noteq> pk" "k \<in> set (ikeys uni ci pk ex)" for p o1
    using no_clashD [OF n ci that(1) R _ that(3)] that(2) by blast
  have ix: "j_get J t k = Some c \<longleftrightarrow> (\<exists>p o1. c = CRow o1 \<and> R p = Some o1 \<and> k \<in> set (ikeys uni ci p o1))"
    using t by (simp add: index_ok_def)
  have r: "(\<exists>p o1. c = CRow o1 \<and> (R(pk := None)) p = Some o1 \<and> k \<in> set (ikeys uni ci p o1)) \<longleftrightarrow>
      (\<exists>p o1. p \<noteq> pk \<and> c = CRow o1 \<and> R p = Some o1 \<and> k \<in> set (ikeys uni ci p o1))"
    by (metis fun_upd_apply option.distinct(1))
  show "j_get J t' k = Some c \<longleftrightarrow> (\<exists>p o1. c = CRow o1 \<and> (R(pk := None)) p = Some o1 \<and> k \<in> set (ikeys uni ci p o1))"
  proof (cases "k \<in> set (ikeys uni ci pk ex)")
    case True
    then show ?thesis unfolding r t' using old by auto
  next
    case False
    then have "p \<noteq> pk" if "R p = Some o1" "k \<in> set (ikeys uni ci p o1)" for p o1 using that R by auto
    then show ?thesis unfolding r using False ix by (simp add: t') metis
  qed
qed

lemma no_clash_delete: "no_clash uni ct R \<Longrightarrow> no_clash uni ct (R(pk := None))"
  unfolding no_clash_def by (metis fun_upd_apply option.distinct(1))

text \<open>A panic of Insert comes from an indexer, or there is no row id left.\<close>

definition key_panics :: "(bytes \<Rightarrow> bytes) \<Rightarrow> compiledTable \<Rightarrow> bytes \<Rightarrow> obj \<Rightarrow> bool" where
  "key_panics uni ct pk ob \<longleftrightarrow> (\<exists>ci\<in>set (secondary ct). row_keys uni ci (key_suffix ci pk) ob = Panics) \<or>
     (\<exists>ci\<in>set (bitmap_indexes ct). row_keys uni ci [] ob = Panics)"

definition out_of_ids :: "compiledTable \<Rightarrow> 't dbRoot \<Rightarrow> 't tableTxn \<Rightarrow> bool" where
  "out_of_ids ct root tt \<longleftrightarrow> has_bitmaps ct \<and> (\<forall>r. rowsOf root tt = Ret r \<longrightarrow> \<not> has_room r)"

text \<open>The same rows in every index: what an undone write leaves.\<close>

definition same_table :: "'t juuri \<Rightarrow> compiledTable \<Rightarrow> 't dbRoot \<Rightarrow> 't tableTxn \<Rightarrow> 't tableTxn \<Rightarrow> bool" where
  "same_table J ct root tt tt' \<longleftrightarrow> tt_wf ct tt' \<and> tt_rows tt' = tt_rows tt \<and>
     (\<forall>ci\<in>set (ct_indexes ct). j_get J (cur_tree root tt' ci) = j_get J (cur_tree root tt ci))"

lemma rowsOf_cong: "tt_rows tt' = tt_rows tt \<Longrightarrow> tt_table tt' = tt_table tt \<Longrightarrow> rowsOf root tt' = rowsOf root tt"
  by (simp only: rowsOf_def)

lemma index_ok_cong: "j_get J t' = j_get J t \<Longrightarrow> index_ok J uni ci t' R = index_ok J uni ci t R"
  by (simp add: index_ok_def)

lemma setT_cong: "j_get J t' = j_get J t \<Longrightarrow> setT J t' = setT J t"
  by (simp add: setT_def fun_eq_iff)

lemma sets_ok_cong: "j_get J t' = j_get J t \<Longrightarrow> sets_ok J t' = sets_ok J t"
  by (simp add: sets_ok_def)

lemma bits_ok_cong:
  assumes "\<And>ci. ci \<in> set (bitmap_indexes ct) \<Longrightarrow> j_get J (T' ci) = j_get J (T ci)" and "bits_ok J uni ct T r R"
  shows "bits_ok J uni ct T' r R"
  using assms unfolding bits_ok_def by (metis setT_cong sets_ok_cong)

lemma table_inv_same:
  assumes "table_inv clean J uni ct root tt R" and "same_table J ct root tt tt'"
  shows "table_inv clean J uni ct root tt' R"
proof -
  have wf: "tt_wf ct tt" "tt_wf ct tt'" "ct_wf ct" using assms by (simp_all add: table_inv_def same_table_def tt_wf_def)
  have g: "j_get J (cur_tree root tt' ci) = j_get J (cur_tree root tt ci)" if "ci \<in> set (ct_indexes ct)" for ci
    using assms(2) that by (simp add: same_table_def)
  have r: "rowsOf root tt' = rowsOf root tt"
    using assms(2) wf by (intro rowsOf_cong) (simp_all add: same_table_def tt_wf_def)
  note s = index_sets(1) [OF wf(3)]
  show ?thesis
    unfolding table_inv_def r
  proof (intro conjI allI ballI impI)
    show "tt_wf ct tt'" by (rule wf(2))
    show "j_get J (cur_tree root tt' (id_index ct)) pk = map_option CRow (R pk)" for pk
      using g [of "id_index ct"] table_invD(2) [OF assms(1)] by (simp add: s)
    show "index_ok J uni ci (cur_tree root tt' ci) R" if clean "ci \<in> set (secondary ct)" for ci
      using index_ok_cong [OF g [of ci]] table_invD(3) [OF assms(1) that] that by (simp add: s)
    show "\<exists>r. rowsOf root tt = Ret r \<and> bits_ok J uni ct (cur_tree root tt') r R" if "has_bitmaps ct"
      using table_invD(4) [OF assms(1) that] bits_ok_cong [of ct J "cur_tree root tt'" "cur_tree root tt"] g by (auto simp: s)
    show "indexable uni ct pk ob" if "R pk = Some ob" for pk ob by (rule table_invD(5) [OF assms(1) that])
    show "no_clash uni ct R" if clean by (rule table_invD(6) [OF assms(1) that])
  qed
qed

text \<open>insert_row once the primary index is written: \<open>undo\<close> is the state an error leaves.\<close>

definition after_id :: "'t juuri \<Rightarrow> (bytes \<Rightarrow> bytes) \<Rightarrow> compiledTable \<Rightarrow> 't dbRoot \<Rightarrow> obj \<Rightarrow> bytes \<Rightarrow> obj option \<Rightarrow> 't tableTxn \<Rightarrow>
    't tableTxn \<Rightarrow> obj tres \<times> 't tableTxn" where
  "after_id J uni ct root ob pk old undo tt2 = (let existing = case old of None \<Rightarrow> ONil | Some o1 \<Rightarrow> o1 in
     case build_keys uni ob old pk (secondary ct) kl_empty kl_empty [] of
       TPanic \<Rightarrow> (TPanic, tt2)
     | TErr e \<Rightarrow> (TErr e, undo)
     | TOk (newKeys, oldKeys, ranges) \<Rightarrow>
         (case (if has_bitmaps ct then bitmapKeys uni ob existing (bitmap_indexes ct) kl_empty kl_empty []
                else TOk (kl_empty, kl_empty, [])) of
            TPanic \<Rightarrow> (TPanic, tt2)
          | TErr e \<Rightarrow> (TErr e, undo)
          | TOk (bmNew, bmOld, bmRanges) \<Rightarrow>
              let tt3 = apply_ranges J root newKeys oldKeys ob (zip (secondary ct) ranges) tt2 in
              if has_bitmaps ct
              then (case applyBitmaps J root tt3 bmNew bmOld bmRanges ob existing pk of
                  Panic \<Rightarrow> (TPanic, tt3)
                | Ret tt4 \<Rightarrow> (TOk existing, tt4))
              else (TOk existing, tt3)))"

context juuri_tree
begin

text \<open>The first part of insert_row: the primary index, and how it is undone.\<close>

lemma id_written:
  assumes ok: "table_inv clean J uni ct root tt R" and new: "j_get J t = (j_get J (cur_tree root tt (id_index ct)))(pk := c)"
  shows "tt_wf ct (put_tree (id_index ct) t (start_index root (id_index ct) tt))"
    "\<And>ci. ci \<in> set (ct_indexes ct) \<Longrightarrow> cur_tree root (put_tree (id_index ct) t (start_index root (id_index ct) tt)) ci =
       (if ci = id_index ct then t else cur_tree root tt ci)"
    "c = map_option CRow (R pk) \<Longrightarrow> same_table J ct root tt (put_tree (id_index ct) t (start_index root (id_index ct) tt))"
proof -
  have wf: "tt_wf ct tt" "ct_wf ct" using table_invD(1) [OF ok] by (simp_all add: tt_wf_def)
  note id = id_secondary(1) [OF wf(2)]
  show "tt_wf ct (put_tree (id_index ct) t (start_index root (id_index ct) tt))" using wf by simp
  show cur: "cur_tree root (put_tree (id_index ct) t (start_index root (id_index ct) tt)) ci =
       (if ci = id_index ct then t else cur_tree root tt ci)" if "ci \<in> set (ct_indexes ct)" for ci
    using cur_tree_put [of ct "start_index root (id_index ct) tt" "id_index ct" ci root t] wf id that by simp
  assume c: "c = map_option CRow (R pk)"
  have "(j_get J (cur_tree root tt (id_index ct)))(pk := c) = j_get J (cur_tree root tt (id_index ct))"
    unfolding c table_invD(2) [OF ok, of pk, symmetric] by (rule fun_upd_triv)
  then show "same_table J ct root tt (put_tree (id_index ct) t (start_index root (id_index ct) tt))"
    using wf cur new by (simp add: same_table_def)
qed

lemma put_put: "put_tree ci t2 (put_tree ci t1 tt) = put_tree ci t2 tt"
  by (simp add: put_tree_def)

lemma table_inv_insert:
  assumes ok: "table_inv clean J uni ct root tt R" and ind: "indexable uni ct pk ob" and wf: "tt_wf ct tt'"
    and id: "j_get J (cur_tree root tt' (id_index ct)) = (j_get J (cur_tree root tt (id_index ct)))(pk \<mapsto> CRow ob)"
    and sec: "\<And>ci. ci \<in> set (secondary ct) \<Longrightarrow> j_get J (cur_tree root tt' ci) =
        upd_keys ob (row_list uni ci pk (R pk)) (ikeys uni ci pk ob) (j_get J (cur_tree root tt ci))"
    and bits: "has_bitmaps ct \<Longrightarrow> \<exists>r. rowsOf root tt' = Ret r \<and> bits_ok J uni ct (cur_tree root tt') r (R(pk \<mapsto> ob))"
  shows "table_inv (clean \<and> no_clash uni ct (R(pk \<mapsto> ob))) J uni ct root tt' (R(pk \<mapsto> ob))"
  unfolding table_inv_def
proof (intro conjI allI ballI impI)
  show "tt_wf ct tt'" by (rule wf)
  show "j_get J (cur_tree root tt' (id_index ct)) q = map_option CRow ((R(pk \<mapsto> ob)) q)" for q
    using table_invD(2) [OF ok, of q] by (simp add: id)
  show "index_ok J uni ci (cur_tree root tt' ci) (R(pk \<mapsto> ob))"
    if "clean \<and> no_clash uni ct (R(pk \<mapsto> ob))" "ci \<in> set (secondary ct)" for ci
    using index_ok_insert [OF table_invD(3) [OF ok] table_invD(6) [OF ok] _ that(2) sec [OF that(2)]] that by blast
  show "\<exists>r. rowsOf root tt' = Ret r \<and> bits_ok J uni ct (cur_tree root tt') r (R(pk \<mapsto> ob))" if "has_bitmaps ct"
    by (rule bits [OF that])
  show "indexable uni ct q o1" if "(R(pk \<mapsto> ob)) q = Some o1" for q o1
    using that ind table_invD(5) [OF ok, of q o1] by (auto split: if_splits)
  show "no_clash uni ct (R(pk \<mapsto> ob))" if "clean \<and> no_clash uni ct (R(pk \<mapsto> ob))" using that by blast
qed

lemma table_inv_delete:
  assumes ok: "table_inv clean J uni ct root tt R" and R: "R pk = Some ex" and wf: "tt_wf ct tt'"
    and id: "j_get J (cur_tree root tt' (id_index ct)) = (j_get J (cur_tree root tt (id_index ct)))(pk := None)"
    and sec: "\<And>ci. ci \<in> set (secondary ct) \<Longrightarrow> j_get J (cur_tree root tt' ci) =
        (\<lambda>k. if k \<in> set (ikeys uni ci pk ex) then None else j_get J (cur_tree root tt ci) k)"
    and bits: "has_bitmaps ct \<Longrightarrow> \<exists>r. rowsOf root tt' = Ret r \<and> bits_ok J uni ct (cur_tree root tt') r (R(pk := None))"
  shows "table_inv clean J uni ct root tt' (R(pk := None))"
  unfolding table_inv_def
proof (intro conjI allI ballI impI)
  show "tt_wf ct tt'" by (rule wf)
  show "j_get J (cur_tree root tt' (id_index ct)) q = map_option CRow ((R(pk := None)) q)" for q
    using table_invD(2) [OF ok, of q] by (simp add: id)
  show "index_ok J uni ci (cur_tree root tt' ci) (R(pk := None))" if clean "ci \<in> set (secondary ct)" for ci
    by (rule index_ok_delete [OF table_invD(3) [OF ok that] table_invD(6) [OF ok that(1)] that(2) R sec [OF that(2)]])
  show "\<exists>r. rowsOf root tt' = Ret r \<and> bits_ok J uni ct (cur_tree root tt') r (R(pk := None))" if "has_bitmaps ct"
    by (rule bits [OF that])
  show "indexable uni ct q o1" if "(R(pk := None)) q = Some o1" for q o1
    using that table_invD(5) [OF ok, of q o1] by (auto split: if_splits)
  show "no_clash uni ct (R(pk := None))" if clean by (rule no_clash_delete [OF table_invD(6) [OF ok that]])
qed

text \<open>The bitmap part of a write whose other trees are done.\<close>

lemma bitmaps_written:
  assumes ok: "table_inv clean J uni ct root tt R" and bm: "has_bitmaps ct" and wf: "tt_wf ct tt3" and rows: "tt_rows tt3 = tt_rows tt"
    and trees: "\<And>ci. ci \<in> set (bitmap_indexes ct) \<Longrightarrow> cur_tree root tt3 ci = cur_tree root tt ci"
    and w: "writes R pk existing ob" and ranges: "list_all2 (bm_range_ok uni ob existing bmNew bmOld) (bitmap_indexes ct) krs"
  shows "case applyBitmaps J root tt3 bmNew bmOld krs ob existing pk of
      Panic \<Rightarrow> R pk = None \<and> out_of_ids ct root tt
    | Ret tt4 \<Rightarrow> tt_wf ct tt4 \<and> (\<exists>r. rowsOf root tt4 = Ret r \<and> bits_ok J uni ct (cur_tree root tt4) r (put_row R pk ob)) \<and>
        (\<forall>ci\<in>set (take (ct_classic ct) (ct_indexes ct)). cur_tree root tt4 ci = cur_tree root tt3 ci)"
proof -
  have tab: "tt_table tt3 = tt_table tt" using wf table_invD(1) [OF ok] by (simp add: tt_wf_def)
  obtain r where r: "rowsOf root tt = Ret r" "bits_ok J uni ct (cur_tree root tt) r R" using table_invD(4) [OF ok bm] by blast
  have r3: "rowsOf root tt3 = Ret r" "bits_ok J uni ct (cur_tree root tt3) r R"
    using r rowsOf_cong [OF rows tab] bits_ok_cong [OF _ r(2), of "cur_tree root tt3"] trees by simp_all
  show ?thesis
  proof (cases "R pk = None \<and> \<not> has_room r")
    case True
    then have e: "existing = ONil" using w by (simp add: writes_def)
    have f: "bm_set (r_free r) = {}" "unat (r_next r) \<ge> 2 ^ 32 - 1" using True by (simp_all add: has_room_def)
    have "rows_ok J r R" using r(2) by (simp add: bits_ok_def)
    then have "Min_id (r_free r) = Ret None" using bm.least_None [OF rows_okD(7)] f(1) by blast
    moreover have "r_next r + 1 = 0"
    proof -
      have "unat (r_next r) = unat (- 1 :: uint32)"
        using f(2) unat_le_last [of "r_next r"] by (simp add: unsigned_minus_1_eq_mask mask_eq_exp_minus_1)
      then have "r_next r = - 1" by (simp add: word_unat_eq_iff)
      then show ?thesis by simp
    qed
    ultimately have "row_id J ob existing pk r = Panic" by (simp add: row_id_def e is_nil_def)
    then have "applyBitmaps J root tt3 bmNew bmOld krs ob existing pk = Panic" by (simp add: applyBitmaps_def Let_def r3(1))
    then show ?thesis using True r(1) bm by (simp add: out_of_ids_def)
  next
    case False
    then show ?thesis using applyBitmaps_spec [OF wf r3 w _ ranges] by auto
  qed
qed

lemma insert_row_steps:
  assumes ok: "table_inv clean J uni ct root tt R"
  obtains t1 undo where "j_get J t1 = (j_get J (cur_tree root tt (id_index ct)))(pk \<mapsto> CRow ob)" and "same_table J ct root tt undo" and
    "insert_row J uni root tt ob pk = after_id J uni ct root ob pk (R pk) undo (put_tree (id_index ct) t1 (start_index root (id_index ct) tt))"
proof -
  have wf: "tt_wf ct tt" "ct_wf ct" "tt_table tt = ct" using table_invD(1) [OF ok] by (simp_all add: tt_wf_def)
  let ?ci = "id_index ct"
  let ?t = "cur_tree root tt ?ci"
  let ?tt1 = "start_index root ?ci tt"
  let ?existing = "case R pk of None \<Rightarrow> ONil | Some o1 \<Rightarrow> o1"
  have g: "j_get J ?t pk = map_option CRow (R pk)" by (rule table_invD(2) [OF ok])
  have ta: "tree_at ?tt1 ?ci = ?t" by (rule tree_at_start [OF wf(1) id_secondary(1) [OF wf(2)]])
  obtain t1 where ji: "j_insert J ?t pk (CRow ob) = (t1, map_option CRow (R pk))" and t1: "j_get J t1 = (j_get J ?t)(pk \<mapsto> CRow ob)"
    using old_insert [of ?t pk "CRow ob"] get_insert [of ?t pk "CRow ob"] g by (metis prod.collapse)
  let ?tt2 = "put_tree ?ci t1 ?tt1"
  let ?undo = "put_tree ?ci (case map_option CRow (R pk) of Some c \<Rightarrow> fst (j_insert J t1 pk c) | None \<Rightarrow> fst (j_delete J t1 pk)) ?tt2"
  have ex: "row_of (map_option CRow (R pk)) = ?existing" by (simp add: row_of_def split: option.split)
  have mo: "map_option (\<lambda>_. ?existing) (map_option CRow (R pk)) = R pk" by (cases "R pk") simp_all
  have undo: "same_table J ct root tt ?undo"
  proof -
    have "j_get J (case map_option CRow (R pk) of Some c \<Rightarrow> fst (j_insert J t1 pk c) | None \<Rightarrow> fst (j_delete J t1 pk)) =
        (j_get J ?t)(pk := map_option CRow (R pk))"
      by (cases "R pk") (simp_all add: t1)
    then show ?thesis unfolding put_put by (rule id_written(3) [OF ok _ refl])
  qed
  show thesis
    by (rule that [OF t1 undo]) (simp only: insert_row_def after_id_def wf(3) Let_def ta ji prod.case ex mo)
qed

text \<open>Whatever the error, insert_row leaves the entries it found.\<close>

lemma insert_row_error:
  assumes ok: "table_inv clean J uni ct root tt R" and e: "insert_row J uni root tt ob pk = (TErr e, tt')"
  shows "same_table J ct root tt tt'"
proof -
  obtain t1 undo where u: "same_table J ct root tt undo" and
    r: "insert_row J uni root tt ob pk = after_id J uni ct root ob pk (R pk) undo (put_tree (id_index ct) t1 (start_index root (id_index ct) tt))"
    by (rule insert_row_steps [OF ok])
  show ?thesis using e u unfolding r by (auto simp: after_id_def Let_def split: tres.splits prod.splits if_splits outcome.splits)
qed

lemma insert_row_spec:
  assumes ok: "table_inv clean J uni ct root tt R" and pk: "primaryKey uni ct ob = TOk pk" and nn: "\<not> is_nil ob"
  shows "case insert_row J uni root tt ob pk of
     (TOk ex, tt') \<Rightarrow> ex = (case R pk of None \<Rightarrow> ONil | Some o1 \<Rightarrow> o1) \<and> indexable uni ct pk ob \<and>
       table_inv (clean \<and> no_clash uni ct (R(pk \<mapsto> ob))) J uni ct root tt' (R(pk \<mapsto> ob)) \<and>
       (\<forall>ci\<in>set (secondary ct). j_get J (cur_tree root tt' ci) =
          upd_keys ob (row_list uni ci pk (R pk)) (ikeys uni ci pk ob) (j_get J (cur_tree root tt ci)))
   | (TErr e, tt') \<Rightarrow> \<not> indexable uni ct pk ob \<and> same_table J ct root tt tt'
   | (TPanic, tt') \<Rightarrow> key_panics uni ct pk ob \<or> R pk = None \<and> out_of_ids ct root tt"
proof -
  have wf: "tt_wf ct tt" "ct_wf ct" "tt_table tt = ct" using table_invD(1) [OF ok] by (simp_all add: tt_wf_def)
  let ?ci = "id_index ct"
  let ?t = "cur_tree root tt ?ci"
  let ?tt1 = "start_index root ?ci tt"
  let ?existing = "case R pk of None \<Rightarrow> ONil | Some o1 \<Rightarrow> o1"
  obtain t1 undo where t1: "j_get J t1 = (j_get J ?t)(pk \<mapsto> CRow ob)" and undo: "same_table J ct root tt undo" and
    unfold: "insert_row J uni root tt ob pk = after_id J uni ct root ob pk (R pk) undo (put_tree ?ci t1 ?tt1)"
    by (rule insert_row_steps [OF ok])
  let ?tt2 = "put_tree ?ci t1 ?tt1"
  have old: "has_key uni ci (key_suffix ci pk) ex" if "R pk = Some ex" "ci \<in> set (secondary ct)" for ex ci
    using table_invD(5) [OF ok that(1)] that(2) by (simp add: indexable_def)
  have bold: "has_key uni ci [] ?existing" if "\<not> is_nil ?existing" "ci \<in> set (bitmap_indexes ct)" for ci
    using table_invD(5) [OF ok, of pk] that by (auto simp: indexable_def split: option.splits)
  note bk = build_keys_spec [where existing = "R pk" and cis = "secondary ct" and uni = uni and ob = ob and pk = pk and rs = "[]",
    OF old kl_good_empty kl_good_empty]
  note bm = bitmapKeys_spec [where existing = ?existing and cis = "bitmap_indexes ct" and uni = uni and ob = ob and rs = "[]",
    OF bold kl_good_empty kl_good_empty]
  show ?thesis
  proof (cases "build_keys uni ob (R pk) pk (secondary ct) kl_empty kl_empty []")
    case (TErr e)
    then show ?thesis using bk undo unfolding unfold after_id_def by (auto simp: indexable_def Let_def)
  next
    case TPanic
    then show ?thesis using bk unfolding unfold after_id_def by (auto simp: key_panics_def Let_def)
  next
    case (TOk q)
    then obtain newKeys oldKeys ranges where q: "build_keys uni ob (R pk) pk (secondary ct) kl_empty kl_empty [] = TOk (newKeys, oldKeys, ranges)"
      by (cases q) auto
    have rng: "list_all2 (range_ok uni pk ob (R pk) newKeys oldKeys) (secondary ct) ranges"
      and hk: "\<forall>ci\<in>set (secondary ct). has_key uni ci (key_suffix ci pk) ob" using bk q by auto
    let ?bm = "if has_bitmaps ct then bitmapKeys uni ob ?existing (bitmap_indexes ct) kl_empty kl_empty [] else TOk (kl_empty, kl_empty, [])"
    let ?zs = "zip (secondary ct) ranges"
    let ?tt3 = "apply_ranges J root newKeys oldKeys ob ?zs ?tt2"
    show ?thesis
    proof (cases ?bm)
      case (TErr e)
      then have "\<not> indexable uni ct pk ob" using bm by (auto simp: indexable_def split: if_splits)
      then show ?thesis using q TErr undo unfolding unfold after_id_def by (simp add: Let_def)
    next
      case TPanic
      then have "key_panics uni ct pk ob" using bm by (auto simp: key_panics_def split: if_splits)
      then show ?thesis using q TPanic unfolding unfold after_id_def by (simp add: Let_def)
    next
      case (TOk b)
      then obtain bmNew bmOld bmRanges where b: "?bm = TOk (bmNew, bmOld, bmRanges)" by (cases b) auto
      have bmr: "list_all2 (bm_range_ok uni ob ?existing bmNew bmOld) (bitmap_indexes ct) bmRanges" if "has_bitmaps ct"
        using bm b that by auto
      have "\<forall>ci\<in>set (bitmap_indexes ct). has_key uni ci [] ob"
        using bm b nn id_secondary(6) [OF wf(2)] by (cases "has_bitmaps ct") auto
      then have ind: "indexable uni ct pk ob" using pk nn hk by (simp add: indexable_def)
      have wf2: "tt_wf ct ?tt2" using wf(1) by simp
      have len: "length ranges = length (secondary ct)" using rng by (simp add: list_all2_lengthD)
      then have fst: "map fst ?zs = secondary ct" by simp
      note ix = index_sets [OF wf(2)]
      have each: "\<And>ci r. (ci, r) \<in> set ?zs \<Longrightarrow> range_ok uni pk ob (R pk) newKeys oldKeys ci r"
        using rng by (auto simp: list_all2_iff)
      have sub: "set (map fst ?zs) \<subseteq> set (ct_indexes ct)" "distinct (map fst ?zs)" unfolding fst using ix by auto
      note ar = apply_ranges_get [where root = root, OF wf2 sub each]
      have wf3: "tt_wf ct ?tt3" "tt_rows ?tt3 = tt_rows tt" using ar by simp_all
      note cur2 = id_written(2) [OF ok t1]
      have at3: "if cj \<in> set (secondary ct)
          then j_get J (cur_tree root ?tt3 cj) = upd_keys ob (row_list uni cj pk (R pk)) (ikeys uni cj pk ob) (j_get J (cur_tree root ?tt2 cj))
          else cur_tree root ?tt3 cj = cur_tree root ?tt2 cj" if "cj \<in> set (ct_indexes ct)" for cj
        using bspec [OF conjunct2 [OF conjunct2 [OF ar]] that] unfolding fst Let_def row_list_def .
      have t3: "cur_tree root ?tt3 ?ci = t1"
          "\<And>cj. cj \<in> set (bitmap_indexes ct) \<Longrightarrow> cur_tree root ?tt3 cj = cur_tree root tt cj"
          "\<And>cj. cj \<in> set (secondary ct) \<Longrightarrow> j_get J (cur_tree root ?tt3 cj) =
             upd_keys ob (row_list uni cj pk (R pk)) (ikeys uni cj pk ob) (j_get J (cur_tree root tt cj))"
      proof -
        show "cur_tree root ?tt3 ?ci = t1" using at3 [of ?ci] cur2 [of ?ci] ix by simp
        show "cur_tree root ?tt3 cj = cur_tree root tt cj" if "cj \<in> set (bitmap_indexes ct)" for cj
        proof -
          have "cj \<in> set (ct_indexes ct)" "cj \<notin> set (secondary ct)" "cj \<noteq> ?ci" using that ix by auto
          then show ?thesis using at3 [of cj] cur2 [of cj] by simp
        qed
        show "j_get J (cur_tree root ?tt3 cj) = upd_keys ob (row_list uni cj pk (R pk)) (ikeys uni cj pk ob) (j_get J (cur_tree root tt cj))"
          if "cj \<in> set (secondary ct)" for cj
        proof -
          have "cj \<in> set (ct_indexes ct)" "cj \<noteq> ?ci" using that ix by auto
          then show ?thesis using at3 [of cj] cur2 [of cj] that by simp
        qed
      qed
      show ?thesis
      proof (cases "has_bitmaps ct")
        case False
        have "table_inv (clean \<and> no_clash uni ct (R(pk \<mapsto> ob))) J uni ct root ?tt3 (R(pk \<mapsto> ob))"
          using table_inv_insert [OF ok ind wf3(1)] t3 t1 False by simp
        then show ?thesis using q b ind False t3(3) unfolding unfold after_id_def by (simp add: Let_def)
      next
        case True
        have w: "writes R pk ?existing ob"
          using nn table_invD(5) [OF ok, of pk] by (auto simp: writes_def indexable_def split: option.split)
        note bw = bitmaps_written [OF ok True wf3 t3(2) w bmr [OF True]]
        show ?thesis
        proof (cases "applyBitmaps J root ?tt3 bmNew bmOld bmRanges ob ?existing pk")
          case Panic
          then show ?thesis using bw q b True unfolding unfold after_id_def by (simp add: Let_def)
        next
          case (Ret tt4)
          have t4: "cur_tree root tt4 ci = cur_tree root ?tt3 ci" if "ci = ?ci \<or> ci \<in> set (secondary ct)" for ci
            using bw Ret that unfolding id_secondary(3) [OF wf(2)] by auto
          have "table_inv (clean \<and> no_clash uni ct (R(pk \<mapsto> ob))) J uni ct root tt4 (R(pk \<mapsto> ob))"
            using table_inv_insert [OF ok ind, of tt4] bw Ret t3 t4 t1 nn by (simp add: put_row_def)
          then show ?thesis using q b ind True Ret t3(3) t4 unfolding unfold after_id_def by (simp add: Let_def)
        qed
      qed
    qed
  qed
qed

end

section \<open>Deleting a row\<close>

definition old_keys :: "(bytes \<Rightarrow> bytes) \<Rightarrow> bytes \<Rightarrow> nat option \<Rightarrow> obj \<Rightarrow> compiledIndex \<Rightarrow> bytes list" where
  "old_keys uni pk skip ob ci = (if Some (ci_ord ci) \<noteq> skip then ikeys uni ci pk ob else [])"

lemma build_old_spec:
  assumes "\<And>ci. ci \<in> set cis \<Longrightarrow> has_key uni ci (key_suffix ci pk) ob"
  shows "kl_good oldKeys \<Longrightarrow> \<exists>o' rs0 os. build_old uni ob pk skip cis oldKeys rs = TOk (o', rs @ rs0) \<and> appended oldKeys o' os \<and>
     list_all2 (\<lambda>ci r. spans o' (oldFrom r) (oldTo r) (old_keys uni pk skip ob ci)) cis rs0"
  using assms
proof (induction cis arbitrary: oldKeys rs)
  case Nil
  then show ?case using appended_refl by fastforce
next
  case (Cons ci cis)
  let ?k = "if Some (ci_ord ci) \<noteq> skip then ci_keys uni ci ob pk oldKeys else Ok (oldKeys, False)"
  obtain ks where "row_keys uni ci (key_suffix ci pk) ob = Ok ks" using Cons.prems(2) [of ci] by (auto simp: has_key_def)
  then obtain o1 where o1: "ci_keys uni ci ob pk oldKeys = Ok (o1, ks \<noteq> None)"
    using keys_with_row [OF Cons.prems(1), of uni "key_suffix ci pk" ci ob] by (auto simp: key_suffix_keys)
  have "\<exists>o1 ok. ?k = Ok (o1, ok) \<and> appended oldKeys o1 (old_keys uni pk skip ob ci)"
    using keys_with_ok [OF Cons.prems(1) o1 [unfolded key_suffix_keys]] o1 appended_refl [OF Cons.prems(1)]
    by (auto simp: old_keys_def ikeys_def)
  then obtain o2 ok where k: "?k = Ok (o2, ok)" "appended oldKeys o2 (old_keys uni pk skip ob ci)" by blast
  let ?r = "\<lparr>newFrom = 0, newTo = 0, oldFrom = kl_len oldKeys, oldTo = kl_len o2, r_ok = False, r_okOld = False\<rparr>"
  obtain o' rs0 os where i: "build_old uni ob pk skip cis o2 (rs @ [?r]) = TOk (o', (rs @ [?r]) @ rs0)" "appended o2 o' os"
      "list_all2 (\<lambda>ci r. spans o' (oldFrom r) (oldTo r) (old_keys uni pk skip ob ci)) cis rs0"
    using Cons.IH [OF appended_good [OF k(2)], of "rs @ [?r]"] Cons.prems(2) by auto
  have "build_old uni ob pk skip (ci # cis) oldKeys rs = TOk (o', rs @ ?r # rs0)"
    using i(1) by (simp only: build_old.simps k(1) res.case prod.case append_assoc append_Cons append_Nil)
  moreover have "spans o' (oldFrom ?r) (oldTo ?r) (old_keys uni pk skip ob ci)"
    using spans_mono [OF spans_new [OF k(2)] i(2)] by simp
  ultimately show ?case using i(3) appended_trans [OF k(2) i(2)] by (intro exI [of _ o'] exI [of _ "?r # rs0"]) auto
qed

context juuri_tree
begin

lemma delete_span: "spans kl a b ks \<Longrightarrow> j_get J (fold (\<lambda>k t. fst (j_delete J t (kl_key kl k))) [a..<b] t) =
    (\<lambda>k. if k \<in> set ks then None else j_get J t k)"
proof -
  assume s: "spans kl a b ks"
  have e: "(\<exists>i\<in>set [a..<b]. True \<and> kl_key kl i = k) \<longleftrightarrow> k \<in> set ks" for k
    unfolding spans_image [OF s, symmetric] by blast
  show ?thesis using fold_delete [of "\<lambda>_. True" "kl_key kl" "[a..<b]" t] unfolding e if_True .
qed

lemma apply_deletes_get:
  assumes "tt_wf ct tt" and "set (map fst zs) \<subseteq> set (ct_indexes ct)" and "distinct (map fst zs)"
    and "\<And>ci r. (ci, r) \<in> set zs \<Longrightarrow> spans oldKeys (oldFrom r) (oldTo r) (keys ci)"
  shows "tt_wf ct (apply_deletes J root oldKeys zs tt) \<and> tt_rows (apply_deletes J root oldKeys zs tt) = tt_rows tt \<and>
    (\<forall>cj\<in>set (ct_indexes ct). let t' = cur_tree root (apply_deletes J root oldKeys zs tt) cj in
       if cj \<in> set (map fst zs) then j_get J t' = (\<lambda>k. if k \<in> set (keys cj) then None else j_get J (cur_tree root tt cj) k)
       else t' = cur_tree root tt cj)"
  using assms
proof (induction zs arbitrary: tt)
  case Nil
  then show ?case by simp
next
  case (Cons z zs)
  obtain ci r where z: "z = (ci, r)" by fastforce
  have ci: "ci \<in> set (ct_indexes ct)" "ci \<notin> set (map fst zs)" using Cons.prems(2,3) z by auto
  have sp: "spans oldKeys (oldFrom r) (oldTo r) (keys ci)" using Cons.prems(4) [of ci r] z by simp
  let ?t = "fold (\<lambda>k t. fst (j_delete J t (kl_key oldKeys k))) [oldFrom r..<oldTo r] (cur_tree root tt ci)"
  let ?tt = "if oldFrom r = oldTo r then tt else put_tree ci ?t (start_index root ci tt)"
  have eq: "apply_deletes J root oldKeys (z # zs) tt = apply_deletes J root oldKeys zs ?tt"
    by (simp add: z Let_def tree_at_start [OF Cons.prems(1) ci(1)])
  have wf: "tt_wf ct ?tt" "tt_rows ?tt = tt_rows tt" using Cons.prems(1) by simp_all
  have sub: "set (map fst zs) \<subseteq> set (ct_indexes ct)" "distinct (map fst zs)" using Cons.prems(2,3) by auto
  have cur: "j_get J (cur_tree root ?tt ci) = (\<lambda>k. if k \<in> set (keys ci) then None else j_get J (cur_tree root tt ci) k)"
    using delete_span [OF sp, of "cur_tree root tt ci"] spans_empty [OF sp] Cons.prems(1) ci(1)
      cur_tree_put [of ct "start_index root ci tt" ci ci root ?t] by (cases "oldFrom r = oldTo r") simp_all
  have cur': "cur_tree root ?tt cj = cur_tree root tt cj" if "cj \<in> set (ct_indexes ct)" "cj \<noteq> ci" for cj
    using cur_tree_put [of ct "start_index root ci tt" ci cj root ?t] Cons.prems(1) ci(1) that by simp
  have each: "\<And>cj r. (cj, r) \<in> set zs \<Longrightarrow> spans oldKeys (oldFrom r) (oldTo r) (keys cj)" using Cons.prems(4) by simp
  note ih = Cons.IH [OF wf(1) sub each]
  show ?case unfolding eq
  proof (intro conjI ballI)
    show "tt_wf ct (apply_deletes J root oldKeys zs ?tt)" "tt_rows (apply_deletes J root oldKeys zs ?tt) = tt_rows tt"
      using ih wf(2) by simp_all
    fix cj assume cj: "cj \<in> set (ct_indexes ct)"
    note i = bspec [OF conjunct2 [OF conjunct2 [OF ih]] cj]
    show "let t' = cur_tree root (apply_deletes J root oldKeys zs ?tt) cj in
       if cj \<in> set (map fst (z # zs)) then j_get J t' = (\<lambda>k. if k \<in> set (keys cj) then None else j_get J (cur_tree root tt cj) k)
       else t' = cur_tree root tt cj"
    proof (cases "cj = ci")
      case True
      have "cur_tree root (apply_deletes J root oldKeys zs ?tt) ci = cur_tree root ?tt ci"
        using i ci(2) unfolding True Let_def by (simp only: if_False)
      then show ?thesis using cur z unfolding True by (simp only: Let_def) simp
    next
      case False
      then show ?thesis using i z unfolding cur' [OF cj False] by (simp add: Let_def)
    qed
  qed
qed

end

context juuri_tree
begin

text \<open>
  deleteFromIndexes on a stored row, whatever has become of the ordinary indexes: it does not
  fail, and removes the row's keys from every secondary index but \<open>skip\<close>.
\<close>

lemma deleteFromIndexes_spec:
  assumes ok: "table_inv clean J uni ct root tt R" and R: "R pk = Some ob" and wf1: "tt_wf ct tt1" and rows: "tt_rows tt1 = tt_rows tt"
    and trees: "\<And>ci. ci \<in> set (bitmap_indexes ct) \<Longrightarrow> cur_tree root tt1 ci = cur_tree root tt ci"
  shows "\<exists>tt'. deleteFromIndexes J uni root tt1 ob pk skip = (TOk (), tt') \<and> tt_wf ct tt' \<and>
    cur_tree root tt' (id_index ct) = cur_tree root tt1 (id_index ct) \<and>
    (\<forall>ci\<in>set (secondary ct). j_get J (cur_tree root tt' ci) =
       (\<lambda>k. if k \<in> set (old_keys uni pk skip ob ci) then None else j_get J (cur_tree root tt1 ci) k)) \<and>
    (has_bitmaps ct \<longrightarrow> (\<exists>r. rowsOf root tt' = Ret r \<and> bits_ok J uni ct (cur_tree root tt') r (R(pk := None))))"
proof -
  have wf: "ct_wf ct" "tt_table tt1 = ct" using wf1 by (simp_all add: tt_wf_def)
  have ind: "indexable uni ct pk ob" by (rule table_invD(5) [OF ok R])
  then have hk: "\<And>ci. ci \<in> set (secondary ct) \<Longrightarrow> has_key uni ci (key_suffix ci pk) ob"
    and nn: "\<not> is_nil ob" and bold: "\<And>ci. \<not> is_nil ob \<Longrightarrow> ci \<in> set (bitmap_indexes ct) \<Longrightarrow> has_key uni ci [] ob"
    by (simp_all add: indexable_def)
  obtain oldKeys ranges where bo: "build_old uni ob pk skip (secondary ct) kl_empty [] = TOk (oldKeys, ranges)"
      and sp: "list_all2 (\<lambda>ci r. spans oldKeys (oldFrom r) (oldTo r) (old_keys uni pk skip ob ci)) (secondary ct) ranges"
    using build_old_spec [where cis = "secondary ct" and uni = uni and ob = ob and pk = pk and skip = skip and rs = "[]", OF hk kl_good_empty]
    by auto
  let ?bm = "if has_bitmaps ct then bitmapKeys uni ONil ob (bitmap_indexes ct) kl_empty kl_empty [] else TOk (kl_empty, kl_empty, [])"
  note bm = bitmapKeys_spec [where existing = ob and cis = "bitmap_indexes ct" and uni = uni and ob = ONil and rs = "[]",
    OF bold kl_good_empty kl_good_empty]
  obtain n1 o1 krs where bk: "bitmapKeys uni ONil ob (bitmap_indexes ct) kl_empty kl_empty [] = TOk (n1, o1, krs)"
      "list_all2 (bm_range_ok uni ONil ob n1 o1) (bitmap_indexes ct) krs"
    using bm by (cases "bitmapKeys uni ONil ob (bitmap_indexes ct) kl_empty kl_empty []") auto
  obtain bmNew bmOld bmRanges where b: "?bm = TOk (bmNew, bmOld, bmRanges)"
      and bmr: "has_bitmaps ct \<Longrightarrow> list_all2 (bm_range_ok uni ONil ob bmNew bmOld) (bitmap_indexes ct) bmRanges"
    using bk by (cases "has_bitmaps ct") auto
  let ?zs = "zip (secondary ct) ranges"
  let ?tt2 = "apply_deletes J root oldKeys ?zs tt1"
  have fst: "map fst ?zs = secondary ct" using sp by (simp add: list_all2_lengthD)
  note ix = index_sets [OF wf(1)]
  have each: "\<And>ci r. (ci, r) \<in> set ?zs \<Longrightarrow> spans oldKeys (oldFrom r) (oldTo r) (old_keys uni pk skip ob ci)"
    using sp by (auto simp: list_all2_iff)
  have sub: "set (map fst ?zs) \<subseteq> set (ct_indexes ct)" "distinct (map fst ?zs)" unfolding fst using ix by auto
  note ad = apply_deletes_get [where root = root and keys = "old_keys uni pk skip ob", OF wf1 sub each]
  have wf2: "tt_wf ct ?tt2" "tt_rows ?tt2 = tt_rows tt" using ad rows by simp_all
  have at2: "if cj \<in> set (secondary ct)
      then j_get J (cur_tree root ?tt2 cj) = (\<lambda>k. if k \<in> set (old_keys uni pk skip ob cj) then None else j_get J (cur_tree root tt1 cj) k)
      else cur_tree root ?tt2 cj = cur_tree root tt1 cj" if "cj \<in> set (ct_indexes ct)" for cj
    using bspec [OF conjunct2 [OF conjunct2 [OF ad]] that] unfolding fst Let_def .
  have t2: "cur_tree root ?tt2 (id_index ct) = cur_tree root tt1 (id_index ct)"
      "\<And>ci. ci \<in> set (bitmap_indexes ct) \<Longrightarrow> cur_tree root ?tt2 ci = cur_tree root tt ci"
      "\<And>ci. ci \<in> set (secondary ct) \<Longrightarrow> j_get J (cur_tree root ?tt2 ci) =
         (\<lambda>k. if k \<in> set (old_keys uni pk skip ob ci) then None else j_get J (cur_tree root tt1 ci) k)"
  proof -
    show "cur_tree root ?tt2 (id_index ct) = cur_tree root tt1 (id_index ct)" using at2 [of "id_index ct"] ix by simp
    show "cur_tree root ?tt2 ci = cur_tree root tt ci" if "ci \<in> set (bitmap_indexes ct)" for ci
    proof -
      have "ci \<in> set (ct_indexes ct)" "ci \<notin> set (secondary ct)" using that ix by auto
      then show ?thesis using at2 [of ci] trees [of ci] that by simp
    qed
    show "j_get J (cur_tree root ?tt2 ci) = (\<lambda>k. if k \<in> set (old_keys uni pk skip ob ci) then None else j_get J (cur_tree root tt1 ci) k)"
      if "ci \<in> set (secondary ct)" for ci
      using at2 [of ci] that ix by simp
  qed
  have unfold: "deleteFromIndexes J uni root tt1 ob pk skip =
     (if has_bitmaps ct
      then (case applyBitmaps J root ?tt2 bmNew bmOld bmRanges ONil ob pk of Panic \<Rightarrow> (TPanic, ?tt2) | Ret tt2 \<Rightarrow> (TOk (), tt2))
      else (TOk (), ?tt2))"
    by (simp only: deleteFromIndexes_def wf(2) Let_def bo b tres.case prod.case)
  show ?thesis
  proof (cases "has_bitmaps ct")
    case False
    then show ?thesis using unfold wf2 t2 by simp
  next
    case True
    have w: "writes R pk ob ONil" using R nn by (simp add: writes_def)
    obtain tt3 where "applyBitmaps J root ?tt2 bmNew bmOld bmRanges ONil ob pk = Ret tt3" "tt_wf ct tt3"
        "\<exists>r. rowsOf root tt3 = Ret r \<and> bits_ok J uni ct (cur_tree root tt3) r (put_row R pk ONil)"
        "\<forall>ci\<in>set (take (ct_classic ct) (ct_indexes ct)). cur_tree root tt3 ci = cur_tree root ?tt2 ci"
      using bitmaps_written [OF ok True wf2 t2(2) w bmr [OF True]] R by (auto split: outcome.splits)
    then show ?thesis using unfold True t2 unfolding id_secondary(3) [OF wf(1)] by (simp add: put_row_def)
  qed
qed

lemma delete_row_spec:
  assumes ok: "table_inv clean J uni ct root tt R"
  shows "case R pk of
     None \<Rightarrow> \<exists>tt'. delete_row J uni root tt pk = (TErr ENotFound, tt') \<and> same_table J ct root tt tt'
   | Some ob \<Rightarrow> \<exists>tt'. delete_row J uni root tt pk = (TOk ob, tt') \<and> table_inv clean J uni ct root tt' (R(pk := None)) \<and>
       (\<forall>ci\<in>set (secondary ct). j_get J (cur_tree root tt' ci) =
          (\<lambda>k. if k \<in> set (ikeys uni ci pk ob) then None else j_get J (cur_tree root tt ci) k))"
proof -
  have wf: "tt_wf ct tt" "ct_wf ct" "tt_table tt = ct" using table_invD(1) [OF ok] by (simp_all add: tt_wf_def)
  let ?ci = "id_index ct"
  let ?t = "cur_tree root tt ?ci" and ?tt1 = "start_index root ?ci tt"
  have g: "j_get J ?t pk = map_option CRow (R pk)" by (rule table_invD(2) [OF ok])
  have ta: "tree_at ?tt1 ?ci = ?t" by (rule tree_at_start [OF wf(1) id_secondary(1) [OF wf(2)]])
  obtain t1 where jd: "j_delete J ?t pk = (t1, map_option CRow (R pk))" and t1: "j_get J t1 = (j_get J ?t)(pk := None)"
    using old_delete [of ?t pk] get_delete [of ?t pk] g by (metis prod.collapse)
  let ?tt2 = "put_tree ?ci t1 ?tt1"
  note iw = id_written [OF ok t1]
  show ?thesis
  proof (cases "R pk")
    case None
    then have "delete_row J uni root tt pk = (TErr ENotFound, ?tt2)"
      by (simp add: delete_row_def wf(3) Let_def ta jd)
    then show ?thesis using iw(3) None by simp
  next
    case (Some ob)
    have tr: "cur_tree root ?tt2 ci = cur_tree root tt ci" if "ci \<in> set (secondary ct) \<union> set (bitmap_indexes ct)" for ci
    proof -
      have "ci \<in> set (ct_indexes ct)" "ci \<noteq> ?ci" using that index_sets [OF wf(2)] by auto
      then show ?thesis using iw(2) [of ci] by simp
    qed
    then have tr': "cur_tree root ?tt2 ci = cur_tree root tt ci" if "ci \<in> set (bitmap_indexes ct)" for ci using that by blast
    have rows: "tt_rows ?tt2 = tt_rows tt" by simp
    obtain tt' where d: "deleteFromIndexes J uni root ?tt2 ob pk None = (TOk (), tt')" and wf': "tt_wf ct tt'"
      and t': "cur_tree root tt' ?ci = cur_tree root ?tt2 ?ci"
        "\<And>ci. ci \<in> set (secondary ct) \<Longrightarrow> j_get J (cur_tree root tt' ci) =
           (\<lambda>k. if k \<in> set (old_keys uni pk None ob ci) then None else j_get J (cur_tree root ?tt2 ci) k)"
        "has_bitmaps ct \<Longrightarrow> \<exists>r. rowsOf root tt' = Ret r \<and> bits_ok J uni ct (cur_tree root tt') r (R(pk := None))"
      using deleteFromIndexes_spec [OF ok Some iw(1) rows tr', of None] by blast
    have "delete_row J uni root tt pk = (TOk ob, tt')"
      using Some d by (simp add: delete_row_def wf(3) Let_def ta jd row_of_def)
    moreover have sec: "j_get J (cur_tree root tt' ci) = (\<lambda>k. if k \<in> set (ikeys uni ci pk ob) then None else j_get J (cur_tree root tt ci) k)"
      if "ci \<in> set (secondary ct)" for ci
    proof -
      have e: "cur_tree root ?tt2 ci = cur_tree root tt ci" using tr that by blast
      show ?thesis using t'(2) [OF that] unfolding e by (simp add: old_keys_def)
    qed
    then have "table_inv clean J uni ct root tt' (R(pk := None))"
      using table_inv_delete [OF ok Some wf' _ sec t'(3)] t'(1) iw(2) [of ?ci] t1 id_secondary(1) [OF wf(2)] by simp
    ultimately show ?thesis using Some sec by simp
  qed
qed

end

end
