(* ===== verification/Query.thy ===== *)
theory Query
  imports Txn BitmapIter
begin

text \<open>
  Reading a transaction: the ordered queries (First, Last, Get and its kin), the set queries of
  bitmap indexes (Where, AllRows and the algebra of row sets), and the sequences built from
  iterators (seq.go, filter.go). An iterator is the list of the rows it has yet to return; the
  queries with their watch channels are in Notify.
\<close>

section \<open>Ordered queries\<close>

definition on_index :: "(bytes \<Rightarrow> bytes) \<Rightarrow> (indexer \<Rightarrow> arg list \<Rightarrow> bool) \<Rightarrow> compiledTable nameIndex \<Rightarrow> 't txn \<Rightarrow> string \<Rightarrow> string \<Rightarrow>
    arg list \<Rightarrow> ('t \<Rightarrow> compiledIndex \<Rightarrow> bool \<Rightarrow> bytes option \<Rightarrow> 'r tres) \<Rightarrow> 'r tres" where
  "on_index uni nils tabs x table index args f = (case getIndexValue uni nils tabs table index args of
     TErr e \<Rightarrow> TErr e
   | TPanic \<Rightarrow> TPanic
   | TOk (ct, (ci, prefixScan), val) \<Rightarrow> (case readableIndex ct ci x of
       Panic \<Rightarrow> TPanic
     | Ret tree \<Rightarrow> f tree ci prefixScan val))"

definition exact :: "compiledIndex \<Rightarrow> bool \<Rightarrow> bytes option \<Rightarrow> bool" where
  "exact ci prefixScan val \<longleftrightarrow> ci_unique ci \<and> val \<noteq> None \<and> \<not> prefixScan"

definition Txn_First :: "'t juuri \<Rightarrow> (bytes \<Rightarrow> bytes) \<Rightarrow> (indexer \<Rightarrow> arg list \<Rightarrow> bool) \<Rightarrow> compiledTable nameIndex \<Rightarrow> 't txn \<Rightarrow>
    string \<Rightarrow> string \<Rightarrow> arg list \<Rightarrow> obj tres" where
  "Txn_First J uni nils tabs x table index args = on_index uni nils tabs x table index args (\<lambda>tree ci prefixScan val.
     if exact ci prefixScan val then TOk (row_of (j_get J tree (val_bytes val)))
     else TOk (row_of (j_first J tree (val_bytes val))))"

definition Txn_Last :: "'t juuri \<Rightarrow> (bytes \<Rightarrow> bytes) \<Rightarrow> (indexer \<Rightarrow> arg list \<Rightarrow> bool) \<Rightarrow> compiledTable nameIndex \<Rightarrow> 't txn \<Rightarrow>
    string \<Rightarrow> string \<Rightarrow> arg list \<Rightarrow> obj tres" where
  "Txn_Last J uni nils tabs x table index args = on_index uni nils tabs x table index args (\<lambda>tree ci prefixScan val.
     if exact ci prefixScan val then TOk (row_of (j_get J tree (val_bytes val)))
     else TOk (row_of (j_last J tree (val_bytes val))))"

definition LongestPrefix :: "'t juuri \<Rightarrow> (bytes \<Rightarrow> bytes) \<Rightarrow> (indexer \<Rightarrow> arg list \<Rightarrow> bool) \<Rightarrow> compiledTable nameIndex \<Rightarrow> 't txn \<Rightarrow>
    string \<Rightarrow> string \<Rightarrow> arg list \<Rightarrow> obj tres" where
  "LongestPrefix J uni nils tabs x table index args =
    (if \<not> HasSuffix index prefixSuffix then TErr (EMustUsePrefix index)
     else case getIndexValue uni nils tabs table index args of
       TErr e \<Rightarrow> TErr e
     | TPanic \<Rightarrow> TPanic
     | TOk (ct, (ci, prefixScan), val) \<Rightarrow>
         if \<not> ci_unique ci then TErr (ENotUnique index)
         else (case readableIndex ct ci x of
             Panic \<Rightarrow> TPanic
           | Ret tree \<Rightarrow> TOk (row_of (j_longest J tree (val_bytes val)))))"

definition rows_in :: "(bytes \<times> cell) list \<Rightarrow> obj list" where
  "rows_in es = map (\<lambda>(k, c). row_of (Some c)) es"

definition GetReverse :: "'t juuri \<Rightarrow> (bytes \<Rightarrow> bytes) \<Rightarrow> (indexer \<Rightarrow> arg list \<Rightarrow> bool) \<Rightarrow> compiledTable nameIndex \<Rightarrow> 't txn \<Rightarrow>
    string \<Rightarrow> string \<Rightarrow> arg list \<Rightarrow> obj list tres" where
  "GetReverse J uni nils tabs x table index args = on_index uni nils tabs x table index args
     (\<lambda>tree ci prefixScan val. TOk (rows_in (j_rprefix J tree (val_bytes val))))"

definition LowerBound :: "'t juuri \<Rightarrow> (bytes \<Rightarrow> bytes) \<Rightarrow> (indexer \<Rightarrow> arg list \<Rightarrow> bool) \<Rightarrow> compiledTable nameIndex \<Rightarrow> 't txn \<Rightarrow>
    string \<Rightarrow> string \<Rightarrow> arg list \<Rightarrow> obj list tres" where
  "LowerBound J uni nils tabs x table index args = on_index uni nils tabs x table index args
     (\<lambda>tree ci prefixScan val. TOk (rows_in (j_lower J tree (val_bytes val))))"

definition ReverseLowerBound :: "'t juuri \<Rightarrow> (bytes \<Rightarrow> bytes) \<Rightarrow> (indexer \<Rightarrow> arg list \<Rightarrow> bool) \<Rightarrow> compiledTable nameIndex \<Rightarrow> 't txn \<Rightarrow>
    string \<Rightarrow> string \<Rightarrow> arg list \<Rightarrow> obj list tres" where
  "ReverseLowerBound J uni nils tabs x table index args = on_index uni nils tabs x table index args
     (\<lambda>tree ci prefixScan val. TOk (rows_in (j_rlower J tree (val_bytes val))))"

section \<open>Iterators and sequences\<close>

text \<open>radixIterator.Next: nil at the end, and for a nil row.\<close>

fun Next_row :: "obj list \<Rightarrow> obj \<times> obj list" where
  "Next_row [] = (ONil, [])"
| "Next_row (ob # obs) = (ob, obs)"

text \<open>FilterIterator.Next: the filter tells which values to leave out; the loop ends with the rows.\<close>

fun FilterNext :: "(obj \<Rightarrow> bool) \<Rightarrow> obj list \<Rightarrow> obj \<times> obj list" where
  "FilterNext flt [] = Next_row []"
| "FilterNext flt (ob # obs) = (if is_nil ob \<or> \<not> flt ob then Next_row (ob # obs) else FilterNext flt obs)"

text \<open>
  All and AllOf over an iterator with next function \<open>nxt\<close>: the rows yielded until the consumer
  stops, and what is left in the iterator. \<open>yield\<close> is the consumer's state machine: it takes a
  row and returns its next state and whether it goes on. None: the fuel, one more than the rows
  of the iterator, has run out. AllOf panics on a row that is not a \<open>T\<close>.
\<close>

fun All_loop :: "('i \<Rightarrow> obj \<times> 'i) \<Rightarrow> ('s \<Rightarrow> obj \<Rightarrow> 's \<times> bool) \<Rightarrow> nat \<Rightarrow> 'i \<Rightarrow> 's \<Rightarrow> ('s \<times> 'i) option" where
  "All_loop nxt yield 0 it s = None"
| "All_loop nxt yield (Suc n) it s = (case nxt it of (ob, it') \<Rightarrow>
     if is_nil ob then Some (s, it')
     else (case yield s ob of (s', go_on) \<Rightarrow> if go_on then All_loop nxt yield n it' s' else Some (s', it')))"

fun AllOf_loop :: "('i \<Rightarrow> obj \<times> 'i) \<Rightarrow> (obj \<Rightarrow> bool) \<Rightarrow> ('s \<Rightarrow> obj \<Rightarrow> 's \<times> bool) \<Rightarrow> nat \<Rightarrow> 'i \<Rightarrow> 's \<Rightarrow> ('s \<times> 'i) outcome option" where
  "AllOf_loop nxt is_T yield 0 it s = None"
| "AllOf_loop nxt is_T yield (Suc n) it s = (case nxt it of (ob, it') \<Rightarrow>
     if is_nil ob then Some (Ret (s, it'))
     else if \<not> is_T ob then Some Panic
     else (case yield s ob of (s', go_on) \<Rightarrow> if go_on then AllOf_loop nxt is_T yield n it' s' else Some (Ret (s', it'))))"

section \<open>Row sets\<close>

text \<open>
  A row set names its table by position. \<open>'v\<close> is what stands for the vector of the rows: its value
  (\<open>rowSet\<close>, which the queries return), or the handle of a vector in memory, by which sets are
  compared when they are combined (theory RowAlgebra).
\<close>

record 'v rows_set =
  rs_table :: nat
  rs_rows :: 'v
  rs_bits :: bitmap

type_synonym rowSet = "obj vector rows_set"

definition RowSet_Len :: "'v rows_set \<Rightarrow> int" where
  "RowSet_Len s = Len (rs_bits s)"

text \<open>The iterator of a row set: the bitmap's iterator and a cursor of the vector.\<close>

type_synonym rowSetIterator = "iterator \<times> obj cursor"

definition RowSet_Iterator :: "rowSet \<Rightarrow> rowSetIterator" where
  "RowSet_Iterator s = (Iterate (rs_bits s), Cursor (rs_rows s))"

definition RowSet_Next :: "rowSetIterator \<Rightarrow> (obj \<times> rowSetIterator) option" where
  "RowSet_Next r = (case r of (ids, rows) \<Rightarrow> (case Next ids of
     None \<Rightarrow> None
   | Some (ids', None) \<Rightarrow> Some (ONil, ids', rows)
   | Some (ids', Some i) \<Rightarrow> (case CursorGet rows i of (rows', v) \<Rightarrow> Some (case v of None \<Rightarrow> ONil | Some ob \<Rightarrow> ob, ids', rows'))))"

text \<open>
  RowSet.All, with the consumer as in All: its state when it stops or the ids are used up. The
  loop may not end in the model: None.
\<close>

partial_function (option) RowSet_All_loop :: "('s \<Rightarrow> obj \<Rightarrow> 's \<times> bool) \<Rightarrow> rowSetIterator \<Rightarrow> 's \<Rightarrow> 's option" where
  "RowSet_All_loop yield r s = (case Next (fst r) of
     None \<Rightarrow> None
   | Some (ids', None) \<Rightarrow> Some s
   | Some (ids', Some i) \<Rightarrow> (case CursorGet (snd r) i of (rows', v) \<Rightarrow>
       (case yield s (case v of None \<Rightarrow> ONil | Some ob \<Rightarrow> ob) of (s', go_on) \<Rightarrow>
          if go_on then RowSet_All_loop yield (ids', rows') s' else Some s')))"

definition RowSet_All :: "('s \<Rightarrow> obj \<Rightarrow> 's \<times> bool) \<Rightarrow> rowSet \<Rightarrow> 's \<Rightarrow> 's option" where
  "RowSet_All yield rs s = RowSet_All_loop yield (RowSet_Iterator rs) s"

text \<open>tableRowsOf, Where and AllRows.\<close>

definition tableRowsOf :: "compiledTable \<Rightarrow> 't txn \<Rightarrow> 't tableRows outcome" where
  "tableRowsOf ct x =
    (case (case find_tt (ct_ord ct) (tables_of x) of None \<Rightarrow> None | Some tt \<Rightarrow> tt_rows tt) of
       Some r \<Rightarrow> Ret r
     | None \<Rightarrow> (case x_root x of None \<Rightarrow> Panic | Some root \<Rightarrow> (case d_ext root of None \<Rightarrow> Panic
         | Some rs \<Rightarrow> (case rs ! ct_ord ct of None \<Rightarrow> Panic | Some r \<Rightarrow> Ret r))))"

definition bitmap_value :: "(bytes \<Rightarrow> bytes) \<Rightarrow> compiledIndex \<Rightarrow> bool \<Rightarrow> arg list \<Rightarrow> bytes tres" where
  "bitmap_value uni ci prefixScan args = (case appendArgs uni prefixScan (ci_ix ci) args [] of
     Some val \<Rightarrow> TOk val
   | None \<Rightarrow>
       if prefixScan \<and> \<not> has_prefix (ci_ix ci) then TErr (ENoPrefixScan (ci_name ci))
       else (case (if prefixScan then PrefixFromArgs uni (ci_ix ci) args else FromArgs uni (ci_ix ci) args) of
           Err e \<Rightarrow> TErr (EIndexArgs e)
         | Panics \<Rightarrow> TPanic
         | Ok val \<Rightarrow> TOk val))"

fun or_all :: "cell list \<Rightarrow> bitmap \<Rightarrow> bitmap outcome" where
  "or_all [] b = Ret b"
| "or_all (CBits s # cs) b = or_all cs (Or b s)"
| "or_all (_ # cs) b = Panic"

definition Where :: "'t juuri \<Rightarrow> (bytes \<Rightarrow> bytes) \<Rightarrow> compiledTable nameIndex \<Rightarrow> 't txn \<Rightarrow> string \<Rightarrow> string \<Rightarrow> arg list \<Rightarrow> rowSet tres" where
  "Where J uni tabs x table index args = (case x_root x of None \<Rightarrow> TPanic | Some root \<Rightarrow>
     (case ni_get tabs table of
        None \<Rightarrow> TErr (EInvalidTable table)
      | Some ct \<Rightarrow> (case bitmapIndex ct index of
          None \<Rightarrow> (case ni_get (ct_byName ct) index of
              Some _ \<Rightarrow> TErr (ENotBitmap (TrimSuffix index prefixSuffix))
            | None \<Rightarrow> TErr (EInvalidIndex (TrimSuffix index prefixSuffix)))
        | Some (ci, prefixScan) \<Rightarrow>
            if args = [] then TErr (ENoArguments (ci_name ci))
            else (case bitmap_value uni ci prefixScan args of
                TErr e \<Rightarrow> TErr e
              | TPanic \<Rightarrow> TPanic
              | TOk val \<Rightarrow> (case (tableRowsOf ct x, readableIndex ct ci x) of
                  (Ret r, Ret tree) \<Rightarrow>
                    let set = (\<lambda>b. \<lparr>rs_table = ct_ord ct, rs_rows = r_rows r, rs_bits = b\<rparr>) in
                    if \<not> prefixScan
                    then (case j_get J tree val of
                        None \<Rightarrow> TOk (set None)
                      | Some (CBits b) \<Rightarrow> TOk (set b)
                      | Some _ \<Rightarrow> TPanic)
                    else (case or_all (map snd (j_prefix J tree val)) None of
                        Panic \<Rightarrow> TPanic
                      | Ret b \<Rightarrow> TOk (set b))
                | _ \<Rightarrow> TPanic)))))"

definition AllRows :: "compiledTable nameIndex \<Rightarrow> 't txn \<Rightarrow> string \<Rightarrow> rowSet tres" where
  "AllRows tabs x table = (case x_root x of None \<Rightarrow> TPanic | Some root \<Rightarrow>
     (case ni_get tabs table of
        None \<Rightarrow> TErr (EInvalidTable table)
      | Some ct \<Rightarrow>
          if ct_classic ct = length (ct_indexes ct) then TErr (ENoBitmaps table)
          else (case tableRowsOf ct x of Panic \<Rightarrow> TPanic
            | Ret r \<Rightarrow> TOk \<lparr>rs_table = ct_ord ct, rs_rows = r_rows r, rs_bits = r_all r\<rparr>)))"

end
