(* ===== verification/Db.thy ===== *)
theory Db
  imports Query "HOL-Library.AList" "HOL-Library.Char_ord"
begin

text \<open>
  Databases and the life of a transaction (memdb.go and the rest of txn.go): creating a
  database, beginning, committing, aborting and snapshotting transactions, deferred functions,
  and the list of changes with its de-duplication. The pool of write states is in Pool;
  the notification of watches is in Notify.
\<close>

section \<open>Databases\<close>

text \<open>newRootExt: empty row bookkeeping for every table with a bitmap index, if there is one.\<close>

definition newRootExt :: "'t juuri \<Rightarrow> compiledTable nameIndex \<Rightarrow> 't tableRows option list option" where
  "newRootExt J tabs = fold (\<lambda>e ext. let ct = snd e in
       if ct_classic ct = length (ct_indexes ct) then ext
       else let rows = (case ext of None \<Rightarrow> replicate (length (entries tabs)) None | Some rows \<Rightarrow> rows)
         in Some (rows[ct_ord ct := Some \<lparr>r_ids = j_new J, r_rows = empty_vector, r_all = None, r_free = None, r_next = 0\<rparr>]))
     (entries tabs) None"

definition newDBRoot :: "'t juuri \<Rightarrow> compiledTable nameIndex \<Rightarrow> nat \<Rightarrow> 't dbRoot" where
  "newDBRoot J tabs ntrees = \<lparr>d_trees = replicate ntrees (j_new J), d_ext = newRootExt J tabs\<rparr>"

definition NewMemDB :: "'t juuri \<Rightarrow> dbSchema option \<Rightarrow> (schema_error + 't memdb) outcome" where
  "NewMemDB J sch = (case DBSchema_Validate sch of
     Some e \<Rightarrow> Ret (Inl e)
   | None \<Rightarrow> (case sch of None \<Rightarrow> Panic | Some s \<Rightarrow> (case compileSchema s of
       Panic \<Rightarrow> Panic
     | Ret (Inl e) \<Rightarrow> Ret (Inl e)
     | Ret (Inr (tabs, ntrees)) \<Rightarrow> Ret (Inr \<lparr>db_tables = tabs, db_root = newDBRoot J tabs ntrees, db_primary = True, db_locked = False\<rparr>))))"

text \<open>MemDB.Txn: a write transaction waits for the writer lock; None while it is taken.\<close>

definition db_Txn :: "bool \<Rightarrow> 't memdb \<Rightarrow> ('t txn \<times> 't memdb) option" where
  "db_Txn write db =
    (let x = \<lparr>x_root = Some (db_root db), x_write = write, x_tables = None, x_after = None, x_afterMore = None, x_changes = None\<rparr>
     in if \<not> write then Some (x, db)
        else if db_locked db then None
        else Some (x, db\<lparr>db_locked := True\<rparr>))"

definition db_Snapshot :: "'t memdb \<Rightarrow> 't memdb" where
  "db_Snapshot db = \<lparr>db_tables = db_tables db, db_root = db_root db, db_primary = False, db_locked = False\<rparr>"

section \<open>The next version of the database\<close>

text \<open>The written trees of a table replace those of the base version; so does its bookkeeping.\<close>

definition put_trees :: "'t tableTxn \<Rightarrow> 't list \<Rightarrow> 't list" where
  "put_trees tt trees = fold (\<lambda>ord ts. case tt_idx tt ! ord of None \<Rightarrow> ts
       | Some t \<Rightarrow> ts[ci_slot (ct_indexes (tt_table tt) ! ord) := t]) [0..<length (tt_idx tt)] trees"

definition withRows :: "'t tableTxn list \<Rightarrow> 't tableRows option list option \<Rightarrow> 't tableRows option list option" where
  "withRows tts ext = fold (\<lambda>tt ext. case tt_rows tt of None \<Rightarrow> ext
     | Some r \<Rightarrow> map_option (\<lambda>rs. rs[ct_ord (tt_table tt) := Some r]) ext) tts ext"

definition next_root :: "'t dbRoot \<Rightarrow> 't tableTxn list \<Rightarrow> 't dbRoot" where
  "next_root root tts = \<lparr>d_trees = fold put_trees tts (d_trees root), d_ext = withRows tts (d_ext root)\<rparr>"

section \<open>Commit, Abort, Snapshot, Defer\<close>

definition Defer :: "deferred \<Rightarrow> 't txn \<Rightarrow> 't txn" where
  "Defer fn x = (if \<not> x_write x then x
     else if x_after x = None \<and> x_afterMore x = None \<and> fn \<noteq> None then x\<lparr>x_after := fn\<rparr>
     else x\<lparr>x_afterMore := Some ((case x_afterMore x of None \<Rightarrow> [] | Some fs \<Rightarrow> fs) @ [fn])\<rparr>)"

text \<open>
  The functions run in order; calling a nil function panics. The result is the functions that
  were run and whether all of them were.
\<close>

fun run_deferred :: "deferred list \<Rightarrow> nat list \<times> bool" where
  "run_deferred [] = ([], True)"
| "run_deferred (None # fs) = ([], False)"
| "run_deferred (Some f # fs) = (case run_deferred fs of (done_fs, ok) \<Rightarrow> (f # done_fs, ok))"

definition deferred_of :: "'t txn \<Rightarrow> deferred list" where
  "deferred_of x = (case x_afterMore x of None \<Rightarrow> [] | Some fs \<Rightarrow> rev fs) @
     (case x_after x of None \<Rightarrow> [] | Some f \<Rightarrow> [Some f])"

definition Commit :: "'t memdb \<Rightarrow> 't txn \<Rightarrow> 't memdb \<times> 't txn \<times> (nat list \<times> bool)" where
  "Commit db x = (if \<not> x_write x then (db, x, [], True)
     else case x_root x of
       None \<Rightarrow> (db, x, [], True)
     | Some root \<Rightarrow>
         ((case x_tables x of
             None \<Rightarrow> db\<lparr>db_locked := False\<rparr>
           | Some tts \<Rightarrow> db\<lparr>db_root := next_root root tts, db_locked := False\<rparr>),
          x\<lparr>x_root := None, x_tables := None\<rparr>, run_deferred (deferred_of x)))"

definition Abort :: "'t memdb \<Rightarrow> 't txn \<Rightarrow> 't memdb \<times> 't txn" where
  "Abort db x = (if \<not> x_write x then (db, x)
     else case x_root x of
       None \<Rightarrow> (db, x)
     | Some root \<Rightarrow> (db\<lparr>db_locked := False\<rparr>, x\<lparr>x_root := None, x_tables := None, x_changes := None\<rparr>))"

definition Txn_Snapshot :: "'t txn \<Rightarrow> 't txn option" where
  "Txn_Snapshot x = (case x_root x of
     None \<Rightarrow> None
   | Some root \<Rightarrow> Some \<lparr>x_root = Some (case x_tables x of None \<Rightarrow> root | Some tts \<Rightarrow> next_root root tts), x_write = False,
       x_tables = None, x_after = None, x_afterMore = None, x_changes = None\<rparr>)"

section \<open>Changes\<close>

definition Created :: "change \<Rightarrow> bool" where
  "Created m \<longleftrightarrow> is_nil (c_Before m) \<and> \<not> is_nil (c_After m)"

definition Updated :: "change \<Rightarrow> bool" where
  "Updated m \<longleftrightarrow> \<not> is_nil (c_Before m) \<and> \<not> is_nil (c_After m)"

definition Deleted :: "change \<Rightarrow> bool" where
  "Deleted m \<longleftrightarrow> \<not> is_nil (c_Before m) \<and> is_nil (c_After m)"

type_synonym objectID = "string \<times> bytes"

definition oid_of :: "change \<Rightarrow> objectID" where
  "oid_of m = (c_Table m, c_primaryKey m)"

text \<open>
  hasDuplicateChanges. The hash of maphash is a parameter: a function of the bytes written to
  it, the table's name, a zero and the primary key.
\<close>

fun pairwise_dup :: "change list \<Rightarrow> change list \<Rightarrow> bool" where
  "pairwise_dup earlier [] = False"
| "pairwise_dup earlier (m # ms) =
    (if list_ex (\<lambda>e. c_Table m = c_Table e \<and> c_primaryKey m = c_primaryKey e) earlier then True
     else pairwise_dup (earlier @ [m]) ms)"

fun hash_dup :: "(bytes \<Rightarrow> uint64) \<Rightarrow> uint64 list \<Rightarrow> change list \<Rightarrow> bool" where
  "hash_dup hash seen [] = False"
| "hash_dup hash seen (m # ms) =
    (let sum = hash (map of_char (c_Table m) @ [0] @ c_primaryKey m)
     in if sum \<in> set seen then True else hash_dup hash (sum # seen) ms)"

definition hasDuplicateChanges :: "(bytes \<Rightarrow> uint64) \<Rightarrow> change list \<Rightarrow> bool" where
  "hasDuplicateChanges hash cs = (if length cs \<le> 8 then pairwise_dup [] cs else hash_dup hash [] cs)"

record mutInfo =
  firstBefore :: obj
  lastIdx :: nat

text \<open>The map from objects to mutations, as an association list without duplicates.\<close>

fun collect_dups :: "nat \<Rightarrow> change list \<Rightarrow> (objectID \<times> mutInfo) list \<Rightarrow> (objectID \<times> mutInfo) list" where
  "collect_dups i [] dups = dups"
| "collect_dups i (m # ms) dups =
    (let mi = (case map_of dups (oid_of m) of None \<Rightarrow> \<lparr>firstBefore = c_Before m, lastIdx = i\<rparr> | Some mi \<Rightarrow> mi\<lparr>lastIdx := i\<rparr>)
     in collect_dups (i + 1) ms (AList.update (oid_of m) mi dups))"

fun remove_dups :: "(objectID \<times> mutInfo) list \<Rightarrow> nat \<Rightarrow> change list \<Rightarrow> change list" where
  "remove_dups dups i [] = []"
| "remove_dups dups i (m # ms) =
    (let mi = the (map_of dups (oid_of m)); m' = m\<lparr>c_Before := firstBefore mi\<rparr>
     in if lastIdx mi = i \<and> \<not> (is_nil (c_Before m') \<and> is_nil (c_After m')) then m' # remove_dups dups (i + 1) ms
        else remove_dups dups (i + 1) ms)"

definition Changes :: "(bytes \<Rightarrow> uint64) \<Rightarrow> 't txn \<Rightarrow> change list option \<times> 't txn" where
  "Changes hash x = (case x_changes x of
     None \<Rightarrow> (None, x)
   | Some cs \<Rightarrow>
       if \<not> hasDuplicateChanges hash cs then (Some cs, x)
       else let dups = collect_dups 0 cs [] in
         if length dups = length cs then (Some cs, x)
         else let cs' = remove_dups dups 0 cs in (Some cs', x\<lparr>x_changes := Some cs'\<rparr>))"

end
