(* ===== verification/TxnInv.thy ===== *)
theory TxnInv
  imports TableInv Db
begin

text \<open>
  The invariant of a whole transaction: every table of the schema is in order (table_ok), with
  the rows \<open>V\<close> gives for it. The lemmas lift the effect of the row operations to Insert and
  Delete and carry the invariant through NewMemDB, MemDB.Txn, Commit and Snapshot.
\<close>

type_synonym rows = "string \<Rightarrow> bytes \<Rightarrow> obj option"

section \<open>The invariant\<close>

text \<open>A version of the database has a tree per slot, and a place for the bookkeeping of every table that needs one.\<close>

definition root_ok :: "compiledTable nameIndex \<Rightarrow> nat \<Rightarrow> 't dbRoot \<Rightarrow> bool" where
  "root_ok tabs n root \<longleftrightarrow> length (d_trees root) = n \<and>
     (\<forall>name ct. ni_get tabs name = Some ct \<longrightarrow> has_bitmaps ct \<longrightarrow> (\<exists>rs. d_ext root = Some rs \<and> ct_ord ct < length rs))"

definition tables_ok :: "compiledTable nameIndex \<Rightarrow> 't tableTxn list \<Rightarrow> bool" where
  "tables_ok tabs tts \<longleftrightarrow> distinct (map (\<lambda>tt. ct_ord (tt_table tt)) tts) \<and>
     (\<forall>tt\<in>set tts. \<exists>name. ni_get tabs name = Some (tt_table tt))"

text \<open>\<open>clean\<close> says of which tables it is known that no two rows have ever shared a key of a secondary index.\<close>

definition txn_inv :: "(string \<Rightarrow> bool) \<Rightarrow> 't juuri \<Rightarrow> (bytes \<Rightarrow> bytes) \<Rightarrow> compiledTable nameIndex \<Rightarrow> nat \<Rightarrow> 't txn \<Rightarrow> rows \<Rightarrow> bool" where
  "txn_inv clean J uni tabs n x V \<longleftrightarrow> db_ok tabs n \<and> tables_ok tabs (tables_of x) \<and>
     (\<exists>root. x_root x = Some root \<and> root_ok tabs n root \<and>
       (\<forall>name ct. ni_get tabs name = Some ct \<longrightarrow> table_inv (clean name) J uni ct root (tableTxn_of ct x) (V name)))"

abbreviation txn_ok :: "'t juuri \<Rightarrow> (bytes \<Rightarrow> bytes) \<Rightarrow> compiledTable nameIndex \<Rightarrow> nat \<Rightarrow> 't txn \<Rightarrow> rows \<Rightarrow> bool" where
  "txn_ok \<equiv> txn_inv (\<lambda>_. True)"

lemma db_okD:
  assumes "db_ok tabs n" and "ni_get tabs name = Some ct"
  shows "ct_wf ct" "slots_of ct \<subseteq> {..<n}"
    "ni_get tabs name' = Some ct' \<Longrightarrow> name' \<noteq> name \<Longrightarrow> ct_ord ct' \<noteq> ct_ord ct \<and> slots_of ct' \<inter> slots_of ct = {}"
  using assms unfolding db_ok_def by blast+

text \<open>The index an ordinary index name stands for.\<close>

lemma byName_index:
  assumes "ct_wf ct" and "ni_get (ct_byName ct) q = Some (ci, pre)"
  shows "ci \<in> set (take (ct_classic ct) (ct_indexes ct))" "pre = HasSuffix q prefixSuffix"
proof -
  have "distinct (map ci_name (take (ct_classic ct) (ct_indexes ct)))" using assms(1) by (simp add: ct_wf_def flip: take_map)
  then have f: "find (\<lambda>ci. ci_name ci = TrimSuffix q prefixSuffix) (take (ct_classic ct) (ct_indexes ct)) = Some ci \<and>
      pre = HasSuffix q prefixSuffix"
    using assms indexNames_get [of "take (ct_classic ct) (ct_indexes ct)" q] by (auto simp: ct_wf_def)
  then show "ci \<in> set (take (ct_classic ct) (ct_indexes ct))" unfolding find_Some_iff by (metis nth_mem)
  show "pre = HasSuffix q prefixSuffix" using f by (rule conjunct2)
qed

subsection \<open>The list of written tables\<close>

lemma find_store: "find_tt n (store_tt tt tts) = (if n = ct_ord (tt_table tt) then Some tt else find_tt n tts)"
  by (induction tts) auto

lemma tables_of_save [simp]: "tables_of (save tt x) = store_tt tt (tables_of x)"
  by (simp add: tables_of_def save_def)

lemma save_fields [simp]: "x_root (save tt x) = x_root x" "x_write (save tt x) = x_write x" "x_changes (save tt x) = x_changes x"
    "x_after (save tt x) = x_after x" "x_afterMore (save tt x) = x_afterMore x"
  by (simp_all add: save_def)

lemma tableTxn_of_save: "tableTxn_of ct (save tt x) = (if ct_ord ct = ct_ord (tt_table tt) then tt else tableTxn_of ct x)"
  by (simp add: tableTxn_of_def find_store)

lemma store_tt_ords: "ct_ord (tt_table tt) \<in> (\<lambda>t. ct_ord (tt_table t)) ` set tts \<Longrightarrow>
    map (\<lambda>t. ct_ord (tt_table t)) (store_tt tt tts) = map (\<lambda>t. ct_ord (tt_table t)) tts"
  by (induction tts) auto

lemma store_tt_new: "ct_ord (tt_table tt) \<notin> (\<lambda>t. ct_ord (tt_table t)) ` set tts \<Longrightarrow> store_tt tt tts = tts @ [tt]"
  by (induction tts) auto

lemma set_store: "set (store_tt tt tts) \<subseteq> insert tt (set tts)"
  by (induction tts) auto

lemma tables_ok_store:
  assumes "tables_ok tabs tts" and "ni_get tabs name = Some (tt_table tt)"
  shows "tables_ok tabs (store_tt tt tts)"
proof -
  have "distinct (map (\<lambda>t. ct_ord (tt_table t)) (store_tt tt tts))"
  proof (cases "ct_ord (tt_table tt) \<in> (\<lambda>t. ct_ord (tt_table t)) ` set tts")
    case True
    then show ?thesis using assms(1) by (simp add: store_tt_ords tables_ok_def)
  next
    case False
    then show ?thesis using assms(1) by (simp add: store_tt_new tables_ok_def)
  qed
  then show ?thesis using assms set_store [of tt tts] unfolding tables_ok_def by blast
qed

lemma find_tt_table: "tables_ok tabs tts \<Longrightarrow> find_tt n tts = Some tt \<Longrightarrow> tt \<in> set tts \<and> ct_ord (tt_table tt) = n"
  by (induction tts) (auto simp: tables_ok_def split: if_splits)

lemma find_tt_mem: "tables_ok tabs tts \<Longrightarrow> tt \<in> set tts \<Longrightarrow> find_tt (ct_ord (tt_table tt)) tts = Some tt"
  by (induction tts) (auto simp: tables_ok_def image_iff split: if_splits)

subsection \<open>What the invariant says of an index\<close>

lemma txn_invD:
  assumes "txn_inv clean J uni tabs n x V"
  shows "db_ok tabs n" "tables_ok tabs (tables_of x)"
  using assms by (simp_all add: txn_inv_def)

lemma txn_inv_root:
  assumes "txn_inv clean J uni tabs n x V"
  obtains root where "x_root x = Some root" "root_ok tabs n root"
    "\<And>name ct. ni_get tabs name = Some ct \<Longrightarrow> table_inv (clean name) J uni ct root (tableTxn_of ct x) (V name)"
  using assms unfolding txn_inv_def by blast

lemma readableIndex_cur:
  assumes "x_root x = Some root" and "tt_wf ct (tableTxn_of ct x)" and "ci \<in> set (ct_indexes ct)"
  shows "readableIndex ct ci x = Ret (cur_tree root (tableTxn_of ct x) ci)"
proof -
  have "ci_ord ci < length (ct_indexes ct)" using assms(2,3) ct_wf_ord(1) by (simp add: tt_wf_def)
  then show ?thesis using assms(1)
    by (auto simp: readableIndex_def cur_tree_def tableTxn_of_def split: option.split)
qed

lemma txn_inv_save:
  assumes ok: "txn_inv clean J uni tabs n x V" and ct: "ni_get tabs name = Some ct" and root: "x_root x = Some root"
    and t: "table_inv c J uni ct root tt R"
  shows "txn_inv (clean(name := c)) J uni tabs n (save tt x) (V(name := R))"
proof -
  have tab: "tt_table tt = ct" using table_invD(1) [OF t] by (simp add: tt_wf_def)
  note d = txn_invD [OF ok]
  have "table_inv ((clean(name := c)) name') J uni ct' root (tableTxn_of ct' (save tt x)) ((V(name := R)) name')"
    if "ni_get tabs name' = Some ct'" for name' ct'
  proof (cases "name' = name")
    case True
    then show ?thesis using that ct t tab by (simp add: tableTxn_of_save)
  next
    case False
    then have "ct_ord ct' \<noteq> ct_ord ct" using db_okD(3) [OF d(1) ct that] by blast
    then show ?thesis using txn_inv_root [OF ok] root that False tab by (metis fun_upd_other option.inject tableTxn_of_save)
  qed
  moreover have "tables_ok tabs (tables_of (save tt x))" using tables_ok_store [OF d(2)] ct tab by simp
  moreover have "root_ok tabs n root" using txn_inv_root [OF ok] root by (metis option.inject)
  ultimately show ?thesis using d(1) root by (simp add: txn_inv_def)
qed

lemma txn_ok_save:
  assumes "txn_ok J uni tabs n x V" and "ni_get tabs name = Some ct" and "x_root x = Some root" and "table_ok J uni ct root tt R"
  shows "txn_ok J uni tabs n (save tt x) (V(name := R))"
proof -
  have "(\<lambda>_. True)(name := True) = (\<lambda>_. True)" by auto
  then show ?thesis using txn_inv_save [OF assms] by simp
qed

text \<open>The changes recorded and the functions deferred do not matter.\<close>

lemma txn_inv_cong:
  "x_root x' = x_root x \<Longrightarrow> x_tables x' = x_tables x \<Longrightarrow> txn_inv clean J uni tabs n x' V = txn_inv clean J uni tabs n x V"
  by (simp add: txn_inv_def tables_of_def tableTxn_of_def)

lemma record_change_fields [simp]:
  "x_root (record_change t b a k x) = x_root x" "x_tables (record_change t b a k x) = x_tables x"
  "x_write (record_change t b a k x) = x_write x"
  "x_changes (record_change t b a k x) = map_option (\<lambda>cs. cs @ [\<lparr>c_Table = t, c_Before = b, c_After = a, c_primaryKey = k\<rparr>]) (x_changes x)"
  by (simp_all add: record_change_def split: option.split)

lemma txn_inv_record [simp]: "txn_inv clean J uni tabs n (record_change t b a k x) V = txn_inv clean J uni tabs n x V"
  by (rule txn_inv_cong) simp_all

lemma same_refl: "tt_wf ct tt \<Longrightarrow> same_table J ct root tt tt"
  by (simp add: same_table_def)

lemma fun_upd_idem': "V name = R \<Longrightarrow> V(name := R) = V"
  by auto

text \<open>Saving the table as it is, or with the same rows, changes nothing.\<close>

lemma txn_inv_save_same:
  assumes ok: "txn_inv clean J uni tabs n x V" and ct: "ni_get tabs name = Some ct" and root: "x_root x = Some root"
    and s: "same_table J ct root (tableTxn_of ct x) tt"
  shows "txn_inv clean J uni tabs n (save tt x) V"
proof -
  have "table_inv (clean name) J uni ct root (tableTxn_of ct x) (V name)" using txn_inv_root [OF ok] root ct by (metis option.inject)
  then have "table_inv (clean name) J uni ct root tt (V name)" using s by (rule table_inv_same)
  from txn_inv_save [OF ok ct root this] show ?thesis by (simp add: fun_upd_idem' fun_upd_triv)
qed

section \<open>Insert and Delete\<close>

definition of_row :: "obj option \<Rightarrow> obj" where
  "of_row r = (case r of None \<Rightarrow> ONil | Some ob \<Rightarrow> ob)"

definition row_opt :: "obj \<Rightarrow> obj option" where
  "row_opt ob = (if is_nil ob then None else Some ob)"

definition track :: "string \<Rightarrow> obj \<Rightarrow> obj \<Rightarrow> bytes \<Rightarrow> change list option \<Rightarrow> change list option" where
  "track t b a k cs = map_option (\<lambda>cs. cs @ [\<lparr>c_Table = t, c_Before = b, c_After = a, c_primaryKey = k\<rparr>]) cs"

text \<open>Two states of a transaction with the same entries in every index.\<close>

definition same_view :: "'t juuri \<Rightarrow> compiledTable nameIndex \<Rightarrow> 't txn \<Rightarrow> 't txn \<Rightarrow> bool" where
  "same_view J tabs x x' \<longleftrightarrow> (\<forall>name ct ci. ni_get tabs name = Some ct \<longrightarrow> ci \<in> set (ct_indexes ct) \<longrightarrow>
     (\<exists>t t'. readableIndex ct ci x = Ret t \<and> readableIndex ct ci x' = Ret t' \<and> j_get J t' = j_get J t))"

lemma same_view_save:
  assumes ok: "txn_inv clean J uni tabs n x V" and ct: "ni_get tabs name = Some ct" and root: "x_root x = Some root"
    and s: "same_table J ct root (tableTxn_of ct x) tt"
  shows "same_view J tabs x (save tt x)"
  unfolding same_view_def
proof (intro allI impI)
  fix name' ct' ci assume n: "ni_get tabs name' = Some ct'" and ci: "ci \<in> set (ct_indexes ct')"
  have wf: "tt_wf ct' (tableTxn_of ct' x)" "tt_table tt = ct"
    using txn_inv_root [OF ok] n s by (auto simp: table_inv_def same_table_def tt_wf_def)
  have wf': "tt_wf ct' (tableTxn_of ct' (save tt x))"
    using txn_inv_root [OF txn_inv_save_same [OF ok ct root s]] n by (metis table_invD(1))
  have eq: "j_get J (cur_tree root (tableTxn_of ct' (save tt x)) ci) = j_get J (cur_tree root (tableTxn_of ct' x) ci)"
  proof (cases "name' = name")
    case True
    then show ?thesis using n ct s ci wf(2) by (simp add: tableTxn_of_save same_table_def)
  next
    case False
    then have "ct_ord ct' \<noteq> ct_ord ct" using db_okD(3) [OF txn_invD(1) [OF ok] ct n] by blast
    then show ?thesis using wf(2) by (simp add: tableTxn_of_save)
  qed
  show "\<exists>t t'. readableIndex ct' ci x = Ret t \<and> readableIndex ct' ci (save tt x) = Ret t' \<and> j_get J t' = j_get J t"
    using readableIndex_cur [OF root wf(1) ci] readableIndex_cur [OF _ wf' ci, of root] root eq by auto
qed

lemma same_view_refl:
  assumes ok: "txn_inv clean J uni tabs n x V"
  shows "same_view J tabs x x"
proof -
  obtain root where "x_root x = Some root"
    and "\<And>name ct. ni_get tabs name = Some ct \<Longrightarrow> table_inv (clean name) J uni ct root (tableTxn_of ct x) (V name)"
    using txn_inv_root [OF ok] by metis
  then show ?thesis unfolding same_view_def by (metis readableIndex_cur table_invD(1))
qed

text \<open>
  What one write makes of the entries of the secondary indexes, whether or not rows clash: every
  key of the new row leads to it, whichever row had the key before, the other keys of the row it
  replaces are gone, and all other entries, those of the other tables included, stay.
\<close>

definition last_write :: "'t juuri \<Rightarrow> (bytes \<Rightarrow> bytes) \<Rightarrow> compiledTable nameIndex \<Rightarrow> string \<Rightarrow> bytes \<Rightarrow> obj option \<Rightarrow> obj option \<Rightarrow>
    't txn \<Rightarrow> 't txn \<Rightarrow> bool" where
  "last_write J uni tabs name pk old new x x' \<longleftrightarrow> (\<forall>name' ct ci. ni_get tabs name' = Some ct \<longrightarrow> ci \<in> set (secondary ct) \<longrightarrow>
     (\<exists>t t'. readableIndex ct ci x = Ret t \<and> readableIndex ct ci x' = Ret t' \<and> (\<forall>k. j_get J t' k =
        (if name' = name \<and> k \<in> set (row_list uni ci pk new) then map_option CRow new
         else if name' = name \<and> k \<in> set (row_list uni ci pk old) then None else j_get J t k))))"

lemma last_write_save:
  assumes ok: "txn_inv clean J uni tabs n x V" and ct: "ni_get tabs name = Some ct" and root: "x_root x = Some root"
    and t: "table_inv c J uni ct root tt R"
    and e: "\<And>ci k. ci \<in> set (secondary ct) \<Longrightarrow> j_get J (cur_tree root tt ci) k =
      (if k \<in> set (row_list uni ci pk new) then map_option CRow new
       else if k \<in> set (row_list uni ci pk old) then None else j_get J (cur_tree root (tableTxn_of ct x) ci) k)"
  shows "last_write J uni tabs name pk old new x (save tt x)"
  unfolding last_write_def
proof (intro allI impI)
  fix name' ct' ci assume n: "ni_get tabs name' = Some ct'" and ci: "ci \<in> set (secondary ct')"
  have "txn_inv (clean(name := c)) J uni tabs n (save tt x) (V(name := R))" by (rule txn_inv_save [OF ok ct root t])
  then have wf: "tt_wf ct' (tableTxn_of ct' x)" "tt_wf ct' (tableTxn_of ct' (save tt x))"
    using txn_inv_root [OF ok] n txn_inv_root [of "clean(name := c)" J uni tabs n "save tt x" "V(name := R)"] by (metis table_invD(1))+
  have mem: "ci \<in> set (ct_indexes ct')" using ci wf(1) index_sets(1) [of ct'] by (simp add: tt_wf_def)
  have r: "readableIndex ct' ci x = Ret (cur_tree root (tableTxn_of ct' x) ci)"
      "readableIndex ct' ci (save tt x) = Ret (cur_tree root (tableTxn_of ct' (save tt x)) ci)"
    using readableIndex_cur [OF root wf(1) mem] readableIndex_cur [OF _ wf(2) mem, of root] root by simp_all
  have tab: "tt_table tt = ct" using table_invD(1) [OF t] by (simp add: tt_wf_def)
  show "\<exists>t t'. readableIndex ct' ci x = Ret t \<and> readableIndex ct' ci (save tt x) = Ret t' \<and> (\<forall>k. j_get J t' k =
        (if name' = name \<and> k \<in> set (row_list uni ci pk new) then map_option CRow new
         else if name' = name \<and> k \<in> set (row_list uni ci pk old) then None else j_get J t k))"
  proof (cases "name' = name")
    case True
    then have "ct' = ct" using n ct by simp
    then have "tableTxn_of ct' (save tt x) = tt" using tab by (simp add: tableTxn_of_save)
    then show ?thesis using r e [of ci] ci True \<open>ct' = ct\<close> by simp
  next
    case False
    then have "ct_ord ct' \<noteq> ct_ord ct" using db_okD(3) [OF txn_invD(1) [OF ok] ct n] by blast
    then have "tableTxn_of ct' (save tt x) = tableTxn_of ct' x" using tab by (simp add: tableTxn_of_save)
    then show ?thesis using r False by simp
  qed
qed

lemma readableIndex_record [simp]: "readableIndex ct ci (record_change t b a k x) = readableIndex ct ci x"
  unfolding readableIndex_def tables_of_def record_change_fields ..

lemma last_write_record [simp]:
  "last_write J uni tabs name pk old new x (record_change t b a k x') = last_write J uni tabs name pk old new x x'"
  by (simp add: last_write_def)

context juuri_tree
begin

lemma Insert_spec:
  assumes ok: "txn_inv clean J uni tabs n x V" and w: "x_write x" and ct: "ni_get tabs name = Some ct" and nn: "\<not> is_nil ob"
  shows "case Insert J uni tabs name ob x of
     (TOk _, x') \<Rightarrow> \<exists>pk. indexable uni ct pk ob \<and> x_write x' \<and> x_changes x' = track name (of_row (V name pk)) ob pk (x_changes x) \<and>
       txn_inv (clean(name := clean name \<and> no_clash uni ct ((V name)(pk \<mapsto> ob)))) J uni tabs n x' (V(name := (V name)(pk \<mapsto> ob))) \<and>
       last_write J uni tabs name pk (V name pk) (Some ob) x x'
   | (TErr e, x') \<Rightarrow> (\<forall>pk. \<not> indexable uni ct pk ob) \<and> x_write x' \<and> x_changes x' = x_changes x \<and>
       txn_inv clean J uni tabs n x' V \<and> same_view J tabs x x'
   | (TPanic, x') \<Rightarrow> primaryKey uni ct ob = TPanic \<or> (\<exists>pk. primaryKey uni ct ob = TOk pk \<and> (key_panics uni ct pk ob \<or>
       V name pk = None \<and> (\<exists>root. x_root x = Some root \<and> out_of_ids ct root (tableTxn_of ct x))))"
proof -
  obtain root where root: "x_root x = Some root"
    and ta: "\<forall>name ct. ni_get tabs name = Some ct \<longrightarrow> table_inv (clean name) J uni ct root (tableTxn_of ct x) (V name)"
    using ok unfolding txn_inv_def by blast
  note t = ta [rule_format]
  let ?tt = "tableTxn_of ct x"
  have same: "same_table J ct root ?tt ?tt" using t [OF ct] by (intro same_refl) (simp add: table_inv_def)
  note keep = txn_inv_save_same [OF ok ct root same] same_view_save [OF ok ct root same]
  show ?thesis
  proof (cases "primaryKey uni ct ob")
    case (TErr e)
    then show ?thesis using w ct keep by (simp add: Insert_def Let_def indexable_def)
  next
    case TPanic
    then show ?thesis using w ct by (simp add: Insert_def Let_def)
  next
    case (TOk pk)
    obtain r tt' where ir: "insert_row J uni root ?tt ob pk = (r, tt')" by fastforce
    note spec = insert_row_spec [OF t [OF ct] TOk nn, unfolded ir prod.case]
    have ins: "Insert J uni tabs name ob x = (case r of TErr e \<Rightarrow> (TErr e, save tt' x) | TPanic \<Rightarrow> (TPanic, save tt' x)
        | TOk existing \<Rightarrow> (TOk (), record_change name existing ob pk (save tt' x)))"
      using w ct TOk root ir by (simp add: Insert_def Let_def split: tres.split)
    show ?thesis
    proof (cases r)
      case (TOk ex)
      then have s: "ex = of_row (V name pk)" "indexable uni ct pk ob"
          "table_inv (clean name \<and> no_clash uni ct ((V name)(pk \<mapsto> ob))) J uni ct root tt' ((V name)(pk \<mapsto> ob))"
          "\<And>ci. ci \<in> set (secondary ct) \<Longrightarrow> j_get J (cur_tree root tt' ci) =
            upd_keys ob (row_list uni ci pk (V name pk)) (ikeys uni ci pk ob) (j_get J (cur_tree root ?tt ci))"
        using spec by (simp_all add: of_row_def)
      have "last_write J uni tabs name pk (V name pk) (Some ob) x (save tt' x)"
        by (rule last_write_save [OF ok ct root s(3)]) (simp add: s(4) upd_keys_def row_list_def)
      then show ?thesis unfolding ins TOk using txn_inv_save [OF ok ct root s(3)] s(1,2) w by (auto simp: track_def)
    next
      case (TErr e)
      then have s: "\<not> indexable uni ct pk ob" "same_table J ct root ?tt tt'" using spec by simp_all
      then have "\<not> indexable uni ct q ob" for q using \<open>primaryKey uni ct ob = TOk pk\<close> by (auto simp: indexable_def)
      then show ?thesis unfolding ins TErr
        using txn_inv_save_same [OF ok ct root s(2)] same_view_save [OF ok ct root s(2)] w by simp
    next
      case TPanic
      then show ?thesis unfolding ins using spec root \<open>primaryKey uni ct ob = TOk pk\<close> by auto
    qed
  qed
qed

lemma Delete_spec:
  assumes ok: "txn_inv clean J uni tabs n x V" and w: "x_write x" and ct: "ni_get tabs name = Some ct" and pk: "primaryKey uni ct ob = TOk pk"
  shows "case V name pk of
     None \<Rightarrow> \<exists>x'. Delete J uni tabs name ob x = (TErr ENotFound, x') \<and> x_write x' \<and> x_changes x' = x_changes x \<and>
       txn_inv clean J uni tabs n x' V \<and> same_view J tabs x x'
   | Some ex \<Rightarrow> \<exists>x'. Delete J uni tabs name ob x = (TOk (), x') \<and> x_write x' \<and> x_changes x' = track name ex ONil pk (x_changes x) \<and>
       txn_inv clean J uni tabs n x' (V(name := (V name)(pk := None))) \<and> last_write J uni tabs name pk (Some ex) None x x'"
proof -
  obtain root where root: "x_root x = Some root"
    and ta: "\<forall>name ct. ni_get tabs name = Some ct \<longrightarrow> table_inv (clean name) J uni ct root (tableTxn_of ct x) (V name)"
    using ok unfolding txn_inv_def by blast
  note t = ta [rule_format]
  note spec = delete_row_spec [OF t [OF ct], of pk]
  show ?thesis
  proof (cases "V name pk")
    case None
    then obtain tt' where d: "delete_row J uni root (tableTxn_of ct x) pk = (TErr ENotFound, tt')" "same_table J ct root (tableTxn_of ct x) tt'"
      using spec by auto
    then have "Delete J uni tabs name ob x = (TErr ENotFound, save tt' x)"
      using w ct pk root by (simp add: Delete_def Let_def)
    then show ?thesis using None txn_inv_save_same [OF ok ct root d(2)] same_view_save [OF ok ct root d(2)] w by simp
  next
    case (Some ex)
    then obtain tt' where d: "delete_row J uni root (tableTxn_of ct x) pk = (TOk ex, tt')" "table_inv (clean name) J uni ct root tt' ((V name)(pk := None))"
      "\<And>ci. ci \<in> set (secondary ct) \<Longrightarrow> j_get J (cur_tree root tt' ci) =
         (\<lambda>k. if k \<in> set (ikeys uni ci pk ex) then None else j_get J (cur_tree root (tableTxn_of ct x) ci) k)"
      using spec by auto
    then have "Delete J uni tabs name ob x = (TOk (), record_change name ex ONil pk (save tt' x))"
      using w ct pk root by (simp add: Delete_def Let_def)
    moreover have "last_write J uni tabs name pk (Some ex) None x (save tt' x)"
      by (rule last_write_save [OF ok ct root d(2)]) (simp add: d(3) row_list_def)
    ultimately show ?thesis using Some txn_inv_save [OF ok ct root d(2)] w by (simp add: track_def fun_upd_triv)
  qed
qed

text \<open>
  A call that returns an error, whatever the reason (a read-only transaction, no such table, a key
  that cannot be built, no such row, a nil row), leaves every entry of every index as it was.
\<close>

lemma Insert_error:
  assumes ok: "txn_inv clean J uni tabs n x V" and i: "Insert J uni tabs name ob x = (TErr e, x')"
  shows "txn_inv clean J uni tabs n x' V \<and> same_view J tabs x x' \<and> x_write x' = x_write x \<and> x_changes x' = x_changes x"
proof (cases "x_write x \<and> ni_get tabs name \<noteq> None")
  case False
  then have "x' = x" using i by (auto simp: Insert_def split: if_splits)
  then show ?thesis using ok same_view_refl [OF ok] by simp
next
  case True
  then obtain ct where w: "x_write x" and ct: "ni_get tabs name = Some ct" by blast
  obtain root where root: "x_root x = Some root" and t: "table_inv (clean name) J uni ct root (tableTxn_of ct x) (V name)"
    using txn_inv_root [OF ok] ct by metis
  have "\<exists>tt'. x' = save tt' x \<and> same_table J ct root (tableTxn_of ct x) tt'"
  proof (cases "primaryKey uni ct ob")
    case (TOk pk)
    obtain r tt' where ir: "insert_row J uni root (tableTxn_of ct x) ob pk = (r, tt')" by fastforce
    have "r = TErr e \<and> x' = save tt' x" using i w ct TOk root ir by (auto simp: Insert_def Let_def split: tres.splits)
    then show ?thesis using insert_row_error [OF t] ir by blast
  qed (use i w ct t in \<open>auto simp: Insert_def Let_def table_inv_def intro: same_refl\<close>)
  then obtain tt' where x': "x' = save tt' x" and s: "same_table J ct root (tableTxn_of ct x) tt'" by blast
  show ?thesis unfolding x' using txn_inv_save_same [OF ok ct root s] same_view_save [OF ok ct root s] by simp
qed

lemma Delete_error:
  assumes ok: "txn_inv clean J uni tabs n x V" and d: "Delete J uni tabs name ob x = (TErr e, x')"
  shows "txn_inv clean J uni tabs n x' V \<and> same_view J tabs x x' \<and> x_write x' = x_write x \<and> x_changes x' = x_changes x"
proof (cases "x_write x \<and> ni_get tabs name \<noteq> None")
  case False
  then have "x' = x" using d by (auto simp: Delete_def split: if_splits)
  then show ?thesis using ok same_view_refl [OF ok] by simp
next
  case True
  then obtain ct where w: "x_write x" and ct: "ni_get tabs name = Some ct" by blast
  obtain root where root: "x_root x = Some root" and t: "table_inv (clean name) J uni ct root (tableTxn_of ct x) (V name)"
    using txn_inv_root [OF ok] ct by metis
  show ?thesis
  proof (cases "primaryKey uni ct ob")
    case (TErr e')
    have s: "same_table J ct root (tableTxn_of ct x) (tableTxn_of ct x)" using t by (intro same_refl) (simp add: table_inv_def)
    have "x' = save (tableTxn_of ct x) x" using d w ct TErr by (simp add: Delete_def Let_def)
    then show ?thesis using txn_inv_save_same [OF ok ct root s] same_view_save [OF ok ct root s] by simp
  next
    case TPanic
    then show ?thesis using d w ct by (simp add: Delete_def Let_def)
  next
    case (TOk pk)
    show ?thesis using Delete_spec [OF ok w ct TOk] d w by (auto split: option.splits)
  qed
qed

end

section \<open>Versions of the database\<close>

lemma ct_wf_slot: "ct_wf ct \<Longrightarrow> i < length (ct_indexes ct) \<Longrightarrow> ci_slot (ct_indexes ct ! i) = ci_slot (ct_indexes ct ! 0) + i"
  by (simp add: ct_wf_def)

lemma put_trees_upto:
  assumes wf: "ct_wf (tt_table tt)" and l: "length (tt_idx tt) = length (ct_indexes (tt_table tt))"
    and s: "slots_of (tt_table tt) \<subseteq> {..<length trees}" and m: "m \<le> length (tt_idx tt)"
  shows "let ts = fold (\<lambda>ord ts. case tt_idx tt ! ord of None \<Rightarrow> ts | Some t \<Rightarrow> ts[ci_slot (ct_indexes (tt_table tt) ! ord) := t]) [0..<m] trees
    in length ts = length trees \<and> (\<forall>k. k \<notin> slots_of (tt_table tt) \<longrightarrow> ts ! k = trees ! k) \<and>
      (\<forall>i<length (tt_idx tt). let slot = ci_slot (ct_indexes (tt_table tt) ! i) in
         ts ! slot = (case tt_idx tt ! i of Some t \<Rightarrow> if i < m then t else trees ! slot | None \<Rightarrow> trees ! slot))"
  using m
proof (induction m)
  case 0
  then show ?case by (auto simp: Let_def split: option.split)
next
  case (Suc m)
  let ?ct = "tt_table tt"
  have ml: "m < length (ct_indexes ?ct)" using Suc.prems l by simp
  have mem: "ci_slot (ct_indexes ?ct ! m) \<in> slots_of ?ct" using ml by (simp add: slots_of_def)
  then have lt: "ci_slot (ct_indexes ?ct ! m) < length trees" using s by auto
  have inj: "ci_slot (ct_indexes ?ct ! m) = ci_slot (ct_indexes ?ct ! i) \<longleftrightarrow> m = i" if "i < length (tt_idx tt)" for i
    using ct_wf_slot [OF wf] ml that l by simp
  show ?case
  proof (cases "tt_idx tt ! m")
    case None
    then show ?thesis using Suc.IH Suc.prems by (auto simp: Let_def less_Suc_eq split: option.split)
  next
    case (Some t)
    then show ?thesis using Suc.IH Suc.prems mem lt inj by (auto simp: Let_def less_Suc_eq nth_list_update split: option.split)
  qed
qed

lemma put_trees_nth:
  assumes wf: "tt_wf ct tt" and s: "slots_of ct \<subseteq> {..<length trees}"
  shows "length (put_trees tt trees) = length trees"
    "k \<notin> slots_of ct \<Longrightarrow> put_trees tt trees ! k = trees ! k"
    "ci \<in> set (ct_indexes ct) \<Longrightarrow> put_trees tt trees ! ci_slot ci =
       (case tt_idx tt ! ci_ord ci of Some t \<Rightarrow> t | None \<Rightarrow> trees ! ci_slot ci)"
proof -
  have t: "tt_table tt = ct" "ct_wf ct" "length (tt_idx tt) = length (ct_indexes ct)" using wf by (simp_all add: tt_wf_def)
  note p = put_trees_upto [of tt trees "length (tt_idx tt)", folded put_trees_def, unfolded t(1), OF t(2,3) s order_refl]
  show "length (put_trees tt trees) = length trees" using p unfolding Let_def by blast
  show "k \<notin> slots_of ct \<Longrightarrow> put_trees tt trees ! k = trees ! k" using p unfolding Let_def by blast
  assume ci: "ci \<in> set (ct_indexes ct)"
  note o = ct_wf_ord [OF t(2) ci]
  have "ci_ord ci < length (tt_idx tt)" using o(1) t(3) by simp
  then show "put_trees tt trees ! ci_slot ci = (case tt_idx tt ! ci_ord ci of Some t \<Rightarrow> t | None \<Rightarrow> trees ! ci_slot ci)"
    using p unfolding Let_def by (auto simp: o(2) split: option.split)
qed

text \<open>All written tables: the trees of a table are those the transaction sees.\<close>

lemma fold_put_trees:
  assumes "db_ok tabs n" and "tables_ok tabs tts" and "\<And>tt. tt \<in> set tts \<Longrightarrow> tt_wf (tt_table tt) tt" and "length trees = n"
  shows "length (fold put_trees tts trees) = n \<and> (\<forall>name ct ci. ni_get tabs name = Some ct \<longrightarrow> ci \<in> set (ct_indexes ct) \<longrightarrow>
    fold put_trees tts trees ! ci_slot ci =
      (case (case find_tt (ct_ord ct) tts of None \<Rightarrow> None | Some tt \<Rightarrow> tt_idx tt ! ci_ord ci) of Some t \<Rightarrow> t | None \<Rightarrow> trees ! ci_slot ci))"
  using assms(2-)
proof (induction tts arbitrary: trees)
  case Nil
  then show ?case by simp
next
  case (Cons tt tts)
  obtain name where name: "ni_get tabs name = Some (tt_table tt)" using Cons.prems(1) by (auto simp: tables_ok_def)
  have tok: "tables_ok tabs tts" using Cons.prems(1) by (simp add: tables_ok_def)
  have wf: "tt_wf (tt_table tt) tt" using Cons.prems(2) by simp
  have sl: "slots_of (tt_table tt) \<subseteq> {..<length trees}" using db_okD(2) [OF assms(1) name] Cons.prems(3) by simp
  note p = put_trees_nth [OF wf sl]
  have ih: "length (fold put_trees tts (put_trees tt trees)) = n \<and> (\<forall>name ct ci. ni_get tabs name = Some ct \<longrightarrow> ci \<in> set (ct_indexes ct) \<longrightarrow>
    fold put_trees tts (put_trees tt trees) ! ci_slot ci =
      (case (case find_tt (ct_ord ct) tts of None \<Rightarrow> None | Some tt \<Rightarrow> tt_idx tt ! ci_ord ci) of Some t \<Rightarrow> t | None \<Rightarrow> put_trees tt trees ! ci_slot ci))"
    using Cons.IH [OF tok, of "put_trees tt trees"] Cons.prems(2,3) p(1) by simp
  have "fold put_trees (tt # tts) trees ! ci_slot ci =
      (case (case find_tt (ct_ord ct) (tt # tts) of None \<Rightarrow> None | Some tt \<Rightarrow> tt_idx tt ! ci_ord ci) of Some t \<Rightarrow> t | None \<Rightarrow> trees ! ci_slot ci)"
    if n: "ni_get tabs name' = Some ct" and ci: "ci \<in> set (ct_indexes ct)" for name' ct ci
  proof (cases "name' = name")
    case True
    then have ct: "ct = tt_table tt" using n name by simp
    have "find_tt (ct_ord ct) tts = None"
    proof (rule ccontr)
      assume "find_tt (ct_ord ct) tts \<noteq> None"
      then obtain u where u: "find_tt (ct_ord ct) tts = Some u" by blast
      show False using find_tt_table [OF tok u] Cons.prems(1) ct by (auto simp: tables_ok_def image_iff)
    qed
    then show ?thesis using ih n ci p(3) ct by (auto split: option.split)
  next
    case False
    then have d: "ct_ord ct \<noteq> ct_ord (tt_table tt)" "slots_of ct \<inter> slots_of (tt_table tt) = {}"
      using db_okD(3) [OF assms(1) name n] by auto
    have "ci_slot ci \<in> slots_of ct" using ci by (simp add: slots_of_def)
    then have e: "put_trees tt trees ! ci_slot ci = trees ! ci_slot ci" using d(2) p(2) by blast
    have "fold put_trees tts (put_trees tt trees) ! ci_slot ci =
      (case (case find_tt (ct_ord ct) tts of None \<Rightarrow> None | Some tt \<Rightarrow> tt_idx tt ! ci_ord ci) of Some t \<Rightarrow> t | None \<Rightarrow> put_trees tt trees ! ci_slot ci)"
      using ih n ci by blast
    then show ?thesis unfolding e using d(1) by simp
  qed
  then show ?case using ih by simp
qed

lemma withRows_nth:
  assumes "tables_ok tabs tts"
  shows "withRows tts None = None"
    "m < length rs \<Longrightarrow> \<exists>rs'. withRows tts (Some rs) = Some rs' \<and> length rs' = length rs \<and>
      rs' ! m = (case (case find_tt m tts of None \<Rightarrow> None | Some tt \<Rightarrow> tt_rows tt) of Some r \<Rightarrow> Some r | None \<Rightarrow> rs ! m)"
proof -
  show "withRows tts None = None" by (induction tts) (simp_all add: withRows_def split: option.split)
  show "\<exists>rs'. withRows tts (Some rs) = Some rs' \<and> length rs' = length rs \<and>
      rs' ! m = (case (case find_tt m tts of None \<Rightarrow> None | Some tt \<Rightarrow> tt_rows tt) of Some r \<Rightarrow> Some r | None \<Rightarrow> rs ! m)"
    if "m < length rs" using assms that
  proof (induction tts arbitrary: rs)
    case Nil
    then show ?case by (simp add: withRows_def)
  next
    case (Cons tt tts)
    have tok: "tables_ok tabs tts" using Cons.prems(1) by (simp add: tables_ok_def)
    let ?rs = "case tt_rows tt of None \<Rightarrow> rs | Some r \<Rightarrow> rs[ct_ord (tt_table tt) := Some r]"
    have st: "withRows (tt # tts) (Some rs) = withRows tts (Some ?rs)" by (simp add: withRows_def split: option.split)
    have len: "m < length ?rs" "length ?rs = length rs" using Cons.prems(2) by (simp_all split: option.split)
    obtain rs' where ih: "withRows tts (Some ?rs) = Some rs'" "length rs' = length ?rs"
        "rs' ! m = (case (case find_tt m tts of None \<Rightarrow> None | Some tt \<Rightarrow> tt_rows tt) of Some r \<Rightarrow> Some r | None \<Rightarrow> ?rs ! m)"
      using Cons.IH [OF tok len(1)] by blast
    have "find_tt m tts = None" if "m = ct_ord (tt_table tt)"
    proof (rule ccontr)
      assume "find_tt m tts \<noteq> None"
      then obtain u where u: "find_tt m tts = Some u" by blast
      show False using find_tt_table [OF tok u] Cons.prems(1) that by (auto simp: tables_ok_def image_iff)
    qed
    then show ?case unfolding st using ih len Cons.prems(2)
      by (auto simp: nth_list_update split: option.splits)
  qed
qed

end
