(* ===== verification/Versions.thy ===== *)
theory Versions
  imports TxnInv
begin

text \<open>
  The invariant across transactions: a new database satisfies it, and a transaction begun on
  the version a commit publishes (or on a snapshot) sees the rows of the transaction it came
  from.
\<close>

section \<open>The next version\<close>

definition fresh_tt :: "compiledTable \<Rightarrow> 't tableTxn" where
  "fresh_tt ct = \<lparr>tt_table = ct, tt_idx = replicate (length (ct_indexes ct)) None, tt_rows = None\<rparr>"

lemma tableTxn_of_fresh: "tables_of x = [] \<Longrightarrow> tableTxn_of ct x = fresh_tt ct"
  by (simp add: tableTxn_of_def fresh_tt_def)

lemma fresh_wf: "ct_wf ct \<Longrightarrow> tt_wf ct (fresh_tt ct)"
  by (simp add: tt_wf_def fresh_tt_def)

lemma cur_tree_fresh: "ct_wf ct \<Longrightarrow> ci \<in> set (ct_indexes ct) \<Longrightarrow> cur_tree root (fresh_tt ct) ci = d_trees root ! ci_slot ci"
  using ct_wf_ord(1) [of ct ci] by (simp add: cur_tree_def fresh_tt_def)

lemma table_ok_transfer:
  assumes ok: "table_ok J uni ct root tt R" and wf: "tt_wf ct tt'"
    and trees: "\<And>ci. ci \<in> set (ct_indexes ct) \<Longrightarrow> cur_tree root' tt' ci = cur_tree root tt ci"
    and rows: "has_bitmaps ct \<Longrightarrow> rowsOf root' tt' = rowsOf root tt"
  shows "table_ok J uni ct root' tt' R"
proof -
  have "ct_wf ct" using wf by (simp add: tt_wf_def)
  note s = index_sets(1) [OF this]
  show ?thesis
    unfolding table_inv_def
  proof (intro conjI allI ballI impI)
    show "tt_wf ct tt'" by (rule wf)
    show "j_get J (cur_tree root' tt' (id_index ct)) pk = map_option CRow (R pk)" for pk
      using trees [of "id_index ct"] table_okD(2) [OF ok] by (simp add: s)
    show "index_ok J uni ci (cur_tree root' tt' ci) R" if "ci \<in> set (secondary ct)" for ci
      using trees [of ci] table_okD(3) [OF ok that] that by (simp add: s)
    show "\<exists>r. rowsOf root' tt' = Ret r \<and> bits_ok J uni ct (cur_tree root' tt') r R" if "has_bitmaps ct"
      using table_okD(4) [OF ok that] rows [OF that] bits_ok_cong [of ct J "cur_tree root' tt'" "cur_tree root tt"] trees
      by (auto simp: s)
    show "indexable uni ct pk ob" if "R pk = Some ob" for pk ob by (rule table_okD(5) [OF ok that])
    show "no_clash uni ct R" by (rule table_okD(6) [OF ok])
  qed
qed

text \<open>A version of the database that holds the rows \<open>V\<close>.\<close>

definition version_ok :: "'t juuri \<Rightarrow> (bytes \<Rightarrow> bytes) \<Rightarrow> compiledTable nameIndex \<Rightarrow> nat \<Rightarrow> 't dbRoot \<Rightarrow> rows \<Rightarrow> bool" where
  "version_ok J uni tabs n root V \<longleftrightarrow> db_ok tabs n \<and> root_ok tabs n root \<and>
     (\<forall>name ct. ni_get tabs name = Some ct \<longrightarrow> table_ok J uni ct root (fresh_tt ct) (V name))"

lemma version_txn:
  assumes "version_ok J uni tabs n root V" and "x_root x = Some root" and "tables_of x = []"
  shows "txn_ok J uni tabs n x V"
  using assms tableTxn_of_fresh [OF assms(3)] by (simp add: version_ok_def txn_inv_def tables_ok_def)

lemma next_root_ok:
  assumes ok: "txn_ok J uni tabs n x V" and root: "x_root x = Some root"
  shows "version_ok J uni tabs n (next_root root (tables_of x)) V"
proof -
  have db: "db_ok tabs n" and tabs: "tables_ok tabs (tables_of x)" by (rule txn_invD [OF ok])+
  have ro: "root_ok tabs n root"
    and t: "\<And>name ct. ni_get tabs name = Some ct \<Longrightarrow> table_ok J uni ct root (tableTxn_of ct x) (V name)"
    using ok root by (auto simp: txn_inv_def)
  have mem: "tt_wf (tt_table tt) tt" if "tt \<in> set (tables_of x)" for tt
  proof -
    obtain name where "ni_get tabs name = Some (tt_table tt)" using tabs \<open>tt \<in> set (tables_of x)\<close> by (auto simp: tables_ok_def)
    then have "tt_wf (tt_table tt) (tableTxn_of (tt_table tt) x)" using t table_okD(1) by blast
    then show ?thesis using find_tt_mem [OF tabs that] by (simp add: tableTxn_of_def)
  qed
  have len: "length (d_trees root) = n" using ro by (simp add: root_ok_def)
  note fp = fold_put_trees [OF db tabs mem len]
  let ?root = "next_root root (tables_of x)"
  have ext: "d_ext ?root = withRows (tables_of x) (d_ext root)" by (simp add: next_root_def)
  have rows: "\<exists>rs. d_ext ?root = Some rs \<and> ct_ord ct < length rs \<and> rowsOf ?root (fresh_tt ct) = rowsOf root (tableTxn_of ct x)"
    if n: "ni_get tabs name = Some ct" and b: "has_bitmaps ct" for name ct
  proof -
    obtain rs where rs: "d_ext root = Some rs" "ct_ord ct < length rs" using ro n b by (auto simp: root_ok_def)
    obtain rs' where rs': "withRows (tables_of x) (Some rs) = Some rs'" "length rs' = length rs"
        "rs' ! ct_ord ct = (case (case find_tt (ct_ord ct) (tables_of x) of None \<Rightarrow> None | Some tt \<Rightarrow> tt_rows tt) of Some r \<Rightarrow> Some r | None \<Rightarrow> rs ! ct_ord ct)"
      using withRows_nth(2) [OF tabs rs(2)] by blast
    have tab: "tt_table (tableTxn_of ct x) = ct" using t [OF n] by (simp add: table_inv_def tt_wf_def)
    have "rowsOf ?root (fresh_tt ct) = rowsOf root (tableTxn_of ct x)"
    proof (cases "find_tt (ct_ord ct) (tables_of x)")
      case None
      then show ?thesis using rs rs' ext by (simp add: rowsOf_def fresh_tt_def tableTxn_of_def)
    next
      case (Some tt)
      then have "tableTxn_of ct x = tt" by (simp add: tableTxn_of_def)
      then show ?thesis using Some rs rs' ext tab by (auto simp: rowsOf_def fresh_tt_def split: option.splits)
    qed
    then show ?thesis using rs rs' ext by simp
  qed
  have "table_ok J uni ct ?root (fresh_tt ct) (V name)" if name: "ni_get tabs name = Some ct" for name ct
  proof (rule table_ok_transfer [OF t [OF name]])
    have wf: "ct_wf ct" by (rule db_okD(1) [OF db name])
    show "tt_wf ct (fresh_tt ct)" by (rule fresh_wf [OF wf])
    show "rowsOf ?root (fresh_tt ct) = rowsOf root (tableTxn_of ct x)" if "has_bitmaps ct" using rows [OF name that] by blast
    fix ci assume ci: "ci \<in> set (ct_indexes ct)"
    have "cur_tree ?root (fresh_tt ct) ci = fold put_trees (tables_of x) (d_trees root) ! ci_slot ci"
      by (subst cur_tree_fresh [OF wf ci]) (simp add: next_root_def)
    also have "\<dots> = cur_tree root (tableTxn_of ct x) ci"
      using fp name ci ct_wf_ord(1) [OF wf ci] by (auto simp: cur_tree_def tableTxn_of_def split: option.split)
    finally show "cur_tree ?root (fresh_tt ct) ci = cur_tree root (tableTxn_of ct x) ci" .
  qed
  moreover have "root_ok tabs n ?root"
    unfolding root_ok_def
  proof (intro conjI allI impI)
    show "length (d_trees ?root) = n" using fp by (simp add: next_root_def)
    show "\<exists>rs. d_ext ?root = Some rs \<and> ct_ord ct < length rs" if "ni_get tabs name = Some ct" "has_bitmaps ct" for name ct
      using rows [OF that] by blast
  qed
  ultimately show ?thesis using db by (simp add: version_ok_def)
qed

lemma next_root_None: "x_tables x = None \<Longrightarrow> next_root root (tables_of x) = root"
  by (simp add: next_root_def tables_of_def withRows_def)

section \<open>A new database\<close>

lemma ni_get_entry: "ni_get x name = Some v \<Longrightarrow> (name, v) \<in> set (entries x)"
  by (auto simp: ni_get_def Let_def scan_map_of split: if_splits dest!: map_of_SomeD in_set_takeD in_set_dropD)

text \<open>newRootExt has an entry with empty bookkeeping for every table with bitmap indexes.\<close>

definition no_rows :: "'t juuri \<Rightarrow> 't tableRows" where
  "no_rows J = \<lparr>r_ids = j_new J, r_rows = empty_vector, r_all = None, r_free = None, r_next = 0\<rparr>"

lemma newRootExt_fold:
  assumes "i < m" and "\<forall>rs. rows0 = Some rs \<longrightarrow> length rs = m"
    and "(\<exists>e\<in>set es. ct_classic (snd e) \<noteq> length (ct_indexes (snd e)) \<and> ct_ord (snd e) = i) \<or>
      (\<exists>rs. rows0 = Some rs \<and> rs ! i = Some (no_rows J))"
  shows "\<exists>rs. fold (\<lambda>e ext. let ct = snd e in
       if ct_classic ct = length (ct_indexes ct) then ext
       else let rows = (case ext of None \<Rightarrow> replicate m None | Some rows \<Rightarrow> rows) in Some (rows[ct_ord ct := Some (no_rows J)])) es rows0 = Some rs \<and>
     length rs = m \<and> rs ! i = Some (no_rows J)"
  using assms(2-)
proof (induction es arbitrary: rows0)
  case Nil
  then show ?case by auto
next
  case (Cons e es)
  let ?ct = "snd e"
  show ?case
  proof (cases "ct_classic ?ct = length (ct_indexes ?ct)")
    case True
    then show ?thesis using Cons.IH [of rows0] Cons.prems by (simp add: Let_def)
  next
    case False
    define rs1 where "rs1 = (case rows0 of None \<Rightarrow> replicate m None | Some rows \<Rightarrow> rows)[ct_ord ?ct := Some (no_rows J)]"
    have l: "length rs1 = m" using Cons.prems(1) by (simp add: rs1_def split: option.split)
    have "(\<exists>e\<in>set es. ct_classic (snd e) \<noteq> length (ct_indexes (snd e)) \<and> ct_ord (snd e) = i) \<or> rs1 ! i = Some (no_rows J)"
      using Cons.prems assms(1) by (cases "ct_ord ?ct = i") (auto simp: rs1_def split: option.split)
    then show ?thesis using Cons.IH [of "Some rs1"] l False by (simp add: Let_def rs1_def)
  qed
qed

context juuri_tree
begin

lemma rows_ok_new: "rows_ok J (no_rows J) Map.empty"
proof -
  have "idof J (no_rows J) = Map.empty" by (rule ext) (simp add: idof_def no_rows_def)
  moreover have "Get empty_vector i = None" for i :: uint32 by (simp add: Get_def leaf_def empty_vector_def)
  ultimately show ?thesis by (auto simp: rows_ok_def ids_of_def no_rows_def)
qed

lemma new_version_ok:
  assumes "schema_valid sch" and "compileSchema sch = Ret (Inr (tabs, n))"
  shows "version_ok J uni tabs n (newDBRoot J tabs n) (\<lambda>_. Map.empty)"
proof -
  have db: "db_ok tabs n" and all: "\<And>name. case map_of sch name of None \<Rightarrow> ni_get tabs name = None
      | Some ts \<Rightarrow> (\<exists>ct. ni_get tabs name = Some ct \<and> follows_schema ct ts)"
    and ords: "\<And>name ct. ni_get tabs name = Some ct \<Longrightarrow> ct_ord ct < length sch"
    using compiled_tables [OF assms] by blast+
  let ?root = "newDBRoot J tabs n"
  have ext: "\<exists>rs. d_ext ?root = Some rs \<and> ct_ord ct < length rs \<and> rs ! ct_ord ct = Some (no_rows J)"
    if name: "ni_get tabs name = Some ct" and b: "has_bitmaps ct" for name ct
  proof -
    have "(name, ct) \<in> set (entries tabs)" by (rule ni_get_entry [OF name])
    then have e: "\<exists>e\<in>set (entries tabs). ct_classic (snd e) \<noteq> length (ct_indexes (snd e)) \<and> ct_ord (snd e) = ct_ord ct"
      using b by (force simp: has_bitmaps_def)
    have "fst ` set sch \<subseteq> fst ` set (entries tabs)"
    proof
      fix m assume "m \<in> fst ` set sch"
      then obtain ts where "map_of sch m = Some ts" by (metis map_of_eq_None_iff not_None_eq)
      then obtain c where "ni_get tabs m = Some c" using all [of m] by auto
      then show "m \<in> fst ` set (entries tabs)" using ni_get_entry by force
    qed
    then have "card (set (map fst sch)) \<le> card (set (map fst (entries tabs)))" by (intro card_mono) auto
    also have "\<dots> \<le> length (entries tabs)" using card_length [of "map fst (entries tabs)"] by simp
    finally have "length sch \<le> length (entries tabs)"
      using assms(1) by (simp add: schema_valid_def distinct_card flip: set_map)
    then have o1: "ct_ord ct < length (entries tabs)" using ords [OF name] by simp
    show ?thesis
      using newRootExt_fold [of "ct_ord ct" "length (entries tabs)" None "entries tabs" J] e o1
      unfolding newDBRoot_def newRootExt_def no_rows_def [symmetric] by auto
  qed
  have "table_ok J uni ct ?root (fresh_tt ct) Map.empty" if name: "ni_get tabs name = Some ct" for name ct
  proof -
    have wf: "ct_wf ct" by (rule db_okD(1) [OF db name])
    have emp: "cur_tree ?root (fresh_tt ct) ci = j_new J" if "ci \<in> set (ct_indexes ct)" for ci
    proof -
      have "ci_slot ci < n" using db_okD(2) [OF db name] that by (auto simp: slots_of_def)
      then show ?thesis by (subst cur_tree_fresh [OF wf that]) (simp add: newDBRoot_def)
    qed
    show ?thesis unfolding table_inv_def
    proof (intro conjI allI ballI impI)
      show "tt_wf ct (fresh_tt ct)" by (rule fresh_wf [OF wf])
      show "j_get J (cur_tree ?root (fresh_tt ct) (id_index ct)) pk = map_option CRow (Map.empty pk)" for pk
        using emp [of "id_index ct"] id_secondary(1) [OF wf] by simp
      show "index_ok J uni ci (cur_tree ?root (fresh_tt ct) ci) Map.empty" if "ci \<in> set (secondary ct)" for ci
        using emp [of ci] that index_sets(1) [OF wf] by (simp add: index_ok_def)
      show "\<exists>r. rowsOf ?root (fresh_tt ct) = Ret r \<and> bits_ok J uni ct (cur_tree ?root (fresh_tt ct)) r Map.empty" if b: "has_bitmaps ct"
      proof -
        obtain rs where rs: "d_ext ?root = Some rs" "rs ! ct_ord ct = Some (no_rows J)" using ext [OF name b] by blast
        have "rowsOf ?root (fresh_tt ct) = Ret (no_rows J)" using rs by (simp add: rowsOf_def fresh_tt_def)
        moreover have "sets_ok J (j_new J) \<and> setT J (j_new J) = members J uni ci (no_rows J) Map.empty" for ci
          by (auto simp: sets_ok_new setT_def members_def fun_eq_iff)
        ultimately show ?thesis using rows_ok_new emp index_sets(1) [OF wf] by (auto simp: bits_ok_def)
      qed
    qed (simp_all add: no_clash_def)
  qed
  moreover have "root_ok tabs n ?root" using ext by (fastforce simp: root_ok_def newDBRoot_def)
  ultimately show ?thesis using db by (simp add: version_ok_def)
qed

end

end
