(* ===== verification/TxnSpec.thy ===== *)
theory TxnSpec
  imports Versions
begin

text \<open>
  The properties of databases and transactions: creation, Insert, Delete, Commit, Abort,
  Snapshot and Defer. They assume the laws of the tree library; the witnesses use red-black
  trees and a database of persons with an index of each kind.
\<close>

section \<open>A sample database\<close>

definition sample_root :: "(bytes, cell) RBT.rbt dbRoot" where
  "sample_root = newDBRoot rbt_juuri sample_tables 3"

definition sample_txn :: "(bytes, cell) RBT.rbt txn" where
  "sample_txn = \<lparr>x_root = Some sample_root, x_write = True, x_tables = None, x_after = None, x_afterMore = None, x_changes = Some []\<rparr>"

definition sample_ct :: compiledTable where
  "sample_ct = the (ni_get sample_tables ''person'')"

definition same_case :: "bytes \<Rightarrow> bytes" where
  "same_case s = s"

definition person :: "bytes \<Rightarrow> bytes \<Rightarrow> bytes \<Rightarrow> obj" where
  "person i name status = OPtr 0 (map (\<lambda>(n, v). \<lparr>fd_name = n, fd_exported = True, fd_embed_exported = True, fd_path = Direct, fd_type = [], fd_val = VString v\<rparr>)
     [(''ID'', i), (''Name'', name), (''Status'', status)])"

text \<open>A person without a name cannot be indexed.\<close>

definition ann :: obj where "ann = person [1] [97] [9]"
definition nameless :: obj where "nameless = person [2] [] [9]"

lemma sample_version: "version_ok rbt_juuri same_case sample_tables 3 sample_root (\<lambda>_. Map.empty)"
  unfolding sample_root_def
  by (rule juuri_tree.new_version_ok [OF rbt.juuri_tree_axioms sample_valid sample_compiles])

lemma sample_ok: "txn_ok rbt_juuri same_case sample_tables 3 sample_txn (\<lambda>_. Map.empty)"
  by (rule version_txn [OF sample_version]) (simp_all add: sample_txn_def tables_of_def)

lemma sample_get: "ni_get sample_tables ''person'' = Some sample_ct"
proof -
  have "(case ni_get sample_tables ''person'' of None \<Rightarrow> False | Some _ \<Rightarrow> True)" by code_simp
  then show ?thesis by (auto simp: sample_ct_def split: option.splits)
qed

lemma ann_key: "primaryKey same_case sample_ct ann = TOk [1, 0]"
  by code_simp

lemma ann_indexable: "indexable same_case sample_ct [1, 0] ann"
proof -
  have "\<forall>ci\<in>set (secondary sample_ct). row_keys same_case ci (key_suffix ci [1, 0]) ann = Ok (Some [[97, 0, 1, 0]])" by code_simp
  moreover have "\<forall>ci\<in>set (bitmap_indexes sample_ct). row_keys same_case ci [] ann = Ok (Some [[9, 0]])" by code_simp
  moreover have "\<not> is_nil ann" by code_simp
  ultimately show ?thesis using ann_key by (simp add: indexable_def has_key_def)
qed

lemma one_row_no_clash: "no_clash uni ct (Map.empty(pk \<mapsto> ob))"
  by (auto simp: no_clash_def split: if_splits)

section \<open>Databases\<close>

text \<open>
  NewMemDB on a valid schema returns a database, and the first transaction on it finds every
  table of the schema empty and in order: the trees of all its indexes and the bookkeeping of
  its bitmap indexes are those of a table without rows.
\<close>
theorem new_database:
  assumes "juuri_laws J" and "schema_valid sch"
  shows "NewMemDB J (Some sch) \<noteq> Panic \<and> (\<forall>db x db'. NewMemDB J (Some sch) = Ret (Inr db) \<longrightarrow> db_Txn w db = Some (x, db') \<longrightarrow>
    (\<exists>n. txn_ok J uni (db_tables db) n x (\<lambda>_. Map.empty)))"
proof (cases "compileSchema sch")
  case Panic
  then show ?thesis using compileSchema_runs [OF assms(2)] by blast
next
  case (Ret r)
  have v: "DBSchema_Validate (Some sch) = None" using assms(2) by (simp add: schema_valid_def)
  show ?thesis
  proof (cases r)
    case (Inl e)
    then show ?thesis using Ret v by (simp add: NewMemDB_def)
  next
    case (Inr p)
    then obtain tabs n where c: "compileSchema sch = Ret (Inr (tabs, n))" using Ret by (cases p) auto
    have v0: "version_ok J uni tabs n (newDBRoot J tabs n) (\<lambda>_. Map.empty)"
      by (rule juuri_tree.new_version_ok [OF juuri_tree.intro [OF assms(1)] assms(2) c])
    have "txn_ok J uni tabs n x (\<lambda>_. Map.empty)" if "x_root x = Some (newDBRoot J tabs n)" "x_tables x = None" for x
      by (rule version_txn [OF v0 that(1)]) (simp add: tables_of_def that(2))
    then have "\<exists>m. txn_ok J uni tabs m x (\<lambda>_. Map.empty)" if "x_root x = Some (newDBRoot J tabs n)" "x_tables x = None" for x
      using that by blast
    then show ?thesis using v c by (auto simp: NewMemDB_def db_Txn_def Let_def split: if_splits)
  qed
qed

lemma new_database_witness:
  "\<exists>db x db'. NewMemDB rbt_juuri (Some sample_schema) = Ret (Inr db) \<and> db_Txn True db = Some (x, db') \<and>
     (\<exists>n. txn_ok rbt_juuri same_case (db_tables db) n x (\<lambda>_. Map.empty))"
proof -
  have "DBSchema_Validate (Some sample_schema) = None" using sample_valid by (simp add: schema_valid_def)
  then have "\<exists>db x db'. NewMemDB rbt_juuri (Some sample_schema) = Ret (Inr db) \<and> db_Txn True db = Some (x, db')"
    by (simp add: NewMemDB_def sample_compiles db_Txn_def)
  then show ?thesis using new_database [OF rbt_laws sample_valid, of True same_case] by blast
qed

section \<open>Writes\<close>

lemma Insert_effect:
  assumes "juuri_laws J" and "txn_inv clean J uni tabs n x V" and "ni_get tabs name = Some ct" and "\<not> is_nil ob"
    and "primaryKey uni ct ob = TOk pk" and "Insert J uni tabs name ob x = (TOk (), x')"
  shows "txn_inv (clean(name := clean name \<and> no_clash uni ct ((V name)(pk \<mapsto> ob)))) J uni tabs n x' (V(name := (V name)(pk \<mapsto> ob)))"
    "last_write J uni tabs name pk (V name pk) (Some ob) x x'" "x_write x'"
    "x_changes x' = track name (of_row (V name pk)) ob pk (x_changes x)" "indexable uni ct pk ob"
proof -
  have w: "x_write x" using assms(6) by (auto simp: Insert_def split: if_splits)
  note spec = juuri_tree.Insert_spec [OF juuri_tree.intro [OF assms(1)] assms(2) w assms(3,4), unfolded assms(6) tres.case prod.case]
  then obtain q where q: "indexable uni ct q ob" "x_write x'" "x_changes x' = track name (of_row (V name q)) ob q (x_changes x)"
      "txn_inv (clean(name := clean name \<and> no_clash uni ct ((V name)(q \<mapsto> ob)))) J uni tabs n x' (V(name := (V name)(q \<mapsto> ob)))"
      "last_write J uni tabs name q (V name q) (Some ob) x x'" by blast
  moreover from q(1) have "q = pk" using assms(5) by (simp add: indexable_def)
  ultimately show "txn_inv (clean(name := clean name \<and> no_clash uni ct ((V name)(pk \<mapsto> ob)))) J uni tabs n x' (V(name := (V name)(pk \<mapsto> ob)))"
    "last_write J uni tabs name pk (V name pk) (Some ob) x x'" "x_write x'"
    "x_changes x' = track name (of_row (V name pk)) ob pk (x_changes x)" "indexable uni ct pk ob" by simp_all
qed

lemma Insert_rows:
  assumes "juuri_laws J" and "txn_ok J uni tabs n x V" and "ni_get tabs name = Some ct" and "\<not> is_nil ob"
    and "primaryKey uni ct ob = TOk pk" and "no_clash uni ct ((V name)(pk \<mapsto> ob))"
    and "Insert J uni tabs name ob x = (TOk (), x')"
  shows "txn_ok J uni tabs n x' (V(name := (V name)(pk \<mapsto> ob)))"
proof -
  have "(\<lambda>_. True)(name := True \<and> no_clash uni ct ((V name)(pk \<mapsto> ob))) = (\<lambda>_. True)" using assms(6) by auto
  then show ?thesis using Insert_effect(1) [OF assms(1-5,7)] by metis
qed

text \<open>
  C1: what a successful Insert of a row that is not nil makes of the database, whether or not the
  row clashes with others. Afterwards the primary index, every bitmap index and the row bookkeeping
  of every table are those of the tables with the row under its primary key. The secondary indexes
  of the table are those of its rows as long as no two rows of it have shared a key of one
  (\<open>clean\<close>, which the Insert keeps exactly when it makes no two rows share a key); uniqueness is not
  checked. And in any case every key of the new row leads to the new row, whichever row had the
  key before (the last write wins), the other keys of the row it replaces are gone, and every other
  entry of every secondary index of every table stays as it was.
\<close>
theorem Insert_keeps:
  assumes "juuri_laws J" and "txn_inv clean J uni tabs n x V" and "ni_get tabs name = Some ct" and "\<not> is_nil ob"
    and "primaryKey uni ct ob = TOk pk" and "Insert J uni tabs name ob x = (TOk (), x')"
  shows "txn_inv (clean(name := clean name \<and> no_clash uni ct ((V name)(pk \<mapsto> ob)))) J uni tabs n x' (V(name := (V name)(pk \<mapsto> ob))) \<and>
    last_write J uni tabs name pk (V name pk) (Some ob) x x'"
  using Insert_effect(1,2) [OF assms] by (rule conjI)

text \<open>
  C3: an Insert that returns an error leaves the transaction as it was: every index has the
  entries it had, no change is recorded, and the row is indeed one that cannot be indexed.
\<close>
theorem Insert_fails_clean:
  assumes "juuri_laws J" and "txn_ok J uni tabs n x V" and "x_write x" and "ni_get tabs name = Some ct" and "\<not> is_nil ob"
    and "Insert J uni tabs name ob x = (TErr e, x')"
  shows "txn_ok J uni tabs n x' V \<and> same_view J tabs x x' \<and> x_changes x' = x_changes x \<and> (\<forall>pk. \<not> indexable uni ct pk ob)"
  using juuri_tree.Insert_spec [OF juuri_tree.intro [OF assms(1)] assms(2-5), unfolded assms(6) tres.case prod.case] by blast

lemma nameless_fails: "\<exists>x'. Insert rbt_juuri same_case sample_tables ''person'' nameless sample_txn = (TErr (EMissingValue ''name''), x')"
proof -
  have "(case Insert rbt_juuri same_case sample_tables ''person'' nameless sample_txn of (TErr e, _) \<Rightarrow> e = EMissingValue ''name'' | _ \<Rightarrow> False)"
    by code_simp
  then show ?thesis by (auto split: tres.splits)
qed

lemma Insert_fails_clean_witness:
  "\<exists>x'. Insert rbt_juuri same_case sample_tables ''person'' nameless sample_txn = (TErr (EMissingValue ''name''), x') \<and>
     same_view rbt_juuri sample_tables sample_txn x' \<and> \<not> indexable same_case sample_ct [2, 0] nameless"
proof -
  obtain x' where x': "Insert rbt_juuri same_case sample_tables ''person'' nameless sample_txn = (TErr (EMissingValue ''name''), x')"
    using nameless_fails by blast
  have "x_write sample_txn" "\<not> is_nil nameless" by code_simp+
  then show ?thesis using Insert_fails_clean [OF rbt_laws sample_ok _ sample_get _ x'] x' by blast
qed

text \<open>
  C4: Insert succeeds on every row that can be indexed while the table has fewer than
  \<open>2 ^ 32 - 1\<close> rows, and records the change from the row it replaces, if there is one.
\<close>
theorem Insert_succeeds:
  assumes "juuri_laws J" and "txn_ok J uni tabs n x V" and "x_write x" and "ni_get tabs name = Some ct"
    and "indexable uni ct pk ob" and "card (dom (V name)) < 2 ^ 32 - 1"
  shows "\<exists>x'. Insert J uni tabs name ob x = (TOk (), x') \<and>
    x_changes x' = track name (of_row (V name pk)) ob pk (x_changes x)"
proof -
  have i: "\<not> is_nil ob" "primaryKey uni ct ob = TOk pk" "\<not> key_panics uni ct pk ob"
    using assms(5) by (auto simp: indexable_def key_panics_def has_key_def)
  have "\<not> out_of_ids ct root (tableTxn_of ct x)" if "x_root x = Some root" for root
  proof -
    have "table_ok J uni ct root (tableTxn_of ct x) (V name)" using assms(2,4) that by (auto simp: txn_inv_def)
    then have "\<exists>r. rowsOf root (tableTxn_of ct x) = Ret r \<and> rows_ok J r (V name)" if "has_bitmaps ct"
      using table_okD(4) that by (fastforce simp: bits_ok_def)
    then show ?thesis using rows_ok_room [OF _ assms(6)] by (auto simp: out_of_ids_def)
  qed
  moreover note spec = juuri_tree.Insert_spec [OF juuri_tree.intro [OF assms(1)] assms(2-4) i(1)]
  ultimately show ?thesis
    using assms(5) i by (auto split: prod.splits tres.splits simp: indexable_def)
qed

lemma Insert_succeeds_witness:
  "\<exists>x'. Insert rbt_juuri same_case sample_tables ''person'' ann sample_txn = (TOk (), x') \<and>
     x_changes x' = Some [\<lparr>c_Table = ''person'', c_Before = ONil, c_After = ann, c_primaryKey = [1, 0]\<rparr>]"
proof -
  have "x_write sample_txn" "x_changes sample_txn = Some []" by (simp_all add: sample_txn_def)
  then show ?thesis using Insert_succeeds [OF rbt_laws sample_ok _ sample_get ann_indexable]
    by (simp add: track_def of_row_def)
qed

text \<open>The transaction after the insertion of the sample row.\<close>

definition ann_txn :: "(bytes, cell) RBT.rbt txn" where
  "ann_txn = snd (Insert rbt_juuri same_case sample_tables ''person'' ann sample_txn)"

definition ann_rows :: rows where
  "ann_rows = (\<lambda>_. Map.empty)(''person'' := [[1, 0] \<mapsto> ann])"

lemma ann_inserted: "Insert rbt_juuri same_case sample_tables ''person'' ann sample_txn = (TOk (), ann_txn)"
proof -
  have "(case Insert rbt_juuri same_case sample_tables ''person'' ann sample_txn of (TOk _, _) \<Rightarrow> True | _ \<Rightarrow> False)" by code_simp
  then show ?thesis by (auto simp: ann_txn_def split: tres.splits)
qed

lemma ann_ok: "txn_ok rbt_juuri same_case sample_tables 3 ann_txn ann_rows" and ann_write: "x_write ann_txn"
proof -
  have "\<not> is_nil ann" by code_simp
  then show "txn_ok rbt_juuri same_case sample_tables 3 ann_txn ann_rows" "x_write ann_txn"
    using Insert_rows [OF rbt_laws sample_ok sample_get _ ann_key one_row_no_clash ann_inserted]
      Insert_effect(3) [OF rbt_laws sample_ok sample_get _ ann_key ann_inserted] by (simp_all add: ann_rows_def)
qed

lemma Insert_keeps_witness:
  "txn_inv ((\<lambda>_. True)(''person'' := True \<and> no_clash same_case sample_ct (Map.empty([1, 0] \<mapsto> ann)))) rbt_juuri same_case
     sample_tables 3 ann_txn ann_rows \<and>
   last_write rbt_juuri same_case sample_tables ''person'' [1, 0] None (Some ann) sample_txn ann_txn"
proof -
  have "\<not> is_nil ann" by code_simp
  then show ?thesis using Insert_keeps [OF rbt_laws sample_ok sample_get _ ann_key ann_inserted] unfolding ann_rows_def by blast
qed

text \<open>
  C2: Delete removes the row stored under the primary key from every index, and nothing else,
  and records the row that was stored; without such a row it returns ErrNotFound and changes
  nothing.
\<close>
theorem Delete_exact:
  assumes "juuri_laws J" and "txn_ok J uni tabs n x V" and "x_write x" and "ni_get tabs name = Some ct" and "primaryKey uni ct ob = TOk pk"
  shows "case V name pk of
     None \<Rightarrow> \<exists>x'. Delete J uni tabs name ob x = (TErr ENotFound, x') \<and> x_changes x' = x_changes x \<and>
       txn_ok J uni tabs n x' V \<and> same_view J tabs x x'
   | Some ex \<Rightarrow> \<exists>x'. Delete J uni tabs name ob x = (TOk (), x') \<and> x_changes x' = track name ex ONil pk (x_changes x) \<and>
       txn_ok J uni tabs n x' (V(name := (V name)(pk := None)))"
  using juuri_tree.Delete_spec [OF juuri_tree.intro [OF assms(1)] assms(2-5)] by (auto split: option.splits)

lemma Delete_exact_witness:
  "\<exists>x'. Delete rbt_juuri same_case sample_tables ''person'' ann ann_txn = (TOk (), x') \<and>
     txn_ok rbt_juuri same_case sample_tables 3 x' (\<lambda>_. Map.empty)"
proof -
  have "ann_rows ''person'' [1, 0] = Some ann" "ann_rows(''person'' := (ann_rows ''person'')([1, 0] := None)) = (\<lambda>_. Map.empty)"
    by (auto simp: ann_rows_def fun_eq_iff)
  then show ?thesis using Delete_exact [OF rbt_laws ann_ok ann_write sample_get ann_key] by auto
qed

section \<open>The end of a transaction\<close>

text \<open>
  C6: Commit publishes what the transaction has written: the lock is released, the transaction
  is finished, and a transaction begun afterwards finds every table with the rows the
  committed one had, all its indexes in order.
\<close>
theorem Commit_publishes:
  assumes "txn_ok J uni tabs n x V" and "x_write x" and "x_tables x \<noteq> None \<or> x_root x = Some (db_root db)"
    and "Commit db x = (db', x', fns)"
  shows "\<not> db_locked db' \<and> x_root x' = None \<and> db_tables db' = db_tables db \<and>
    (\<exists>y db''. db_Txn w db' = Some (y, db'') \<and> txn_ok J uni tabs n y V)"
proof -
  obtain root where root: "x_root x = Some root" using assms(1) by (auto simp: txn_inv_def)
  have v: "version_ok J uni tabs n (next_root root (tables_of x)) V" by (rule next_root_ok [OF assms(1) root])
  have d: "db_root db' = next_root root (tables_of x)" "\<not> db_locked db'" "x_root x' = None" "db_tables db' = db_tables db"
    using assms(2-4) root next_root_None [of x root]
    by (auto simp: Commit_def tables_of_def split: option.splits)
  then have "txn_ok J uni tabs n y V" if "x_root y = Some (db_root db')" "x_tables y = None" for y
    using version_txn [OF v] that by (simp add: tables_of_def)
  then show ?thesis using d by (simp add: db_Txn_def Let_def)
qed

definition sample_db :: "(bytes, cell) RBT.rbt memdb" where
  "sample_db = \<lparr>db_tables = sample_tables, db_root = sample_root, db_primary = True, db_locked = True\<rparr>"

lemma Commit_publishes_witness:
  "\<exists>y db''. db_Txn False (fst (Commit sample_db ann_txn)) = Some (y, db'') \<and>
     txn_ok rbt_juuri same_case sample_tables 3 y ann_rows"
proof -
  have "(case x_tables ann_txn of None \<Rightarrow> False | Some _ \<Rightarrow> True)" by code_simp
  then have "x_tables ann_txn \<noteq> None" by (auto split: option.splits)
  then show ?thesis using Commit_publishes [OF ann_ok ann_write disjI1, of sample_db _ _ _ False]
    by (metis prod.collapse)
qed

text \<open>
  Abort publishes nothing: the database keeps its version and its lock is free again, the
  transaction is finished and has no changes, and whatever is done with it afterwards, Commit
  and Abort leave the database alone.
\<close>
theorem Abort_discards:
  assumes "x_write x" and "x_root x \<noteq> None" and "Abort db x = (db', x')"
  shows "db_root db' = db_root db \<and> \<not> db_locked db' \<and> x_root x' = None \<and> fst (Changes hash x') = None \<and>
    fst (Commit db1 x') = db1 \<and> fst (Abort db1 x') = db1 \<and> snd (snd (Commit db1 x')) = ([], True)"
  using assms by (auto simp: Abort_def Commit_def Changes_def)

lemma Abort_discards_witness:
  "db_root (fst (Abort sample_db ann_txn)) = sample_root \<and> \<not> db_locked (fst (Abort sample_db ann_txn))"
proof -
  have "x_root ann_txn \<noteq> None" using ann_ok by (auto simp: txn_inv_def)
  then show ?thesis using Abort_discards [OF ann_write, of sample_db "fst (Abort sample_db ann_txn)" "snd (Abort sample_db ann_txn)"]
    by (simp add: sample_db_def)
qed

text \<open>
  C22: Snapshot of a write transaction is a read transaction that sees what it has written so
  far; the writes that follow go to the transaction alone.
\<close>
theorem Snapshot_sees:
  assumes "txn_ok J uni tabs n x V"
  shows "\<exists>y. Txn_Snapshot x = Some y \<and> \<not> x_write y \<and> txn_ok J uni tabs n y V \<and>
    fst (Insert J uni tabs name ob y) = TErr EReadOnlyInsert \<and> fst (Delete J uni tabs name ob y) = TErr EReadOnlyDelete"
proof -
  obtain root where root: "x_root x = Some root" using assms by (auto simp: txn_inv_def)
  have v: "version_ok J uni tabs n (next_root root (tables_of x)) V" by (rule next_root_ok [OF assms root])
  obtain y where y: "Txn_Snapshot x = Some y" "x_root y = Some (next_root root (tables_of x))" "x_tables y = None" "\<not> x_write y"
    using root next_root_None [of x root] by (cases "x_tables x") (auto simp: Txn_Snapshot_def tables_of_def)
  moreover have "txn_ok J uni tabs n y V" using version_txn [OF v y(2)] y(3) by (simp add: tables_of_def)
  ultimately show ?thesis by (simp add: Insert_def Delete_def)
qed

lemma Snapshot_sees_witness: "\<exists>y. Txn_Snapshot ann_txn = Some y \<and> txn_ok rbt_juuri same_case sample_tables 3 y ann_rows"
  using Snapshot_sees [OF ann_ok] by blast

text \<open>
  Deferred functions run at Commit in the reverse of the order they were deferred in,
  and they all run; a transaction that is aborted runs none.
\<close>
theorem Defer_LIFO:
  assumes "x_write x" and "x_root x \<noteq> None" and "x_after x = None" and "x_afterMore x = None"
  shows "snd (snd (Commit db (fold (\<lambda>f. Defer (Some f)) fs x))) = (rev fs, True)"
proof -
  have run: "run_deferred (map Some gs) = (gs, True)" for gs by (induction gs) simp_all
  have more: "x_write y \<Longrightarrow> x_after y = Some f \<Longrightarrow> deferred_of y = map Some gs @ [Some f] \<Longrightarrow>
      deferred_of (fold (\<lambda>f. Defer (Some f)) hs y) = map Some (rev hs @ gs) @ [Some f] \<and>
      x_write (fold (\<lambda>f. Defer (Some f)) hs y) \<and> x_root (fold (\<lambda>f. Defer (Some f)) hs y) = x_root y" for hs gs f y
  proof (induction hs arbitrary: y gs)
    case (Cons h hs)
    have "deferred_of (Defer (Some h) y) = map Some (h # gs) @ [Some f]"
      using Cons.prems by (auto simp: Defer_def deferred_of_def split: option.splits)
    moreover have "x_write (Defer (Some h) y)" "x_after (Defer (Some h) y) = Some f" "x_root (Defer (Some h) y) = x_root y"
      using Cons.prems by (simp_all add: Defer_def)
    ultimately show ?case using Cons.IH [of "Defer (Some h) y" "h # gs"] by simp
  qed simp
  have com: "snd (snd (Commit db y)) = run_deferred (deferred_of y)" if "x_write y" "x_root y \<noteq> None" for y
    using that by (auto simp: Commit_def)
  show ?thesis
  proof (cases fs)
    case Nil
    then show ?thesis using assms com [of x] by (simp add: deferred_of_def)
  next
    case (Cons f gs)
    let ?y = "Defer (Some f) x"
    have y: "x_write ?y" "x_after ?y = Some f" "x_root ?y = x_root x" "deferred_of ?y = map Some [] @ [Some f]"
      using assms by (simp_all add: Defer_def deferred_of_def)
    let ?z = "fold (\<lambda>f. Defer (Some f)) gs ?y"
    have "deferred_of ?z = map Some (rev gs @ [f])" "x_write ?z" "x_root ?z = x_root x"
      using more [OF y(1,2,4), of gs] y(3) by simp_all
    then have "snd (snd (Commit db ?z)) = (rev gs @ [f], True)" using com [of ?z] assms(2) run [of "rev gs @ [f]"] by simp
    then show ?thesis using Cons by simp
  qed
qed

lemma Defer_LIFO_witness:
  "snd (snd (Commit sample_db (fold (\<lambda>f. Defer (Some f)) [1, 2, 3] sample_txn))) = ([3, 2, 1], True)"
  using Defer_LIFO [of sample_txn sample_db "[1, 2, 3]"] by (simp add: sample_txn_def)

end
