(* ===== verification/ChangesSpec.thy ===== *)
theory ChangesSpec
  imports TxnInv
begin

text \<open>
  The list of changes as a history of the tables: de-duplication keeps its net effect, whatever
  the hash function that looks for duplicates does.
\<close>

section \<open>Histories\<close>

text \<open>
  \<open>history V cs W\<close>: carried out one after the other, the changes lead from the rows \<open>V\<close> to the
  rows \<open>W\<close>, each finding the row it says it replaces.
\<close>

fun history :: "rows \<Rightarrow> change list \<Rightarrow> rows \<Rightarrow> bool" where
  "history V [] W \<longleftrightarrow> V = W"
| "history V (m # ms) W \<longleftrightarrow> V (c_Table m) (c_primaryKey m) = row_opt (c_Before m) \<and>
     history (V(c_Table m := (V (c_Table m))(c_primaryKey m := row_opt (c_After m)))) ms W"

definition at :: "rows \<Rightarrow> objectID \<Rightarrow> obj option" where
  "at V oid = V (fst oid) (snd oid)"

text \<open>The changes of one object form a chain from its row in \<open>V\<close> to its row in \<open>W\<close>.\<close>

fun chain :: "obj option \<Rightarrow> change list \<Rightarrow> obj option \<Rightarrow> bool" where
  "chain a [] b \<longleftrightarrow> a = b"
| "chain a (m # ms) b \<longleftrightarrow> a = row_opt (c_Before m) \<and> chain (row_opt (c_After m)) ms b"

definition of_oid :: "objectID \<Rightarrow> change list \<Rightarrow> change list" where
  "of_oid oid cs = filter (\<lambda>m. oid_of m = oid) cs"

lemma of_oid_simps [simp]: "of_oid oid [] = []"
    "of_oid oid (m # ms) = (if oid_of m = oid then m # of_oid oid ms else of_oid oid ms)"
    "of_oid oid (as @ bs) = of_oid oid as @ of_oid oid bs"
  by (simp_all add: of_oid_def)

lemma of_oid_Nil: "of_oid oid cs = [] \<longleftrightarrow> oid \<notin> oid_of ` set cs"
  by (auto simp: of_oid_def filter_empty_conv)

lemma history_chains: "history V cs W \<longleftrightarrow> (\<forall>oid. chain (at V oid) (of_oid oid cs) (at W oid))"
proof (induction cs arbitrary: V)
  case Nil
  then show ?case by (auto simp: at_def fun_eq_iff)
next
  case (Cons m ms)
  let ?V = "V(c_Table m := (V (c_Table m))(c_primaryKey m := row_opt (c_After m)))"
  have at: "at ?V oid = (if oid = oid_of m then row_opt (c_After m) else at V oid)" for oid
    by (cases oid) (auto simp: at_def oid_of_def)
  have "history V (m # ms) W \<longleftrightarrow> at V (oid_of m) = row_opt (c_Before m) \<and> (\<forall>oid. chain (at ?V oid) (of_oid oid ms) (at W oid))"
  proof -
    have "at V (oid_of m) = V (c_Table m) (c_primaryKey m)" by (simp add: at_def oid_of_def)
    then show ?thesis by (simp only: history.simps Cons.IH)
  qed
  also have "\<dots> \<longleftrightarrow> (\<forall>oid. chain (at V oid) (of_oid oid (m # ms)) (at W oid))"
    unfolding at
  proof (intro iffI conjI allI)
    fix oid assume a: "at V (oid_of m) = row_opt (c_Before m) \<and>
      (\<forall>oid. chain (if oid = oid_of m then row_opt (c_After m) else at V oid) (of_oid oid ms) (at W oid))"
    then show "chain (at V oid) (of_oid oid (m # ms)) (at W oid)" using spec [OF conjunct2 [OF a], of oid] by (cases "oid = oid_of m") simp_all
  next
    assume a: "\<forall>oid. chain (at V oid) (of_oid oid (m # ms)) (at W oid)"
    show "at V (oid_of m) = row_opt (c_Before m)" using spec [OF a, of "oid_of m"] by simp
    show "chain (if oid = oid_of m then row_opt (c_After m) else at V oid) (of_oid oid ms) (at W oid)" for oid
      using spec [OF a, of oid] by (cases "oid = oid_of m") simp_all
  qed
  finally show ?case .
qed

lemma chain_ends: "chain a ms b \<Longrightarrow> ms \<noteq> [] \<Longrightarrow> a = row_opt (c_Before (hd ms)) \<and> b = row_opt (c_After (last ms))"
proof (induction ms arbitrary: a)
  case (Cons m ms)
  then show ?case by (cases ms) auto
qed simp

text \<open>A write of Insert or Delete prolongs a history.\<close>

lemma history_append: "history V (cs @ [m]) W \<longleftrightarrow> (\<exists>U. history V cs U \<and> U (c_Table m) (c_primaryKey m) = row_opt (c_Before m) \<and>
    W = U(c_Table m := (U (c_Table m))(c_primaryKey m := row_opt (c_After m))))"
  by (induction cs arbitrary: V) auto

section \<open>Duplicates\<close>

lemma pairwise_dup_iff: "\<not> pairwise_dup es ms \<longleftrightarrow> distinct (map oid_of ms) \<and> oid_of ` set es \<inter> oid_of ` set ms = {}"
proof (induction es ms rule: pairwise_dup.induct)
  case (2 es m ms)
  have "list_ex (\<lambda>e. c_Table m = c_Table e \<and> c_primaryKey m = c_primaryKey e) es \<longleftrightarrow> oid_of m \<in> oid_of ` set es"
    by (auto simp: list_ex_iff oid_of_def)
  then show ?case using 2 by auto
qed simp

lemma hash_dup_distinct:
  assumes "\<not> hash_dup hash seen ms"
  shows "distinct (map oid_of ms)"
proof -
  let ?h = "\<lambda>m. hash (map of_char (c_Table m) @ [0] @ c_primaryKey m)"
  have "\<not> hash_dup hash seen ms \<Longrightarrow> distinct (map ?h ms) \<and> set seen \<inter> ?h ` set ms = {}" for seen
  proof (induction ms arbitrary: seen)
    case (Cons m ms)
    then have "?h m \<notin> set seen" "\<not> hash_dup hash (?h m # seen) ms" by (auto simp: Let_def split: if_splits)
    then show ?case using Cons.IH [of "?h m # seen"] by auto
  qed simp
  then have "distinct (map ?h ms)" using assms by blast
  moreover have "?h = (\<lambda>oid. hash (map of_char (fst oid) @ [0] @ snd oid)) \<circ> oid_of" by (simp add: fun_eq_iff oid_of_def)
  ultimately have "distinct (map (\<lambda>oid. hash (map of_char (fst oid) @ [0] @ snd oid)) (map oid_of ms))" by (simp only: map_map)
  then show ?thesis by (rule distinct_map [THEN iffD1, THEN conjunct1])
qed

lemma no_duplicates: "\<not> hasDuplicateChanges hash cs \<Longrightarrow> distinct (map oid_of cs)"
  using pairwise_dup_iff [of "[]" cs] hash_dup_distinct [of hash "[]" cs] by (auto simp: hasDuplicateChanges_def split: if_splits)

section \<open>De-duplication\<close>

fun last_pos :: "nat \<Rightarrow> change list \<Rightarrow> objectID \<Rightarrow> nat option" where
  "last_pos i [] oid = None"
| "last_pos i (m # ms) oid = (case last_pos (i + 1) ms oid of Some l \<Rightarrow> Some l | None \<Rightarrow> if oid_of m = oid then Some i else None)"

lemma last_pos_None: "last_pos i cs oid = None \<longleftrightarrow> of_oid oid cs = []"
  by (induction cs arbitrary: i) (auto split: option.splits)

lemma last_pos_ge: "last_pos i cs oid = Some l \<Longrightarrow> i \<le> l"
  by (induction cs arbitrary: i) (fastforce split: option.splits if_splits)+

lemma collect_dups_get:
  "map_of (collect_dups i cs dups) oid = (case last_pos i cs oid of
     None \<Rightarrow> map_of dups oid
   | Some l \<Rightarrow> Some \<lparr>firstBefore = (case map_of dups oid of Some mi \<Rightarrow> firstBefore mi | None \<Rightarrow> c_Before (hd (of_oid oid cs))), lastIdx = l\<rparr>)"
proof (induction cs arbitrary: i dups)
  case Nil
  then show ?case by simp
next
  case (Cons m ms)
  let ?mi = "case map_of dups (oid_of m) of None \<Rightarrow> \<lparr>firstBefore = c_Before m, lastIdx = i\<rparr> | Some mi \<Rightarrow> mi\<lparr>lastIdx := i\<rparr>"
  let ?dups = "AList.update (oid_of m) ?mi dups"
  have d: "map_of ?dups oid = (if oid = oid_of m then Some ?mi else map_of dups oid)" by (simp add: update_conv')
  have c: "collect_dups i (m # ms) dups = collect_dups (i + 1) ms ?dups" by (simp add: Let_def)
  show ?case unfolding c Cons.IH d
    using last_pos_None [of "i + 1" ms oid]
    by (auto split: option.splits)
qed

lemma collect_dups_keys: "distinct (map fst dups) \<Longrightarrow> distinct (map fst (collect_dups i cs dups)) \<and>
    fst ` set (collect_dups i cs dups) = fst ` set dups \<union> oid_of ` set cs"
proof (induction cs arbitrary: i dups)
  case (Cons m ms)
  let ?mi = "case map_of dups (oid_of m) of None \<Rightarrow> \<lparr>firstBefore = c_Before m, lastIdx = i\<rparr> | Some mi \<Rightarrow> mi\<lparr>lastIdx := i\<rparr>"
  have "distinct (map fst (AList.update (oid_of m) ?mi dups))" using Cons.prems by (rule distinct_update)
  moreover have "fst ` set (AList.update (oid_of m) ?mi dups) = insert (oid_of m) (fst ` set dups)"
    using dom_update [of "oid_of m" ?mi dups] by simp
  ultimately show ?case using Cons.IH [of "AList.update (oid_of m) ?mi dups" "i + 1"] by (auto simp: Let_def)
qed simp

lemma remove_dups_oid:
  assumes "map_of dups oid = Some \<lparr>firstBefore = fb, lastIdx = l\<rparr>" and "\<And>l'. last_pos i cs oid = Some l' \<Longrightarrow> l' = l"
  shows "of_oid oid (remove_dups dups i cs) = (if of_oid oid cs \<noteq> [] \<and> \<not> (is_nil fb \<and> is_nil (c_After (last (of_oid oid cs))))
     then [(last (of_oid oid cs))\<lparr>c_Before := fb\<rparr>] else [])"
  using assms(2)
proof (induction cs arbitrary: i)
  case Nil
  then show ?case by simp
next
  case (Cons m ms)
  have ih: "of_oid oid (remove_dups dups (i + 1) ms) = (if of_oid oid ms \<noteq> [] \<and> \<not> (is_nil fb \<and> is_nil (c_After (last (of_oid oid ms))))
     then [(last (of_oid oid ms))\<lparr>c_Before := fb\<rparr>] else [])"
    by (rule Cons.IH) (use Cons.prems in auto)
  have o': "oid_of (m\<lparr>c_Before := b\<rparr>) = oid_of m" for b by (simp add: oid_of_def)
  show ?case
  proof (cases "oid_of m = oid")
    case False
    then show ?thesis using ih o' by (simp add: Let_def)
  next
    case True
    show ?thesis
    proof (cases "of_oid oid ms = []")
      case none: True
      then have "last_pos (i + 1) ms oid = None" by (simp add: last_pos_None)
      then have "l = i" using Cons.prems [of i] True by simp
      then show ?thesis using ih o' True none assms(1) by (simp add: Let_def)
    next
      case False
      then obtain l' where l': "last_pos (i + 1) ms oid = Some l'" using last_pos_None [of "i + 1" ms oid] by auto
      then have "l' = l" using Cons.prems [of l'] by simp
      then have "l \<noteq> i" using last_pos_ge [OF l'] by simp
      then show ?thesis using ih True False assms(1) by (simp add: Let_def)
    qed
  qed
qed

lemma deduplicated_oid:
  "of_oid oid (remove_dups (collect_dups 0 cs []) 0 cs) =
    (if of_oid oid cs \<noteq> [] \<and> \<not> (is_nil (c_Before (hd (of_oid oid cs))) \<and> is_nil (c_After (last (of_oid oid cs))))
     then [(last (of_oid oid cs))\<lparr>c_Before := c_Before (hd (of_oid oid cs))\<rparr>] else [])"
proof (cases "last_pos 0 cs oid")
  case None
  then have n: "of_oid oid cs = []" by (simp add: last_pos_None)
  have "oid_of ` set (remove_dups dups i cs) \<subseteq> oid_of ` set cs" for dups i
    by (induction cs arbitrary: i) (auto simp: Let_def oid_of_def)
  then show ?thesis using n by (auto simp: of_oid_Nil)
next
  case (Some l)
  then have "map_of (collect_dups 0 cs []) oid = Some \<lparr>firstBefore = c_Before (hd (of_oid oid cs)), lastIdx = l\<rparr>"
    by (simp add: collect_dups_get)
  then show ?thesis by (rule remove_dups_oid) (simp add: Some)
qed

lemma deduplicated_distinct: "distinct (map oid_of (remove_dups (collect_dups 0 cs []) 0 cs))"
proof -
  have "distinct (map oid_of ms) \<longleftrightarrow> (\<forall>oid. length (of_oid oid ms) \<le> 1)" for ms
  proof (induction ms)
    case (Cons m ms)
    have "(\<forall>oid. length (of_oid oid (m # ms)) \<le> 1) \<longleftrightarrow> of_oid (oid_of m) ms = [] \<and> (\<forall>oid. length (of_oid oid ms) \<le> 1)"
    proof (intro iffI conjI allI)
      assume a: "\<forall>oid. length (of_oid oid (m # ms)) \<le> 1"
      show "of_oid (oid_of m) ms = []" using spec [OF a, of "oid_of m"] by simp
      show "length (of_oid oid ms) \<le> 1" for oid using spec [OF a, of oid] by (cases "oid = oid_of m") simp_all
    next
      fix oid assume "of_oid (oid_of m) ms = [] \<and> (\<forall>oid. length (of_oid oid ms) \<le> 1)"
      then have "of_oid (oid_of m) ms = []" "length (of_oid oid ms) \<le> 1" by blast+
      then show "length (of_oid oid (m # ms)) \<le> 1" by (cases "oid_of m = oid") simp_all
    qed
    then show ?case using Cons by (simp add: of_oid_Nil)
  qed simp
  then show ?thesis by (simp add: deduplicated_oid)
qed

lemma deduplicated_history:
  assumes "history V cs W"
  shows "history V (remove_dups (collect_dups 0 cs []) 0 cs) W"
  unfolding history_chains
proof
  fix oid
  have c: "chain (at V oid) (of_oid oid cs) (at W oid)" using assms unfolding history_chains by blast
  show "chain (at V oid) (of_oid oid (remove_dups (collect_dups 0 cs []) 0 cs)) (at W oid)"
  proof (cases "of_oid oid cs = []")
    case True
    then show ?thesis using c by (simp add: deduplicated_oid)
  next
    case False
    then show ?thesis using chain_ends [OF c] by (simp add: deduplicated_oid row_opt_def)
  qed
qed

lemma all_different: "length (collect_dups 0 cs []) = length cs \<Longrightarrow> distinct (map oid_of cs)"
  using collect_dups_keys [of "[]" 0 cs] by (metis card_distinct distinct_card fst_conv length_map list.set(1) list.simps(8) set_map sup_bot_left image_empty distinct.simps(1))

lemma distinct_all_different: "distinct (map oid_of cs) \<Longrightarrow> length (collect_dups 0 cs []) = length cs"
  using collect_dups_keys [of "[]" 0 cs] by (metis distinct_card length_map list.set(1) list.simps(8) set_map sup_bot_left image_empty distinct.simps(1))

text \<open>Changes as a whole, for every hash function, collisions included.\<close>

lemma Changes_history:
  assumes "x_changes x = Some cs" and "history V cs W"
  shows "\<exists>net x'. Changes hash x = (Some net, x') \<and> history V net W \<and> distinct (map oid_of net) \<and>
    Changes hash x' = (Some net, x')"
proof -
  let ?net = "remove_dups (collect_dups 0 cs []) 0 cs"
  show ?thesis
  proof (cases "\<not> hasDuplicateChanges hash cs \<or> length (collect_dups 0 cs []) = length cs")
    case True
    then have "distinct (map oid_of cs)" using no_duplicates all_different by blast
    then show ?thesis using True assms by (auto simp: Changes_def Let_def)
  next
    case False
    then have "Changes hash x = (Some ?net, x\<lparr>x_changes := Some ?net\<rparr>)" using assms(1) by (simp add: Changes_def Let_def)
    moreover have "Changes hash (x\<lparr>x_changes := Some ?net\<rparr>) = (Some ?net, x\<lparr>x_changes := Some ?net\<rparr>)"
      using distinct_all_different [OF deduplicated_distinct [of cs]] by (simp add: Changes_def Let_def)
    ultimately show ?thesis using deduplicated_history [OF assms(2)] deduplicated_distinct by blast
  qed
qed

section \<open>The property\<close>

text \<open>
  HasDuplicateChanges never misses a duplicate: when it reports none, all changes concern
  different objects; and for up to eight changes it is exact.
\<close>
theorem hasDuplicateChanges_sound:
  "(\<not> hasDuplicateChanges hash cs \<longrightarrow> distinct (map oid_of cs)) \<and>
   (length cs \<le> 8 \<longrightarrow> (hasDuplicateChanges hash cs \<longleftrightarrow> \<not> distinct (map oid_of cs)))"
  using no_duplicates [of hash cs] pairwise_dup_iff [of "[]" cs] by (auto simp: hasDuplicateChanges_def)

lemma hasDuplicateChanges_sound_witness:
  "hasDuplicateChanges (\<lambda>_. 0) [\<lparr>c_Table = ''t'', c_Before = ONil, c_After = ONil, c_primaryKey = [1]\<rparr>,
      \<lparr>c_Table = ''t'', c_Before = ONil, c_After = ONil, c_primaryKey = [1]\<rparr>] \<and>
   \<not> hasDuplicateChanges (\<lambda>_. 0) [\<lparr>c_Table = ''t'', c_Before = ONil, c_After = ONil, c_primaryKey = [1]\<rparr>,
      \<lparr>c_Table = ''u'', c_Before = ONil, c_After = ONil, c_primaryKey = [1]\<rparr>]"
  using hasDuplicateChanges_sound [of "\<lambda>_. 0" "[\<lparr>c_Table = ''t'', c_Before = ONil, c_After = ONil, c_primaryKey = [1]\<rparr>,
      \<lparr>c_Table = ''t'', c_Before = ONil, c_After = ONil, c_primaryKey = [1]\<rparr>]"]
    hasDuplicateChanges_sound [of "\<lambda>_. 0" "[\<lparr>c_Table = ''t'', c_Before = ONil, c_After = ONil, c_primaryKey = [1]\<rparr>,
      \<lparr>c_Table = ''u'', c_Before = ONil, c_After = ONil, c_primaryKey = [1]\<rparr>]"]
  by (simp add: oid_of_def)

end
