(* ===== verification/Runs.thy ===== *)
theory Runs
  imports TxnSpec ChangesSpec
begin

text \<open>
  Runs of a transaction: any sequence of Insert and Delete calls, the failing ones included, as
  a step relation. The invariant holds along every run, and Changes reports its net effect.
\<close>

section \<open>The step relation\<close>

text \<open>
  \<open>runs J uni tabs x V c y W d\<close>: a sequence of calls leads from the transaction \<open>x\<close> with the rows \<open>V\<close> to
  \<open>y\<close> with the rows \<open>W\<close>; \<open>c\<close> and \<open>d\<close> are the tables in which no two rows have shared a key of a
  secondary index. Every call that returns is a step: an Insert of a row that is not nil, whether
  or not it clashes with others, a Delete, and every call that returns an error, whatever the
  reason. The inserted rows are not nil, and a call that panics ends the run.
\<close>

inductive runs :: "'t juuri \<Rightarrow> (bytes \<Rightarrow> bytes) \<Rightarrow> compiledTable nameIndex \<Rightarrow> 't txn \<Rightarrow> rows \<Rightarrow> (string \<Rightarrow> bool) \<Rightarrow>
    't txn \<Rightarrow> rows \<Rightarrow> (string \<Rightarrow> bool) \<Rightarrow> bool"
  for J uni tabs x V c where
  start: "runs J uni tabs x V c x V c"
| insert: "runs J uni tabs x V c y W d \<Longrightarrow> ni_get tabs name = Some ct \<Longrightarrow> \<not> is_nil ob \<Longrightarrow> primaryKey uni ct ob = TOk pk \<Longrightarrow>
    Insert J uni tabs name ob y = (TOk (), z) \<Longrightarrow>
    runs J uni tabs x V c z (W(name := (W name)(pk \<mapsto> ob))) (d(name := d name \<and> no_clash uni ct ((W name)(pk \<mapsto> ob))))"
| insert_error: "runs J uni tabs x V c y W d \<Longrightarrow> Insert J uni tabs name ob y = (TErr e, z) \<Longrightarrow> runs J uni tabs x V c z W d"
| delete: "runs J uni tabs x V c y W d \<Longrightarrow> ni_get tabs name = Some ct \<Longrightarrow> primaryKey uni ct ob = TOk pk \<Longrightarrow>
    Delete J uni tabs name ob y = (TOk (), z) \<Longrightarrow> runs J uni tabs x V c z (W(name := (W name)(pk := None))) d"
| delete_error: "runs J uni tabs x V c y W d \<Longrightarrow> Delete J uni tabs name ob y = (TErr e, z) \<Longrightarrow> runs J uni tabs x V c z W d"

text \<open>What the changes recorded along a run amount to.\<close>

definition tracks :: "rows \<Rightarrow> change list option \<Rightarrow> rows \<Rightarrow> bool" where
  "tracks V cs W \<longleftrightarrow> (\<exists>l. cs = Some l \<and> history V l W)"

lemma tracks_insert:
  assumes "tracks V cs W" and "\<not> is_nil ob" and "\<And>o1. W name pk = Some o1 \<Longrightarrow> \<not> is_nil o1"
  shows "tracks V (track name (of_row (W name pk)) ob pk cs) (W(name := (W name)(pk \<mapsto> ob)))"
proof -
  have "row_opt (of_row (W name pk)) = W name pk" using assms(3) by (cases "W name pk") (simp_all add: of_row_def row_opt_def)
  then show ?thesis using assms(1,2) by (auto simp: tracks_def track_def history_append row_opt_def split: option.splits)
qed

lemma tracks_delete:
  assumes "tracks V cs W" and "W name pk = Some ex" and "\<not> is_nil ex"
  shows "tracks V (track name ex ONil pk cs) (W(name := (W name)(pk := None)))"
  using assms by (auto simp: tracks_def track_def history_append row_opt_def split: option.splits)

lemma stored_not_nil: "txn_inv clean J uni tabs n x V \<Longrightarrow> ni_get tabs name = Some ct \<Longrightarrow> V name pk = Some ob \<Longrightarrow> \<not> is_nil ob"
  unfolding txn_inv_def using table_invD(5) by (metis indexable_def)

lemma run_invariant:
  assumes J: "juuri_laws J" and "runs J uni tabs x V c y W d" and "txn_inv c J uni tabs n x V" and "x_write x" and "tracks V (x_changes x) V"
  shows "txn_inv d J uni tabs n y W \<and> x_write y \<and> tracks V (x_changes y) W"
  using assms(2-)
proof (induction rule: runs.induct)
  case start
  then show ?case by blast
next
  case (insert y W d name ct ob pk z)
  then have ok: "txn_inv d J uni tabs n y W" and t: "tracks V (x_changes y) W" by blast+
  note e = Insert_effect [OF J ok insert.hyps(2-5)]
  show ?case unfolding e(4) using e(1,3) tracks_insert [OF t insert.hyps(3), of name pk]
      stored_not_nil [OF ok insert.hyps(2), of pk] by blast
next
  case (insert_error y W d name ob e z)
  then have ok: "txn_inv d J uni tabs n y W" by blast
  show ?case using juuri_tree.Insert_error [OF juuri_tree.intro [OF J] ok insert_error.hyps(2)] insert_error by simp
next
  case (delete y W d name ct ob pk z)
  then have ok: "txn_inv d J uni tabs n y W" and w: "x_write y" and t: "tracks V (x_changes y) W" by blast+
  note s = juuri_tree.Delete_spec [OF juuri_tree.intro [OF J] ok w delete.hyps(2,3), unfolded delete.hyps(4)]
  then obtain ex where ex: "W name pk = Some ex" by (auto split: option.splits)
  then have z: "x_write z" "x_changes z = track name ex ONil pk (x_changes y)"
      "txn_inv d J uni tabs n z (W(name := (W name)(pk := None)))" using s by simp_all
  show ?case unfolding z(2) using z(1,3) tracks_delete [OF t ex stored_not_nil [OF ok delete.hyps(2) ex]] by blast
next
  case (delete_error y W d name ob e z)
  then have ok: "txn_inv d J uni tabs n y W" by blast
  show ?case using juuri_tree.Delete_error [OF juuri_tree.intro [OF J] ok delete_error.hyps(2)] delete_error by simp
qed

section \<open>The property\<close>

text \<open>
  C5: along every run of Insert and Delete calls of a transaction that tracks changes (the rows
  inserted are not nil and no call panics; rows may clash, and calls may fail for any reason) the
  database stays in order: the primary indexes, the bitmap indexes and the row bookkeeping are
  those of the rows at the end, and so are the secondary indexes of every table in which no two
  rows have shared a key. And Changes returns the net effect of the run, clashes or not: carried out
  on the rows at the start its changes find the rows they say they replace and lead to the rows at
  the end, each object occurs in them at most once, and asking again returns the same list.
  This holds for every hash function that looks for duplicates, collisions included.
\<close>
theorem run_changes:
  assumes "juuri_laws J" and "txn_inv c J uni tabs n x V" and "x_write x" and "x_changes x = Some []" and "runs J uni tabs x V c y W d"
  shows "txn_inv d J uni tabs n y W \<and> (\<exists>net y'. Changes hash y = (Some net, y') \<and> history V net W \<and> distinct (map oid_of net) \<and>
    Changes hash y' = (Some net, y'))"
proof -
  have "tracks V (x_changes x) V" using assms(4) by (simp add: tracks_def)
  note i = run_invariant [OF assms(1,5,2,3) this]
  then obtain cs where "x_changes y = Some cs" "history V cs W" by (auto simp: tracks_def)
  then show ?thesis using i Changes_history [of y cs V W hash] by blast
qed

text \<open>A run with a call that fails: the table it names does not exist.\<close>

lemma sample_run: "runs rbt_juuri same_case sample_tables sample_txn (\<lambda>_. Map.empty) (\<lambda>_. True) ann_txn ann_rows (\<lambda>_. True)"
proof -
  have n: "\<not> is_nil ann" by code_simp
  have c: "(\<lambda>_. True)(''person'' := True \<and> no_clash same_case sample_ct (Map.empty([1, 0] \<mapsto> ann))) = (\<lambda>_. True)"
    using one_row_no_clash by auto
  have "runs rbt_juuri same_case sample_tables sample_txn (\<lambda>_. Map.empty) (\<lambda>_. True) ann_txn ann_rows (\<lambda>_. True)"
    using runs.insert [OF runs.start [where V = "\<lambda>_. Map.empty" and c = "\<lambda>_. True"] sample_get n ann_key ann_inserted]
    unfolding ann_rows_def [symmetric] c .
  moreover have "(case ni_get sample_tables ''nobody'' of None \<Rightarrow> True | Some _ \<Rightarrow> False)" by code_simp
  then have "Delete rbt_juuri same_case sample_tables ''nobody'' ann ann_txn = (TErr (EInvalidTable ''nobody''), ann_txn)"
    using ann_write by (simp add: Delete_def split: option.splits)
  ultimately show ?thesis by (rule runs.delete_error)
qed

lemma run_changes_witness:
  "txn_ok rbt_juuri same_case sample_tables 3 ann_txn ann_rows \<and>
   (\<exists>net y'. Changes (\<lambda>_. 0) ann_txn = (Some net, y') \<and> history (\<lambda>_. Map.empty) net ann_rows)"
  using run_changes [OF rbt_laws sample_ok _ _ sample_run, of "\<lambda>_. 0"] by (auto simp: sample_txn_def)

end
