(* ===== verification/QuerySpec.thy ===== *)
theory QuerySpec
  imports Runs IndexSpec
begin

text \<open>
  The properties of the ordered queries: what Get, GetReverse, the bounds, First, Last and
  LongestPrefix return, in terms of the rows of the table and the keys its index gives them.
\<close>

section \<open>The entries of an index\<close>

definition index_entries :: "(bytes \<Rightarrow> bytes) \<Rightarrow> compiledIndex \<Rightarrow> (bytes \<Rightarrow> obj option) \<Rightarrow> (bytes \<times> obj) set" where
  "index_entries uni ci R = {(k, ob). \<exists>pk. R pk = Some ob \<and> k \<in> set (ikeys uni ci pk ob)}"

text \<open>The key of a row in the index \<^verbatim>\<open>id\<close> is its primary key.\<close>

lemma primaryKey_single:
  "primaryKey uni ct ob = TOk pk \<longleftrightarrow> up_single uni ob (ci_ix (id_index ct)) = Ok (Some pk)"
  by (auto simp: primaryKey_up id_index_def split: res.splits option.splits)

lemma ikeys_id:
  assumes "ct_wf ct" and "primaryKey uni ct ob = TOk pk"
  shows "ikeys uni (id_index ct) q ob = [pk]"
  using assms by (simp add: ikeys_def keys_of_def row_keys_cases up_keys_def primaryKey_single ct_wf_def id_index_def
      key_suffix_def bind_res_def)

text \<open>In a table that is in order the tree of every ordinary index holds the index's entries.\<close>

lemma tree_entries:
  assumes "table_ok J uni ct root tt R" and "ci \<in> set (take (ct_classic ct) (ct_indexes ct))"
  shows "j_get J (cur_tree root tt ci) k = Some c \<longleftrightarrow> (\<exists>ob. c = CRow ob \<and> (k, ob) \<in> index_entries uni ci R)"
proof -
  have wf: "ct_wf ct" using table_okD(1) [OF assms(1)] by (simp add: tt_wf_def)
  note d = table_okD [OF assms(1)]
  show ?thesis
  proof (cases "ci = id_index ct")
    case True
    have "(k, ob) \<in> index_entries uni ci R \<longleftrightarrow> R k = Some ob" for ob
      using ikeys_id [OF wf] d(5) unfolding index_entries_def True indexable_def by fastforce
    then show ?thesis using d(2) [of k] by (auto simp: True)
  next
    case False
    then have "ci \<in> set (secondary ct)" using assms(2) id_secondary(3) [OF wf] by simp
    then have "index_ok J uni ci (cur_tree root tt ci) R" by (rule d(3))
    then show ?thesis unfolding index_ok_def index_entries_def by blast
  qed
qed

text \<open>What a query that passes getIndexValue reads.\<close>

lemma query_index:
  assumes ok: "txn_ok J uni tabs n x V" and q: "getIndexValue uni nils tabs table index args = TOk (ct, (ci, pre), val)"
  shows "\<exists>tree. readableIndex ct ci x = Ret tree \<and> ni_get tabs table = Some ct \<and>
    ci \<in> set (take (ct_classic ct) (ct_indexes ct)) \<and>
    (\<forall>k c. j_get J tree k = Some c \<longleftrightarrow> (\<exists>ob. c = CRow ob \<and> (k, ob) \<in> index_entries uni ci (V table)))"
proof -
  have ct: "ni_get tabs table = Some ct" and ci: "ni_get (ct_byName ct) index = Some (ci, pre)"
    using q by (auto simp: getIndexValue_def split: option.splits if_splits res.splits)
  obtain root where root: "x_root x = Some root" and t: "table_ok J uni ct root (tableTxn_of ct x) (V table)"
    using txn_inv_root [OF ok] ct by metis
  have wf: "ct_wf ct" using table_okD(1) [OF t] by (simp add: tt_wf_def)
  have mem: "ci \<in> set (take (ct_classic ct) (ct_indexes ct))" by (rule byName_index(1) [OF wf ci])
  moreover have "readableIndex ct ci x = Ret (cur_tree root (tableTxn_of ct x) ci)"
    by (rule readableIndex_cur [OF root table_okD(1) [OF t]]) (use mem in \<open>auto dest: in_set_takeD\<close>)
  ultimately show ?thesis using ct tree_entries [OF t mem] by blast
qed

text \<open>A list of entries in key order, as the iterators of a tree of rows return it.\<close>

definition decoded :: "(bytes \<times> cell) list \<Rightarrow> (bytes \<times> obj) list" where
  "decoded es = map (\<lambda>(k, c). (k, row_of (Some c))) es"

lemma keys_decoded [simp]: "map fst (decoded es) = map fst es"
  by (auto simp: decoded_def)

lemma rows_decoded: "map (\<lambda>(k, c). row_of (Some c)) es = map snd (decoded es)"
  by (auto simp: decoded_def)

lemma set_decoded:
  assumes "\<And>k c. (k, c) \<in> set es \<longleftrightarrow> (\<exists>ob. c = CRow ob \<and> (k, ob) \<in> E)"
  shows "set (decoded es) = E"
  using assms by (force simp: decoded_def row_of_def image_iff)

context juuri_tree
begin

text \<open>What the iterators of a tree return when its entries are the rows \<open>E\<close>.\<close>

lemma tree_of_rows:
  assumes "\<And>k c. j_get J tree k = Some c \<longleftrightarrow> (\<exists>ob. c = CRow ob \<and> (k, ob) \<in> E)"
  shows "set (decoded (j_prefix J tree p)) = {(k, ob) \<in> E. prefix p k}"
    "set (decoded (j_lower J tree p)) = {(k, ob) \<in> E. p \<le> k}"
    "set (decoded (j_rlower J tree p)) = {(k, ob) \<in> E. k \<le> p}"
    "j_get J tree p = None \<longleftrightarrow> (\<nexists>ob. (p, ob) \<in> E)"
proof -
  show "set (decoded (j_prefix J tree p)) = {(k, ob) \<in> E. prefix p k}"
    by (rule set_decoded) (auto simp: assms)
  show "set (decoded (j_lower J tree p)) = {(k, ob) \<in> E. p \<le> k}"
    by (rule set_decoded) (auto simp: assms)
  show "set (decoded (j_rlower J tree p)) = {(k, ob) \<in> E. k \<le> p}"
    by (rule set_decoded) (auto simp: assms)
  show "j_get J tree p = None \<longleftrightarrow> (\<nexists>ob. (p, ob) \<in> E)" using assms [of p] by (cases "j_get J tree p") auto
qed

end

section \<open>The properties\<close>

lemma Get_entries:
  assumes "juuri_laws J" and "txn_ok J uni tabs n x V" and "getIndexValue uni nils tabs table index args = TOk (ct, (ci, pre), val)"
  shows "\<exists>es. Txn_Get J uni nils tabs x table index args = TOk (map snd es) \<and>
    GetReverse J uni nils tabs x table index args = TOk (rev (map snd es)) \<and>
    sorted_wrt (<) (map fst es) \<and> set es = {(k, ob) \<in> index_entries uni ci (V table). prefix (val_bytes val) k}"
proof -
  obtain tree where tree: "readableIndex ct ci x = Ret tree"
      "\<And>k c. j_get J tree k = Some c \<longleftrightarrow> (\<exists>ob. c = CRow ob \<and> (k, ob) \<in> index_entries uni ci (V table))"
    using query_index [OF assms(2,3)] by blast
  note J = juuri_tree.intro [OF assms(1)]
  show ?thesis
    using juuri_tree.tree_of_rows(1) [OF J tree(2), of "val_bytes val"] juuri_tree.sorted_prefix [OF J, of tree "val_bytes val"] tree(1) assms(3)
    by (intro exI [of _ "decoded (j_prefix J tree (val_bytes val))"])
      (simp add: Txn_Get_def GetReverse_def on_index_def rows_in_def rows_decoded juuri_tree.rprefix_rev [OF J] rev_map [symmetric] flip: rows_decoded)
qed

text \<open>
  C9: Get returns the rows whose key in the index starts with the queried value, each entry
  once, in key order; GetReverse returns the same rows in reverse order.
\<close>
theorem Get_rows:
  assumes "juuri_laws J" and "txn_ok J uni tabs n x V" and "getIndexValue uni nils tabs table index args = TOk (ct, (ci, pre), val)"
  shows "\<exists>es. Txn_Get J uni nils tabs x table index args = TOk (map snd es) \<and>
    GetReverse J uni nils tabs x table index args = TOk (rev (map snd es)) \<and>
    sorted_wrt (<) (map fst es) \<and> set es = {(k, ob) \<in> index_entries uni ci (V table). prefix (val_bytes val) k}"
  using assms by (rule Get_entries)

lemma ann_query:
  obtains ct ci where "getIndexValue same_case (\<lambda>_ _. False) sample_tables ''person'' ''name'' [AString [97]] = TOk (ct, (ci, False), Some [97, 0])"
    and "ci_name ci = ''name''"
proof -
  have "(case getIndexValue same_case (\<lambda>_ _. False) sample_tables ''person'' ''name'' [AString [97]] of
      TOk (ct, (ci, pre), val) \<Rightarrow> ci_name ci = ''name'' \<and> \<not> pre \<and> val = Some [97, 0] | _ \<Rightarrow> False)"
    by code_simp
  then show ?thesis using that by (auto split: tres.splits)
qed

lemma Get_rows_witness:
  "\<exists>ci es. ci_name ci = ''name'' \<and>
    Txn_Get rbt_juuri same_case (\<lambda>_ _. False) sample_tables ann_txn ''person'' ''name'' [AString [97]] = TOk (map snd es) \<and>
    set es = {(k, ob) \<in> index_entries same_case ci (ann_rows ''person''). prefix [97, 0] k}"
proof -
  obtain ct ci where q: "getIndexValue same_case (\<lambda>_ _. False) sample_tables ''person'' ''name'' [AString [97]] = TOk (ct, (ci, False), Some [97, 0])"
      "ci_name ci = ''name''" using ann_query by blast
  from Get_rows [OF rbt_laws ann_ok q(1)] q(2) show ?thesis by (auto simp: val_bytes_def)
qed

text \<open>The key of a row in an index that is not unique is one of its values there and its primary key.\<close>

lemma ikeys_suffix: "ikeys uni ci pk ob = map (\<lambda>k. k @ key_suffix ci pk) (keys_of uni ci [] ob)"
  by (simp add: ikeys_def keys_of_def row_keys_cases split: res.split option.split)

lemma equal_row_after:
  assumes "R pk = Some ob" and "v \<in> set (keys_of uni ci [] ob)" and "\<not> ci_unique ci" and "pk \<noteq> []"
  shows "(v @ pk, ob) \<in> index_entries uni ci R" and "\<not> v @ pk \<le> v" and "v \<le> v @ pk"
proof -
  show "(v @ pk, ob) \<in> index_entries uni ci R"
    using assms by (auto simp: index_entries_def ikeys_suffix key_suffix_def)
  show "v \<le> v @ pk" by (induction v) simp_all
  then show "\<not> v @ pk \<le> v" using assms(4) by (metis append_self_conv order.antisym)
qed

text \<open>
  C10: LowerBound returns the rows whose stored key is the queried value or after it, in key order,
  and ReverseLowerBound those whose stored key is the value or before it, in reverse key order.
  In an index that is not unique the stored key of a row is a value of the row followed by its
  primary key, so a row whose value equals the queried one is after it: LowerBound returns the
  row, and ReverseLowerBound does not.
\<close>
theorem bounds_rows:
  assumes "juuri_laws J" and "txn_ok J uni tabs n x V" and "getIndexValue uni nils tabs table index args = TOk (ct, (ci, pre), val)"
  shows "\<exists>up down. LowerBound J uni nils tabs x table index args = TOk (map snd up) \<and>
      ReverseLowerBound J uni nils tabs x table index args = TOk (map snd down) \<and>
      sorted_wrt (<) (map fst up) \<and> set up = {(k, ob) \<in> index_entries uni ci (V table). val_bytes val \<le> k} \<and>
      sorted_wrt (>) (map fst down) \<and> set down = {(k, ob) \<in> index_entries uni ci (V table). k \<le> val_bytes val} \<and>
      (\<forall>pk ob. V table pk = Some ob \<longrightarrow> val_bytes val \<in> set (keys_of uni ci [] ob) \<longrightarrow> \<not> ci_unique ci \<longrightarrow> pk \<noteq> [] \<longrightarrow>
         (val_bytes val @ pk, ob) \<in> set up \<and> (val_bytes val @ pk, ob) \<notin> set down)"
proof -
  obtain tree where tree: "readableIndex ct ci x = Ret tree"
      "\<And>k c. j_get J tree k = Some c \<longleftrightarrow> (\<exists>ob. c = CRow ob \<and> (k, ob) \<in> index_entries uni ci (V table))"
    using query_index [OF assms(2,3)] by blast
  note J = juuri_tree.intro [OF assms(1)] and q = on_index_def rows_in_def rows_decoded assms(3) tree(1)
  let ?l = "decoded (j_lower J tree (val_bytes val))" and ?r = "decoded (j_rlower J tree (val_bytes val))"
  have "LowerBound J uni nils tabs x table index args = TOk (map snd ?l)" by (simp add: LowerBound_def q)
  moreover have "ReverseLowerBound J uni nils tabs x table index args = TOk (map snd ?r)" by (simp add: ReverseLowerBound_def q)
  moreover have "sorted_wrt (<) (map fst ?l)" "sorted_wrt (>) (map fst ?r)"
    using juuri_tree.sorted_lower [OF J] juuri_tree.sorted_rlower [OF J] by simp_all
  moreover note l = juuri_tree.tree_of_rows(2,3) [OF J tree(2), of "val_bytes val"]
  moreover have "(val_bytes val @ pk, ob) \<in> set ?l \<and> (val_bytes val @ pk, ob) \<notin> set ?r"
    if "V table pk = Some ob" "val_bytes val \<in> set (keys_of uni ci [] ob)" "\<not> ci_unique ci" "pk \<noteq> []" for pk ob
    unfolding l using equal_row_after [of "V table", OF that] by simp
  ultimately show ?thesis by blast
qed

text \<open>Ann, whose name is a: the query for the name b returns her, the query for the name a does not.\<close>

lemma bounds_rows_witness:
  "\<exists>ci down. ci_name ci = ''name'' \<and> map snd down = [ann] \<and>
    ReverseLowerBound rbt_juuri same_case (\<lambda>_ _. False) sample_tables ann_txn ''person'' ''name'' [AString [98]] = TOk (map snd down) \<and>
    set down = {(k, ob) \<in> index_entries same_case ci (ann_rows ''person''). k \<le> [98, 0]} \<and>
    ReverseLowerBound rbt_juuri same_case (\<lambda>_ _. False) sample_tables ann_txn ''person'' ''name'' [AString [97]] = TOk []"
proof -
  have "(case getIndexValue same_case (\<lambda>_ _. False) sample_tables ''person'' ''name'' [AString [98]] of
      TOk (ct, (ci, pre), val) \<Rightarrow> ci_name ci = ''name'' \<and> \<not> pre \<and> val = Some [98, 0] | _ \<Rightarrow> False)"
    by code_simp
  then obtain ct ci where q: "getIndexValue same_case (\<lambda>_ _. False) sample_tables ''person'' ''name'' [AString [98]] = TOk (ct, (ci, False), Some [98, 0])"
      "ci_name ci = ''name''" by (auto split: tres.splits)
  have a: "ReverseLowerBound rbt_juuri same_case (\<lambda>_ _. False) sample_tables ann_txn ''person'' ''name'' [AString [98]] = TOk [ann]"
    and e: "ReverseLowerBound rbt_juuri same_case (\<lambda>_ _. False) sample_tables ann_txn ''person'' ''name'' [AString [97]] = TOk []"
    by code_simp+
  obtain down where d: "ReverseLowerBound rbt_juuri same_case (\<lambda>_ _. False) sample_tables ann_txn ''person'' ''name'' [AString [98]] = TOk (map snd down)"
      "set down = {(k, ob) \<in> index_entries same_case ci (ann_rows ''person''). k \<le> [98, 0]}"
    using bounds_rows [OF rbt_laws ann_ok q(1)] unfolding val_bytes_def option.case by blast
  from d(1) have m: "map snd down = [ann]" unfolding a by simp
  show ?thesis by (intro exI [of _ ci] exI [of _ down] conjI) (fact q(2) m d e)+
qed

text \<open>
  C11: First and Last return the first and the last row of Get (nil for none). On a unique
  index with a whole value, where they look the key up instead, they return the row under
  exactly that key, or nil.
\<close>
theorem First_Last_rows:
  assumes "juuri_laws J" and "txn_ok J uni tabs n x V" and "getIndexValue uni nils tabs table index args = TOk (ct, (ci, pre), val)"
    and "Txn_Get J uni nils tabs x table index args = TOk rows"
    and "Txn_First J uni nils tabs x table index args = f" and "Txn_Last J uni nils tabs x table index args = l"
  shows "if ci_unique ci \<and> val \<noteq> None \<and> \<not> pre
    then (case f of TOk ob \<Rightarrow> if \<exists>o'. (val_bytes val, o') \<in> index_entries uni ci (V table)
          then (val_bytes val, ob) \<in> index_entries uni ci (V table) else ob = ONil | _ \<Rightarrow> False) \<and> l = f
    else f = TOk (case rows of [] \<Rightarrow> ONil | ob # _ \<Rightarrow> ob) \<and> l = TOk (case rev rows of [] \<Rightarrow> ONil | ob # _ \<Rightarrow> ob)"
proof -
  obtain tree where tree: "readableIndex ct ci x = Ret tree"
      "\<And>k c. j_get J tree k = Some c \<longleftrightarrow> (\<exists>ob. c = CRow ob \<and> (k, ob) \<in> index_entries uni ci (V table))"
    using query_index [OF assms(2,3)] by blast
  note J = juuri_tree.intro [OF assms(1)] and q = on_index_def assms(3) tree(1)
  note g = juuri_tree.tree_of_rows(4) [OF J tree(2), of "val_bytes val"]
  let ?es = "j_prefix J tree (val_bytes val)"
  have rows: "rows = map (\<lambda>(k, c). row_of (Some c)) ?es" using assms(4) by (simp add: Txn_Get_def q)
  show ?thesis
  proof (cases "exact ci pre val")
    case True
    then have fl: "f = TOk (row_of (j_get J tree (val_bytes val)))" "l = f"
      using assms(5,6) by (auto simp: Txn_First_def Txn_Last_def q)
    show ?thesis
    proof (cases "j_get J tree (val_bytes val)")
      case None
      then show ?thesis using True fl g by (simp add: exact_def row_of_def)
    next
      case (Some c)
      then show ?thesis using True fl tree(2) [of "val_bytes val" c] by (auto simp: exact_def row_of_def)
    qed
  next
    case False
    then have "f = TOk (row_of (j_first J tree (val_bytes val)))" "l = TOk (row_of (j_last J tree (val_bytes val)))"
      using assms(5,6) by (auto simp: Txn_First_def Txn_Last_def q)
    moreover have "row_of (j_first J tree (val_bytes val)) = (case rows of [] \<Rightarrow> ONil | ob # _ \<Rightarrow> ob)"
      unfolding rows juuri_tree.first_prefix [OF J] by (cases ?es) (auto simp: row_of_def)
    moreover have "row_of (j_last J tree (val_bytes val)) = (case rev rows of [] \<Rightarrow> ONil | ob # _ \<Rightarrow> ob)"
      unfolding rows juuri_tree.last_prefix [OF J] rev_map [symmetric] by (cases "rev ?es") (auto simp: row_of_def rev_map)
    moreover have "\<not> (ci_unique ci \<and> val \<noteq> None \<and> \<not> pre)" using False by (simp add: exact_def)
    ultimately show ?thesis by (simp only: if_False)
  qed
qed

lemma First_Last_rows_witness:
  "\<exists>rows. Txn_Get rbt_juuri same_case (\<lambda>_ _. False) sample_tables ann_txn ''person'' ''id'' [AString [1]] = TOk rows \<and>
    Txn_Last rbt_juuri same_case (\<lambda>_ _. False) sample_tables ann_txn ''person'' ''id'' [AString [1]] =
    Txn_First rbt_juuri same_case (\<lambda>_ _. False) sample_tables ann_txn ''person'' ''id'' [AString [1]]"
proof -
  have "(case getIndexValue same_case (\<lambda>_ _. False) sample_tables ''person'' ''id'' [AString [1]] of
      TOk (ct, (ci, pre), val) \<Rightarrow> ci_unique ci \<and> \<not> pre \<and> val = Some [1, 0] | _ \<Rightarrow> False)"
    by code_simp
  then obtain ct ci where q: "getIndexValue same_case (\<lambda>_ _. False) sample_tables ''person'' ''id'' [AString [1]] =
      TOk (ct, (ci, False), Some [1, 0])" "ci_unique ci"
    by (auto split: tres.splits)
  moreover obtain tree where "readableIndex ct ci ann_txn = Ret tree" using query_index [OF ann_ok q(1)] by blast
  ultimately obtain rows where g: "Txn_Get rbt_juuri same_case (\<lambda>_ _. False) sample_tables ann_txn ''person'' ''id'' [AString [1]] = TOk rows"
    by (simp add: Txn_Get_def)
  from First_Last_rows [OF rbt_laws ann_ok q(1) g refl refl] q(2) g show ?thesis by simp
qed

subsection \<open>Reading one's own writes\<close>

lemma id_query:
  assumes "ct_wf ct" and "ni_get tabs name = Some ct" and "primaryKey uni ct ob = TOk pk" and "pk \<noteq> []"
    and "query_arg ob (ci_ix (id_index ct)) = Some a"
  shows "getIndexValue uni nils tabs name ''id'' [a] = TOk (ct, (id_index ct, False), Some pk)"
proof -
  have n: "\<not> HasSuffix ''id'' prefixSuffix" "TrimSuffix ''id'' prefixSuffix = ''id''" by code_simp+
  have "distinct (map ci_name (take (ct_classic ct) (ct_indexes ct)))" using assms(1) by (simp add: ct_wf_def flip: take_map)
  moreover have "ci_name (id_index ct) = ''id''" using assms(1) by (simp add: ct_wf_def id_index_def)
  ultimately have r: "ni_get (ct_byName ct) ''id'' = Some (id_index ct, False)"
    using assms(1) n indexNames_get [of "take (ct_classic ct) (ct_indexes ct)" "''id''"] id_secondary(3) [OF assms(1)]
    by (simp add: ct_wf_def)
  have q: "up_args uni (ci_ix (id_index ct)) [a] = Ok pk"
    by (rule query_key [OF _ assms(5)]) (use assms(3) in \<open>simp add: primaryKey_single\<close>)
  then have "out = pk" if "appendArgs uni False (ci_ix (id_index ct)) [a] [] = Some out" for out
    using appendArgs_up [OF that] by (simp add: up_query_def)
  then show ?thesis using assms(2,4) r q
    by (auto simp: getIndexValue_def FromArgs_up split: option.split)
qed

text \<open>A stored row is found by the value of its field that the index \<^verbatim>\<open>id\<close> is on.\<close>

lemma stored_row_found:
  assumes J: "juuri_laws J" and ok: "txn_ok J uni tabs n x V" and ct: "ni_get tabs name = Some ct" and row: "V name pk = Some ob" and "pk \<noteq> []"
    and a: "query_arg ob (ci_ix (id_index ct)) = Some a"
  shows "Txn_First J uni nils tabs x name ''id'' [a] = TOk ob"
proof -
  obtain root where root: "x_root x = Some root" and t: "table_ok J uni ct root (tableTxn_of ct x) (V name)"
    using txn_inv_root [OF ok] ct by metis
  have wf: "ct_wf ct" and ix: "indexable uni ct pk ob"
    using table_okD(1) [OF t] table_okD(5) [OF t row] by (simp_all add: tt_wf_def)
  have "getIndexValue uni nils tabs name ''id'' [a] = TOk (ct, (id_index ct, False), Some pk)"
    by (rule id_query [OF wf ct _ assms(5) a]) (use ix in \<open>simp add: indexable_def\<close>)
  moreover have "readableIndex ct (id_index ct) x = Ret (cur_tree root (tableTxn_of ct x) (id_index ct))"
    by (rule readableIndex_cur [OF root table_okD(1) [OF t] id_secondary(1) [OF wf]])
  moreover have "ci_unique (id_index ct)" using wf by (simp add: ct_wf_def id_index_def)
  ultimately show ?thesis using table_okD(2) [OF t, of pk] row
    by (simp add: Txn_First_def on_index_def exact_def val_bytes_def row_of_def)
qed

text \<open>
  A transaction reads its own writes: after a successful Insert the query for the value of
  the row's id field returns the row.
\<close>
theorem read_your_writes:
  assumes "juuri_laws J" and "txn_ok J uni tabs n x V" and "ni_get tabs name = Some ct" and "\<not> is_nil ob"
    and "primaryKey uni ct ob = TOk pk" and "pk \<noteq> []" and "no_clash uni ct ((V name)(pk \<mapsto> ob))"
    and "Insert J uni tabs name ob x = (TOk (), x')" and "query_arg ob (ci_ix (id_index ct)) = Some a"
  shows "Txn_First J uni nils tabs x' name ''id'' [a] = TOk ob"
proof -
  have "txn_ok J uni tabs n x' (V(name := (V name)(pk \<mapsto> ob)))" by (rule Insert_rows [OF assms(1-5,7,8)])
  then show ?thesis by (rule stored_row_found [OF assms(1) _ assms(3) _ assms(6,9)]) simp
qed

lemma read_your_writes_witness:
  "Txn_First rbt_juuri same_case (\<lambda>_ _. False) sample_tables ann_txn ''person'' ''id'' [AString [1]] = TOk ann"
proof -
  have "\<not> is_nil ann" by code_simp
  moreover have "query_arg ann (ci_ix (id_index sample_ct)) = Some (AString [1])" by code_simp
  ultimately show ?thesis
    using read_your_writes [OF rbt_laws sample_ok sample_get _ ann_key _ one_row_no_clash ann_inserted] by simp
qed

end
