(* ===== verification/Clashes.thy ===== *)
theory Clashes
  imports QuerySpec
begin

text \<open>
  Rows that share a key of a unique secondary index, on a concrete database: what an Insert
  leaves of the index then, which the theorem on Insert states in general.
\<close>

section \<open>Two persons with one name\<close>

text \<open>
  Two rows with one key in a unique secondary index: both inserts succeed, the index leads to the
  row written last, the table has both rows, and deleting that row leaves the other without its entry.
\<close>

definition clash_schema :: dbSchema where
  "clash_schema =
    [(''person'', \<lparr>ts_name = ''person'', ts_indexes =
       [(''name'', \<lparr>is_name = ''name'', is_allowMissing = False, is_unique = True, is_indexer = SPlain (IString ''Name'' False)\<rparr>),
        (''id'', \<lparr>is_name = ''id'', is_allowMissing = False, is_unique = True, is_indexer = SPlain (IString ''ID'' False)\<rparr>)]\<rparr>)]"

definition clash_tables :: "compiledTable nameIndex" where
  "clash_tables = (case compileSchema clash_schema of Ret (Inr (tabs, _)) \<Rightarrow> tabs | _ \<Rightarrow> \<lparr>entries = [], off = []\<rparr>)"

definition clash_txn :: "(bytes, cell) RBT.rbt txn" where
  "clash_txn = \<lparr>x_root = Some (newDBRoot rbt_juuri clash_tables 2), x_write = True, x_tables = None, x_after = None,
     x_afterMore = None, x_changes = Some []\<rparr>"

definition insert_both :: "unit tres \<times> unit tres \<times> (bytes, cell) RBT.rbt txn" where
  "insert_both = (let (r, x) = Insert rbt_juuri same_case clash_tables ''person'' (person [1] [97] []) clash_txn;
     (r', y) = Insert rbt_juuri same_case clash_tables ''person'' (person [2] [97] []) x in (r, r', y))"

definition names_found :: "string \<Rightarrow> bytes \<Rightarrow> (bytes, cell) RBT.rbt txn \<Rightarrow> obj list" where
  "names_found index key x = (case Txn_Get rbt_juuri same_case (\<lambda>_ _. False) clash_tables x ''person'' index [AString key] of TOk obs \<Rightarrow> obs | _ \<Rightarrow> [])"

lemma last_write_wins:
  "case insert_both of (r, r', y) \<Rightarrow> r = TOk () \<and> r' = TOk () \<and>
     names_found ''name'' [97] y = [person [2] [97] []] \<and> names_found ''id'' [1] y = [person [1] [97] []] \<and>
     names_found ''name'' [97] (snd (Delete rbt_juuri same_case clash_tables ''person'' (person [2] [97] []) y)) = []"
  by code_simp

end
