(* ===== verification/SetQuerySpec.thy ===== *)
theory SetQuerySpec
  imports QuerySpec BitmapSpec
begin

text \<open>
  The properties of the set queries: what Where and AllRows return in terms of the rows of the
  table, and the iteration of row sets.
\<close>

section \<open>Row sets and rows\<close>

definition rs_objs :: "rowSet \<Rightarrow> obj set" where
  "rs_objs rs = {ob. \<exists>i. unat i \<in> bm_set (rs_bits rs) \<and> Get (rs_rows rs) i = Some ob}"

text \<open>The ids of the rows with a property.\<close>

definition ids_with :: "'t juuri \<Rightarrow> 't tableRows \<Rightarrow> (bytes \<Rightarrow> obj option) \<Rightarrow> (obj \<Rightarrow> bool) \<Rightarrow> nat set" where
  "ids_with J r R P = {n. \<exists>i pk ob. n = unat i \<and> idof J r pk = Some i \<and> R pk = Some ob \<and> P ob}"

lemma ids_with_ops:
  assumes "rows_ok J r R"
  shows "ids_with J r R P \<inter> ids_with J r R Q = ids_with J r R (\<lambda>ob. P ob \<and> Q ob)"
    "ids_with J r R P \<union> ids_with J r R Q = ids_with J r R (\<lambda>ob. P ob \<or> Q ob)"
    "ids_with J r R P - ids_with J r R Q = ids_with J r R (\<lambda>ob. P ob \<and> \<not> Q ob)"
proof -
  have one: "p = q \<and> ob = o'" if "unat i = unat j" "idof J r p = Some i" "idof J r q = Some j" "R p = Some ob" "R q = Some o'"
    for i j p q ob o'
    using that rows_okD(3) [OF assms, of p i q] by (simp add: word_unat_eq_iff [symmetric])
  show "ids_with J r R P \<inter> ids_with J r R Q = ids_with J r R (\<lambda>ob. P ob \<and> Q ob)"
    "ids_with J r R P \<union> ids_with J r R Q = ids_with J r R (\<lambda>ob. P ob \<or> Q ob)"
    "ids_with J r R P - ids_with J r R Q = ids_with J r R (\<lambda>ob. P ob \<and> \<not> Q ob)"
    unfolding ids_with_def using one by blast+
qed

lemma rows_of_ids:
  assumes r: "rows_ok J r R" and b: "bm_set (rs_bits rs) = ids_with J r R P" "rs_rows rs = r_rows r"
  shows "rs_objs rs = {ob. \<exists>pk. R pk = Some ob \<and> P ob}"
proof (intro set_eqI iffI)
  fix ob assume "ob \<in> rs_objs rs"
  then obtain i j p o' where p: "unat i = unat j" "idof J r p = Some j" "R p = Some o'" "P o'" and g: "Get (r_rows r) i = Some ob"
    unfolding rs_objs_def b ids_with_def by blast
  obtain q where q: "idof J r q = Some i" "R q = Some ob" using g rows_okD(5) [OF r, of i ob] by blast
  have "i = j" using p(1) by (simp add: word_unat_eq_iff)
  then have "p = q" using rows_okD(3) [OF r] p(2) q(1) by blast
  then show "ob \<in> {ob. \<exists>pk. R pk = Some ob \<and> P ob}" using p(3,4) q(2) by auto
next
  fix ob assume "ob \<in> {ob. \<exists>pk. R pk = Some ob \<and> P ob}"
  then obtain pk where pk: "R pk = Some ob" "P ob" by blast
  then obtain i where i: "idof J r pk = Some i" using rows_okD(2) [OF r] by blast
  moreover have "Get (r_rows r) i = Some ob" using rows_okD(5) [OF r, of i ob] pk(1) i by blast
  ultimately show "ob \<in> rs_objs rs" using pk unfolding rs_objs_def b ids_with_def by blast
qed

lemma card_ids_with:
  assumes r: "rows_ok J r R"
  shows "card (ids_with J r R P) = card {pk. \<exists>ob. R pk = Some ob \<and> P ob}" and "card (ids_with J r R P) < 2 ^ 32"
proof -
  let ?S = "{pk. \<exists>ob. R pk = Some ob \<and> P ob}" and ?f = "\<lambda>pk. unat (the (idof J r pk))"
  have id: "\<exists>i. idof J r pk = Some i" if "pk \<in> ?S" for pk using that rows_okD(2) [OF r] by blast
  have "inj_on ?f ?S"
  proof (rule inj_onI)
    fix p q assume "p \<in> ?S" "q \<in> ?S" and e: "?f p = ?f q"
    then obtain i j where ij: "idof J r p = Some i" "idof J r q = Some j" using id [of p] id [of q] by blast
    then have "i = j" using e by (simp add: word_unat_eq_iff)
    then show "p = q" using ij rows_okD(3) [OF r, of p i q] by blast
  qed
  moreover have "ids_with J r R P = ?f ` ?S"
  proof (intro set_eqI iffI)
    fix n assume "n \<in> ids_with J r R P"
    then obtain i pk ob where "n = unat i" "idof J r pk = Some i" "R pk = Some ob" "P ob" by (auto simp: ids_with_def)
    then show "n \<in> ?f ` ?S" by (intro image_eqI [of _ _ pk]) auto
  next
    fix n assume "n \<in> ?f ` ?S"
    then obtain pk ob where "n = ?f pk" "R pk = Some ob" "P ob" by blast
    moreover obtain i where "idof J r pk = Some i" using id [of pk] calculation by blast
    ultimately show "n \<in> ids_with J r R P" by (auto simp: ids_with_def)
  qed
  ultimately show "card (ids_with J r R P) = card ?S" by (simp add: card_image)
  have "ids_with J r R P \<subseteq> ids_of J r" unfolding ids_with_def ids_of_def by blast
  also have "\<dots> \<subseteq> {..<unat (r_next r)}" by (rule rows_okD(9) [OF r])
  finally have "card (ids_with J r R P) \<le> unat (r_next r)" using card_mono [of "{..<unat (r_next r)}"] by simp
  moreover have "unat (r_next r) < 2 ^ LENGTH(32)" by (rule unsigned_less)
  ultimately show "card (ids_with J r R P) < 2 ^ 32" by simp
qed

text \<open>A row set of a transaction: the rows of one table with a property.\<close>

definition selects :: "'t juuri \<Rightarrow> compiledTable \<Rightarrow> 't tableRows \<Rightarrow> (bytes \<Rightarrow> obj option) \<Rightarrow> rowSet \<Rightarrow> (obj \<Rightarrow> bool) \<Rightarrow> bool" where
  "selects J ct r R rs P \<longleftrightarrow> rs_table rs = ct_ord ct \<and> rs_rows rs = r_rows r \<and> bm_wf (rs_bits rs) \<and> bm_set (rs_bits rs) = ids_with J r R P"

lemma selects_rows:
  assumes "rows_ok J r R" and "selects J ct r R rs P"
  shows "rs_objs rs = {ob. \<exists>pk. R pk = Some ob \<and> P ob} \<and> RowSet_Len rs = int (card {pk. \<exists>ob. R pk = Some ob \<and> P ob})"
proof -
  have s: "rs_rows rs = r_rows r" "bm_wf (rs_bits rs)" "bm_set (rs_bits rs) = ids_with J r R P" using assms(2) by (simp_all add: selects_def)
  have "card (bm_set (rs_bits rs)) < 2 ^ 32" using card_ids_with(2) [OF assms(1)] s(3) by simp
  then have "int (card (bm_set (rs_bits rs))) mod 2 ^ 32 = int (card (bm_set (rs_bits rs)))" by simp
  then show ?thesis using rows_of_ids [OF assms(1) s(3,1)] card_ids_with(1) [OF assms(1), of P] s(3) Len_correct [OF s(2)]
    by (simp add: RowSet_Len_def)
qed

section \<open>What Where and AllRows select\<close>

text \<open>The bookkeeping and the bitmap indexes a transaction reads.\<close>

lemma table_bits:
  assumes ok: "txn_ok J uni tabs n x V" and ct: "ni_get tabs table = Some ct" and hb: "has_bitmaps ct"
  shows "\<exists>root r. x_root x = Some root \<and> tableRowsOf ct x = Ret r \<and> rows_ok J r (V table) \<and>
    (\<forall>ci\<in>set (bitmap_indexes ct). \<exists>t. readableIndex ct ci x = Ret t \<and> sets_ok J t \<and> setT J t = members J uni ci r (V table)) \<and>
    ct_wf ct"
proof -
  obtain root where root: "x_root x = Some root" and t: "table_ok J uni ct root (tableTxn_of ct x) (V table)"
    using txn_inv_root [OF ok] ct by metis
  note wf = table_okD(1) [OF t]
  obtain r where r: "rowsOf root (tableTxn_of ct x) = Ret r" "bits_ok J uni ct (cur_tree root (tableTxn_of ct x)) r (V table)"
    using table_okD(4) [OF t hb] by blast
  have "tableRowsOf ct x = rowsOf root (tableTxn_of ct x)"
    using wf root by (auto simp: tableRowsOf_def rowsOf_def tableTxn_of_def tt_wf_def split: option.split)
  moreover have "readableIndex ct ci x = Ret (cur_tree root (tableTxn_of ct x) ci)" if "ci \<in> set (bitmap_indexes ct)" for ci
    by (rule readableIndex_cur [OF root wf]) (use that in \<open>auto simp: bitmap_indexes_def dest: in_set_dropD\<close>)
  ultimately show ?thesis using r root wf by (auto simp: bits_ok_def tt_wf_def)
qed

lemma bitmapIndex_mem:
  assumes "ct_wf ct" and "bitmapIndex ct index = Some (ci, pre)"
  shows "ci \<in> set (bitmap_indexes ct)" "has_bitmaps ct"
proof -
  have hb: "ct_bitmapByName ct = Some (indexNames (bitmap_indexes ct))" "has_bitmaps ct"
    using assms by (auto simp: bitmapIndex_def ct_wf_def bitmap_indexes_def has_bitmaps_def split: if_splits)
  have "distinct (map ci_name (bitmap_indexes ct))" using assms(1) by (simp add: ct_wf_def bitmap_indexes_def flip: drop_map)
  then have "find (\<lambda>ci. ci_name ci = TrimSuffix index prefixSuffix) (bitmap_indexes ct) = Some ci"
    using assms(2) hb(1) indexNames_get [of "bitmap_indexes ct" index] by (auto simp: bitmapIndex_def)
  then show "ci \<in> set (bitmap_indexes ct)" unfolding find_Some_iff by (metis nth_mem)
  show "has_bitmaps ct" by (rule hb(2))
qed

lemma or_all_sets:
  "bm_wf b \<Longrightarrow> (\<And>c. c \<in> set cs \<Longrightarrow> \<exists>s. c = CBits s \<and> bm_wf s) \<Longrightarrow>
   \<exists>b'. or_all cs b = Ret b' \<and> bm_wf b' \<and> bm_set b' = bm_set b \<union> {i. \<exists>s. CBits s \<in> set cs \<and> i \<in> bm_set s}"
proof (induction cs arbitrary: b)
  case (Cons c cs)
  obtain s where s: "c = CBits s" "bm_wf s" using Cons.prems(2) [of c] by auto
  have "\<exists>b'. or_all cs (Or b s) = Ret b' \<and> bm_wf b' \<and> bm_set b' = bm_set (Or b s) \<union> {i. \<exists>s. CBits s \<in> set cs \<and> i \<in> bm_set s}"
    by (rule Cons.IH) (use Cons.prems s in auto)
  then show ?case using s Cons.prems(1) by auto
qed simp

text \<open>The rows with a value that matches: exactly, or by a prefix.\<close>

definition has_value :: "(bytes \<Rightarrow> bytes) \<Rightarrow> compiledIndex \<Rightarrow> bool \<Rightarrow> bytes \<Rightarrow> obj \<Rightarrow> bool" where
  "has_value uni ci pre val ob \<longleftrightarrow> (\<exists>k\<in>set (vals_of uni ci ob). if pre then prefix val k else k = val)"

lemma setT_mem: "i \<in> setT J t k \<longleftrightarrow> (\<exists>s. j_get J t k = Some (CBits s) \<and> i \<in> bm_set s)"
  by (auto simp: setT_def split: option.splits cell.splits)

lemma Where_selects:
  assumes J: "juuri_laws J" and ok: "txn_ok J uni tabs n x V" and ct: "ni_get tabs table = Some ct"
    and ci: "bitmapIndex ct index = Some (ci, pre)" and "args \<noteq> []" and val: "bitmap_value uni ci pre args = TOk val"
    and r: "tableRowsOf ct x = Ret r"
  shows "\<exists>rs. Where J uni tabs x table index args = TOk rs \<and> selects J ct r (V table) rs (has_value uni ci pre val)"
proof -
  have wf: "ct_wf ct" using ok ct by (metis db_okD(1) txn_invD(1))
  note mem = bitmapIndex_mem [OF wf ci]
  obtain root r' where tb: "x_root x = Some root" "tableRowsOf ct x = Ret r'"
      "\<forall>ci\<in>set (bitmap_indexes ct). \<exists>t. readableIndex ct ci x = Ret t \<and> sets_ok J t \<and> setT J t = members J uni ci r' (V table)"
    using table_bits [OF ok ct mem(2)] by blast
  then have [simp]: "r' = r" using r by simp
  obtain t where t: "readableIndex ct ci x = Ret t" "sets_ok J t" "setT J t = members J uni ci r (V table)"
    using bspec [OF tb(3) mem(1)] by auto
  have ids: "ids_with J r (V table) (has_value uni ci pre val) = {i. \<exists>k. (if pre then prefix val k else k = val) \<and> i \<in> setT J t k}"
    unfolding t(3) members_def ids_with_def has_value_def by blast
  show ?thesis
  proof (cases pre)
    case False
    obtain b where b: "j_get J t val = None \<and> b = None \<or> j_get J t val = Some (CBits b)" "bm_wf b" "bm_set b = setT J t val"
    proof (rule sets_ok_cases [OF t(2), of val])
      assume "j_get J t val = None" "setT J t val = {}"
      then show ?thesis using that [of None] by simp
    next
      fix s assume "j_get J t val = Some (CBits s)" "bm_wf s" "setT J t val = bm_set s"
      then show ?thesis using that [of s] by simp
    qed
    from b(1) have "Where J uni tabs x table index args = TOk \<lparr>rs_table = ct_ord ct, rs_rows = r_rows r, rs_bits = b\<rparr>"
      using False tb(1) ct ci assms(5) val r t(1) by (elim disjE conjE) (simp_all add: Where_def Let_def)
    then show ?thesis using b(2,3) ids False by (simp add: selects_def)
  next
    case True
    have "\<exists>s. c = CBits s \<and> bm_wf s" if "c \<in> set (map snd (j_prefix J t val))" for c
      using that sets_okD [OF t(2)] juuri_tree.set_prefix [OF juuri_tree.intro [OF J], of t val] by fastforce
    then obtain b where b: "or_all (map snd (j_prefix J t val)) None = Ret b" "bm_wf b"
        "bm_set b = bm_set None \<union> {i. \<exists>s. CBits s \<in> set (map snd (j_prefix J t val)) \<and> i \<in> bm_set s}"
      using or_all_sets [OF bm.ok_emp] by blast
    have "CBits s \<in> set (map snd (j_prefix J t val)) \<longleftrightarrow> (\<exists>k. j_get J t k = Some (CBits s) \<and> prefix val k)" for s
      by (simp add: juuri_tree.set_prefix [OF juuri_tree.intro [OF J]] image_iff)
    then have "{i. \<exists>s. CBits s \<in> set (map snd (j_prefix J t val)) \<and> i \<in> bm_set s} = {i. \<exists>k. prefix val k \<and> i \<in> setT J t k}"
      unfolding setT_mem by blast
    then have "bm_set b = ids_with J r (V table) (has_value uni ci pre val)" unfolding b(3) ids using True by simp
    then show ?thesis using True tb(1) ct ci assms(5) val r t(1) b(1,2) by (simp add: Where_def selects_def Let_def)
  qed
qed

lemma AllRows_selects:
  assumes ok: "txn_ok J uni tabs n x V" and ct: "ni_get tabs table = Some ct" and hb: "has_bitmaps ct" and r: "tableRowsOf ct x = Ret r"
  shows "\<exists>rs. AllRows tabs x table = TOk rs \<and> selects J ct r (V table) rs (\<lambda>_. True)"
proof -
  obtain root where tb: "x_root x = Some root" "rows_ok J r (V table)" using table_bits [OF ok ct hb] r by auto
  have "ids_of J r = ids_with J r (V table) (\<lambda>_. True)" using rows_okD(2) [OF tb(2)] unfolding ids_of_def ids_with_def by blast
  then show ?thesis using tb(1) ct hb r rows_okD(6,8) [OF tb(2)] by (simp add: AllRows_def selects_def has_bitmaps_def)
qed

text \<open>What a query asks for.\<close>

definition wanted :: "(bytes \<Rightarrow> bytes) \<Rightarrow> compiledTable nameIndex \<Rightarrow> string \<Rightarrow> string \<Rightarrow> arg list \<Rightarrow> obj \<Rightarrow> bool" where
  "wanted uni tabs table index args ob = (case ni_get tabs table of None \<Rightarrow> False
   | Some ct \<Rightarrow> (case bitmapIndex ct index of None \<Rightarrow> False
     | Some (ci, pre) \<Rightarrow> (case bitmap_value uni ci pre args of TOk val \<Rightarrow> has_value uni ci pre val ob | _ \<Rightarrow> False)))"

lemma Where_TOk:
  assumes "juuri_laws J" and ok: "txn_ok J uni tabs n x V" and w: "Where J uni tabs x table index args = TOk rs"
  shows "\<exists>ct r. ni_get tabs table = Some ct \<and> has_bitmaps ct \<and> tableRowsOf ct x = Ret r \<and> rows_ok J r (V table) \<and>
    selects J ct r (V table) rs (wanted uni tabs table index args)"
proof -
  obtain ct ci pre val where q: "ni_get tabs table = Some ct" "bitmapIndex ct index = Some (ci, pre)" "args \<noteq> []"
      "bitmap_value uni ci pre args = TOk val"
    using w by (auto simp: Where_def split: option.splits if_splits tres.splits)
  have wf: "ct_wf ct" using ok q(1) by (metis db_okD(1) txn_invD(1))
  note hb = bitmapIndex_mem(2) [OF wf q(2)]
  obtain r where r: "tableRowsOf ct x = Ret r" "rows_ok J r (V table)" using table_bits [OF ok q(1) hb] by blast
  have "wanted uni tabs table index args = has_value uni ci pre val" by (rule ext) (simp add: wanted_def q)
  then show ?thesis using Where_selects [OF assms(1) ok q r(1)] w q(1) hb r by auto
qed

section \<open>The properties\<close>

text \<open>
  C12: Where succeeds on a bitmap index and a value it can encode, and selects exactly the rows
  of the table that have the value in the index (for a prefix query: a value that starts with
  it); Len is their number, with no wrap-around. AllRows selects all rows of the table.
\<close>
theorem Where_rows:
  assumes "juuri_laws J" and "txn_ok J uni tabs n x V" and "ni_get tabs table = Some ct"
    and "bitmapIndex ct index = Some (ci, pre)" and "args \<noteq> []" and "bitmap_value uni ci pre args = TOk val"
  shows "(\<exists>rs. Where J uni tabs x table index args = TOk rs \<and>
      rs_objs rs = {ob. \<exists>pk. V table pk = Some ob \<and> has_value uni ci pre val ob} \<and>
      RowSet_Len rs = int (card {pk. \<exists>ob. V table pk = Some ob \<and> has_value uni ci pre val ob})) \<and>
    (\<exists>rs. AllRows tabs x table = TOk rs \<and> rs_objs rs = ran (V table) \<and> RowSet_Len rs = int (card (dom (V table))))"
proof -
  have wf: "ct_wf ct" using assms(2,3) by (metis db_okD(1) txn_invD(1))
  note hb = bitmapIndex_mem(2) [OF wf assms(4)]
  obtain r where r: "tableRowsOf ct x = Ret r" "rows_ok J r (V table)" using table_bits [OF assms(2,3) hb] by blast
  obtain s where "Where J uni tabs x table index args = TOk s" "selects J ct r (V table) s (has_value uni ci pre val)"
    using Where_selects [OF assms r(1)] by blast
  moreover obtain a where "AllRows tabs x table = TOk a" "selects J ct r (V table) a (\<lambda>_. True)"
    using AllRows_selects [OF assms(2,3) hb r(1)] by blast
  ultimately show ?thesis using selects_rows [OF r(2)] by (fastforce simp: ran_def dom_def)
qed

section \<open>Iteration\<close>

text \<open>A consumer fed from a list, until it stops.\<close>

fun feed :: "('s \<Rightarrow> obj \<Rightarrow> 's \<times> bool) \<Rightarrow> obj list \<Rightarrow> 's \<Rightarrow> 's" where
  "feed yield [] s = s"
| "feed yield (ob # obs) s = (case yield s ob of (s', go_on) \<Rightarrow> if go_on then feed yield obs s' else s')"

definition obj_at :: "obj vector \<Rightarrow> nat \<Rightarrow> obj" where
  "obj_at v n = (case Get v (word_of_nat n) of None \<Rightarrow> ONil | Some ob \<Rightarrow> ob)"

lemma RowSet_All_loop_rest:
  "it_ok it \<Longrightarrow> cursor_ok c \<Longrightarrow> RowSet_All_loop yield (it, c) s = Some (feed yield (map (obj_at (c_v c)) (it_rest it)) s)"
proof (induction "it_rest it" arbitrary: it c s)
  case Nil
  have "\<exists>it'. Next it = Some (it', None)" using Next_correct [OF Nil.prems(1)] unfolding Nil.hyps [symmetric] list.case .
  then show ?case using Nil.hyps by (subst RowSet_All_loop.simps) auto
next
  case (Cons n ns)
  obtain it' i where n: "Next it = Some (it', Some i)" "unat i = n" "it_ok it'" "it_rest it' = ns"
    using Next_correct [OF Cons.prems(1)] unfolding Cons.hyps(2) [symmetric] by auto
  obtain c' v where g: "CursorGet c i = (c', v)" by fastforce
  have c': "cursor_ok c'" "c_v c' = c_v c" "v = Get (c_v c) i" using CursorGet_correct [OF Cons.prems(2), of i] g by auto
  have "word_of_nat n = i" using n(2) by (simp add: word_of_nat_eq_iff flip: n(2))
  then have "obj_at (c_v c) n = (case v of None \<Rightarrow> ONil | Some ob \<Rightarrow> ob)" by (simp add: obj_at_def c'(3))
  moreover have "RowSet_All_loop yield (it', c') s' = Some (feed yield (map (obj_at (c_v c)) ns) s')" for s'
    using Cons.hyps(1) [OF n(4) [symmetric] n(3) c'(1)] n(4) c'(2) by simp
  ultimately show ?case unfolding Cons.hyps(2) [symmetric]
    by (subst RowSet_All_loop.simps) (simp add: n(1) g split: prod.split)
qed

lemma RowSet_All_list:
  assumes "bm_wf (rs_bits rs)"
  shows "RowSet_All yield rs s = Some (feed yield (map (obj_at (rs_rows rs)) (sorted_list_of_set (bm_set (rs_bits rs)))) s)"
proof -
  have "cursor_ok (Cursor (rs_rows rs))" "c_v (Cursor (rs_rows rs)) = rs_rows rs" by (simp_all add: cursor_ok_def Cursor_def)
  then show ?thesis using Iterate_rest [OF assms] RowSet_All_loop_rest [of "Iterate (rs_bits rs)" "Cursor (rs_rows rs)" yield s]
    by (simp add: RowSet_All_def RowSet_Iterator_def)
qed

lemma rows_in_order:
  assumes r: "rows_ok J r R" and s: "selects J ct r R rs P"
  shows "\<exists>ids. sorted_wrt (<) (map unat ids) \<and> sorted_list_of_set (bm_set (rs_bits rs)) = map unat ids \<and>
    map (Get (rs_rows rs)) ids = map Some (map (obj_at (rs_rows rs)) (map unat ids)) \<and>
    set (map (obj_at (rs_rows rs)) (map unat ids)) = rs_objs rs"
proof -
  have v: "rs_rows rs = r_rows r" and wf: "bm_wf (rs_bits rs)" and b: "bm_set (rs_bits rs) = ids_with J r R P"
    using s by (simp_all add: selects_def)
  let ?ns = "sorted_list_of_set (bm_set (rs_bits rs))" define ids :: "uint32 list" where "ids = map word_of_nat ?ns"
  have small: "unat (word_of_nat n :: uint32) = n" if "n \<in> bm_set (rs_bits rs)" for n
    using bm_set_less [OF wf that] by (simp add: unat_of_nat)
  have u: "map unat ids = ?ns" unfolding ids_def using small wf by (auto intro!: map_idI)
  have get: "Get (rs_rows rs) i = Some (obj_at (rs_rows rs) (unat i))" if i: "unat i \<in> bm_set (rs_bits rs)" for i
  proof -
    obtain j pk ob where j: "unat i = unat j" "idof J r pk = Some j" "R pk = Some ob" using i unfolding b ids_with_def by blast
    then have "i = j" by (simp add: word_unat_eq_iff)
    then have "Get (rs_rows rs) i = Some ob" unfolding v using rows_okD(5) [OF r, of i ob] j(2,3) by blast
    then show ?thesis by (simp add: obj_at_def)
  qed
  have mem: "unat i \<in> bm_set (rs_bits rs)" if "i \<in> set ids" for i using that small wf by (auto simp: ids_def)
  have "map (Get (rs_rows rs)) ids = map Some (map (obj_at (rs_rows rs)) (map unat ids))"
    unfolding map_map by (rule map_cong [OF refl]) (use get [OF mem] in \<open>simp only: comp_def\<close>)
  moreover have "set (map (obj_at (rs_rows rs)) (map unat ids)) = rs_objs rs"
  proof (intro set_eqI iffI)
    fix ob assume "ob \<in> rs_objs rs"
    then obtain i where i: "unat i \<in> bm_set (rs_bits rs)" "Get (rs_rows rs) i = Some ob" unfolding rs_objs_def by blast
    then have "ob = obj_at (rs_rows rs) (unat i)" using get [OF i(1)] by simp
    then show "ob \<in> set (map (obj_at (rs_rows rs)) (map unat ids))" unfolding u using i(1) wf by simp
  next
    fix ob assume "ob \<in> set (map (obj_at (rs_rows rs)) (map unat ids))"
    then obtain n where n: "n \<in> bm_set (rs_bits rs)" "ob = obj_at (rs_rows rs) n" unfolding u using wf by auto
    then show "ob \<in> rs_objs rs" using get [of "word_of_nat n"] small [OF n(1)] unfolding rs_objs_def by force
  qed
  ultimately show ?thesis using u wf by (intro exI [of _ ids]) simp
qed

text \<open>
  C14: the loop over the result of a query ends, whatever the consumer does: it is fed the rows
  of the set, each once, in ascending order of their ids, until it stops.
\<close>
theorem All_feeds_rows:
  assumes "juuri_laws J" and "txn_ok J uni tabs n x V" and "Where J uni tabs x table index args = TOk rs"
  shows "\<exists>ids obs. sorted_wrt (<) (map unat ids) \<and> map (Get (rs_rows rs)) ids = map Some obs \<and>
    set obs = {ob. \<exists>pk. V table pk = Some ob \<and> wanted uni tabs table index args ob} \<and>
    int (length obs) = RowSet_Len rs \<and> (\<forall>s. RowSet_All yield rs s = Some (feed yield obs s))"
proof -
  obtain ct r where r: "rows_ok J r (V table)" "selects J ct r (V table) rs (wanted uni tabs table index args)"
    using Where_TOk [OF assms] by blast
  have wf: "bm_wf (rs_bits rs)" using r(2) by (simp add: selects_def)
  obtain ids where i: "sorted_wrt (<) (map unat ids)" "sorted_list_of_set (bm_set (rs_bits rs)) = map unat ids"
      "map (Get (rs_rows rs)) ids = map Some (map (obj_at (rs_rows rs)) (map unat ids))"
      "set (map (obj_at (rs_rows rs)) (map unat ids)) = rs_objs rs"
    using rows_in_order [OF r] by blast
  have "card (bm_set (rs_bits rs)) = length ids" using i(2) by (metis length_map sorted_list_of_set.length_sorted_key_list_of_set)
  moreover have "card (bm_set (rs_bits rs)) < 2 ^ 32" using r card_ids_with(2) [OF r(1)] by (simp add: selects_def)
  ultimately have "int (length ids) = RowSet_Len rs" by (simp add: RowSet_Len_def Len_correct [OF wf])
  then have "int (length (map (obj_at (rs_rows rs)) (map unat ids))) = RowSet_Len rs" by simp
  then show ?thesis using i(1,3,4) selects_rows [OF r] RowSet_All_list [OF wf, of yield] unfolding i(2) by blast
qed

text \<open>The sample database, queried for the status of its row.\<close>

lemma ann_where:
  obtains ci where "bitmapIndex sample_ct ''status'' = Some (ci, False)" and "bitmap_value same_case ci False [AString [9]] = TOk [9, 0]"
    and "vals_of same_case ci ann = [[9, 0]]"
proof -
  have "(case bitmapIndex sample_ct ''status'' of None \<Rightarrow> False | Some (ci, pre) \<Rightarrow> \<not> pre \<and>
      bitmap_value same_case ci False [AString [9]] = TOk [9, 0] \<and> vals_of same_case ci ann = [[9, 0]])"
    by code_simp
  then show ?thesis using that by (auto split: option.splits)
qed

lemma ann_rows_person: "ann_rows ''person'' = [[1, 0] \<mapsto> ann]"
  by (simp add: ann_rows_def)

lemma Where_rows_witness:
  "\<exists>rs. Where rbt_juuri same_case sample_tables ann_txn ''person'' ''status'' [AString [9]] = TOk rs \<and> rs_objs rs = {ann} \<and> RowSet_Len rs = 1"
proof -
  obtain ci where ci: "bitmapIndex sample_ct ''status'' = Some (ci, False)" "bitmap_value same_case ci False [AString [9]] = TOk [9, 0]"
      "vals_of same_case ci ann = [[9, 0]]" using ann_where by blast
  have "{ob. \<exists>pk. ann_rows ''person'' pk = Some ob \<and> has_value same_case ci False [9, 0] ob} = {ann}"
    "{pk. \<exists>ob. ann_rows ''person'' pk = Some ob \<and> has_value same_case ci False [9, 0] ob} = {[1, 0]}"
    by (auto simp: ann_rows_person has_value_def ci(3) split: if_splits)
  then show ?thesis using Where_rows [OF rbt_laws ann_ok sample_get ci(1) _ ci(2)] by auto
qed

lemma ann_found:
  obtains rs where "Where rbt_juuri same_case sample_tables ann_txn ''person'' ''status'' [AString [9]] = TOk rs"
    and "wanted same_case sample_tables ''person'' ''status'' [AString [9]] ann"
proof -
  obtain ci where ci: "bitmapIndex sample_ct ''status'' = Some (ci, False)" "bitmap_value same_case ci False [AString [9]] = TOk [9, 0]"
      "vals_of same_case ci ann = [[9, 0]]" using ann_where by blast
  have "db_ok sample_tables 3" using ann_ok by (rule txn_invD(1))
  then have "has_bitmaps sample_ct" using bitmapIndex_mem(2) [OF db_okD(1) ci(1)] sample_get by blast
  then obtain r where "tableRowsOf sample_ct ann_txn = Ret r" using table_bits [OF ann_ok sample_get] by blast
  then obtain rs where "Where rbt_juuri same_case sample_tables ann_txn ''person'' ''status'' [AString [9]] = TOk rs"
    using Where_selects [OF rbt_laws ann_ok sample_get ci(1) _ ci(2)] by auto
  moreover have "wanted same_case sample_tables ''person'' ''status'' [AString [9]] ann"
    by (simp add: wanted_def sample_get ci has_value_def)
  ultimately show ?thesis by (rule that)
qed

lemma All_feeds_rows_witness:
  "\<exists>rs. Where rbt_juuri same_case sample_tables ann_txn ''person'' ''status'' [AString [9]] = TOk rs \<and>
    (\<exists>obs. set obs = {ann} \<and> RowSet_All (\<lambda>acc ob. (acc @ [ob], True)) rs [] = Some (feed (\<lambda>acc ob. (acc @ [ob], True)) obs []))"
proof -
  obtain s where s: "Where rbt_juuri same_case sample_tables ann_txn ''person'' ''status'' [AString [9]] = TOk s"
      "wanted same_case sample_tables ''person'' ''status'' [AString [9]] ann" using ann_found by blast
  have "{ob. \<exists>pk. ann_rows ''person'' pk = Some ob \<and> wanted same_case sample_tables ''person'' ''status'' [AString [9]] ob} = {ann}"
    using s(2) by (auto simp: ann_rows_person split: if_splits)
  from All_feeds_rows [OF rbt_laws ann_ok s(1), of "\<lambda>acc ob. (acc @ [ob], True)", unfolded this]
  show ?thesis using s(1) by blast
qed

end
