(* ===== verification/RowAlgebra.thy ===== *)
theory RowAlgebra
  imports SetQuerySpec PvecHeap
begin

text \<open>
  And, Or and AndNot of row sets (bitmap_index.go). Sets combine only when they are of one table
  and one state of it, which the code decides by comparing the roots of their vectors. So the
  sets here hold handles of vectors in memory (theory PvecHeap), not values.
\<close>

section \<open>The operations\<close>

type_synonym set_handle = "hvector rows_set"

definition rs_with :: "set_handle \<Rightarrow> set_handle \<Rightarrow> bool" where
  "rs_with s u \<longleftrightarrow> rs_table s = rs_table u \<and> Same (rs_rows s) (rs_rows u)"

fun rs_combine :: "(bitmap \<Rightarrow> bitmap \<Rightarrow> bitmap) \<Rightarrow> set_handle \<Rightarrow> set_handle list \<Rightarrow> set_handle outcome" where
  "rs_combine f s [] = Ret s"
| "rs_combine f s (u # others) = (if rs_with s u
     then rs_combine f (s\<lparr>rs_bits := f (rs_bits s) (rs_bits u)\<rparr>) others else Panic)"

definition RowSet_And :: "set_handle \<Rightarrow> set_handle list \<Rightarrow> set_handle outcome" where
  "RowSet_And s others = rs_combine And s others"

definition RowSet_Or :: "set_handle \<Rightarrow> set_handle list \<Rightarrow> set_handle outcome" where
  "RowSet_Or s others = rs_combine Or s others"

definition RowSet_AndNot :: "set_handle \<Rightarrow> set_handle list \<Rightarrow> set_handle outcome" where
  "RowSet_AndNot s others = rs_combine AndNot s others"

text \<open>The set that a handle stands for in a memory.\<close>

definition shown :: "obj hnode nodes \<Rightarrow> set_handle \<Rightarrow> rowSet" where
  "shown N s = \<lparr>rs_table = rs_table s, rs_rows = vec_of N (rs_rows s), rs_bits = rs_bits s\<rparr>"

section \<open>What they return\<close>

lemma rs_combine_eq: "rs_combine f s others = (if \<forall>u\<in>set others. rs_with s u
    then Ret (s\<lparr>rs_bits := foldl f (rs_bits s) (map rs_bits others)\<rparr>) else Panic)"
proof (induction others arbitrary: s)
  case (Cons u others)
  have "rs_with (s\<lparr>rs_bits := b\<rparr>) = rs_with s" for b by (simp add: rs_with_def fun_eq_iff)
  then show ?case by (simp add: Cons.IH)
qed simp

text \<open>
  C13: And, Or and AndNot of any number of sets are intersection, union and difference of their
  ids, with canonical results, when all sets are of the table of the first and their vectors have
  the root of its vector; as soon as one set is of another table or has another root, all three
  panic.
\<close>
theorem RowSet_algebra:
  assumes "bm_wf (rs_bits s)" and "\<forall>u\<in>set others. bm_wf (rs_bits u)"
  shows "if \<forall>u\<in>set others. rs_table u = rs_table s \<and> hv_root (rs_rows u) = hv_root (rs_rows s)
    then (\<exists>b. RowSet_And s others = Ret (s\<lparr>rs_bits := b\<rparr>) \<and> bm_wf b \<and>
        bm_set b = bm_set (rs_bits s) \<inter> (\<Inter>u\<in>set others. bm_set (rs_bits u))) \<and>
      (\<exists>b. RowSet_Or s others = Ret (s\<lparr>rs_bits := b\<rparr>) \<and> bm_wf b \<and>
        bm_set b = bm_set (rs_bits s) \<union> (\<Union>u\<in>set others. bm_set (rs_bits u))) \<and>
      (\<exists>b. RowSet_AndNot s others = Ret (s\<lparr>rs_bits := b\<rparr>) \<and> bm_wf b \<and>
        bm_set b = bm_set (rs_bits s) - (\<Union>u\<in>set others. bm_set (rs_bits u)))
    else RowSet_And s others = Panic \<and> RowSet_Or s others = Panic \<and> RowSet_AndNot s others = Panic"
proof -
  have o: "\<forall>b\<in>set (map rs_bits others). bm_wf b" using assms(2) by simp
  have w: "rs_with s u \<longleftrightarrow> rs_table u = rs_table s \<and> hv_root (rs_rows u) = hv_root (rs_rows s)" for u
    by (auto simp: rs_with_def Same_def)
  show ?thesis
    using bm.meet_list [OF assms(1) o] bm.join_list [OF assms(1) o] bm.minus_list [OF assms(1) o]
    by (auto simp: RowSet_And_def RowSet_Or_def RowSet_AndNot_def rs_combine_eq w)
qed

text \<open>Two sets with one root, whatever the heights of the vectors, and a third with another root.\<close>

definition set_at :: "addr \<Rightarrow> nat \<Rightarrow> bitmap \<Rightarrow> set_handle" where
  "set_at a h b = \<lparr>rs_table = 0, rs_rows = \<lparr>hv_root = Some a, hv_height = h\<rparr>, rs_bits = b\<rparr>"

lemma RowSet_algebra_witness:
  "(\<exists>b. RowSet_AndNot (set_at 5 0 (fst (Set_id (fst (Set_id None 3)) 70000))) [set_at 5 0 (fst (Set_id None 3))] = Ret (set_at 5 0 b) \<and>
     bm_set b = {70000}) \<and>
   RowSet_AndNot (set_at 5 0 (fst (Set_id None 3))) [set_at 5 0 None, set_at 6 0 None] = Panic"
proof -
  have "\<exists>b. RowSet_AndNot (set_at 5 0 (fst (Set_id (fst (Set_id None 3)) 70000))) [set_at 5 0 (fst (Set_id None 3))] =
      Ret (set_at 5 0 (fst (Set_id (fst (Set_id None 3)) 70000))\<lparr>rs_bits := b\<rparr>) \<and> bm_set b = {70000}"
    using RowSet_algebra [of "set_at 5 0 (fst (Set_id (fst (Set_id None 3)) 70000))" "[set_at 5 0 (fst (Set_id None 3))]"]
    by (auto simp: set_at_def)
  moreover have "RowSet_AndNot (set_at 5 0 (fst (Set_id None 3))) [set_at 5 0 None, set_at 6 0 None] = Panic"
    using RowSet_algebra [of "set_at 5 0 (fst (Set_id None 3))" "[set_at 5 0 None, set_at 6 0 None]"]
    by (auto simp: set_at_def)
  ultimately show ?thesis by (simp add: set_at_def)
qed

section \<open>Combined queries\<close>

text \<open>Sets of one table in one state combine like the properties that select them.\<close>

lemma selects_combine:
  assumes r: "rows_ok J r R" and s: "selects J ct r R (shown N s) P" and t: "selects J ct r R (shown N t) Q"
    and same: "Same (rs_rows s) (rs_rows t)"
  shows "\<exists>u. RowSet_And s [t] = Ret u \<and> selects J ct r R (shown N u) (\<lambda>ob. P ob \<and> Q ob)"
    "\<exists>u. RowSet_Or s [t] = Ret u \<and> selects J ct r R (shown N u) (\<lambda>ob. P ob \<or> Q ob)"
    "\<exists>u. RowSet_AndNot s [t] = Ret u \<and> selects J ct r R (shown N u) (\<lambda>ob. P ob \<and> \<not> Q ob)"
proof -
  have "rs_with s t" using s t same by (simp add: rs_with_def selects_def shown_def)
  then show "\<exists>u. RowSet_And s [t] = Ret u \<and> selects J ct r R (shown N u) (\<lambda>ob. P ob \<and> Q ob)"
    "\<exists>u. RowSet_Or s [t] = Ret u \<and> selects J ct r R (shown N u) (\<lambda>ob. P ob \<or> Q ob)"
    "\<exists>u. RowSet_AndNot s [t] = Ret u \<and> selects J ct r R (shown N u) (\<lambda>ob. P ob \<and> \<not> Q ob)"
    using s t ids_with_ops [OF r] by (simp_all add: RowSet_And_def RowSet_Or_def RowSet_AndNot_def selects_def shown_def)
qed

text \<open>
  Two queries of one table in one state of the transaction, whose results hold the one vector of
  that state, combine without a panic, and And, Or and AndNot of their results select the rows
  that satisfy both, either, or the first and not the second, with their exact number as Len.
\<close>
theorem combined_queries:
  assumes "juuri_laws J" and "txn_ok J uni tabs n x V"
    and "Where J uni tabs x table i1 args1 = TOk (shown N s)" and "Where J uni tabs x table i2 args2 = TOk (shown N t)"
    and "Same (rs_rows s) (rs_rows t)"
    and "P = wanted uni tabs table i1 args1" and "Q = wanted uni tabs table i2 args2"
  shows "(\<exists>u. RowSet_And s [t] = Ret u \<and> rs_objs (shown N u) = {ob. \<exists>pk. V table pk = Some ob \<and> P ob \<and> Q ob} \<and>
      RowSet_Len u = int (card {pk. \<exists>ob. V table pk = Some ob \<and> P ob \<and> Q ob})) \<and>
    (\<exists>u. RowSet_Or s [t] = Ret u \<and> rs_objs (shown N u) = {ob. \<exists>pk. V table pk = Some ob \<and> (P ob \<or> Q ob)} \<and>
      RowSet_Len u = int (card {pk. \<exists>ob. V table pk = Some ob \<and> (P ob \<or> Q ob)})) \<and>
    (\<exists>u. RowSet_AndNot s [t] = Ret u \<and> rs_objs (shown N u) = {ob. \<exists>pk. V table pk = Some ob \<and> P ob \<and> \<not> Q ob} \<and>
      RowSet_Len u = int (card {pk. \<exists>ob. V table pk = Some ob \<and> P ob \<and> \<not> Q ob}))"
proof -
  obtain ct r where ct: "ni_get tabs table = Some ct" "tableRowsOf ct x = Ret r" "rows_ok J r (V table)"
      and s: "selects J ct r (V table) (shown N s) P"
    using Where_TOk [OF assms(1-3)] unfolding assms(6) by blast
  have t: "selects J ct r (V table) (shown N t) Q" using Where_TOk [OF assms(1,2,4)] ct(1,2) unfolding assms(7) by auto
  have len: "RowSet_Len (shown N u) = RowSet_Len u" for u by (simp add: RowSet_Len_def shown_def)
  show ?thesis using selects_combine [OF ct(3) s t assms(5)] selects_rows [OF ct(3)] unfolding len [symmetric] by meson
qed

text \<open>The sample query, its rows laid out in memory, combined with itself.\<close>

lemma combined_queries_witness:
  "\<exists>N s u. Where rbt_juuri same_case sample_tables ann_txn ''person'' ''status'' [AString [9]] = TOk (shown N s) \<and>
    RowSet_And s [s] = Ret u \<and> rs_objs (shown N u) = {ann}"
proof -
  obtain rs where rs: "Where rbt_juuri same_case sample_tables ann_txn ''person'' ''status'' [AString [9]] = TOk rs"
      "wanted same_case sample_tables ''person'' ''status'' [AString [9]] ann" using ann_found by blast
  have "(case Where rbt_juuri same_case sample_tables ann_txn ''person'' ''status'' [AString [9]] of
      TOk rs \<Rightarrow> v_height (rs_rows rs) = 0 \<and> (case v_root (rs_rows rs) of None \<Rightarrow> False | Some nd \<Rightarrow> p_kids nd = []) | _ \<Rightarrow> False)"
    by code_simp
  then obtain nd where nd: "v_height (rs_rows rs) = 0" "v_root (rs_rows rs) = Some nd" "p_kids nd = []"
    using rs(1) by (auto split: option.splits)
  define N :: "obj hnode nodes" where "N = [0 \<mapsto> \<lparr>n_epoch = 0, n_used = p_used nd, n_vals = p_vals nd, n_kids = []\<rparr>]"
  define s where "s = \<lparr>rs_table = rs_table rs, rs_rows = \<lparr>hv_root = Some 0, hv_height = 0\<rparr>, rs_bits = rs_bits rs\<rparr>"
  have "vec_of N (rs_rows s) = rs_rows rs" using nd by (cases nd) (simp add: vec_of_def N_def s_def)
  then have sh: "shown N s = rs" by (simp add: shown_def s_def)
  have "{ob. \<exists>pk. ann_rows ''person'' pk = Some ob \<and> wanted same_case sample_tables ''person'' ''status'' [AString [9]] ob \<and>
      wanted same_case sample_tables ''person'' ''status'' [AString [9]] ob} = {ann}"
    using rs(2) by (auto simp: ann_rows_person split: if_splits)
  moreover have "Same (rs_rows s) (rs_rows s)" by (simp add: Same_def)
  ultimately obtain u where u: "RowSet_And s [s] = Ret u" "rs_objs (shown N u) = {ann}"
    using combined_queries [OF rbt_laws ann_ok _ _ _ refl refl, of "''person''" "''status''" "[AString [9]]" N s "''status''" "[AString [9]]" s]
      rs(1) unfolding sh by auto
  show ?thesis by (intro exI [of _ N] exI [of _ s] exI [of _ u] conjI) (simp_all only: sh rs(1) u)
qed

end
