(* ===== verification/Pool.thy ===== *)
theory Pool
  imports Txn
begin

text \<open>
  The pool of write states (writeState, release and the taking of a state in Txn.tableTxn, txn.go).
  A state that a finished transaction put back keeps its slices, with whatever lies between their
  length and their capacity, and the next transaction that takes it reslices them. The theory Txn
  starts every transaction with an empty list of tables instead; here is the proof that nobody can
  tell the difference.
\<close>

section \<open>Write states with their slices\<close>

text \<open>
  An entry of \<open>w.tables\<close>: \<open>pt_arr\<close> is the array under the slice \<open>idx\<close>, as far as its capacity, and
  \<open>pt_len\<close> the length of the slice. None is a tree transaction that is not started.
\<close>

record 't pooledTable =
  pt_table :: "compiledTable option"
  pt_arr :: "'t option list"
  pt_len :: nat
  pt_rows :: "'t tableRows option"

text \<open>
  The write state. \<open>ws_arr\<close> and \<open>ws_len\<close> are the slice \<open>tables\<close>, \<open>ws_nf\<close> is what the notifier has
  collected, \<open>ws_bmW\<close> and \<open>ws_vecW\<close> are the epochs of the writers, the rest are the capacities of the
  scratch buffers.
\<close>

record 't writeState =
  ws_nf :: "nat list"
  ws_arr :: "'t pooledTable list"
  ws_len :: nat
  ws_id :: nat
  ws_newKeys :: nat
  ws_oldKeys :: nat
  ws_tmp :: nat
  ws_bmNew :: nat
  ws_bmOld :: nat
  ws_bmW :: uint64
  ws_vecW :: uint64

definition zero_slot :: "'t pooledTable" where
  "zero_slot = \<lparr>pt_table = None, pt_arr = [], pt_len = 0, pt_rows = None\<rparr>"

definition new_writeState :: "'t writeState" where
  "new_writeState = \<lparr>ws_nf = [], ws_arr = [], ws_len = 0, ws_id = 0, ws_newKeys = 0, ws_oldKeys = 0, ws_tmp = 0,
     ws_bmNew = 0, ws_bmOld = 0, ws_bmW = 0, ws_vecW = 0\<rparr>"

definition maxPooledScratch :: nat where
  "maxPooledScratch = 64 * 2 ^ 10"

text \<open>Go's clear zeroes a slice as far as its length.\<close>

definition clear_idx :: "'t pooledTable \<Rightarrow> 't pooledTable" where
  "clear_idx p = p\<lparr>pt_arr := replicate (min (pt_len p) (length (pt_arr p))) None @ drop (pt_len p) (pt_arr p)\<rparr>"

definition release :: "'t writeState \<Rightarrow> 't writeState" where
  "release w =
    (let w1 = w\<lparr>ws_nf := [],
           ws_arr := map (\<lambda>p. clear_idx p\<lparr>pt_table := None, pt_rows := None\<rparr>) (take (ws_len w) (ws_arr w)) @ drop (ws_len w) (ws_arr w),
           ws_len := 0, ws_bmW := 0, ws_vecW := 0\<rparr>
     in if ws_newKeys w1 > maxPooledScratch \<or> ws_oldKeys w1 > maxPooledScratch \<or> ws_id w1 > maxPooledScratch
        then w1\<lparr>ws_newKeys := 0, ws_oldKeys := 0, ws_id := 0\<rparr> else w1)"

text \<open>
  Txn.tableTxn on a state: the position of the entry and the state. \<open>extra\<close> is how much room beyond
  one entry append makes when it has to grow the array.
\<close>

definition reuse_slot :: "compiledTable \<Rightarrow> 't pooledTable \<Rightarrow> 't pooledTable" where
  "reuse_slot ct p =
    (let p1 = p\<lparr>pt_table := Some ct, pt_rows := None\<rparr>
     in if length (pt_arr p) \<ge> length (ct_indexes ct) then p1\<lparr>pt_len := length (ct_indexes ct)\<rparr>
        else p1\<lparr>pt_arr := replicate (length (ct_indexes ct)) None, pt_len := length (ct_indexes ct)\<rparr>)"

definition has_table :: "nat \<Rightarrow> 't pooledTable \<Rightarrow> bool" where
  "has_table n p \<longleftrightarrow> (case pt_table p of None \<Rightarrow> False | Some ct \<Rightarrow> ct_ord ct = n)"

fun find_slot :: "nat \<Rightarrow> 't pooledTable list \<Rightarrow> nat option" where
  "find_slot n [] = None"
| "find_slot n (p # ps) = (if has_table n p then Some 0 else map_option Suc (find_slot n ps))"

definition take_table :: "compiledTable \<Rightarrow> nat \<Rightarrow> 't writeState \<Rightarrow> nat \<times> 't writeState" where
  "take_table ct extra w = (case find_slot (ct_ord ct) (take (ws_len w) (ws_arr w)) of
     Some i \<Rightarrow> (i, w)
   | None \<Rightarrow> let n = ws_len w;
         w1 = (if n < length (ws_arr w) then w\<lparr>ws_len := n + 1\<rparr>
               else w\<lparr>ws_arr := take n (ws_arr w) @ [zero_slot] @ replicate extra zero_slot, ws_len := n + 1\<rparr>)
       in (n, w1\<lparr>ws_arr := (ws_arr w1)[n := reuse_slot ct (ws_arr w1 ! n)]\<rparr>))"

text \<open>What an operation does with an entry: it starts or writes a tree transaction, or the rows.\<close>

definition write_tree :: "nat \<Rightarrow> 't \<Rightarrow> 't pooledTable \<Rightarrow> 't pooledTable" where
  "write_tree j t p = (if j < pt_len p then p\<lparr>pt_arr := (pt_arr p)[j := Some t]\<rparr> else p)"

definition at_table :: "nat \<Rightarrow> ('t pooledTable \<Rightarrow> 't pooledTable) \<Rightarrow> 't writeState \<Rightarrow> 't writeState" where
  "at_table i f w = (if i < ws_len w then w\<lparr>ws_arr := (ws_arr w)[i := f (ws_arr w ! i)]\<rparr> else w)"

section \<open>Transactions over a pool\<close>

text \<open>
  The live write states by transaction, those of snapshots included, and the pool. A step of
  transaction \<open>t\<close>: \<open>PTable\<close> is Txn.tableTxn, which takes the \<open>k\<close>-th state of the pool, or makes a new
  one, if the transaction has none yet; \<open>PTree\<close> and \<open>PRows\<close> write an entry; \<open>PScratch\<close> is everything
  else it does to its state: buffers grow, writers draw epochs, the notifier collects; \<open>PRelease\<close> is
  the end of Commit and Abort. The pool may drop a state at any time (\<open>PDrop\<close>).
\<close>

datatype 't pool_step =
    PTable nat compiledTable nat nat
  | PTree nat nat nat 't
  | PRows nat nat "'t tableRows"
  | PScratch nat nat nat nat nat nat nat "nat list" uint64 uint64
  | PRelease nat
  | PDrop nat

record 't pool_world =
  pw_live :: "nat \<Rightarrow> 't writeState option"
  pw_pool :: "'t writeState list"

definition without_nth :: "nat \<Rightarrow> 'a list \<Rightarrow> 'a list" where
  "without_nth k xs = take k xs @ drop (Suc k) xs"

definition get_state :: "nat \<Rightarrow> 't writeState list \<Rightarrow> 't writeState \<times> 't writeState list" where
  "get_state k pool = (if k < length pool then (pool ! k, without_nth k pool) else (new_writeState, pool))"

definition on_live :: "nat \<Rightarrow> ('s \<Rightarrow> 's) \<Rightarrow> (nat \<Rightarrow> 's option) \<Rightarrow> nat \<Rightarrow> 's option" where
  "on_live t f live = live(t := map_option f (live t))"

fun pool_run :: "'t pool_step \<Rightarrow> 't pool_world \<Rightarrow> 't pool_world" where
  "pool_run (PTable t ct extra k) W = (case pw_live W t of
     Some w \<Rightarrow> W\<lparr>pw_live := (pw_live W)(t \<mapsto> snd (take_table ct extra w))\<rparr>
   | None \<Rightarrow> (case get_state k (pw_pool W) of (w, pool) \<Rightarrow>
       W\<lparr>pw_live := (pw_live W)(t \<mapsto> snd (take_table ct extra w)), pw_pool := pool\<rparr>))"
| "pool_run (PTree t i j tree) W = W\<lparr>pw_live := on_live t (at_table i (write_tree j tree)) (pw_live W)\<rparr>"
| "pool_run (PRows t i r) W = W\<lparr>pw_live := on_live t (at_table i (\<lambda>p. p\<lparr>pt_rows := Some r\<rparr>)) (pw_live W)\<rparr>"
| "pool_run (PScratch t a b c d e f nf bm vec) W = W\<lparr>pw_live := on_live t (\<lambda>w. w\<lparr>ws_id := ws_id w + a, ws_newKeys := ws_newKeys w + b,
     ws_oldKeys := ws_oldKeys w + c, ws_tmp := ws_tmp w + d, ws_bmNew := ws_bmNew w + e, ws_bmOld := ws_bmOld w + f,
     ws_nf := nf, ws_bmW := bm, ws_vecW := vec\<rparr>) (pw_live W)\<rparr>"
| "pool_run (PRelease t) W = (case pw_live W t of
     None \<Rightarrow> W
   | Some w \<Rightarrow> W\<lparr>pw_live := (pw_live W)(t := None), pw_pool := release w # pw_pool W\<rparr>)"
| "pool_run (PDrop k) W = W\<lparr>pw_pool := without_nth k (pw_pool W)\<rparr>"

definition pool_world0 :: "'t pool_world" where
  "pool_world0 = \<lparr>pw_live = (\<lambda>_. None), pw_pool = []\<rparr>"

section \<open>The same without a pool\<close>

text \<open>What a transaction sees of its write state.\<close>

record 't shownState =
  sh_tables :: "'t tableTxn list"
  sh_nf :: "nat list"
  sh_bmW :: uint64
  sh_vecW :: uint64

definition shown_table :: "'t pooledTable \<Rightarrow> 't tableTxn" where
  "shown_table p = \<lparr>tt_table = the (pt_table p), tt_idx = take (pt_len p) (pt_arr p), tt_rows = pt_rows p\<rparr>"

definition shown_state :: "'t writeState \<Rightarrow> 't shownState" where
  "shown_state w = \<lparr>sh_tables = map shown_table (take (ws_len w) (ws_arr w)), sh_nf = ws_nf w, sh_bmW = ws_bmW w, sh_vecW = ws_vecW w\<rparr>"

definition fresh_state :: "'t shownState" where
  "fresh_state = \<lparr>sh_tables = [], sh_nf = [], sh_bmW = 0, sh_vecW = 0\<rparr>"

text \<open>The entry of a table is the one the theory Txn uses.\<close>

definition with_table :: "compiledTable \<Rightarrow> 't tableTxn list \<Rightarrow> 't tableTxn list" where
  "with_table ct tts = (case find_tt (ct_ord ct) tts of
     Some tt \<Rightarrow> tts
   | None \<Rightarrow> tts @ [\<lparr>tt_table = ct, tt_idx = replicate (length (ct_indexes ct)) None, tt_rows = None\<rparr>])"

lemma with_table_save: "with_table ct (tables_of x) = tables_of (save (tableTxn_of ct x) x)"
proof -
  have "(case find_tt (ct_ord ct) tts of Some tt \<Rightarrow> ct_ord (tt_table tt) = ct_ord ct \<and> store_tt tt tts = tts
      | None \<Rightarrow> \<forall>tt. ct_ord (tt_table tt) = ct_ord ct \<longrightarrow> store_tt tt tts = tts @ [tt])" for tts :: "'a tableTxn list"
    by (induction tts) (auto split: option.splits)
  note this [of "tables_of x"]
  moreover have "tables_of (save tt x) = store_tt tt (tables_of x)" for tt by (simp add: save_def tables_of_def)
  ultimately show ?thesis by (cases "find_tt (ct_ord ct) (tables_of x)") (simp_all add: with_table_def tableTxn_of_def)
qed

definition at_shown :: "nat \<Rightarrow> ('t tableTxn \<Rightarrow> 't tableTxn) \<Rightarrow> 't shownState \<Rightarrow> 't shownState" where
  "at_shown i f s = (if i < length (sh_tables s) then s\<lparr>sh_tables := (sh_tables s)[i := f (sh_tables s ! i)]\<rparr> else s)"

fun fresh_run :: "'t pool_step \<Rightarrow> (nat \<Rightarrow> 't shownState option) \<Rightarrow> (nat \<Rightarrow> 't shownState option)" where
  "fresh_run (PTable t ct extra k) L =
     (let s = (case L t of None \<Rightarrow> fresh_state | Some s \<Rightarrow> s) in L(t \<mapsto> s\<lparr>sh_tables := with_table ct (sh_tables s)\<rparr>))"
| "fresh_run (PTree t i j tree) L =
     on_live t (at_shown i (\<lambda>tt. if j < length (tt_idx tt) then tt\<lparr>tt_idx := (tt_idx tt)[j := Some tree]\<rparr> else tt)) L"
| "fresh_run (PRows t i r) L = on_live t (at_shown i (\<lambda>tt. tt\<lparr>tt_rows := Some r\<rparr>)) L"
| "fresh_run (PScratch t a b c d e f nf bm vec) L = on_live t (\<lambda>s. s\<lparr>sh_nf := nf, sh_bmW := bm, sh_vecW := vec\<rparr>) L"
| "fresh_run (PRelease t) L = L(t := None)"
| "fresh_run (PDrop k) L = L"

section \<open>What is kept beyond the lengths of the slices is cleared\<close>

definition slot_ok :: "'t pooledTable \<Rightarrow> bool" where
  "slot_ok p \<longleftrightarrow> pt_len p \<le> length (pt_arr p) \<and> set (drop (pt_len p) (pt_arr p)) \<subseteq> {None}"

definition blank :: "'t pooledTable \<Rightarrow> bool" where
  "blank p \<longleftrightarrow> slot_ok p \<and> set (pt_arr p) \<subseteq> {None} \<and> pt_table p = None \<and> pt_rows p = None"

definition ws_ok :: "'t writeState \<Rightarrow> bool" where
  "ws_ok w \<longleftrightarrow> ws_len w \<le> length (ws_arr w) \<and> (\<forall>p\<in>set (take (ws_len w) (ws_arr w)). slot_ok p \<and> pt_table p \<noteq> None) \<and>
     (\<forall>p\<in>set (drop (ws_len w) (ws_arr w)). blank p)"

text \<open>A state as a transaction takes it: new, or put back.\<close>

definition pooled_ok :: "'t writeState \<Rightarrow> bool" where
  "pooled_ok w \<longleftrightarrow> ws_ok w \<and> ws_len w = 0 \<and> ws_nf w = [] \<and> ws_bmW w = 0 \<and> ws_vecW w = 0 \<and>
     ws_newKeys w \<le> maxPooledScratch \<and> ws_oldKeys w \<le> maxPooledScratch \<and> ws_id w \<le> maxPooledScratch"

lemma pooled_ok_new [simp]: "pooled_ok new_writeState"
  by (simp add: pooled_ok_def ws_ok_def new_writeState_def)

lemma pooled_shown: "pooled_ok w \<Longrightarrow> shown_state w = fresh_state"
  by (simp add: pooled_ok_def shown_state_def fresh_state_def)

lemma clear_idx_blank: "slot_ok p \<Longrightarrow> blank (clear_idx p\<lparr>pt_table := None, pt_rows := None\<rparr>)"
  by (auto simp: slot_ok_def blank_def clear_idx_def)

lemma release_ok:
  assumes "ws_ok w"
  shows "pooled_ok (release w)"
proof -
  have "blank p" if "p \<in> set (map (\<lambda>p. clear_idx p\<lparr>pt_table := None, pt_rows := None\<rparr>) (take (ws_len w) (ws_arr w)) @ drop (ws_len w) (ws_arr w))" for p
    using that assms clear_idx_blank by (auto simp: ws_ok_def)
  then show ?thesis by (simp add: pooled_ok_def ws_ok_def release_def Let_def maxPooledScratch_def)
qed

lemma reuse_slot_ok:
  assumes "blank p"
  shows "slot_ok (reuse_slot ct p)" "pt_table (reuse_slot ct p) = Some ct"
    "shown_table (reuse_slot ct p) = \<lparr>tt_table = ct, tt_idx = replicate (length (ct_indexes ct)) None, tt_rows = None\<rparr>"
proof -
  have "take n (pt_arr p) = replicate n None" if "n \<le> length (pt_arr p)" for n
    using assms that by (intro replicate_eqI) (auto simp: blank_def dest: in_set_takeD)
  then show "shown_table (reuse_slot ct p) = \<lparr>tt_table = ct, tt_idx = replicate (length (ct_indexes ct)) None, tt_rows = None\<rparr>"
    by (simp add: shown_table_def reuse_slot_def Let_def)
  show "slot_ok (reuse_slot ct p)" using assms by (auto simp: slot_ok_def blank_def reuse_slot_def Let_def dest: in_set_dropD)
qed (simp add: reuse_slot_def Let_def)

lemma find_slot_shown:
  "\<forall>p\<in>set ps. pt_table p \<noteq> None \<Longrightarrow> find_slot n ps = None \<longleftrightarrow> find_tt n (map shown_table ps) = None"
  by (induction ps) (auto simp: has_table_def shown_table_def)

lemma take_table_ok:
  assumes "ws_ok w"
  shows "ws_ok (snd (take_table ct extra w))"
    "shown_state (snd (take_table ct extra w)) = (shown_state w)\<lparr>sh_tables := with_table ct (sh_tables (shown_state w))\<rparr>"
proof -
  let ?n = "ws_len w" and ?ps = "take (ws_len w) (ws_arr w)"
  have n: "?n \<le> length (ws_arr w)" and tk: "\<forall>p\<in>set ?ps. slot_ok p \<and> pt_table p \<noteq> None"
    and dr: "\<forall>p\<in>set (drop ?n (ws_arr w)). blank p" using assms by (simp_all add: ws_ok_def)
  have fs: "find_slot (ct_ord ct) ?ps = None \<longleftrightarrow> find_tt (ct_ord ct) (map shown_table ?ps) = None"
    using tk by (intro find_slot_shown) blast
  have "ws_ok (snd (take_table ct extra w)) \<and>
    shown_state (snd (take_table ct extra w)) = (shown_state w)\<lparr>sh_tables := with_table ct (sh_tables (shown_state w))\<rparr>"
  proof (cases "find_slot (ct_ord ct) ?ps")
    case (Some i)
    then show ?thesis using fs assms by (auto simp: take_table_def with_table_def shown_state_def split: option.splits)
  next
    case None
    let ?arr = "if ?n < length (ws_arr w) then ws_arr w else ?ps @ [zero_slot] @ replicate extra zero_slot"
    let ?w = "w\<lparr>ws_arr := ?arr[?n := reuse_slot ct (?arr ! ?n)], ws_len := ?n + 1\<rparr>"
    have z: "blank zero_slot" by (simp add: blank_def slot_ok_def zero_slot_def)
    have len: "?n < length ?arr" and ps: "take ?n ?arr = ?ps" using n by auto
    have rest: "blank p" if "p \<in> set (drop ?n ?arr)" for p
      using that dr z n by (cases "?n < length (ws_arr w)") auto
    have "?arr ! ?n \<in> set (drop ?n ?arr)" using Cons_nth_drop_Suc [OF len] by (metis list.set_intros(1))
    then have b: "blank (?arr ! ?n)" by (rule rest)
    note r = reuse_slot_ok [OF b, of ct]
    have t1: "take (Suc ?n) (?arr[?n := reuse_slot ct (?arr ! ?n)]) = ?ps @ [reuse_slot ct (?arr ! ?n)]"
      using len ps by (simp add: take_Suc_conv_app_nth del: append_Cons)
    have d1: "drop (Suc ?n) (?arr[?n := reuse_slot ct (?arr ! ?n)]) = drop (Suc ?n) ?arr" by (rule drop_update_cancel) simp
    have eq: "snd (take_table ct extra w) = ?w" using None by (simp add: take_table_def Let_def)
    have sub: "set (drop (Suc ?n) ?arr) \<subseteq> set (drop ?n ?arr)" by (rule set_drop_subset_set_drop) simp
    have ok: "ws_ok ?w"
      unfolding ws_ok_def
    proof (intro conjI ballI)
      show "ws_len ?w \<le> length (ws_arr ?w)" using len by simp
      show "slot_ok p" "pt_table p \<noteq> None" if "p \<in> set (take (ws_len ?w) (ws_arr ?w))" for p
        using that tk r(1,2) t1 by auto
      show "blank p" if "p \<in> set (drop (ws_len ?w) (ws_arr ?w))" for p using that d1 sub rest by auto
    qed
    have "find_tt (ct_ord ct) (map shown_table ?ps) = None" using None fs by simp
    then have "with_table ct (sh_tables (shown_state w)) = map shown_table (take (Suc ?n) (ws_arr ?w))"
      using t1 r(3) by (simp add: with_table_def shown_state_def)
    then have "shown_state ?w = (shown_state w)\<lparr>sh_tables := with_table ct (sh_tables (shown_state w))\<rparr>"
      by (simp add: shown_state_def)
    then show ?thesis using ok eq by simp
  qed
  then show "ws_ok (snd (take_table ct extra w))"
    "shown_state (snd (take_table ct extra w)) = (shown_state w)\<lparr>sh_tables := with_table ct (sh_tables (shown_state w))\<rparr>" by blast+
qed

lemma at_table_ok:
  assumes "ws_ok w" and f: "\<And>p. slot_ok p \<Longrightarrow> pt_table p \<noteq> None \<Longrightarrow> slot_ok (f p) \<and> pt_table (f p) \<noteq> None \<and> shown_table (f p) = g (shown_table p)"
  shows "ws_ok (at_table i f w) \<and> shown_state (at_table i f w) = at_shown i g (shown_state w)"
proof (cases "i < ws_len w")
  case True
  let ?p = "ws_arr w ! i"
  have l: "ws_len w \<le> length (ws_arr w)" and tk: "\<And>p. p \<in> set (take (ws_len w) (ws_arr w)) \<Longrightarrow> slot_ok p \<and> pt_table p \<noteq> None"
    using assms(1) by (simp_all add: ws_ok_def)
  have "?p \<in> set (take (ws_len w) (ws_arr w))" using True l by (auto simp: in_set_conv_nth intro!: exI [of _ i])
  note p = tk [OF this, THEN conjunct1] tk [OF this, THEN conjunct2]
  note fp = f [OF p]
  have t: "take (ws_len w) ((ws_arr w)[i := f ?p]) = (take (ws_len w) (ws_arr w))[i := f ?p]" by (simp add: take_update_swap)
  have d: "drop (ws_len w) ((ws_arr w)[i := f ?p]) = drop (ws_len w) (ws_arr w)" using True by (rule drop_update_cancel)
  have "ws_ok (w\<lparr>ws_arr := (ws_arr w)[i := f ?p]\<rparr>)"
    using assms(1) fp unfolding ws_ok_def by (auto simp: t d dest!: set_update_subset_insert [THEN subsetD])
  moreover have "map shown_table ((take (ws_len w) (ws_arr w))[i := f ?p]) = (map shown_table (take (ws_len w) (ws_arr w)))[i := g (shown_table ?p)]"
    using fp by (simp add: map_update)
  ultimately show ?thesis using True l by (simp add: at_table_def at_shown_def shown_state_def t)
next
  case False
  then show ?thesis using assms(1) by (simp add: at_table_def at_shown_def shown_state_def ws_ok_def)
qed

lemma write_tree_ok:
  assumes "slot_ok p" and "pt_table p \<noteq> None"
  shows "slot_ok (write_tree j t p) \<and> pt_table (write_tree j t p) \<noteq> None \<and> shown_table (write_tree j t p) =
    (if j < length (tt_idx (shown_table p)) then (shown_table p)\<lparr>tt_idx := (tt_idx (shown_table p))[j := Some t]\<rparr> else shown_table p)"
  using assms by (auto simp: slot_ok_def write_tree_def shown_table_def take_update_swap)

definition pool_ok :: "'t pool_world \<Rightarrow> bool" where
  "pool_ok W \<longleftrightarrow> (\<forall>t w. pw_live W t = Some w \<longrightarrow> ws_ok w) \<and> (\<forall>w\<in>set (pw_pool W). pooled_ok w)"

definition shown_live :: "'t pool_world \<Rightarrow> nat \<Rightarrow> 't shownState option" where
  "shown_live W t = map_option shown_state (pw_live W t)"

text \<open>A step that changes one live state in a way the fresh run changes what it shows.\<close>

lemma on_live_ok:
  assumes "pool_ok W" and f: "\<And>w. ws_ok w \<Longrightarrow> ws_ok (f w) \<and> shown_state (f w) = g (shown_state w)"
  shows "pool_ok (W\<lparr>pw_live := on_live t f (pw_live W)\<rparr>) \<and> shown_live (W\<lparr>pw_live := on_live t f (pw_live W)\<rparr>) = on_live t g (shown_live W)"
proof -
  have ok: "ws_ok w" if "pw_live W u = Some w" for u w using assms(1) that by (auto simp: pool_ok_def)
  have "pool_ok (W\<lparr>pw_live := on_live t f (pw_live W)\<rparr>)"
    using assms(1) f ok unfolding pool_ok_def on_live_def by (auto split: if_splits)
  moreover have "shown_live (W\<lparr>pw_live := on_live t f (pw_live W)\<rparr>) u = on_live t g (shown_live W) u" for u
    using f ok by (cases "pw_live W u") (auto simp: shown_live_def on_live_def)
  ultimately show ?thesis by (simp add: fun_eq_iff)
qed

lemma without_subset: "set (without_nth k xs) \<subseteq> set xs"
  by (auto simp: without_nth_def dest: in_set_takeD in_set_dropD)

lemma pool_run_ok:
  assumes ok: "pool_ok W"
  shows "pool_ok (pool_run a W) \<and> shown_live (pool_run a W) = fresh_run a (shown_live W)"
proof (cases a)
  case (PTable t ct extra k)
  obtain w pool where w: "pool_run a W = W\<lparr>pw_live := (pw_live W)(t \<mapsto> snd (take_table ct extra w)), pw_pool := pool\<rparr>" "ws_ok w"
      "\<forall>w\<in>set pool. pooled_ok w" "shown_state w = (case shown_live W t of None \<Rightarrow> fresh_state | Some s \<Rightarrow> s)"
  proof (cases "pw_live W t")
    case None
    obtain w pool where g: "get_state k (pw_pool W) = (w, pool)" by (cases "get_state k (pw_pool W)")
    have "pooled_ok w \<and> (\<forall>w\<in>set pool. pooled_ok w)"
      using g ok without_subset [of k "pw_pool W"] by (auto simp: get_state_def pool_ok_def split: if_splits)
    then show ?thesis using that [of pool w] PTable None g pooled_shown by (auto simp: shown_live_def pooled_ok_def)
  next
    case (Some w)
    then show ?thesis using that [of "pw_pool W" w] PTable ok by (auto simp: pool_ok_def shown_live_def)
  qed
  note T = take_table_ok [OF w(2), of ct extra]
  have "pool_ok (pool_run a W)" unfolding w(1) using ok T(1) w(3) by (auto simp: pool_ok_def)
  moreover have "shown_live (pool_run a W) u = fresh_run a (shown_live W) u" for u
    unfolding w(1) using T(2) w(4) by (simp add: PTable shown_live_def Let_def)
  ultimately show ?thesis by (simp add: fun_eq_iff)
next
  case (PTree t i j tree)
  have f: "ws_ok (at_table i (write_tree j tree) w) \<and> shown_state (at_table i (write_tree j tree) w) =
      at_shown i (\<lambda>tt. if j < length (tt_idx tt) then tt\<lparr>tt_idx := (tt_idx tt)[j := Some tree]\<rparr> else tt) (shown_state w)" if "ws_ok w" for w
    by (rule at_table_ok [OF that]) (rule write_tree_ok)
  show ?thesis unfolding PTree pool_run.simps fresh_run.simps by (rule on_live_ok [OF ok]) (rule f)
next
  case (PRows t i r)
  have f: "ws_ok (at_table i (\<lambda>p. p\<lparr>pt_rows := Some r\<rparr>) w) \<and> shown_state (at_table i (\<lambda>p. p\<lparr>pt_rows := Some r\<rparr>) w) =
      at_shown i (\<lambda>tt. tt\<lparr>tt_rows := Some r\<rparr>) (shown_state w)" if "ws_ok w" for w :: "'a writeState"
    by (rule at_table_ok [OF that]) (simp add: slot_ok_def shown_table_def)
  show ?thesis unfolding PRows pool_run.simps fresh_run.simps by (rule on_live_ok [OF ok]) (rule f)
next
  case (PScratch t a b c d e f nf bm vec)
  show ?thesis unfolding PScratch pool_run.simps fresh_run.simps
    by (rule on_live_ok [OF ok]) (simp add: ws_ok_def shown_state_def)
next
  case (PRelease t)
  show ?thesis
  proof (cases "pw_live W t")
    case None
    then show ?thesis using PRelease ok by (simp add: shown_live_def fun_eq_iff)
  next
    case (Some w)
    then have "pooled_ok (release w)" using ok by (intro release_ok) (auto simp: pool_ok_def)
    then show ?thesis using PRelease ok Some by (auto simp: pool_ok_def shown_live_def fun_eq_iff)
  qed
next
  case (PDrop k)
  then show ?thesis using ok without_subset [of k "pw_pool W"] by (auto simp: pool_ok_def shown_live_def)
qed

lemma pool_runs: "pool_ok (fold pool_run as pool_world0) \<and> shown_live (fold pool_run as pool_world0) = fold fresh_run as (\<lambda>_. None)"
proof (induction as rule: rev_induct)
  case Nil
  then show ?case by (simp add: pool_ok_def pool_world0_def shown_live_def fun_eq_iff)
next
  case (snoc a as)
  then show ?case using pool_run_ok [of "fold pool_run as pool_world0" a] by simp
qed

text \<open>
  C23: write states may be pooled. Whatever transactions and snapshots do with the states they
  take from the pool and put back, in any order, aborted ones included, and whichever state the
  pool hands out, each transaction sees exactly the tables, trees, row bookkeeping, notifier and
  writers it would see with a new state of its own; and a state in the pool keeps nothing of a
  database alive: every entry of its array, beyond the length of the slice too, has no table, no
  tree and no row bookkeeping, its notifier is empty and its writers own no epoch, and each of the
  buffers that release looks at holds at most 64 kB.
\<close>
theorem pooled_states_are_new:
  "shown_live (fold pool_run as pool_world0) = fold fresh_run as (\<lambda>_. None) \<and>
   list_all (\<lambda>w. shown_state w = fresh_state \<and>
     list_all (\<lambda>p. pt_table p = None \<and> set (pt_arr p) \<subseteq> {None} \<and> pt_len p \<le> length (pt_arr p) \<and> pt_rows p = None) (ws_arr w) \<and>
     ws_newKeys w \<le> maxPooledScratch \<and> ws_oldKeys w \<le> maxPooledScratch \<and> ws_id w \<le> maxPooledScratch)
     (pw_pool (fold pool_run as pool_world0))"
proof -
  have "blank p" if "w \<in> set (pw_pool (fold pool_run as pool_world0))" and "p \<in> set (ws_arr w)" for w p
    using pool_runs [of as] that by (auto simp: pool_ok_def pooled_ok_def ws_ok_def)
  then show ?thesis using pool_runs [of as] pooled_shown
    by (fastforce simp: list_all_iff blank_def slot_ok_def pool_ok_def pooled_ok_def)
qed

text \<open>
  A transaction writes the tree and the row bookkeeping of a table and puts its state back; another
  takes the state for the same table, and sees neither.
\<close>

definition pool_index :: compiledIndex where
  "pool_index = \<lparr>ci_name = ''id'', ci_slot = 0, ci_ord = 0, ci_ix = IBool ''ID'', ci_unique = True, ci_allowMissing = False, ci_bitmap = False\<rparr>"

definition pool_table :: compiledTable where
  "pool_table = \<lparr>ct_name = ''t'', ct_ord = 0, ct_indexes = [pool_index], ct_classic = 1, ct_byName = newNameIndex (pool_index, False) [],
     ct_bitmapByName = None\<rparr>"

definition first_user :: "nat pool_step list" where
  "first_user = [PTable 0 pool_table 1 0, PTree 0 0 0 7,
     PRows 0 0 \<lparr>r_ids = 7, r_rows = \<lparr>v_root = None, v_height = 0\<rparr>, r_all = None, r_free = None, r_next = 1\<rparr>,
     PScratch 0 3 4 5 6 0 0 [8] 1 2, PRelease 0]"

lemma pooled_states_are_new_witness:
  "shown_live (fold pool_run (first_user @ [PTable 1 pool_table 0 0]) pool_world0) 1 =
    Some \<lparr>sh_tables = [\<lparr>tt_table = pool_table, tt_idx = [None], tt_rows = None\<rparr>], sh_nf = [], sh_bmW = 0, sh_vecW = 0\<rparr> \<and>
   length (pw_pool (fold pool_run first_user pool_world0)) = 1 \<and>
   list_all (\<lambda>w. list_all (\<lambda>p. pt_table p = None \<and> set (pt_arr p) \<subseteq> {None} \<and> pt_rows p = None) (ws_arr w) \<and> length (ws_arr w) = 2)
     (pw_pool (fold pool_run first_user pool_world0))"
proof -
  have f: "fold fresh_run (first_user @ [PTable 1 pool_table 0 0]) (\<lambda>_. None) 1 =
      Some \<lparr>sh_tables = [\<lparr>tt_table = pool_table, tt_idx = [None], tt_rows = None\<rparr>], sh_nf = [], sh_bmW = 0, sh_vecW = 0\<rparr>"
    by (simp add: first_user_def pool_table_def on_live_def with_table_def fresh_state_def)
  have l: "length (pw_pool (fold pool_run first_user pool_world0)) = 1"
    "list_all (\<lambda>w. length (ws_arr w) = 2) (pw_pool (fold pool_run first_user pool_world0))"
    by (simp_all add: first_user_def pool_world0_def get_state_def new_writeState_def take_table_def on_live_def at_table_def
        write_tree_def reuse_slot_def zero_slot_def release_def clear_idx_def maxPooledScratch_def pool_table_def Let_def)
  note run = pooled_states_are_new [of "first_user @ [PTable 1 pool_table 0 0]", THEN conjunct1]
  have "shown_live (fold pool_run (first_user @ [PTable 1 pool_table 0 0]) pool_world0) 1 =
      Some \<lparr>sh_tables = [\<lparr>tt_table = pool_table, tt_idx = [None], tt_rows = None\<rparr>], sh_nf = [], sh_bmW = 0, sh_vecW = 0\<rparr>"
    by (rule trans [OF fun_cong [OF run] f])
  moreover have "list_all (\<lambda>w. list_all (\<lambda>p. pt_table p = None \<and> set (pt_arr p) \<subseteq> {None} \<and> pt_rows p = None) (ws_arr w) \<and> length (ws_arr w) = 2)
     (pw_pool (fold pool_run first_user pool_world0))"
    using pooled_states_are_new [of first_user, THEN conjunct2] l(2) unfolding list_all_iff by blast
  ultimately show ?thesis using l(1) by blast
qed

text \<open>The other buffers keep what they have grown to.\<close>

lemma release_keeps_tmp: "ws_tmp (release w) = ws_tmp w" "ws_bmNew (release w) = ws_bmNew w" "ws_bmOld (release w) = ws_bmOld w"
  by (simp_all add: release_def Let_def)

end
