(* ===== verification/TypedKeys.thy ===== *)
theory TypedKeys
  imports Query
begin

text \<open>
  The typed handles of typed.go: tables that store one type, and handles on one index whose
  lookups take the key as a plain value and skip the resolution of names and the boxing of
  arguments. The type \<open>T\<close> of a handle is the predicate \<open>is_T\<close> of its rows, a type assertion that
  fails panics. The type \<open>N\<close> of an integer key is its width, and \<open>named\<close> tells whether it is a
  defined type; a key is the 64-bit pattern of its value.
\<close>

section \<open>Typed tables\<close>

text \<open>What First returns, asserted to the type; a miss stays nil.\<close>

definition asserted :: "(obj \<Rightarrow> bool) \<Rightarrow> obj \<Rightarrow> obj tres" where
  "asserted is_T ob = (if is_nil ob then TOk ONil else if is_T ob then TOk ob else TPanic)"

definition typedResult :: "(obj \<Rightarrow> bool) \<Rightarrow> obj tres \<Rightarrow> obj tres" where
  "typedResult is_T r = (case r of TErr e \<Rightarrow> TErr e | TPanic \<Rightarrow> TPanic | TOk ob \<Rightarrow> asserted is_T ob)"

definition Table_First :: "'t juuri \<Rightarrow> (bytes \<Rightarrow> bytes) \<Rightarrow> (indexer \<Rightarrow> arg list \<Rightarrow> bool) \<Rightarrow> compiledTable nameIndex \<Rightarrow> (obj \<Rightarrow> bool) \<Rightarrow>
    string \<Rightarrow> 't txn \<Rightarrow> string \<Rightarrow> arg list \<Rightarrow> obj tres" where
  "Table_First J uni nils tabs is_T table x index args = typedResult is_T (Txn_First J uni nils tabs x table index args)"

definition Table_Last :: "'t juuri \<Rightarrow> (bytes \<Rightarrow> bytes) \<Rightarrow> (indexer \<Rightarrow> arg list \<Rightarrow> bool) \<Rightarrow> compiledTable nameIndex \<Rightarrow> (obj \<Rightarrow> bool) \<Rightarrow>
    string \<Rightarrow> 't txn \<Rightarrow> string \<Rightarrow> arg list \<Rightarrow> obj tres" where
  "Table_Last J uni nils tabs is_T table x index args = typedResult is_T (Txn_Last J uni nils tabs x table index args)"

text \<open>Rows.Next: the next row asserted to the type, and the rows left.\<close>

definition Rows_Next :: "(obj \<Rightarrow> bool) \<Rightarrow> obj list \<Rightarrow> (obj \<times> obj list) outcome" where
  "Rows_Next is_T it = (case Next_row it of (ob, it') \<Rightarrow>
     (case asserted is_T ob of TOk ob' \<Rightarrow> Ret (ob', it') | _ \<Rightarrow> Panic))"

section \<open>Handles on an index\<close>

text \<open>
  A handle remembers what its names resolved to under one compiled schema, identified by a
  number that stands for its pointer; a compiled index comes with its table.
\<close>

record keyHandle =
  k_table :: string
  k_index :: string
  k_resolved :: "(nat \<times> compiledTable \<times> compiledIndex) option"

definition new_key :: "string \<Rightarrow> string \<Rightarrow> keyHandle" where
  "new_key table index = \<lparr>k_table = table, k_index = index, k_resolved = None\<rparr>"

definition resolve_names :: "nat \<Rightarrow> compiledTable nameIndex \<Rightarrow> keyHandle \<Rightarrow> (compiledTable \<times> compiledIndex) tres \<times> keyHandle" where
  "resolve_names schema tabs k = (case ni_get tabs (k_table k) of
     None \<Rightarrow> (TErr (EInvalidTable (k_table k)), k)
   | Some ct \<Rightarrow> (case ni_get (ct_byName ct) (k_index k) of
       None \<Rightarrow> (TErr (EInvalidIndex (TrimSuffix (k_index k) prefixSuffix)), k)
     | Some (ci, prefixScan) \<Rightarrow>
         if prefixScan then (TErr (EInvalidIndex (TrimSuffix (k_index k) prefixSuffix)), k)
         else (TOk (ct, ci), k\<lparr>k_resolved := Some (schema, ct, ci)\<rparr>)))"

definition resolve :: "nat \<Rightarrow> compiledTable nameIndex \<Rightarrow> keyHandle \<Rightarrow> (compiledTable \<times> compiledIndex) tres \<times> keyHandle" where
  "resolve schema tabs k =
    (case k_resolved k of
       Some (s, ct, ci) \<Rightarrow> if s = schema then (TOk (ct, ci), k) else resolve_names schema tabs k
     | None \<Rightarrow> resolve_names schema tabs k)"

text \<open>A lookup starts with the resolution and returns its error.\<close>

definition with_key :: "nat \<Rightarrow> compiledTable nameIndex \<Rightarrow> keyHandle \<Rightarrow> (compiledTable \<Rightarrow> compiledIndex \<Rightarrow> 'r tres) \<Rightarrow> 'r tres \<times> keyHandle" where
  "with_key schema tabs k f = (case resolve schema tabs k of
     (TErr e, k') \<Rightarrow> (TErr e, k') | (TPanic, k') \<Rightarrow> (TPanic, k') | (TOk (ct, ci), k') \<Rightarrow> (f ct ci, k'))"

definition firstByKey :: "'t juuri \<Rightarrow> (obj \<Rightarrow> bool) \<Rightarrow> 't txn \<Rightarrow> compiledTable \<Rightarrow> compiledIndex \<Rightarrow> bytes \<Rightarrow> bool \<Rightarrow> obj tres" where
  "firstByKey J is_T x ct ci key pre = (case readableIndex ct ci x of
     Panic \<Rightarrow> TPanic
   | Ret tree \<Rightarrow> asserted is_T (if ci_unique ci \<and> \<not> pre then row_of (j_get J tree key) else row_of (j_first J tree key)))"

definition rowsByKey :: "'t juuri \<Rightarrow> 't txn \<Rightarrow> compiledTable \<Rightarrow> compiledIndex \<Rightarrow> bytes \<Rightarrow> obj list tres" where
  "rowsByKey J x ct ci key = (case readableIndex ct ci x of
     Panic \<Rightarrow> TPanic | Ret tree \<Rightarrow> TOk (rows_in (j_prefix J tree key)))"

definition boundByKey :: "'t juuri \<Rightarrow> 't txn \<Rightarrow> compiledTable \<Rightarrow> compiledIndex \<Rightarrow> bytes \<Rightarrow> obj list tres" where
  "boundByKey J x ct ci key = (case readableIndex ct ci x of
     Panic \<Rightarrow> TPanic | Ret tree \<Rightarrow> TOk (rows_in (j_lower J tree key)))"

subsection \<open>String keys\<close>

definition StringKey_First :: "'t juuri \<Rightarrow> (bytes \<Rightarrow> bytes) \<Rightarrow> (indexer \<Rightarrow> arg list \<Rightarrow> bool) \<Rightarrow> nat \<Rightarrow> compiledTable nameIndex \<Rightarrow> (obj \<Rightarrow> bool) \<Rightarrow>
    't txn \<Rightarrow> keyHandle \<Rightarrow> bytes \<Rightarrow> obj tres \<times> keyHandle" where
  "StringKey_First J uni nils schema tabs is_T x k key = with_key schema tabs k (\<lambda>ct ci.
     case appendStringArg uni (ci_ix ci) key False [] of
       Some val \<Rightarrow> firstByKey J is_T x ct ci val False
     | None \<Rightarrow> typedResult is_T (Txn_First J uni nils tabs x (k_table k) (k_index k) [AString key]))"

definition StringKey_FirstPrefix :: "'t juuri \<Rightarrow> (bytes \<Rightarrow> bytes) \<Rightarrow> (indexer \<Rightarrow> arg list \<Rightarrow> bool) \<Rightarrow> nat \<Rightarrow> compiledTable nameIndex \<Rightarrow> (obj \<Rightarrow> bool) \<Rightarrow>
    't txn \<Rightarrow> keyHandle \<Rightarrow> bytes \<Rightarrow> obj tres \<times> keyHandle" where
  "StringKey_FirstPrefix J uni nils schema tabs is_T x k pfx = with_key schema tabs k (\<lambda>ct ci.
     case appendStringArg uni (ci_ix ci) pfx True [] of
       Some val \<Rightarrow> firstByKey J is_T x ct ci val True
     | None \<Rightarrow> typedResult is_T (Txn_First J uni nils tabs x (k_table k) (k_index k @ prefixSuffix) [AString pfx]))"

definition StringKey_Get :: "'t juuri \<Rightarrow> (bytes \<Rightarrow> bytes) \<Rightarrow> (indexer \<Rightarrow> arg list \<Rightarrow> bool) \<Rightarrow> nat \<Rightarrow> compiledTable nameIndex \<Rightarrow>
    't txn \<Rightarrow> keyHandle \<Rightarrow> bytes \<Rightarrow> obj list tres \<times> keyHandle" where
  "StringKey_Get J uni nils schema tabs x k key = with_key schema tabs k (\<lambda>ct ci.
     case appendStringArg uni (ci_ix ci) key False [] of
       Some val \<Rightarrow> rowsByKey J x ct ci val
     | None \<Rightarrow> Txn_Get J uni nils tabs x (k_table k) (k_index k) [AString key])"

definition StringKey_GetPrefix :: "'t juuri \<Rightarrow> (bytes \<Rightarrow> bytes) \<Rightarrow> (indexer \<Rightarrow> arg list \<Rightarrow> bool) \<Rightarrow> nat \<Rightarrow> compiledTable nameIndex \<Rightarrow>
    't txn \<Rightarrow> keyHandle \<Rightarrow> bytes \<Rightarrow> obj list tres \<times> keyHandle" where
  "StringKey_GetPrefix J uni nils schema tabs x k pfx = with_key schema tabs k (\<lambda>ct ci.
     case appendStringArg uni (ci_ix ci) pfx True [] of
       Some val \<Rightarrow> rowsByKey J x ct ci val
     | None \<Rightarrow> Txn_Get J uni nils tabs x (k_table k) (k_index k @ prefixSuffix) [AString pfx])"

subsection \<open>Integer keys\<close>

text \<open>
  The size of an integer type: for a signed one the first of the bits 7, 15, 31 that the value 1
  reaches as the sign when it is shifted there; for an unsigned one the length of its
  greatest value.
\<close>

definition bits_of :: "width \<Rightarrow> nat" where
  "bits_of w = (case w of W8 \<Rightarrow> 8 | W16 \<Rightarrow> 16 | W32 \<Rightarrow> 32 | W64 \<Rightarrow> 64 | WInt \<Rightarrow> 64)"

definition shifted_one :: "width \<Rightarrow> nat \<Rightarrow> int" where
  "shifted_one w b = (let m = (2 :: int) ^ b mod 2 ^ bits_of w in if m < 2 ^ (bits_of w - 1) then m else m - 2 ^ bits_of w)"

definition signedWidth :: "width \<Rightarrow> nat" where
  "signedWidth w = (case find (\<lambda>b. shifted_one w b < 0) [7, 15, 31] of Some b \<Rightarrow> (b + 1) div 8 | None \<Rightarrow> 8)"

fun Len64 :: "nat \<Rightarrow> nat" where
  "Len64 n = (if n = 0 then 0 else Len64 (n div 2) + 1)"

definition unsignedWidth :: "width \<Rightarrow> nat" where
  "unsignedWidth w = Len64 (2 ^ bits_of w - 1) div 8"

definition IntKey_encode :: "width \<Rightarrow> compiledIndex \<Rightarrow> bytes \<Rightarrow> uint64 \<Rightarrow> bytes option" where
  "IntKey_encode w ci dst key = (case ci_ix ci of
     IInt _ \<Rightarrow> Some (appendInt dst key (signedWidth w))
   | ITInt _ _ _ \<Rightarrow> Some (appendInt dst key (signedWidth w))
   | _ \<Rightarrow> None)"

definition UintKey_encode :: "width \<Rightarrow> compiledIndex \<Rightarrow> bytes \<Rightarrow> uint64 \<Rightarrow> bytes option" where
  "UintKey_encode w ci dst key = (case ci_ix ci of
     IUint _ \<Rightarrow> Some (appendUint dst key (unsignedWidth w))
   | ITUint _ _ _ \<Rightarrow> Some (appendUint dst key (unsignedWidth w))
   | _ \<Rightarrow> None)"

definition IntKey_First :: "'t juuri \<Rightarrow> (bytes \<Rightarrow> bytes) \<Rightarrow> (indexer \<Rightarrow> arg list \<Rightarrow> bool) \<Rightarrow> nat \<Rightarrow> compiledTable nameIndex \<Rightarrow> (obj \<Rightarrow> bool) \<Rightarrow>
    't txn \<Rightarrow> keyHandle \<Rightarrow> bool \<Rightarrow> width \<Rightarrow> uint64 \<Rightarrow> obj tres \<times> keyHandle" where
  "IntKey_First J uni nils schema tabs is_T x k named w key = with_key schema tabs k (\<lambda>ct ci.
     case IntKey_encode w ci [] key of
       Some val \<Rightarrow> firstByKey J is_T x ct ci val False
     | None \<Rightarrow> typedResult is_T (Txn_First J uni nils tabs x (k_table k) (k_index k) [AInt named w key]))"

definition IntKey_Get :: "'t juuri \<Rightarrow> (bytes \<Rightarrow> bytes) \<Rightarrow> (indexer \<Rightarrow> arg list \<Rightarrow> bool) \<Rightarrow> nat \<Rightarrow> compiledTable nameIndex \<Rightarrow>
    't txn \<Rightarrow> keyHandle \<Rightarrow> bool \<Rightarrow> width \<Rightarrow> uint64 \<Rightarrow> obj list tres \<times> keyHandle" where
  "IntKey_Get J uni nils schema tabs x k named w key = with_key schema tabs k (\<lambda>ct ci.
     case IntKey_encode w ci [] key of
       Some val \<Rightarrow> rowsByKey J x ct ci val
     | None \<Rightarrow> Txn_Get J uni nils tabs x (k_table k) (k_index k) [AInt named w key])"

definition IntKey_LowerBound :: "'t juuri \<Rightarrow> (bytes \<Rightarrow> bytes) \<Rightarrow> (indexer \<Rightarrow> arg list \<Rightarrow> bool) \<Rightarrow> nat \<Rightarrow> compiledTable nameIndex \<Rightarrow>
    't txn \<Rightarrow> keyHandle \<Rightarrow> bool \<Rightarrow> width \<Rightarrow> uint64 \<Rightarrow> obj list tres \<times> keyHandle" where
  "IntKey_LowerBound J uni nils schema tabs x k named w key = with_key schema tabs k (\<lambda>ct ci.
     case IntKey_encode w ci [] key of
       Some val \<Rightarrow> boundByKey J x ct ci val
     | None \<Rightarrow> LowerBound J uni nils tabs x (k_table k) (k_index k) [AInt named w key])"

definition UintKey_First :: "'t juuri \<Rightarrow> (bytes \<Rightarrow> bytes) \<Rightarrow> (indexer \<Rightarrow> arg list \<Rightarrow> bool) \<Rightarrow> nat \<Rightarrow> compiledTable nameIndex \<Rightarrow> (obj \<Rightarrow> bool) \<Rightarrow>
    't txn \<Rightarrow> keyHandle \<Rightarrow> bool \<Rightarrow> width \<Rightarrow> uint64 \<Rightarrow> obj tres \<times> keyHandle" where
  "UintKey_First J uni nils schema tabs is_T x k named w key = with_key schema tabs k (\<lambda>ct ci.
     case UintKey_encode w ci [] key of
       Some val \<Rightarrow> firstByKey J is_T x ct ci val False
     | None \<Rightarrow> typedResult is_T (Txn_First J uni nils tabs x (k_table k) (k_index k) [AUint named w key]))"

definition UintKey_Get :: "'t juuri \<Rightarrow> (bytes \<Rightarrow> bytes) \<Rightarrow> (indexer \<Rightarrow> arg list \<Rightarrow> bool) \<Rightarrow> nat \<Rightarrow> compiledTable nameIndex \<Rightarrow>
    't txn \<Rightarrow> keyHandle \<Rightarrow> bool \<Rightarrow> width \<Rightarrow> uint64 \<Rightarrow> obj list tres \<times> keyHandle" where
  "UintKey_Get J uni nils schema tabs x k named w key = with_key schema tabs k (\<lambda>ct ci.
     case UintKey_encode w ci [] key of
       Some val \<Rightarrow> rowsByKey J x ct ci val
     | None \<Rightarrow> Txn_Get J uni nils tabs x (k_table k) (k_index k) [AUint named w key])"

definition UintKey_LowerBound :: "'t juuri \<Rightarrow> (bytes \<Rightarrow> bytes) \<Rightarrow> (indexer \<Rightarrow> arg list \<Rightarrow> bool) \<Rightarrow> nat \<Rightarrow> compiledTable nameIndex \<Rightarrow>
    't txn \<Rightarrow> keyHandle \<Rightarrow> bool \<Rightarrow> width \<Rightarrow> uint64 \<Rightarrow> obj list tres \<times> keyHandle" where
  "UintKey_LowerBound J uni nils schema tabs x k named w key = with_key schema tabs k (\<lambda>ct ci.
     case UintKey_encode w ci [] key of
       Some val \<Rightarrow> boundByKey J x ct ci val
     | None \<Rightarrow> LowerBound J uni nils tabs x (k_table k) (k_index k) [AUint named w key])"

end
