(* ===== verification/TypedKeysSpec.thy ===== *)
theory TypedKeysSpec
  imports TypedKeys SetQuerySpec
begin

text \<open>
  The typed handles answer like the untyped queries they replace, whatever the handle remembers
  from earlier lookups.
\<close>

section \<open>Widths\<close>

lemma widths [simp]: "signedWidth w = width_bytes w" "unsignedWidth w = width_bytes w"
proof -
  have "signedWidth W8 = 1" "signedWidth W16 = 2" "signedWidth W32 = 4" "signedWidth W64 = 8" "signedWidth WInt = 8"
    by (simp_all add: signedWidth_def shifted_one_def bits_of_def)
  then show "signedWidth w = width_bytes w" by (cases w) (simp_all add: width_bytes_def)
  have "unsignedWidth W8 = 1" "unsignedWidth W16 = 2" "unsignedWidth W32 = 4" "unsignedWidth W64 = 8" "unsignedWidth WInt = 8"
    by (simp_all add: unsignedWidth_def bits_of_def)
  then show "unsignedWidth w = width_bytes w" by (cases w) (simp_all add: width_bytes_def)
qed

lemma width_size: "int_size (width_bytes w)"
  by (cases w) (simp_all add: int_size_def width_bytes_def)

lemma appended_key_nonempty:
  "appendUint [] v (width_bytes w) \<noteq> []" "appendInt [] v (width_bytes w) \<noteq> []"
  using width_size [of w] by (auto simp: appendInt_def appendUint_be int_size_def dest!: arg_cong [of _ _ length])

section \<open>Resolution\<close>

text \<open>What a handle remembers under a schema is what its names resolve to there.\<close>

definition remembers :: "nat \<Rightarrow> compiledTable nameIndex \<Rightarrow> keyHandle \<Rightarrow> bool" where
  "remembers schema tabs k \<longleftrightarrow> (\<forall>ct ci. k_resolved k = Some (schema, ct, ci) \<longrightarrow>
     ni_get tabs (k_table k) = Some ct \<and> ni_get (ct_byName ct) (k_index k) = Some (ci, False))"

lemma resolve_TOk:
  assumes "remembers schema tabs k" and "resolve schema tabs k = (TOk (ct, ci), k')"
  shows "ni_get tabs (k_table k) = Some ct \<and> ni_get (ct_byName ct) (k_index k) = Some (ci, False) \<and> remembers schema tabs k' \<and>
    k_table k' = k_table k \<and> k_index k' = k_index k"
  using assms by (auto simp: remembers_def resolve_def resolve_names_def split: option.splits if_splits)

lemma resolve_TErr:
  assumes "resolve schema tabs k = (TErr e, k')"
  shows "k' = k \<and> (ni_get tabs (k_table k) = None \<or> (\<exists>ct. ni_get tabs (k_table k) = Some ct \<and>
    (\<forall>ci. ni_get (ct_byName ct) (k_index k) \<noteq> Some (ci, False))))"
  using assms by (auto simp: resolve_def resolve_names_def split: option.splits if_splits)

lemma resolve_no_panic: "resolve schema tabs k \<noteq> (TPanic, k')"
  by (auto simp: resolve_def resolve_names_def split: option.splits if_splits)

text \<open>The name of an index that is not a prefix query, and that of its prefix query.\<close>

lemma byName_get:
  assumes "ct_wf ct"
  shows "ni_get (ct_byName ct) q = map_option (\<lambda>ci. (ci, HasSuffix q prefixSuffix))
    (find (\<lambda>ci. ci_name ci = TrimSuffix q prefixSuffix) (take (ct_classic ct) (ct_indexes ct)))"
proof -
  have "distinct (map ci_name (take (ct_classic ct) (ct_indexes ct)))" using assms by (simp add: ct_wf_def flip: take_map)
  then show ?thesis using assms by (simp add: ct_wf_def indexNames_get)
qed

lemma prefix_name:
  assumes "ct_wf ct" and "ni_get (ct_byName ct) q = Some (ci, False)"
  shows "ni_get (ct_byName ct) (q @ prefixSuffix) = Some (ci, True)"
proof -
  have q: "\<not> HasSuffix q prefixSuffix" "TrimSuffix q prefixSuffix = q"
    using assms(2) unfolding byName_get [OF assms(1)] by (auto simp: TrimSuffix_def)
  have "HasSuffix (q @ prefixSuffix) prefixSuffix" "TrimSuffix (q @ prefixSuffix) prefixSuffix = q"
    by (simp_all add: HasSuffix_def TrimSuffix_def)
  then show ?thesis using assms(2) q unfolding byName_get [OF assms(1)] by auto
qed

section \<open>Lookups by an encoded key\<close>

lemma keyed_lookups:
  assumes "getIndexValue uni nils tabs table index args = TOk (ct, (ci, pre), Some val)"
  shows "firstByKey J is_T x ct ci val pre = typedResult is_T (Txn_First J uni nils tabs x table index args)"
    "rowsByKey J x ct ci val = Txn_Get J uni nils tabs x table index args"
    "boundByKey J x ct ci val = LowerBound J uni nils tabs x table index args"
  using assms by (cases "ci_unique ci \<and> \<not> pre"; auto simp: firstByKey_def rowsByKey_def boundByKey_def typedResult_def Txn_First_def
      Txn_Get_def LowerBound_def on_index_def exact_def val_bytes_def rows_in_def split: outcome.split)+

lemma encoded_query:
  assumes "ni_get tabs table = Some ct" and "ni_get (ct_byName ct) index = Some (ci, pre)" and "args \<noteq> []"
    and "appendArgs uni pre (ci_ix ci) args [] = Some val"
  shows "getIndexValue uni nils tabs table index args = TOk (ct, (ci, pre), Some val)"
  using assms by (simp add: getIndexValue_def)

lemma appendStringArg_args: "appendStringArg uni ix key pre [] = Some val \<Longrightarrow> appendArgs uni pre ix [AString key] [] = Some val"
  by (cases ix) (auto simp: appendStringArg_def string_args_def)

lemma int_query:
  assumes "ni_get tabs table = Some ct" and "ni_get (ct_byName ct) index = Some (ci, False)"
    and "IntKey_encode w ci [] key = Some val" and "\<not> signed_overflow w key"
    and "\<And>t g w'. ci_ix ci = ITInt t g w' \<Longrightarrow> width_bytes w' = width_bytes w"
  shows "getIndexValue uni nils tabs table index [AInt named w key] = TOk (ct, (ci, False), Some val)"
proof -
  have val: "val = appendInt [] key (width_bytes w)" using assms(3) by (auto simp: IntKey_encode_def split: indexer.splits)
  note ne = appended_key_nonempty(2) [of key w]
  have enc: "encodeInt key (width_bytes w) = Ret val" unfolding val using appendInt_encode [OF width_size] by blast
  show ?thesis
  proof (cases "\<exists>name. ci_ix ci = IInt name")
    case True
    then show ?thesis using assms(1,2) val ne enc
      by (cases named) (auto simp: getIndexValue_def FromArgs_up int_fromArgsSlow_def)
  next
    case False
    then obtain t g w' where ix: "ci_ix ci = ITInt t g w'" using assms(3) by (auto simp: IntKey_encode_def split: indexer.splits)
    then have "\<not> signed_overflow w' key" using assms(4,5) by (simp add: signed_overflow_def)
    then show ?thesis using assms(1,2) assms(5) [OF ix] val ne ix
      by (cases named) (auto simp: getIndexValue_def FromArgs_up tint_FromArgs_def signedArg_def)
  qed
qed

lemma uint_query:
  assumes "ni_get tabs table = Some ct" and "ni_get (ct_byName ct) index = Some (ci, False)"
    and "UintKey_encode w ci [] key = Some val" and "\<not> unsigned_overflow w key"
    and "\<And>t g w'. ci_ix ci = ITUint t g w' \<Longrightarrow> width_bytes w' = width_bytes w"
  shows "getIndexValue uni nils tabs table index [AUint named w key] = TOk (ct, (ci, False), Some val)"
proof -
  have val: "val = appendUint [] key (width_bytes w)" using assms(3) by (auto simp: UintKey_encode_def split: indexer.splits)
  note ne = appended_key_nonempty(1) [of key w]
  have enc: "encodeUInt key (width_bytes w) = Ret val" unfolding val using appendUint_encode [OF width_size] by blast
  show ?thesis
  proof (cases "\<exists>name. ci_ix ci = IUint name")
    case True
    then show ?thesis using assms(1,2) val ne enc
      by (cases named) (auto simp: getIndexValue_def FromArgs_up uint_fromArgsSlow_def)
  next
    case False
    then obtain t g w' where ix: "ci_ix ci = ITUint t g w'" using assms(3) by (auto simp: UintKey_encode_def split: indexer.splits)
    then have "\<not> unsigned_overflow w' key" using assms(4,5) by (simp add: unsigned_overflow_def)
    then show ?thesis using assms(1,2) assms(5) [OF ix] val ne ix
      by (cases named) (auto simp: getIndexValue_def FromArgs_up tuint_FromArgs_def unsignedArg_def)
  qed
qed

section \<open>The properties\<close>

lemma with_key_TOk: "resolve schema tabs k = (TOk (ct, ci), k') \<Longrightarrow> with_key schema tabs k f = (f ct ci, k')"
  by (simp add: with_key_def)

text \<open>
  C40: a string key answers like the untyped query with its value: First and Get like those of
  the index, FirstPrefix and GetPrefix like those of its \<open>_prefix\<close> name, with the same row, the
  same miss, error or panic, whether the handle is fresh or remembers its index; and it goes
  on remembering the right index.
\<close>
theorem string_keys:
  assumes "db_ok tabs n" and "remembers schema tabs k" and "resolve schema tabs k = (TOk (ct, ci), k')"
  shows "StringKey_First J uni nils schema tabs is_T x k key =
      (typedResult is_T (Txn_First J uni nils tabs x (k_table k) (k_index k) [AString key]), k') \<and>
    StringKey_FirstPrefix J uni nils schema tabs is_T x k key =
      (typedResult is_T (Txn_First J uni nils tabs x (k_table k) (k_index k @ ''_prefix'') [AString key]), k') \<and>
    StringKey_Get J uni nils schema tabs x k key = (Txn_Get J uni nils tabs x (k_table k) (k_index k) [AString key], k') \<and>
    StringKey_GetPrefix J uni nils schema tabs x k key = (Txn_Get J uni nils tabs x (k_table k) (k_index k @ ''_prefix'') [AString key], k') \<and>
    remembers schema tabs k'"
proof -
  have ct: "ni_get tabs (k_table k) = Some ct" and ci: "ni_get (ct_byName ct) (k_index k) = Some (ci, False)"
      and r: "remembers schema tabs k'" using resolve_TOk [OF assms(2,3)] by blast+
  have pi: "ni_get (ct_byName ct) (k_index k @ ''_prefix'') = Some (ci, True)"
    using prefix_name [OF db_okD(1) [OF assms(1) ct] ci] by (simp add: prefixSuffix_def)
  note w = with_key_TOk [OF assms(3)]
  have q: "getIndexValue uni nils tabs (k_table k) (k_index k) [AString key] = TOk (ct, (ci, False), Some val)"
    if "appendStringArg uni (ci_ix ci) key False [] = Some val" for val
    by (rule encoded_query [OF ct ci _ appendStringArg_args [OF that]]) simp
  have p: "getIndexValue uni nils tabs (k_table k) (k_index k @ ''_prefix'') [AString key] = TOk (ct, (ci, True), Some val)"
    if "appendStringArg uni (ci_ix ci) key True [] = Some val" for val
    by (rule encoded_query [OF ct pi _ appendStringArg_args [OF that]]) simp
  note q' = keyed_lookups(1,2) [OF q] and p' = keyed_lookups(1,2) [OF p]
  show ?thesis using r
    by (cases "appendStringArg uni (ci_ix ci) key False []"; cases "appendStringArg uni (ci_ix ci) key True []")
      (simp_all add: StringKey_First_def StringKey_FirstPrefix_def StringKey_Get_def StringKey_GetPrefix_def w prefixSuffix_def q' p')
qed

lemma string_keys_witness:
  "\<exists>k'. StringKey_First rbt_juuri same_case (\<lambda>_ _. False) 5 sample_tables (\<lambda>_. True) ann_txn (new_key ''person'' ''id'') [1] =
    (typedResult (\<lambda>_. True) (Txn_First rbt_juuri same_case (\<lambda>_ _. False) sample_tables ann_txn ''person'' ''id'' [AString [1]]), k')"
proof -
  have "(case resolve 5 sample_tables (new_key ''person'' ''id'') of (TOk _, _) \<Rightarrow> True | _ \<Rightarrow> False)" by code_simp
  then obtain ct ci k' where r: "resolve 5 sample_tables (new_key ''person'' ''id'') = (TOk (ct, ci), k')"
    by (auto split: prod.splits tres.splits)
  have "remembers 5 sample_tables (new_key ''person'' ''id'')" by (simp add: remembers_def new_key_def)
  from string_keys [OF txn_invD(1) [OF ann_ok] this r] show ?thesis unfolding new_key_def keyHandle.simps by blast
qed

text \<open>
  An integer key answers like the untyped query with its value, for First, Get and
  LowerBound, signed or unsigned, of a built-in or a defined type, provided an accessor-based
  index is of the key's own width (a built-in one takes the width of the argument).
\<close>
theorem integer_keys:
  assumes "remembers schema tabs k" and "resolve schema tabs k = (TOk (ct, ci), k')"
    and "\<And>t g w'. ci_ix ci = ITInt t g w' \<or> ci_ix ci = ITUint t g w' \<Longrightarrow> width_bytes w' = width_bytes w"
    and "\<not> signed_overflow w i" and "\<not> unsigned_overflow w u"
  shows "IntKey_First J uni nils schema tabs is_T x k named w i =
      (typedResult is_T (Txn_First J uni nils tabs x (k_table k) (k_index k) [AInt named w i]), k') \<and>
    IntKey_Get J uni nils schema tabs x k named w i = (Txn_Get J uni nils tabs x (k_table k) (k_index k) [AInt named w i], k') \<and>
    IntKey_LowerBound J uni nils schema tabs x k named w i = (LowerBound J uni nils tabs x (k_table k) (k_index k) [AInt named w i], k') \<and>
    UintKey_First J uni nils schema tabs is_T x k named w u =
      (typedResult is_T (Txn_First J uni nils tabs x (k_table k) (k_index k) [AUint named w u]), k') \<and>
    UintKey_Get J uni nils schema tabs x k named w u = (Txn_Get J uni nils tabs x (k_table k) (k_index k) [AUint named w u], k') \<and>
    UintKey_LowerBound J uni nils schema tabs x k named w u = (LowerBound J uni nils tabs x (k_table k) (k_index k) [AUint named w u], k')"
proof -
  have ct: "ni_get tabs (k_table k) = Some ct" and ci: "ni_get (ct_byName ct) (k_index k) = Some (ci, False)"
    using resolve_TOk [OF assms(1,2)] by blast+
  note w = with_key_TOk [OF assms(2)]
  have q: "getIndexValue uni nils tabs (k_table k) (k_index k) [AInt named w i] = TOk (ct, (ci, False), Some val)"
    if "IntKey_encode w ci [] i = Some val" for val
    by (rule int_query [OF ct ci that assms(4)]) (use assms(3) in blast)
  have p: "getIndexValue uni nils tabs (k_table k) (k_index k) [AUint named w u] = TOk (ct, (ci, False), Some val)"
    if "UintKey_encode w ci [] u = Some val" for val
    by (rule uint_query [OF ct ci that assms(5)]) (use assms(3) in blast)
  note i = keyed_lookups [OF q] and u = keyed_lookups [OF p]
  show ?thesis
    by (cases "IntKey_encode w ci [] i"; cases "UintKey_encode w ci [] u")
      (simp_all add: IntKey_First_def IntKey_Get_def IntKey_LowerBound_def UintKey_First_def UintKey_Get_def UintKey_LowerBound_def w i u)
qed

text \<open>A table whose only index is on a 16-bit integer that a function reads from the row.\<close>

definition int_tables :: "compiledTable nameIndex" where
  "int_tables = (case compileSchema [(''n'', \<lparr>ts_name = ''n'', ts_indexes = [(''id'', \<lparr>is_name = ''id'', is_allowMissing = False,
     is_unique = True, is_indexer = SPlain (ITInt 0 (Some (\<lambda>_. 7)) W16)\<rparr>)]\<rparr>)] of
     Ret (Inr (tabs, _)) \<Rightarrow> tabs | _ \<Rightarrow> \<lparr>entries = [], off = []\<rparr>)"

lemma integer_keys_witness:
  "\<exists>k'. IntKey_First rbt_juuri same_case (\<lambda>_ _. False) 5 int_tables (\<lambda>_. True) sample_txn (new_key ''n'' ''id'') True W16 7 =
    (typedResult (\<lambda>_. True) (Txn_First rbt_juuri same_case (\<lambda>_ _. False) int_tables sample_txn ''n'' ''id'' [AInt True W16 7]), k')"
proof -
  have "(case resolve 5 int_tables (new_key ''n'' ''id'') of
      (TOk (ct, ci), _) \<Rightarrow> (case ci_ix ci of ITInt t g w \<Rightarrow> w = W16 | _ \<Rightarrow> False) | _ \<Rightarrow> False)" by code_simp
  then obtain ct ci k' where r: "resolve 5 int_tables (new_key ''n'' ''id'') = (TOk (ct, ci), k')"
      and "case ci_ix ci of ITInt t g w \<Rightarrow> w = W16 | _ \<Rightarrow> False"
    by (cases "resolve 5 int_tables (new_key ''n'' ''id'')"; cases "fst (resolve 5 int_tables (new_key ''n'' ''id''))") auto
  then obtain t g where ix: "ci_ix ci = ITInt t g W16" by (cases "ci_ix ci") simp_all
  have "remembers 5 int_tables (new_key ''n'' ''id'')" by (simp add: remembers_def new_key_def)
  moreover have "width_bytes w' = width_bytes W16" if "ci_ix ci = ITInt t g w' \<or> ci_ix ci = ITUint t g' w'" for t g g' w'
    using that ix by auto
  moreover have "\<not> signed_overflow W16 7" "\<not> unsigned_overflow W16 7" by (simp_all add: signed_overflow_def unsigned_overflow_def width_bytes_def)
  ultimately show ?thesis
    using integer_keys [OF _ r, of W16 7 7 rbt_juuri same_case "\<lambda>_ _. False" "\<lambda>_. True" sample_txn True]
    unfolding new_key_def keyHandle.simps by blast
qed

end
