(* ===== verification/Grown.thy ===== *)
theory Grown
  imports TxnInv
begin

text \<open>
  What the write operations do to the trees, whatever the rows are: every index tree of a
  transaction is made from the tree of its base version by operations of the tree library
  only. Notification rests on it (theory Notify): the library knows what it replaced between
  the two trees.
\<close>

section \<open>Trees made from another\<close>

inductive grown :: "'t juuri \<Rightarrow> 't \<Rightarrow> 't \<Rightarrow> bool" for J b where
  base [simp, intro]: "grown J b b"
| insert [simp, intro]: "grown J b t \<Longrightarrow> grown J b (fst (j_insert J t k v))"
| delete [simp, intro]: "grown J b t \<Longrightarrow> grown J b (fst (j_delete J t k))"
| deletePrefix [simp, intro]: "grown J b t \<Longrightarrow> grown J b (fst (j_deletePrefix J t p))"

named_theorems grows

lemma grown_fold [grows]:
  assumes "\<And>x t. grown J b t \<Longrightarrow> grown J b (f x t)"
  shows "grown J b t \<Longrightarrow> grown J b (fold f xs t)"
  using assms by (induction xs arbitrary: t) simp_all

lemma grown_drop_old [grows]: "grown J b t \<Longrightarrow> grown J b (drop_old J newKeys oldKeys r t)"
  unfolding drop_old_def Let_def by (simp add: grown_fold)

lemma grown_add_new [grows]: "grown J b t \<Longrightarrow> grown J b (add_new J newKeys r ob t)"
  unfolding add_new_def by (simp add: grown_fold)

lemma grown_clear_values:
  "grown J b t \<Longrightarrow> clear_values J bmNew kr i ks t = Ret t' \<Longrightarrow> grown J b t'"
  by (induction J bmNew kr i ks t rule: clear_values.induct)
    (simp_all add: Let_def split: if_splits option.splits cell.splits)

lemma grown_set_values:
  "grown J b t \<Longrightarrow> set_values J bmOld kr i ks t = Ret t' \<Longrightarrow> grown J b t'"
  by (induction J bmOld kr i ks t rule: set_values.induct)
    (simp_all add: Let_def split: if_splits option.splits cell.splits)

section \<open>The trees of a table\<close>

definition tt_grown :: "'t juuri \<Rightarrow> compiledTable \<Rightarrow> 't dbRoot \<Rightarrow> 't tableTxn \<Rightarrow> bool" where
  "tt_grown J ct root tt \<longleftrightarrow> tt_wf ct tt \<and> (\<forall>ci\<in>set (ct_indexes ct). grown J (d_trees root ! ci_slot ci) (cur_tree root tt ci))"

lemma tt_grown_start [grows]:
  "tt_grown J ct root tt \<Longrightarrow> ci \<in> set (ct_indexes ct) \<Longrightarrow> tt_grown J ct root (start_index root ci tt)"
  by (auto simp: tt_grown_def)

lemma tt_grown_put [grows]:
  "tt_grown J ct root tt \<Longrightarrow> ci \<in> set (ct_indexes ct) \<Longrightarrow> grown J (d_trees root ! ci_slot ci) t \<Longrightarrow>
    tt_grown J ct root (put_tree ci t tt)"
  by (auto simp: tt_grown_def cur_tree_put)

lemma tt_grown_rows [grows]: "tt_grown J ct root tt \<Longrightarrow> tt_grown J ct root (tt\<lparr>tt_rows := r\<rparr>)"
  by (simp add: tt_grown_def)

lemma tt_grown_at:
  "tt_grown J ct root tt \<Longrightarrow> ci \<in> set (ct_indexes ct) \<Longrightarrow>
    grown J (d_trees root ! ci_slot ci) (tree_at (start_index root ci tt) ci)"
  using tree_at_start by (force simp: tt_grown_def)

lemma tt_grown_table: "tt_grown J ct root tt \<Longrightarrow> tt_table tt = ct"
  by (simp add: tt_grown_def tt_wf_def)

lemma tt_grown_indexes:
  assumes "tt_grown J ct root tt"
  shows "id_index ct \<in> set (ct_indexes ct)" "set (secondary ct) \<subseteq> set (ct_indexes ct)"
    "set (drop (ct_classic ct) (ct_indexes ct)) \<subseteq> set (ct_indexes ct)"
proof -
  have "ct_wf ct" using assms by (simp add: tt_grown_def tt_wf_def)
  then show "id_index ct \<in> set (ct_indexes ct)" "set (secondary ct) \<subseteq> set (ct_indexes ct)"
    using index_sets(1) by blast+
  show "set (drop (ct_classic ct) (ct_indexes ct)) \<subseteq> set (ct_indexes ct)" by (rule set_drop_subset)
qed

lemma fst_zip_subset: "set (map fst (zip xs ys)) \<subseteq> set xs"
  by (auto dest: set_zip_leftD)

lemma apply_ranges_grown:
  "tt_grown J ct root tt \<Longrightarrow> set (map fst zs) \<subseteq> set (ct_indexes ct) \<Longrightarrow>
    tt_grown J ct root (apply_ranges J root newKeys oldKeys ob zs tt)"
  by (induction J root newKeys oldKeys ob zs tt rule: apply_ranges.induct)
    (simp_all add: Let_def grows tt_grown_at)

lemma apply_deletes_grown:
  "tt_grown J ct root tt \<Longrightarrow> set (map fst zs) \<subseteq> set (ct_indexes ct) \<Longrightarrow>
    tt_grown J ct root (apply_deletes J root oldKeys zs tt)"
  by (induction J root oldKeys zs tt rule: apply_deletes.induct)
    (simp_all add: Let_def grows tt_grown_at)

lemma apply_bitmap_indexes_grown:
  "tt_grown J ct root tt \<Longrightarrow> set (map fst zs) \<subseteq> set (ct_indexes ct) \<Longrightarrow>
    apply_bitmap_indexes J root bmNew bmOld i zs tt = Ret tt' \<Longrightarrow> tt_grown J ct root tt'"
proof (induction J root bmNew bmOld i zs tt rule: apply_bitmap_indexes.induct)
  case (2 J root bmNew bmOld i ci kr rest tt)
  let ?tt = "start_index root ci tt"
  have ci: "ci \<in> set (ct_indexes ct)" and sub: "set (map fst rest) \<subseteq> set (ct_indexes ct)" using 2(4) by auto
  show ?case
  proof (cases "newFrom kr = newTo kr \<and> oldFrom kr = oldTo kr \<or> untouched bmNew bmOld kr")
    case True
    then show ?thesis using 2(1) [OF True 2(3) sub] 2(5) by simp
  next
    case False
    then obtain t1 t2 where
      t1: "clear_values J bmNew kr i (range_keys bmOld (oldFrom kr) (oldTo kr)) (tree_at ?tt ci) = Ret t1" and
      t2: "set_values J bmOld kr i (range_keys bmNew (newFrom kr) (newTo kr)) t1 = Ret t2" and
      rest: "apply_bitmap_indexes J root bmNew bmOld i rest (put_tree ci t2 ?tt) = Ret tt'"
      using 2(5) by (auto simp: Let_def split: outcome.splits)
    have "grown J (d_trees root ! ci_slot ci) t2"
      by (rule grown_set_values [OF grown_clear_values [OF tt_grown_at [OF 2(3) ci] t1] t2])
    then have "tt_grown J ct root (put_tree ci t2 ?tt)" by (rule tt_grown_put [OF tt_grown_start [OF 2(3) ci] ci])
    then show ?thesis using 2(2) [OF False refl t1 t2] sub rest by blast
  qed
qed simp

lemma applyBitmaps_grown:
  assumes "tt_grown J ct root tt" and "applyBitmaps J root tt bmNew bmOld ranges ob existing idVal = Ret tt'"
  shows "tt_grown J ct root tt'"
proof -
  have "set (map fst (zip (drop (ct_classic ct) (ct_indexes ct)) ranges)) \<subseteq> set (ct_indexes ct)"
    using fst_zip_subset tt_grown_indexes(3) [OF assms(1)] by (rule subset_trans)
  note i = apply_bitmap_indexes_grown [OF tt_grown_rows [OF assms(1)] this]
  show ?thesis using assms(2) i
    by (auto simp: applyBitmaps_def Let_def tt_grown_table [OF assms(1)] split: outcome.splits prod.splits)
qed

section \<open>The write of a row\<close>

lemma deleteFromIndexes_grown:
  assumes "tt_grown J ct root tt" and "deleteFromIndexes J uni root tt ob pk skip = (r, tt')"
  shows "tt_grown J ct root tt'"
proof -
  have d: "tt_grown J ct root (apply_deletes J root kl (zip (secondary ct) rs) tt)" for kl rs
    using apply_deletes_grown [OF assms(1)] fst_zip_subset tt_grown_indexes(2) [OF assms(1)] by (meson subset_trans)
  show ?thesis using assms(2) assms(1) d applyBitmaps_grown [OF d]
    by (auto simp: deleteFromIndexes_def Let_def tt_grown_table [OF assms(1)] split: tres.splits if_splits outcome.splits)
qed

lemma insert_row_grown:
  assumes g: "tt_grown J ct root tt" and r: "insert_row J uni root tt ob pk = (r, tt')"
  shows "tt_grown J ct root tt'"
proof -
  note ix = tt_grown_indexes [OF g]
  let ?ci = "id_index ct"
  let ?t1 = "fst (j_insert J (tree_at (start_index root ?ci tt) ?ci) pk (CRow ob))"
  have t1: "grown J (d_trees root ! ci_slot ?ci) ?t1" by (rule grown.insert [OF tt_grown_at [OF g ix(1)]])
  have tt2: "tt_grown J ct root (put_tree ?ci ?t1 (start_index root ?ci tt))"
    by (rule tt_grown_put [OF tt_grown_start [OF g ix(1)] ix(1) t1])
  have undone: "tt_grown J ct root (put_tree ?ci (case old of Some c \<Rightarrow> fst (j_insert J ?t1 pk c) | None \<Rightarrow> fst (j_delete J ?t1 pk))
      (put_tree ?ci ?t1 (start_index root ?ci tt)))" for old
    by (rule tt_grown_put [OF tt2 ix(1)]) (use t1 in \<open>auto split: option.split\<close>)
  have tt3: "tt_grown J ct root (apply_ranges J root a b ob (zip (secondary ct) rs) (put_tree ?ci ?t1 (start_index root ?ci tt)))" for a b rs
    using apply_ranges_grown [OF tt2] fst_zip_subset ix(2) by (meson subset_trans)
  show ?thesis using r tt2 undone tt3 applyBitmaps_grown [OF tt3]
    by (auto simp: insert_row_def Let_def tt_grown_table [OF g] split_beta split: tres.splits if_splits outcome.splits)
qed

lemma delete_row_grown:
  assumes g: "tt_grown J ct root tt" and r: "delete_row J uni root tt pk = (r, tt')"
  shows "tt_grown J ct root tt'"
proof -
  note ix = tt_grown_indexes [OF g]
  let ?ci = "id_index ct"
  let ?tt = "start_index root ?ci tt"
  let ?t1 = "fst (j_delete J (tree_at ?tt ?ci) pk)"
  have t1: "grown J (d_trees root ! ci_slot ?ci) ?t1" by (rule grown.delete [OF tt_grown_at [OF g ix(1)]])
  have tt1: "tt_grown J ct root (put_tree ?ci ?t1 ?tt)" by (rule tt_grown_put [OF tt_grown_start [OF g ix(1)] ix(1) t1])
  note d = deleteFromIndexes_grown [OF tt1]
  have restored: "tt_grown J ct root (put_tree ?ci (fst (j_insert J (tree_at tt2 ?ci) pk c)) tt2)"
    if "deleteFromIndexes J uni root (put_tree ?ci ?t1 ?tt) ex pk None = (TErr e, tt2)" for tt2 c ex e
  proof -
    have g2: "tt_grown J ct root tt2" by (rule d [OF that])
    have "tt2 = put_tree ?ci ?t1 ?tt" using that
      by (auto simp: deleteFromIndexes_def Let_def split: tres.splits if_splits outcome.splits)
    then have "tree_at tt2 ?ci = ?t1" using g ix(1)
      by (simp add: tree_at_def put_tree_def tt_grown_def tt_wf_def ct_wf_ord(1))
    then show ?thesis using tt_grown_put [OF g2 ix(1)] t1 by simp
  qed
  show ?thesis using r tt1 d restored
    by (auto simp: delete_row_def Let_def tt_grown_table [OF g] split_beta prod_eq_iff split: option.splits tres.splits prod.splits)
qed

section \<open>A whole transaction\<close>

definition txn_grown :: "'t juuri \<Rightarrow> compiledTable nameIndex \<Rightarrow> 't dbRoot \<Rightarrow> 't txn \<Rightarrow> bool" where
  "txn_grown J tabs root x \<longleftrightarrow> x_root x = Some root \<and> tables_ok tabs (tables_of x) \<and>
     (\<forall>name ct. ni_get tabs name = Some ct \<longrightarrow> tt_grown J ct root (tableTxn_of ct x))"

lemma txn_grown_cong:
  "x_root x' = x_root x \<Longrightarrow> x_tables x' = x_tables x \<Longrightarrow> txn_grown J tabs root x' = txn_grown J tabs root x"
  by (simp add: txn_grown_def tables_of_def tableTxn_of_def)

lemma txn_grown_record [simp]: "txn_grown J tabs root (record_change t b a k x) = txn_grown J tabs root x"
  by (rule txn_grown_cong) simp_all

lemma txn_grown_table: "txn_grown J tabs root x \<Longrightarrow> ni_get tabs name = Some ct \<Longrightarrow> tt_grown J ct root (tableTxn_of ct x)"
  unfolding txn_grown_def by blast

lemma txn_grown_save:
  assumes db: "db_ok tabs n" and x: "txn_grown J tabs root x" and ct: "ni_get tabs name = Some ct" and tt: "tt_grown J ct root tt"
  shows "txn_grown J tabs root (save tt x)"
proof -
  have tab: "tt_table tt = ct" by (rule tt_grown_table [OF tt])
  have "tt_grown J ct' root (tableTxn_of ct' (save tt x))" if "ni_get tabs name' = Some ct'" for name' ct'
  proof (cases "name' = name")
    case True
    then show ?thesis using that ct tt tab by (simp add: tableTxn_of_save)
  next
    case False
    then have "ct_ord ct' \<noteq> ct_ord ct" using db_okD(3) [OF db ct that] by blast
    then show ?thesis using txn_grown_table [OF x that] tab by (simp add: tableTxn_of_save)
  qed
  moreover have "tables_ok tabs (tables_of (save tt x))" using tables_ok_store [of tabs "tables_of x"] x ct tab by (simp add: txn_grown_def)
  ultimately show ?thesis using x by (simp add: txn_grown_def)
qed

lemma Insert_grown:
  assumes "db_ok tabs n" and x: "txn_grown J tabs root x" and "Insert J uni tabs table ob x = (r, x')"
  shows "txn_grown J tabs root x'"
proof (cases "ni_get tabs table")
  case None
  then show ?thesis using assms by (auto simp: Insert_def split: if_splits)
next
  case (Some ct)
  have root: "x_root x = Some root" using x by (simp add: txn_grown_def)
  note g = txn_grown_table [OF x Some]
  note s = txn_grown_save [OF assms(1) x Some]
  show ?thesis using assms(3) Some x root s [OF g] s [OF insert_row_grown [OF g]]
    by (auto simp: Insert_def Let_def split: if_splits tres.splits prod.splits)
qed

lemma Delete_grown:
  assumes "db_ok tabs n" and x: "txn_grown J tabs root x" and "Delete J uni tabs table ob x = (r, x')"
  shows "txn_grown J tabs root x'"
proof (cases "ni_get tabs table")
  case None
  then show ?thesis using assms by (auto simp: Delete_def split: if_splits)
next
  case (Some ct)
  have root: "x_root x = Some root" using x by (simp add: txn_grown_def)
  note g = txn_grown_table [OF x Some]
  note s = txn_grown_save [OF assms(1) x Some]
  show ?thesis using assms(3) Some x root s [OF g] s [OF delete_row_grown [OF g]]
    by (auto simp: Delete_def Let_def split: if_splits tres.splits prod.splits)
qed

lemma delete_each_grown:
  assumes "db_ok tabs n"
  shows "txn_grown J tabs root x \<Longrightarrow> delete_each J uni tabs table obs num x = (r, x') \<Longrightarrow> txn_grown J tabs root x'"
proof (induction obs arbitrary: num x)
  case (Cons ob obs)
  obtain d y where d: "Delete J uni tabs table ob x = (d, y)" by fastforce
  show ?case using Cons d Delete_grown [OF assms Cons.prems(1) d] by (auto split: tres.splits)
qed simp

lemma DeleteAll_grown:
  assumes "db_ok tabs n" and "txn_grown J tabs root x" and "DeleteAll J uni nils tabs table index args x = (r, x')"
  shows "txn_grown J tabs root x'"
  using assms delete_each_grown [OF assms(1,2)] by (auto simp: DeleteAll_def split: if_splits tres.splits)

lemma delete_entries_grown:
  assumes db: "db_ok tabs n" and ct: "ni_get tabs table = Some ct"
  shows "txn_grown J tabs root x \<Longrightarrow> delete_entries J uni root ct table target es x = (r, x') \<Longrightarrow> txn_grown J tabs root x'"
proof (induction es arbitrary: x)
  case (Cons entry es)
  note g = txn_grown_table [OF Cons.prems(1) ct]
  show ?case
  proof (cases "primaryKey uni ct entry")
    case (TOk pk)
    let ?ci = "id_index ct"
    let ?tt1 = "start_index root ?ci (tableTxn_of ct x)"
    let ?x1 = "case j_get J (tree_at ?tt1 ?ci) pk of None \<Rightarrow> x | Some c \<Rightarrow> record_change table (row_of (Some c)) ONil pk x"
    let ?tt2 = "if ci_ord target \<noteq> ci_ord ?ci then put_tree ?ci (fst (j_delete J (tree_at ?tt1 ?ci) pk)) ?tt1 else ?tt1"
    note ix = tt_grown_indexes(1) [OF g]
    have x1: "txn_grown J tabs root ?x1" using Cons.prems(1) by (simp split: option.split)
    have tt2: "tt_grown J ct root ?tt2"
      using tt_grown_start [OF g ix] tt_grown_put [OF tt_grown_start [OF g ix] ix grown.delete [OF tt_grown_at [OF g ix]]] by simp
    obtain d tt3 where d: "deleteFromIndexes J uni root ?tt2 entry pk (Some (ci_ord target)) = (d, tt3)" by fastforce
    have s: "txn_grown J tabs root (save tt3 ?x1)" by (rule txn_grown_save [OF db x1 ct deleteFromIndexes_grown [OF tt2 d]])
    have "delete_entries J uni root ct table target (entry # es) x = (case d of TErr e \<Rightarrow> (TErr e, save tt3 ?x1)
        | TPanic \<Rightarrow> (TPanic, save tt3 ?x1) | TOk _ \<Rightarrow> delete_entries J uni root ct table target es (save tt3 ?x1))"
      by (simp only: delete_entries.simps TOk Let_def tres.case d prod.case)
    then show ?thesis using Cons.IH [OF s] Cons.prems(2) s by (cases d) auto
  qed (use Cons.prems txn_grown_save [OF db Cons.prems(1) ct g] in \<open>auto simp: Let_def\<close>)
qed simp

lemma DeletePrefix_grown:
  assumes db: "db_ok tabs n" and x: "txn_grown J tabs root x" and d: "DeletePrefix J uni nils tabs table index pfx x = (r, x')"
  shows "txn_grown J tabs root x'"
proof (cases "x' = x")
  case False
  have root: "x_root x = Some root" using x by (simp add: txn_grown_def)
  obtain ct target pre where ct: "ni_get tabs table = Some ct" and target: "ni_get (ct_byName ct) index = Some (target, pre)"
    using d False by (auto simp: DeletePrefix_def split: if_splits tres.splits option.splits prod.splits)
  have wf: "ct_wf ct" by (rule db_okD(1) [OF db ct])
  then have t: "target \<in> set (ct_indexes ct)" using byName_index(1) [OF _ target] by (auto dest: in_set_takeD)
  have cut: "txn_grown J tabs root (save (put_tree target (fst (j_deletePrefix J (tree_at (start_index root target (tableTxn_of ct y)) target) pfx))
      (start_index root target (tableTxn_of ct y))) y)" if y: "txn_grown J tabs root y" for y
    using txn_grown_table [OF y ct] t by (intro txn_grown_save [OF db y ct] tt_grown_put tt_grown_start grown.deletePrefix tt_grown_at)
  note e = delete_entries_grown [OF db ct x surjective_pairing]
  show ?thesis using d ct target root e cut [OF e] False
    by (auto simp: DeletePrefix_def Let_def split_beta split: if_splits tres.splits prod.splits)
qed (use x in simp)

end
