(* ===== verification/Notify.thy ===== *)
theory Notify
  imports Grown
begin

text \<open>
  Watch channels of the queries, and who closes them when (txn.go, bitmap_index.go): FirstWatch,
  LastWatch, the channels of the iterators of Get and GetReverse, WhereWatch, and the two halves
  of a commit, publishing the next version and notifying the watchers of what it replaced. Which
  channel belongs to which key, and what a tree transaction replaced, is the tree library's
  business: the parameter \<open>jwatch\<close>, of which the code relies on \<open>watch_laws\<close>.
\<close>

section \<open>The channels of a tree\<close>

text \<open>
  The channel of a key, the channel of a prefix, and the channels of the objects of the first
  tree that are replaced in the second, which was made from it.
\<close>

record ('t, 'c) jwatch =
  w_get :: "'t \<Rightarrow> bytes \<Rightarrow> 'c"
  w_prefix :: "'t \<Rightarrow> bytes \<Rightarrow> 'c"
  w_replaced :: "'t \<Rightarrow> 't \<Rightarrow> 'c list"

definition watch_laws :: "'t juuri \<Rightarrow> ('t, 'c) jwatch \<Rightarrow> bool" where
  "watch_laws J W \<longleftrightarrow> (\<forall>t t'. grown J t t' \<longrightarrow>
     (\<forall>k. w_get W t k \<in> set (w_replaced W t t') \<or> w_get W t' k = w_get W t k \<and> j_get J t' k = j_get J t k) \<and>
     (\<forall>p. w_prefix W t p \<in> set (w_replaced W t t') \<or>
        w_prefix W t' p = w_prefix W t p \<and> (\<forall>k. prefix p k \<longrightarrow> j_get J t' k = j_get J t k)))"

section \<open>Queries with their channel\<close>

definition FirstWatch :: "'t juuri \<Rightarrow> ('t, 'c) jwatch \<Rightarrow> (bytes \<Rightarrow> bytes) \<Rightarrow> (indexer \<Rightarrow> arg list \<Rightarrow> bool) \<Rightarrow>
    compiledTable nameIndex \<Rightarrow> 't txn \<Rightarrow> string \<Rightarrow> string \<Rightarrow> arg list \<Rightarrow> ('c \<times> obj) tres" where
  "FirstWatch J W uni nils tabs x table index args = on_index uni nils tabs x table index args (\<lambda>tree ci prefixScan val.
     if exact ci prefixScan val
     then TOk (w_get W tree (val_bytes val), row_of (j_get J tree (val_bytes val)))
     else TOk (w_prefix W tree (val_bytes val), row_of (j_first J tree (val_bytes val))))"

definition LastWatch :: "'t juuri \<Rightarrow> ('t, 'c) jwatch \<Rightarrow> (bytes \<Rightarrow> bytes) \<Rightarrow> (indexer \<Rightarrow> arg list \<Rightarrow> bool) \<Rightarrow>
    compiledTable nameIndex \<Rightarrow> 't txn \<Rightarrow> string \<Rightarrow> string \<Rightarrow> arg list \<Rightarrow> ('c \<times> obj) tres" where
  "LastWatch J W uni nils tabs x table index args = on_index uni nils tabs x table index args (\<lambda>tree ci prefixScan val.
     if exact ci prefixScan val
     then TOk (w_get W tree (val_bytes val), row_of (j_get J tree (val_bytes val)))
     else TOk (w_prefix W tree (val_bytes val), row_of (j_last J tree (val_bytes val))))"

text \<open>The iterators of Get and GetReverse: their WatchCh, and the rows they are going to return.\<close>

definition GetWatch :: "'t juuri \<Rightarrow> ('t, 'c) jwatch \<Rightarrow> (bytes \<Rightarrow> bytes) \<Rightarrow> (indexer \<Rightarrow> arg list \<Rightarrow> bool) \<Rightarrow>
    compiledTable nameIndex \<Rightarrow> 't txn \<Rightarrow> string \<Rightarrow> string \<Rightarrow> arg list \<Rightarrow> ('c \<times> obj list) tres" where
  "GetWatch J W uni nils tabs x table index args = on_index uni nils tabs x table index args (\<lambda>tree ci prefixScan val.
     TOk (w_prefix W tree (val_bytes val), rows_in (j_prefix J tree (val_bytes val))))"

definition GetReverseWatch :: "'t juuri \<Rightarrow> ('t, 'c) jwatch \<Rightarrow> (bytes \<Rightarrow> bytes) \<Rightarrow> (indexer \<Rightarrow> arg list \<Rightarrow> bool) \<Rightarrow>
    compiledTable nameIndex \<Rightarrow> 't txn \<Rightarrow> string \<Rightarrow> string \<Rightarrow> arg list \<Rightarrow> ('c \<times> obj list) tres" where
  "GetReverseWatch J W uni nils tabs x table index args = on_index uni nils tabs x table index args (\<lambda>tree ci prefixScan val.
     TOk (w_prefix W tree (val_bytes val), rows_in (j_rprefix J tree (val_bytes val))))"

definition WhereWatch :: "'t juuri \<Rightarrow> ('t, 'c) jwatch \<Rightarrow> (bytes \<Rightarrow> bytes) \<Rightarrow> compiledTable nameIndex \<Rightarrow> 't txn \<Rightarrow>
    string \<Rightarrow> string \<Rightarrow> arg list \<Rightarrow> ('c \<times> rowSet) tres" where
  "WhereWatch J W uni tabs x table index args = (case x_root x of None \<Rightarrow> TPanic | Some root \<Rightarrow>
     (case ni_get tabs table of
        None \<Rightarrow> TErr (EInvalidTable table)
      | Some ct \<Rightarrow> (case bitmapIndex ct index of
          None \<Rightarrow> (case ni_get (ct_byName ct) index of
              Some _ \<Rightarrow> TErr (ENotBitmap (TrimSuffix index prefixSuffix))
            | None \<Rightarrow> TErr (EInvalidIndex (TrimSuffix index prefixSuffix)))
        | Some (ci, prefixScan) \<Rightarrow>
            if args = [] then TErr (ENoArguments (ci_name ci))
            else (case bitmap_value uni ci prefixScan args of
                TErr e \<Rightarrow> TErr e
              | TPanic \<Rightarrow> TPanic
              | TOk val \<Rightarrow> (case (tableRowsOf ct x, readableIndex ct ci x) of
                  (Ret r, Ret tree) \<Rightarrow>
                    let set = (\<lambda>b. \<lparr>rs_table = ct_ord ct, rs_rows = r_rows r, rs_bits = b\<rparr>) in
                    if \<not> prefixScan
                    then (case j_get J tree val of
                        None \<Rightarrow> TOk (w_get W tree val, set None)
                      | Some (CBits b) \<Rightarrow> TOk (w_get W tree val, set b)
                      | Some _ \<Rightarrow> TPanic)
                    else (case or_all (map snd (j_prefix J tree val)) None of
                        Panic \<Rightarrow> TPanic
                      | Ret b \<Rightarrow> TOk (w_prefix W tree val, set b))
                | _ \<Rightarrow> TPanic)))))"

text \<open>Without their channels they are the queries of the theory Query.\<close>

fun answer :: "('c \<times> 'r) tres \<Rightarrow> 'r tres" where
  "answer (TOk (c, r)) = TOk r"
| "answer (TErr e) = TErr e"
| "answer TPanic = TPanic"

lemma answer_if [simp]: "answer (if P then a else b) = (if P then answer a else answer b)"
  by simp

lemma answer_on_index:
  "answer (on_index uni nils tabs x table index args f) = on_index uni nils tabs x table index args (\<lambda>t ci pre val. answer (f t ci pre val))"
  by (simp add: on_index_def split: tres.split outcome.split prod.split)

lemma watched_answers:
  "answer (FirstWatch J W uni nils tabs x table index args) = Txn_First J uni nils tabs x table index args"
  "answer (LastWatch J W uni nils tabs x table index args) = Txn_Last J uni nils tabs x table index args"
  "answer (GetWatch J W uni nils tabs x table index args) = Txn_Get J uni nils tabs x table index args"
  "answer (GetReverseWatch J W uni nils tabs x table index args) = GetReverse J uni nils tabs x table index args"
  "answer (WhereWatch J W uni tabs x table index args) = Where J uni tabs x table index args"
  by (simp_all add: FirstWatch_def LastWatch_def GetWatch_def GetReverseWatch_def answer_on_index Txn_First_def Txn_Last_def
      Txn_Get_def GetReverse_def on_index_def rows_in_def WhereWatch_def Where_def Let_def cong: if_cong
      split: option.split prod.split tres.split outcome.split cell.split)

section \<open>Commit in two halves\<close>

text \<open>
  The channels the notifier of a transaction has collected: those replaced in the trees the
  transaction has started. Only the primary database's transactions have a notifier.
\<close>

definition notified :: "('t, 'c) jwatch \<Rightarrow> bool \<Rightarrow> 't dbRoot \<Rightarrow> 't tableTxn list \<Rightarrow> 'c list" where
  "notified W primary root tts = (if primary
     then concat (map (\<lambda>tt. concat (map (\<lambda>ord. case tt_idx tt ! ord of None \<Rightarrow> []
         | Some t \<Rightarrow> w_replaced W (d_trees root ! ci_slot (ct_indexes (tt_table tt) ! ord)) t) [0..<length (tt_idx tt)])) tts)
     else [])"

text \<open>Commit up to the notification: the next version is stored, the lock still held.\<close>

definition Publish :: "('t, 'c) jwatch \<Rightarrow> 't memdb \<Rightarrow> 't txn \<Rightarrow> 't memdb \<times> 'c list" where
  "Publish W db x = (case (x_root x, x_tables x) of
     (Some root, Some tts) \<Rightarrow> (db\<lparr>db_root := next_root root tts\<rparr>, notified W (db_primary db) root tts)
   | _ \<Rightarrow> (db, []))"

lemma Commit_is_Publish:
  "x_write x \<Longrightarrow> x_root x \<noteq> None \<Longrightarrow> fst (Commit db x) = (fst (Publish W db x))\<lparr>db_locked := False\<rparr>"
  by (auto simp: Commit_def Publish_def split: option.split)

section \<open>The life of a database\<close>

text \<open>
  A database, what its writer is doing and the channels closed so far. Readers and watchers may
  look at any state. A step is one operation of the writer; a commit is several: it publishes,
  closes the channels one by one in any order, and releases the lock. Operations that panic are
  left out: the caller's program ends.
\<close>

datatype ('t, 'c) phase = Idle | Writing "'t txn" | Notifying "'c list"

record ('t, 'c) world =
  wd_db :: "'t memdb"
  wd_phase :: "('t, 'c) phase"
  wd_closed :: "'c list"

inductive write_call :: "'t juuri \<Rightarrow> (bytes \<Rightarrow> bytes) \<Rightarrow> (indexer \<Rightarrow> arg list \<Rightarrow> bool) \<Rightarrow> compiledTable nameIndex \<Rightarrow> 't txn \<Rightarrow> 't txn \<Rightarrow> bool"
  for J uni nils tabs x where
  insert: "Insert J uni tabs table ob x = (r, x') \<Longrightarrow> r \<noteq> TPanic \<Longrightarrow> write_call J uni nils tabs x x'"
| delete: "Delete J uni tabs table ob x = (r, x') \<Longrightarrow> r \<noteq> TPanic \<Longrightarrow> write_call J uni nils tabs x x'"
| delete_all: "DeleteAll J uni nils tabs table index args x = (r, x') \<Longrightarrow> r \<noteq> Panic \<Longrightarrow> write_call J uni nils tabs x x'"
| delete_prefix: "DeletePrefix J uni nils tabs table index pfx x = (r, x') \<Longrightarrow> r \<noteq> TPanic \<Longrightarrow> write_call J uni nils tabs x x'"
| track: "write_call J uni nils tabs x (TrackChanges x)"
| changes: "write_call J uni nils tabs x (snd (Changes hash x))"
| defer_fn: "write_call J uni nils tabs x (Defer fn x)"

inductive world_step :: "'t juuri \<Rightarrow> ('t, 'c) jwatch \<Rightarrow> (bytes \<Rightarrow> bytes) \<Rightarrow> (indexer \<Rightarrow> arg list \<Rightarrow> bool) \<Rightarrow>
    ('t, 'c) world \<Rightarrow> ('t, 'c) world \<Rightarrow> bool"
  for J W uni nils where
  begin_txn: "db_Txn True db = Some (x, db') \<Longrightarrow>
    world_step J W uni nils \<lparr>wd_db = db, wd_phase = Idle, wd_closed = C\<rparr> \<lparr>wd_db = db', wd_phase = Writing x, wd_closed = C\<rparr>"
| call: "write_call J uni nils (db_tables db) x x' \<Longrightarrow>
    world_step J W uni nils \<lparr>wd_db = db, wd_phase = Writing x, wd_closed = C\<rparr> \<lparr>wd_db = db, wd_phase = Writing x', wd_closed = C\<rparr>"
| abort: "Abort db x = (db', x') \<Longrightarrow>
    world_step J W uni nils \<lparr>wd_db = db, wd_phase = Writing x, wd_closed = C\<rparr> \<lparr>wd_db = db', wd_phase = Idle, wd_closed = C\<rparr>"
| publish: "Publish W db x = (db', cs) \<Longrightarrow>
    world_step J W uni nils \<lparr>wd_db = db, wd_phase = Writing x, wd_closed = C\<rparr> \<lparr>wd_db = db', wd_phase = Notifying cs, wd_closed = C\<rparr>"
| close: "c \<in> set cs \<Longrightarrow>
    world_step J W uni nils \<lparr>wd_db = db, wd_phase = Notifying cs, wd_closed = C\<rparr>
      \<lparr>wd_db = db, wd_phase = Notifying (remove1 c cs), wd_closed = c # C\<rparr>"
| unlock: "world_step J W uni nils \<lparr>wd_db = db, wd_phase = Notifying [], wd_closed = C\<rparr>
    \<lparr>wd_db = db\<lparr>db_locked := False\<rparr>, wd_phase = Idle, wd_closed = C\<rparr>"

abbreviation world_steps :: "'t juuri \<Rightarrow> ('t, 'c) jwatch \<Rightarrow> (bytes \<Rightarrow> bytes) \<Rightarrow> (indexer \<Rightarrow> arg list \<Rightarrow> bool) \<Rightarrow>
    ('t, 'c) world \<Rightarrow> ('t, 'c) world \<Rightarrow> bool" where
  "world_steps J W uni nils \<equiv> (world_step J W uni nils)\<^sup>*\<^sup>*"

definition new_world :: "'t memdb \<Rightarrow> ('t, 'c) world" where
  "new_world db = \<lparr>wd_db = db, wd_phase = Idle, wd_closed = []\<rparr>"

text \<open>The channels a commit is still going to close; a reader of the published version.\<close>

definition due :: "('t, 'c) world \<Rightarrow> 'c list" where
  "due w = (case wd_phase w of Notifying cs \<Rightarrow> cs | _ \<Rightarrow> [])"

definition reader :: "('t, 'c) world \<Rightarrow> 't txn" where
  "reader w = fst (the (db_Txn False (wd_db w)))"

end
