(* ===== verification/NotifySpec.thy ===== *)
theory NotifySpec
  imports Notify SetQuerySpec
begin

text \<open>
  No update is missed and nobody is woken too early: a query asked again in a later state gives
  the same answer and the same channel unless that channel is closed or about to be closed by
  the commit under way, and a channel is closed only after the version that replaces what it
  watches has been published, and on the primary database only.
\<close>

section \<open>Publishing\<close>

lemma grown_members:
  assumes "txn_grown J tabs root x" and "tt \<in> set (tables_of x)"
  shows "tt_wf (tt_table tt) tt"
proof -
  have tabs: "tables_ok tabs (tables_of x)" using assms(1) by (simp add: txn_grown_def)
  then obtain m where "ni_get tabs m = Some (tt_table tt)" using assms(2) unfolding tables_ok_def by blast
  then have "tt_wf (tt_table tt) (tableTxn_of (tt_table tt) x)" using txn_grown_table [OF assms(1)] by (simp add: tt_grown_def)
  then show ?thesis using find_tt_mem [OF tabs assms(2)] by (simp add: tableTxn_of_def)
qed

lemma next_root_trees:
  assumes "db_ok tabs n" and "length (d_trees root) = n" and x: "txn_grown J tabs root x"
  shows "length (d_trees (next_root root (tables_of x))) = n"
    "ni_get tabs name = Some ct \<Longrightarrow> ci \<in> set (ct_indexes ct) \<Longrightarrow> d_trees (next_root root (tables_of x)) ! ci_slot ci =
      (case (case find_tt (ct_ord ct) (tables_of x) of None \<Rightarrow> None | Some tt \<Rightarrow> tt_idx tt ! ci_ord ci) of
         Some t \<Rightarrow> t | None \<Rightarrow> d_trees root ! ci_slot ci)"
  using fold_put_trees [OF assms(1) _ grown_members [OF x] assms(2)] x
  by (simp_all add: next_root_def txn_grown_def)

lemma next_root_grown:
  assumes db: "db_ok tabs n" and len: "length (d_trees root) = n" and x: "txn_grown J tabs root x"
    and ct: "ni_get tabs name = Some ct" and ci: "ci \<in> set (ct_indexes ct)"
  defines "b \<equiv> d_trees root ! ci_slot ci" and "t \<equiv> d_trees (next_root root (tables_of x)) ! ci_slot ci"
  shows "grown J b t" "t = b \<or> set (w_replaced W b t) \<subseteq> set (notified W True root (tables_of x))"
proof -
  have tabs: "tables_ok tabs (tables_of x)" using x by (simp add: txn_grown_def)
  have g: "tt_grown J ct root (tableTxn_of ct x)" by (rule txn_grown_table [OF x ct])
  have t: "t = (case (case find_tt (ct_ord ct) (tables_of x) of None \<Rightarrow> None | Some tt \<Rightarrow> tt_idx tt ! ci_ord ci) of Some t \<Rightarrow> t | None \<Rightarrow> b)"
    using next_root_trees(2) [OF db len x ct ci] unfolding t_def b_def .
  have wf: "ct_wf ct" using g by (simp add: tt_grown_def tt_wf_def)
  have "t = cur_tree root (tableTxn_of ct x) ci"
    using t ct_wf_ord(1) [OF wf ci] by (auto simp: cur_tree_def tableTxn_of_def b_def split: option.splits)
  then show "grown J b t" using g ci by (simp add: tt_grown_def b_def)
  show "t = b \<or> set (w_replaced W b t) \<subseteq> set (notified W True root (tables_of x))"
  proof (cases "find_tt (ct_ord ct) (tables_of x)")
    case None
    then show ?thesis using t by simp
  next
    case (Some tt)
    then have tt: "tt \<in> set (tables_of x)" "tableTxn_of ct x = tt" using find_tt_table [OF tabs] by (auto simp: tableTxn_of_def)
    then have tab: "tt_table tt = ct" "length (tt_idx tt) = length (ct_indexes ct)" using g by (simp_all add: tt_grown_def tt_wf_def)
    show ?thesis
    proof (cases "tt_idx tt ! ci_ord ci")
      case None
      then show ?thesis using t Some by simp
    next
      case s: (Some u)
      then have u: "t = u" using t Some by simp
      have "ci_ord ci \<in> set [0..<length (tt_idx tt)]" "ct_indexes (tt_table tt) ! ci_ord ci = ci"
        using ct_wf_ord [OF wf ci] tab by simp_all
      then show ?thesis using tt(1) s unfolding u notified_def b_def by (force split: option.splits)
    qed
  qed
qed

section \<open>The invariant of a world\<close>

definition rows_there :: "compiledTable nameIndex \<Rightarrow> 't dbRoot \<Rightarrow> bool" where
  "rows_there tabs root \<longleftrightarrow> (\<forall>name ct. ni_get tabs name = Some ct \<longrightarrow> has_bitmaps ct \<longrightarrow>
     (\<exists>rs r. d_ext root = Some rs \<and> ct_ord ct < length rs \<and> rs ! ct_ord ct = Some r))"

lemma rows_there_next:
  assumes "tables_ok tabs tts" and "rows_there tabs root"
  shows "rows_there tabs (next_root root tts)"
  unfolding rows_there_def
proof (intro allI impI)
  fix name ct assume "ni_get tabs name = Some ct" "has_bitmaps ct"
  then obtain rs r where rs: "d_ext root = Some rs" "ct_ord ct < length rs" "rs ! ct_ord ct = Some r"
    using assms(2) unfolding rows_there_def by blast
  show "\<exists>rs r. d_ext (next_root root tts) = Some rs \<and> ct_ord ct < length rs \<and> rs ! ct_ord ct = Some r"
    using withRows_nth(2) [OF assms(1) rs(2)] rs by (auto simp: next_root_def split: option.splits)
qed

definition world_ok :: "'t juuri \<Rightarrow> compiledTable nameIndex \<Rightarrow> nat \<Rightarrow> ('t, 'c) world \<Rightarrow> bool" where
  "world_ok J tabs n w \<longleftrightarrow> db_ok tabs n \<and> db_tables (wd_db w) = tabs \<and> length (d_trees (db_root (wd_db w))) = n \<and>
     rows_there tabs (db_root (wd_db w)) \<and>
     (case wd_phase w of Writing x \<Rightarrow> x_write x \<and> txn_grown J tabs (db_root (wd_db w)) x | _ \<Rightarrow> True)"

lemma x_write_Insert: "Insert J uni tabs table ob x = (r, x') \<Longrightarrow> x_write x' = x_write x"
  by (auto simp: Insert_def Let_def split: if_splits option.splits tres.splits prod.splits)

lemma x_write_Delete: "Delete J uni tabs table ob x = (r, x') \<Longrightarrow> x_write x' = x_write x"
  by (auto simp: Delete_def Let_def split: if_splits option.splits tres.splits prod.splits)

lemma x_write_delete_each: "delete_each J uni tabs table obs num x = (r, x') \<Longrightarrow> x_write x' = x_write x"
  by (induction obs arbitrary: num x) (auto dest: x_write_Delete split: tres.splits prod.splits)

lemma x_write_delete_entries: "delete_entries J uni root ct table target es x = (r, x') \<Longrightarrow> x_write x' = x_write x"
proof (induction es arbitrary: x)
  case (Cons entry es)
  then show ?case by (auto simp: Let_def split: tres.splits prod.splits option.splits dest!: Cons.IH)
qed simp

lemma x_write_DeletePrefix: "DeletePrefix J uni nils tabs table index pfx x = (r, x') \<Longrightarrow> x_write x' = x_write x"
  by (auto simp: DeletePrefix_def Let_def dest: x_write_delete_entries split: if_splits option.splits tres.splits prod.splits)

lemma write_call_keeps:
  assumes "write_call J uni nils tabs x x'" and "db_ok tabs n" and "txn_grown J tabs root x"
  shows "txn_grown J tabs root x' \<and> x_write x' = x_write x"
  using assms
proof (induction rule: write_call.induct)
  case (delete_all table index args r x')
  have "x_write x' = x_write x" using delete_all.hyps x_write_delete_each
    by (fastforce simp: DeleteAll_def split: if_splits tres.splits)
  then show ?case using DeleteAll_grown [OF delete_all.prems delete_all.hyps(1)] by simp
next
  case track
  then show ?case using txn_grown_cong [of "TrackChanges x" x] by (auto simp: TrackChanges_def split: option.split)
next
  case (changes hash)
  have "x_root (snd (Changes hash x)) = x_root x" "x_tables (snd (Changes hash x)) = x_tables x" "x_write (snd (Changes hash x)) = x_write x"
    by (simp_all add: Changes_def Let_def split: option.split)
  then show ?case using txn_grown_cong [of "snd (Changes hash x)" x] changes by metis
next
  case (defer_fn fn)
  have "x_root (Defer fn x) = x_root x" "x_tables (Defer fn x) = x_tables x" "x_write (Defer fn x) = x_write x"
    by (simp_all add: Defer_def)
  then show ?case using txn_grown_cong [of "Defer fn x" x] defer_fn by metis
qed (auto dest: Insert_grown Delete_grown DeletePrefix_grown x_write_Insert x_write_Delete x_write_DeletePrefix)

lemma begin_grown:
  assumes "db_ok tabs n" and "x_root x = Some root" and "x_tables x = None"
  shows "txn_grown J tabs root x"
  using assms db_okD(1) [OF assms(1)] fresh_wf
  by (auto simp: txn_grown_def tables_of_def tables_ok_def tableTxn_of_fresh tt_grown_def cur_tree_fresh)

lemma Publish_next:
  assumes "txn_grown J tabs (db_root db) x" and "Publish W db x = (db', cs)"
  shows "db_root db' = next_root (db_root db) (tables_of x)" "cs = notified W (db_primary db) (db_root db) (tables_of x)"
    "db_tables db' = db_tables db" "db_primary db' = db_primary db"
proof -
  have "x_root x = Some (db_root db)" using assms(1) by (simp add: txn_grown_def)
  then show "db_root db' = next_root (db_root db) (tables_of x)" "cs = notified W (db_primary db) (db_root db) (tables_of x)"
    "db_tables db' = db_tables db" "db_primary db' = db_primary db"
    using assms(2) next_root_None [of x "db_root db"] by (auto simp: Publish_def notified_def tables_of_def split: option.splits)
qed

lemma world_step_ok:
  assumes "world_step J W uni nils w w'" and "world_ok J tabs n w"
  shows "world_ok J tabs n w' \<and> db_primary (wd_db w') = db_primary (wd_db w)"
  using assms
proof (induction rule: world_step.induct)
  case (begin_txn db x db' C)
  then have x: "x_root x = Some (db_root db)" "x_tables x = None" "x_write x" "db' = db\<lparr>db_locked := True\<rparr>"
    by (auto simp: db_Txn_def split: if_splits)
  then show ?case using begin_grown [OF _ x(1,2)] begin_txn.prems by (auto simp: world_ok_def)
next
  case (call db x x' C)
  then show ?case using write_call_keeps [OF call.hyps] by (auto simp: world_ok_def)
next
  case (publish db x db' cs C)
  then have g: "txn_grown J tabs (db_root db) x" and o: "db_ok tabs n" "length (d_trees (db_root db)) = n" by (simp_all add: world_ok_def)
  note p = Publish_next [OF g publish.hyps]
  have "length (d_trees (next_root (db_root db) (tables_of x))) = n" by (rule next_root_trees(1) [OF o g])
  moreover have "tables_ok tabs (tables_of x)" using g by (simp add: txn_grown_def)
  moreover have "rows_there tabs (next_root (db_root db) (tables_of x))"
    by (rule rows_there_next) (use calculation publish.prems in \<open>simp_all add: world_ok_def\<close>)
  ultimately show ?case using publish.prems p by (simp add: world_ok_def)
qed (auto simp: world_ok_def Abort_def split: option.splits)

lemma world_steps_ok:
  assumes "world_steps J W uni nils w w'" and "world_ok J tabs n w" and "db_primary (wd_db w)"
  shows "world_ok J tabs n w' \<and> db_primary (wd_db w')"
  using assms(1)
proof (induction rule: rtranclp_induct)
  case (step v u)
  then show ?case using world_step_ok [OF step.hyps(2)] by blast
qed (use assms(2,3) in simp)

section \<open>A channel that stays open\<close>

definition tree_in :: "('t, 'c) world \<Rightarrow> compiledIndex \<Rightarrow> 't" where
  "tree_in w ci = d_trees (db_root (wd_db w)) ! ci_slot ci"

definition pending :: "('t, 'c) world \<Rightarrow> 'c set" where
  "pending w = set (wd_closed w) \<union> set (due w)"

lemma pending_step: "world_step J W uni nils w w' \<Longrightarrow> pending w \<subseteq> pending w'"
  by (induction rule: world_step.induct) (auto simp: pending_def due_def)

lemma tree_step:
  assumes "world_step J W uni nils w w'" and "world_ok J tabs n w" and "db_primary (wd_db w)"
    and "ni_get tabs name = Some ct" and "ci \<in> set (ct_indexes ct)"
  shows "tree_in w' ci = tree_in w ci \<or>
    grown J (tree_in w ci) (tree_in w' ci) \<and> set (w_replaced W (tree_in w ci) (tree_in w' ci)) \<subseteq> pending w'"
  using assms
proof (induction rule: world_step.induct)
  case (begin_txn db x db' C)
  then show ?case by (auto simp: db_Txn_def tree_in_def split: if_splits)
next
  case (publish db x db' cs C)
  then have g: "txn_grown J tabs (db_root db) x" and o: "db_ok tabs n" "length (d_trees (db_root db)) = n" and pr: "db_primary db"
    by (simp_all add: world_ok_def)
  note p = Publish_next [OF g publish.hyps]
  show ?case
    using next_root_grown(1) [OF o g publish.prems(3,4)] next_root_grown(2) [OF o g publish.prems(3,4), of W] pr p by (auto simp: tree_in_def pending_def due_def)
qed (auto simp: tree_in_def Abort_def split: option.splits if_splits)

lemma watch_step:
  assumes "watch_laws J W" and "grown J t t'"
  shows "w_get W t k \<notin> set (w_replaced W t t') \<Longrightarrow> w_get W t' k = w_get W t k \<and> j_get J t' k = j_get J t k"
    "w_prefix W t p \<notin> set (w_replaced W t t') \<Longrightarrow>
      w_prefix W t' p = w_prefix W t p \<and> (\<forall>k. prefix p k \<longrightarrow> j_get J t' k = j_get J t k)"
  using assms unfolding watch_laws_def by blast+

lemma open_channel:
  assumes laws: "watch_laws J W" and steps: "world_steps J W uni nils w w'" and ok: "world_ok J tabs n w" and pr: "db_primary (wd_db w)"
    and ct: "ni_get tabs name = Some ct" and ci: "ci \<in> set (ct_indexes ct)"
  shows "world_ok J tabs n w' \<and> db_primary (wd_db w') \<and> pending w \<subseteq> pending w' \<and>
    (w_get W (tree_in w ci) k \<notin> pending w' \<longrightarrow>
      w_get W (tree_in w' ci) k = w_get W (tree_in w ci) k \<and> j_get J (tree_in w' ci) k = j_get J (tree_in w ci) k) \<and>
    (w_prefix W (tree_in w ci) p \<notin> pending w' \<longrightarrow>
      w_prefix W (tree_in w' ci) p = w_prefix W (tree_in w ci) p \<and>
      (\<forall>k. prefix p k \<longrightarrow> j_get J (tree_in w' ci) k = j_get J (tree_in w ci) k))"
  using steps
proof (induction rule: rtranclp_induct)
  case base
  then show ?case using ok pr by simp
next
  case (step v u)
  then have v: "world_ok J tabs n v" "db_primary (wd_db v)" by blast+
  note keep = world_step_ok [OF step.hyps(2) v(1)] pending_step [OF step.hyps(2)]
  show ?case
  proof (cases "tree_in u ci = tree_in v ci")
    case True
    then show ?thesis using step.IH keep by auto
  next
    case False
    then have g: "grown J (tree_in v ci) (tree_in u ci)" "set (w_replaced W (tree_in v ci) (tree_in u ci)) \<subseteq> pending u"
      using tree_step [OF step.hyps(2) v ct ci] by blast+
    note l = watch_step [OF laws g(1)]
    show ?thesis using step.IH keep g(2) l(1) [of k] l(2) [of p] by (smt (verit) subset_iff)
  qed
qed

section \<open>Asking again\<close>

lemma reader_fields [simp]: "x_root (reader w) = Some (db_root (wd_db w))" "x_tables (reader w) = None"
  by (simp_all add: reader_def db_Txn_def)

lemma reader_index: "readableIndex ct ci (reader w) = Ret (tree_in w ci)"
  by (simp add: readableIndex_def tables_of_def tree_in_def)

lemma reader_query:
  "on_index uni nils tabs (reader w) table index args f = (case getIndexValue uni nils tabs table index args of
     TErr e \<Rightarrow> TErr e | TPanic \<Rightarrow> TPanic | TOk (ct, (ci, pre), val) \<Rightarrow> f (tree_in w ci) ci pre val)"
  by (simp add: on_index_def reader_index split: tres.split prod.split)

lemma getIndexValue_index:
  assumes "db_ok tabs n" and "getIndexValue uni nils tabs table index args = TOk (ct, (ci, pre), val)"
  shows "ni_get tabs table = Some ct" "ci \<in> set (ct_indexes ct)"
proof -
  show ct: "ni_get tabs table = Some ct"
    using assms(2) by (auto simp: getIndexValue_def split: option.splits if_splits res.splits)
  have "ni_get (ct_byName ct) index = Some (ci, pre)"
    using assms(2) ct by (auto simp: getIndexValue_def split: option.splits if_splits res.splits)
  then show "ci \<in> set (ct_indexes ct)" using byName_index(1) [OF db_okD(1) [OF assms(1) ct]] by (auto dest: in_set_takeD)
qed

context juuri_tree
begin

lemma prefix_same:
  assumes "\<And>k. prefix p k \<Longrightarrow> j_get J t k = j_get J u k"
  shows "j_prefix J t p = j_prefix J u p"
  by (rule sorted_keys_unique) (use assms in \<open>auto simp: sorted_prefix\<close>)

lemma prefix_answers:
  assumes "\<forall>k. prefix p k \<longrightarrow> j_get J t k = j_get J u k"
  shows "j_prefix J t p = j_prefix J u p" "j_rprefix J t p = j_rprefix J u p"
    "j_first J t p = j_first J u p" "j_last J t p = j_last J u p"
  using prefix_same [of p t u] assms by (simp_all add: first_prefix last_prefix)

end

lemma new_world_ok:
  assumes "juuri_laws J" and "schema_valid sch" and "NewMemDB J (Some sch) = Ret (Inr db)"
  shows "\<exists>n. world_ok J (db_tables db) n (new_world db)" "db_primary db"
proof -
  have v: "DBSchema_Validate (Some sch) = None" using assms(2) by (simp add: schema_valid_def)
  obtain tabs n where c: "compileSchema sch = Ret (Inr (tabs, n))"
      and db: "db = \<lparr>db_tables = tabs, db_root = newDBRoot J tabs n, db_primary = True, db_locked = False\<rparr>"
    using assms(3) v by (auto simp: NewMemDB_def split: outcome.splits sum.splits)
  let ?root = "newDBRoot J tabs n"
  have v0: "version_ok J (\<lambda>b. b) tabs n ?root (\<lambda>_. Map.empty)"
    by (rule juuri_tree.new_version_ok [OF juuri_tree.intro [OF assms(1)] assms(2) c])
  have "rows_there tabs ?root"
    unfolding rows_there_def
  proof (intro allI impI)
    fix name ct assume ct: "ni_get tabs name = Some ct" "has_bitmaps ct"
    then obtain rs where rs: "d_ext ?root = Some rs" "ct_ord ct < length rs" using v0 unfolding version_ok_def root_ok_def by blast
    have "table_ok J (\<lambda>b. b) ct ?root (fresh_tt ct) Map.empty" using v0 ct unfolding version_ok_def by blast
    then obtain r where "rowsOf ?root (fresh_tt ct) = Ret r" using table_okD(4) ct(2) by blast
    then show "\<exists>rs r. d_ext ?root = Some rs \<and> ct_ord ct < length rs \<and> rs ! ct_ord ct = Some r"
      using rs by (auto simp: rowsOf_def fresh_tt_def split: option.splits)
  qed
  then show "\<exists>n. world_ok J (db_tables db) n (new_world db)"
    using v0 db by (auto simp: world_ok_def new_world_def version_ok_def root_ok_def)
  show "db_primary db" using db by simp
qed

text \<open>What a channel that stays open says of the trees a reader of the two states sees.\<close>

lemma same_answers:
  fixes W :: "('t, 'c) jwatch"
  assumes "juuri_laws J" and "watch_laws J W" and "schema_valid sch" and "NewMemDB J (Some sch) = Ret (Inr db)"
    and "world_steps J W uni nils (new_world db) w" and "world_steps J W uni nils w w'"
  shows "db_tables (wd_db w) = db_tables db" "db_tables (wd_db w') = db_tables db"
    "\<exists>n. world_ok J (db_tables db) n w" "\<exists>n. world_ok J (db_tables db) n w'"
    "ni_get (db_tables db) name = Some ct \<Longrightarrow> ci \<in> set (ct_indexes ct) \<Longrightarrow> w_get W (tree_in w ci) k \<notin> pending w' \<Longrightarrow>
      w_get W (tree_in w' ci) k = w_get W (tree_in w ci) k \<and> j_get J (tree_in w' ci) k = j_get J (tree_in w ci) k"
    "ni_get (db_tables db) name = Some ct \<Longrightarrow> ci \<in> set (ct_indexes ct) \<Longrightarrow> w_prefix W (tree_in w ci) p \<notin> pending w' \<Longrightarrow>
      w_prefix W (tree_in w' ci) p = w_prefix W (tree_in w ci) p \<and>
      (\<forall>k. prefix p k \<longrightarrow> j_get J (tree_in w' ci) k = j_get J (tree_in w ci) k)"
proof -
  obtain n where n: "world_ok J (db_tables db) n (new_world db :: ('t, 'c) world)" "db_primary (wd_db (new_world db :: ('t, 'c) world))"
    using new_world_ok [OF assms(1,3,4)] by (auto simp: new_world_def)
  have w: "world_ok J (db_tables db) n w \<and> db_primary (wd_db w)" by (rule world_steps_ok [OF assms(5) n])
  have w': "world_ok J (db_tables db) n w' \<and> db_primary (wd_db w')" 
    by (rule world_steps_ok [OF assms(6) conjunct1 [OF w] conjunct2 [OF w]])
  show "db_tables (wd_db w) = db_tables db" "db_tables (wd_db w') = db_tables db"
    "\<exists>n. world_ok J (db_tables db) n w" "\<exists>n. world_ok J (db_tables db) n w'" using w w' by (auto simp: world_ok_def)
  note o = open_channel [OF assms(2,6) conjunct1 [OF w] conjunct2 [OF w]]
  show "w_get W (tree_in w ci) k \<notin> pending w' \<Longrightarrow>
      w_get W (tree_in w' ci) k = w_get W (tree_in w ci) k \<and> j_get J (tree_in w' ci) k = j_get J (tree_in w ci) k"
    if "ni_get (db_tables db) name = Some ct" "ci \<in> set (ct_indexes ct)" using o [OF that] by blast
  show "w_prefix W (tree_in w ci) p \<notin> pending w' \<Longrightarrow> w_prefix W (tree_in w' ci) p = w_prefix W (tree_in w ci) p \<and>
      (\<forall>k. prefix p k \<longrightarrow> j_get J (tree_in w' ci) k = j_get J (tree_in w ci) k)"
    if "ni_get (db_tables db) name = Some ct" "ci \<in> set (ct_indexes ct)" using o [OF that] by blast
qed

lemma reader_rows:
  assumes "world_ok J tabs n w" and "ni_get tabs name = Some ct" and "has_bitmaps ct"
  shows "\<exists>r. tableRowsOf ct (reader w) = Ret r"
  using assms by (force simp: world_ok_def rows_there_def tableRowsOf_def tables_of_def)

section \<open>The properties\<close>

text \<open>
  C18: no update is missed. If FirstWatch, LastWatch, or the iterator of Get or GetReverse gives
  a reader an answer and a channel, then in any later state of the database, whatever
  transactions have been run, the same query gives a new reader the same answer and the same
  channel, unless the channel has been closed or the commit under way is about to close it.
\<close>
theorem no_missed_update:
  assumes "juuri_laws J" and "watch_laws J W" and "schema_valid sch" and "NewMemDB J (Some sch) = Ret (Inr db)"
    and "world_steps J W uni nils (new_world db) w" and "world_steps J W uni nils w w'"
    and "c \<notin> set (wd_closed w')" and "c \<notin> set (due w')"
  shows "(FirstWatch J W uni nils (db_tables db) (reader w) table index args = TOk (c, ob) \<longrightarrow>
      FirstWatch J W uni nils (db_tables db) (reader w') table index args = TOk (c, ob)) \<and>
    (LastWatch J W uni nils (db_tables db) (reader w) table index args = TOk (c, ob) \<longrightarrow>
      LastWatch J W uni nils (db_tables db) (reader w') table index args = TOk (c, ob)) \<and>
    (GetWatch J W uni nils (db_tables db) (reader w) table index args = TOk (c, obs) \<longrightarrow>
      GetWatch J W uni nils (db_tables db) (reader w') table index args = TOk (c, obs)) \<and>
    (GetReverseWatch J W uni nils (db_tables db) (reader w) table index args = TOk (c, obs) \<longrightarrow>
      GetReverseWatch J W uni nils (db_tables db) (reader w') table index args = TOk (c, obs))"
proof (cases "getIndexValue uni nils (db_tables db) table index args")
  case (TOk q)
  obtain ct ci pre val where q: "q = (ct, (ci, pre), val)" by (metis prod.collapse)
  note s = same_answers [OF assms(1-6)]
  obtain n where "db_ok (db_tables db) n" using s(3) by (auto simp: world_ok_def)
  note ix = getIndexValue_index [OF this TOk [unfolded q]]
  have c: "c \<notin> pending w'" using assms(7,8) by (simp add: pending_def)
  note g = s(5) [OF ix, of "val_bytes val"] and p = s(6) [OF ix, of "val_bytes val"]
  note pa = juuri_tree.prefix_answers [OF juuri_tree.intro [OF assms(1)], of "val_bytes val" "tree_in w' ci" "tree_in w ci"]
  show ?thesis using c g p pa
    by (auto simp: FirstWatch_def LastWatch_def GetWatch_def GetReverseWatch_def reader_query TOk q)
qed (simp_all add: FirstWatch_def LastWatch_def GetWatch_def GetReverseWatch_def reader_query)

text \<open>
  C19: nor is a row id that enters or leaves a set. While the channel of WhereWatch stays open,
  the query, by value or by prefix, gives a new reader in any later state the same channel and a
  set of the same table with exactly the same row ids, and so with as many rows. Which objects
  stand under these ids is not part of the claim: a row may have been updated in between, and an
  id that one row gives up and another takes up with the same value is not told apart.
\<close>
theorem no_missed_row:
  assumes "juuri_laws J" and "watch_laws J W" and "schema_valid sch" and "NewMemDB J (Some sch) = Ret (Inr db)"
    and "world_steps J W uni nils (new_world db) w" and "world_steps J W uni nils w w'"
    and "c \<notin> set (wd_closed w')" and "c \<notin> set (due w')"
    and "WhereWatch J W uni (db_tables db) (reader w) table index args = TOk (c, rs)"
  shows "\<exists>rs'. WhereWatch J W uni (db_tables db) (reader w') table index args = TOk (c, rs') \<and>
    rs_table rs' = rs_table rs \<and> rs_bits rs' = rs_bits rs \<and> RowSet_Len rs' = RowSet_Len rs"
proof -
  note s = same_answers [OF assms(1-6)]
  obtain n where w': "world_ok J (db_tables db) n w'" using s(4) by blast
  then have db: "db_ok (db_tables db) n" by (simp add: world_ok_def)
  obtain ct ci pre val where ct: "ni_get (db_tables db) table = Some ct" and b: "bitmapIndex ct index = Some (ci, pre)"
      and "args \<noteq> []" and val: "bitmap_value uni ci pre args = TOk val"
    using assms(9) by (auto simp: WhereWatch_def split: option.splits if_splits tres.splits)
  have wf: "ct_wf ct" by (rule db_okD(1) [OF db ct])
  have ci: "ci \<in> set (ct_indexes ct)" "has_bitmaps ct" using bitmapIndex_mem [OF wf b] by (auto simp: bitmap_indexes_def dest: in_set_dropD)
  obtain r where r: "tableRowsOf ct (reader w') = Ret r" using reader_rows [OF w' ct ci(2)] by blast
  have c: "c \<notin> pending w'" using assms(7,8) by (simp add: pending_def)
  note g = s(5) [OF ct ci(1), of val] and p = s(6) [OF ct ci(1), of val]
  note pa = juuri_tree.prefix_answers [OF juuri_tree.intro [OF assms(1)], of val "tree_in w' ci" "tree_in w ci"]
  show ?thesis using assms(9) c g p pa \<open>args \<noteq> []\<close>
    by (auto simp: RowSet_Len_def WhereWatch_def ct b val r reader_index Let_def split: if_splits option.splits outcome.splits cell.splits)
qed

subsection \<open>Who closes a channel\<close>

text \<open>The commit that published the version after \<open>v\<close> and collected \<open>c\<close>, on the way to \<open>w\<close>.\<close>

definition announced :: "'t juuri \<Rightarrow> ('t, 'c) jwatch \<Rightarrow> (bytes \<Rightarrow> bytes) \<Rightarrow> (indexer \<Rightarrow> arg list \<Rightarrow> bool) \<Rightarrow>
    ('t, 'c) world \<Rightarrow> 'c \<Rightarrow> ('t, 'c) world \<Rightarrow> bool" where
  "announced J W uni nils w0 c w \<longleftrightarrow> (\<exists>v x u cs. world_steps J W uni nils w0 v \<and> wd_phase v = Writing x \<and>
     Publish W (wd_db v) x = (wd_db u, cs) \<and> c \<in> set cs \<and> wd_phase u = Notifying cs \<and> world_steps J W uni nils u w)"

lemma announced_step:
  "announced J W uni nils w0 c w \<Longrightarrow> world_step J W uni nils w w' \<Longrightarrow> announced J W uni nils w0 c w'"
  unfolding announced_def by (meson rtranclp.rtrancl_into_rtrancl)

lemma pending_announced:
  assumes "world_steps J W uni nils w0 w" and "pending w0 = {}"
  shows "\<forall>c\<in>pending w. announced J W uni nils w0 c w"
  using assms(1)
proof (induction rule: rtranclp_induct)
  case base
  then show ?case using assms(2) by simp
next
  case (step v u)
  show ?case
  proof
    fix c assume c: "c \<in> pending u"
    show "announced J W uni nils w0 c u"
    proof (cases "c \<in> pending v")
      case True
      then show ?thesis using step.IH announced_step [OF _ step.hyps(2)] by blast
    next
      case False
      with step.hyps(2) c obtain x cs where "wd_phase v = Writing x" "Publish W (wd_db v) x = (wd_db u, cs)" "wd_phase u = Notifying cs" "c \<in> set cs"
        by (induction rule: world_step.induct) (auto simp: pending_def due_def dest: in_set_remove1 notin_set_remove1)
      then show ?thesis unfolding announced_def using step.hyps(1) by blast
    qed
  qed
qed

lemma world_step_primary: "world_step J W uni nils w w' \<Longrightarrow> db_primary (wd_db w') = db_primary (wd_db w) \<and>
    (\<not> db_primary (wd_db w) \<longrightarrow> pending w = {} \<longrightarrow> pending w' = {})"
  by (induction rule: world_step.induct)
    (auto simp: db_Txn_def Abort_def Publish_def notified_def pending_def due_def split: if_splits option.splits)

lemma replica_silent: "world_steps J W uni nils w w' \<Longrightarrow> \<not> db_primary (wd_db w) \<Longrightarrow> pending w = {} \<Longrightarrow>
    \<not> db_primary (wd_db w') \<and> pending w' = {}"
  by (induction rule: rtranclp_induct) (auto dest: world_step_primary)

text \<open>
  C21: nobody is woken too early. A channel is closed only by a commit that had collected it, and
  after that commit has stored its version: whoever is woken and starts a reader sees that
  version or a later one. A snapshot of a database closes no channel, whatever is committed to
  it.
\<close>
theorem wake_after_publish:
  assumes "world_steps J W uni nils (new_world db) w" and "c \<in> set (wd_closed w)"
  shows "db_primary db \<and> (\<exists>v x u cs. world_steps J W uni nils (new_world db) v \<and> wd_phase v = Writing x \<and>
    Publish W (wd_db v) x = (wd_db u, cs) \<and> c \<in> set cs \<and> wd_phase u = Notifying cs \<and> world_steps J W uni nils u w)"
proof -
  have none: "pending (new_world db) = {}" by (simp add: pending_def due_def new_world_def)
  have c: "c \<in> pending w" using assms(2) by (simp add: pending_def)
  then have "db_primary db" using replica_silent [OF assms(1) _ none] by (auto simp: new_world_def)
  moreover have "announced J W uni nils (new_world db) c w" using pending_announced [OF assms(1) none] c by blast
  ultimately show ?thesis unfolding announced_def by blast
qed

section \<open>A sample world\<close>

text \<open>
  Watches for the red-black trees: a channel per key, and one for all prefixes, which is
  replaced whenever an entry changes.
\<close>

definition changed_keys :: "(bytes, cell) RBT.rbt \<Rightarrow> (bytes, cell) RBT.rbt \<Rightarrow> bytes list" where
  "changed_keys t t' = filter (\<lambda>k. RBT.lookup t' k \<noteq> RBT.lookup t k) (RBT.keys t @ RBT.keys t')"

definition rbt_watch :: "((bytes, cell) RBT.rbt, bytes option) jwatch" where
  "rbt_watch = \<lparr>w_get = (\<lambda>t k. Some k), w_prefix = (\<lambda>t p. None),
     w_replaced = (\<lambda>t t'. if changed_keys t t' = [] then [] else None # map Some (changed_keys t t'))\<rparr>"

lemma changed_keys_set: "set (changed_keys t t') = {k. RBT.lookup t' k \<noteq> RBT.lookup t k}"
proof -
  have "set (RBT.keys u) = dom (RBT.lookup u)" for u :: "(bytes, cell) RBT.rbt" by (rule RBT.lookup_keys [symmetric])
  then show ?thesis unfolding changed_keys_def by (auto simp: dom_def) (metis not_None_eq)
qed

lemma rbt_watch_laws: "watch_laws rbt_juuri rbt_watch"
proof -
  have "(changed_keys t t' = []) = (\<forall>k. RBT.lookup t' k = RBT.lookup t k)" for t t'
    using changed_keys_set [of t t'] by (metis (mono_tags, lifting) mem_Collect_eq set_empty empty_iff Collect_empty_eq)
  then show ?thesis by (auto simp: watch_laws_def rbt_watch_def rbt_juuri_def changed_keys_set image_iff)
qed

definition person_db :: "(bytes, cell) RBT.rbt memdb" where
  "person_db = \<lparr>db_tables = sample_tables, db_root = sample_root, db_primary = True, db_locked = False\<rparr>"

lemma sample_created: "NewMemDB rbt_juuri (Some sample_schema) = Ret (Inr person_db)"
  using sample_valid sample_compiles by (simp add: NewMemDB_def schema_valid_def person_db_def sample_root_def)

text \<open>One transaction inserts ann; its commit closes two channels.\<close>

definition world_before :: "((bytes, cell) RBT.rbt, bytes option) world" where
  "world_before = new_world person_db"

definition ann_begun :: "(bytes, cell) RBT.rbt txn" where
  "ann_begun = fst (the (db_Txn True person_db))"

definition ann_written :: "(bytes, cell) RBT.rbt txn" where
  "ann_written = snd (Insert rbt_juuri same_case sample_tables ''person'' ann ann_begun)"

definition world_writing :: "((bytes, cell) RBT.rbt, bytes option) world" where
  "world_writing = \<lparr>wd_db = person_db\<lparr>db_locked := True\<rparr>, wd_phase = Writing ann_written, wd_closed = []\<rparr>"

lemma sample_writing: "world_steps rbt_juuri rbt_watch same_case (\<lambda>_ _. False) world_before world_writing"
proof -
  let ?step = "world_step rbt_juuri rbt_watch same_case (\<lambda>_ _. False)"
  have "fst (Insert rbt_juuri same_case sample_tables ''person'' ann ann_begun) = TOk ()" by code_simp
  then have ins: "Insert rbt_juuri same_case sample_tables ''person'' ann ann_begun = (TOk (), ann_written)"
    by (simp add: ann_written_def prod_eq_iff)
  let ?db = "person_db\<lparr>db_locked := True\<rparr>"
  have 1: "?step world_before \<lparr>wd_db = ?db, wd_phase = Writing ann_begun, wd_closed = []\<rparr>"
    unfolding world_before_def new_world_def by (rule world_step.begin_txn) (simp add: ann_begun_def db_Txn_def person_db_def Let_def)
  have 2: "?step \<lparr>wd_db = ?db, wd_phase = Writing ann_begun, wd_closed = []\<rparr> world_writing"
    unfolding world_writing_def
  proof (rule world_step.call)
    have "(TOk () :: unit tres) \<noteq> TPanic" by (rule tres.distinct)
    then show "write_call rbt_juuri same_case (\<lambda>_ _. False) (db_tables ?db) ann_begun ann_written"
      using write_call.insert [OF ins] by (simp add: person_db_def)
  qed
  show ?thesis by (rule rtranclp.rtrancl_into_rtrancl [OF r_into_rtranclp [of ?step, OF 1] 2])
qed

definition world_published :: "((bytes, cell) RBT.rbt, bytes option) world" where
  "world_published = (case Publish rbt_watch (person_db\<lparr>db_locked := True\<rparr>) ann_written of (db, cs) \<Rightarrow>
     \<lparr>wd_db = db, wd_phase = Notifying cs, wd_closed = []\<rparr>)"

lemma sample_published: "world_steps rbt_juuri rbt_watch same_case (\<lambda>_ _. False) world_before world_published"
proof -
  obtain db cs where p: "Publish rbt_watch (person_db\<lparr>db_locked := True\<rparr>) ann_written = (db, cs)" by (metis surj_pair)
  have "world_step rbt_juuri rbt_watch same_case (\<lambda>_ _. False) world_writing world_published"
    unfolding world_published_def world_writing_def p prod.case by (rule world_step.publish [OF p])
  then show ?thesis by (rule rtranclp.rtrancl_into_rtrancl [OF sample_writing])
qed

definition world_woken :: "((bytes, cell) RBT.rbt, bytes option) world" where
  "world_woken = \<lparr>wd_db = wd_db world_published, wd_phase = Notifying (remove1 None (due world_published)), wd_closed = [None]\<rparr>"

lemma sample_woken: "world_steps rbt_juuri rbt_watch same_case (\<lambda>_ _. False) world_before world_woken"
proof -
  obtain db cs where "Publish rbt_watch (person_db\<lparr>db_locked := True\<rparr>) ann_written = (db, cs)" by (metis surj_pair)
  then have w: "world_published = \<lparr>wd_db = db, wd_phase = Notifying cs, wd_closed = []\<rparr>" by (simp add: world_published_def)
  have "None \<in> set (due world_published)" by code_simp
  then have "world_step rbt_juuri rbt_watch same_case (\<lambda>_ _. False) world_published world_woken"
    unfolding world_woken_def w due_def by (simp add: world_step.close)
  then show ?thesis by (rule rtranclp.rtrancl_into_rtrancl [OF sample_published])
qed

text \<open>Who looks for person 2 has not been woken, and still finds nobody.\<close>

lemma no_missed_update_witness:
  "FirstWatch rbt_juuri rbt_watch same_case (\<lambda>_ _. False) sample_tables (reader world_published) ''person'' ''id'' [AString [2]] =
    TOk (Some [2, 0], ONil)"
proof -
  have q: "FirstWatch rbt_juuri rbt_watch same_case (\<lambda>_ _. False) (db_tables person_db) (reader world_before) ''person'' ''id'' [AString [2]] =
      TOk (Some [2, 0], ONil)" by code_simp
  have c: "Some [2, 0] \<notin> set (wd_closed world_published)" "Some [2, 0] \<notin> set (due world_published)" by code_simp+
  show ?thesis
    using no_missed_update [OF rbt_laws rbt_watch_laws sample_valid sample_created _ sample_published c, of "''person''" "''id''" "[AString [2]]"] q
    by (simp add: world_before_def person_db_def)
qed

lemma no_missed_row_witness:
  "\<exists>rs. WhereWatch rbt_juuri rbt_watch same_case sample_tables (reader world_published) ''person'' ''status'' [AString [8]] =
    TOk (Some [8, 0], rs) \<and> rs_bits rs = None"
proof -
  have "(case WhereWatch rbt_juuri rbt_watch same_case (db_tables person_db) (reader world_before) ''person'' ''status'' [AString [8]] of
      TOk (c, rs) \<Rightarrow> c = Some [8, 0] \<and> rs_bits rs = None | _ \<Rightarrow> False)" by code_simp
  then obtain rs where q: "WhereWatch rbt_juuri rbt_watch same_case (db_tables person_db) (reader world_before) ''person'' ''status'' [AString [8]] =
      TOk (Some [8, 0], rs)" "rs_bits rs = None"
    by (auto split: tres.splits)
  have c: "Some [8, 0] \<notin> set (wd_closed world_published)" "Some [8, 0] \<notin> set (due world_published)" by code_simp+
  have "world_steps rbt_juuri rbt_watch same_case (\<lambda>_ _. False) (new_world person_db) world_before" by (simp add: world_before_def)
  from no_missed_row [OF rbt_laws rbt_watch_laws sample_valid sample_created this sample_published c q(1)] q(2)
  show ?thesis by (auto simp: person_db_def)
qed

text \<open>The watcher of a prefix has been woken, by the commit that stored the new version.\<close>

lemma wake_after_publish_witness:
  "\<exists>v x u cs. world_steps rbt_juuri rbt_watch same_case (\<lambda>_ _. False) (new_world person_db) v \<and> wd_phase v = Writing x \<and>
    Publish rbt_watch (wd_db v) x = (wd_db u, cs) \<and> None \<in> set cs \<and>
    world_steps rbt_juuri rbt_watch same_case (\<lambda>_ _. False) u world_woken"
proof -
  have "None \<in> set (wd_closed world_woken)" by (simp add: world_woken_def)
  from wake_after_publish [OF sample_woken [unfolded world_before_def] this] show ?thesis by blast
qed

end
