(* ===== verification/TypedWatch.thy ===== *)
theory TypedWatch
  imports TypedKeysSpec NotifySpec
begin

text \<open>
  The rest of typed.go: the methods of a typed table that pass a call on to the transaction, and
  the queries of tables and key handles with the watch channel their rows carry. What NotifySpec
  shows of the untyped queries is carried over to the handles: a handle that goes on remembering
  its index misses no update either.
\<close>

section \<open>Typed tables\<close>

text \<open>A typed table is its name; NewTable and Name are the identity, the calls pass the name on.\<close>

definition Table_Insert :: "'t juuri \<Rightarrow> (bytes \<Rightarrow> bytes) \<Rightarrow> compiledTable nameIndex \<Rightarrow> string \<Rightarrow> 't txn \<Rightarrow> obj \<Rightarrow> unit tres \<times> 't txn" where
  "Table_Insert J uni tabs t x ob = Insert J uni tabs t ob x"

definition Table_Delete :: "'t juuri \<Rightarrow> (bytes \<Rightarrow> bytes) \<Rightarrow> compiledTable nameIndex \<Rightarrow> string \<Rightarrow> 't txn \<Rightarrow> obj \<Rightarrow> unit tres \<times> 't txn" where
  "Table_Delete J uni tabs t x ob = Delete J uni tabs t ob x"

text \<open>FirstWatch: the row is asserted to the table's type.\<close>

definition Table_FirstWatch :: "'t juuri \<Rightarrow> ('t, 'c) jwatch \<Rightarrow> (bytes \<Rightarrow> bytes) \<Rightarrow> (indexer \<Rightarrow> arg list \<Rightarrow> bool) \<Rightarrow> compiledTable nameIndex \<Rightarrow>
    (obj \<Rightarrow> bool) \<Rightarrow> string \<Rightarrow> 't txn \<Rightarrow> string \<Rightarrow> arg list \<Rightarrow> ('c \<times> obj) tres" where
  "Table_FirstWatch J W uni nils tabs is_T t x index args = (case FirstWatch J W uni nils tabs x t index args of
     TErr e \<Rightarrow> TErr e | TPanic \<Rightarrow> TPanic
   | TOk (ch, raw) \<Rightarrow> (case asserted is_T raw of TOk ob \<Rightarrow> TOk (ch, ob) | TErr e \<Rightarrow> TErr e | TPanic \<Rightarrow> TPanic))"

definition Table_Get :: "'t juuri \<Rightarrow> ('t, 'c) jwatch \<Rightarrow> (bytes \<Rightarrow> bytes) \<Rightarrow> (indexer \<Rightarrow> arg list \<Rightarrow> bool) \<Rightarrow> compiledTable nameIndex \<Rightarrow>
    string \<Rightarrow> 't txn \<Rightarrow> string \<Rightarrow> arg list \<Rightarrow> ('c \<times> obj list) tres" where
  "Table_Get J W uni nils tabs t x index args = GetWatch J W uni nils tabs x t index args"

definition Table_GetReverse :: "'t juuri \<Rightarrow> ('t, 'c) jwatch \<Rightarrow> (bytes \<Rightarrow> bytes) \<Rightarrow> (indexer \<Rightarrow> arg list \<Rightarrow> bool) \<Rightarrow> compiledTable nameIndex \<Rightarrow>
    string \<Rightarrow> 't txn \<Rightarrow> string \<Rightarrow> arg list \<Rightarrow> ('c \<times> obj list) tres" where
  "Table_GetReverse J W uni nils tabs t x index args = GetReverseWatch J W uni nils tabs x t index args"

definition Table_LowerBound :: "'t juuri \<Rightarrow> (bytes \<Rightarrow> bytes) \<Rightarrow> (indexer \<Rightarrow> arg list \<Rightarrow> bool) \<Rightarrow> compiledTable nameIndex \<Rightarrow>
    string \<Rightarrow> 't txn \<Rightarrow> string \<Rightarrow> arg list \<Rightarrow> obj list tres" where
  "Table_LowerBound J uni nils tabs t x index args = LowerBound J uni nils tabs x t index args"

definition Table_ReverseLowerBound :: "'t juuri \<Rightarrow> (bytes \<Rightarrow> bytes) \<Rightarrow> (indexer \<Rightarrow> arg list \<Rightarrow> bool) \<Rightarrow> compiledTable nameIndex \<Rightarrow>
    string \<Rightarrow> 't txn \<Rightarrow> string \<Rightarrow> arg list \<Rightarrow> obj list tres" where
  "Table_ReverseLowerBound J uni nils tabs t x index args = ReverseLowerBound J uni nils tabs x t index args"

section \<open>Key handles with their channel\<close>

definition rowsByKeyWatch :: "'t juuri \<Rightarrow> ('t, 'c) jwatch \<Rightarrow> 't txn \<Rightarrow> compiledTable \<Rightarrow> compiledIndex \<Rightarrow> bytes \<Rightarrow> ('c \<times> obj list) tres" where
  "rowsByKeyWatch J W x ct ci key = (case readableIndex ct ci x of
     Panic \<Rightarrow> TPanic | Ret tree \<Rightarrow> TOk (w_prefix W tree key, rows_in (j_prefix J tree key)))"

text \<open>The four Get methods: by the encoded key, or through the untyped query if it cannot be encoded.\<close>

definition keyed_rows :: "'t juuri \<Rightarrow> ('t, 'c) jwatch \<Rightarrow> (bytes \<Rightarrow> bytes) \<Rightarrow> (indexer \<Rightarrow> arg list \<Rightarrow> bool) \<Rightarrow> nat \<Rightarrow> compiledTable nameIndex \<Rightarrow>
    't txn \<Rightarrow> keyHandle \<Rightarrow> (compiledIndex \<Rightarrow> bytes option) \<Rightarrow> string \<Rightarrow> arg \<Rightarrow> ('c \<times> obj list) tres \<times> keyHandle" where
  "keyed_rows J W uni nils schema tabs x k encode index arg = with_key schema tabs k (\<lambda>ct ci.
     case encode ci of Some val \<Rightarrow> rowsByKeyWatch J W x ct ci val
     | None \<Rightarrow> GetWatch J W uni nils tabs x (k_table k) index [arg])"

definition StringKey_GetWatch :: "'t juuri \<Rightarrow> ('t, 'c) jwatch \<Rightarrow> (bytes \<Rightarrow> bytes) \<Rightarrow> (indexer \<Rightarrow> arg list \<Rightarrow> bool) \<Rightarrow> nat \<Rightarrow>
    compiledTable nameIndex \<Rightarrow> 't txn \<Rightarrow> keyHandle \<Rightarrow> bytes \<Rightarrow> ('c \<times> obj list) tres \<times> keyHandle" where
  "StringKey_GetWatch J W uni nils schema tabs x k key =
     keyed_rows J W uni nils schema tabs x k (\<lambda>ci. appendStringArg uni (ci_ix ci) key False []) (k_index k) (AString key)"

definition StringKey_GetPrefixWatch :: "'t juuri \<Rightarrow> ('t, 'c) jwatch \<Rightarrow> (bytes \<Rightarrow> bytes) \<Rightarrow> (indexer \<Rightarrow> arg list \<Rightarrow> bool) \<Rightarrow> nat \<Rightarrow>
    compiledTable nameIndex \<Rightarrow> 't txn \<Rightarrow> keyHandle \<Rightarrow> bytes \<Rightarrow> ('c \<times> obj list) tres \<times> keyHandle" where
  "StringKey_GetPrefixWatch J W uni nils schema tabs x k pfx =
     keyed_rows J W uni nils schema tabs x k (\<lambda>ci. appendStringArg uni (ci_ix ci) pfx True []) (k_index k @ prefixSuffix) (AString pfx)"

definition IntKey_GetWatch :: "'t juuri \<Rightarrow> ('t, 'c) jwatch \<Rightarrow> (bytes \<Rightarrow> bytes) \<Rightarrow> (indexer \<Rightarrow> arg list \<Rightarrow> bool) \<Rightarrow> nat \<Rightarrow>
    compiledTable nameIndex \<Rightarrow> 't txn \<Rightarrow> keyHandle \<Rightarrow> bool \<Rightarrow> width \<Rightarrow> uint64 \<Rightarrow> ('c \<times> obj list) tres \<times> keyHandle" where
  "IntKey_GetWatch J W uni nils schema tabs x k named w key =
     keyed_rows J W uni nils schema tabs x k (\<lambda>ci. IntKey_encode w ci [] key) (k_index k) (AInt named w key)"

definition UintKey_GetWatch :: "'t juuri \<Rightarrow> ('t, 'c) jwatch \<Rightarrow> (bytes \<Rightarrow> bytes) \<Rightarrow> (indexer \<Rightarrow> arg list \<Rightarrow> bool) \<Rightarrow> nat \<Rightarrow>
    compiledTable nameIndex \<Rightarrow> 't txn \<Rightarrow> keyHandle \<Rightarrow> bool \<Rightarrow> width \<Rightarrow> uint64 \<Rightarrow> ('c \<times> obj list) tres \<times> keyHandle" where
  "UintKey_GetWatch J W uni nils schema tabs x k named w key =
     keyed_rows J W uni nils schema tabs x k (\<lambda>ci. UintKey_encode w ci [] key) (k_index k) (AUint named w key)"

text \<open>Without their channels they are the queries of TypedKeys.\<close>

lemma answer_keyed:
  "map_prod answer id (keyed_rows J W uni nils schema tabs x k encode index arg) = with_key schema tabs k (\<lambda>ct ci.
     case encode ci of Some val \<Rightarrow> rowsByKey J x ct ci val | None \<Rightarrow> Txn_Get J uni nils tabs x (k_table k) index [arg])"
  by (auto simp: keyed_rows_def with_key_def rowsByKeyWatch_def rowsByKey_def watched_answers split: prod.split tres.split option.split outcome.split)

lemma watched_keys:
  "map_prod answer id (StringKey_GetWatch J W uni nils schema tabs x k key) = StringKey_Get J uni nils schema tabs x k key"
  "map_prod answer id (StringKey_GetPrefixWatch J W uni nils schema tabs x k key) = StringKey_GetPrefix J uni nils schema tabs x k key"
  "map_prod answer id (IntKey_GetWatch J W uni nils schema tabs x k named wd i) = IntKey_Get J uni nils schema tabs x k named wd i"
  "map_prod answer id (UintKey_GetWatch J W uni nils schema tabs x k named wd i) = UintKey_Get J uni nils schema tabs x k named wd i"
  by (simp_all add: StringKey_GetWatch_def StringKey_GetPrefixWatch_def IntKey_GetWatch_def UintKey_GetWatch_def answer_keyed
      StringKey_Get_def StringKey_GetPrefix_def IntKey_Get_def UintKey_Get_def)

section \<open>No handle misses an update\<close>

lemma resolve_again: "resolve schema tabs k = (TOk (ct, ci), k') \<Longrightarrow> resolve schema tabs k' = (TOk (ct, ci), k') \<and> k_table k' = k_table k \<and> k_index k' = k_index k"
  by (auto simp: resolve_def resolve_names_def split: option.splits if_splits)

lemma byName_member: "ct_wf ct \<Longrightarrow> ni_get (ct_byName ct) index = Some (ci, pre) \<Longrightarrow> ci \<in> set (ct_indexes ct)"
  by (rule in_set_takeD [OF byName_index(1)])

lemma rows_stay:
  assumes "juuri_laws J" and "watch_laws J W" and "schema_valid sch" and "NewMemDB J (Some sch) = Ret (Inr db)"
    and "world_steps J W uni nils (new_world db) w" and "world_steps J W uni nils w w'"
    and "c \<notin> pending w'"
  shows "ni_get (db_tables db) table = Some ct \<Longrightarrow> ci \<in> set (ct_indexes ct) \<Longrightarrow>
      rowsByKeyWatch J W (reader w) ct ci key = TOk (c, obs) \<Longrightarrow> rowsByKeyWatch J W (reader w') ct ci key = TOk (c, obs)"
    and "GetWatch J W uni nils (db_tables db) (reader w) table index args = TOk (c, obs) \<Longrightarrow>
      GetWatch J W uni nils (db_tables db) (reader w') table index args = TOk (c, obs)"
proof -
  note s = same_answers [OF assms(1-6)]
  note pa = juuri_tree.prefix_answers [OF juuri_tree.intro [OF assms(1)]]
  have p: "w_prefix W (tree_in w' ci) key = c \<and> j_prefix J (tree_in w' ci) key = j_prefix J (tree_in w ci) key"
    if "ni_get (db_tables db) table = Some ct" "ci \<in> set (ct_indexes ct)" "w_prefix W (tree_in w ci) key = c" for table ct ci key
    using s(6) [OF that(1,2), of key] pa(1) [of key "tree_in w' ci" "tree_in w ci"] that(3) assms(7) by simp
  show "rowsByKeyWatch J W (reader w') ct ci key = TOk (c, obs)"
    if "ni_get (db_tables db) table = Some ct" "ci \<in> set (ct_indexes ct)" "rowsByKeyWatch J W (reader w) ct ci key = TOk (c, obs)"
    using p [OF that(1,2), of key] that(3) by (simp add: rowsByKeyWatch_def reader_index)
  assume g: "GetWatch J W uni nils (db_tables db) (reader w) table index args = TOk (c, obs)"
  show "GetWatch J W uni nils (db_tables db) (reader w') table index args = TOk (c, obs)"
  proof (cases "getIndexValue uni nils (db_tables db) table index args")
    case (TOk q)
    obtain ct ci pre val where q: "q = (ct, (ci, pre), val)" by (metis prod.collapse)
    obtain n where "db_ok (db_tables db) n" using s(3) by (auto simp: world_ok_def)
    note ix = getIndexValue_index [OF this TOk [unfolded q]]
    show ?thesis using g p [OF ix, of "val_bytes val"] by (simp add: GetWatch_def reader_query TOk q)
  qed (use g in \<open>simp_all add: GetWatch_def reader_query\<close>)
qed

lemma keyed_rows_stay:
  assumes W: "juuri_laws J" "watch_laws J W" "schema_valid sch" "NewMemDB J (Some sch) = Ret (Inr db)"
      "world_steps J W uni nils (new_world db) w" "world_steps J W uni nils w w'" "c \<notin> pending w'"
    and k: "remembers schema (db_tables db) k"
    and q: "keyed_rows J W uni nils schema (db_tables db) (reader w) k encode index arg = (TOk (c, obs), k')"
  shows "keyed_rows J W uni nils schema (db_tables db) (reader w') k' encode index arg = (TOk (c, obs), k')"
proof -
  obtain ct ci where r: "resolve schema (db_tables db) k = (TOk (ct, ci), k')"
    using q by (auto simp: keyed_rows_def with_key_def split: prod.splits tres.splits)
  note r' = resolve_again [OF r]
  obtain n where db: "db_ok (db_tables db) n" using same_answers(3) [OF W(1-6)] by (auto simp: world_ok_def)
  have ct: "ni_get (db_tables db) (k_table k) = Some ct" and ci: "ni_get (ct_byName ct) (k_index k) = Some (ci, False)"
    using resolve_TOk [OF k r] by blast+
  note stay = rows_stay [OF W, where table = "k_table k"]
  note mem = byName_member [OF db_okD(1) [OF db ct] ci]
  show ?thesis using q stay(1) [OF ct mem] stay(2)
    by (cases "encode ci") (auto simp: keyed_rows_def with_key_def r r')
qed

text \<open>
  C20: no update is missed through a typed handle either. If Get or GetPrefix of a string key or
  Get of a signed or unsigned integer key gives a reader an answer and a channel, then in any later state of the database the same call on the handle, which now
  remembers its index, gives a new reader the same answer and channel, unless the channel has been
  closed or the commit under way is about to close it.
\<close>
theorem typed_no_missed_update:
  assumes "juuri_laws J" and "watch_laws J W" and "schema_valid sch" and "NewMemDB J (Some sch) = Ret (Inr db)"
    and "world_steps J W uni nils (new_world db) w" and "world_steps J W uni nils w w'"
    and "c \<notin> set (wd_closed w')" and "c \<notin> set (due w')" and "remembers schema (db_tables db) k"
  shows "(StringKey_GetWatch J W uni nils schema (db_tables db) (reader w) k key = (TOk (c, obs), k') \<longrightarrow>
      StringKey_GetWatch J W uni nils schema (db_tables db) (reader w') k' key = (TOk (c, obs), k')) \<and>
    (StringKey_GetPrefixWatch J W uni nils schema (db_tables db) (reader w) k key = (TOk (c, obs), k') \<longrightarrow>
      StringKey_GetPrefixWatch J W uni nils schema (db_tables db) (reader w') k' key = (TOk (c, obs), k')) \<and>
    (IntKey_GetWatch J W uni nils schema (db_tables db) (reader w) k named wd i = (TOk (c, obs), k') \<longrightarrow>
      IntKey_GetWatch J W uni nils schema (db_tables db) (reader w') k' named wd i = (TOk (c, obs), k')) \<and>
    (UintKey_GetWatch J W uni nils schema (db_tables db) (reader w) k named wd i = (TOk (c, obs), k') \<longrightarrow>
      UintKey_GetWatch J W uni nils schema (db_tables db) (reader w') k' named wd i = (TOk (c, obs), k'))"
proof -
  have c: "c \<notin> pending w'" using assms(7,8) by (simp add: pending_def)
  note stay = keyed_rows_stay [OF assms(1-6) c assms(9)]
  have ix: "k_index k' = k_index k" if "keyed_rows J W uni nils schema (db_tables db) (reader w) k encode index arg = (TOk (c, obs), k')" for encode index arg
    using that resolve_again by (fastforce simp: keyed_rows_def with_key_def split: prod.splits tres.splits)
  show ?thesis
    unfolding StringKey_GetWatch_def StringKey_GetPrefixWatch_def IntKey_GetWatch_def UintKey_GetWatch_def
    by (intro conjI impI; frule ix; drule stay; simp)
qed

text \<open>While a writer has inserted ann and not committed, a reader of her key still finds nobody.\<close>

lemma typed_no_missed_update_witness:
  "\<exists>k'. StringKey_GetWatch rbt_juuri rbt_watch same_case (\<lambda>_ _. False) 5 sample_tables (reader world_before) (new_key ''person'' ''id'') [1] =
      (TOk (None, []), k') \<and>
    StringKey_GetWatch rbt_juuri rbt_watch same_case (\<lambda>_ _. False) 5 sample_tables (reader world_writing) k' [1] = (TOk (None, []), k')"
proof -
  have db: "db_tables person_db = sample_tables" by (simp add: person_db_def)
  have "fst (StringKey_GetWatch rbt_juuri rbt_watch same_case (\<lambda>_ _. False) 5 sample_tables (reader world_before) (new_key ''person'' ''id'') [1]) =
    TOk (None, [])" by code_simp
  then obtain k' where q: "StringKey_GetWatch rbt_juuri rbt_watch same_case (\<lambda>_ _. False) 5 (db_tables person_db) (reader world_before) (new_key ''person'' ''id'') [1] =
      (TOk (None, []), k')" unfolding db by (metis prod.collapse)
  have w: "world_steps rbt_juuri rbt_watch same_case (\<lambda>_ _. False) (new_world person_db) world_before" by (simp add: world_before_def)
  have c: "None \<notin> set (wd_closed world_writing)" "None \<notin> set (due world_writing)" by (simp_all add: world_writing_def due_def)
  have r: "remembers 5 (db_tables person_db) (new_key ''person'' ''id'')" by (simp add: remembers_def new_key_def)
  show ?thesis
    using typed_no_missed_update [OF rbt_laws rbt_watch_laws sample_valid sample_created w sample_writing c r] q unfolding db by blast
qed

end
