(* ===== verification/Watch.thy ===== *)
theory Watch
  imports Prelude
begin

text \<open>
  Waiting on watch channels (watch.go and the selects generated into watch_few.go). A channel
  is a number, None a nil channel, which is never ready. A select is the list of its arms: it
  blocks while no arm is ready and otherwise returns the verdict of any ready one. A set of up
  to 128 channels waits in one select; a bigger one is spread over goroutines, whose steps,
  interleaved with each other, with the caller and with the channels that become ready, are a
  step relation. A watch set is the list of its channels in the order in which the loop over
  the map happens to visit them.
\<close>

section \<open>Selects\<close>

type_synonym chan = nat

datatype woke = watchFired | watchDone | watchTimeout

type_synonym arms = "(chan option \<times> woke) list"

fun is_ready :: "chan list \<Rightarrow> chan option \<Rightarrow> bool" where
  "is_ready ready None = False"
| "is_ready ready (Some c) = (c \<in> set ready)"

text \<open>The verdicts a select may return now; none: it blocks.\<close>

definition verdicts :: "chan list \<Rightarrow> arms \<Rightarrow> woke list" where
  "verdicts ready arms = map snd (filter (\<lambda>(c, v). is_ready ready c) arms)"

definition smallFew :: nat where "smallFew = 8"
definition mediumFew :: nat where "mediumFew = 32"
definition maxFew :: nat where "maxFew = 128"
definition fanoutChunk :: nat where "fanoutChunk = 32"

text \<open>
  The template of the generated functions (watch-gen/main.go): a select over the first \<open>tier\<close>
  channels of the slice and the done or timeout channel; the slice must be that long.
\<close>

definition tier_select :: "nat \<Rightarrow> chan option \<Rightarrow> woke \<Rightarrow> chan option list \<Rightarrow> arms outcome" where
  "tier_select tier other verdict ch =
    (if length ch < tier then Panic
     else Ret (map (\<lambda>i. (ch ! i, watchFired)) [0..<tier] @ [(other, verdict)]))"

text \<open>The functions it has generated.\<close>

definition watchFewDone1 :: "chan option \<Rightarrow> chan option list \<Rightarrow> arms outcome" where
  "watchFewDone1 don ch = tier_select 1 don watchDone ch"

definition watchFewTimeout1 :: "chan option \<Rightarrow> chan option list \<Rightarrow> arms outcome" where
  "watchFewTimeout1 timeoutCh ch = tier_select 1 timeoutCh watchTimeout ch"

definition watchFewDone2 :: "chan option \<Rightarrow> chan option list \<Rightarrow> arms outcome" where
  "watchFewDone2 don ch = tier_select 2 don watchDone ch"

definition watchFewTimeout2 :: "chan option \<Rightarrow> chan option list \<Rightarrow> arms outcome" where
  "watchFewTimeout2 timeoutCh ch = tier_select 2 timeoutCh watchTimeout ch"

definition watchFewDone4 :: "chan option \<Rightarrow> chan option list \<Rightarrow> arms outcome" where
  "watchFewDone4 don ch = tier_select 4 don watchDone ch"

definition watchFewTimeout4 :: "chan option \<Rightarrow> chan option list \<Rightarrow> arms outcome" where
  "watchFewTimeout4 timeoutCh ch = tier_select 4 timeoutCh watchTimeout ch"

definition watchFewDone8 :: "chan option \<Rightarrow> chan option list \<Rightarrow> arms outcome" where
  "watchFewDone8 don ch = tier_select 8 don watchDone ch"

definition watchFewTimeout8 :: "chan option \<Rightarrow> chan option list \<Rightarrow> arms outcome" where
  "watchFewTimeout8 timeoutCh ch = tier_select 8 timeoutCh watchTimeout ch"

definition watchFewDone16 :: "chan option \<Rightarrow> chan option list \<Rightarrow> arms outcome" where
  "watchFewDone16 don ch = tier_select 16 don watchDone ch"

definition watchFewTimeout16 :: "chan option \<Rightarrow> chan option list \<Rightarrow> arms outcome" where
  "watchFewTimeout16 timeoutCh ch = tier_select 16 timeoutCh watchTimeout ch"

definition watchFewDone32 :: "chan option \<Rightarrow> chan option list \<Rightarrow> arms outcome" where
  "watchFewDone32 don ch = tier_select 32 don watchDone ch"

definition watchFewTimeout32 :: "chan option \<Rightarrow> chan option list \<Rightarrow> arms outcome" where
  "watchFewTimeout32 timeoutCh ch = tier_select 32 timeoutCh watchTimeout ch"

definition watchFewDone64 :: "chan option \<Rightarrow> chan option list \<Rightarrow> arms outcome" where
  "watchFewDone64 don ch = tier_select 64 don watchDone ch"

definition watchFewTimeout64 :: "chan option \<Rightarrow> chan option list \<Rightarrow> arms outcome" where
  "watchFewTimeout64 timeoutCh ch = tier_select 64 timeoutCh watchTimeout ch"

definition watchFewDone128 :: "chan option \<Rightarrow> chan option list \<Rightarrow> arms outcome" where
  "watchFewDone128 don ch = tier_select 128 don watchDone ch"

definition watchFewTimeout128 :: "chan option \<Rightarrow> chan option list \<Rightarrow> arms outcome" where
  "watchFewTimeout128 timeoutCh ch = tier_select 128 timeoutCh watchTimeout ch"

lemmas tier_defs = watchFewDone1_def watchFewTimeout1_def watchFewDone2_def watchFewTimeout2_def watchFewDone4_def watchFewTimeout4_def
  watchFewDone8_def watchFewTimeout8_def watchFewDone16_def watchFewTimeout16_def watchFewDone32_def watchFewTimeout32_def
  watchFewDone64_def watchFewTimeout64_def watchFewDone128_def watchFewTimeout128_def

definition watchFewDone :: "nat \<Rightarrow> chan option \<Rightarrow> chan option list \<Rightarrow> arms outcome" where
  "watchFewDone n don ch =
    (if n \<le> 1 then watchFewDone1 don ch
     else if n \<le> 2 then watchFewDone2 don ch
     else if n \<le> 4 then watchFewDone4 don ch
     else if n \<le> 8 then watchFewDone8 don ch
     else if n \<le> 16 then watchFewDone16 don ch
     else if n \<le> 32 then watchFewDone32 don ch
     else if n \<le> 64 then watchFewDone64 don ch
     else if n \<le> 128 then watchFewDone128 don ch
     else Panic)"

definition watchFewTimeout :: "nat \<Rightarrow> chan option \<Rightarrow> chan option list \<Rightarrow> arms outcome" where
  "watchFewTimeout n timeoutCh ch =
    (if n \<le> 1 then watchFewTimeout1 timeoutCh ch
     else if n \<le> 2 then watchFewTimeout2 timeoutCh ch
     else if n \<le> 4 then watchFewTimeout4 timeoutCh ch
     else if n \<le> 8 then watchFewTimeout8 timeoutCh ch
     else if n \<le> 16 then watchFewTimeout16 timeoutCh ch
     else if n \<le> 32 then watchFewTimeout32 timeoutCh ch
     else if n \<le> 64 then watchFewTimeout64 timeoutCh ch
     else if n \<le> 128 then watchFewTimeout128 timeoutCh ch
     else Panic)"

text \<open>The ladder as the generator's template has it, for any list of tiers.\<close>

fun ladder :: "nat list \<Rightarrow> woke \<Rightarrow> nat \<Rightarrow> chan option \<Rightarrow> chan option list \<Rightarrow> arms outcome" where
  "ladder [] verdict n other ch = Panic"
| "ladder (tier # ts) verdict n other ch = (if n \<le> tier then tier_select tier other verdict ch else ladder ts verdict n other ch)"

definition tiers :: "nat list" where
  "tiers = [1, 2, 4, 8, 16, 32, 64, 128]"

lemma generated_ladders:
  "watchFewDone n don ch = ladder tiers watchDone n don ch"
  "watchFewTimeout n timeoutCh ch = ladder tiers watchTimeout n timeoutCh ch"
  "maxFew = last tiers"
  by (simp_all add: watchFewDone_def watchFewTimeout_def tiers_def maxFew_def tier_defs)

definition watchFew :: "nat \<Rightarrow> chan option \<Rightarrow> chan option \<Rightarrow> chan option list \<Rightarrow> arms outcome" where
  "watchFew n don timeoutCh ch = (if timeoutCh \<noteq> None then watchFewTimeout n timeoutCh ch else watchFewDone n don ch)"

definition watchChunk :: "chan option \<Rightarrow> chan option list \<Rightarrow> arms outcome" where
  "watchChunk don ch = watchFewDone32 don ch"

section \<open>Watch sets\<close>

text \<open>A nil set is None; the map's keys are kept in the order they were added.\<close>

type_synonym watchSet = "chan option list option"

definition NewWatchSet :: watchSet where
  "NewWatchSet = Some []"

definition Add :: "watchSet \<Rightarrow> chan option \<Rightarrow> watchSet" where
  "Add w watchCh = (case w of None \<Rightarrow> None | Some cs \<Rightarrow> Some (List.insert watchCh cs))"

definition AddWithLimit :: "watchSet \<Rightarrow> int \<Rightarrow> chan option \<Rightarrow> chan option \<Rightarrow> watchSet" where
  "AddWithLimit w softLimit watchCh altCh =
    (if int (case w of None \<Rightarrow> 0 | Some cs \<Rightarrow> length cs) < softLimit then Add w watchCh else Add w altCh)"

text \<open>The array of channels that watch fills: as long as its size class, nil beyond the set.\<close>

definition few_array :: "nat \<Rightarrow> chan option list \<Rightarrow> chan option list" where
  "few_array len cs = cs @ replicate (len - length cs) None"

datatype waiting = One arms | Many

definition watch :: "chan option list \<Rightarrow> chan option \<Rightarrow> chan option \<Rightarrow> waiting outcome" where
  "watch cs don timeoutCh =
    (let n = length cs;
       few = (\<lambda>k. case watchFew n don timeoutCh (few_array k cs) of Panic \<Rightarrow> Panic | Ret arms \<Rightarrow> Ret (One arms))
     in if n \<le> smallFew then few smallFew
        else if n \<le> mediumFew then few mediumFew
        else if n \<le> maxFew then few maxFew
        else Ret Many)"

text \<open>What Watch and WatchCtx make of the verdict; a nil set returns at once.\<close>

definition Watch_result :: "woke \<Rightarrow> bool" where
  "Watch_result v \<longleftrightarrow> v = watchTimeout"

definition WatchCtx_result :: "'e \<Rightarrow> woke \<Rightarrow> 'e option" where
  "WatchCtx_result err v = (if v = watchDone then Some err else None)"

section \<open>Many channels\<close>

text \<open>
  The loop that apportions the channels into chunks. The last chunk started is not replaced when
  it was the whole rest of the set.
\<close>

fun fill_chunks :: "nat \<Rightarrow> chan option list \<Rightarrow> nat \<Rightarrow> chan option list \<Rightarrow> chan option list list \<Rightarrow> chan option list list" where
  "fill_chunks len [] idx chunk started = (if idx mod fanoutChunk \<noteq> 0 then started @ [chunk] else started)"
| "fill_chunks len (c # cs) idx chunk started =
    (let chunk' = chunk[idx mod fanoutChunk := c]; idx' = idx + 1
     in if idx' mod fanoutChunk = 0
        then fill_chunks len cs idx' (if idx' < len then replicate fanoutChunk None else chunk') (started @ [chunk'])
        else fill_chunks len cs idx' chunk' started)"

definition chunks_of :: "chan option list \<Rightarrow> chan option list list" where
  "chunks_of cs = fill_chunks (length cs) cs 0 (replicate fanoutChunk None) []"

text \<open>
  A goroutine waits on its chunk, is about to send on the trigger channel, or has ended. The
  channel \<open>w_ready\<close> lists everything that has become ready; \<open>w_trigger\<close>: the buffer of the
  trigger channel is full; \<open>w_stop\<close>: stopCh has been closed; \<open>w_result\<close>: what watchMany returned.
\<close>

datatype helper = Waiting "chan option list" | Sending | Ended

record wstate =
  w_ready :: "chan list"
  w_helpers :: "helper list"
  w_trigger :: bool
  w_stop :: bool
  w_result :: "woke option"

definition wstart :: "chan list \<Rightarrow> chan option list \<Rightarrow> wstate" where
  "wstart ready cs = \<lparr>w_ready = ready, w_helpers = map Waiting (chunks_of cs), w_trigger = False, w_stop = False, w_result = None\<rparr>"

text \<open>
  The steps of the goroutines and of the caller. In \<open>stopped\<close> the select of a helper takes the arm
  of stopCh, whose verdict is not watchFired.
\<close>

inductive istep :: "chan option \<Rightarrow> chan option \<Rightarrow> wstate \<Rightarrow> wstate \<Rightarrow> bool" for don timeoutCh where
  fired: "i < length (w_helpers s) \<Longrightarrow> w_helpers s ! i = Waiting ch \<Longrightarrow> watchChunk None ch = Ret arms \<Longrightarrow>
    watchFired \<in> set (verdicts (w_ready s) arms) \<Longrightarrow>
    istep don timeoutCh s (s\<lparr>w_helpers := (w_helpers s)[i := Sending]\<rparr>)"
| stopped: "i < length (w_helpers s) \<Longrightarrow> w_helpers s ! i = Waiting ch \<Longrightarrow> w_stop s \<Longrightarrow>
    istep don timeoutCh s (s\<lparr>w_helpers := (w_helpers s)[i := Ended]\<rparr>)"
| sent: "i < length (w_helpers s) \<Longrightarrow> w_helpers s ! i = Sending \<Longrightarrow>
    istep don timeoutCh s (s\<lparr>w_helpers := (w_helpers s)[i := Ended], w_trigger := True\<rparr>)"
| triggered: "w_result s = None \<Longrightarrow> w_trigger s \<Longrightarrow>
    istep don timeoutCh s (s\<lparr>w_trigger := False, w_stop := True, w_result := Some watchFired\<rparr>)"
| other: "w_result s = None \<Longrightarrow> v \<in> set (verdicts (w_ready s) [(don, watchDone), (timeoutCh, watchTimeout)]) \<Longrightarrow>
    istep don timeoutCh s (s\<lparr>w_stop := True, w_result := Some v\<rparr>)"

text \<open>The steps of the world: a channel becomes ready (a watch channel is closed), and stays so.\<close>

inductive wstep :: "chan option \<Rightarrow> chan option \<Rightarrow> wstate \<Rightarrow> wstate \<Rightarrow> bool" for don timeoutCh where
  internal: "istep don timeoutCh s s' \<Longrightarrow> wstep don timeoutCh s s'"
| closes: "wstep don timeoutCh s (s\<lparr>w_ready := c # w_ready s\<rparr>)"

text \<open>
  watchMany: the look at the done and timeout channels before anything is set up may return;
  otherwise the goroutines are started.
\<close>

inductive many_reach :: "chan option list \<Rightarrow> chan option \<Rightarrow> chan option \<Rightarrow> wstate \<Rightarrow> bool" for cs don timeoutCh where
  at_once: "v \<in> set (verdicts ready [(don, watchDone), (timeoutCh, watchTimeout)]) \<Longrightarrow>
    many_reach cs don timeoutCh \<lparr>w_ready = ready, w_helpers = [], w_trigger = False, w_stop = False, w_result = Some v\<rparr>"
| started: "verdicts ready [(don, watchDone), (timeoutCh, watchTimeout)] = [] \<Longrightarrow> many_reach cs don timeoutCh (wstart ready cs)"
| step: "many_reach cs don timeoutCh s \<Longrightarrow> wstep don timeoutCh s s' \<Longrightarrow> many_reach cs don timeoutCh s'"

inductive_cases istep_cases: "istep don timeoutCh s s'"
inductive_cases wstep_cases: "wstep don timeoutCh s s'"

end
