(* ===== verification/WatchSpec.thy ===== *)
theory WatchSpec
  imports Watch
begin

text \<open>
  The properties of waiting: a small set waits in one select that is due exactly when the set
  is, a big one returns only what is due, and never misses a channel that becomes ready.
\<close>

section \<open>When a wait is due\<close>

definition due :: "chan option list \<Rightarrow> chan option \<Rightarrow> chan option \<Rightarrow> chan list \<Rightarrow> woke \<Rightarrow> bool" where
  "due cs don timeoutCh ready v = (case v of watchFired \<Rightarrow> \<exists>c\<in>set cs. is_ready ready c
     | watchDone \<Rightarrow> is_ready ready don | watchTimeout \<Rightarrow> is_ready ready timeoutCh)"

lemma is_ready_mono: "is_ready ready c \<Longrightarrow> is_ready (c' # ready) c"
  by (cases c) auto

lemma due_mono: "due cs don timeoutCh ready v \<Longrightarrow> due cs don timeoutCh (c # ready) v"
  by (cases v) (auto simp: due_def intro: is_ready_mono bexI)

lemma in_verdicts: "v \<in> set (verdicts ready arms) \<longleftrightarrow> (\<exists>c. (c, v) \<in> set arms \<and> is_ready ready c)"
  by (force simp: verdicts_def)

lemma verdicts_of_arms:
  assumes "set arms = insert (other, verdict) ((\<lambda>c. (c, watchFired)) ` S)"
  shows "v \<in> set (verdicts ready arms) \<longleftrightarrow> v = watchFired \<and> (\<exists>c\<in>S. is_ready ready c) \<or> v = verdict \<and> is_ready ready other"
  unfolding in_verdicts assms by blast

lemma tier_arms:
  assumes "tier \<le> length ch"
  shows "\<exists>arms. tier_select tier other verdict ch = Ret arms \<and> set arms = insert (other, verdict) ((\<lambda>c. (c, watchFired)) ` set (take tier ch))"
proof -
  have "(\<lambda>i. (ch ! i, watchFired)) ` {0..<tier} = (\<lambda>c. (c, watchFired)) ` ((!) ch ` {0..<tier})" by (simp add: image_image)
  also have "(!) ch ` {0..<tier} = set (take tier ch)" using assms by (simp add: nth_image)
  finally show ?thesis using assms by (simp add: tier_select_def)
qed

lemma due_other: "v \<in> set (verdicts ready [(don, watchDone), (timeoutCh, watchTimeout)]) \<Longrightarrow> due cs don timeoutCh ready v"
  by (auto simp: in_verdicts due_def)

section \<open>One select\<close>

lemma tier_covers:
  assumes "length cs \<le> tier" and "tier \<le> k"
  shows "\<exists>arms. tier_select tier other verdict (few_array k cs) = Ret arms \<and>
    (\<forall>ready v. v \<in> set (verdicts ready arms) \<longleftrightarrow>
      v = watchFired \<and> (\<exists>c\<in>set cs. is_ready ready c) \<or> v = verdict \<and> is_ready ready other)"
proof -
  have "tier \<le> length (few_array k cs)" using assms by (simp add: few_array_def)
  then obtain arms where arms: "tier_select tier other verdict (few_array k cs) = Ret arms"
      "set arms = insert (other, verdict) ((\<lambda>c. (c, watchFired)) ` set (take tier (few_array k cs)))"
    using tier_arms by blast
  have "set (take tier (few_array k cs)) - {None} = set cs - {None}" using assms by (auto simp: few_array_def)
  moreover have "is_ready ready c \<Longrightarrow> c \<noteq> None" for ready c by (cases c) auto
  ultimately have "(\<exists>c\<in>set (take tier (few_array k cs)). is_ready ready c) \<longleftrightarrow> (\<exists>c\<in>set cs. is_ready ready c)" for ready
    by blast
  then show ?thesis using arms(1) verdicts_of_arms [OF arms(2)] by simp
qed

text \<open>The tier the ladders pick.\<close>

definition tier_of :: "nat \<Rightarrow> nat" where
  "tier_of n = (if n \<le> 1 then 1 else if n \<le> 2 then 2 else if n \<le> 4 then 4 else if n \<le> 8 then 8 else if n \<le> 16 then 16
     else if n \<le> 32 then 32 else if n \<le> 64 then 64 else 128)"

lemma ladders:
  "n \<le> 128 \<Longrightarrow> watchFewDone n don ch = tier_select (tier_of n) don watchDone ch"
  "n \<le> 128 \<Longrightarrow> watchFewTimeout n timeoutCh ch = tier_select (tier_of n) timeoutCh watchTimeout ch"
  by (simp_all add: watchFewDone_def watchFewTimeout_def tier_of_def tier_defs)

lemma tier_of_fits: "n \<le> k \<Longrightarrow> k \<in> {8, 32, 128} \<Longrightarrow> n \<le> tier_of n \<and> tier_of n \<le> k"
  by (auto simp: tier_of_def)

lemma few_covers:
  assumes "length cs \<le> k" and "k \<in> {8, 32, 128}" and "don = None \<or> timeoutCh = None"
  shows "\<exists>arms. watchFew (length cs) don timeoutCh (few_array k cs) = Ret arms \<and>
    (\<forall>ready v. v \<in> set (verdicts ready arms) \<longleftrightarrow> due cs don timeoutCh ready v)"
proof -
  have n: "length cs \<le> 128" using assms(1,2) by auto
  note t = tier_covers [OF tier_of_fits [OF assms(1,2), THEN conjunct1] tier_of_fits [OF assms(1,2), THEN conjunct2]]
  show ?thesis
  proof (cases "timeoutCh = None")
    case True
    then have "v = watchFired \<and> (\<exists>c\<in>set cs. is_ready ready c) \<or> v = watchDone \<and> is_ready ready don \<longleftrightarrow> due cs don timeoutCh ready v"
      for ready v by (cases v) (auto simp: due_def)
    then show ?thesis using t [of don watchDone] True by (simp add: watchFew_def ladders [OF n])
  next
    case False
    then have "v = watchFired \<and> (\<exists>c\<in>set cs. is_ready ready c) \<or> v = watchTimeout \<and> is_ready ready timeoutCh \<longleftrightarrow> due cs don timeoutCh ready v"
      for ready v using assms(3) by (cases v) (auto simp: due_def)
    then show ?thesis using t [of timeoutCh watchTimeout] False by (simp add: watchFew_def ladders [OF n])
  qed
qed

section \<open>The chunks\<close>

lemma fill_chunks_covers:
  assumes "length chunk = 32" and "\<forall>ch\<in>set started. length ch = 32" and "len = idx + length cs"
    and "idx mod 32 \<noteq> 0 \<or> cs \<noteq> [] \<Longrightarrow> \<forall>j<32. idx mod 32 \<le> j \<longrightarrow> chunk ! j = None"
  shows "(\<forall>ch\<in>set (fill_chunks len cs idx chunk started). length ch = 32) \<and>
    \<Union> (set ` set (fill_chunks len cs idx chunk started)) - {None} =
      (\<Union> (set ` set started) \<union> set (take (idx mod 32) chunk) \<union> set cs) - {None}"
  using assms
proof (induction cs arbitrary: idx chunk started)
  case Nil
  show ?case
  proof (cases "idx mod 32 = 0")
    case True
    then show ?thesis using Nil.prems(2) by (simp add: fanoutChunk_def)
  next
    case False
    have "set (drop (idx mod 32) chunk) \<subseteq> {None}"
      using Nil.prems(1,4) False by (auto simp: set_conv_nth)
    moreover have "set chunk = set (take (idx mod 32) chunk) \<union> set (drop (idx mod 32) chunk)" by (metis append_take_drop_id set_append)
    ultimately show ?thesis using Nil.prems(1,2) False by (auto simp: fanoutChunk_def)
  qed
next
  case (Cons c cs)
  let ?m = "idx mod 32" let ?chunk = "chunk[?m := c]"
  have m: "?m < 32" by simp
  have tk: "set (take (Suc ?m) ?chunk) = insert c (set (take ?m chunk))"
    using Cons.prems(1) by (simp add: take_Suc_conv_app_nth)
  have rest: "\<forall>j<32. Suc ?m \<le> j \<longrightarrow> ?chunk ! j = None" using Cons.prems(1,4) by auto
  show ?case
  proof (cases "Suc idx mod 32 = 0")
    case True
    then have sm: "Suc ?m = 32" by (metis mod_Suc nat.distinct(1))
    let ?next = "if Suc idx < len then replicate fanoutChunk None else ?chunk"
    have "(\<forall>ch\<in>set (fill_chunks len cs (Suc idx) ?next (started @ [?chunk])). length ch = 32) \<and>
        \<Union> (set ` set (fill_chunks len cs (Suc idx) ?next (started @ [?chunk]))) - {None} =
        (\<Union> (set ` set (started @ [?chunk])) \<union> set (take (Suc idx mod 32) ?next) \<union> set cs) - {None}"
      by (rule Cons.IH) (use Cons.prems True in \<open>auto simp: fanoutChunk_def\<close>)
    moreover have "set ?chunk = insert c (set (take ?m chunk))" using tk sm Cons.prems(1) by simp
    ultimately show ?thesis using True by (simp add: fanoutChunk_def Let_def insert_commute Un_assoc) blast
  next
    case False
    then have sm: "Suc idx mod 32 = Suc ?m" by (metis mod_Suc)
    have "(\<forall>ch\<in>set (fill_chunks len cs (Suc idx) ?chunk started). length ch = 32) \<and>
        \<Union> (set ` set (fill_chunks len cs (Suc idx) ?chunk started)) - {None} =
        (\<Union> (set ` set started) \<union> set (take (Suc idx mod 32) ?chunk) \<union> set cs) - {None}"
      by (rule Cons.IH) (use Cons.prems(1-3) rest sm in auto)
    then show ?thesis using False tk sm by (simp add: fanoutChunk_def Let_def)
  qed
qed

lemma chunks_cover: "(\<forall>ch\<in>set (chunks_of cs). length ch = 32) \<and> \<Union> (set ` set (chunks_of cs)) - {None} = set cs - {None}"
  using fill_chunks_covers [of "replicate 32 None" "[]" "length cs" 0 cs] by (simp add: chunks_of_def fanoutChunk_def)

lemma chunk_channel: "(\<exists>ch\<in>set (chunks_of cs). \<exists>c\<in>set ch. is_ready ready c) \<longleftrightarrow> (\<exists>c\<in>set cs. is_ready ready c)"
proof -
  have "is_ready ready c \<Longrightarrow> c \<noteq> None" for c by (cases c) auto
  then show ?thesis using chunks_cover [of cs] by blast
qed

lemma watchChunk_fires:
  assumes "length ch = 32"
  shows "\<exists>arms. watchChunk don ch = Ret arms \<and> (watchFired \<in> set (verdicts ready arms) \<longleftrightarrow> (\<exists>c\<in>set ch. is_ready ready c))"
proof -
  have "32 \<le> length ch" "take 32 ch = ch" using assms by simp_all
  then obtain arms where "watchChunk don ch = Ret arms" "set arms = insert (don, watchDone) ((\<lambda>c. (c, watchFired)) ` set ch)"
    using tier_arms [of 32 ch don watchDone] by (auto simp: watchChunk_def watchFewDone32_def)
  then show ?thesis using verdicts_of_arms [of arms don watchDone "set ch" watchFired ready] by auto
qed

section \<open>The invariant of a big wait\<close>

text \<open>
  What has been signalled is due; and until the caller returns, either a signal is on its way or
  all goroutines are waiting.
\<close>

definition winv :: "chan option list \<Rightarrow> chan option \<Rightarrow> chan option \<Rightarrow> wstate \<Rightarrow> bool" where
  "winv cs don timeoutCh s \<longleftrightarrow>
     (w_trigger s \<or> Sending \<in> set (w_helpers s) \<longrightarrow> due cs don timeoutCh (w_ready s) watchFired) \<and>
     (\<forall>v. w_result s = Some v \<longrightarrow> due cs don timeoutCh (w_ready s) v) \<and>
     (\<forall>ch. Waiting ch \<in> set (w_helpers s) \<longrightarrow> ch \<in> set (chunks_of cs)) \<and>
     (w_result s = None \<longrightarrow> \<not> w_stop s \<and>
        (w_trigger s \<or> Sending \<in> set (w_helpers s) \<or> w_helpers s = map Waiting (chunks_of cs))) \<and>
     (w_result s \<noteq> None \<longrightarrow> w_stop s \<or> w_helpers s = []) \<and>
     length (w_helpers s) \<le> length (chunks_of cs)"

lemma winvD:
  assumes "winv cs don timeoutCh s"
  shows "w_trigger s \<or> Sending \<in> set (w_helpers s) \<Longrightarrow> due cs don timeoutCh (w_ready s) watchFired"
    "w_result s = Some v \<Longrightarrow> due cs don timeoutCh (w_ready s) v"
    "Waiting ch \<in> set (w_helpers s) \<Longrightarrow> ch \<in> set (chunks_of cs)"
    "w_result s = None \<Longrightarrow> \<not> w_stop s"
    "w_result s = None \<Longrightarrow> w_trigger s \<or> Sending \<in> set (w_helpers s) \<or> w_helpers s = map Waiting (chunks_of cs)"
    "w_result s \<noteq> None \<Longrightarrow> w_stop s \<or> w_helpers s = []"
    "length (w_helpers s) \<le> length (chunks_of cs)"
  using assms unfolding winv_def by blast+

lemma winv_start: "winv cs don timeoutCh (wstart ready cs)"
  by (auto simp: winv_def wstart_def)

lemma chunk_fires:
  assumes "ch \<in> set (chunks_of cs)"
  shows "\<exists>arms. watchChunk d ch = Ret arms \<and> (watchFired \<in> set (verdicts ready arms) \<longleftrightarrow> (\<exists>c\<in>set ch. is_ready ready c))"
proof -
  have "length ch = 32" using chunks_cover [of cs] assms by blast
  then show ?thesis by (rule watchChunk_fires)
qed

lemma chunk_due: "ch \<in> set (chunks_of cs) \<Longrightarrow> c \<in> set ch \<Longrightarrow> is_ready ready c \<Longrightarrow> due cs don timeoutCh ready watchFired"
  using chunk_channel [of cs ready] unfolding due_def woke.case by blast

lemma winvI:
  assumes "w_trigger s \<or> Sending \<in> set (w_helpers s) \<Longrightarrow> due cs don timeoutCh (w_ready s) watchFired"
    and "\<And>v. w_result s = Some v \<Longrightarrow> due cs don timeoutCh (w_ready s) v"
    and "\<And>ch. Waiting ch \<in> set (w_helpers s) \<Longrightarrow> ch \<in> set (chunks_of cs)"
    and "w_result s = None \<Longrightarrow> \<not> w_stop s"
    and "w_result s = None \<Longrightarrow> w_trigger s \<or> Sending \<in> set (w_helpers s) \<or> w_helpers s = map Waiting (chunks_of cs)"
    and "w_result s \<noteq> None \<Longrightarrow> w_stop s \<or> w_helpers s = []"
    and "length (w_helpers s) \<le> length (chunks_of cs)"
  shows "winv cs don timeoutCh s"
  using assms unfolding winv_def by blast

lemma in_update: "x \<in> set (xs[i := y]) \<Longrightarrow> x \<noteq> y \<Longrightarrow> x \<in> set xs"
  using set_update_subset_insert [of xs i y] by auto

lemma fired_due:
  assumes "winv cs don timeoutCh s" and "Waiting ch \<in> set (w_helpers s)" and "watchChunk d ch = Ret arms"
    and "watchFired \<in> set (verdicts (w_ready s) arms)"
  shows "due cs don timeoutCh (w_ready s) watchFired"
proof -
  note ch = winvD(3) [OF assms(1,2)]
  obtain c where "c \<in> set ch" "is_ready (w_ready s) c" using chunk_fires [OF ch, of d "w_ready s"] assms(3,4) by auto
  then show ?thesis by (rule chunk_due [OF ch])
qed

lemma winv_istep:
  assumes i: "winv cs don timeoutCh s" and "istep don timeoutCh s s'"
  shows "winv cs don timeoutCh s'" and "w_ready s' = w_ready s"
proof -
  note d = winvD [OF i]
  show "w_ready s' = w_ready s" using assms(2) by cases simp_all
  from assms(2) show "winv cs don timeoutCh s'"
  proof cases
    case (fired k ch arms)
    have mem: "Waiting ch \<in> set (w_helpers s)" using fired(2,3) by (metis nth_mem)
    have due: "due cs don timeoutCh (w_ready s) watchFired" by (rule fired_due [OF i mem fired(4,5)])
    have snd: "Sending \<in> set ((w_helpers s)[k := Sending])" using fired(2) by (simp add: set_update_memI)
    show ?thesis unfolding fired(1)
      by (rule winvI) (use d(2-4,6,7) due snd fired(2) in \<open>auto dest: in_update\<close>)
  next
    case (stopped k ch)
    then have r: "w_result s \<noteq> None" using d(4) by blast
    show ?thesis unfolding stopped(1)
      by (rule winvI) (use d(1-3,7) r stopped(4) in \<open>auto dest: in_update\<close>)
  next
    case (sent k)
    then have "Sending \<in> set (w_helpers s)" by (metis nth_mem)
    then have due: "due cs don timeoutCh (w_ready s) watchFired" using d(1) by blast
    show ?thesis unfolding sent(1)
      by (rule winvI) (use d(2-4,6,7) due sent(2) in \<open>auto dest: in_update\<close>)
  next
    case triggered
    show ?thesis unfolding triggered(1)
      by (rule winvI) (use d(1,3,7) triggered(3) in auto)
  next
    case (other v)
    note due = due_other [OF other(3), of cs]
    show ?thesis unfolding other(1)
      by (rule winvI) (use d(1,3,7) due in auto)
  qed
qed

lemma winv_reach: "many_reach cs don timeoutCh s \<Longrightarrow> winv cs don timeoutCh s"
proof (induction rule: many_reach.induct)
  case (at_once v ready)
  then show ?case using due_other [of v ready don timeoutCh cs] by (auto simp: winv_def)
next
  case (started ready)
  show ?case by (rule winv_start)
next
  case (step s s')
  from step.hyps(2) show ?case
  proof cases
    case internal
    then show ?thesis using winv_istep step.IH by blast
  next
    case (closes c)
    then show ?thesis using step.IH by (auto simp: winv_def intro: due_mono)
  qed
qed

section \<open>Progress\<close>

text \<open>Every step of the caller or a goroutine uses up one of a bounded number.\<close>

fun helper_steps :: "helper \<Rightarrow> nat" where
  "helper_steps (Waiting ch) = 2"
| "helper_steps Sending = 1"
| "helper_steps Ended = 0"

definition steps_left :: "wstate \<Rightarrow> nat" where
  "steps_left s = sum_list (map helper_steps (w_helpers s)) + (if w_result s = None then 1 else 0)"

lemma sum_update: "i < length xs \<Longrightarrow> f y < f (xs ! i) \<Longrightarrow> sum_list (map f (xs[i := y])) < sum_list (map (f :: 'a \<Rightarrow> nat) xs)"
  by (induction xs arbitrary: i) (auto split: nat.splits simp: less_Suc_eq_0_disj)

lemma istep_decreases: "istep don timeoutCh s s' \<Longrightarrow> steps_left s' < steps_left s"
  by (cases rule: istep.cases) (auto simp: steps_left_def sum_update)

lemma istep_run:
  "(istep don timeoutCh ^^ n) s s' \<Longrightarrow> winv cs don timeoutCh s \<Longrightarrow> n + steps_left s' \<le> steps_left s \<and> winv cs don timeoutCh s' \<and> w_ready s' = w_ready s"
proof (induction n arbitrary: s')
  case (Suc n)
  then obtain t where t: "(istep don timeoutCh ^^ n) s t" "istep don timeoutCh t s'" by auto
  then show ?case using Suc.IH [OF t(1) Suc.prems(2)] istep_decreases [OF t(2)] winv_istep [of cs, OF _ t(2)] by auto
qed simp

lemma steps_bound: "winv cs don timeoutCh s \<Longrightarrow> steps_left s \<le> 2 * length (chunks_of cs) + 1"
proof -
  assume "winv cs don timeoutCh s"
  moreover have "sum_list (map helper_steps hs) \<le> 2 * length hs" for hs
  proof (induction hs)
    case (Cons h hs)
    then show ?case by (cases h) auto
  qed simp
  ultimately show ?thesis unfolding steps_left_def winv_def by (smt (verit) add_le_mono le_trans mult_le_mono2 zero_le_one order_refl)
qed

text \<open>When nothing moves although the wait is due, the caller has returned and every goroutine ended.\<close>

lemma stuck:
  assumes i: "winv cs don timeoutCh s" and no: "\<nexists>s'. istep don timeoutCh s s'" and d: "due cs don timeoutCh (w_ready s) v"
  shows "w_result s \<noteq> None \<and> set (w_helpers s) \<subseteq> {Ended}"
proof -
  have ns: "Sending \<notin> set (w_helpers s)" using no sent by (metis in_set_conv_nth)
  have r: "w_result s \<noteq> None"
  proof
    assume n: "w_result s = None"
    then have "\<not> w_trigger s" using no triggered by blast
    then have h: "w_helpers s = map Waiting (chunks_of cs)" using winvD(5) [OF i n] ns by blast
    have "v = watchFired"
      using no other [OF n, of v don timeoutCh] d by (cases v) (auto simp: due_def in_verdicts)
    then obtain ch where ch: "ch \<in> set (chunks_of cs)" "\<exists>c\<in>set ch. is_ready (w_ready s) c"
      using d chunk_channel [of cs "w_ready s"] by (auto simp: due_def)
    then obtain k where "k < length (w_helpers s)" "w_helpers s ! k = Waiting ch" unfolding h by (auto simp: in_set_conv_nth)
    moreover obtain arms where "watchChunk None ch = Ret arms" "watchFired \<in> set (verdicts (w_ready s) arms)"
      using chunk_fires [OF ch(1)] ch(2) by blast
    ultimately show False using no fired by blast
  qed
  have "x = Ended" if x: "x \<in> set (w_helpers s)" for x
  proof (cases x)
    case (Waiting ch)
    then have "w_stop s" using winvD(6) [OF i r] x by auto
    then show ?thesis using no stopped x Waiting by (metis in_set_conv_nth)
  qed (use ns x in auto)
  then show ?thesis using r by blast
qed

section \<open>The properties\<close>

text \<open>
  A set of up to 128 channels waits in a single select, which the ladders always find (no
  array is too short, no tier missing): it returns exactly the verdicts that are due, whichever
  of the done and timeout channels the call uses.
\<close>
theorem watch_one_select:
  assumes "length cs \<le> 128" and "don = None \<or> timeoutCh = None"
  shows "\<exists>arms. watch cs don timeoutCh = Ret (One arms) \<and>
    (\<forall>ready v. v \<in> set (verdicts ready arms) \<longleftrightarrow> due cs don timeoutCh ready v)"
proof -
  let ?k = "if length cs \<le> 8 then 8 else if length cs \<le> 32 then 32 else 128 :: nat"
  have k: "length cs \<le> ?k" "?k \<in> {8, 32, 128}"
      "watch cs don timeoutCh = (case watchFew (length cs) don timeoutCh (few_array ?k cs) of Panic \<Rightarrow> Panic | Ret arms \<Rightarrow> Ret (One arms))"
    using assms(1) by (simp_all add: watch_def Let_def smallFew_def mediumFew_def maxFew_def)
  show ?thesis using few_covers [OF k(1,2) assms(2)] k(3) by auto
qed

lemma watch_one_select_witness:
  "\<exists>arms. watch [Some 3, None, Some 5] (Some 9) None = Ret (One arms) \<and> set (verdicts [5] arms) = {watchFired}"
proof -
  obtain arms where "watch [Some 3, None, Some 5] (Some 9) None = Ret (One arms)"
      "\<And>ready v. v \<in> set (verdicts ready arms) \<longleftrightarrow> due [Some 3, None, Some 5] (Some 9) None ready v"
    using watch_one_select [of "[Some 3, None, Some 5]" "Some 9" None] by auto
  then show ?thesis by (auto simp: due_def split: woke.splits)
qed

text \<open>
  C16: a wait on more channels returns only what is due at that moment: in every reachable
  state, whatever the interleaving, the verdict returned belongs to a channel that is ready.
\<close>
theorem watch_many_sound:
  assumes "many_reach cs don timeoutCh s" and "w_result s = Some v"
  shows "due cs don timeoutCh (w_ready s) v"
  using winvD(2) [OF winv_reach [OF assms(1)] assms(2)] .

lemma watch_many_sound_witness:
  "due (map Some [0..<200]) (Some 900) None [900]  watchDone"
proof -
  have "watchDone \<in> set (verdicts [900] [(Some 900, watchDone), (None, watchTimeout)])" by (simp add: verdicts_def)
  from watch_many_sound [OF many_reach.at_once [OF this, of "map Some [0..<200]"]] show ?thesis by simp
qed

text \<open>
  C15: no wake-up is lost: once a watched channel, the done or the timeout channel is ready, the
  steps of the caller and the goroutines end after a bounded number, and when none is left the
  caller has returned and no goroutine is left behind.
\<close>
theorem watch_many_returns:
  assumes "many_reach cs don timeoutCh s" and "due cs don timeoutCh (w_ready s) v" and "(istep don timeoutCh ^^ n) s s'"
  shows "n \<le> 2 * length (chunks_of cs) + 1 \<and>
    ((\<nexists>s''. istep don timeoutCh s' s'') \<longrightarrow> w_result s' \<noteq> None \<and> set (w_helpers s') \<subseteq> {Ended})"
proof -
  note i = winv_reach [OF assms(1)]
  note r = istep_run [OF assms(3) i]
  have "n \<le> 2 * length (chunks_of cs) + 1" using r steps_bound [OF i] by linarith
  then show ?thesis using stuck [of cs don timeoutCh s' v] r assms(2) by simp
qed

text \<open>A set of 200 channels, one of which is closed while the goroutines wait.\<close>

lemma watch_many_returns_witness:
  "\<exists>s'. (istep None None ^^ 1) (wstart [7] (map Some [0..<200])) s' \<and> 1 \<le> 2 * length (chunks_of (map Some [0..<200])) + 1 \<and>
    ((\<exists>s''. istep None None s' s'') \<or> w_result s' \<noteq> None)"
proof -
  let ?s = "wstart [7] (map Some [0..<200])"
  have r: "many_reach (map Some [0..<200]) None None ?s" by (rule many_reach.started) (simp add: verdicts_def)
  have d: "due (map Some [0..<200]) None None (w_ready ?s) watchFired" by (simp add: due_def wstart_def)
  have "w_result ?s = None" by (simp add: wstart_def)
  then obtain s' where "istep None None ?s s'" using stuck [OF winv_reach [OF r] _ d] by blast
  then have n: "(istep None None ^^ 1) ?s s'" by (simp only: relpowp_1)
  show ?thesis using watch_many_returns [OF r d n] n by blast
qed

end
