(* ===== verification/WatchChan.thy ===== *)
theory WatchChan
  imports WatchSpec
begin

text \<open>
  WatchCh of a watch set (watch.go): a goroutine that waits with WatchCtx and sends what it
  returns on a channel with room for one value. The steps of that goroutine, of the goroutines
  WatchCtx starts for a big set, of the channels that become ready and of the client that
  receives are a step relation, under every interleaving.
\<close>

section \<open>The goroutine and its channel\<close>

text \<open>
  Where WatchCtx is: it returned at once for a nil set, it is in the select of a small set, about
  to look at the context of a big one, or waiting for its goroutines.
\<close>

datatype ctx_call = CNil | CSelect arms | CLook "chan option list" | CMany wstate

text \<open>
  \<open>wc_result\<close> is what WatchCtx returned, \<open>wc_buf\<close> the buffer of the outgoing channel, \<open>wc_got\<close> what the
  client has received from it, \<open>wc_sent\<close> whether the goroutine has sent and ended.
\<close>

record 'e wchan =
  wc_ready :: "chan list"
  wc_call :: ctx_call
  wc_result :: "'e option option"
  wc_sent :: bool
  wc_buf :: "'e option list"
  wc_got :: "'e option list"

definition WatchCh :: "watchSet \<Rightarrow> chan option \<Rightarrow> chan list \<Rightarrow> 'e wchan outcome" where
  "WatchCh w don ready = (case w of
     None \<Rightarrow> Ret \<lparr>wc_ready = ready, wc_call = CNil, wc_result = Some None, wc_sent = False, wc_buf = [], wc_got = []\<rparr>
   | Some cs \<Rightarrow> (case watch cs don None of
        Panic \<Rightarrow> Panic
      | Ret (One arms) \<Rightarrow> Ret \<lparr>wc_ready = ready, wc_call = CSelect arms, wc_result = None, wc_sent = False, wc_buf = [], wc_got = []\<rparr>
      | Ret Many \<Rightarrow> Ret \<lparr>wc_ready = ready, wc_call = CLook cs, wc_result = None, wc_sent = False, wc_buf = [], wc_got = []\<rparr>))"

inductive cstep :: "'e \<Rightarrow> chan option \<Rightarrow> 'e wchan \<Rightarrow> 'e wchan \<Rightarrow> bool" for err don where
  selected: "wc_call s = CSelect arms \<Longrightarrow> wc_result s = None \<Longrightarrow> v \<in> set (verdicts (wc_ready s) arms) \<Longrightarrow>
    cstep err don s (s\<lparr>wc_result := Some (WatchCtx_result err v)\<rparr>)"
| looked: "wc_call s = CLook cs \<Longrightarrow> v \<in> set (verdicts (wc_ready s) [(don, watchDone), (None, watchTimeout)]) \<Longrightarrow>
    cstep err don s (s\<lparr>wc_call := CMany \<lparr>w_ready = wc_ready s, w_helpers = [], w_trigger = False, w_stop = False, w_result = Some v\<rparr>\<rparr>)"
| spread: "wc_call s = CLook cs \<Longrightarrow> verdicts (wc_ready s) [(don, watchDone), (None, watchTimeout)] = [] \<Longrightarrow>
    cstep err don s (s\<lparr>wc_call := CMany (wstart (wc_ready s) cs)\<rparr>)"
| inner: "wc_call s = CMany m \<Longrightarrow> istep don None m m' \<Longrightarrow> cstep err don s (s\<lparr>wc_call := CMany m'\<rparr>)"
| left: "wc_call s = CMany m \<Longrightarrow> wc_result s = None \<Longrightarrow> w_result m = Some v \<Longrightarrow>
    cstep err don s (s\<lparr>wc_result := Some (WatchCtx_result err v)\<rparr>)"
| sent: "wc_result s = Some r \<Longrightarrow> \<not> wc_sent s \<Longrightarrow> length (wc_buf s) < 1 \<Longrightarrow>
    cstep err don s (s\<lparr>wc_sent := True, wc_buf := wc_buf s @ [r]\<rparr>)"

text \<open>The world: a channel becomes ready, for everybody, or the client receives.\<close>

inductive cworld :: "'e \<Rightarrow> chan option \<Rightarrow> 'e wchan \<Rightarrow> 'e wchan \<Rightarrow> bool" for err don where
  internal: "cstep err don s s' \<Longrightarrow> cworld err don s s'"
| closes: "cworld err don s (s\<lparr>wc_ready := c # wc_ready s,
    wc_call := (case wc_call s of CMany m \<Rightarrow> CMany (m\<lparr>w_ready := c # w_ready m\<rparr>) | k \<Rightarrow> k)\<rparr>)"
| received: "wc_buf s = r # rest \<Longrightarrow> cworld err don s (s\<lparr>wc_buf := rest, wc_got := wc_got s @ [r]\<rparr>)"

inductive chan_reach :: "'e \<Rightarrow> watchSet \<Rightarrow> chan option \<Rightarrow> 'e wchan \<Rightarrow> bool" for err w don where
  start: "WatchCh w don ready = Ret s \<Longrightarrow> chan_reach err w don s"
| step: "chan_reach err w don s \<Longrightarrow> cworld err don s s' \<Longrightarrow> chan_reach err w don s'"

inductive_cases cstep_cases: "cstep err don s s'"

section \<open>What a wait may return\<close>

definition chans :: "watchSet \<Rightarrow> chan option list" where
  "chans w = (case w of None \<Rightarrow> [] | Some cs \<Rightarrow> cs)"

text \<open>An error only when the context is done; nil only for a nil set or when a channel has fired.\<close>

definition may_return :: "'e \<Rightarrow> watchSet \<Rightarrow> chan option \<Rightarrow> chan list \<Rightarrow> 'e option \<Rightarrow> bool" where
  "may_return err w don ready r = (case r of
     Some e \<Rightarrow> e = err \<and> is_ready ready don | None \<Rightarrow> w = None \<or> (\<exists>c\<in>set (chans w). is_ready ready c))"

lemma may_return_mono: "may_return err w don ready r \<Longrightarrow> may_return err w don (c # ready) r"
  unfolding may_return_def by (cases r) (auto intro: is_ready_mono)

lemma due_returns:
  assumes "due cs don None ready v"
  shows "may_return err (Some cs) don ready (WatchCtx_result err v)"
  using assms by (cases v) (auto simp: due_def may_return_def WatchCtx_result_def chans_def)

definition call_ok :: "watchSet \<Rightarrow> chan option \<Rightarrow> chan list \<Rightarrow> ctx_call \<Rightarrow> bool" where
  "call_ok w don ready k = (case k of
     CNil \<Rightarrow> w = None
   | CSelect arms \<Rightarrow> \<exists>cs. w = Some cs \<and> (\<forall>rd v. v \<in> set (verdicts rd arms) \<longleftrightarrow> due cs don None rd v)
   | CLook cs \<Rightarrow> w = Some cs
   | CMany m \<Rightarrow> w \<noteq> None \<and> winv (chans w) don None m \<and> w_ready m = ready)"

definition cinv :: "'e \<Rightarrow> watchSet \<Rightarrow> chan option \<Rightarrow> 'e wchan \<Rightarrow> bool" where
  "cinv err w don s \<longleftrightarrow> call_ok w don (wc_ready s) (wc_call s) \<and>
     (wc_result s = None \<longrightarrow> \<not> wc_sent s \<and> w \<noteq> None) \<and>
     (\<forall>r. wc_result s = Some r \<longrightarrow> may_return err w don (wc_ready s) r) \<and>
     wc_got s @ wc_buf s = (if wc_sent s then [the (wc_result s)] else [])"

lemma cinv_start:
  assumes "WatchCh w don ready = Ret s"
  shows "cinv err w don s"
proof (cases w)
  case None
  then show ?thesis using assms by (auto simp: WatchCh_def cinv_def call_ok_def may_return_def)
next
  case (Some cs)
  show ?thesis
  proof (cases "length cs \<le> 128")
    case True
    let ?k = "if length cs \<le> 8 then 8 else if length cs \<le> 32 then 32 else 128 :: nat"
    have k: "length cs \<le> ?k" "?k \<in> {8, 32, 128}" using True by simp_all
    obtain arms where "watchFew (length cs) don None (few_array ?k cs) = Ret arms"
        "\<forall>rd v. v \<in> set (verdicts rd arms) \<longleftrightarrow> due cs don None rd v"
      using few_covers [OF k] by blast
    moreover have "watch cs don None = (case watchFew (length cs) don None (few_array ?k cs) of Panic \<Rightarrow> Panic | Ret arms \<Rightarrow> Ret (One arms))"
      using True by (simp add: watch_def Let_def smallFew_def mediumFew_def maxFew_def)
    ultimately show ?thesis using assms Some by (auto simp: WatchCh_def cinv_def call_ok_def)
  next
    case False
    then have "watch cs don None = Ret Many" by (simp add: watch_def smallFew_def mediumFew_def maxFew_def)
    then show ?thesis using assms Some by (auto simp: WatchCh_def cinv_def call_ok_def)
  qed
qed

lemma winv_closes: "winv cs don timeoutCh m \<Longrightarrow> winv cs don timeoutCh (m\<lparr>w_ready := c # w_ready m\<rparr>)"
  by (auto simp: winv_def intro: due_mono)

lemma winv_at_once:
  assumes "v \<in> set (verdicts ready [(don, watchDone), (None, watchTimeout)])"
  shows "winv cs don None \<lparr>w_ready = ready, w_helpers = [], w_trigger = False, w_stop = False, w_result = Some v\<rparr>"
  using winv_reach [OF many_reach.at_once [OF assms, of cs]] .

lemma cinv_cstep:
  assumes i: "cinv err w don s" and st: "cstep err don s s'"
  shows "cinv err w don s' \<and> wc_ready s' = wc_ready s"
  using st
proof (cases rule: cstep.cases)
  case (selected arms v)
  then obtain cs where cs: "w = Some cs" "due cs don None (wc_ready s) v" using i by (auto simp: cinv_def call_ok_def)
  show ?thesis using i selected due_returns [OF cs(2)] cs(1) by (auto simp: cinv_def)
next
  case (looked cs v)
  then show ?thesis using i winv_at_once [OF looked(3)] by (auto simp: cinv_def call_ok_def chans_def)
next
  case (spread cs)
  then show ?thesis using i winv_start by (auto simp: cinv_def call_ok_def chans_def wstart_def)
next
  case (inner m m')
  have m: "winv (chans w) don None m" "w_ready m = wc_ready s" using i inner by (auto simp: cinv_def call_ok_def)
  have "winv (chans w) don None m' \<and> w_ready m' = w_ready m" using winv_istep [OF m(1) inner(3)] by blast
  then show ?thesis using i inner m by (auto simp: cinv_def call_ok_def)
next
  case (left m v)
  have m: "w \<noteq> None" "winv (chans w) don None m" "w_ready m = wc_ready s" using i left by (auto simp: cinv_def call_ok_def)
  have "due (chans w) don None (wc_ready s) v" using winvD(2) [OF m(2) left(4)] m(3) by simp
  then show ?thesis using i left due_returns m(1) by (auto simp: cinv_def chans_def)
next
  case (sent r)
  then show ?thesis using i by (auto simp: cinv_def)
qed

lemma cinv_reach: "chan_reach err w don s \<Longrightarrow> cinv err w don s"
proof (induction rule: chan_reach.induct)
  case (start ready s)
  then show ?case by (rule cinv_start)
next
  case (step s s')
  from step.hyps(2) show ?case
  proof (cases rule: cworld.cases)
    case internal
    then show ?thesis using cinv_cstep [OF step.IH] by blast
  next
    case (closes c)
    have "call_ok w don (c # wc_ready s) (case wc_call s of CMany m \<Rightarrow> CMany (m\<lparr>w_ready := c # w_ready m\<rparr>) | k \<Rightarrow> k)"
    proof (cases "wc_call s")
      case (CMany m)
      have "winv (chans w) don None m" using step.IH CMany by (auto simp: cinv_def call_ok_def)
      then have "winv (chans w) don None (m\<lparr>w_ready := c # w_ready m\<rparr>)" by (rule winv_closes)
      then show ?thesis using step.IH CMany by (auto simp: cinv_def call_ok_def)
    qed (use step.IH in \<open>auto simp: cinv_def call_ok_def\<close>)
    moreover have "may_return err w don (c # wc_ready s) r" if "wc_result s = Some r" for r
      using step.IH that may_return_mono by (auto simp: cinv_def)
    ultimately show ?thesis using step.IH closes by (auto simp: cinv_def split: option.splits)
  next
    case (received r rest)
    then show ?thesis using step.IH by (auto simp: cinv_def)
  qed
qed

section \<open>Progress\<close>

fun call_steps :: "ctx_call \<Rightarrow> nat" where
  "call_steps (CLook cs) = 2 * length (chunks_of cs) + 2"
| "call_steps (CMany m) = steps_left m"
| "call_steps k = 0"

definition chan_steps :: "'e wchan \<Rightarrow> nat" where
  "chan_steps s = call_steps (wc_call s) + (if wc_result s = None then 1 else 0) + (if wc_sent s then 0 else 1)"

lemma cstep_decreases: "cstep err don s s' \<Longrightarrow> chan_steps s' < chan_steps s"
proof (induction rule: cstep.induct)
  case (looked s cs v)
  then show ?case by (simp add: chan_steps_def steps_left_def)
next
  case (spread s cs)
  have "steps_left (wstart (wc_ready s) cs) \<le> 2 * length (chunks_of cs) + 1" by (rule steps_bound [OF winv_start])
  then show ?case using spread by (simp add: chan_steps_def)
next
  case (inner s m m')
  then show ?case using istep_decreases [of don None m m'] by (simp add: chan_steps_def)
qed (simp_all add: chan_steps_def)

lemma chan_steps_bound: "cinv err w don s \<Longrightarrow> chan_steps s \<le> 2 * length (chunks_of (chans w)) + 4"
  using steps_bound [of "chans w" don None] by (cases "wc_call s") (fastforce simp: cinv_def call_ok_def chan_steps_def chans_def)+

lemma cstep_run:
  "(cstep err don ^^ n) s s' \<Longrightarrow> cinv err w don s \<Longrightarrow> n + chan_steps s' \<le> chan_steps s \<and> cinv err w don s' \<and> wc_ready s' = wc_ready s"
proof (induction n arbitrary: s')
  case (Suc n)
  then obtain t where t: "(cstep err don ^^ n) s t" "cstep err don t s'" by auto
  then show ?case using Suc.IH [OF t(1) Suc.prems(2)] cstep_decreases [OF t(2)] cinv_cstep [of err w don, OF _ t(2)] by auto
qed simp

text \<open>When nothing is left to do and the wait is due, the value has been sent and no goroutine is left.\<close>

lemma chan_stuck:
  assumes i: "cinv err w don s" and no: "\<nexists>s'. cstep err don s s'" and d: "may_return err w don (wc_ready s) r"
  shows "wc_sent s \<and> (\<forall>m. wc_call s = CMany m \<longrightarrow> set (w_helpers m) \<subseteq> {Ended})"
proof -
  have due: "\<exists>v. due (chans w) don None (wc_ready s) v" if "w \<noteq> None"
  proof (cases r)
    case None
    then have "due (chans w) don None (wc_ready s) watchFired" using d that by (simp add: may_return_def due_def)
    then show ?thesis by blast
  next
    case (Some e)
    then have "due (chans w) don None (wc_ready s) watchDone" using d by (simp add: may_return_def due_def)
    then show ?thesis by blast
  qed
  have m: "w_result m \<noteq> None \<and> set (w_helpers m) \<subseteq> {Ended}" if "wc_call s = CMany m" for m
  proof -
    have "winv (chans w) don None m" "w_ready m = wc_ready s" "w \<noteq> None" using i that by (auto simp: cinv_def call_ok_def)
    moreover have "\<nexists>m'. istep don None m m'" using no cstep.inner [OF that] by metis
    ultimately show ?thesis using stuck [of "chans w" don None m] due by metis
  qed
  have "wc_result s \<noteq> None"
  proof
    assume n: "wc_result s = None"
    then have w: "w \<noteq> None" using i by (simp add: cinv_def)
    show False
    proof (cases "wc_call s")
      case CNil
      then show False using i w by (simp add: cinv_def call_ok_def)
    next
      case (CSelect arms)
      then obtain v where "v \<in> set (verdicts (wc_ready s) arms)" using i due [OF w] by (auto simp: cinv_def call_ok_def chans_def)
      then show False using no selected [OF CSelect n] by blast
    next
      case (CLook cs)
      show False
      proof (cases "verdicts (wc_ready s) [(don, watchDone), (None, watchTimeout)]")
        case Nil
        then show False using no spread [OF CLook] by blast
      next
        case (Cons v vs)
        then have "v \<in> set (verdicts (wc_ready s) [(don, watchDone), (None, watchTimeout)])" by simp
        then show False using no looked [OF CLook] by blast
      qed
    next
      case (CMany k)
      then show False using m [OF CMany] no left [OF CMany n] by blast
    qed
  qed
  moreover have "wc_sent s"
  proof (rule ccontr)
    assume n: "\<not> wc_sent s"
    then have "length (wc_buf s) < 1" using i by (simp add: cinv_def)
    then show False using no sent [OF _ n] \<open>wc_result s \<noteq> None\<close> by blast
  qed
  ultimately show ?thesis using m by blast
qed

text \<open>
  C17: the channel of WatchCh delivers what a wait may return, once. Whatever the interleaving, it
  carries at most one value, and a value in it or received from it is an error only if the context
  is done, nil only if a channel of the set has fired. Once a wait is due, the goroutines end after
  a bounded number of steps, the value sent and none of them left behind: the send never blocks.
\<close>
theorem WatchCh_delivers:
  assumes "chan_reach err w don s"
  shows "length (wc_got s @ wc_buf s) \<le> 1 \<and> (\<forall>r\<in>set (wc_got s @ wc_buf s). may_return err w don (wc_ready s) r) \<and>
    (\<forall>n s' r. may_return err w don (wc_ready s) r \<longrightarrow> (cstep err don ^^ n) s s' \<longrightarrow>
      n \<le> 2 * length (chunks_of (chans w)) + 4 \<and>
      ((\<exists>s''. cstep err don s' s'') \<or> length (wc_got s' @ wc_buf s') = 1 \<and> (\<forall>m. wc_call s' = CMany m \<longrightarrow> set (w_helpers m) \<subseteq> {Ended})))"
proof (intro conjI allI impI)
  note i = cinv_reach [OF assms]
  show "length (wc_got s @ wc_buf s) \<le> 1" using i by (simp add: cinv_def)
  show "\<forall>r\<in>set (wc_got s @ wc_buf s). may_return err w don (wc_ready s) r" using i by (cases "wc_result s") (auto simp: cinv_def)
  fix n s' r assume d: "may_return err w don (wc_ready s) r" and st: "(cstep err don ^^ n) s s'"
  note run = cstep_run [OF st i]
  show "n \<le> 2 * length (chunks_of (chans w)) + 4" using run chan_steps_bound [OF i] by linarith
  show "(\<exists>s''. cstep err don s' s'') \<or> length (wc_got s' @ wc_buf s') = 1 \<and> (\<forall>m. wc_call s' = CMany m \<longrightarrow> set (w_helpers m) \<subseteq> {Ended})"
  proof (cases "\<exists>s''. cstep err don s' s''")
    case False
    have d': "may_return err w don (wc_ready s') r" using run d by simp
    have "wc_got s' @ wc_buf s' = (if wc_sent s' then [the (wc_result s')] else [])" using run unfolding cinv_def by blast
    then show ?thesis using chan_stuck [OF _ False d'] run by simp
  qed blast
qed

text \<open>A set of one channel, which fires: its goroutine returns from the select and sends nil.\<close>

lemma WatchCh_delivers_witness:
  "\<exists>s s'. WatchCh (Some [Some 2]) (Some 1) [2] = Ret s \<and> (cstep ''cancelled'' (Some 1) ^^ 2) s s' \<and>
    wc_buf s' = [None] \<and> 2 \<le> 2 * length (chunks_of (chans (Some [Some 2]))) + 4"
proof -
  let ?arms = "[(Some 2, watchFired), (Some 1, watchDone)] :: arms"
  let ?s = "\<lparr>wc_ready = [2], wc_call = CSelect ?arms, wc_result = None, wc_sent = False, wc_buf = [], wc_got = []\<rparr> :: string wchan"
  let ?t = "?s\<lparr>wc_result := Some None\<rparr>"
  let ?u = "?t\<lparr>wc_sent := True, wc_buf := [None]\<rparr>"
  have w: "WatchCh (Some [Some 2]) (Some 1) [2] = Ret ?s"
    by (simp add: WatchCh_def watch_def Let_def smallFew_def few_array_def watchFew_def watchFewDone_def watchFewDone1_def tier_select_def)
  have 1: "cstep ''cancelled'' (Some 1) ?s ?t"
    using selected [of ?s ?arms watchFired "''cancelled''" "Some 1"] by (simp add: verdicts_def WatchCtx_result_def)
  have 2: "cstep ''cancelled'' (Some 1) ?t ?u" using sent [of ?t None "''cancelled''" "Some 1"] by simp
  have n: "(cstep ''cancelled'' (Some 1) ^^ 2) ?s ?u" using 1 2 by (auto simp: numeral_2_eq_2)
  have "may_return ''cancelled'' (Some [Some 2]) (Some 1) (wc_ready ?s) None" by (simp add: may_return_def chans_def)
  then have "2 \<le> 2 * length (chunks_of (chans (Some [Some 2]))) + 4"
    using WatchCh_delivers [OF chan_reach.start [OF w, of "''cancelled''"]] n by blast
  then show ?thesis using w n by (intro exI [of _ ?s] exI [of _ ?u]) simp
qed

end
