(* ===== verification/DeleteSpec.thy ===== *)
theory DeleteSpec
  imports QuerySpec
begin

text \<open>
  Deleting the result of a query with DeleteAll, also when the query yields a row twice, as a
  query of an index with several keys per row can; the theory MultiValued has an example.
\<close>

section \<open>DeleteAll\<close>

definition without :: "(bytes \<Rightarrow> obj option) \<Rightarrow> obj set \<Rightarrow> bytes \<Rightarrow> obj option" where
  "without R obs pk = (case R pk of None \<Rightarrow> None | Some ob \<Rightarrow> if ob \<in> obs then None else Some ob)"

lemma without_empty [simp]: "without R {} = R"
  by (rule ext) (simp add: without_def split: option.split)

lemma stored_all:
  assumes "txn_ok J uni tabs n x V" and "ni_get tabs name = Some ct" and "set rows \<subseteq> ran (V name)"
  shows "takeWhile (\<lambda>ob. \<not> is_nil ob) rows = rows"
  using stored_not_nil [OF assms(1,2)] assms(3) by (intro takeWhile_eq_all_conv [THEN iffD2]) (fastforce simp: ran_def)

lemma without_step:
  assumes "R pk = Some ob" and "\<And>q o'. R q = Some o' \<Longrightarrow> primaryKey uni ct o' = TOk q"
  shows "without (R(pk := None)) (set obs) = without R (set (ob # obs))"
proof -
  have "q = pk" if "R q = Some ob" for q using assms(2) [OF that] assms(2) [OF assms(1)] by simp
  then show ?thesis by (intro ext) (auto simp: without_def assms(1) split: option.split)
qed

lemma ran_step:
  assumes "R pk = Some ob" and "distinct (ob # obs)" and "set (ob # obs) \<subseteq> ran R"
  shows "set obs \<subseteq> ran (R(pk := None))"
proof
  fix o' assume o': "o' \<in> set obs"
  then obtain q where q: "R q = Some o'" using assms(3) by (auto simp: ran_def)
  then have "q \<noteq> pk" using assms(1,2) o' by auto
  then show "o' \<in> ran (R(pk := None))" using q by (auto simp: ran_def)
qed

text \<open>The rows up to the first that occurs a second time.\<close>

fun before_repeat :: "'a list \<Rightarrow> 'a list \<Rightarrow> 'a list" where
  "before_repeat seen [] = []"
| "before_repeat seen (x # xs) = (if x \<in> set seen then [] else x # before_repeat (x # seen) xs)"

lemma before_repeat_all: "before_repeat seen xs = xs \<longleftrightarrow> distinct xs \<and> set seen \<inter> set xs = {}"
  by (induction xs arbitrary: seen) auto

lemma delete_each_rows:
  assumes J: "juuri_laws J" and ct: "ni_get tabs name = Some ct" and key: "\<And>q o'. R q = Some o' \<Longrightarrow> primaryKey uni ct o' = TOk q"
  shows "txn_ok J uni tabs n x (V(name := without R (set seen))) \<Longrightarrow> x_write x \<Longrightarrow> set obs \<subseteq> ran R \<Longrightarrow>
    \<exists>x'. delete_each J uni tabs name obs num x =
        (Ret (num + length (before_repeat seen obs), if before_repeat seen obs = obs then None else Some ENotFound), x') \<and>
      txn_ok J uni tabs n x' (V(name := without R (set seen \<union> set (before_repeat seen obs))))"
proof (induction obs arbitrary: x seen num)
  case Nil
  then show ?case by simp
next
  case (Cons ob obs)
  obtain pk where pk: "R pk = Some ob" using Cons.prems(3) by (auto simp: ran_def)
  note D = juuri_tree.Delete_spec [OF juuri_tree.intro [OF J] Cons.prems(1,2) ct key [OF pk]]
  show ?case
  proof (cases "ob \<in> set seen")
    case True
    then have "without R (set seen) pk = None" by (simp add: without_def pk)
    then obtain x' where "Delete J uni tabs name ob x = (TErr ENotFound, x')" "txn_ok J uni tabs n x' (V(name := without R (set seen)))"
      using D by auto
    then show ?thesis using True by (intro exI [of _ x'] conjI) (simp_all del: fun_upd_apply)
  next
    case False
    then have v: "without R (set seen) pk = Some ob" by (simp add: without_def pk)
    have "q = pk" if "R q = Some ob" for q using key [OF pk] key [OF that] by simp
    then have w: "(without R (set seen))(pk := None) = without R (set (ob # seen))"
      by (intro ext) (auto simp: without_def pk split: option.split)
    obtain x1 where x1: "Delete J uni tabs name ob x = (TOk (), x1)" "x_write x1"
        "txn_ok J uni tabs n x1 (V(name := without R (set (ob # seen))))"
      using D v unfolding w [symmetric] by auto
    have sub: "set obs \<subseteq> ran R" using Cons.prems(3) by simp
    let ?d = "before_repeat (ob # seen) obs"
    obtain x' where x': "delete_each J uni tabs name obs (num + 1) x1 = (Ret (num + 1 + length ?d, if ?d = obs then None else Some ENotFound), x')"
        "txn_ok J uni tabs n x' (V(name := without R (set (ob # seen) \<union> set ?d)))"
      using Cons.IH [OF x1(3,2) sub, of "num + 1"] by blast
    have d: "before_repeat seen (ob # obs) = ob # ?d" using False by simp
    have u: "set seen \<union> set (ob # ?d) = set (ob # seen) \<union> set ?d" by auto
    have "delete_each J uni tabs name (ob # obs) num x =
        (Ret (num + length (ob # ?d), if ob # ?d = ob # obs then None else Some ENotFound), x')"
      unfolding delete_each.simps x1(1) prod.case tres.case x'(1) by simp
    then show ?thesis unfolding d u using x'(2) by blast
  qed
qed

text \<open>
  C8: DeleteAll deletes the rows that Get returns for the same query, in that order, up to the
  first row that the query yields a second time (a query of an index with several keys per row
  can). It reports their number, with ErrNotFound if it stopped at such a row and without an
  error if the query yields no row twice, when it has deleted all of them; every index is left
  in order.
\<close>
theorem DeleteAll_exact:
  assumes "juuri_laws J" and "txn_ok J uni tabs n x V" and "x_write x"
    and "Txn_Get J uni nils tabs x name index args = TOk rows"
  shows "\<exists>x'. DeleteAll J uni nils tabs name index args x =
      (Ret (length (before_repeat [] rows), if distinct rows then None else Some ENotFound), x') \<and>
    txn_ok J uni tabs n x' (V(name := without (V name) (set (before_repeat [] rows))))"
proof -
  obtain ct ci pre val where q: "getIndexValue uni nils tabs name index args = TOk (ct, (ci, pre), val)"
    using assms(4) by (auto simp: Txn_Get_def split: tres.splits)
  obtain tree where tree: "readableIndex ct ci x = Ret tree" and ct: "ni_get tabs name = Some ct"
      and e: "\<And>k c. j_get J tree k = Some c \<longleftrightarrow> (\<exists>ob. c = CRow ob \<and> (k, ob) \<in> index_entries uni ci (V name))"
    using query_index [OF assms(2) q] by blast
  have rows: "rows = map snd (decoded (j_prefix J tree (val_bytes val)))"
    using assms(4) q tree by (simp add: Txn_Get_def rows_decoded)
  have sub: "set rows \<subseteq> ran (V name)"
    using juuri_tree.tree_of_rows(1) [OF juuri_tree.intro [OF assms(1)] e, of "val_bytes val"]
    unfolding rows set_map by (auto simp: index_entries_def ran_def)
  then have tw: "takeWhile (\<lambda>ob. \<not> is_nil ob) rows = rows" by (rule stored_all [OF assms(2) ct])
  obtain root where "table_ok J uni ct root (tableTxn_of ct x) (V name)" using txn_inv_root [OF assms(2)] ct by metis
  note ix = table_okD(5) [OF this]
  have key: "primaryKey uni ct o' = TOk q" if "V name q = Some o'" for q o' using ix [OF that] by (simp add: indexable_def)
  have "txn_ok J uni tabs n x (V(name := without (V name) (set [])))" using assms(2) by simp
  note del = delete_each_rows [where R = "V name" and uni = uni and V = V and seen = "[]" and num = 0 and obs = rows,
    OF assms(1) ct key this assms(3) sub]
  have "DeleteAll J uni nils tabs name index args x = delete_each J uni tabs name rows 0 x"
    unfolding DeleteAll_def using assms(3,4) tw by (simp del: is_nil_iff takeWhile_eq_all_conv)
  then show ?thesis using del before_repeat_all [of "[]" rows] by (simp del: fun_upd_apply)
qed

lemma DeleteAll_exact_witness:
  "\<exists>x'. DeleteAll rbt_juuri same_case (\<lambda>_ _. False) sample_tables ''person'' ''id'' [AString [1]] ann_txn = (Ret (1, None), x') \<and>
    txn_ok rbt_juuri same_case sample_tables 3 x'
      (ann_rows(''person'' := without (ann_rows ''person'') {ann}))"
proof -
  have g: "Txn_Get rbt_juuri same_case (\<lambda>_ _. False) sample_tables ann_txn ''person'' ''id'' [AString [1]] = TOk [ann]"
    by code_simp
  show ?thesis using DeleteAll_exact [OF rbt_laws ann_ok _ g] ann_write by simp
qed

end
