(* ===== verification/DeletePrefixSpec.thy ===== *)
theory DeletePrefixSpec
  imports DeleteSpec
begin

text \<open>
  DeletePrefix on an index with one key per row. While its loop runs, the tree of the index it
  was given lags behind the others, and one cut at the end brings it in line: the invariant of
  the loop is that the table is in order up to that tree.
\<close>

section \<open>A table in order up to one index\<close>

text \<open>The table with the tree \<open>t\<close> in place of the one of the index \<open>ci\<close>.\<close>

definition with_tree :: "'t dbRoot \<Rightarrow> compiledIndex \<Rightarrow> 't \<Rightarrow> 't tableTxn \<Rightarrow> 't tableTxn" where
  "with_tree root ci t tt = put_tree ci t (start_index root ci tt)"

lemma with_tree_fields [simp]: "tt_rows (with_tree root ci t tt) = tt_rows tt" "tt_table (with_tree root ci t tt) = tt_table tt"
    "tt_wf ct (with_tree root ci t tt) = tt_wf ct tt"
  by (simp_all add: with_tree_def)

lemma cur_with_tree:
  assumes "tt_wf ct tt" and "ci \<in> set (ct_indexes ct)" and "cj \<in> set (ct_indexes ct)"
  shows "cur_tree root (with_tree root ci t tt) cj = (if cj = ci then t else cur_tree root tt cj)"
  using cur_tree_put [of ct "start_index root ci tt" ci cj root t] assms by (simp add: with_tree_def)

text \<open>One turn of the loop, after the primary key is found and the change is recorded.\<close>

definition id_gone :: "'t juuri \<Rightarrow> 't dbRoot \<Rightarrow> compiledTable \<Rightarrow> compiledIndex \<Rightarrow> bytes \<Rightarrow> 't tableTxn \<Rightarrow> 't tableTxn" where
  "id_gone J root ct ci pk tt = (let tt1 = start_index root (id_index ct) tt in
     if ci_ord ci \<noteq> ci_ord (id_index ct) then put_tree (id_index ct) (fst (j_delete J (tree_at tt1 (id_index ct)) pk)) tt1 else tt1)"

context juuri_tree
begin

lemma delete_keys_get: "j_get J (fold (\<lambda>k t. fst (j_delete J t k)) ks t) = (\<lambda>k. if k \<in> set ks then None else j_get J t k)"
  by (induction ks arbitrary: t) (auto simp: fun_eq_iff)

lemma id_gone_trees:
  assumes "tt_wf ct tt" and ci: "ci \<in> set (ct_indexes ct)"
  shows "tt_wf ct (id_gone J root ct ci pk tt)" "tt_rows (id_gone J root ct ci pk tt) = tt_rows tt"
    "cj \<in> set (ct_indexes ct) \<Longrightarrow> cur_tree root (id_gone J root ct ci pk tt) cj =
       (if cj = id_index ct \<and> ci \<noteq> cj then fst (j_delete J (cur_tree root tt cj) pk) else cur_tree root tt cj)"
proof -
  have wf: "ct_wf ct" using assms(1) by (simp add: tt_wf_def)
  note id = id_secondary(1) [OF wf]
  have e: "ci_ord ci = ci_ord (id_index ct) \<longleftrightarrow> ci = id_index ct" by (rule ct_wf_eq [OF wf ci id])
  have t: "tree_at (start_index root (id_index ct) tt) (id_index ct) = cur_tree root tt (id_index ct)"
    by (rule tree_at_start [OF assms(1) id])
  show "tt_wf ct (id_gone J root ct ci pk tt)" "tt_rows (id_gone J root ct ci pk tt) = tt_rows tt"
    using assms(1) by (simp_all add: id_gone_def Let_def)
  assume cj: "cj \<in> set (ct_indexes ct)"
  show "cur_tree root (id_gone J root ct ci pk tt) cj =
       (if cj = id_index ct \<and> ci \<noteq> cj then fst (j_delete J (cur_tree root tt cj) pk) else cur_tree root tt cj)"
    using cur_tree_put [of ct "start_index root (id_index ct) tt" "id_index ct" cj root] assms(1) id cj
    by (auto simp: id_gone_def Let_def e t)
qed

lemma lagging_delete:
  assumes ok: "table_ok J uni ct root (with_tree root ci t tt) R" and ci: "ci \<in> set (take (ct_classic ct) (ct_indexes ct))"
    and R: "R pk = Some ob"
  shows "\<exists>tt3 t'. deleteFromIndexes J uni root (id_gone J root ct ci pk tt) ob pk (Some (ci_ord ci)) = (TOk (), tt3) \<and> tt_wf ct tt3 \<and>
    j_get J (cur_tree root tt3 ci) = j_get J (cur_tree root tt ci) \<and> table_ok J uni ct root (with_tree root ci t' tt3) (R(pk := None))"
proof -
  have wf: "tt_wf ct tt" using table_okD(1) [OF ok] by simp
  then have wf: "tt_wf ct tt" "ct_wf ct" by (simp_all add: tt_wf_def)
  note ix = index_sets [OF wf(2)]
  let ?id = "id_index ct" and ?S = "with_tree root ci t tt" and ?tt2 = "id_gone J root ct ci pk tt"
  have mem: "ci \<in> set (ct_indexes ct)" using ci by (rule in_set_takeD)
  have cls: "ci \<notin> set (bitmap_indexes ct)" "ci = ?id \<or> ci \<in> set (secondary ct)"
    using ci ix unfolding id_secondary(3) [OF wf(2)] by auto
  note S = cur_with_tree [OF wf(1) mem, of _ root t] and g = id_gone_trees [OF wf(1) mem, where root = root and pk = pk]
  have tr: "cur_tree root ?tt2 cj = cur_tree root ?S cj" if "cj \<in> set (bitmap_indexes ct)" for cj
  proof -
    have "cj \<in> set (ct_indexes ct)" "cj \<noteq> ?id" "cj \<noteq> ci" using that ix cls by auto
    then show ?thesis using S [of cj] g(3) [of cj] by simp
  qed
  have rows: "tt_rows ?tt2 = tt_rows ?S" using g(2) by simp
  obtain tt3 where d: "deleteFromIndexes J uni root ?tt2 ob pk (Some (ci_ord ci)) = (TOk (), tt3)" "tt_wf ct tt3"
      and id: "cur_tree root tt3 ?id = cur_tree root ?tt2 ?id"
      and sec: "\<And>cj. cj \<in> set (secondary ct) \<Longrightarrow> j_get J (cur_tree root tt3 cj) =
         (\<lambda>k. if k \<in> set (old_keys uni pk (Some (ci_ord ci)) ob cj) then None else j_get J (cur_tree root ?tt2 cj) k)"
      and bits: "has_bitmaps ct \<Longrightarrow> \<exists>r. rowsOf root tt3 = Ret r \<and> bits_ok J uni ct (cur_tree root tt3) r (R(pk := None))"
    using deleteFromIndexes_spec [OF ok R g(1) rows tr, of "Some (ci_ord ci)"] by blast
  define t' where "t' = (if ci = ?id then fst (j_delete J t pk) else fold (\<lambda>k t. fst (j_delete J t k)) (ikeys uni ci pk ob) t)"
  note S' = cur_with_tree [OF d(2) mem, of _ root t']
  have kept: "j_get J (cur_tree root tt3 ci) = j_get J (cur_tree root tt ci)"
    using cls(2) id sec [of ci] g(3) [OF mem] ix by (auto simp: old_keys_def)
  have "table_ok J uni ct root (with_tree root ci t' tt3) (R(pk := None))"
  proof (rule table_inv_delete [OF ok R])
    show "tt_wf ct (with_tree root ci t' tt3)" using d(2) by simp
    show "j_get J (cur_tree root (with_tree root ci t' tt3) ?id) = (j_get J (cur_tree root ?S ?id))(pk := None)"
      using S' [of ?id] S [of ?id] id g(3) [of ?id] ix by (cases "ci = ?id") (simp_all add: t'_def)
    show "j_get J (cur_tree root (with_tree root ci t' tt3) cj) =
        (\<lambda>k. if k \<in> set (ikeys uni cj pk ob) then None else j_get J (cur_tree root ?S cj) k)" if cj: "cj \<in> set (secondary ct)" for cj
    proof -
      have m: "cj \<in> set (ct_indexes ct)" "cj \<noteq> ?id" using cj ix by auto
      have e: "ci_ord cj = ci_ord ci \<longleftrightarrow> cj = ci" by (rule ct_wf_eq [OF wf(2) m(1) mem])
      show ?thesis
      proof (cases "cj = ci")
        case True
        then have e: "cur_tree root (with_tree root ci t' tt3) cj = t'" "cur_tree root ?S cj = t"
          using S' [OF m(1)] S [OF m(1)] by simp_all
        show ?thesis unfolding e using True m(2) by (simp add: t'_def delete_keys_get)
      next
        case False
        have t: "cur_tree root (with_tree root ci t' tt3) cj = cur_tree root tt3 cj" "cur_tree root ?S cj = cur_tree root ?tt2 cj"
          using S' [OF m(1)] S [OF m(1)] g(3) [OF m(1)] False m(2) by simp_all
        show ?thesis using sec [OF cj] False e unfolding t by (simp add: old_keys_def)
      qed
    qed
    show "\<exists>r. rowsOf root (with_tree root ci t' tt3) = Ret r \<and> bits_ok J uni ct (cur_tree root (with_tree root ci t' tt3)) r (R(pk := None))"
      if b: "has_bitmaps ct"
    proof -
      obtain r where r: "rowsOf root tt3 = Ret r" "bits_ok J uni ct (cur_tree root tt3) r (R(pk := None))" using bits [OF b] by blast
      have "rowsOf root (with_tree root ci t' tt3) = rowsOf root tt3" by (rule rowsOf_cong) simp_all
      moreover have "cur_tree root (with_tree root ci t' tt3) cj = cur_tree root tt3 cj" if "cj \<in> set (bitmap_indexes ct)" for cj
        using S' [of cj] that ix(1) cls(1) by auto
      ultimately show ?thesis using r bits_ok_cong [OF _ r(2), of "cur_tree root (with_tree root ci t' tt3)"] by simp
    qed
  qed
  then show ?thesis using d kept by blast
qed

end

section \<open>The loop\<close>

lemma store_store: "ct_ord (tt_table a) = ct_ord (tt_table b) \<Longrightarrow> store_tt a (store_tt b ts) = store_tt a ts"
  by (induction ts) auto

lemma tables_of_record [simp]: "tables_of (record_change t b a k x) = tables_of x"
  by (simp add: tables_of_def)

text \<open>The changes the loop records.\<close>

definition deletions :: "(bytes \<Rightarrow> bytes) \<Rightarrow> compiledTable \<Rightarrow> string \<Rightarrow> obj list \<Rightarrow> change list" where
  "deletions uni ct name obs = map (\<lambda>ob. \<lparr>c_Table = name, c_Before = ob, c_After = ONil,
     c_primaryKey = (case primaryKey uni ct ob of TOk pk \<Rightarrow> pk | _ \<Rightarrow> [])\<rparr>) obs"

lemma txn_ok_table:
  assumes "txn_ok J uni tabs n x V" and "ni_get tabs name = Some ct" and "x_root x = Some root"
  shows "table_ok J uni ct root (tableTxn_of ct x) (V name)"
  using txn_inv_root [OF assms(1)] assms(2,3) by (metis option.inject)

context juuri_tree
begin

lemma delete_entry:
  assumes lag: "txn_ok J uni tabs n (save (with_tree root ci t (tableTxn_of ct x)) x) V" and ct: "ni_get tabs name = Some ct"
    and tab: "tt_table (tableTxn_of ct x) = ct" and root: "x_root x = Some root" and ci: "ci \<in> set (take (ct_classic ct) (ct_indexes ct))"
    and R: "V name pk = Some ob" and pk: "primaryKey uni ct ob = TOk pk"
    and idt: "ci = id_index ct \<Longrightarrow> j_get J (cur_tree root (tableTxn_of ct x) ci) pk = Some (CRow ob)"
  shows "\<exists>x' t'. delete_entries J uni root ct name ci (ob # obs) x = delete_entries J uni root ct name ci obs x' \<and>
    tt_table (tableTxn_of ct x') = ct \<and> x_root x' = Some root \<and> x_changes x' = map_option (\<lambda>cs. cs @ deletions uni ct name [ob]) (x_changes x) \<and>
    j_get J (cur_tree root (tableTxn_of ct x') ci) = j_get J (cur_tree root (tableTxn_of ct x) ci) \<and>
    txn_ok J uni tabs n (save (with_tree root ci t' (tableTxn_of ct x')) x') (V(name := (V name)(pk := None)))"
proof -
  let ?tt = "tableTxn_of ct x" and ?id = "id_index ct"
  let ?S = "with_tree root ci t ?tt"
  have t: "table_ok J uni ct root ?S (V name)"
    using txn_ok_table [OF lag ct] root tab by (simp add: tableTxn_of_save)
  have wf: "tt_wf ct ?tt" using table_okD(1) [OF t] by simp
  then have cw: "ct_wf ct" by (simp add: tt_wf_def)
  have mem: "ci \<in> set (ct_indexes ct)" using ci by (rule in_set_takeD)
  obtain tt3 t' where d: "deleteFromIndexes J uni root (id_gone J root ct ci pk ?tt) ob pk (Some (ci_ord ci)) = (TOk (), tt3)"
      "tt_wf ct tt3" "j_get J (cur_tree root tt3 ci) = j_get J (cur_tree root ?tt ci)"
      "table_ok J uni ct root (with_tree root ci t' tt3) ((V name)(pk := None))"
    using lagging_delete [OF t ci R] by blast
  have e: "j_get J (tree_at (start_index root ?id ?tt) ?id) pk = Some (CRow ob)"
    using idt table_okD(2) [OF t, of pk] cur_with_tree [OF wf mem, of ?id root t] id_secondary(1) [OF cw] R
      tree_at_start [OF wf id_secondary(1) [OF cw]] by (cases "ci = ?id") simp_all
  let ?x = "save tt3 (record_change name ob ONil pk x)"
  have "delete_entries J uni root ct name ci (ob # obs) x = delete_entries J uni root ct name ci obs ?x"
    using d(1) by (simp only: delete_entries.simps Let_def pk tres.case e option.case row_of_def cell.case id_gone_def prod.case)
  moreover have t3: "tt_table tt3 = ct" "tableTxn_of ct ?x = tt3" using d(2) by (simp_all add: tt_wf_def tableTxn_of_save)
  moreover have "x_changes ?x = map_option (\<lambda>cs. cs @ deletions uni ct name [ob]) (x_changes x)"
    by (simp add: deletions_def pk)
  moreover have "txn_ok J uni tabs n (save (with_tree root ci t' tt3) (save ?S x)) (V(name := (V name)(pk := None)))"
    by (rule txn_ok_save [OF lag ct _ d(4)]) (simp add: root)
  then have "txn_ok J uni tabs n (save (with_tree root ci t' tt3) ?x) (V(name := (V name)(pk := None)))"
    by (rule txn_inv_cong [THEN iffD2, rotated 2]) (use t3(1) tab in \<open>simp_all add: save_def tables_of_def store_store\<close>)
  ultimately show ?thesis using d(3) root by (intro exI [of _ ?x] exI [of _ t']) simp
qed

lemma delete_entries_spec:
  assumes ct: "ni_get tabs name = Some ct" and ci: "ci \<in> set (take (ct_classic ct) (ct_indexes ct))"
  shows "txn_ok J uni tabs n (save (with_tree root ci t (tableTxn_of ct x)) x) V \<Longrightarrow> tt_table (tableTxn_of ct x) = ct \<Longrightarrow>
    x_root x = Some root \<Longrightarrow> distinct obs \<Longrightarrow> set obs \<subseteq> ran (V name) \<Longrightarrow>
    (\<And>pk ob. ci = id_index ct \<Longrightarrow> V name pk = Some ob \<Longrightarrow> j_get J (cur_tree root (tableTxn_of ct x) ci) pk = Some (CRow ob)) \<Longrightarrow>
    \<exists>x' t'. delete_entries J uni root ct name ci obs x = (TOk (), x') \<and> tt_table (tableTxn_of ct x') = ct \<and> x_root x' = Some root \<and>
      x_changes x' = map_option (\<lambda>cs. cs @ deletions uni ct name obs) (x_changes x) \<and>
      j_get J (cur_tree root (tableTxn_of ct x') ci) = j_get J (cur_tree root (tableTxn_of ct x) ci) \<and>
      txn_ok J uni tabs n (save (with_tree root ci t' (tableTxn_of ct x')) x') (V(name := without (V name) (set obs)))"
proof (induction obs arbitrary: x t V)
  case Nil
  have "V(name := without (V name) {}) = V" by simp
  then show ?case using Nil.prems by (intro exI [of _ x] exI [of _ t]) (simp add: deletions_def option.map_ident)
next
  case (Cons ob obs)
  obtain pk where R: "V name pk = Some ob" using Cons.prems(5) by (auto simp: ran_def)
  have "table_ok J uni ct root (with_tree root ci t (tableTxn_of ct x)) (V name)"
    using txn_ok_table [OF Cons.prems(1) ct] Cons.prems(2,3) by (simp add: tableTxn_of_save)
  note ix = table_okD(5) [OF this]
  have pk: "primaryKey uni ct ob = TOk pk" using ix [OF R] by (simp add: indexable_def)
  let ?V = "V(name := (V name)(pk := None))"
  obtain x1 t1 where x1: "delete_entries J uni root ct name ci (ob # obs) x = delete_entries J uni root ct name ci obs x1"
      "tt_table (tableTxn_of ct x1) = ct" "x_root x1 = Some root"
      "x_changes x1 = map_option (\<lambda>cs. cs @ deletions uni ct name [ob]) (x_changes x)"
      "j_get J (cur_tree root (tableTxn_of ct x1) ci) = j_get J (cur_tree root (tableTxn_of ct x) ci)"
      "txn_ok J uni tabs n (save (with_tree root ci t1 (tableTxn_of ct x1)) x1) ?V"
    using delete_entry [where V = V and name = name, OF Cons.prems(1) ct Cons.prems(2,3) ci R pk] Cons.prems(6) [OF _ R] by blast
  have d: "distinct obs" using Cons.prems(4) by simp
  have sub: "set obs \<subseteq> ran (?V name)" using ran_step [of "V name", OF R Cons.prems(4,5)] by simp
  have id: "j_get J (cur_tree root (tableTxn_of ct x1) ci) q = Some (CRow o')" if "ci = id_index ct" "?V name q = Some o'" for q o'
    using Cons.prems(6) [OF that(1), of q o'] that(2) x1(5) by (simp split: if_splits)
  obtain x' t' where x': "delete_entries J uni root ct name ci obs x1 = (TOk (), x')" "tt_table (tableTxn_of ct x') = ct" "x_root x' = Some root"
      "x_changes x' = map_option (\<lambda>cs. cs @ deletions uni ct name obs) (x_changes x1)"
      "j_get J (cur_tree root (tableTxn_of ct x') ci) = j_get J (cur_tree root (tableTxn_of ct x1) ci)"
      "txn_ok J uni tabs n (save (with_tree root ci t' (tableTxn_of ct x')) x') (?V(name := without (?V name) (set obs)))"
    using Cons.IH [OF x1(6,2,3) d sub id] by blast
  have "without (?V name) (set obs) = without (V name) (set (ob # obs))"
    using without_step [of "V name", OF R, of uni ct obs] ix by (simp add: indexable_def)
  then have "?V(name := without (?V name) (set obs)) = V(name := without (V name) (set (ob # obs)))" by simp
  then have "txn_ok J uni tabs n (save (with_tree root ci t' (tableTxn_of ct x')) x') (V(name := without (V name) (set (ob # obs))))"
    using x'(6) by metis
  moreover have "x_changes x' = map_option (\<lambda>cs. cs @ deletions uni ct name (ob # obs)) (x_changes x)"
    unfolding x'(4) x1(4) by (simp add: option.map_comp comp_def deletions_def)
  ultimately show ?case unfolding x1(1) using x'(1-3) x'(5) [unfolded x1(5)] by blast
qed

end

section \<open>Rows of an index with one key per row\<close>

lemma single_key:
  assumes "is_single (ci_ix ci)" and "k \<in> set (ikeys uni ci pk ob)" and "k' \<in> set (ikeys uni ci pk ob)"
  shows "k = k'"
  using assms by (auto simp: ikeys_def keys_of_def row_keys_cases up_keys_def bind_res_def split: res.splits option.splits)

lemma entries_functional:
  assumes "is_single (ci_ix ci)" and "\<And>q o'. R q = Some o' \<Longrightarrow> primaryKey uni ct o' = TOk q"
    and "(k, ob) \<in> index_entries uni ci R" and "(k', ob) \<in> index_entries uni ci R"
  shows "k = k'"
proof -
  obtain p q where "R p = Some ob" "k \<in> set (ikeys uni ci p ob)" "R q = Some ob" "k' \<in> set (ikeys uni ci q ob)"
    using assms(3,4) by (auto simp: index_entries_def)
  moreover from this have "p = q" using assms(2) [of p ob] assms(2) [of q ob] by simp
  ultimately show ?thesis using single_key [OF assms(1)] by blast
qed

lemma entries_without: "index_entries uni ci (without R obs) = {(k, ob) \<in> index_entries uni ci R. ob \<notin> obs}"
  by (auto simp: index_entries_def without_def split: option.splits if_splits)

lemma resolved_prefix:
  assumes "getIndexValue uni nils tabs name index args = TOk (ct, (ci, pre), val)" and "ct_wf ct"
  shows "ni_get (ct_byName ct) index = Some (ci, pre)" and "pre = HasSuffix index prefixSuffix"
proof -
  show ci: "ni_get (ct_byName ct) index = Some (ci, pre)"
    using assms(1) by (auto simp: getIndexValue_def split: option.splits if_splits res.splits)
  then show "pre = HasSuffix index prefixSuffix" by (rule byName_index(2) [OF assms(2)])
qed

text \<open>
  C7: DeletePrefix on a prefix index with one key per row. The rows found by the prefix query are
  deleted from the primary index, the bitmap indexes and every other secondary index, and each
  deletion is recorded. The index itself is cut at the raw bytes of the prefix, whatever value the
  index looks the prefix up by: entries that start with them go, and no others. If none does
  although the query found rows, DeletePrefix panics; otherwise it says whether it found rows. So the
  whole database is left in order without exactly those rows when the keys that start with the
  raw prefix are those the query looks for, in particular when the index looks a prefix up by its
  own bytes.
\<close>
theorem DeletePrefix_exact:
  assumes "juuri_laws J" and ok: "txn_ok J uni tabs n x V" and w: "x_write x"
    and q: "getIndexValue uni nils tabs name index [AString pfx] = TOk (ct, (ci, True), val)"
    and single: "is_single (ci_ix ci)" and rows: "Txn_Get J uni nils tabs x name index [AString pfx] = TOk rows"
    and E: "E = index_entries uni ci (V name)" and V': "V' = V(name := without (V name) (set rows))"
  shows "\<exists>r x'. DeletePrefix J uni nils tabs name index pfx x = (r, x') \<and>
    r = (if rows = [] then TOk False else if \<exists>(k, ob)\<in>E. prefix pfx k then TOk True else TPanic) \<and>
    x_changes x' = map_option (\<lambda>cs. cs @ deletions uni ct name rows) (x_changes x) \<and>
    (\<exists>root t. x_root x' = Some root \<and> txn_ok J uni tabs n (save (with_tree root ci t (tableTxn_of ct x')) x') V') \<and>
    (\<exists>t t'. readableIndex ct ci x = Ret t \<and> readableIndex ct ci x' = Ret t' \<and>
       (\<forall>k. j_get J t' k = (if rows \<noteq> [] \<and> prefix pfx k then None else j_get J t k))) \<and>
    ((\<forall>(k, ob)\<in>E. prefix pfx k \<longleftrightarrow> prefix (val_bytes val) k) \<longrightarrow> txn_ok J uni tabs n x' V')"
proof -
  note J = juuri_tree.intro [OF assms(1)]
  obtain root where root: "x_root x = Some root" using txn_inv_root [OF ok] by metis
  obtain tree where tree: "readableIndex ct ci x = Ret tree" and ct: "ni_get tabs name = Some ct"
      and ci: "ci \<in> set (take (ct_classic ct) (ct_indexes ct))"
      and e: "\<And>k c. j_get J tree k = Some c \<longleftrightarrow> (\<exists>ob. c = CRow ob \<and> (k, ob) \<in> index_entries uni ci (V name))"
    using query_index [OF ok q] by blast
  note t = txn_ok_table [OF ok ct root]
  have wf: "tt_wf ct (tableTxn_of ct x)" "tt_table (tableTxn_of ct x) = ct" using table_okD(1) [OF t] by (simp_all add: tt_wf_def)
  have pk: "\<And>q o'. V name q = Some o' \<Longrightarrow> primaryKey uni ct o' = TOk q" using table_okD(5) [OF t] by (simp add: indexable_def)
  have mem: "ci \<in> set (ct_indexes ct)" using ci by (rule in_set_takeD)
  have cur: "cur_tree root (tableTxn_of ct x) ci = tree" using readableIndex_cur [OF root wf(1) mem] tree by simp
  obtain es where es: "rows = map snd es" "sorted_wrt (<) (map fst es)" "set es = {(k, ob) \<in> E. prefix (val_bytes val) k}"
    using Get_entries [OF assms(1) ok q] rows unfolding E by auto
  have sub: "set rows \<subseteq> ran (V name)" unfolding es(1) set_map es(3) E by (auto simp: index_entries_def ran_def)
  then have nn: "takeWhile (\<lambda>ob. \<not> is_nil ob) rows = rows" by (rule stored_all [OF ok ct])
  have ct': "ct_wf ct" using wf(1) by (simp add: tt_wf_def)
  note r = resolved_prefix [OF q ct']
  have run: "DeletePrefix J uni nils tabs name index pfx x = (if rows = [] then (TOk False, x) else
      case delete_entries J uni root ct name ci rows x of (TErr e, x') \<Rightarrow> (TErr e, x') | (TPanic, x') \<Rightarrow> (TPanic, x')
      | (TOk _, x') \<Rightarrow> let tt = start_index root ci (tableTxn_of ct x') in
          (case j_deletePrefix J (tree_at tt ci) pfx of (t, ok) \<Rightarrow> (if ok then TOk True else TPanic, save (put_tree ci t tt) x')))"
    unfolding DeletePrefix_def using w r rows ct root nn by (simp del: is_nil_iff takeWhile_eq_all_conv)
  have start: "txn_ok J uni tabs n (save (with_tree root ci tree (tableTxn_of ct x)) x) V"
  proof (rule txn_inv_save_same [OF ok ct root])
    show "same_table J ct root (tableTxn_of ct x) (with_tree root ci tree (tableTxn_of ct x))"
      unfolding same_table_def using cur_with_tree [OF wf(1) mem] wf(1) cur by simp
  qed
  show ?thesis
  proof (cases "rows = []")
    case True
    then have "DeletePrefix J uni nils tabs name index pfx x = (TOk False, x)" "V' = V"
        "map_option (\<lambda>cs. cs @ deletions uni ct name rows) (x_changes x) = x_changes x"
      using run V' by (simp_all add: deletions_def option.map_ident)
    then show ?thesis using True ok root start tree by (intro exI [of _ "TOk False"] exI [of _ x]) auto
  next
    case False
    have fn: "k = k'" if "(k, ob) \<in> E" "(k', ob) \<in> E" for k k' ob
      using entries_functional [of ci "V name" uni ct, OF single pk] that unfolding E by blast
    have "inj_on snd (set es)" using fn by (auto simp: inj_on_def es(3))
    moreover have "distinct es" using es(2) strict_sorted_iff [of "map fst es"] by (simp add: distinct_map)
    ultimately have dist: "distinct rows" by (simp add: es(1) distinct_map)
    have rows_iff: "ob \<in> set rows \<longleftrightarrow> (\<exists>k. (k, ob) \<in> E \<and> prefix (val_bytes val) k)" for ob
      unfolding es(1) set_map es(3) by (auto simp: image_iff)
    then have hit: "prefix (val_bytes val) k \<longleftrightarrow> ob \<in> set rows" if "(k, ob) \<in> E" for k ob
      using that fn by metis
    have id: "j_get J (cur_tree root (tableTxn_of ct x) ci) p = Some (CRow ob)" if "ci = id_index ct" "V name p = Some ob" for p ob
      using table_okD(2) [OF t, of p] that by simp
    obtain x' t' where x': "delete_entries J uni root ct name ci rows x = (TOk (), x')" "tt_table (tableTxn_of ct x') = ct" "x_root x' = Some root"
        "x_changes x' = map_option (\<lambda>cs. cs @ deletions uni ct name rows) (x_changes x)"
        "j_get J (cur_tree root (tableTxn_of ct x') ci) = j_get J tree"
        "txn_ok J uni tabs n (save (with_tree root ci t' (tableTxn_of ct x')) x') (V(name := without (V name) (set rows)))"
      using juuri_tree.delete_entries_spec [OF J ct ci start wf(2) root dist sub id] unfolding cur by blast
    let ?V = "V(name := without (V name) (set rows))" and ?tt = "tableTxn_of ct x'"
    have t2: "table_ok J uni ct root (with_tree root ci t' ?tt) (?V name)"
      using txn_ok_table [OF x'(6) ct] x'(2,3) by (simp add: tableTxn_of_save)
    have wf': "tt_wf ct ?tt" using table_okD(1) [OF t2] by simp
    let ?p = "j_deletePrefix J (tree_at (start_index root ci ?tt) ci) pfx"
    define T where "T = fst ?p"
    have at: "tree_at (start_index root ci ?tt) ci = cur_tree root ?tt ci" by (rule tree_at_start [OF wf' mem])
    have T: "j_get J T k = (if prefix pfx k then None else j_get J tree k)" for k
      unfolding T_def at x'(5) [symmetric] by (rule juuri_tree.get_deletePrefix [OF J])
    have "snd ?p \<longleftrightarrow> (\<exists>k. prefix pfx k \<and> j_get J tree k \<noteq> None)"
      unfolding at x'(5) [symmetric] by (rule juuri_tree.any_deletePrefix [OF J])
    also have "\<dots> \<longleftrightarrow> (\<exists>(k, ob)\<in>E. prefix pfx k)" using e unfolding E by fastforce
    finally have hits: "snd ?p \<longleftrightarrow> (\<exists>(k, ob)\<in>E. prefix pfx k)" .
    let ?x = "save (with_tree root ci T ?tt) x'"
    have run': "DeletePrefix J uni nils tabs name index pfx x = (if \<exists>(k, ob)\<in>E. prefix pfx k then TOk True else TPanic, ?x)"
      unfolding run hits [symmetric] using False x'(1) by (simp add: with_tree_def T_def Let_def split: prod.split)
    have tx: "tableTxn_of ct ?x = with_tree root ci T ?tt" by (simp add: tableTxn_of_save x'(2))
    have put: "txn_ok J uni tabs n (save (with_tree root ci u ?tt) x') V'"
      if u: "same_table J ct root (with_tree root ci t' ?tt) (with_tree root ci u ?tt)" for u
    proof (rule txn_inv_cong [THEN iffD1, rotated 2])
      have "txn_ok J uni tabs n (save (with_tree root ci u ?tt) (save (with_tree root ci t' ?tt) x')) (?V(name := ?V name))"
        by (rule txn_ok_save [OF x'(6) ct _ table_inv_same [OF t2 u]]) (simp add: x'(3))
      then show "txn_ok J uni tabs n (save (with_tree root ci u ?tt) (save (with_tree root ci t' ?tt) x')) V'"
        unfolding V' by (simp only: fun_upd_triv)
    qed (simp_all add: save_def tables_of_def store_store)
    have rest: "txn_ok J uni tabs n (save (with_tree root ci t' (tableTxn_of ct ?x)) ?x) V'"
      unfolding tx
    proof (rule txn_inv_cong [THEN iffD1, rotated 2])
      have "same_table J ct root (with_tree root ci t' ?tt) (with_tree root ci t' (with_tree root ci T ?tt))"
        unfolding same_table_def using cur_with_tree [OF wf' mem] cur_with_tree [of ct "with_tree root ci T ?tt", OF _ mem] wf' by simp
      then have "txn_ok J uni tabs n (save (with_tree root ci t' (with_tree root ci T ?tt)) (save (with_tree root ci t' ?tt) x')) (?V(name := ?V name))"
        by (intro txn_ok_save [OF x'(6) ct _ table_inv_same [OF t2]]) (simp_all add: x'(3))
      then show "txn_ok J uni tabs n (save (with_tree root ci t' (with_tree root ci T ?tt)) (save (with_tree root ci t' ?tt) x')) V'"
        unfolding V' by (simp only: fun_upd_triv)
    qed (simp_all add: save_def tables_of_def store_store)
    have read: "readableIndex ct ci ?x = Ret T"
      using readableIndex_cur [of ?x root ct ci] tx wf' mem x'(3) cur_with_tree [OF wf' mem mem, of root T] by simp
    have agree: "txn_ok J uni tabs n ?x V'" if a: "\<forall>(k, ob)\<in>E. prefix pfx k \<longleftrightarrow> prefix (val_bytes val) k"
    proof (rule put)
      have "j_get J T k = Some c \<longleftrightarrow> j_get J t' k = Some c" for k c
      proof -
        have "cur_tree root (with_tree root ci t' ?tt) ci = t'" using cur_with_tree [OF wf' mem mem] by simp
        then have "j_get J t' k = Some c \<longleftrightarrow> (\<exists>ob. c = CRow ob \<and> (k, ob) \<in> E \<and> ob \<notin> set rows)"
          using tree_entries [OF t2 ci, of k c] by (simp add: entries_without E)
        moreover have "(k, ob) \<in> E \<and> ob \<notin> set rows \<longleftrightarrow> (k, ob) \<in> E \<and> \<not> prefix pfx k" for ob
          using hit a by blast
        ultimately show ?thesis using T [of k] e [of k c] E by simp
      qed
      then have "j_get J T = j_get J t'" by (intro ext) (metis not_None_eq)
      then show "same_table J ct root (with_tree root ci t' ?tt) (with_tree root ci T ?tt)"
        unfolding same_table_def using cur_with_tree [OF wf' mem] wf' by simp
    qed
    show ?thesis
      using run' False x'(3,4) rest read tree T agree
      by (intro exI [of _ "if \<exists>(k, ob)\<in>E. prefix pfx k then TOk True else TPanic"] exI [of _ ?x]) auto
  qed
qed

text \<open>The names that start with a: the index looks the prefix up by its own bytes.\<close>

lemma DeletePrefix_exact_witness:
  "\<exists>x'. DeletePrefix rbt_juuri same_case (\<lambda>_ _. False) sample_tables ''person'' ''name_prefix'' [97] ann_txn = (TOk True, x') \<and>
    txn_ok rbt_juuri same_case sample_tables 3 x' (ann_rows(''person'' := without (ann_rows ''person'') {ann}))"
proof -
  have "(case getIndexValue same_case (\<lambda>_ _. False) sample_tables ''person'' ''name_prefix'' [AString [97]] of
      TOk (ct, (ci, pre), val) \<Rightarrow> is_single (ci_ix ci) \<and> pre \<and> val = Some [97] | _ \<Rightarrow> False)"
    by code_simp
  then obtain ct ci where q: "getIndexValue same_case (\<lambda>_ _. False) sample_tables ''person'' ''name_prefix'' [AString [97]] =
      TOk (ct, (ci, True), Some [97])" "is_single (ci_ix ci)"
    by (auto split: tres.splits)
  have g: "Txn_Get rbt_juuri same_case (\<lambda>_ _. False) sample_tables ann_txn ''person'' ''name_prefix'' [AString [97]] = TOk [ann]"
    by code_simp
  have r: "fst (DeletePrefix rbt_juuri same_case (\<lambda>_ _. False) sample_tables ''person'' ''name_prefix'' [97] ann_txn) = TOk True"
    by code_simp
  obtain x' where x': "DeletePrefix rbt_juuri same_case (\<lambda>_ _. False) sample_tables ''person'' ''name_prefix'' [97] ann_txn = (TOk True, x')"
      "txn_ok rbt_juuri same_case sample_tables 3 x' (ann_rows(''person'' := without (ann_rows ''person'') (set [ann])))"
    using DeletePrefix_exact [OF rbt_laws ann_ok ann_write q g refl refl] r by (fastforce simp: val_bytes_def simp del: fun_upd_apply)
  then show ?thesis unfolding list.set by blast
qed

end
