(* ===== verification/MultiValued.thy ===== *)
theory MultiValued
  imports DeletePrefixSpec
begin

text \<open>
  DeleteAll and DeletePrefix on an index with several keys per row, on a database of tagged rows: a
  row that has two tags with the prefix is visited twice. And DeletePrefix with a prefix that the
  index looks up by other bytes.
\<close>

section \<open>A database of tagged rows\<close>

definition tag_schema :: "bool \<Rightarrow> dbSchema" where
  "tag_schema bm =
    [(''item'', \<lparr>ts_name = ''item'', ts_indexes =
       [(''id'', \<lparr>is_name = ''id'', is_allowMissing = False, is_unique = True, is_indexer = SPlain (IString ''ID'' False)\<rparr>),
        (''tags'', \<lparr>is_name = ''tags'', is_allowMissing = False, is_unique = False, is_indexer = SPlain (IStringSlice ''Tags'' False)\<rparr>)] @
       (if bm then [(''kind'', \<lparr>is_name = ''kind'', is_allowMissing = False, is_unique = False, is_indexer = SBitmap (SPlain (IString ''ID'' False))\<rparr>)]
        else [])\<rparr>)]"

definition tag_tables :: "bool \<Rightarrow> compiledTable nameIndex" where
  "tag_tables bm = (case compileSchema (tag_schema bm) of Ret (Inr (tabs, _)) \<Rightarrow> tabs | _ \<Rightarrow> \<lparr>entries = [], off = []\<rparr>)"

definition tag_start :: "bool \<Rightarrow> (bytes, cell) RBT.rbt txn" where
  "tag_start bm = \<lparr>x_root = Some (newDBRoot rbt_juuri (tag_tables bm) (if bm then 3 else 2)), x_write = True, x_tables = None,
     x_after = None, x_afterMore = None, x_changes = None\<rparr>"

definition item :: "bytes list \<Rightarrow> obj" where
  "item tags = OPtr 0 (map (\<lambda>(n, v). \<lparr>fd_name = n, fd_exported = True, fd_embed_exported = True, fd_path = Direct, fd_type = [], fd_val = v\<rparr>)
     [(''ID'', VString [1]), (''Tags'', VStrings tags)])"

definition tag_txn :: "bool \<Rightarrow> obj \<Rightarrow> (bytes, cell) RBT.rbt txn" where
  "tag_txn bm ob = snd (Insert rbt_juuri same_case (tag_tables bm) ''item'' ob (tag_start bm))"

section \<open>What the deletions do to it\<close>

text \<open>DeletePrefix leaves the entries of the row's other tags behind: a query for one returns the deleted row.\<close>

lemma DeletePrefix_dangles:
  "case DeletePrefix rbt_juuri same_case (\<lambda>_ _. False) (tag_tables False) ''item'' ''tags_prefix'' [97] (tag_txn False (item [[97, 98], [99]])) of
     (r, x) \<Rightarrow> r = TOk True \<and>
       Txn_First rbt_juuri same_case (\<lambda>_ _. False) (tag_tables False) x ''item'' ''id'' [AString [1]] = TOk ONil \<and>
       Txn_Get rbt_juuri same_case (\<lambda>_ _. False) (tag_tables False) x ''item'' ''tags'' [AString [99]] = TOk [item [[97, 98], [99]]]"
  by code_simp

text \<open>With a bitmap index the second visit of a row panics: the row has no id any more.\<close>

lemma DeletePrefix_panics:
  "fst (DeletePrefix rbt_juuri same_case (\<lambda>_ _. False) (tag_tables True) ''item'' ''tags_prefix'' [97] (tag_txn True (item [[97, 98], [97, 99]]))) = TPanic"
  by code_simp

text \<open>DeleteAll deletes such a row at its first visit and fails at the second.\<close>

lemma DeleteAll_twice:
  "fst (DeleteAll rbt_juuri same_case (\<lambda>_ _. False) (tag_tables False) ''item'' ''tags_prefix'' [AString [97]] (tag_txn False (item [[97, 98], [97, 99]]))) =
     Ret (1, Some ENotFound)"
  by code_simp

section \<open>A prefix that the index does not look up by its own bytes\<close>

text \<open>
  The index of names is not case-sensitive: the prefix query for A finds the row of ann, but no key
  starts with that byte, so the cut removes nothing and DeletePrefix panics.
\<close>

lemma DeletePrefix_case:
  "Txn_Get rbt_juuri same_case (\<lambda>_ _. False) sample_tables ann_txn ''person'' ''name_prefix'' [AString [65]] = TOk [ann] \<and>
   fst (DeletePrefix rbt_juuri same_case (\<lambda>_ _. False) sample_tables ''person'' ''name_prefix'' [65] ann_txn) = TPanic"
  by code_simp

end
