(* ===== verification/Spec2Isabelle.thy ===== *)
theory Spec2Isabelle
  imports BitmapBounds BitmapWorld PvecWorld IndexSpec FieldAccess Runs Clashes RowAlgebra Pool TypedWatch WatchChan MultiValued
begin

text \<open>
  A verification development for go-maemmidb, an in-memory database: tables of Go objects with
  ordered indexes on persistent radix trees, bitmap indexes on persistent bitmaps, transactions
  with one writer and any number of readers, and watch channels.

  \<^bold>\<open>The program and its model.\<close> A database (src/memdb.go) is an immutable version, a tree per
  index and the row bookkeeping of the tables with bitmap indexes, behind an atomic pointer. A
  transaction (src/txn.go) reads one version; a write transaction builds new trees beside it and
  Commit publishes them. Inserting a row asks the indexers (src/index.go, src/typed.go) for its
  keys, by way of the allocation-free extractors (src/extract.go, src/index_fast.go), and writes
  the trees. Bitmap indexes (src/bitmap_index.go) give every row a small id, keep the rows in a
  vector (src/internal/pvec) and the ids of every value in a bitmap (src/internal/bitmap). A
  schema (src/schema.go) is compiled once into tables, index slots and name lookups
  (src/schema_compile.go). The theories follow these parts:

  \<^item> Prelude: names of Go's types, outcomes that may be a panic, bit operations, lists.
  \<^item> IdSet, RowTable: the interfaces of id sets and row vectors, as locales with their laws; the
    bookkeeping of rows is proved from these laws alone.
  \<^item> Bitmap, BitmapOps, BitmapIter, BitmapSpec: src/internal/bitmap. Nodes are values with 64-bit
    words and 32-bit counts that wrap; the trees are canonical, the algebra is that of sets, the
    iterator ends and ascends. BitmapOps interprets the locales of IdSet. BitmapBounds has the
    iterator with every index checked and shows that no check fails.
  \<^item> Pvec: src/internal/pvec over values, with the cursor; interprets the locale of RowTable.
  \<^item> Memory, PvecHeap, BitmapHeap: the same operations over nodes in memory, shared between versions
    and mutated in place by the writer whose epoch they carry; they compute what Pvec and Bitmap
    compute and change no node that the writer does not own. Arena adds any number of writers and
    published structures, as a locale; PvecWorld and BitmapWorld interpret it, so that whatever is
    published never changes, and vectors and bitmaps may be used as values everywhere else.
  \<^item> Keys: the encodings of integers, strings and UUIDs, and the key list; NameIndex: the name
    lookup of src/schema_compile.go, a counting sort by length with bisection.
  \<^item> Indexers, Extract, IndexFast, IndexSpec: the original indexers over objects as reflection shows
    them, the extractors, the exported methods that combine both, and the proof that all agree. A
    call of an extractor that would not return is the value None, and none does.
  \<^item> FieldAccess: where the extractors' fields come from. Go values with a memory layout, resolveField,
    the caches of its results under interleaving lookups, and the field readers of both builds
    (src/extract_unsafe.go, src/extract_safe.go), which are interpretations of one locale: what they
    read at an offset or along an index path is what the object of Extract says.
  \<^item> Schema: validation and compilation: which valid schemas compile, and the layout (\<open>ct_wf\<close>, \<open>db_ok\<close>)
    transactions rely on.
  \<^item> Juuri: the tree library go-juuri, which is not part of the repository, as the parameter \<open>J\<close>: the
    record of its operations with their documented behaviour as the predicate \<open>juuri_laws\<close>, which
    red-black trees satisfy. Its watches are the parameter \<open>W\<close> of Notify.
  \<^item> TxnState, Txn, Query, Db: the state of a transaction, its writes, its queries, and the life of
    databases and transactions. Rows, RowSets, TableTrees, TableInv, TxnInv, Versions: the
    invariant of a table (\<open>table_inv\<close>: the primary index, every bitmap index and the row bookkeeping
    are those of one map from primary keys to rows, and so are the secondary indexes as long as no
    two rows have shared a key of one, which the flag \<open>clean\<close> says; \<open>table_ok\<close> is \<open>table_inv\<close> with the
    flag set), of a transaction (\<open>txn_inv\<close> with a flag per table, \<open>txn_ok\<close>) and of a version. The code
    does not check that rows differ in their keys of a unique secondary index; \<open>last_write\<close> says
    entry by entry what an Insert or Delete makes of the secondary indexes, clashes or not.
  \<^item> TxnSpec, Runs, ChangesSpec, QuerySpec, SetQuerySpec, RowAlgebra, DeleteSpec, DeletePrefixSpec:
    the properties of transactions: what each operation does on success and on failure, runs of
    operations and the changes they report, what each query returns, row sets with the handles of
    their vectors combined, DeleteAll up to the first row a query yields twice, and DeletePrefix
    with the cut at the raw bytes of the prefix. Clashes evaluates an Insert of a row whose unique
    key another row has; MultiValued evaluates DeleteAll and DeletePrefix on an index with several
    keys per row, and DeletePrefix on one that lowers its keys.
  \<^item> Pool: the pool of write states, with the slices a finished transaction leaves in them; no
    transaction can tell a pooled state from the new one that Txn gives it, and a pooled state keeps
    no table, tree or row bookkeeping alive.
  \<^item> TypedKeys, TypedKeysSpec, TypedWatch: typed tables and key handles against the untyped queries,
    and with the watch channels of their rows.
  \<^item> Watch, WatchSpec: waiting on watch channels, in one select or spread over goroutines, as a step
    relation under every interleaving; the generated selects are instances of the template in
    src/watch-gen/main.go. WatchChan: the goroutine and the channel of WatchCh.
  \<^item> Grown, Notify, NotifySpec: the watch channels of the queries and the notification of a commit.
    Every write operation only applies tree operations to the trees of the base version (Grown);
    with what the tree library promises of its watches (\<open>watch_laws\<close>) a query whose channel is still
    open has the same answer in every later state (for WhereWatch the same row ids), and a channel
    is closed only after the version that replaces what it watches is stored. The commit is two steps of a state machine here.

  \<^bold>\<open>Conventions.\<close> Go's integers are words of their width; lengths and positions in slices are natural
  numbers. Errors are values (\<open>res\<close>, \<open>tres\<close>, sums), panics are results, and a state passed along is
  the one the call leaves, failing calls included. Strings are byte lists where their bytes matter
  and HOL strings where they are names. The parameter \<open>uni\<close> is Unicode lower-casing of non-ASCII
  strings, \<open>nils\<close> whether a user's indexer returned a nil slice,
  \<open>hash\<close> the seeded hash of Changes: the theorems hold for every choice.

  \<^bold>\<open>Termination and bounds.\<close> All operations are total functions; loops over heights and lengths have
  measures. The iterator of bitmaps and the loops over row sets are partial functions, proved to
  return. Row ids are 32 bits; Insert is proved to succeed while the table has room (\<open>has_room\<close>) and
  to panic only without it. In PvecWorld and BitmapWorld the 64-bit epoch counter must not wrap, so a run has fewer
  than \<open>2 ^ 64 - 1\<close> steps.

  \<^bold>\<open>Not modelled.\<close> Watches on uncommitted state that a write transaction takes of itself, and
  freezing a tree for them: trees are values here. The exported methods in the build without
  package unsafe, which leaves slices and maps to the original indexers, and the two variants of the root pointer
  (src/memdb_root_safe.go, src/memdb_root_unsafe.go), which differ in the type of an atomic
  pointer. Integer keys of type uintptr; the text output of the generator src/watch-gen, and the
  benchmark tools. The capacities of buffers matter in Pool only.
\<close>

end
